(* ===== verification/CRE_Prelude.thy ===== *)
theory CRE_Prelude
  imports Main "HOL-Library.Word" "HOL-Library.Monad_Syntax"
begin

text \<open>
  Shared vocabulary of the development: the machine types of the code (an LP64 target,
  \<open>unsigned\<close> and \<open>int\<close> of 32 bits, \<open>size_t\<close> and pointers of 64 bits), and the
  primitives through which every model touches memory.

  A C operation that may hit undefined behaviour (a null or dangling dereference, an access
  outside an array, a loop that does not end) is a function into \<^typ>\<open>'a option\<close>, with
  \<^term>\<open>None\<close> for "goes wrong"; \<^theory_text>\<open>do\<close> blocks sequence such operations and pass the
  updated memory explicitly. A theorem that such a function returns \<open>Some\<close> therefore says
  that the code is memory safe and terminates on that input. Error returns of the C code are
  ordinary values inside \<open>Some\<close>.
\<close>

unbundle bit_operations_syntax

section \<open>Machine types\<close>

type_synonym byte = "8 word"
type_synonym uint32 = "32 word"
type_synonym uint64 = "64 word"
type_synonym size_t = "64 word"
type_synonym addr = "64 word"

text \<open>\<open>NULL\<close>, and the value an \<open>unsigned\<close> has after conversion to \<open>int\<close>.\<close>

abbreviation NULL :: addr where
  "NULL \<equiv> 0"

abbreviation c_int :: "uint32 \<Rightarrow> int" where
  "c_int w \<equiv> sint w"

text \<open>The bytes of a C string literal, without its terminator.\<close>

definition bytes_of :: "string \<Rightarrow> byte list" where
  "bytes_of s = map of_char s"

text \<open>The largest value of an \<open>int\<close>; an \<open>int\<close> result above it is undefined.\<close>

definition INT_MAX :: nat where
  "INT_MAX = 2 ^ 31 - 1"

section \<open>Collections of facts\<close>

named_theorems mem_simps \<open>evaluation of the checked memory primitives\<close>
named_theorems frame_simps \<open>what an update of one object leaves unchanged elsewhere\<close>

section \<open>Checked arrays\<close>

definition peek :: "'a list \<Rightarrow> nat \<Rightarrow> 'a option" where
  "peek xs i = (if i < length xs then Some (xs ! i) else None)"

definition poke :: "'a list \<Rightarrow> nat \<Rightarrow> 'a \<Rightarrow> 'a list option" where
  "poke xs i x = (if i < length xs then Some (xs[i := x]) else None)"

text \<open>
  \<open>memcpy\<close> of a separate source into a block, and \<open>memmove\<close> inside one block; both are
  undefined when a range leaves its block.
\<close>

definition mem_copy :: "'a list \<Rightarrow> nat \<Rightarrow> 'a list \<Rightarrow> 'a list option" where
  "mem_copy xs off ys =
     (if off + length ys \<le> length xs
      then Some (take off xs @ ys @ drop (off + length ys) xs) else None)"

definition mem_move :: "'a list \<Rightarrow> nat \<Rightarrow> nat \<Rightarrow> nat \<Rightarrow> 'a list option" where
  "mem_move xs dst src n =
     (if src + n \<le> length xs then mem_copy xs dst (take n (drop src xs)) else None)"

lemma peek_in [mem_simps]: "i < length xs \<Longrightarrow> peek xs i = Some (xs ! i)"
  by (simp add: peek_def)

lemma peek_out [mem_simps]: "length xs \<le> i \<Longrightarrow> peek xs i = None"
  by (simp add: peek_def)

lemma poke_in [mem_simps]: "i < length xs \<Longrightarrow> poke xs i x = Some (xs[i := x])"
  by (simp add: poke_def)

lemma poke_out [mem_simps]: "length xs \<le> i \<Longrightarrow> poke xs i x = None"
  by (simp add: poke_def)

lemma mem_copy_in [mem_simps]:
  "off + length ys \<le> length xs \<Longrightarrow>
     mem_copy xs off ys = Some (take off xs @ ys @ drop (off + length ys) xs)"
  by (simp add: mem_copy_def)

lemma mem_move_in [mem_simps]:
  "src + n \<le> length xs \<Longrightarrow> dst + n \<le> length xs \<Longrightarrow>
     mem_move xs dst src n =
       Some (take dst xs @ take n (drop src xs) @ drop (dst + n) xs)"
  by (simp add: mem_move_def mem_copy_def)

section \<open>A store of objects\<close>

text \<open>
  A store maps addresses to objects; the address 0 is never readable, whatever the map says.
\<close>

definition load :: "(addr \<rightharpoonup> 'n) \<Rightarrow> addr \<Rightarrow> 'n option" where
  "load h p = (if p = NULL then None else h p)"

definition modify :: "(addr \<rightharpoonup> 'n) \<Rightarrow> addr \<Rightarrow> ('n \<Rightarrow> 'n) \<Rightarrow> (addr \<rightharpoonup> 'n) option" where
  "modify h p f = (case load h p of None \<Rightarrow> None | Some n \<Rightarrow> Some (h(p \<mapsto> f n)))"

lemma load_Some [mem_simps]: "p \<noteq> NULL \<Longrightarrow> h p = Some n \<Longrightarrow> load h p = Some n"
  by (simp add: load_def)

lemma load_NULL [simp]: "load h NULL = None"
  by (simp add: load_def)

lemma load_upd_same [mem_simps]: "p \<noteq> NULL \<Longrightarrow> load (h(p \<mapsto> n)) p = Some n"
  by (simp add: load_def)

lemma load_upd_other [mem_simps]: "p \<noteq> q \<Longrightarrow> load (h(q \<mapsto> n)) p = load h p"
  by (simp add: load_def)

lemma modify_Some [mem_simps]: "load h p = Some n \<Longrightarrow> modify h p f = Some (h(p \<mapsto> f n))"
  by (simp add: modify_def)

lemma load_SomeD: "load h p = Some n \<Longrightarrow> p \<noteq> NULL \<and> h p = Some n"
  by (simp add: load_def split: if_splits)

section \<open>Words as numbers\<close>

lemma unat_of_nat_size [simp]: "n < 2 ^ 64 \<Longrightarrow> unat (of_nat n :: 64 word) = n"
  by (simp add: unat_of_nat take_bit_nat_eq_self)

lemma unat_of_nat_uint [simp]: "n < 2 ^ 32 \<Longrightarrow> unat (of_nat n :: 32 word) = n"
  by (simp add: unat_of_nat take_bit_nat_eq_self)

lemma sint_of_nat_small: "n < 2 ^ 31 \<Longrightarrow> sint (of_nat n :: 32 word) = int n"
  by (simp add: signed_of_nat signed_take_bit_int_eq_self)

lemma unat_plus_size:
  "unat (a :: 64 word) + unat b < 2 ^ 64 \<Longrightarrow> unat (a + b) = unat a + unat b"
  by (simp add: unat_word_ariths)

text \<open>A fact about all bytes, from the evaluation of its 256 instances.\<close>

lemma all_bytesI:
  assumes "list_all (\<lambda>n. P (word_of_nat n)) [0..<256]"
  shows "\<forall>b :: byte. P b"
proof
  fix b :: byte
  have "unat b < 256" using unsigned_less [of b, where ?'a = nat] by simp
  with assms have "P (word_of_nat (unat b))" by (simp add: list_all_iff del: of_nat_unat)
  then show "P b" by simp
qed

text \<open>Equality of bytes, bit by bit.\<close>

lemma bit_byte_high [simp]: "8 \<le> n \<Longrightarrow> \<not> bit (b :: byte) n"
  by (auto dest: bit_imp_le_length)

lemma byte_eqI:
  assumes "bit a 0 = bit b 0" "bit a 1 = bit b 1" "bit a 2 = bit b 2" "bit a 3 = bit b 3"
    "bit a 4 = bit b 4" "bit a 5 = bit b 5" "bit a 6 = bit b 6" "bit a 7 = bit b 7"
  shows "(a :: byte) = b"
proof (rule bit_word_eqI)
  fix n assume "n < LENGTH(8)"
  then have "n = 0 \<or> n = 1 \<or> n = 2 \<or> n = 3 \<or> n = 4 \<or> n = 5 \<or> n = 6 \<or> n = 7" by auto
  with assms show "bit a n = bit b n" by metis
qed

lemma byte_eq_iff:
  "(a :: byte) = b \<longleftrightarrow>
     bit a 0 = bit b 0 \<and> bit a 1 = bit b 1 \<and> bit a 2 = bit b 2 \<and> bit a 3 = bit b 3 \<and>
     bit a 4 = bit b 4 \<and> bit a 5 = bit b 5 \<and> bit a 6 = bit b 6 \<and> bit a 7 = bit b 7"
  by (rule iffI, simp, (erule conjE)+, rule byte_eqI)

end
