(* ===== verification/Codec.thy ===== *)
theory Codec
  imports CRE_Prelude
begin

text \<open>
  The contract shared by the encoders of \<open>encode/\<close>: a text encoding that a decoder inverts, and
  that is computed block by block, so that inputs whose length is a multiple of the block size
  may be encoded piecewise. The clients of the encoders rely on exactly these two laws.
\<close>

locale block_codec =
  fixes enc :: "byte list \<Rightarrow> byte list"
    and dec :: "byte list \<Rightarrow> byte list option"
    and k :: nat
  assumes dec_enc: "dec (enc xs) = Some xs"
    and enc_append: "k dvd length xs \<Longrightarrow> enc (xs @ ys) = enc xs @ enc ys"
begin

lemma enc_inject: "enc xs = enc ys \<longleftrightarrow> xs = ys"
  by (metis dec_enc option.inject)

lemma enc_concat:
  "\<forall>c \<in> set cs. k dvd length c \<Longrightarrow> enc (concat cs @ ys) = concat (map enc cs) @ enc ys"
  by (induction cs) (simp_all add: enc_append)

lemma dec_concat:
  "\<forall>c \<in> set cs. k dvd length c \<Longrightarrow> dec (concat (map enc cs) @ enc ys) = Some (concat cs @ ys)"
  using enc_concat [of cs ys] dec_enc by metis

lemma prefix_free:
  "k dvd length xs \<Longrightarrow> enc zs = enc xs @ enc ys \<longleftrightarrow> zs = xs @ ys"
  by (metis enc_append enc_inject)

end

end
