(* ===== verification/Hex.thy ===== *)
theory Hex
  imports Codec
begin

text \<open>
  \<open>encode/hex.c\<close>: hexadecimal notation of bytes. The two functions of the module are modelled
  on checked buffers; the codec lemmas relate their loops to per-byte specifications.
\<close>

section \<open>The code\<close>

definition lower_xdigits :: "byte list" where
  "lower_xdigits = bytes_of ''0123456789abcdef''"

definition upper_xdigits :: "byte list" where
  "upper_xdigits = bytes_of ''0123456789ABCDEF''"

text \<open>
  The loop of \<open>hex_encode\<close>: \<open>i\<close> and \<open>j\<close> are the offsets of the pointers \<open>in\<close> and \<open>out\<close> in
  their buffers, \<open>in_end\<close> and \<open>out_end\<close> the offsets of the two end pointers.
\<close>

function hex_encode_loop ::
  "byte list \<Rightarrow> byte list \<Rightarrow> nat \<Rightarrow> nat \<Rightarrow> nat \<Rightarrow> nat \<Rightarrow> byte list \<Rightarrow> (nat \<times> byte list) option" where
  "hex_encode_loop xdigits inb in_end out_end i j out =
     (if i < in_end \<and> j + 1 < out_end then do {
        b \<leftarrow> peek inb i;
        hi \<leftarrow> peek xdigits (unat (drop_bit 4 (b AND 0xf0)));
        out \<leftarrow> poke out j hi;
        lo \<leftarrow> peek xdigits (unat (b AND 0x0f));
        out \<leftarrow> poke out (j + 1) lo;
        hex_encode_loop xdigits inb in_end out_end (i + 1) (j + 2) out
      }
      else Some (j, out))"
  by pat_completeness auto
termination
  by (relation "measure (\<lambda>(_, _, in_end, _, i, _). in_end - i)") auto

text \<open>
  \<open>out_buf\<close> is \<^term>\<open>None\<close> for a null pointer. The result is the returned \<open>int\<close> and the output
  buffer afterwards. Sizes are \<open>unsigned\<close>, so \<open>in_size * 2\<close> wraps at 32 bits.
\<close>

definition hex_encode ::
  "byte list \<Rightarrow> uint32 \<Rightarrow> byte list option \<Rightarrow> uint32 \<Rightarrow> bool \<Rightarrow> (int \<times> byte list option) option" where
  "hex_encode in_buf in_size out_buf out_size lowercase =
     (let xdigits = (if lowercase then lower_xdigits else upper_xdigits)
      in case out_buf of
        None \<Rightarrow> Some (c_int (in_size * 2 + 1), None)
      | Some out \<Rightarrow>
          if out_size < in_size * 2 then Some (-1, Some out)
          else do {
            (j, out) \<leftarrow> hex_encode_loop xdigits in_buf (unat in_size) (unat out_size) 0 0 out;
            out \<leftarrow> (if j < unat out_size then poke out j 0 else Some out);
            Some (c_int (of_nat j), Some out)
          })"

text \<open>One digit, as the two identical character tests of \<open>hex_decode\<close> read it.\<close>

definition hex_digit_value :: "byte \<Rightarrow> byte option" where
  "hex_digit_value c =
     (if of_char CHR ''0'' \<le> c \<and> c \<le> of_char CHR ''9'' then Some (c - of_char CHR ''0'')
      else if of_char CHR ''a'' \<le> c \<and> c \<le> of_char CHR ''z'' then Some (c - of_char CHR ''a'' + 10)
      else if of_char CHR ''A'' \<le> c \<and> c \<le> of_char CHR ''Z'' then Some (c - of_char CHR ''A'' + 10)
      else None)"

text \<open>
  The loop of \<open>hex_decode\<close>. The first component of the result is the status: \<^term>\<open>None\<close> for
  the early \<open>return -1\<close>, else the final offset of \<open>out\<close>.
\<close>

function hex_decode_loop ::
  "byte list \<Rightarrow> nat \<Rightarrow> nat \<Rightarrow> nat \<Rightarrow> nat \<Rightarrow> byte list \<Rightarrow> (nat option \<times> byte list) option" where
  "hex_decode_loop inb in_end out_end i j out =
     (if i < in_end \<and> j < out_end then do {
        c \<leftarrow> peek inb i;
        (case hex_digit_value c of
           None \<Rightarrow> Some (None, out)
         | Some d \<Rightarrow> do {
             out \<leftarrow> poke out j (push_bit 4 d);
             c' \<leftarrow> peek inb (i + 1);
             (case hex_digit_value c' of
                None \<Rightarrow> Some (None, out)
              | Some d' \<Rightarrow> do {
                  o1 \<leftarrow> peek out j;
                  out \<leftarrow> poke out j (o1 OR d');
                  hex_decode_loop inb in_end out_end (i + 2) (j + 1) out
                })
           })
      }
      else Some (Some j, out))"
  by pat_completeness auto
termination
  by (relation "measure (\<lambda>(_, in_end, _, i, _). in_end - i)") auto

definition hex_decode ::
  "byte list \<Rightarrow> uint32 \<Rightarrow> byte list option \<Rightarrow> uint32 \<Rightarrow> (int \<times> byte list option) option" where
  "hex_decode in_buf in_size out_buf out_size =
     (case out_buf of
        None \<Rightarrow> Some (c_int (in_size div 2), None)
      | Some out \<Rightarrow>
          if in_size mod 2 \<noteq> 0 then Some (-1, Some out)
          else if out_size < in_size div 2 then Some (-1, Some out)
          else do {
            (r, out) \<leftarrow> hex_decode_loop in_buf (unat in_size) (unat out_size) 0 0 out;
            Some (case r of None \<Rightarrow> (-1, Some out) | Some j \<Rightarrow> (c_int (of_nat j), Some out))
          })"

declare hex_encode_loop.simps [simp del] hex_decode_loop.simps [simp del]

section \<open>Specification\<close>

definition hex_byte :: "bool \<Rightarrow> byte \<Rightarrow> byte list" where
  "hex_byte lowercase b =
     (let xd = (if lowercase then lower_xdigits else upper_xdigits)
      in [xd ! unat (drop_bit 4 (b AND 0xf0)), xd ! unat (b AND 0x0f)])"

definition hex_text :: "bool \<Rightarrow> byte list \<Rightarrow> byte list" where
  "hex_text lowercase bs = concat (map (hex_byte lowercase) bs)"

text \<open>What the decoder accepts, pair by pair.\<close>

fun hex_parse :: "byte list \<Rightarrow> byte list option" where
  "hex_parse [] = Some []"
| "hex_parse [_] = None"
| "hex_parse (c # c' # cs) = do {
     d \<leftarrow> hex_digit_value c;
     d' \<leftarrow> hex_digit_value c';
     bs \<leftarrow> hex_parse cs;
     Some ((push_bit 4 d OR d') # bs)
   }"


section \<open>Correctness\<close>

lemma length_xdigits [simp]: "length lower_xdigits = 16" "length upper_xdigits = 16"
  by (simp_all add: lower_xdigits_def upper_xdigits_def bytes_of_def)

lemma nibble_facts:
  "\<forall>b :: byte. unat (drop_bit 4 (b AND 0xf0)) < 16 \<and> unat (b AND 0x0f) < 16
     \<and> push_bit 4 (drop_bit 4 (b AND 0xf0)) OR (b AND 0x0f) = b"
  by (rule all_bytesI) code_simp

lemma nibble_bounds [simp]:
  "unat (drop_bit 4 (b AND 0xf0) :: byte) < 16" "unat (b AND 0x0f :: byte) < 16"
  using nibble_facts by blast+

lemma nibbles_join: "push_bit 4 (drop_bit 4 (b AND 0xf0)) OR (b AND 0x0f) = (b :: byte)"
  using nibble_facts by blast

lemma hex_digit_value_xdigits:
  assumes "n < 16"
  shows "hex_digit_value (lower_xdigits ! n) = Some (of_nat n)"
    and "hex_digit_value (upper_xdigits ! n) = Some (of_nat n)"
proof -
  have "list_all (\<lambda>n. hex_digit_value (lower_xdigits ! n) = Some (of_nat n)) [0..<16]"
    "list_all (\<lambda>n. hex_digit_value (upper_xdigits ! n) = Some (of_nat n)) [0..<16]"
    by code_simp+
  with assms show "hex_digit_value (lower_xdigits ! n) = Some (of_nat n)"
    and "hex_digit_value (upper_xdigits ! n) = Some (of_nat n)"
    by (auto simp: list_all_iff)
qed

lemma length_hex_byte [simp]: "length (hex_byte lc b) = 2"
  by (simp add: hex_byte_def)

lemma length_hex_text [simp]: "length (hex_text lc bs) = 2 * length bs"
  by (induction bs) (simp_all add: hex_text_def)

lemma hex_text_Cons: "hex_text lc (b # bs) = hex_byte lc b @ hex_text lc bs"
  by (simp add: hex_text_def)

lemma hex_parse_text: "hex_parse (hex_text lc bs) = Some bs"
proof (induction bs)
  case Nil
  show ?case by (simp add: hex_text_def)
next
  case (Cons b bs)
  moreover have "hex_parse (hex_byte lc b @ cs) = map_option ((#) b) (hex_parse cs)" for cs
    using nibbles_join [of b]
    by (cases "hex_parse cs") (simp_all add: hex_byte_def hex_digit_value_xdigits Let_def)
  ultimately show ?case
    by (simp add: hex_text_Cons)
qed

lemma hex_encode_loop_step:
  fixes lc :: bool
  defines "xd \<equiv> if lc then lower_xdigits else upper_xdigits"
  assumes "i < n" "n \<le> length inb" "j + 2 \<le> out_end" "out_end \<le> length out"
  shows "hex_encode_loop xd inb n out_end i j out =
    hex_encode_loop xd inb n out_end (i + 1) (j + 2)
      (take j out @ hex_byte lc (inb ! i) @ drop (j + 2) out)"
proof -
  have "out[j := x, Suc j := y] = take j out @ [x, y] @ drop (j + 2) out" for x y
    using assms by (simp add: upd_conv_take_nth_drop take_Suc_conv_app_nth nth_append drop_Cons'
        list_update_append)
  with assms show ?thesis
    by (subst hex_encode_loop.simps) (simp add: mem_simps hex_byte_def Let_def)
qed

lemma hex_encode_loop_spec:
  assumes "i \<le> n" "n \<le> length inb" "j + 2 * (n - i) \<le> out_end" "out_end \<le> length out"
  shows "hex_encode_loop (if lc then lower_xdigits else upper_xdigits) inb n out_end i j out =
    Some (j + 2 * (n - i),
      take j out @ hex_text lc (take (n - i) (drop i inb)) @ drop (j + 2 * (n - i)) out)"
  using assms
proof (induction "n - i" arbitrary: i j out)
  case 0
  then show ?case
    by (subst hex_encode_loop.simps) (simp add: hex_text_def)
next
  case (Suc k)
  let ?out = "take j out @ hex_byte lc (inb ! i) @ drop (j + 2) out"
  have k: "n - i = Suc k" "i < n" "k = n - (i + 1)" using Suc.hyps(2) by auto
  have "hex_encode_loop (if lc then lower_xdigits else upper_xdigits) inb n out_end i j out =
      hex_encode_loop (if lc then lower_xdigits else upper_xdigits) inb n out_end (i + 1) (j + 2) ?out"
    using Suc.prems k by (intro hex_encode_loop_step) auto
  also have "\<dots> = Some (j + 2 + 2 * k,
      take (j + 2) ?out @ hex_text lc (take k (drop (i + 1) inb)) @ drop (j + 2 + 2 * k) ?out)"
    using Suc.prems k Suc.hyps(1)[of "i + 1" "j + 2" ?out] by auto
  also have "take (Suc k) (drop i inb) = inb ! i # take k (drop (i + 1) inb)"
    using Suc.prems k by (simp add: Cons_nth_drop_Suc[symmetric])
  ultimately show ?case
    using Suc.prems k
    by (simp add: hex_text_Cons algebra_simps)
qed


lemma hex_decode_loop_step:
  assumes "i + 1 < n" "n \<le> length inb" "j < out_end" "out_end \<le> length out"
  shows "hex_decode_loop inb n out_end i j out =
    (case hex_digit_value (inb ! i) of
       None \<Rightarrow> Some (None, out)
     | Some d \<Rightarrow>
        (case hex_digit_value (inb ! (i + 1)) of
           None \<Rightarrow> Some (None, out[j := push_bit 4 d])
         | Some d' \<Rightarrow>
            hex_decode_loop inb n out_end (i + 2) (j + 1) (out[j := push_bit 4 d OR d'])))"
  using assms
  by (subst hex_decode_loop.simps) (auto simp: mem_simps split: option.splits)

lemma hex_decode_loop_spec:
  assumes "i \<le> n" "even (n - i)" "n \<le> length inb" "j + (n - i) div 2 \<le> out_end"
    "out_end \<le> length out"
  shows "case hex_parse (take (n - i) (drop i inb)) of
      Some bs \<Rightarrow> hex_decode_loop inb n out_end i j out =
        Some (Some (j + length bs), take j out @ bs @ drop (j + length bs) out)
    | None \<Rightarrow> \<exists>out'. hex_decode_loop inb n out_end i j out = Some (None, out') \<and>
        length out' = length out"
  using assms
proof (induction "n - i" arbitrary: i j out rule: less_induct)
  case less
  show ?case
  proof (cases "i = n")
    case True
    then show ?thesis by (subst hex_decode_loop.simps) simp
  next
    case False
    with less.prems have lt: "i + 1 < n" by presburger
    then have "n - i = Suc (Suc (n - (i + 2)))" by simp
    moreover have "drop i inb = inb ! i # inb ! (i + 1) # drop (i + 2) inb"
      using lt less.prems by (simp add: Cons_nth_drop_Suc)
    ultimately have pair: "take (n - i) (drop i inb) =
        inb ! i # inb ! (i + 1) # take (n - (i + 2)) (drop (i + 2) inb)" by simp
    have j: "j < out_end" using less.prems lt by linarith
    note step = hex_decode_loop_step [OF lt \<open>n \<le> length inb\<close> j \<open>out_end \<le> length out\<close>]
    have IH: "\<forall>out'. length out' = length out \<longrightarrow>
      (case hex_parse (take (n - (i + 2)) (drop (i + 2) inb)) of
        Some bs \<Rightarrow> hex_decode_loop inb n out_end (i + 2) (j + 1) out' =
          Some (Some (j + 1 + length bs), take (j + 1) out' @ bs @ drop (j + 1 + length bs) out')
      | None \<Rightarrow> \<exists>out''. hex_decode_loop inb n out_end (i + 2) (j + 1) out' = Some (None, out'') \<and>
          length out'' = length out')"
      using less.prems lt by (intro allI impI less.hyps) auto
    have out: "take (j + 1) (out[j := x]) = take j out @ [x]" for x
      using j less.prems by (simp add: take_Suc_conv_app_nth)
    show ?thesis
    proof (cases "hex_digit_value (inb ! i)")
      case None
      then show ?thesis using step pair by simp
    next
      case d: (Some d)
      show ?thesis
      proof (cases "hex_digit_value (inb ! (i + 1))")
        case None
        then show ?thesis using step pair d by simp
      next
        case (Some d')
        then show ?thesis
          using step pair d out IH [rule_format, of "out[j := push_bit 4 d OR d']"]
          by (auto split: option.splits)
      qed
    qed
  qed
qed

section \<open>Properties\<close>

lemma unat_double: "unat (n :: uint32) < 2 ^ 31 \<Longrightarrow> unat (n * 2) = 2 * unat n"
  by (simp add: unat_word_ariths)

text \<open>
  On an input of \<open>in_size\<close> readable bytes and an output buffer with room for two digits per
  byte, \<open>hex_encode\<close> stays inside both buffers, writes exactly the two digits of every byte (high
  nibble first, in the requested case), adds the terminator when it fits, leaves the rest of the
  output as it was and returns the number of digits.
\<close>

theorem hex_encode_correct:
  assumes "unat in_size \<le> length in_buf" and "2 * unat in_size \<le> unat out_size"
    and "unat out_size \<le> length out" and "unat in_size < 2 ^ 30"
  shows "hex_encode in_buf in_size (Some out) out_size lowercase =
    Some (2 * int (unat in_size), Some (
      hex_text lowercase (take (unat in_size) in_buf) @
      (if 2 * unat in_size < unat out_size then 0 # drop (2 * unat in_size + 1) out
       else drop (2 * unat in_size) out)))"
proof -
  have two: "unat (in_size * 2) = 2 * unat in_size"
    using assms unat_double [of in_size] by simp
  have ret: "c_int (of_nat (2 * unat in_size)) = 2 * int (unat in_size)"
    using assms by (subst sint_of_nat_small) simp_all
  have "hex_encode_loop (if lowercase then lower_xdigits else upper_xdigits) in_buf (unat in_size)
      (unat out_size) 0 0 out =
    Some (2 * unat in_size,
      hex_text lowercase (take (unat in_size) in_buf) @ drop (2 * unat in_size) out)"
    using hex_encode_loop_spec [of 0 "unat in_size" in_buf 0 "unat out_size" out lowercase] assms
    by simp
  then show ?thesis
    using assms two ret
    by (simp add: hex_encode_def Let_def word_less_nat_alt mem_simps
        list_update_append Cons_nth_drop_Suc [symmetric] del: of_nat_mult)
qed


theorem hex_encode_correct_witness:
  "hex_encode [0xab, 0x01] 2 (Some [9, 9, 9, 9, 9, 9]) 6 True =
     Some (4, Some (bytes_of ''ab01'' @ [0, 9]))"
  using hex_encode_correct [of 2 "[0xab, 0x01]" 6 "[9, 9, 9, 9, 9, 9]" True]
  by (simp add: hex_text_def hex_byte_def lower_xdigits_def bytes_of_def)

lemma hex_parse_odd: "odd (length cs) \<Longrightarrow> hex_parse cs = None"
  by (induction cs rule: hex_parse.induct) (auto split: bind_splits)

lemma hex_parse_length: "hex_parse cs = Some bs \<Longrightarrow> length cs = 2 * length bs"
  by (induction cs arbitrary: bs rule: hex_parse.induct) (auto simp: bind_eq_Some_conv)

interpretation hex: block_codec "hex_text lc" hex_parse 1
  by unfold_locales (rule hex_parse_text, simp add: hex_text_def)

text \<open>
  \<open>hex_decode\<close> reads exactly \<open>in_size\<close> characters: if they parse as pairs of digits the bytes
  are stored at the start of the output and their number is returned; otherwise (a bad character,
  or an odd number of them) the function returns -1 and the output keeps its length.
\<close>

theorem hex_decode_correct:
  assumes "unat in_size \<le> length in_buf" and "unat in_size div 2 \<le> unat out_size"
    and "unat out_size \<le> length out"
  shows "case hex_parse (take (unat in_size) in_buf) of
      Some bs \<Rightarrow> hex_decode in_buf in_size (Some out) out_size =
        Some (int (length bs), Some (bs @ drop (length bs) out))
    | None \<Rightarrow> \<exists>out'. hex_decode in_buf in_size (Some out) out_size = Some (-1, Some out') \<and>
        length out' = length out"
proof -
  have par: "in_size mod 2 = 0 \<longleftrightarrow> even (unat in_size)"
    by (simp add: word_eq_iff_unsigned even_iff_mod_2_eq_zero unat_mod flip: unat_eq_zero)
  have half: "\<not> out_size < in_size div 2"
    using assms by (simp add: word_less_nat_alt unat_div)
  show ?thesis
  proof (cases "even (unat in_size)")
    case False
    then show ?thesis
      using assms par hex_parse_odd [of "take (unat in_size) in_buf"]
      by (simp add: hex_decode_def)
  next
    case True
    have bound: "unat in_size < 2 ^ 32" using unsigned_less [of in_size, where ?'a = nat] by simp
    have ret: "sint (of_nat (length bs) :: uint32) = int (length bs)"
      if "hex_parse (take (unat in_size) in_buf) = Some bs" for bs
      using hex_parse_length [OF that] assms(1) bound by (intro sint_of_nat_small) simp
    show ?thesis
      using hex_decode_loop_spec [of 0 "unat in_size" in_buf 0 "unat out_size" out] assms True
      by (auto simp: hex_decode_def half par ret split: option.splits)
  qed
qed

theorem hex_decode_correct_witness:
  "hex_decode (bytes_of ''aB01'') 4 (Some [9, 9, 9]) 3 = Some (2, Some [0xab, 0x01, 9])
   \<and> (\<exists>out'. hex_decode (bytes_of ''a/'') 2 (Some [9]) 1 = Some (-1, Some out') \<and> length out' = 1)"
  using hex_decode_correct [of 4 "bytes_of ''aB01''" 3 "[9, 9, 9]"]
    hex_decode_correct [of 2 "bytes_of ''a/''" 1 "[9]"]
  by (simp add: bytes_of_def hex_digit_value_def)

text \<open>
  Round trip through the two C functions with the buffer sizes their NULL queries announce:
  encoding into the announced size returns the text with its terminator, and decoding the text
  gives the input back.
\<close>

theorem hex_roundtrip:
  fixes bs :: "byte list"
  defines "n \<equiv> length bs"
  assumes "n < 2 ^ 29" and "length out1 = 2 * n + 1" and "length out2 = n"
  shows "hex_encode bs (of_nat n) None 0 lc = Some (int (2 * n + 1), None) \<and>
    (\<exists>txt. hex_encode bs (of_nat n) (Some out1) (of_nat (2 * n + 1)) lc =
           Some (int (2 * n), Some (txt @ [0])) \<and>
         hex_decode txt (of_nat (2 * n)) (Some out2) (of_nat n) = Some (int n, Some bs))"
proof -
  have n: "unat (of_nat n :: uint32) = n" "unat (of_nat (2 * n) :: uint32) = 2 * n"
      "unat (of_nat (2 * n + 1) :: uint32) = 2 * n + 1"
    using assms by (simp_all del: of_nat_mult of_nat_add of_nat_Suc)
  have query: "hex_encode bs (of_nat n) None 0 lc = Some (int (2 * n + 1), None)"
  proof -
    have "(of_nat n * 2 + 1 :: uint32) = of_nat (2 * n + 1)" by simp
    then show ?thesis
      using assms sint_of_nat_small [of "2 * n + 1"]
      by (simp add: hex_encode_def algebra_simps)
  qed
  have enc: "hex_encode bs (of_nat n) (Some out1) (of_nat (2 * n + 1)) lc =
      Some (int (2 * n), Some (hex_text lc bs @ [0]))"
    using hex_encode_correct [of "of_nat n" bs "of_nat (2 * n + 1)" out1 lc] assms n
    by (simp del: of_nat_mult of_nat_add of_nat_Suc of_nat_unat)
  have dec: "hex_decode (hex_text lc bs) (of_nat (2 * n)) (Some out2) (of_nat n) =
      Some (int n, Some bs)"
    using hex_decode_correct [of "of_nat (2 * n)" "hex_text lc bs" "of_nat n" out2] assms n
    by (simp add: hex.dec_enc del: of_nat_mult)
  from query enc dec show ?thesis by blast
qed

theorem hex_roundtrip_witness:
  "\<exists>txt. hex_encode [0x5a] 1 (Some [7, 7, 7]) 3 False = Some (2, Some (txt @ [0])) \<and>
     hex_decode txt 2 (Some [7]) 1 = Some (1, Some [0x5a])"
  using hex_roundtrip [of "[0x5a]" "[7, 7, 7]" "[7]" False] by simp

text \<open>
  The decoder takes more letters for digits than hexadecimal notation has: every letter after
  \<open>f\<close> (or \<open>F\<close>) is accepted too, and its value does not fit a nibble, so that a pair with such a
  letter is decoded to a byte which does not encode back to it instead of being refused with -1.
\<close>

theorem hex_decode_accepts_letters_past_f:
  "of_char CHR ''g'' \<le> c \<and> c \<le> (of_char CHR ''z'' :: byte) \<Longrightarrow>
     \<exists>b. hex_decode [of_char CHR ''0'', c] 2 (Some [0]) 1 = Some (1, Some [b]) \<and>
       15 < b \<and> hex_text True [b] \<noteq> [of_char CHR ''0'', c]"
proof -
  have "list_all (\<lambda>n. hex_parse [of_char CHR ''0'', word_of_nat n] = Some [word_of_nat n - 87] \<and>
      15 < (word_of_nat n - 87 :: byte) \<and>
      hex_text True [word_of_nat n - 87] \<noteq> [of_char CHR ''0'', word_of_nat n]) [103..<123]"
    by code_simp
  moreover assume "of_char CHR ''g'' \<le> c \<and> c \<le> (of_char CHR ''z'' :: byte)"
  then have "103 \<le> unat c \<and> unat c < 123" by (simp add: word_le_nat_alt)
  moreover have "word_of_nat (unat c) = c" by simp
  ultimately have "hex_parse [of_char CHR ''0'', c] = Some [c - 87] \<and> 15 < c - 87 \<and>
      hex_text True [c - 87] \<noteq> [of_char CHR ''0'', c]"
    unfolding list_all_iff by (metis atLeastLessThan_iff set_upt)
  then show ?thesis
    using hex_decode_correct [of 2 "[of_char CHR ''0'', c]" 1 "[0]"] by auto
qed

theorem hex_decode_accepts_letters_past_f_witness:
  "\<exists>b. hex_decode (bytes_of ''0z'') 2 (Some [0]) 1 = Some (1, Some [b]) \<and>
       15 < b \<and> hex_text True [b] \<noteq> bytes_of ''0z''"
  using hex_decode_accepts_letters_past_f [of "of_char CHR ''z''"] by (simp add: bytes_of_def)

end
