(* ===== verification/Base64.thy ===== *)
theory Base64
  imports Codec
begin

text \<open>
  \<open>encode/base64.c\<close> and \<open>encode/base64.h\<close>: Base64 with a choice of the last two digits and of the
  padding character. Offsets and sizes are \<open>unsigned\<close> and wrap at 32 bits, as in the code. The
  type \<open>char\<close> is signed (as with gcc, clang and MSVC on x86), so that a table indexed by a
  \<open>char\<close> with its top bit set is accessed out of bounds.
\<close>

section \<open>The code\<close>

record BASE64_OPTIONS =
  ch62 :: byte
  ch63 :: byte
  pad :: byte

definition base64_def_options :: BASE64_OPTIONS where
  "base64_def_options = \<lparr>ch62 = of_char CHR ''+'', ch63 = of_char CHR ''/'', pad = of_char CHR ''=''\<rparr>"

text \<open>\<open>if(options == NULL) options = &base64_def_options;\<close>\<close>

definition the_options :: "BASE64_OPTIONS option \<Rightarrow> BASE64_OPTIONS" where
  "the_options options = (case options of None \<Rightarrow> base64_def_options | Some opts \<Rightarrow> opts)"

definition base64_table_core :: "byte list" where
  "base64_table_core =
     bytes_of ''ABCDEFGHIJKLMNOPQRSTUVWXYZabcdefghijklmnopqrstuvwxyz0123456789''"

text \<open>The \<open>errno\<close> constants of the C library (their Linux values).\<close>

definition EINVAL :: int where "EINVAL = 22"
definition ENOBUFS :: int where "ENOBUFS = 105"

text \<open>Array accesses with an \<open>int\<close> index.\<close>

definition peek_int :: "'a list \<Rightarrow> int \<Rightarrow> 'a option" where
  "peek_int xs i = (if i < 0 then None else peek xs (nat i))"

definition poke_int :: "'a list \<Rightarrow> int \<Rightarrow> 'a \<Rightarrow> 'a list option" where
  "poke_int xs i x = (if i < 0 then None else poke xs (nat i) x)"

text \<open>The digit at six bits of \<open>v\<close>: \<open>table[(uint8_t)(v >> k) & 0x3f]\<close>.\<close>

definition base64_digit :: "byte list \<Rightarrow> uint32 \<Rightarrow> nat \<Rightarrow> byte option" where
  "base64_digit table v k = peek table (unat ((ucast (drop_bit k v) :: byte) AND 0x3f))"

partial_function (option) base64_encode_loop ::
  "byte list \<Rightarrow> byte list \<Rightarrow> uint32 \<Rightarrow> uint32 \<Rightarrow> uint32 \<Rightarrow> byte list \<Rightarrow>
     (uint32 \<times> uint32 \<times> byte list) option" where
  "base64_encode_loop table inb in_size in_off out_off out =
     (if in_off + 3 \<le> in_size then do {
        b0 \<leftarrow> peek inb (unat in_off);
        b1 \<leftarrow> peek inb (unat (in_off + 1));
        b2 \<leftarrow> peek inb (unat (in_off + 2));
        let v = push_bit 16 (ucast b0) OR push_bit 8 (ucast b1) OR ucast b2;
        d0 \<leftarrow> base64_digit table v 18;
        out \<leftarrow> poke out (unat out_off) d0;
        d1 \<leftarrow> base64_digit table v 12;
        out \<leftarrow> poke out (unat (out_off + 1)) d1;
        d2 \<leftarrow> base64_digit table v 6;
        out \<leftarrow> poke out (unat (out_off + 2)) d2;
        d3 \<leftarrow> base64_digit table v 0;
        out \<leftarrow> poke out (unat (out_off + 3)) d3;
        base64_encode_loop table inb in_size (in_off + 3) (out_off + 4) out
      }
      else Some (in_off, out_off, out))"

text \<open>The tail of one or two input bytes, with its padding.\<close>

definition base64_encode_tail ::
  "BASE64_OPTIONS \<Rightarrow> byte list \<Rightarrow> byte list \<Rightarrow> uint32 \<Rightarrow> uint32 \<Rightarrow> uint32 \<Rightarrow> byte list \<Rightarrow>
     (uint32 \<times> byte list) option" where
  "base64_encode_tail opts table inb in_size in_off out_off out =
     (if in_off + 1 = in_size then do {
        b0 \<leftarrow> peek inb (unat in_off);
        let v = push_bit 16 (ucast b0);
        d0 \<leftarrow> base64_digit table v 18;
        out \<leftarrow> poke out (unat out_off) d0;
        d1 \<leftarrow> base64_digit table v 12;
        out \<leftarrow> poke out (unat (out_off + 1)) d1;
        if pad opts \<noteq> 0 then do {
          out \<leftarrow> poke out (unat (out_off + 2)) (pad opts);
          out \<leftarrow> poke out (unat (out_off + 3)) (pad opts);
          Some (out_off + 4, out)
        } else Some (out_off + 2, out)
      }
      else if in_off + 2 = in_size then do {
        b0 \<leftarrow> peek inb (unat in_off);
        b1 \<leftarrow> peek inb (unat (in_off + 1));
        let v = push_bit 16 (ucast b0) OR push_bit 8 (ucast b1);
        d0 \<leftarrow> base64_digit table v 18;
        out \<leftarrow> poke out (unat out_off) d0;
        d1 \<leftarrow> base64_digit table v 12;
        out \<leftarrow> poke out (unat (out_off + 1)) d1;
        d2 \<leftarrow> base64_digit table v 6;
        out \<leftarrow> poke out (unat (out_off + 2)) d2;
        if pad opts \<noteq> 0 then do {
          out \<leftarrow> poke out (unat (out_off + 3)) (pad opts);
          Some (out_off + 4, out)
        } else Some (out_off + 3, out)
      }
      else Some (out_off, out))"

definition base64_encode_size :: "BASE64_OPTIONS \<Rightarrow> uint32 \<Rightarrow> uint32" where
  "base64_encode_size opts in_size =
     (let needed = ((in_size + 2) div 3) * 4
      in if pad opts = 0
         then (if in_size mod 3 = 1 then needed - 2
               else if in_size mod 3 = 2 then needed - 1 else needed)
         else needed)"

definition base64_encode ::
  "byte list \<Rightarrow> uint32 \<Rightarrow> byte list option \<Rightarrow> uint32 \<Rightarrow> BASE64_OPTIONS option \<Rightarrow>
     (int \<times> byte list option) option" where
  "base64_encode in_buf in_size out_buf out_size options =
     (let opts = the_options options;
          out_size_needed = base64_encode_size opts in_size
      in case out_buf of
        None \<Rightarrow> Some (c_int (out_size_needed + 1), None)
      | Some out \<Rightarrow>
          if out_size < out_size_needed then Some (- ENOBUFS, Some out)
          else do {
            let table = base64_table_core @ [ch62 opts, ch63 opts];
            (in_off, out_off, out) \<leftarrow> base64_encode_loop table in_buf in_size 0 0 out;
            (out_off, out) \<leftarrow> base64_encode_tail opts table in_buf in_size in_off out_off out;
            out \<leftarrow> (if out_off < out_size then poke out (unat out_off) 0 else Some out);
            Some (c_int out_off, Some out)
          })"

text \<open>\<open>table[(int) c]\<close> of the decoder, for a \<open>char\<close>.\<close>

definition base64_value :: "byte list \<Rightarrow> byte \<Rightarrow> byte option" where
  "base64_value table c = peek_int table (sint c)"

text \<open>\<open>for(i = 0; i < 62; i++) table[(int) base64_table_core[i]] = i;\<close> from \<open>i\<close> on.\<close>

function base64_table_fill :: "byte list \<Rightarrow> nat \<Rightarrow> byte list option" where
  "base64_table_fill table i =
     (if i < 62 then do {
        c \<leftarrow> peek base64_table_core i;
        table \<leftarrow> poke_int table (sint c) (of_nat i);
        base64_table_fill table (i + 1)
      }
      else Some table)"
  by pat_completeness auto
termination
  by (relation "measure (\<lambda>(_, i). 62 - i)") auto

definition base64_decode_table :: "BASE64_OPTIONS \<Rightarrow> byte list option" where
  "base64_decode_table opts = do {
     table \<leftarrow> base64_table_fill (replicate 256 0xff) 0;
     table \<leftarrow> poke_int table (sint (ch62 opts)) 62;
     poke_int table (sint (ch63 opts)) 63
   }"

text \<open>\<open>in_size\<close> after the padding is dropped.\<close>

definition base64_strip :: "BASE64_OPTIONS \<Rightarrow> byte list \<Rightarrow> uint32 \<Rightarrow> uint32 option" where
  "base64_strip opts inb in_size =
     (if pad opts \<noteq> 0 \<and> 0 < in_size \<and> in_size mod 4 = 0 then do {
        c \<leftarrow> peek inb (unat (in_size - 1));
        let in_size = (if c = pad opts then in_size - 1 else in_size);
        c \<leftarrow> peek inb (unat (in_size - 1));
        Some (if c = pad opts then in_size - 1 else in_size)
      }
      else Some in_size)"

text \<open>The validation loop: whether all characters from \<open>in_off\<close> on are in the table.\<close>

function base64_validate :: "byte list \<Rightarrow> byte list \<Rightarrow> nat \<Rightarrow> nat \<Rightarrow> bool option" where
  "base64_validate table inb in_size in_off =
     (if in_off < in_size then do {
        c \<leftarrow> peek inb in_off;
        v \<leftarrow> base64_value table c;
        if v = 0xff then Some False else base64_validate table inb in_size (in_off + 1)
      }
      else Some True)"
  by pat_completeness auto
termination
  by (relation "measure (\<lambda>(_, _, in_size, in_off). in_size - in_off)") auto

text \<open>The checks on the tail and the output size: \<^term>\<open>None\<close> inside for \<open>-EINVAL\<close>.\<close>

definition base64_decode_size ::
  "byte list \<Rightarrow> byte list \<Rightarrow> uint32 \<Rightarrow> uint32 option option" where
  "base64_decode_size table inb in_size =
     (let needed = (in_size div 4) * 3
      in if in_size mod 4 = 0 then Some (Some needed)
      else if in_size mod 4 = 1 then Some None
      else do {
        c \<leftarrow> peek inb (unat (in_size - 1));
        v \<leftarrow> base64_value table c;
        if in_size mod 4 = 2
        then Some (if v AND 0x4f \<noteq> 0 then None else Some (needed + 1))
        else Some (if v AND 0xc3 \<noteq> 0 then None else Some (needed + 2))
      })"

text \<open>A byte of the result: \<open>(v >> k) & 0xff\<close>, stored as \<open>uint8_t\<close>.\<close>

definition base64_byte :: "uint32 \<Rightarrow> nat \<Rightarrow> byte" where
  "base64_byte v k = ucast (drop_bit k v AND 0xff)"

partial_function (option) base64_decode_loop ::
  "byte list \<Rightarrow> byte list \<Rightarrow> uint32 \<Rightarrow> uint32 \<Rightarrow> uint32 \<Rightarrow> byte list \<Rightarrow>
     (uint32 \<times> uint32 \<times> byte list) option" where
  "base64_decode_loop table inb in_size in_off out_off out =
     (if in_off + 4 \<le> in_size then do {
        c0 \<leftarrow> peek inb (unat in_off); v0 \<leftarrow> base64_value table c0;
        c1 \<leftarrow> peek inb (unat (in_off + 1)); v1 \<leftarrow> base64_value table c1;
        c2 \<leftarrow> peek inb (unat (in_off + 2)); v2 \<leftarrow> base64_value table c2;
        c3 \<leftarrow> peek inb (unat (in_off + 3)); v3 \<leftarrow> base64_value table c3;
        let v = push_bit 18 (ucast v0) OR push_bit 12 (ucast v1) OR push_bit 6 (ucast v2)
                  OR (ucast v3 :: uint32);
        out \<leftarrow> poke out (unat out_off) (base64_byte v 16);
        out \<leftarrow> poke out (unat (out_off + 1)) (base64_byte v 8);
        out \<leftarrow> poke out (unat (out_off + 2)) (base64_byte v 0);
        base64_decode_loop table inb in_size (in_off + 4) (out_off + 3) out
      }
      else Some (in_off, out_off, out))"

definition base64_decode_tail ::
  "byte list \<Rightarrow> byte list \<Rightarrow> uint32 \<Rightarrow> uint32 \<Rightarrow> uint32 \<Rightarrow> byte list \<Rightarrow>
     (uint32 \<times> byte list) option" where
  "base64_decode_tail table inb in_size in_off out_off out =
     (if in_off + 2 = in_size then do {
        c0 \<leftarrow> peek inb (unat in_off); v0 \<leftarrow> base64_value table c0;
        c1 \<leftarrow> peek inb (unat (in_off + 1)); v1 \<leftarrow> base64_value table c1;
        let v = push_bit 18 (ucast v0) OR push_bit 12 (ucast v1 :: uint32);
        out \<leftarrow> poke out (unat out_off) (base64_byte v 16);
        Some (out_off + 1, out)
      }
      else if in_off + 3 = in_size then do {
        c0 \<leftarrow> peek inb (unat in_off); v0 \<leftarrow> base64_value table c0;
        c1 \<leftarrow> peek inb (unat (in_off + 1)); v1 \<leftarrow> base64_value table c1;
        c2 \<leftarrow> peek inb (unat (in_off + 2)); v2 \<leftarrow> base64_value table c2;
        let v = push_bit 18 (ucast v0) OR push_bit 12 (ucast v1) OR push_bit 6 (ucast v2 :: uint32);
        out \<leftarrow> poke out (unat out_off) (base64_byte v 16);
        out \<leftarrow> poke out (unat (out_off + 1)) (base64_byte v 8);
        Some (out_off + 2, out)
      }
      else Some (out_off, out))"

definition base64_decode ::
  "byte list \<Rightarrow> uint32 \<Rightarrow> byte list option \<Rightarrow> uint32 \<Rightarrow> BASE64_OPTIONS option \<Rightarrow>
     (int \<times> byte list option) option" where
  "base64_decode in_buf in_size out_buf out_size options =
     (let opts = the_options options
      in do {
        in_size \<leftarrow> base64_strip opts in_buf in_size;
        table \<leftarrow> base64_decode_table opts;
        valid \<leftarrow> base64_validate table in_buf (unat in_size) 0;
        if \<not> valid then Some (- EINVAL, out_buf)
        else do {
          r \<leftarrow> base64_decode_size table in_buf in_size;
          case r of
            None \<Rightarrow> Some (- EINVAL, out_buf)
          | Some out_size_needed \<Rightarrow>
              (case out_buf of
                 None \<Rightarrow> Some (c_int out_size_needed, None)
               | Some out \<Rightarrow>
                   if out_size < out_size_needed then Some (- ENOBUFS, Some out)
                   else do {
                     (in_off, out_off, out) \<leftarrow> base64_decode_loop table in_buf in_size 0 0 out;
                     (out_off, out) \<leftarrow> base64_decode_tail table in_buf in_size in_off out_off out;
                     Some (c_int out_off, Some out)
                   })
        }
      })"

declare base64_encode_loop.simps [code] base64_decode_loop.simps [code]
declare base64_validate.simps [simp del] base64_table_fill.simps [simp del]


section \<open>Specification\<close>

text \<open>
  The text of RFC 4648: the input read as a sequence of 6-bit numbers, three bytes giving four of
  them, the last one filled up with zero bits; then one character for each.
\<close>

fun sextets :: "byte list \<Rightarrow> byte list" where
  "sextets [] = []"
| "sextets [a] = [drop_bit 2 a, push_bit 4 (a AND 3)]"
| "sextets [a, b] =
     [drop_bit 2 a, push_bit 4 (a AND 3) OR drop_bit 4 b, push_bit 2 (b AND 15)]"
| "sextets (a # b # c # bs) =
     drop_bit 2 a # (push_bit 4 (a AND 3) OR drop_bit 4 b) #
     (push_bit 2 (b AND 15) OR drop_bit 6 c) # (c AND 63) # sextets bs"

definition b64_alphabet :: "BASE64_OPTIONS \<Rightarrow> byte list" where
  "b64_alphabet opts = base64_table_core @ [ch62 opts, ch63 opts]"

definition b64_chars :: "BASE64_OPTIONS \<Rightarrow> byte list \<Rightarrow> byte list" where
  "b64_chars opts bs = map (\<lambda>s. b64_alphabet opts ! unat s) (sextets bs)"

definition b64_padding :: "BASE64_OPTIONS \<Rightarrow> nat \<Rightarrow> byte list" where
  "b64_padding opts n = (if pad opts = 0 then [] else replicate ((3 - n mod 3) mod 3) (pad opts))"

definition b64_text :: "BASE64_OPTIONS \<Rightarrow> byte list \<Rightarrow> byte list" where
  "b64_text opts bs = b64_chars opts bs @ b64_padding opts (length bs)"

text \<open>The inverse reading, refusing left-over bits that are not zero.\<close>

fun unsextets :: "byte list \<Rightarrow> byte list option" where
  "unsextets [] = Some []"
| "unsextets [_] = None"
| "unsextets [s0, s1] =
     (if s1 AND 15 = 0 then Some [push_bit 2 s0 OR drop_bit 4 s1] else None)"
| "unsextets [s0, s1, s2] =
     (if s2 AND 3 = 0
      then Some [push_bit 2 s0 OR drop_bit 4 s1, push_bit 4 s1 OR drop_bit 2 s2] else None)"
| "unsextets (s0 # s1 # s2 # s3 # ss) =
     map_option (\<lambda>bs. (push_bit 2 s0 OR drop_bit 4 s1) # (push_bit 4 s1 OR drop_bit 2 s2) #
       (push_bit 6 s2 OR s3) # bs) (unsextets ss)"

definition b64_core_value :: "byte \<Rightarrow> byte" where
  "b64_core_value c =
     (if 65 \<le> c \<and> c \<le> 90 then c - 65
      else if 97 \<le> c \<and> c \<le> 122 then c - 71
      else if 48 \<le> c \<and> c \<le> 57 then c + 4
      else 0xff)"

definition b64_value :: "BASE64_OPTIONS \<Rightarrow> byte \<Rightarrow> byte" where
  "b64_value opts c = (if c = ch63 opts then 63 else if c = ch62 opts then 62 else b64_core_value c)"

definition b64_strip :: "BASE64_OPTIONS \<Rightarrow> byte list \<Rightarrow> byte list" where
  "b64_strip opts cs =
     (if pad opts \<noteq> 0 \<and> cs \<noteq> [] \<and> length cs mod 4 = 0
      then let cs' = (if last cs = pad opts then butlast cs else cs)
           in if last cs' = pad opts then butlast cs' else cs'
      else cs)"

definition b64_parse :: "BASE64_OPTIONS \<Rightarrow> byte list \<Rightarrow> byte list option" where
  "b64_parse opts cs =
     (let cs = b64_strip opts cs
      in if 0xff \<in> set (map (b64_value opts) cs) then None
         else unsextets (map (b64_value opts) cs))"

text \<open>
  A sensible dialect: the two extra digits and the padding are 7-bit characters outside the
  core alphabet, and they are distinct (there may be no padding).
\<close>

definition good_options :: "BASE64_OPTIONS \<Rightarrow> bool" where
  "good_options opts \<longleftrightarrow>
     ch62 opts < 128 \<and> ch63 opts < 128 \<and> pad opts < 128 \<and> ch62 opts \<noteq> ch63 opts \<and>
     b64_core_value (ch62 opts) = 0xff \<and> b64_core_value (ch63 opts) = 0xff \<and>
     (pad opts \<noteq> 0 \<longrightarrow>
        b64_core_value (pad opts) = 0xff \<and> pad opts \<noteq> ch62 opts \<and> pad opts \<noteq> ch63 opts)"

lemma good_def_options: "good_options base64_def_options"
  by (simp add: good_options_def base64_def_options_def b64_core_value_def)

section \<open>Bits\<close>

named_theorems b64_bits \<open>six-bit groups of a 24-bit word\<close>

lemma encode_bits [b64_bits]:
  fixes a b c :: byte
  defines "v \<equiv> push_bit 16 (ucast a) OR push_bit 8 (ucast b) OR ucast c :: uint32"
  shows "(ucast (drop_bit 18 v) :: byte) AND 0x3f = drop_bit 2 a"
    and "(ucast (drop_bit 12 v) :: byte) AND 0x3f = push_bit 4 (a AND 3) OR drop_bit 4 b"
    and "(ucast (drop_bit 6 v) :: byte) AND 0x3f = push_bit 2 (b AND 15) OR drop_bit 6 c"
    and "(ucast (drop_bit 0 v) :: byte) AND 0x3f = c AND 63"
  unfolding v_def by (rule byte_eqI; simp add: bit_simps)+

lemma decode_bits [b64_bits]:
  fixes s0 s1 s2 s3 :: byte
  defines "v \<equiv> push_bit 18 (ucast s0) OR push_bit 12 (ucast s1) OR push_bit 6 (ucast s2)
                 OR ucast s3 :: uint32"
  shows "base64_byte v 16 = push_bit 2 s0 OR drop_bit 4 s1"
    and "base64_byte v 8 = push_bit 4 s1 OR drop_bit 2 s2"
    and "base64_byte v 0 = push_bit 6 s2 OR s3"
  unfolding v_def base64_byte_def by (rule byte_eqI; simp add: bit_simps)+

lemma sextet_join [b64_bits]:
  fixes a b c :: byte
  shows "push_bit 2 (drop_bit 2 a) OR drop_bit 4 (push_bit 4 (a AND 3) OR drop_bit 4 b) = a"
    and "push_bit 4 (push_bit 4 (a AND 3) OR drop_bit 4 b) OR
      drop_bit 2 (push_bit 2 (b AND 15) OR drop_bit 6 c) = b"
    and "push_bit 6 (push_bit 2 (b AND 15) OR drop_bit 6 c) OR (c AND 63) = c"
    and "push_bit 4 (a AND 3) AND 15 = 0" and "push_bit 2 (b AND 15) AND 3 = 0"
  by (rule byte_eqI; simp add: bit_simps)+

lemma sextet_join2 [b64_bits]:
  fixes a b :: byte
  shows "push_bit 2 (drop_bit 2 a) OR drop_bit 4 (push_bit 4 (a AND 3)) = a"
    and "push_bit 4 (push_bit 4 (a AND 3) OR drop_bit 4 b) OR
      drop_bit 2 (push_bit 2 (b AND 15)) = b"
  by (rule byte_eqI; simp add: bit_simps)+

lemma less_64_iff: "(s :: byte) < 64 \<longleftrightarrow> \<not> bit s 6 \<and> \<not> bit s 7"
proof -
  have "\<forall>s :: byte. s < 64 \<longleftrightarrow> \<not> bit s 6 \<and> \<not> bit s 7"
    by (rule all_bytesI) code_simp
  then show ?thesis by blast
qed

lemma byte_eq_0_iff:
  "(b :: byte) AND 15 = 0 \<longleftrightarrow> \<not> bit b 0 \<and> \<not> bit b 1 \<and> \<not> bit b 2 \<and> \<not> bit b 3"
  "(b :: byte) AND 3 = 0 \<longleftrightarrow> \<not> bit b 0 \<and> \<not> bit b 1"
  by (simp_all add: byte_eq_iff bit_simps)

lemma sextet_split:
  fixes s0 s1 s2 s3 :: byte
  shows "s0 < 64 \<Longrightarrow> s1 < 64 \<Longrightarrow> drop_bit 2 (push_bit 2 s0 OR drop_bit 4 s1) = s0"
    and "s0 < 64 \<Longrightarrow> s1 < 64 \<Longrightarrow> s2 < 64 \<Longrightarrow> push_bit 4 ((push_bit 2 s0 OR drop_bit 4 s1) AND 3) OR
      drop_bit 4 (push_bit 4 s1 OR drop_bit 2 s2) = s1"
    and "s1 < 64 \<Longrightarrow> s2 < 64 \<Longrightarrow> s3 < 64 \<Longrightarrow> push_bit 2 ((push_bit 4 s1 OR drop_bit 2 s2) AND 15) OR
      drop_bit 6 (push_bit 6 s2 OR s3) = s2"
    and "s3 < 64 \<Longrightarrow> (push_bit 6 s2 OR s3) AND 63 = s3"
    and "s0 < 64 \<Longrightarrow> s1 < 64 \<Longrightarrow> s1 AND 15 = 0 \<Longrightarrow> push_bit 4 ((push_bit 2 s0 OR drop_bit 4 s1) AND 3) = s1"
    and "s1 < 64 \<Longrightarrow> s2 < 64 \<Longrightarrow> s2 AND 3 = 0 \<Longrightarrow> push_bit 2 ((push_bit 4 s1 OR drop_bit 2 s2) AND 15) = s2"
  by (rule byte_eqI; simp add: bit_simps less_64_iff byte_eq_0_iff)+

lemma sextets_less: "\<forall>s \<in> set (sextets bs). s < 64"
  by (induction bs rule: sextets.induct) (simp_all add: less_64_iff bit_simps)

lemma unsextets_sextets: "unsextets (sextets bs) = Some bs"
  by (induction bs rule: sextets.induct) (simp_all add: byte_eq_iff bit_simps)

lemma sextets_unsextets:
  "unsextets ss = Some bs \<Longrightarrow> \<forall>s \<in> set ss. s < 64 \<Longrightarrow> sextets bs = ss"
  by (induction ss arbitrary: bs rule: unsextets.induct)
     (auto simp: sextet_split [simplified] split: if_splits)

lemma length_sextets:
  "length (sextets bs) = 4 * (length bs div 3) + (if length bs mod 3 = 0 then 0 else length bs mod 3 + 1)"
proof (induction bs rule: sextets.induct)
  case (4 a b c bs)
  have "(3 + length bs) div 3 = Suc (length bs div 3)" by simp
  with 4 show ?case by simp
qed simp_all

lemma sextets_append: "3 dvd length xs \<Longrightarrow> sextets (xs @ ys) = sextets xs @ sextets ys"
proof (induction xs rule: sextets.induct)
  case (4 a b c bs)
  then have "3 dvd length bs" by simp presburger
  with 4 show ?case by simp
qed (auto dest: dvd_imp_le)


section \<open>The decoding table\<close>

lemma base64_core_table:
  "base64_table_fill (replicate 256 0xff) 0 =
     Some (map (\<lambda>n. b64_core_value (word_of_nat n)) [0..<256])"
  apply (simp add: base64_table_fill.simps base64_table_core_def bytes_of_def poke_int_def
      poke_def peek_def)
  by code_simp

lemma sint_byte: "sint (c :: byte) = (if c < 128 then int (unat c) else int (unat c) - 256)"
proof -
  have "\<forall>c :: byte. sint c = (if c < 128 then int (unat c) else int (unat c) - 256)"
    by (rule all_bytesI) code_simp
  then show ?thesis by blast
qed

definition b64_table :: "BASE64_OPTIONS \<Rightarrow> byte list" where
  "b64_table opts = (map (\<lambda>n. b64_core_value (word_of_nat n)) [0..<256])
     [unat (ch62 opts) := 62, unat (ch63 opts) := 63]"

lemma base64_decode_table:
  assumes "ch62 opts < 128" "ch63 opts < 128"
  shows "base64_decode_table opts = Some (b64_table opts)"
proof -
  have "unat (ch62 opts) < 256" "unat (ch63 opts) < 256"
    using unsigned_less [of "ch62 opts", where ?'a = nat]
      unsigned_less [of "ch63 opts", where ?'a = nat] by simp_all
  with assms show ?thesis
    by (simp add: base64_decode_table_def base64_core_table poke_int_def sint_byte mem_simps b64_table_def)
qed

lemma base64_value_table:
  "base64_value (b64_table opts) c = (if c < 128 then Some (b64_value opts c) else None)"
proof -
  have "unat c < 256" "uint c < 256"
    using unsigned_less [of c, where ?'a = nat] unsigned_less [of c, where ?'a = int] by simp_all
  then show ?thesis
    by (auto simp: base64_value_def peek_int_def sint_byte mem_simps b64_table_def b64_value_def
        nth_list_update word_unat_eq_iff)
qed


section \<open>The encoder\<close>

lemma unat_offset: "i + numeral k < 2 ^ 32 \<Longrightarrow> unat (word_of_nat i + numeral k :: uint32) = i + numeral k"
  "i + 1 < 2 ^ 32 \<Longrightarrow> unat (word_of_nat i + 1 :: uint32) = i + 1"
  using unat_of_nat_uint [of "i + numeral k"] unat_of_nat_uint [of "i + 1"]
  by (simp_all del: unat_of_nat_uint add: add.commute)

lemma word_offset: "(word_of_nat i + numeral k :: uint32) = word_of_nat (i + numeral k)"
  "(word_of_nat i + 1 :: uint32) = word_of_nat (i + 1)"
  by simp_all

lemma offset_le:
  assumes "i + numeral k < 2 ^ 32" "n < 2 ^ 32"
  shows "(word_of_nat i + numeral k :: uint32) \<le> word_of_nat n \<longleftrightarrow> i + numeral k \<le> n"
proof -
  have "unat (word_of_nat n :: uint32) = n" using assms by simp
  with unat_offset(1) [OF assms(1)] show ?thesis by (simp only: word_le_nat_alt)
qed

lemma length_alphabet [simp]: "length (b64_alphabet opts) = 64"
  by (simp add: b64_alphabet_def base64_table_core_def bytes_of_def)

lemma base64_digit_alphabet:
  "base64_digit (b64_alphabet opts) v k =
     Some (b64_alphabet opts ! unat ((ucast (drop_bit k v) :: byte) AND 0x3f))"
proof -
  have "(ucast (drop_bit k v) :: byte) AND 0x3f \<le> 0x3f" by (rule word_and_le1)
  then show ?thesis
    by (simp add: base64_digit_def mem_simps word_le_nat_alt)
qed

lemma split4:
  "j + 4 \<le> length xs \<Longrightarrow>
     xs = take j xs @ xs ! j # xs ! (j + 1) # xs ! (j + 2) # xs ! (j + 3) # drop (j + 4) xs"
  by (simp add: Cons_nth_drop_Suc numeral_eq_Suc)

lemma write4:
  assumes "j + 4 \<le> length out"
  shows "out[j := x0, j + 1 := x1, j + 2 := x2, j + 3 := x3] =
       take j out @ x0 # x1 # x2 # x3 # drop (j + 4) out"
proof -
  have "length (take j out) = j" using assms by simp
  then show ?thesis
    by (subst split4 [OF assms]) (simp add: list_update_append)
qed


lemma base64_encode_loop_stop:
  assumes "n < 2 ^ 31" "i \<le> n" "\<not> i + 3 \<le> n"
  shows "base64_encode_loop table inb (of_nat n) (of_nat i) (of_nat j) out =
    Some (of_nat i, of_nat j, out)"
  using assms by (subst base64_encode_loop.simps, subst offset_le) simp_all

lemma unat_offsets:
  assumes "i + 3 < 2 ^ 32"
  shows "unat (word_of_nat i :: uint32) = i" "unat (word_of_nat i + 1 :: uint32) = i + 1"
    "unat (word_of_nat i + 2 :: uint32) = i + 2" "unat (word_of_nat i + 3 :: uint32) = i + 3"
  using assms unat_of_nat_uint [of i] unat_offset(2) [of i]
    unat_offset(1) [of i "num.Bit0 num.One"] unat_offset(1) [of i "num.Bit1 num.One"] by linarith+

lemma encode_digits:
  fixes a b c :: byte
  defines "v \<equiv> push_bit 16 (ucast a) OR push_bit 8 (ucast b) OR ucast c :: uint32"
  shows "base64_digit (b64_alphabet opts) v 18 = Some (b64_alphabet opts ! unat (drop_bit 2 a))"
    and "base64_digit (b64_alphabet opts) v 12 =
      Some (b64_alphabet opts ! unat (push_bit 4 (a AND 3) OR drop_bit 4 b))"
    and "base64_digit (b64_alphabet opts) v 6 =
      Some (b64_alphabet opts ! unat (push_bit 2 (b AND 15) OR drop_bit 6 c))"
    and "base64_digit (b64_alphabet opts) v 0 = Some (b64_alphabet opts ! unat (c AND 63))"
  unfolding v_def base64_digit_alphabet by (simp_all only: encode_bits)

lemma base64_encode_loop_step:
  assumes "n < 2 ^ 31" "i + 3 \<le> n" "n \<le> length inb" "j + 4 \<le> length out" "j + 4 < 2 ^ 32"
  shows "base64_encode_loop (b64_alphabet opts) inb (of_nat n) (of_nat i) (of_nat j) out =
    base64_encode_loop (b64_alphabet opts) inb (of_nat n) (of_nat (i + 3)) (of_nat (j + 4))
      (take j out @ b64_chars opts [inb ! i, inb ! (i + 1), inb ! (i + 2)] @ drop (j + 4) out)"
proof -
  have "i + 3 < 2 ^ 32" "j + 3 < 2 ^ 32" using assms by simp_all
  note off = this [THEN unat_offsets(1)] this [THEN unat_offsets(2)] this [THEN unat_offsets(3)]
     this [THEN unat_offsets(4)]
  have c: "(word_of_nat i + 3 :: uint32) \<le> word_of_nat n"
    using assms by (simp add: offset_le)
  show ?thesis
    using assms
    by (subst base64_encode_loop.simps, simp only: c if_True off)
       (simp add: mem_simps encode_digits Let_def b64_chars_def write4 [simplified])
qed

lemma length_b64_chars: "length (b64_chars opts bs) = length (sextets bs)"
  by (simp add: b64_chars_def)

lemma b64_chars_append:
  "3 dvd length xs \<Longrightarrow> b64_chars opts (xs @ ys) = b64_chars opts xs @ b64_chars opts ys"
  by (simp add: b64_chars_def sextets_append)

lemma base64_encode_loop_spec:
  assumes "n < 2 ^ 31" "i + 3 * m \<le> n" "n < i + 3 * m + 3" "n \<le> length inb"
    "j + 4 * m \<le> length out" "j + 4 * m < 2 ^ 32"
  shows "base64_encode_loop (b64_alphabet opts) inb (of_nat n) (of_nat i) (of_nat j) out =
    Some (of_nat (i + 3 * m), of_nat (j + 4 * m),
      take j out @ b64_chars opts (take (3 * m) (drop i inb)) @ drop (j + 4 * m) out)"
  using assms
proof (induction m arbitrary: i j out)
  case 0
  then show ?case
    using base64_encode_loop_stop [of n i] by (simp add: b64_chars_def)
next
  case (Suc m)
  let ?xs = "[inb ! i, inb ! (i + 1), inb ! (i + 2)]"
  let ?out = "take j out @ b64_chars opts ?xs @ drop (j + 4) out"
  have len: "length (b64_chars opts ?xs) = 4" by (simp add: b64_chars_def)
  have xs: "take (3 * Suc m) (drop i inb) = ?xs @ take (3 * m) (drop (i + 3) inb)"
  proof -
    have "i + 2 < length inb" using Suc.prems by simp
    then have "drop i inb = inb ! i # inb ! (i + 1) # inb ! (i + 2) # drop (i + 3) inb"
      by (simp add: Cons_nth_drop_Suc numeral_eq_Suc)
    moreover have "3 * Suc m = Suc (Suc (Suc (3 * m)))" by simp
    ultimately show ?thesis by (simp del: mult_Suc_right)
  qed
  have ch: "b64_chars opts (take (3 * Suc m) (drop i inb)) =
      b64_chars opts ?xs @ b64_chars opts (take (3 * m) (drop (i + 3) inb))"
    unfolding xs by (rule b64_chars_append) (simp add: eval_nat_numeral)
  have "base64_encode_loop (b64_alphabet opts) inb (of_nat n) (of_nat i) (of_nat j) out =
      base64_encode_loop (b64_alphabet opts) inb (of_nat n) (of_nat (i + 3)) (of_nat (j + 4)) ?out"
    using Suc.prems by (intro base64_encode_loop_step) auto
  also have "\<dots> = Some (of_nat (i + 3 + 3 * m), of_nat (j + 4 + 4 * m),
      take (j + 4) ?out @ b64_chars opts (take (3 * m) (drop (i + 3) inb)) @
      drop (j + 4 + 4 * m) ?out)"
    using Suc.prems len by (intro Suc.IH) auto
  also have "take (j + 4) ?out = take j out @ b64_chars opts ?xs"
    using Suc.prems len by simp
  also have "drop (j + 4 + 4 * m) ?out = drop (j + 4 * Suc m) out"
    using Suc.prems len by (simp add: algebra_simps)
  finally show ?case
    unfolding ch by (simp add: algebra_simps)
qed

text \<open>A sequence of writes at consecutive offsets.\<close>

fun write_list :: "'a list \<Rightarrow> nat \<Rightarrow> 'a list \<Rightarrow> 'a list" where
  "write_list out j [] = out"
| "write_list out j (x # xs) = write_list (out[j := x]) (Suc j) xs"

lemma write_list_eq:
  "j + length xs \<le> length out \<Longrightarrow>
     write_list out j xs = take j out @ xs @ drop (j + length xs) out"
proof (induction xs arbitrary: j out)
  case (Cons x xs)
  then have "take (Suc j) (out[j := x]) = take j out @ [x]"
    by (simp add: take_Suc_conv_app_nth)
  with Cons show ?case by simp
qed simp

lemma write_at:
  assumes "j + length xs \<le> length out"
  shows "take j out @ xs @ drop (j + length xs) out = write_list out j xs"
  using write_list_eq [OF assms] by simp

lemma base64_encode_tail_spec:
  assumes "i \<le> n" "n < i + 3" "n < 2 ^ 31" "n \<le> length inb" "j + 4 < 2 ^ 32"
    and tx: "tx = b64_text opts (take (n - i) (drop i inb))"
    and "j + length tx \<le> length out"
  shows "base64_encode_tail opts (b64_alphabet opts) inb (of_nat n) (of_nat i) (of_nat j) out =
    Some (of_nat (j + length tx), take j out @ tx @ drop (j + length tx) out)"
proof -
  have "i + 3 < 2 ^ 32" "j + 3 < 2 ^ 32" using assms by simp_all
  note off = this [THEN unat_offsets(1)] this [THEN unat_offsets(2)] this [THEN unat_offsets(3)]
     this [THEN unat_offsets(4)]
  have j3: "j + 3 = Suc (Suc (Suc j))" by simp
  have ne: "(word_of_nat i + 1 :: uint32) = word_of_nat n \<longleftrightarrow> n = i + 1"
    "(word_of_nat i + 2 :: uint32) = word_of_nat n \<longleftrightarrow> n = i + 2"
    using off assms unat_of_nat_uint [of n] by (auto simp: word_unat_eq_iff)
  consider "n = i" | "n = i + 1" | "n = i + 2" using assms by linarith
  then show ?thesis
  proof cases
    case 1
    then show ?thesis
      using tx ne
      by (simp add: base64_encode_tail_def b64_text_def b64_chars_def b64_padding_def)
  next
    case 2
    then have "take (n - i) (drop i inb) = [inb ! i]"
      using \<open>n \<le> length inb\<close> by (simp add: take_Suc_conv_app_nth)
    then have tx2: "tx = [b64_alphabet opts ! unat (drop_bit 2 (inb ! i)),
        b64_alphabet opts ! unat (push_bit 4 (inb ! i AND 3))] @
        (if pad opts = 0 then [] else [pad opts, pad opts])"
      using tx by (simp add: b64_text_def b64_chars_def b64_padding_def numeral_2_eq_2)
    show ?thesis
      using ne 2 assms(4-5,7) encode_digits [of opts "inb ! i" 0 0] write_at [of j tx out]
      unfolding tx2
      by (simp add: base64_encode_tail_def off j3 mem_simps Let_def split: if_splits)
  next
    case 3
    then have "take (n - i) (drop i inb) = [inb ! i, inb ! (i + 1)]"
      using \<open>n \<le> length inb\<close> by (simp add: take_Suc_conv_app_nth numeral_2_eq_2)
    then have tx3: "tx = [b64_alphabet opts ! unat (drop_bit 2 (inb ! i)),
        b64_alphabet opts ! unat (push_bit 4 (inb ! i AND 3) OR drop_bit 4 (inb ! (i + 1))),
        b64_alphabet opts ! unat (push_bit 2 (inb ! (i + 1) AND 15))] @
        (if pad opts = 0 then [] else [pad opts])"
      using tx by (simp add: b64_text_def b64_chars_def b64_padding_def numeral_2_eq_2)
    show ?thesis
      using ne 3 assms(4-5,7) encode_digits [of opts "inb ! i" "inb ! (i + 1)" 0] write_at [of j tx out]
      unfolding tx3
      by (simp add: base64_encode_tail_def off j3 mem_simps Let_def split: if_splits)
  qed
qed

definition b64_length :: "BASE64_OPTIONS \<Rightarrow> nat \<Rightarrow> nat" where
  "b64_length opts n =
     (if pad opts = 0 then 4 * (n div 3) + (if n mod 3 = 0 then 0 else n mod 3 + 1)
      else 4 * ((n + 2) div 3))"

lemma div3_round: "(n + 2) div 3 = n div 3 + (if n mod 3 = 0 then 0 else (1::nat))"
  by presburger

lemma mod3_cases: "n mod 3 = 0 \<or> n mod 3 = 1 \<or> n mod 3 = (2::nat)"
  by presburger

lemma length_b64_text: "length (b64_text opts bs) = b64_length opts (length bs)"
  unfolding b64_text_def length_append length_b64_chars length_sextets b64_padding_def b64_length_def
    div3_round
  using mod3_cases [of "length bs"] by (elim disjE) simp_all

lemma b64_length_bound: "n < 2 ^ 30 \<Longrightarrow> b64_length opts n < 2 ^ 31"
  unfolding b64_length_def by simp linarith

lemma base64_encode_size:
  assumes "n < 2 ^ 30"
  shows "unat (base64_encode_size opts (word_of_nat n)) = b64_length opts n"
proof -
  have n: "unat (word_of_nat n :: uint32) = n" using assms by simp
  have two: "unat (word_of_nat n + 2 :: uint32) = n + 2"
    using assms unat_offset(1) [of n "num.Bit0 num.One"] by simp
  have needed: "unat ((word_of_nat n + 2) div 3 * 4 :: uint32) = 4 * ((n + 2) div 3)"
    using assms two by (simp add: unat_word_ariths unat_div take_bit_nat_eq_self)
  have m: "(word_of_nat n mod 3 = (1 :: uint32)) = (n mod 3 = 1)"
    "(word_of_nat n mod 3 = (2 :: uint32)) = (n mod 3 = 2)"
    using n by (simp_all add: word_unat_eq_iff unat_mod)
  have sub: "unat (x - 2) = unat x - 2" "unat (x - 1) = unat x - 1" if "4 \<le> unat x" for x :: uint32
    using that by (simp_all add: unat_sub_if')
  show ?thesis
    unfolding base64_encode_size_def Let_def m b64_length_def
    using needed sub [of "(word_of_nat n + 2) div 3 * 4"] mod3_cases [of n]
    unfolding div3_round by (elim disjE) simp_all
qed

text \<open>
  \<open>base64_encode\<close> writes exactly the Base64 text of the input (of RFC 4648, over the digits
  and the padding of the given dialect; the default one for NULL), then the terminator when it
  fits, leaves the rest of the output as it was and returns the length of the text. It stays
  inside both buffers, and returns \<open>-ENOBUFS\<close> without writing when the output is too small.
\<close>

theorem base64_encode_correct:
  fixes options :: "BASE64_OPTIONS option"
  assumes "unat in_size \<le> length in_buf" and "unat in_size < 2 ^ 30"
    and "unat out_size \<le> length out"
  defines "t \<equiv> b64_text (the_options options) (take (unat in_size) in_buf)"
  shows "base64_encode in_buf in_size (Some out) out_size options =
    Some (if unat out_size < length t then (- ENOBUFS, Some out)
          else (int (length t), Some (t @
            (if length t < unat out_size then 0 # drop (length t + 1) out else drop (length t) out))))"
proof -
  define opts where "opts = the_options options"
  define n where "n = unat in_size"
  define m where "m = n div 3"
  have n: "in_size = word_of_nat n" "n < 2 ^ 30" "n \<le> length in_buf" using assms by (simp_all add: n_def)
  let ?t1 = "b64_chars opts (take (3 * m) in_buf)"
  let ?t2 = "b64_text opts (take (n - 3 * m) (drop (3 * m) in_buf))"
  have m: "3 * m \<le> n" "n < 3 * m + 3" unfolding m_def by auto
  have t1: "length ?t1 = 4 * m"
    using m n by (simp add: length_b64_chars length_sextets)
  have split: "take n in_buf = take (3 * m) in_buf @ take (n - 3 * m) (drop (3 * m) in_buf)"
    using m by (metis le_add_diff_inverse take_add)
  have len3: "length (take (3 * m) in_buf) = 3 * m" "length (take n in_buf) = n"
    "length (take (n - 3 * m) (drop (3 * m) in_buf)) = n - 3 * m"
    using m n by simp_all
  have "n mod 3 = (n - 3 * m) mod 3"
    unfolding m_def by (metis minus_mult_div_eq_mod mod_mod_trivial)
  then have pads: "b64_padding opts n = b64_padding opts (n - 3 * m)"
    by (simp add: b64_padding_def)
  have chars: "b64_chars opts (take n in_buf) =
      ?t1 @ b64_chars opts (take (n - 3 * m) (drop (3 * m) in_buf))"
    unfolding split by (rule b64_chars_append) (simp only: len3 dvd_triv_left)
  have t: "t = ?t1 @ ?t2"
    unfolding t_def opts_def [symmetric] n_def [symmetric] b64_text_def len3 pads chars
    by (simp only: append.assoc)
  have len: "length t < 2 ^ 31" "unat (base64_encode_size opts in_size) = length t"
    using n assms(1) unfolding t_def opts_def [symmetric] n_def [symmetric]
    by (simp_all add: length_b64_text b64_length_bound [OF n(2), simplified] base64_encode_size)
  then have small: "out_size < base64_encode_size opts in_size \<longleftrightarrow> unat out_size < length t"
    by (simp add: word_less_nat_alt)
  show ?thesis
  proof (cases "unat out_size < length t")
    case True
    then show ?thesis
      using small by (simp add: base64_encode_def opts_def Let_def)
  next
    case False
    then have fit: "length t \<le> length out" using assms by simp
    have loop: "base64_encode_loop (b64_alphabet opts) in_buf in_size 0 0 out =
        Some (of_nat (3 * m), of_nat (4 * m), ?t1 @ drop (4 * m) out)"
      using base64_encode_loop_spec [of n 0 m in_buf 0 out opts] n m t t1 fit len by simp
    have tail: "base64_encode_tail opts (b64_alphabet opts) in_buf in_size (of_nat (3 * m))
        (of_nat (4 * m)) (?t1 @ drop (4 * m) out) = Some (of_nat (length t), t @ drop (length t) out)"
      using base64_encode_tail_spec [of "3 * m" n in_buf "4 * m" ?t2 opts "?t1 @ drop (4 * m) out"]
        n m t t1 fit len by (simp add: add.commute)
    have ret: "c_int (of_nat (length t)) = int (length t)" "unat (of_nat (length t) :: uint32) = length t"
      using len by (simp_all add: sint_of_nat_small)
    show ?thesis
      using small False loop tail ret fit len(2) assms(3)
      by (simp add: base64_encode_def opts_def [symmetric] Let_def
          b64_alphabet_def word_less_nat_alt mem_simps list_update_append
          Cons_nth_drop_Suc [symmetric])
  qed
qed


section \<open>The decoder\<close>

lemma b64_strip_take: "b64_strip opts cs = take (length (b64_strip opts cs)) cs"
  by (simp add: b64_strip_def Let_def butlast_conv_take min_def)

lemma core_value_range: "b64_core_value c = 0xff \<or> b64_core_value c < 62"
  unfolding b64_core_value_def by unat_arith

lemma word_pred: "0 < n \<Longrightarrow> (word_of_nat n - 1 :: uint32) = word_of_nat (n - 1)"
  by (simp add: of_nat_diff)

lemma b64_strip_take_n:
  assumes "4 \<le> n" "n mod 4 = 0" "n \<le> length inb" "pad opts \<noteq> 0"
  shows "length (b64_strip opts (take n inb)) =
    (let k = (if inb ! (n - 1) = pad opts then n - 1 else n)
     in if inb ! (k - 1) = pad opts then k - 1 else k)"
proof -
  have last: "last (take k inb) = inb ! (k - 1)" if "0 < k" "k \<le> n" for k
  proof -
    have "take k inb \<noteq> []" "length (take k inb) = k" using that assms by auto
    with that show ?thesis by (simp add: last_conv_nth)
  qed
  have "length (take n inb) = n" using assms by simp
  moreover have "take n inb \<noteq> []" using assms by auto
  moreover have "butlast (take k inb) = take (k - 1) inb" if "k \<le> n" for k
    using that assms by (simp add: butlast_take)
  ultimately show ?thesis
    using assms last [of n] last [of "n - 1"] by (simp add: b64_strip_def Let_def)
qed

lemma base64_strip_spec:
  assumes "n \<le> length inb" "n < 2 ^ 32"
  shows "base64_strip opts inb (word_of_nat n) =
    Some (word_of_nat (length (b64_strip opts (take n inb))))"
proof -
  have n: "(0 < (word_of_nat n :: uint32)) = (0 < n)"
    "(word_of_nat n mod 4 = (0 :: uint32)) = (n mod 4 = 0)"
    using assms by (simp_all add: word_less_nat_alt word_unat_eq_iff unat_mod)
  show ?thesis
  proof (cases "pad opts \<noteq> 0 \<and> 0 < n \<and> n mod 4 = 0")
    case False
    then have "b64_strip opts (take n inb) = take n inb"
      using assms by (auto simp: b64_strip_def)
    with False n assms show ?thesis by (auto simp: base64_strip_def)
  next
    case True
    then have four: "4 \<le> n" by (metis mod_less not_less less_not_refl)
    have u: "unat (word_of_nat k - 1 :: uint32) = k - 1" if "0 < k" "k \<le> n" for k
      using that assms by (subst word_pred) (simp_all del: of_nat_diff)
    have "base64_strip opts inb (word_of_nat n) =
        Some (word_of_nat (let k = (if inb ! (n - 1) = pad opts then n - 1 else n)
          in if inb ! (k - 1) = pad opts then k - 1 else k))"
      using True n assms four u [of n] u [of "n - 1"] word_pred [of n] word_pred [of "n - 1"]
      by (simp add: base64_strip_def Let_def mem_simps del: of_nat_diff)
    with True four assms b64_strip_take_n [of n inb opts] show ?thesis
      by (metis (no_types, lifting))
  qed
qed

lemma base64_validate_spec:
  assumes "n \<le> length inb" "i \<le> n" "\<forall>c \<in> set (take n inb). c < 128"
  shows "base64_validate (b64_table opts) inb n i =
    Some (0xff \<notin> set (map (b64_value opts) (drop i (take n inb))))"
  using assms
proof (induction "n - i" arbitrary: i)
  case 0
  then show ?case by (subst base64_validate.simps) simp
next
  case (Suc k)
  have i: "i < n" using Suc by simp
  then have "inb ! i \<in> set (take n inb)"
    using Suc.prems by (auto simp: in_set_conv_nth)
  then have c: "inb ! i < 128" using Suc.prems by blast
  have dr: "drop i (take n inb) = inb ! i # drop (i + 1) (take n inb)"
    using i Suc.prems by (simp add: Cons_nth_drop_Suc [symmetric])
  have "base64_validate (b64_table opts) inb n (i + 1) =
    Some (0xff \<notin> set (map (b64_value opts) (drop (i + 1) (take n inb))))"
    using Suc i by (intro Suc.hyps) auto
  then show ?case
    using i Suc.prems c
    by (subst base64_validate.simps) (simp add: mem_simps base64_value_table dr eq_commute)
qed

lemma b64_value_range: "b64_value opts c \<noteq> 0xff \<Longrightarrow> b64_value opts c < 64"
  using core_value_range [of c] by (auto simp: b64_value_def word_less_nat_alt)

lemma unsextets_append:
  "4 dvd length xs \<Longrightarrow>
     unsextets (xs @ ys) = do { as \<leftarrow> unsextets xs; bs \<leftarrow> unsextets ys; Some (as @ bs) }"
proof (induction xs rule: unsextets.induct)
  case (5 s0 s1 s2 s3 ss)
  then have "4 dvd length ss" by simp presburger
  with 5 show ?case by (cases "unsextets ss"; cases "unsextets ys") simp_all
qed (auto dest: dvd_imp_le)

lemma unsextets_4: "4 dvd length ss \<Longrightarrow> \<exists>bs. unsextets ss = Some bs \<and> 4 * length bs = 3 * length ss"
proof (induction ss rule: unsextets.induct)
  case (5 s0 s1 s2 s3 ss)
  then have "4 dvd length ss" by simp presburger
  with 5 show ?case by auto
qed (auto dest: dvd_imp_le)

definition quads_of :: "BASE64_OPTIONS \<Rightarrow> byte list \<Rightarrow> byte list" where
  "quads_of opts cs = the (unsextets (map (b64_value opts) cs))"

lemma base64_decode_loop_stop:
  assumes "n < 2 ^ 31" "i \<le> n" "\<not> i + 4 \<le> n"
  shows "base64_decode_loop table inb (of_nat n) (of_nat i) (of_nat j) out =
    Some (of_nat i, of_nat j, out)"
  using assms by (subst base64_decode_loop.simps, subst offset_le) simp_all

lemma write3:
  assumes "j + 3 \<le> length out"
  shows "out[j := x0, j + 1 := x1, j + 2 := x2] = take j out @ [x0, x1, x2] @ drop (j + 3) out"
  using write_at [of j "[x0, x1, x2]" out] assms by (simp add: numeral_3_eq_3)

lemma base64_decode_loop_step:
  assumes "n < 2 ^ 31" "i + 4 \<le> n" "n \<le> length inb" "j + 3 \<le> length out" "j + 3 < 2 ^ 32"
    "\<forall>c \<in> set (take n inb). c < 128"
  shows "base64_decode_loop (b64_table opts) inb (of_nat n) (of_nat i) (of_nat j) out =
    base64_decode_loop (b64_table opts) inb (of_nat n) (of_nat (i + 4)) (of_nat (j + 3))
      (take j out @ quads_of opts [inb ! i, inb ! (i + 1), inb ! (i + 2), inb ! (i + 3)] @
       drop (j + 3) out)"
proof -
  have "i + 3 < 2 ^ 32" "j + 3 < 2 ^ 32" using assms by simp_all
  note off = this [THEN unat_offsets(1)] this [THEN unat_offsets(2)] this [THEN unat_offsets(3)]
     this [THEN unat_offsets(4)]
  have c: "(word_of_nat i + 4 :: uint32) \<le> word_of_nat n"
    using assms by (simp add: offset_le)
  have "inb ! k < 128" if "k < n" for k
    using that assms by (metis in_set_conv_nth length_take min.absorb2 nth_take)
  then have ch: "inb ! i < 128" "inb ! (i + 1) < 128" "inb ! (i + 2) < 128" "inb ! (i + 3) < 128"
    using assms by simp_all
  have quads: "quads_of opts [inb ! i, inb ! (i + 1), inb ! (i + 2), inb ! (i + 3)] =
     [push_bit 2 (b64_value opts (inb ! i)) OR drop_bit 4 (b64_value opts (inb ! (i + 1))),
      push_bit 4 (b64_value opts (inb ! (i + 1))) OR drop_bit 2 (b64_value opts (inb ! (i + 2))),
      push_bit 6 (b64_value opts (inb ! (i + 2))) OR b64_value opts (inb ! (i + 3))]"
    by (simp add: quads_of_def)
  show ?thesis
    unfolding quads using assms(2-4) ch
    by (subst base64_decode_loop.simps, simp only: c if_True off)
       (simp add: mem_simps base64_value_table decode_bits Let_def write3 [simplified])
qed

lemma length_quads_of: "length cs = 4 * m \<Longrightarrow> length (quads_of opts cs) = 3 * m"
  using unsextets_4 [of "map (b64_value opts) cs"] by (auto simp: quads_of_def)

lemma unsextets_quads:
  "4 dvd length cs \<Longrightarrow> unsextets (map (b64_value opts) cs) = Some (quads_of opts cs)"
  using unsextets_4 [of "map (b64_value opts) cs"] by (auto simp: quads_of_def)

lemma quads_of_append:
  "4 dvd length xs \<Longrightarrow> 4 dvd length ys \<Longrightarrow> quads_of opts (xs @ ys) = quads_of opts xs @ quads_of opts ys"
  using unsextets_4 [of "map (b64_value opts) xs"] unsextets_4 [of "map (b64_value opts) ys"]
  by (auto simp: quads_of_def unsextets_append)

lemma base64_decode_loop_spec:
  assumes "n < 2 ^ 31" "i + 4 * m \<le> n" "n < i + 4 * m + 4" "n \<le> length inb"
    "j + 3 * m \<le> length out" "j + 3 * m < 2 ^ 32" "\<forall>c \<in> set (take n inb). c < 128"
  shows "base64_decode_loop (b64_table opts) inb (of_nat n) (of_nat i) (of_nat j) out =
    Some (of_nat (i + 4 * m), of_nat (j + 3 * m),
      take j out @ quads_of opts (take (4 * m) (drop i inb)) @ drop (j + 3 * m) out)"
  using assms
proof (induction m arbitrary: i j out)
  case 0
  then show ?case
    using base64_decode_loop_stop [of n i] by (simp add: quads_of_def)
next
  case (Suc m)
  let ?xs = "[inb ! i, inb ! (i + 1), inb ! (i + 2), inb ! (i + 3)]"
  let ?out = "take j out @ quads_of opts ?xs @ drop (j + 3) out"
  have len: "length (quads_of opts ?xs) = 3" using length_quads_of [of ?xs 1] by simp
  have xs: "take (4 * Suc m) (drop i inb) = ?xs @ take (4 * m) (drop (i + 4) inb)"
  proof -
    have "i + 3 < length inb" using Suc.prems by simp
    then have "drop i inb = inb ! i # inb ! (i + 1) # inb ! (i + 2) # inb ! (i + 3) # drop (i + 4) inb"
      by (simp add: Cons_nth_drop_Suc numeral_eq_Suc)
    moreover have "4 * Suc m = Suc (Suc (Suc (Suc (4 * m))))" by simp
    ultimately show ?thesis by (simp del: mult_Suc_right)
  qed
  have "length (take (4 * m) (drop (i + 4) inb)) = 4 * m" "length ?xs = 4"
    using Suc.prems by simp_all
  then have ch: "quads_of opts (take (4 * Suc m) (drop i inb)) =
      quads_of opts ?xs @ quads_of opts (take (4 * m) (drop (i + 4) inb))"
    unfolding xs by (intro quads_of_append) (simp_all only: dvd_triv_left dvd_refl)
  have "base64_decode_loop (b64_table opts) inb (of_nat n) (of_nat i) (of_nat j) out =
      base64_decode_loop (b64_table opts) inb (of_nat n) (of_nat (i + 4)) (of_nat (j + 3)) ?out"
    using Suc.prems by (intro base64_decode_loop_step) auto
  also have "\<dots> = Some (of_nat (i + 4 + 4 * m), of_nat (j + 3 + 3 * m),
      take (j + 3) ?out @ quads_of opts (take (4 * m) (drop (i + 4) inb)) @
      drop (j + 3 + 3 * m) ?out)"
    using Suc.prems len by (intro Suc.IH) auto
  also have "take (j + 3) ?out = take j out @ quads_of opts ?xs"
    using Suc.prems len by simp
  also have "drop (j + 3 + 3 * m) ?out = drop (j + 3 * Suc m) out"
    using Suc.prems len by (simp add: algebra_simps)
  finally show ?case
    unfolding ch by (simp add: algebra_simps)
qed

lemma base64_decode_tail_spec:
  assumes "i \<le> n" "n < i + 4" "n < 2 ^ 31" "n \<le> length inb" "j + 3 < 2 ^ 32"
    and tb: "unsextets (map (b64_value opts) (take (n - i) (drop i inb))) = Some tb"
    and "j + length tb \<le> length out" and ascii: "\<forall>c \<in> set (take n inb). c < 128"
  shows "base64_decode_tail (b64_table opts) inb (of_nat n) (of_nat i) (of_nat j) out =
    Some (of_nat (j + length tb), take j out @ tb @ drop (j + length tb) out)"
proof -
  have "i + 3 < 2 ^ 32" "j + 3 < 2 ^ 32" using assms by simp_all
  note off = this [THEN unat_offsets(1)] this [THEN unat_offsets(2)] this [THEN unat_offsets(3)]
     this [THEN unat_offsets(4)]
  have ne: "(word_of_nat i + 2 :: uint32) = word_of_nat n \<longleftrightarrow> n = i + 2"
    "(word_of_nat i + 3 :: uint32) = word_of_nat n \<longleftrightarrow> n = i + 3"
    using off assms unat_of_nat_uint [of n] by (auto simp: word_unat_eq_iff)
  have ch: "inb ! k < 128" if "k < n" for k
    using that assms by (metis in_set_conv_nth length_take min.absorb2 nth_take)
  consider "n = i" | "n = i + 1" | "n = i + 2" | "n = i + 3" using assms by linarith
  then show ?thesis
  proof cases
    case 1
    then show ?thesis using tb ne by (simp add: base64_decode_tail_def)
  next
    case 2
    then have "take (n - i) (drop i inb) = [inb ! i]"
      using \<open>n \<le> length inb\<close> by (simp add: take_Suc_conv_app_nth)
    then show ?thesis using tb by simp
  next
    case 3
    then have "take (n - i) (drop i inb) = [inb ! i, inb ! (i + 1)]"
      using \<open>n \<le> length inb\<close> by (simp add: take_Suc_conv_app_nth numeral_2_eq_2)
    then have "tb = [push_bit 2 (b64_value opts (inb ! i)) OR drop_bit 4 (b64_value opts (inb ! (i + 1)))]"
      using tb by (simp split: if_splits)
    then show ?thesis
      using ne 3 assms(4,7) ch [of i] ch [of "i + 1"] write_at [of j tb out]
        decode_bits [of "b64_value opts (inb ! i)" "b64_value opts (inb ! (i + 1))" 0 0]
      by (simp add: base64_decode_tail_def off mem_simps base64_value_table Let_def)
  next
    case 4
    then have "take (n - i) (drop i inb) = [inb ! i, inb ! (i + 1), inb ! (i + 2)]"
      using \<open>n \<le> length inb\<close> by (simp add: take_Suc_conv_app_nth numeral_3_eq_3)
    then have "tb = [push_bit 2 (b64_value opts (inb ! i)) OR drop_bit 4 (b64_value opts (inb ! (i + 1))),
        push_bit 4 (b64_value opts (inb ! (i + 1))) OR drop_bit 2 (b64_value opts (inb ! (i + 2)))]"
      using tb by (simp split: if_splits)
    then show ?thesis
      using ne 4 assms(4,7) ch [of i] ch [of "i + 1"] ch [of "i + 2"] write_at [of j tb out]
        decode_bits [of "b64_value opts (inb ! i)" "b64_value opts (inb ! (i + 1))"
          "b64_value opts (inb ! (i + 2))" 0]
      by (simp add: base64_decode_tail_def off mem_simps base64_value_table Let_def)
  qed
qed



lemma length_b64_strip: "length (b64_strip opts cs) \<le> length cs"
  by (simp add: b64_strip_def Let_def)

lemma unsextets_length: "unsextets ss = Some bs \<Longrightarrow> length bs \<le> length ss"
  by (induction ss arbitrary: bs rule: unsextets.induct) (auto split: if_splits)

lemma tail_masks:
  "s < 64 \<Longrightarrow> (s AND 0x4f = (0 :: byte)) = (s AND 15 = 0)"
  "s < 64 \<Longrightarrow> (s AND 0xc3 = (0 :: byte)) = (s AND 3 = 0)"
  by (auto simp: byte_eq_iff bit_simps less_64_iff)

lemma unsextets_split4:
  assumes "n = 4 * m + r" "r < 4" "length cs = n"
  shows "unsextets (map (b64_value opts) cs) =
    map_option (append (quads_of opts (take (4 * m) cs)))
      (unsextets (map (b64_value opts) (drop (4 * m) cs)))"
proof -
  have "4 dvd length (take (4 * m) cs)" using assms by simp
  then show ?thesis
    using unsextets_append [of "map (b64_value opts) (take (4 * m) cs)"
        "map (b64_value opts) (drop (4 * m) cs)"] unsextets_quads [of "take (4 * m) cs" opts]
    by (cases "unsextets (map (b64_value opts) (drop (4 * m) cs))")
       (simp_all flip: map_append)
qed

lemma base64_decode_size_spec:
  assumes n: "n < 2 ^ 31" "n \<le> length inb" and ascii: "\<forall>c \<in> set (take n inb). c < 128"
    and valid: "0xff \<notin> set (map (b64_value opts) (take n inb))"
  shows "base64_decode_size (b64_table opts) inb (word_of_nat n) =
    Some (map_option (\<lambda>bs. word_of_nat (length bs)) (unsextets (map (b64_value opts) (take n inb))))"
proof -
  define m r where "m = n div 4" and "r = n mod 4"
  have nr: "n = 4 * m + r" "r < 4" by (simp_all add: m_def r_def)
  have mr: "(word_of_nat n mod 4 = (word_of_nat k :: uint32)) = (r = k)" if "k < 4" for k
    using n that by (simp add: word_unat_eq_iff unat_mod r_def)
  have needed: "word_of_nat n div 4 * 3 = (word_of_nat (3 * m) :: uint32)"
  proof -
    have "(word_of_nat n div 4 :: uint32) = word_of_nat m"
      using n by (simp add: word_unat_eq_iff unat_div m_def)
    then show ?thesis by simp
  qed
  have q: "length (quads_of opts (take (4 * m) (take n inb))) = 3 * m"
    using n nr by (intro length_quads_of) simp
  have split: "unsextets (map (b64_value opts) (take n inb)) =
    map_option (append (quads_of opts (take (4 * m) (take n inb))))
      (unsextets (map (b64_value opts) (take r (drop (4 * m) inb))))"
    using unsextets_split4 [OF nr, of "take n inb" opts] n nr by (simp add: drop_take)
  have ch: "inb ! k < 128 \<and> b64_value opts (inb ! k) < 64" if "k < n" for k
  proof -
    have "inb ! k \<in> set (take n inb)" using that n by (auto simp: in_set_conv_nth)
    then show ?thesis using ascii valid b64_value_range [of opts "inb ! k"] by force
  qed
  have lastw: "unat (word_of_nat n - 1 :: uint32) = n - 1" if "0 < n"
    using that n by (subst word_pred) (simp_all del: of_nat_diff)
  consider "r = 0" | "r = 1" | "r = 2" | "r = 3" using nr by linarith
  then show ?thesis
  proof cases
    case 1
    then show ?thesis
      using mr [of 0] split q needed by (simp add: base64_decode_size_def)
  next
    case 2
    then have "take r (drop (4 * m) inb) = [inb ! (4 * m)]"
      using n nr by (simp add: take_Suc_conv_app_nth)
    then show ?thesis
      using mr [of 0] mr [of 1] split 2 by (simp add: base64_decode_size_def)
  next
    case 3
    then have "take r (drop (4 * m) inb) = [inb ! (4 * m), inb ! (4 * m + 1)]"
      using n nr by (simp add: take_Suc_conv_app_nth numeral_2_eq_2)
    moreover have "n - 1 = 4 * m + 1" "0 < n" using 3 nr by simp_all
    ultimately show ?thesis
      using mr [of 0] mr [of 1] mr [of 2] split q needed 3 n lastw ch [of "n - 1"] nr
        tail_masks [of "b64_value opts (inb ! (n - 1))"]
      by (simp add: base64_decode_size_def Let_def mem_simps base64_value_table)
  next
    case 4
    then have "take r (drop (4 * m) inb) = [inb ! (4 * m), inb ! (4 * m + 1), inb ! (4 * m + 2)]"
      using n nr by (simp add: take_Suc_conv_app_nth numeral_3_eq_3)
    moreover have "n - 1 = 4 * m + 2" "0 < n" using 4 nr by simp_all
    ultimately show ?thesis
      using mr [of 0] mr [of 1] mr [of 2] split q needed 4 n lastw ch [of "n - 1"] nr
        tail_masks [of "b64_value opts (inb ! (n - 1))"]
      by (simp add: base64_decode_size_def Let_def mem_simps base64_value_table)
  qed
qed

text \<open>What is left of \<open>base64_decode\<close> once its input has been accepted.\<close>

definition base64_decode_body :: "BASE64_OPTIONS \<Rightarrow> byte list \<Rightarrow> nat \<Rightarrow> byte list \<Rightarrow>
    (int \<times> byte list option) option" where
  "base64_decode_body opts in_buf n out = do {
     (in_off, out_off, out) \<leftarrow> base64_decode_loop (b64_table opts) in_buf (of_nat n) 0 0 out;
     (out_off, out) \<leftarrow> base64_decode_tail (b64_table opts) in_buf (of_nat n) in_off out_off out;
     Some (c_int out_off, Some out)
   }"

lemma base64_decode_body:
  assumes u: "unsextets (map (b64_value opts) (take n in_buf)) = Some bs"
    and n: "n < 2 ^ 31" "n \<le> length in_buf" and fit: "length bs \<le> length out"
    and ascii: "\<forall>c \<in> set (take n in_buf). c < 128"
  shows "base64_decode_body opts in_buf n out =
    Some (int (length bs), Some (bs @ drop (length bs) out))"
proof -
  define m where "m = n div 4"
  have nm: "n = 4 * m + n mod 4" "n mod 4 < 4" by (simp_all add: m_def)
  obtain tb where tb: "unsextets (map (b64_value opts) (take (n - 4 * m) (drop (4 * m) in_buf))) = Some tb"
    and bs: "bs = quads_of opts (take (4 * m) in_buf) @ tb"
    using unsextets_split4 [OF nm, of "take n in_buf" opts] u n nm
    by (auto simp: drop_take map_option_eq_Some dest!: sym [of "Some bs"])
  have q: "length (quads_of opts (take (4 * m) in_buf)) = 3 * m"
    using n nm by (intro length_quads_of) simp
  have len: "length bs \<le> n" using unsextets_length [OF u] n by simp
  have loop: "base64_decode_loop (b64_table opts) in_buf (word_of_nat n) 0 0 out =
      Some (of_nat (4 * m), of_nat (3 * m), quads_of opts (take (4 * m) in_buf) @ drop (3 * m) out)"
    using base64_decode_loop_spec [of n 0 m in_buf 0 out opts] n nm ascii fit q bs len by simp
  have tail: "base64_decode_tail (b64_table opts) in_buf (word_of_nat n) (of_nat (4 * m))
      (of_nat (3 * m)) (quads_of opts (take (4 * m) in_buf) @ drop (3 * m) out) =
      Some (of_nat (length bs), bs @ drop (length bs) out)"
    using base64_decode_tail_spec [OF _ _ n _ tb _ ascii, of "3 * m"
        "quads_of opts (take (4 * m) in_buf) @ drop (3 * m) out"] n nm fit q bs len
    by (simp add: add.commute)
  show ?thesis
    using loop tail len n by (simp add: base64_decode_body_def sint_of_nat_small)
qed

lemma base64_decode_parse:
  fixes options :: "BASE64_OPTIONS option"
  assumes "unat in_size \<le> length in_buf" and "unat in_size < 2 ^ 31"
    and ascii: "\<forall>c \<in> set (take (unat in_size) in_buf). c < 128"
    and "ch62 (the_options options) < 128" and "ch63 (the_options options) < 128"
  defines "opts \<equiv> the_options options"
  defines "cs \<equiv> take (unat in_size) in_buf"
  shows "base64_decode in_buf in_size out_buf out_size options =
    (case b64_parse opts cs of
       None \<Rightarrow> Some (- EINVAL, out_buf)
     | Some bs \<Rightarrow> (case out_buf of
           None \<Rightarrow> Some (int (length bs), None)
         | Some out \<Rightarrow> if unat out_size < length bs then Some (- ENOBUFS, Some out)
             else base64_decode_body opts in_buf (length (b64_strip opts cs)) out))"
proof -
  define n where "n = length (b64_strip opts cs)"
  have scs: "b64_strip opts cs = take n in_buf"
    using b64_strip_take [of opts cs] length_b64_strip [of opts cs]
    unfolding n_def cs_def by simp
  have n: "n \<le> length in_buf" "n < 2 ^ 31" "n \<le> unat in_size"
    using length_b64_strip [of opts cs] assms(1,2) unfolding n_def cs_def by simp_all
  have ascii': "\<forall>c \<in> set (take n in_buf). c < 128"
    using ascii n(3) set_take_subset_set_take [of n "unat in_size" in_buf] by blast
  have strip: "base64_strip opts in_buf in_size = Some (word_of_nat n)"
    using base64_strip_spec [of "unat in_size" in_buf opts] assms(1,2) by (simp add: n_def cs_def)
  have table: "base64_decode_table opts = Some (b64_table opts)"
    using assms by (simp add: base64_decode_table opts_def)
  have un: "unat (word_of_nat n :: uint32) = n" using n by simp
  have validate: "base64_validate (b64_table opts) in_buf n 0 =
      Some (0xff \<notin> set (map (b64_value opts) (take n in_buf)))"
    using base64_validate_spec [of n in_buf 0 opts] n ascii' by simp
  have parse: "b64_parse opts cs = (if 0xff \<in> set (map (b64_value opts) (take n in_buf)) then None
      else unsextets (map (b64_value opts) (take n in_buf)))"
    by (simp add: b64_parse_def scs Let_def)
  note code = base64_decode_def opts_def [symmetric] Let_def strip table validate un
  show ?thesis
  proof (cases "0xff \<in> set (map (b64_value opts) (take n in_buf))")
    case True
    then show ?thesis unfolding parse by (simp add: code)
  next
    case valid: False
    then have size: "base64_decode_size (b64_table opts) in_buf (word_of_nat n) =
        Some (map_option (\<lambda>bs. word_of_nat (length bs)) (unsextets (map (b64_value opts) (take n in_buf))))"
      using base64_decode_size_spec [of n in_buf opts] n ascii' by simp
    have ret: "unat (word_of_nat (length bs) :: uint32) = length bs"
        "c_int (word_of_nat (length bs)) = int (length bs)"
      if "unsextets (map (b64_value opts) (take n in_buf)) = Some bs" for bs
      using unsextets_length [OF that] n by (simp_all add: sint_of_nat_small)
    show ?thesis
      unfolding parse n_def [symmetric] using valid size ret
      by (auto simp: code base64_decode_body_def word_less_nat_alt split: option.splits)
  qed
qed

text \<open>
  \<open>base64_decode\<close> of 7-bit characters: a text that parses (after up to two padding
  characters are dropped) is stored as its bytes at the start of the output and their number is
  returned; a character outside the alphabet, an impossible length or left-over bits that are not
  zero give \<open>-EINVAL\<close>, and an output that is too small \<open>-ENOBUFS\<close>, both without writing.
\<close>

theorem base64_decode_correct:
  fixes options :: "BASE64_OPTIONS option"
  assumes "unat in_size \<le> length in_buf" and "unat in_size < 2 ^ 31"
    and "unat out_size \<le> length out"
    and ascii: "\<forall>c \<in> set (take (unat in_size) in_buf). c < 128"
    and "ch62 (the_options options) < 128" and "ch63 (the_options options) < 128"
  shows "base64_decode in_buf in_size (Some out) out_size options =
    Some (case b64_parse (the_options options) (take (unat in_size) in_buf) of
        None \<Rightarrow> (- EINVAL, Some out)
      | Some bs \<Rightarrow> if unat out_size < length bs then (- ENOBUFS, Some out)
          else (int (length bs), Some (bs @ drop (length bs) out)))"
proof -
  let ?opts = "the_options options" and ?cs = "take (unat in_size) in_buf"
  let ?n = "length (b64_strip ?opts ?cs)"
  have n: "?n \<le> unat in_size" and take: "take ?n in_buf = b64_strip ?opts ?cs"
    using length_b64_strip [of ?opts ?cs] b64_strip_take [of ?opts ?cs] assms(1) by simp_all
  have "\<forall>c \<in> set (take ?n in_buf). c < 128"
    using ascii n set_take_subset_set_take [of ?n "unat in_size" in_buf] by blast
  then have "base64_decode_body ?opts in_buf ?n out = Some (int (length bs), Some (bs @ drop (length bs) out))"
    if "b64_parse ?opts ?cs = Some bs" "\<not> unat out_size < length bs" for bs
    using that n take assms(1-3)
    by (intro base64_decode_body) (auto simp: b64_parse_def Let_def split: if_splits)
  then show ?thesis
    using base64_decode_parse [OF assms(1,2) ascii assms(5,6)]
    by (auto split: option.splits)
qed

section \<open>Encoding and decoding are inverse\<close>

lemma length_table_core [simp]: "length base64_table_core = 62"
  by (simp add: base64_table_core_def bytes_of_def)

lemma core_digits:
  assumes "n < 62"
  shows "base64_table_core ! n < 128" "b64_core_value (base64_table_core ! n) = word_of_nat n"
proof -
  have "list_all (\<lambda>c. c < 128) base64_table_core" by code_simp
  with assms show "base64_table_core ! n < 128" by (simp add: list_all_length)
  have "map b64_core_value base64_table_core = map word_of_nat [0..<62]" by code_simp
  then have "map b64_core_value base64_table_core ! n = map word_of_nat [0..<62] ! n" by simp
  with assms show "b64_core_value (base64_table_core ! n) = word_of_nat n" by simp
qed

lemma core_value_digit:
  assumes "b64_core_value c \<noteq> 0xff"
  shows "base64_table_core ! unat (b64_core_value c) = c"
proof -
  have "list_all (\<lambda>n. base64_table_core ! unat (b64_core_value (word_of_nat n)) = word_of_nat n)
      ([65..<91] @ [97..<123] @ [48..<58])"
    by code_simp
  moreover have "unat c \<in> set ([65..<91] @ [97..<123] @ [48..<58])"
    unfolding set_append set_upt using assms
    by (auto simp: b64_core_value_def word_le_nat_alt split: if_splits)
  ultimately have "base64_table_core ! unat (b64_core_value (word_of_nat (unat c))) = word_of_nat (unat c)"
    unfolding list_all_iff by blast
  then show ?thesis by simp
qed

lemma alphabet_value:
  assumes good: "good_options opts" and s: "s < 64"
  defines "c \<equiv> b64_alphabet opts ! unat s"
  shows "c < 128" "b64_value opts c = s" "pad opts \<noteq> 0 \<Longrightarrow> c \<noteq> pad opts"
proof -
  have "unat s < 64" using s by (simp add: word_less_nat_alt)
  then consider "unat s < 62" | "unat s = 62" | "unat s = 63" by linarith
  then have "c < 128 \<and> b64_value opts c = s \<and> (pad opts \<noteq> 0 \<longrightarrow> c \<noteq> pad opts)"
  proof cases
    case 1
    have c: "c = base64_table_core ! unat s" using 1 by (simp add: c_def b64_alphabet_def nth_append)
    have v: "b64_core_value c = s" "c < 128" using core_digits [OF 1] c by simp_all
    have "s \<noteq> 0xff" using 1 by (auto simp: word_unat_eq_iff)
    then have "c \<noteq> ch62 opts" "c \<noteq> ch63 opts" "pad opts \<noteq> 0 \<longrightarrow> c \<noteq> pad opts"
      using good v by (auto simp: good_options_def)
    with v show ?thesis by (simp add: b64_value_def)
  next
    case 2
    then have "s = 62" "c = ch62 opts" by (simp_all add: c_def b64_alphabet_def nth_append word_unat_eq_iff)
    with good show ?thesis by (auto simp: good_options_def b64_value_def)
  next
    case 3
    then have "s = 63" "c = ch63 opts" by (simp_all add: c_def b64_alphabet_def nth_append word_unat_eq_iff)
    with good show ?thesis by (auto simp: good_options_def b64_value_def)
  qed
  then show "c < 128" "b64_value opts c = s" "pad opts \<noteq> 0 \<Longrightarrow> c \<noteq> pad opts" by simp_all
qed

lemma value_alphabet:
  assumes "b64_value opts c \<noteq> 0xff"
  shows "b64_alphabet opts ! unat (b64_value opts c) = c"
  using assms core_value_digit [of c] core_value_range [of c]
  by (auto simp: b64_value_def b64_alphabet_def nth_append word_less_nat_alt)

lemma values_chars: "good_options opts \<Longrightarrow> map (b64_value opts) (b64_chars opts bs) = sextets bs"
  using sextets_less [of bs] by (auto simp: b64_chars_def alphabet_value intro: map_idI)

lemma chars_values:
  "0xff \<notin> set (map (b64_value opts) cs) \<Longrightarrow> unsextets (map (b64_value opts) cs) = Some bs \<Longrightarrow>
     b64_chars opts bs = cs"
proof -
  assume valid: "0xff \<notin> set (map (b64_value opts) cs)"
    and u: "unsextets (map (b64_value opts) cs) = Some bs"
  have "\<forall>s \<in> set (map (b64_value opts) cs). s < 64" using valid b64_value_range by force
  then have "sextets bs = map (b64_value opts) cs" using sextets_unsextets [OF u] by blast
  then show ?thesis
    using valid by (force simp: b64_chars_def intro: map_idI value_alphabet)
qed

lemma chars_ascii: "good_options opts \<Longrightarrow> \<forall>c \<in> set (b64_chars opts bs). c < 128"
  and chars_no_pad: "good_options opts \<Longrightarrow> pad opts \<noteq> 0 \<Longrightarrow> pad opts \<notin> set (b64_chars opts bs)"
  using sextets_less [of bs] by (auto simp: b64_chars_def alphabet_value dest: alphabet_value(3))

lemma strip_chars:
  assumes "pad opts \<notin> set cs \<or> pad opts = 0"
  shows "b64_strip opts cs = cs"
    and "pad opts \<noteq> 0 \<Longrightarrow> length cs mod 4 = 3 \<Longrightarrow> b64_strip opts (cs @ [pad opts]) = cs"
    and "pad opts \<noteq> 0 \<Longrightarrow> length cs mod 4 = 2 \<Longrightarrow> b64_strip opts (cs @ [pad opts, pad opts]) = cs"
proof -
  have l: "cs \<noteq> [] \<Longrightarrow> pad opts \<noteq> 0 \<Longrightarrow> last cs \<noteq> pad opts" using assms by (metis last_in_set)
  then show "b64_strip opts cs = cs" by (auto simp: b64_strip_def)
  show "b64_strip opts (cs @ [pad opts]) = cs" if "pad opts \<noteq> 0" "length cs mod 4 = 3"
  proof -
    have "cs \<noteq> []" "Suc (length cs) mod 4 = 0" using that by (auto simp: mod_Suc)
    with l that show ?thesis by (simp add: b64_strip_def)
  qed
  show "b64_strip opts (cs @ [pad opts, pad opts]) = cs" if "pad opts \<noteq> 0" "length cs mod 4 = 2"
  proof -
    have "Suc (Suc (length cs)) mod 4 = 0" using that by (simp add: mod_Suc)
    with that show ?thesis by (simp add: b64_strip_def butlast_append)
  qed
qed

lemma length_chars_mod: "length (b64_chars opts bs) mod 4 = (if length bs mod 3 = 0 then 0 else length bs mod 3 + 1)"
  unfolding length_b64_chars length_sextets by (auto simp: mod_Suc)

lemma strip_text:
  assumes "good_options opts"
  shows "b64_strip opts (b64_text opts bs) = b64_chars opts bs"
proof -
  note S = strip_chars [of opts "b64_chars opts bs"]
  have "pad opts \<notin> set (b64_chars opts bs) \<or> pad opts = 0" using chars_no_pad [OF assms] by blast
  then show ?thesis
    using S length_chars_mod [of opts bs] mod3_cases [of "length bs"]
    by (elim disjE) (auto simp: b64_text_def b64_padding_def numeral_2_eq_2)
qed

lemma strip_cases:
  obtains "t = b64_strip opts t"
  | "pad opts \<noteq> 0" "t = b64_strip opts t @ [pad opts]" "length t mod 4 = 0"
  | "pad opts \<noteq> 0" "t = b64_strip opts t @ [pad opts, pad opts]" "length t mod 4 = 0"
proof (cases "pad opts \<noteq> 0 \<and> t \<noteq> [] \<and> length t mod 4 = 0 \<and> last t = pad opts")
  case True
  then obtain u where u: "t = u @ [pad opts]" by (metis append_butlast_last_id)
  show ?thesis
  proof (cases "u \<noteq> [] \<and> last u = pad opts")
    case last: True
    then obtain v where "u = v @ [pad opts]" by (metis append_butlast_last_id)
    with u True that(3) show ?thesis by (simp add: b64_strip_def butlast_append Let_def)
  next
    case False
    moreover have "u \<noteq> []" using u True by auto
    ultimately show ?thesis using u True that(2) by (simp add: b64_strip_def)
  qed
next
  case False
  then show ?thesis using that(1) by (auto simp: b64_strip_def)
qed

lemma b64_parse_iff:
  assumes good: "good_options opts"
  shows "b64_parse opts t = Some bs \<longleftrightarrow> t = b64_chars opts bs \<or> t = b64_text opts bs"
proof
  assume P: "b64_parse opts t = Some bs"
  define cs where "cs = b64_strip opts t"
  have "0xff \<notin> set (map (b64_value opts) cs)" "unsextets (map (b64_value opts) cs) = Some bs"
    using P by (auto simp: b64_parse_def cs_def Let_def split: if_splits)
  then have chars: "b64_chars opts bs = cs" by (rule chars_values)
  show "t = b64_chars opts bs \<or> t = b64_text opts bs"
  proof (cases opts t rule: strip_cases)
    case 1
    with chars show ?thesis by (simp add: cs_def)
  next
    case 2
    then have t: "pad opts \<noteq> 0" "t = cs @ [pad opts]" by (simp_all add: cs_def)
    with 2(3) have "length cs mod 4 = 3" by simp presburger
    then have "length bs mod 3 = 2"
      using length_chars_mod [of opts bs] chars by (auto split: if_splits)
    with t chars show ?thesis by (simp add: b64_text_def b64_padding_def)
  next
    case 3
    then have t: "pad opts \<noteq> 0" "t = cs @ [pad opts, pad opts]" by (simp_all add: cs_def)
    with 3(3) have "length cs mod 4 = 2" by simp presburger
    then have "length bs mod 3 = 1"
      using length_chars_mod [of opts bs] chars by (auto split: if_splits)
    with t chars show ?thesis by (simp add: b64_text_def b64_padding_def numeral_2_eq_2)
  qed
next
  have valid: "0xff \<notin> set (sextets bs)" using sextets_less [of bs] by auto
  have "b64_strip opts (b64_chars opts bs) = b64_chars opts bs"
    using strip_chars(1) chars_no_pad [OF good] by blast
  moreover assume "t = b64_chars opts bs \<or> t = b64_text opts bs"
  ultimately have "b64_strip opts t = b64_chars opts bs" using strip_text [OF good] by auto
  then show "b64_parse opts t = Some bs"
    using valid by (simp add: b64_parse_def values_chars [OF good] unsextets_sextets del: set_map)
qed

lemma b64_parse_text: "good_options opts \<Longrightarrow> b64_parse opts (b64_text opts bs) = Some bs"
  by (simp add: b64_parse_iff)

interpretation b64: block_codec "b64_text base64_def_options" "b64_parse base64_def_options" 3
proof
  show "b64_parse base64_def_options (b64_text base64_def_options xs) = Some xs" for xs
    using b64_parse_text [OF good_def_options] .
  show "b64_text base64_def_options (xs @ ys) =
      b64_text base64_def_options xs @ b64_text base64_def_options ys"
    if "3 dvd length xs" for xs ys
  proof -
    have "length (xs @ ys) mod 3 = length ys mod 3" "length xs mod 3 = 0"
      using that by (simp_all add: mod_add_left_eq [symmetric] dvd_eq_mod_eq_0)
    then show ?thesis
      using that by (simp add: b64_text_def b64_chars_append b64_padding_def)
  qed
qed



lemma text_ascii:
  assumes "good_options opts"
  shows "\<forall>c \<in> set (b64_text opts bs). c < 128"
proof -
  have "pad opts < 128" using assms by (simp only: good_options_def)
  then have "\<forall>c \<in> set (b64_padding opts (length bs)). c < 128"
    by (simp add: b64_padding_def)
  with chars_ascii [OF assms] show ?thesis
    unfolding b64_text_def set_append by blast
qed

theorem base64_encode_correct_witness:
  "base64_encode (bytes_of ''Man!'') 4 (Some (replicate 10 7)) 10 None =
     Some (8, Some (bytes_of ''TWFuIQ=='' @ [0, 7]))"
proof -
  have t: "b64_text (the_options None) (bytes_of ''Man!'') = bytes_of ''TWFuIQ==''"
    by code_simp
  have l: "length (bytes_of ''TWFuIQ=='') = 8" by (simp add: bytes_of_def)
  have l': "take 4 (bytes_of ''Man!'') = bytes_of ''Man!''" "length (bytes_of ''Man!'') = 4" by (simp_all add: bytes_of_def)
  with t l show ?thesis
    using base64_encode_correct [of 4 "bytes_of ''Man!''" 10 "replicate 10 7" None]
    by (simp add: l')
qed

theorem base64_decode_correct_witness:
  "base64_decode (bytes_of ''TWFuIQ=='') 8 (Some (replicate 5 7)) 5 None =
     Some (4, Some (bytes_of ''Man!'' @ [7]))"
proof -
  have p: "b64_parse (the_options None) (bytes_of ''TWFuIQ=='') = Some (bytes_of ''Man!'')"
    by code_simp
  have a: "list_all (\<lambda>c. c < 128) (bytes_of ''TWFuIQ=='')" "ch62 (the_options None) < 128"
    "ch63 (the_options None) < 128" by code_simp+
  have l: "take 8 (bytes_of ''TWFuIQ=='') = bytes_of ''TWFuIQ==''" "length (bytes_of ''Man!'') = 4"
    "length (bytes_of ''TWFuIQ=='') = 8"
    by (simp_all add: bytes_of_def)
  show ?thesis
    using base64_decode_correct [of 8 "bytes_of ''TWFuIQ==''" 5 "replicate 5 7" None] p a l
    by (simp add: list_all_iff)
qed

lemma base64_encode_query:
  assumes "length bs < 2 ^ 30"
  shows "base64_encode bs (of_nat (length bs)) None out_size options =
    Some (int (length (b64_text (the_options options) bs)) + 1, None)"
proof -
  let ?opts = "the_options options"
  let ?w = "base64_encode_size ?opts (word_of_nat (length bs))"
  have u: "unat ?w = b64_length ?opts (length bs)" using base64_encode_size [OF assms] .
  have b: "b64_length ?opts (length bs) + 1 < 2 ^ 31"
    using assms unfolding b64_length_def by simp linarith
  have "?w = word_of_nat (b64_length ?opts (length bs))" using u b by (simp add: word_unat_eq_iff)
  then have "?w + 1 = word_of_nat (b64_length ?opts (length bs) + 1)" by simp
  then have "c_int (?w + 1) = int (b64_length ?opts (length bs) + 1)"
    using sint_of_nat_small [OF b] by (simp only:)
  then show ?thesis
    by (simp add: base64_encode_def Let_def length_b64_text)
qed

text \<open>
  C9. Round trip through the C functions, for every dialect whose two extra digits and padding
  are plain characters outside the core alphabet, and inputs of fewer than \<open>2 ^ 30\<close> bytes: in a buffer of the
  size that the call with a NULL buffer announces, \<open>base64_encode\<close> writes the text and its terminator
  (and in one that is a byte shorter, the text alone). From either buffer, \<open>base64_decode\<close> restores exactly the bytes
  into a buffer of the size that it announces.
\<close>

theorem base64_roundtrip:
  assumes "good_options (the_options options)" and "length bs < 2 ^ 30"
  shows "\<exists>t n. n = length t \<and>
    base64_encode bs (of_nat (length bs)) None 0 options = Some (int (n + 1), None) \<and>
    (\<forall>out. length out = n + 1 \<longrightarrow>
       base64_encode bs (of_nat (length bs)) (Some out) (of_nat (n + 1)) options = Some (int n, Some (t @ [0]))) \<and>
    (\<forall>out. length out = n \<longrightarrow>
       base64_encode bs (of_nat (length bs)) (Some out) (of_nat n) options = Some (int n, Some t)) \<and>
    (\<forall>buf \<in> {t, t @ [0]}.
       base64_decode buf (of_nat n) None 0 options = Some (int (length bs), None) \<and>
       (\<forall>out. length out = length bs \<longrightarrow>
          base64_decode buf (of_nat n) (Some out) (of_nat (length bs)) options =
            Some (int (length bs), Some bs)))"
proof -
  let ?opts = "the_options options"
  define t where "t = b64_text ?opts bs"
  have len: "length t + 1 < 2 ^ 31"
    using assms(2) unfolding t_def length_b64_text b64_length_def by simp linarith
  then have u: "unat (of_nat (length t) :: uint32) = length t" "unat (of_nat (length t + 1) :: uint32) = length t + 1"
    by (simp_all add: unat_of_nat_uint del: of_nat_add of_nat_Suc)
  have ascii: "\<forall>c \<in> set t. c < 128" using text_ascii [OF assms(1)] by (simp add: t_def)
  have opts: "ch62 ?opts < 128" "ch63 ?opts < 128" using assms(1) by (simp_all add: good_options_def)
  have parse: "b64_parse ?opts t = Some bs" using b64_parse_text [OF assms(1)] by (simp add: t_def)
  have enc: "base64_encode bs (of_nat (length bs)) (Some out) k options =
      Some (int (length t), Some (t @ (if length t < unat k then 0 # drop (length t + 1) out else drop (length t) out)))"
    if "length t \<le> unat k" "unat k \<le> length out" for out k
    using that assms base64_encode_correct [of "of_nat (length bs)" bs k out options] by (simp add: t_def)
  have dec: "base64_decode buf (of_nat (length t)) None 0 options = Some (int (length bs), None)"
    "length out = length bs \<Longrightarrow> base64_decode buf (of_nat (length t)) (Some out) (of_nat (length bs)) options =
      Some (int (length bs), Some bs)" if "buf \<in> {t, t @ [0]}" for buf out
  proof -
    have buf: "unat (of_nat (length t) :: uint32) \<le> length buf" "take (unat (of_nat (length t) :: uint32)) buf = t"
      using that u(1) by auto
    show "base64_decode buf (of_nat (length t)) None 0 options = Some (int (length bs), None)"
      using base64_decode_parse [of "of_nat (length t)" buf options None 0] buf u(1) len ascii opts parse by simp
    show "base64_decode buf (of_nat (length t)) (Some out) (of_nat (length bs)) options = Some (int (length bs), Some bs)"
      if "length out = length bs"
      using that base64_decode_correct [of "of_nat (length t)" buf "of_nat (length bs)" out options]
        buf u(1) len ascii opts parse assms(2) by simp
  qed
  show ?thesis
  proof (intro exI [of _ t] exI [of _ "length t"] conjI allI impI ballI refl)
    show "base64_encode bs (of_nat (length bs)) None 0 options = Some (int (length t + 1), None)"
      using base64_encode_query [OF assms(2), of 0 options] by (simp add: t_def)
  qed (use enc u dec in \<open>simp_all del: of_nat_add of_nat_Suc\<close>)
qed

text \<open>Two bytes in the dialect for names of files: three digits, no padding and a terminator in the announced 4 bytes.\<close>

theorem base64_roundtrip_witness:
  "base64_encode [251, 255] 2 (Some [7, 7, 7, 7]) 4 (Some \<lparr>ch62 = 45, ch63 = 95, pad = 0\<rparr>) = Some (3, Some [45, 95, 56, 0]) \<and>
   base64_decode [45, 95, 56, 0] 3 (Some [0, 0]) 2 (Some \<lparr>ch62 = 45, ch63 = 95, pad = 0\<rparr>) = Some (2, Some [251, 255])"
proof -
  let ?o = "Some \<lparr>ch62 = 45, ch63 = 95, pad = 0\<rparr>"
  have good: "good_options (the_options ?o)" by code_simp
  have l: "length [251 :: byte, 255] < 2 ^ 30" by simp
  have t: "b64_text (the_options ?o) [251, 255] = [45, 95, 56]" by code_simp
  obtain t n where tn: "n = length t"
    "base64_encode [251, 255] (of_nat (length [251 :: byte, 255])) None 0 ?o = Some (int (n + 1), None)"
    "\<forall>out. length out = n + 1 \<longrightarrow> base64_encode [251, 255] (of_nat (length [251 :: byte, 255])) (Some out) (of_nat (n + 1)) ?o =
      Some (int n, Some (t @ [0]))"
    "\<forall>buf \<in> {t, t @ [0]}. base64_decode buf (of_nat n) None 0 ?o = Some (int (length [251 :: byte, 255]), None) \<and>
      (\<forall>out. length out = length [251 :: byte, 255] \<longrightarrow> base64_decode buf (of_nat n) (Some out) (of_nat (length [251 :: byte, 255])) ?o =
         Some (int (length [251 :: byte, 255]), Some [251, 255]))"
    using base64_roundtrip [OF good l] by blast
  have n: "n = 3" using tn(2) base64_encode_query [of "[251, 255]" 0 ?o] t by simp
  have "t = [45, 95, 56]"
    using tn(3) n t base64_encode_correct [of 2 "[251, 255]" 4 "[7, 7, 7, 7]" ?o]
    by (auto dest!: spec [of _ "[7, 7, 7, 7]"])
  then show ?thesis using tn(3,4) n by (auto dest!: spec [of _ "[7, 7, 7, 7]"] spec [of _ "[0, 0]"] simp: the_options_def)
qed

text \<open>
  \<open>base64_decode\<close> accepts exactly the texts that \<open>base64_encode\<close> produces, with their padding
  or without it: on 7-bit text it returns a size if and only if the text is the encoding of some
  bytes, so no byte sequence has two encodings that differ in more than their padding.
\<close>

theorem base64_decode_accepts:
  assumes "good_options (the_options options)" and "length cs < 2 ^ 31"
    and "\<forall>c \<in> set cs. c < 128"
  shows "(\<exists>n. base64_decode cs (of_nat (length cs)) None 0 options = Some (int n, None)) \<longleftrightarrow>
    (\<exists>bs. cs = b64_chars (the_options options) bs \<or> cs = b64_text (the_options options) bs)"
proof -
  let ?opts = "the_options options"
  have opts: "ch62 ?opts < 128" "ch63 ?opts < 128" using assms(1) by (simp_all add: good_options_def)
  have "base64_decode cs (of_nat (length cs)) None 0 options =
      (case b64_parse ?opts cs of None \<Rightarrow> Some (- EINVAL, None)
         | Some bs \<Rightarrow> Some (int (length bs), None))"
    using base64_decode_parse [of "of_nat (length cs)" cs options None 0] opts assms(2,3)
    by (simp split: option.splits)
  then have "(\<exists>n. base64_decode cs (of_nat (length cs)) None 0 options = Some (int n, None)) \<longleftrightarrow>
      (\<exists>bs. b64_parse ?opts cs = Some bs)"
    by (auto simp: EINVAL_def split: option.splits)
  then show ?thesis by (simp add: b64_parse_iff [OF assms(1)])
qed

theorem base64_decode_accepts_witness:
  "\<not> (\<exists>bs. [65] = b64_chars base64_def_options bs \<or> [65] = b64_text base64_def_options bs)"
proof -
  have "base64_decode [65] 1 None 0 None = Some (- 22, None)" by code_simp
  then show ?thesis
    using base64_decode_accepts [of None "[65]"] good_def_options
    by (simp add: the_options_def)
qed

text \<open>
  Base64 in pieces: a byte stream cut into chunks whose lengths are multiples of three may be
  encoded chunk by chunk with the default dialect; the concatenated texts decode, through
  \<open>base64_decode\<close>, to the concatenated chunks.
\<close>

theorem base64_decode_chunks:
  assumes "\<forall>c \<in> set chunks. 3 dvd length c" and "length (concat chunks @ bs) < 2 ^ 30"
    and "length out = length (concat chunks @ bs)"
  defines "t \<equiv> concat (map (b64_text base64_def_options) chunks) @ b64_text base64_def_options bs"
  shows "base64_decode t (of_nat (length t)) (Some out) (of_nat (length out)) None =
    Some (int (length out), Some (concat chunks @ bs))"
proof -
  have t: "t = b64_text base64_def_options (concat chunks @ bs)"
    using b64.enc_concat [OF assms(1)] by (simp add: t_def)
  have "length t < 2 ^ 31" unfolding t length_b64_text using assms(2) by (rule b64_length_bound)
  moreover have "\<forall>c \<in> set t. c < 128" unfolding t using text_ascii [OF good_def_options] .
  moreover have "b64_parse base64_def_options t = Some (concat chunks @ bs)"
    unfolding t_def using b64.dec_concat [OF assms(1)] .
  moreover have "ch62 base64_def_options < 128" "ch63 base64_def_options < 128"
    using good_def_options by (simp_all add: good_options_def)
  ultimately show ?thesis
    using assms(2,3) unat_of_nat_uint [of "length out"]
      base64_decode_correct [of "of_nat (length t)" t "of_nat (length out)" out None]
    by (simp add: the_options_def del: length_append)
qed

theorem base64_decode_chunks_witness:
  "base64_decode (concat (map (b64_text base64_def_options) [[1, 2, 3], [4, 5, 6]]) @
       b64_text base64_def_options [7])
     (of_nat (length (concat (map (b64_text base64_def_options) [[1, 2, 3], [4, 5, 6]]) @
       b64_text base64_def_options [7]))) (Some (replicate 7 0)) 7 None =
   Some (7, Some [1, 2, 3, 4, 5, 6, 7])"
  using base64_decode_chunks [of "[[1, 2, 3], [4, 5, 6]]" "[7]" "replicate 7 0"]
  by (simp add: numeral_3_eq_3 [symmetric])

text \<open>
  A character with its top bit set is undefined behaviour: \<open>char\<close> being signed, the lookup
  \<open>table[(int) in_buf[in_off]]\<close> of the validation loop has a negative index. Every input whose
  first character outside the alphabet is such a character goes wrong (instead of returning
  \<open>-EINVAL\<close>).
\<close>

theorem base64_decode_high_char:
  assumes "\<forall>c \<in> set cs. c < 128 \<and> b64_value base64_def_options c \<noteq> 0xff" and "128 \<le> c"
    and "length (cs @ c # rest) < 2 ^ 31"
  shows "base64_decode (cs @ c # rest) (of_nat (length (cs @ c # rest))) out_buf out_size None = None"
proof -
  let ?t = "cs @ c # rest" and ?opts = base64_def_options
  define n where "n = length (b64_strip ?opts ?t)"
  have strip: "base64_strip ?opts ?t (word_of_nat (length ?t)) = Some (word_of_nat n)"
    using base64_strip_spec [of "length ?t" ?t ?opts] assms(3) by (simp add: n_def)
  have pad: "c \<noteq> pad ?opts" using assms(2) by (auto simp: base64_def_options_def)
  obtain k where k: "?t = b64_strip ?opts ?t @ replicate k (pad ?opts)"
    by (cases ?opts ?t rule: strip_cases) (metis replicate_0 replicate_Suc append_Nil2)+
  have long: "length cs < n"
  proof (rule ccontr)
    assume "\<not> length cs < n"
    then have "(b64_strip ?opts ?t @ replicate k (pad ?opts)) ! length cs \<in> set (replicate k (pad ?opts))"
      using arg_cong [OF k, of length] by (simp add: n_def nth_append)
    with k pad show False by (metis in_set_replicate nth_append_length)
  qed
  have n: "n \<le> length ?t" using length_b64_strip unfolding n_def .
  have table: "base64_decode_table ?opts = Some (b64_table ?opts)"
    using good_def_options by (simp add: base64_decode_table good_options_def)
  have neg: "sint c < 0"
    using assms(2) unsigned_less [of c, where ?'a = int] by (simp add: sint_byte leD)
  have "base64_validate (b64_table ?opts) ?t n i = None" if "i \<le> length cs" for i
    using that
  proof (induction "length cs - i" arbitrary: i)
    case 0
    then have i: "i = length cs" by simp
    show ?case unfolding i using long n neg
      by (subst base64_validate.simps) (simp add: mem_simps base64_value_def peek_int_def)
  next
    case (Suc k)
    then have "i < length cs" by simp
    then have "cs ! i < 128 \<and> b64_value ?opts (cs ! i) \<noteq> 0xff" using assms(1) nth_mem by blast
    moreover have "base64_validate (b64_table ?opts) ?t n (i + 1) = None"
      using Suc by (intro Suc.hyps) auto
    ultimately show ?case using long \<open>i < length cs\<close>
      by (subst base64_validate.simps) (simp add: mem_simps base64_value_table nth_append)
  qed
  moreover have "unat (word_of_nat n :: uint32) = n" using n assms(3) by simp
  ultimately show ?thesis
    using strip table by (simp add: base64_decode_def the_options_def Let_def)
qed

theorem base64_decode_high_char_witness:
  "base64_decode [84, 0xc3, 0xa9, 61] 4 None 0 None = None"
proof -
  have "b64_value base64_def_options 84 = 19" by code_simp
  then show ?thesis using base64_decode_high_char [of "[84]" "0xc3" "[0xa9, 61]"] by simp
qed

end
