(* ===== verification/Intrusive_List.thy ===== *)
theory Intrusive_List
  imports CRE_Prelude
begin

text \<open>
  \<open>data/list.h\<close>: the three intrusive linked lists \<open>LIST\<close> (double-linked), \<open>SLIST\<close>
  (single-linked) and \<open>QLIST\<close> (single-linked with a tail pointer). All are circular: the list
  structure itself, whose only or first member is a node, closes the ring. A node is named by its
  address; the first node (\<open>main\<close>) of a list has the address of the list.
\<close>

section \<open>LIST\<close>

record list_node =
  list_p :: addr
  list_n :: addr

type_synonym list_heap = "addr \<rightharpoonup> list_node"

definition list_init :: "list_heap \<Rightarrow> addr \<Rightarrow> list_heap option" where
  "list_init h list = do {
     h \<leftarrow> modify h list (list_n_update (\<lambda>_. list));
     modify h list (list_p_update (\<lambda>_. list))
   }"

definition list_is_empty :: "list_heap \<Rightarrow> addr \<Rightarrow> bool option" where
  "list_is_empty h list = do { m \<leftarrow> load h list; Some (list_n m = list) }"

definition list_head :: "list_heap \<Rightarrow> addr \<Rightarrow> addr option" where
  "list_head h list = do { m \<leftarrow> load h list; Some (list_n m) }"

definition list_tail :: "list_heap \<Rightarrow> addr \<Rightarrow> addr option" where
  "list_tail h list = do { m \<leftarrow> load h list; Some (list_p m) }"

definition list_prev :: "list_heap \<Rightarrow> addr \<Rightarrow> addr option" where
  "list_prev h node = do { m \<leftarrow> load h node; Some (list_p m) }"

definition list_next :: "list_heap \<Rightarrow> addr \<Rightarrow> addr option" where
  "list_next h node = do { m \<leftarrow> load h node; Some (list_n m) }"

definition list_end :: "addr \<Rightarrow> addr" where
  "list_end list = list"

definition list_insert_after :: "list_heap \<Rightarrow> addr \<Rightarrow> addr \<Rightarrow> addr \<Rightarrow> list_heap option" where
  "list_insert_after h list node_where node = do {
     h \<leftarrow> modify h node (list_p_update (\<lambda>_. node_where));
     w \<leftarrow> load h node_where;
     h \<leftarrow> modify h node (list_n_update (\<lambda>_. list_n w));
     h \<leftarrow> modify h node_where (list_n_update (\<lambda>_. node));
     m \<leftarrow> load h node;
     modify h (list_n m) (list_p_update (\<lambda>_. node))
   }"

definition list_insert_before :: "list_heap \<Rightarrow> addr \<Rightarrow> addr \<Rightarrow> addr \<Rightarrow> list_heap option" where
  "list_insert_before h list node_where node = do {
     w \<leftarrow> load h node_where;
     h \<leftarrow> modify h node (list_p_update (\<lambda>_. list_p w));
     h \<leftarrow> modify h node (list_n_update (\<lambda>_. node_where));
     h \<leftarrow> modify h node_where (list_p_update (\<lambda>_. node));
     m \<leftarrow> load h node;
     modify h (list_p m) (list_n_update (\<lambda>_. node))
   }"

definition list_append :: "list_heap \<Rightarrow> addr \<Rightarrow> addr \<Rightarrow> list_heap option" where
  "list_append h list node = list_insert_before h list list node"

definition list_prepend :: "list_heap \<Rightarrow> addr \<Rightarrow> addr \<Rightarrow> list_heap option" where
  "list_prepend h list node = list_insert_after h list list node"

definition list_remove :: "list_heap \<Rightarrow> addr \<Rightarrow> addr \<Rightarrow> list_heap option" where
  "list_remove h list node = do {
     m \<leftarrow> load h node;
     h \<leftarrow> modify h (list_p m) (list_n_update (\<lambda>_. list_n m));
     m \<leftarrow> load h node;
     modify h (list_n m) (list_p_update (\<lambda>_. list_p m))
   }"

definition list_remove_head :: "list_heap \<Rightarrow> addr \<Rightarrow> list_heap option" where
  "list_remove_head h list = do { m \<leftarrow> load h list; list_remove h list (list_n m) }"

definition list_remove_tail :: "list_heap \<Rightarrow> addr \<Rightarrow> list_heap option" where
  "list_remove_tail h list = do { m \<leftarrow> load h list; list_remove h list (list_p m) }"

section \<open>SLIST\<close>

record slist_node =
  slist_n :: addr

type_synonym slist_heap = "addr \<rightharpoonup> slist_node"

definition slist_init :: "slist_heap \<Rightarrow> addr \<Rightarrow> slist_heap option" where
  "slist_init h list = modify h list (slist_n_update (\<lambda>_. list))"

definition slist_is_empty :: "slist_heap \<Rightarrow> addr \<Rightarrow> bool option" where
  "slist_is_empty h list = do { m \<leftarrow> load h list; Some (slist_n m = list) }"

definition slist_head :: "slist_heap \<Rightarrow> addr \<Rightarrow> addr option" where
  "slist_head h list = do { m \<leftarrow> load h list; Some (slist_n m) }"

definition slist_next :: "slist_heap \<Rightarrow> addr \<Rightarrow> addr option" where
  "slist_next h node = do { m \<leftarrow> load h node; Some (slist_n m) }"

definition slist_end :: "addr \<Rightarrow> addr" where
  "slist_end list = list"

definition slist_insert_after :: "slist_heap \<Rightarrow> addr \<Rightarrow> addr \<Rightarrow> addr \<Rightarrow> slist_heap option" where
  "slist_insert_after h list node_where node = do {
     w \<leftarrow> load h node_where;
     h \<leftarrow> modify h node (slist_n_update (\<lambda>_. slist_n w));
     modify h node_where (slist_n_update (\<lambda>_. node))
   }"

definition slist_prepend :: "slist_heap \<Rightarrow> addr \<Rightarrow> addr \<Rightarrow> slist_heap option" where
  "slist_prepend h list node = slist_insert_after h list list node"

definition slist_remove :: "slist_heap \<Rightarrow> addr \<Rightarrow> addr \<Rightarrow> addr \<Rightarrow> slist_heap option" where
  "slist_remove h list node_prev node = do {
     m \<leftarrow> load h node;
     modify h node_prev (slist_n_update (\<lambda>_. slist_n m))
   }"

definition slist_remove_head :: "slist_heap \<Rightarrow> addr \<Rightarrow> slist_heap option" where
  "slist_remove_head h list = do { m \<leftarrow> load h list; slist_remove h list list (slist_n m) }"

section \<open>QLIST\<close>

text \<open>The memory of queues: their nodes (and \<open>main\<close> members), and their \<open>tail\<close> members.\<close>

record qlist_node =
  qlist_n :: addr

record qlist_heap =
  qlist_nodes :: "addr \<rightharpoonup> qlist_node"
  qlist_tails :: "addr \<rightharpoonup> addr"

definition qlist_set_n :: "qlist_heap \<Rightarrow> addr \<Rightarrow> addr \<Rightarrow> qlist_heap option" where
  "qlist_set_n h node x = do {
     nodes \<leftarrow> modify (qlist_nodes h) node (qlist_n_update (\<lambda>_. x));
     Some (h\<lparr>qlist_nodes := nodes\<rparr>)
   }"

definition qlist_set_tail :: "qlist_heap \<Rightarrow> addr \<Rightarrow> addr \<Rightarrow> qlist_heap option" where
  "qlist_set_tail h list x = do {
     tails \<leftarrow> modify (qlist_tails h) list (\<lambda>_. x);
     Some (h\<lparr>qlist_tails := tails\<rparr>)
   }"

definition qlist_init :: "qlist_heap \<Rightarrow> addr \<Rightarrow> qlist_heap option" where
  "qlist_init h list = do {
     h \<leftarrow> qlist_set_n h list list;
     qlist_set_tail h list list
   }"

definition qlist_next :: "qlist_heap \<Rightarrow> addr \<Rightarrow> addr option" where
  "qlist_next h node = do { m \<leftarrow> load (qlist_nodes h) node; Some (qlist_n m) }"

definition qlist_is_empty :: "qlist_heap \<Rightarrow> addr \<Rightarrow> bool option" where
  "qlist_is_empty h list = do { m \<leftarrow> load (qlist_nodes h) list; Some (qlist_n m = list) }"

definition qlist_head :: "qlist_heap \<Rightarrow> addr \<Rightarrow> addr option" where
  "qlist_head h list = do { m \<leftarrow> load (qlist_nodes h) list; Some (qlist_n m) }"

definition qlist_tail :: "qlist_heap \<Rightarrow> addr \<Rightarrow> addr option" where
  "qlist_tail h list = load (qlist_tails h) list"

definition qlist_end :: "addr \<Rightarrow> addr" where
  "qlist_end list = list"

definition qlist_insert_after :: "qlist_heap \<Rightarrow> addr \<Rightarrow> addr \<Rightarrow> addr \<Rightarrow> qlist_heap option" where
  "qlist_insert_after h list node_where node = do {
     w \<leftarrow> load (qlist_nodes h) node_where;
     h \<leftarrow> qlist_set_n h node (qlist_n w);
     h \<leftarrow> qlist_set_n h node_where node;
     t \<leftarrow> load (qlist_tails h) list;
     if t = node_where then qlist_set_tail h list node else Some h
   }"

definition qlist_append :: "qlist_heap \<Rightarrow> addr \<Rightarrow> addr \<Rightarrow> qlist_heap option" where
  "qlist_append h list node = do {
     h \<leftarrow> qlist_set_n h node list;
     t \<leftarrow> load (qlist_tails h) list;
     h \<leftarrow> qlist_set_n h t node;
     qlist_set_tail h list node
   }"

definition qlist_prepend :: "qlist_heap \<Rightarrow> addr \<Rightarrow> addr \<Rightarrow> qlist_heap option" where
  "qlist_prepend h list node = qlist_insert_after h list list node"

definition qlist_remove :: "qlist_heap \<Rightarrow> addr \<Rightarrow> addr \<Rightarrow> addr \<Rightarrow> qlist_heap option" where
  "qlist_remove h list node_prev node = do {
     m \<leftarrow> load (qlist_nodes h) node;
     h \<leftarrow> qlist_set_n h node_prev (qlist_n m);
     t \<leftarrow> load (qlist_tails h) list;
     if t = node then qlist_set_tail h list node_prev else Some h
   }"

definition qlist_remove_head :: "qlist_heap \<Rightarrow> addr \<Rightarrow> qlist_heap option" where
  "qlist_remove_head h list = do {
     m \<leftarrow> load (qlist_nodes h) list;
     qlist_remove h list list (qlist_n m)
   }"

section \<open>The iteration of the header's example\<close>

text \<open>
  The loop of the example, for any of the lists: from a node, step by step, up to the end; it
  yields the nodes visited. Nothing bounds the loop, so that not ending is \<^term>\<open>None\<close>.
\<close>

partial_function (option) walk_my_list ::
    "('h \<Rightarrow> addr \<Rightarrow> addr option) \<Rightarrow> 'h \<Rightarrow> addr \<Rightarrow> addr \<Rightarrow> addr list option" where
  "walk_my_list step h node finish =
     (if node = finish then Some []
      else do {
        node' \<leftarrow> step h node;
        rest \<leftarrow> walk_my_list step h node' finish;
        Some (node # rest)
      })"

section \<open>Links and chains\<close>

text \<open>
  A chain follows a step function from a node over a list of nodes to a last one; the three lists
  differ in what a step reads and in what else has to hold.
\<close>

fun chain :: "(addr \<Rightarrow> addr option) \<Rightarrow> addr \<Rightarrow> addr list \<Rightarrow> addr \<Rightarrow> bool" where
  "chain f a [] b = (f a = Some b)"
| "chain f a (x # xs) b = (f a = Some x \<and> chain f x xs b)"

lemma chain_append [simp]: "chain f a (xs @ y # ys) b \<longleftrightarrow> chain f a xs y \<and> chain f y ys b"
  by (induction xs arbitrary: a) auto

lemma chain_cong: "(\<And>x. x \<in> set (a # xs) \<Longrightarrow> f x = g x) \<Longrightarrow> chain f a xs b = chain g a xs b"
  by (induction xs arbitrary: a) auto

lemma chain_upd_other [simp]: "x \<noteq> a \<Longrightarrow> x \<notin> set xs \<Longrightarrow> chain (f(x := y)) a xs b = chain f a xs b"
  by (rule chain_cong) auto

lemma chain_head: "chain f a xs b \<Longrightarrow> f a = Some (hd (xs @ [b]))"
  by (cases xs) auto

lemma chain_last: "chain f a xs b \<Longrightarrow> f (last (a # xs)) = Some b"
  by (induction xs arbitrary: a) auto

lemma chain_retarget:
  "chain f a xs b \<Longrightarrow> distinct (a # xs) \<Longrightarrow> chain (f(last (a # xs) := Some c)) a xs c"
  by (induction xs arbitrary: a) (auto simp: fun_upd_same)

lemma chain_step: "chain f a xs b \<Longrightarrow> x \<in> set (a # xs) \<Longrightarrow> \<exists>y \<in> set (xs @ [b]). f x = Some y"
  by (induction xs arbitrary: a) auto

lemma walk_chain:
  "chain (step h) a xs b \<Longrightarrow> b \<notin> set (a # xs) \<Longrightarrow> walk_my_list step h a b = Some (a # xs)"
  by (induction xs arbitrary: a) (subst walk_my_list.simps, auto simp: walk_my_list.simps [of step h b b])+

text \<open>Insertion and removal in a chain.\<close>

lemma chain_insert:
  assumes "chain f a (ys @ zs) b" and "distinct (a # ys @ zs)" and "x \<notin> set (a # ys @ zs)"
  shows "chain (f(x := f (last (a # ys)), last (a # ys) := Some x)) a (ys @ x # zs) b"
proof (cases zs)
  case Nil
  have "chain (f(last (a # ys) := Some x)) a ys x"
    using assms Nil by (intro chain_retarget [of f a ys b]) auto
  then have "chain (f(last (a # ys) := Some x, x := f (last (a # ys)))) a ys x"
    using assms by simp
  moreover have "last (a # ys) \<noteq> x" using assms by (metis last_in_set list.discI Un_iff append_Cons set_append)
  moreover have "f (last (a # ys)) = Some b" using assms Nil chain_last by simp
  ultimately show ?thesis using Nil by (simp add: fun_upd_twist)
next
  case (Cons z zs')
  have "chain f a ys z" "chain f z zs' b" using assms Cons by simp_all
  then have "chain (f(last (a # ys) := Some x)) a ys x"
    using assms by (intro chain_retarget [of f a ys z]) auto
  then have "chain (f(last (a # ys) := Some x, x := f (last (a # ys)))) a ys x"
    using assms by simp
  moreover have l: "last (a # ys) \<in> set (a # ys)" by (rule last_in_set) simp
  then have "last (a # ys) \<noteq> x" "last (a # ys) \<notin> set zs" using assms by auto
  moreover have "f (last (a # ys)) = Some z" using \<open>chain f a ys z\<close> chain_last by simp
  moreover have "chain (f(x := f (last (a # ys)), last (a # ys) := Some x)) z zs' b"
    using \<open>chain f z zs' b\<close> assms Cons calculation by simp
  ultimately show ?thesis using Cons by (simp add: fun_upd_twist)
qed

lemma chain_remove:
  assumes "chain f a (ys @ x # zs) b" and "distinct (a # ys @ x # zs)"
  shows "chain (f(last (a # ys) := f x)) a (ys @ zs) b"
proof -
  have l: "last (a # ys) \<in> set (a # ys)" by (rule last_in_set) simp
  have c: "chain f a ys x" "chain f x zs b" using assms by simp_all
  have r: "chain (f(last (a # ys) := Some c)) a ys c" for c
    using assms c by (intro chain_retarget [of f a ys x]) auto
  show ?thesis
  proof (cases zs)
    case Nil
    then show ?thesis using r [of b] c by simp
  next
    case (Cons z zs')
    have "last (a # ys) \<noteq> z" "last (a # ys) \<notin> set zs'" using l assms Cons by auto
    then show ?thesis using r [of z] c Cons by simp
  qed
qed

section \<open>The contract of the lists\<close>

text \<open>A user of a list: puts nodes in one by one, and empties it from its head.\<close>

fun put_all :: "('h \<Rightarrow> addr \<Rightarrow> addr \<Rightarrow> 'h option) \<Rightarrow> 'h \<Rightarrow> addr \<Rightarrow> addr list \<Rightarrow> 'h option" where
  "put_all put h list [] = Some h"
| "put_all put h list (x # xs) = do { h \<leftarrow> put h list x; put_all put h list xs }"

partial_function (option) drain ::
    "('h \<Rightarrow> addr \<Rightarrow> bool option) \<Rightarrow> ('h \<Rightarrow> addr \<Rightarrow> addr option) \<Rightarrow> ('h \<Rightarrow> addr \<Rightarrow> 'h option)
      \<Rightarrow> 'h \<Rightarrow> addr \<Rightarrow> (addr list \<times> 'h) option" where
  "drain is_empty head remove_head h list = do {
     e \<leftarrow> is_empty h list;
     if e then Some ([], h)
     else do {
       x \<leftarrow> head h list;
       h \<leftarrow> remove_head h list;
       (xs, h) \<leftarrow> drain is_empty head remove_head h list;
       Some (x # xs, h)
     }
   }"

text \<open>
  Any use as a queue: a request appends a node or takes one from the head, as the headers' examples do:
  the head is looked at unless the list is empty, and then removed (which an empty list ignores). In the
  specification the list is the sequence of the nodes in it.
\<close>

datatype queue_request = Enqueue addr | Dequeue

fun queue_serve ::
    "('h \<Rightarrow> addr \<Rightarrow> bool option) \<Rightarrow> ('h \<Rightarrow> addr \<Rightarrow> addr option) \<Rightarrow> ('h \<Rightarrow> addr \<Rightarrow> 'h option) \<Rightarrow>
      ('h \<Rightarrow> addr \<Rightarrow> addr \<Rightarrow> 'h option) \<Rightarrow> 'h \<Rightarrow> addr \<Rightarrow> queue_request list \<Rightarrow> (addr option list \<times> 'h) option" where
  "queue_serve is_empty head_op remove_head append_op h l [] = Some ([], h)"
| "queue_serve is_empty head_op remove_head append_op h l (Enqueue x # qs) = do {
     h \<leftarrow> append_op h l x;
     queue_serve is_empty head_op remove_head append_op h l qs
   }"
| "queue_serve is_empty head_op remove_head append_op h l (Dequeue # qs) = do {
     empty \<leftarrow> is_empty h l;
     x \<leftarrow> head_op h l;
     h \<leftarrow> remove_head h l;
     (as, h) \<leftarrow> queue_serve is_empty head_op remove_head append_op h l qs;
     Some ((if empty then None else Some x) # as, h)
   }"

fun queue_spec :: "addr list \<Rightarrow> queue_request list \<Rightarrow> addr option list \<times> addr list" where
  "queue_spec xs [] = ([], xs)"
| "queue_spec xs (Enqueue x # qs) = queue_spec (xs @ [x]) qs"
| "queue_spec [] (Dequeue # qs) = (None # fst (queue_spec [] qs), snd (queue_spec [] qs))"
| "queue_spec (x # xs) (Dequeue # qs) = (Some x # fst (queue_spec xs qs), snd (queue_spec xs qs))"

text \<open>A node is appended only while it is outside; it may come back later.\<close>

fun queue_ok :: "addr set \<Rightarrow> addr list \<Rightarrow> queue_request list \<Rightarrow> bool" where
  "queue_ok avail xs [] = True"
| "queue_ok avail xs (Enqueue x # qs) \<longleftrightarrow> x \<in> avail \<and> x \<notin> set xs \<and> queue_ok avail (xs @ [x]) qs"
| "queue_ok avail xs (Dequeue # qs) \<longleftrightarrow> queue_ok avail (tl xs) qs"

locale intrusive_list =
  fixes rep :: "'h \<Rightarrow> addr \<Rightarrow> addr list \<Rightarrow> bool"
    and node_at :: "'h \<Rightarrow> addr \<Rightarrow> bool"
    and list_at :: "'h \<Rightarrow> addr \<Rightarrow> bool"
    and init_op :: "'h \<Rightarrow> addr \<Rightarrow> 'h option"
    and is_empty :: "'h \<Rightarrow> addr \<Rightarrow> bool option"
    and head_op :: "'h \<Rightarrow> addr \<Rightarrow> addr option"
    and next_op :: "'h \<Rightarrow> addr \<Rightarrow> addr option"
    and prepend :: "'h \<Rightarrow> addr \<Rightarrow> addr \<Rightarrow> 'h option"
    and remove_head :: "'h \<Rightarrow> addr \<Rightarrow> 'h option"
  assumes init_law: "list_at h l \<Longrightarrow> \<exists>h'. init_op h l = Some h' \<and> rep h' l [] \<and> node_at h' = node_at h"
    and rep_distinct: "rep h l xs \<Longrightarrow> distinct (l # xs)"
    and is_empty_law: "rep h l xs \<Longrightarrow> is_empty h l = Some (xs = [])"
    and head_law: "rep h l xs \<Longrightarrow> head_op h l = Some (hd (xs @ [l]))"
    and next_law: "rep h l (ys @ x # zs) \<Longrightarrow> next_op h x = Some (hd (zs @ [l]))"
    and prepend_law: "rep h l xs \<Longrightarrow> node_at h x \<Longrightarrow> x \<notin> set (l # xs) \<Longrightarrow>
      \<exists>h'. prepend h l x = Some h' \<and> rep h' l (x # xs) \<and> node_at h' = node_at h"
    and remove_head_law: "rep h l xs \<Longrightarrow>
      \<exists>h'. remove_head h l = Some h' \<and> rep h' l (tl xs) \<and> node_at h' = node_at h"
begin

lemma walk_from: "rep h l (ys @ zs) \<Longrightarrow> walk_my_list next_op h (hd (zs @ [l])) l = Some zs"
proof (induction zs arbitrary: ys)
  case Nil
  then show ?case by (simp add: walk_my_list.simps)
next
  case (Cons z zs)
  have "z \<noteq> l" using rep_distinct [OF Cons.prems] by auto
  with Cons.IH [of "ys @ [z]"] Cons.prems show ?case
    by (subst walk_my_list.simps) (simp add: next_law)
qed

lemma walk_complete: "rep h l xs \<Longrightarrow>
    Option.bind (head_op h l) (\<lambda>x. walk_my_list next_op h x l) = Some xs"
  using walk_from [of h l "[]" xs] by (simp add: head_law)

lemma prepend_all:
  "rep h l xs \<Longrightarrow> \<forall>x \<in> set ns. node_at h x \<Longrightarrow> distinct (l # ns @ xs) \<Longrightarrow>
     \<exists>h'. put_all prepend h l ns = Some h' \<and> rep h' l (rev ns @ xs)"
proof (induction ns arbitrary: h xs)
  case (Cons n ns)
  obtain h' where "prepend h l n = Some h'" "rep h' l (n # xs)" "node_at h' = node_at h"
    using prepend_law [of h l xs n] Cons.prems by auto
  with Cons.IH [of h' "n # xs"] Cons.prems show ?case by auto
qed simp

lemma drain_all: "rep h l xs \<Longrightarrow>
    \<exists>h'. drain is_empty head_op remove_head h l = Some (xs, h') \<and> rep h' l []"
proof (induction xs arbitrary: h)
  case Nil
  then show ?case by (subst drain.simps) (simp add: is_empty_law)
next
  case (Cons x xs)
  obtain h' where "remove_head h l = Some h'" "rep h' l xs"
    using remove_head_law [OF Cons.prems] by auto
  with Cons.IH [of h'] Cons.prems show ?case
    by (subst drain.simps) (auto simp: is_empty_law head_law)
qed

lemma stack_order:
  assumes "list_at h l" "\<forall>x \<in> set ns. node_at h x" "distinct (l # ns)"
  shows "\<exists>h1 h2 h3. init_op h l = Some h1 \<and> put_all prepend h1 l ns = Some h2 \<and>
    drain is_empty head_op remove_head h2 l = Some (rev ns, h3) \<and> rep h3 l []"
proof -
  obtain h1 where 1: "init_op h l = Some h1" "rep h1 l []" "node_at h1 = node_at h"
    using init_law [OF assms(1)] by auto
  then obtain h2 where "put_all prepend h1 l ns = Some h2" "rep h2 l (rev ns)"
    using prepend_all [of h1 l "[]" ns] assms by auto
  with 1 drain_all [of h2 l "rev ns"] show ?thesis by blast
qed

end

locale intrusive_queue = intrusive_list +
  fixes append_op :: "'a \<Rightarrow> addr \<Rightarrow> addr \<Rightarrow> 'a option"
  assumes append_law: "rep h l xs \<Longrightarrow> node_at h x \<Longrightarrow> x \<notin> set (l # xs) \<Longrightarrow>
    \<exists>h'. append_op h l x = Some h' \<and> rep h' l (xs @ [x]) \<and> node_at h' = node_at h"
begin

lemma serves_queue:
  "rep h l xs \<Longrightarrow> \<forall>x \<in> avail. node_at h x \<Longrightarrow> l \<notin> avail \<Longrightarrow> queue_ok avail xs qs \<Longrightarrow>
     \<exists>h'. queue_serve is_empty head_op remove_head append_op h l qs = Some (fst (queue_spec xs qs), h') \<and>
       rep h' l (snd (queue_spec xs qs))"
proof (induction qs arbitrary: h xs)
  case (Cons q qs)
  show ?case
  proof (cases q)
    case (Enqueue x)
    obtain h' where "append_op h l x = Some h'" "rep h' l (xs @ [x])" "node_at h' = node_at h"
      using append_law [of h l xs x] Cons.prems Enqueue by auto
    with Cons.IH [of h' "xs @ [x]"] Cons.prems Enqueue show ?thesis by auto
  next
    case Dequeue
    obtain h' where h': "remove_head h l = Some h'" "rep h' l (tl xs)" "node_at h' = node_at h"
      using remove_head_law [OF Cons.prems(1)] by auto
    with Cons.IH [of h' "tl xs"] Cons.prems Dequeue
    obtain h2 where "queue_serve is_empty head_op remove_head append_op h' l qs = Some (fst (queue_spec (tl xs) qs), h2)"
      "rep h2 l (snd (queue_spec (tl xs) qs))" by auto
    with h' Cons.prems(1) Dequeue show ?thesis
      by (cases xs) (simp_all add: is_empty_law head_law)
  qed
qed simp

end

section \<open>LIST as a sequence\<close>

definition list_rep :: "list_heap \<Rightarrow> addr \<Rightarrow> addr list \<Rightarrow> bool" where
  "list_rep h l xs \<longleftrightarrow> NULL \<notin> set (l # xs) \<and> distinct (l # xs) \<and>
     chain (list_next h) l xs l \<and> chain (list_prev h) l (rev xs) l"

definition node_in :: "(addr \<rightharpoonup> 'n) \<Rightarrow> addr \<Rightarrow> bool" where
  "node_in h x \<longleftrightarrow> (\<exists>m. load h x = Some m)"

lemma list_next_upd: "a \<noteq> NULL \<Longrightarrow> list_next (h(a \<mapsto> m)) = (list_next h)(a := Some (list_n m))"
  and list_prev_upd: "a \<noteq> NULL \<Longrightarrow> list_prev (h(a \<mapsto> m)) = (list_prev h)(a := Some (list_p m))"
  by (auto simp: list_next_def list_prev_def load_def fun_eq_iff)

lemma node_in_upd: "h a = Some m \<Longrightarrow> node_in (h(a \<mapsto> m')) = node_in h"
  by (auto simp: node_in_def load_def fun_eq_iff)

lemma node_in_upd2: "h a = Some m \<Longrightarrow> node_in ((h(b \<mapsto> m1))(a \<mapsto> m2)) = node_in (h(b \<mapsto> m1))"
  by (auto simp: node_in_def load_def fun_eq_iff)

lemma list_step_load:
  "list_next h a = Some b \<longleftrightarrow> (\<exists>m. load h a = Some m \<and> list_n m = b)"
  "list_prev h a = Some b \<longleftrightarrow> (\<exists>m. load h a = Some m \<and> list_p m = b)"
  by (auto simp: list_next_def list_prev_def split: bind_splits)

text \<open>What the two insertions and the removal do to the links.\<close>

definition list_linked :: "list_heap \<Rightarrow> addr \<Rightarrow> addr \<Rightarrow> addr \<Rightarrow> list_heap \<Rightarrow> bool" where
  "list_linked h w x s h' \<longleftrightarrow>
     list_next h' = (list_next h)(x := list_next h w, w := Some x) \<and>
     list_prev h' = (list_prev h)(x := list_prev h s, s := Some x) \<and>
     node_in h' = node_in h \<and> (\<forall>y. y \<notin> {w, x, s} \<longrightarrow> h' y = h y)"


lemma list_inserts:
  assumes "list_next h w = Some s" "list_prev h s = Some w" "node_in h x" "x \<noteq> w" "x \<noteq> s"
  shows "\<exists>h'. list_insert_after h l w x = Some h' \<and> list_insert_before h l s x = Some h' \<and>
    list_linked h w x s h'"
proof -
  obtain mw ms mx where m: "load h w = Some mw" "list_n mw = s" "load h s = Some ms" "list_p ms = w"
    "load h x = Some mx"
    using assms by (auto simp: list_step_load node_in_def)
  then have nn: "w \<noteq> NULL" "s \<noteq> NULL" "x \<noteq> NULL" "h w = Some mw" "h s = Some ms" "h x = Some mx"
    by (auto dest: load_SomeD)
  have o: "list_next h s = Some (list_n ms)" "list_prev h w = Some (list_p mw)"
    using m by (auto simp: list_step_load)
  show ?thesis
  proof (cases "w = s")
    case True
    then show ?thesis using m nn o assms
      by (auto simp: list_insert_after_def list_insert_before_def list_linked_def mem_simps
          list_next_upd list_prev_upd node_in_upd node_in_upd2 fun_upd_idem)
  next
    case False
    then show ?thesis using m nn o assms
      by (auto simp: list_insert_after_def list_insert_before_def list_linked_def mem_simps
          list_next_upd list_prev_upd node_in_upd node_in_upd2 fun_upd_idem)
  qed
qed

definition list_unlinked :: "list_heap \<Rightarrow> addr \<Rightarrow> list_heap \<Rightarrow> bool" where
  "list_unlinked h x h' \<longleftrightarrow> (\<exists>w s. list_prev h x = Some w \<and> list_next h x = Some s \<and>
     list_next h' = (list_next h)(w := Some s) \<and> list_prev h' = (list_prev h)(s := Some w) \<and>
     node_in h' = node_in h \<and> (\<forall>y. y \<notin> {w, s} \<longrightarrow> h' y = h y))"

lemma list_removes:
  assumes "list_next h w = Some x" "list_prev h x = Some w" "list_next h x = Some s" "list_prev h s = Some x"
  shows "\<exists>h'. list_remove h l x = Some h' \<and> list_unlinked h x h'"
proof -
  obtain mw ms mx where m: "load h w = Some mw" "list_n mw = x" "load h s = Some ms" "list_p ms = x"
    "load h x = Some mx" "list_p mx = w" "list_n mx = s"
    using assms by (auto simp: list_step_load)
  then have nn: "w \<noteq> NULL" "s \<noteq> NULL" "x \<noteq> NULL" "h w = Some mw" "h s = Some ms" "h x = Some mx"
    by (auto dest: load_SomeD)
  have o: "list_next h s = Some (list_n ms)" "list_prev h w = Some (list_p mw)"
    using m by (auto simp: list_step_load)
  show ?thesis
  proof (cases "x = w")
    case True
    then show ?thesis using m nn o assms
      by (auto simp: list_remove_def list_unlinked_def mem_simps
          list_next_upd list_prev_upd node_in_upd node_in_upd2 fun_upd_idem)
  next
    case False
    then show ?thesis using m nn o assms
      by (cases "w = s") (auto simp: list_remove_def list_unlinked_def mem_simps
          list_next_upd list_prev_upd node_in_upd node_in_upd2 fun_upd_idem)
  qed
qed

lemma list_rep_links:
  assumes "list_rep h l (ys @ zs)"
  shows "list_next h (last (l # ys)) = Some (hd (zs @ [l]))"
    and "list_prev h (hd (zs @ [l])) = Some (last (l # ys))"
proof -
  have "chain (list_next h) l (ys @ zs) l" "chain (list_prev h) l (rev zs @ rev ys) l"
    using assms by (simp_all add: list_rep_def)
  then show "list_next h (last (l # ys)) = Some (hd (zs @ [l]))"
    "list_prev h (hd (zs @ [l])) = Some (last (l # ys))"
    by (cases zs; cases ys rule: rev_cases; force dest: chain_head chain_last)+
qed

lemma hd_rev_last: "hd (zs @ [l]) = last (l # rev zs)"
  by (cases zs) simp_all

lemma list_rep_insert:
  assumes "list_rep h l (ys @ zs)" "node_in h x" "x \<notin> set (l # ys @ zs)"
    and "list_linked h (last (l # ys)) x (hd (zs @ [l])) h'"
  shows "list_rep h' l (ys @ x # zs)"
proof -
  have "x \<noteq> NULL" using assms(2) by (auto simp: node_in_def dest: load_SomeD)
  moreover have "chain (list_next h') l (ys @ x # zs) l"
    using assms chain_insert [of "list_next h" l ys zs l x]
    by (simp add: list_rep_def list_linked_def del: last.simps)
  moreover have "chain (list_prev h') l (rev (ys @ x # zs)) l"
    using assms chain_insert [of "list_prev h" l "rev zs" "rev ys" l x]
    by (simp add: list_rep_def list_linked_def hd_rev_last Int_commute del: last.simps)
  ultimately show ?thesis using assms by (auto simp: list_rep_def)
qed

lemma list_rep_remove:
  assumes "list_rep h l (ys @ x # zs)" and "list_unlinked h x h'"
  shows "list_rep h' l (ys @ zs)"
proof -
  have w: "list_prev h x = Some (last (l # ys))" "list_next h x = Some (hd (zs @ [l]))"
    using list_rep_links [of h l ys "x # zs"] list_rep_links [of h l "ys @ [x]" zs] assms by simp_all
  have "chain (list_next h') l (ys @ zs) l"
    using assms w chain_remove [of "list_next h" l ys x zs l] by (auto simp: list_rep_def list_unlinked_def)
  moreover have "chain (list_prev h') l (rev (ys @ zs)) l"
    using assms w chain_remove [of "list_prev h" l "rev zs" x "rev ys" l]
    by (auto simp: list_rep_def list_unlinked_def hd_rev_last simp del: last.simps)
  ultimately show ?thesis using assms by (auto simp: list_rep_def)
qed

lemma list_rep_not_in: "list_rep h l (ys @ zs) \<Longrightarrow> x \<notin> set (l # ys @ zs) \<Longrightarrow>
    x \<noteq> last (l # ys) \<and> x \<noteq> hd (zs @ [l])"
  by (cases zs; cases ys rule: rev_cases) auto



lemma list_insert_effect:
  assumes "list_rep h l (ys @ zs)" and "node_in h x" and "x \<notin> set (l # ys @ zs)"
  shows "\<exists>h'. list_insert_after h l (last (l # ys)) x = Some h' \<and>
    list_insert_before h l (hd (zs @ [l])) x = Some h' \<and>
    list_rep h' l (ys @ x # zs) \<and> node_in h' = node_in h \<and>
    (\<forall>y. y \<notin> set (l # ys @ x # zs) \<longrightarrow> h' y = h y)"
proof -
  have "x \<noteq> last (l # ys)" "x \<noteq> hd (zs @ [l])" using list_rep_not_in assms by blast+
  then obtain h' where h': "list_insert_after h l (last (l # ys)) x = Some h'"
    "list_insert_before h l (hd (zs @ [l])) x = Some h'" "list_linked h (last (l # ys)) x (hd (zs @ [l])) h'"
    using list_inserts [OF list_rep_links [OF assms(1)] assms(2)] by blast
  have "h' y = h y" if "y \<notin> set (l # ys @ x # zs)" for y
    using that h'(3) list_rep_not_in [OF assms(1), of y] by (simp add: list_linked_def del: last.simps)
  with h' list_rep_insert [OF assms h'(3)] show ?thesis by (simp add: list_linked_def)
qed

lemma list_remove_effect:
  assumes "list_rep h l (ys @ x # zs)"
  shows "\<exists>h'. list_remove h l x = Some h' \<and> list_rep h' l (ys @ zs) \<and> node_in h' = node_in h \<and>
    (\<forall>y. y \<notin> set (l # ys @ zs) \<longrightarrow> h' y = h y)"
proof -
  have r: "list_rep h l ((ys @ [x]) @ zs)" using assms by simp
  have links: "list_next h (last (l # ys)) = Some x" "list_prev h x = Some (last (l # ys))"
    "list_next h x = Some (hd (zs @ [l]))" "list_prev h (hd (zs @ [l])) = Some x"
    using list_rep_links [OF assms] list_rep_links [OF r] by simp_all
  then obtain h' where h': "list_remove h l x = Some h'" "list_unlinked h x h'"
    using list_removes by blast
  then have rep: "list_rep h' l (ys @ zs)" using list_rep_remove [OF assms] by blast
  have "h' y = h y" if "y \<notin> set (l # ys @ zs)" for y
    using that h'(2) list_rep_not_in [OF rep that] links by (auto simp: list_unlinked_def simp del: last.simps)
  with h' rep show ?thesis by (auto simp: list_unlinked_def)
qed

lemma list_rep_main: "list_rep h l xs \<Longrightarrow> \<exists>m. load h l = Some m \<and> h l = Some m \<and> l \<noteq> NULL \<and>
    list_n m = hd (xs @ [l]) \<and> list_p m = last (l # xs)"
  using list_rep_links [of h l "[]" xs] list_rep_links [of h l xs "[]"]
  by (auto simp: list_step_load dest: load_SomeD)

lemma list_remove_main:
  assumes "list_rep h l []"
  shows "list_remove h l l = Some h"
proof -
  obtain m where "load h l = Some m" "h l = Some m" "l \<noteq> NULL" "list_n m = l" "list_p m = l"
    using list_rep_main [OF assms] by auto
  moreover then have "m\<lparr>list_n := l, list_p := l\<rparr> = m" by simp
  ultimately show ?thesis by (simp add: list_remove_def mem_simps map_upd_triv)
qed

lemma list_init_effect:
  assumes "node_in h l"
  shows "\<exists>h'. list_init h l = Some h' \<and> list_rep h' l [] \<and> node_in h' = node_in h"
proof -
  obtain m where "load h l = Some m" "h l = Some m" "l \<noteq> NULL"
    using assms by (auto simp: node_in_def dest: load_SomeD)
  then show ?thesis
    by (auto simp: list_init_def mem_simps list_rep_def list_next_upd list_prev_upd node_in_upd)
qed

lemma list_ends:
  assumes "list_rep h l xs"
  shows "list_is_empty h l = Some (xs = [])" "list_head h l = Some (hd (xs @ [l]))"
    "list_tail h l = Some (last (l # xs))"
proof -
  have "hd (xs @ [l]) = l \<longleftrightarrow> xs = []" using assms by (cases xs) (auto simp: list_rep_def)
  then show "list_is_empty h l = Some (xs = [])" "list_head h l = Some (hd (xs @ [l]))"
    "list_tail h l = Some (last (l # xs))"
    using list_rep_main [OF assms]
    by (auto simp: list_is_empty_def list_head_def list_tail_def simp del: last.simps)
qed

lemma list_remove_head_effect:
  assumes "list_rep h l xs"
  shows "\<exists>h'. list_remove_head h l = Some h' \<and> list_rep h' l (tl xs) \<and> node_in h' = node_in h"
proof (cases xs)
  case Nil
  then show ?thesis using list_rep_main [OF assms] list_remove_main assms
    by (auto simp: list_remove_head_def)
next
  case (Cons x zs)
  then show ?thesis using list_rep_main [OF assms] list_remove_effect [of h l "[]" x zs] assms
    by (auto simp: list_remove_head_def)
qed

lemma list_remove_tail_effect:
  assumes "list_rep h l xs"
  shows "\<exists>h'. list_remove_tail h l = Some h' \<and> list_rep h' l (butlast xs) \<and> node_in h' = node_in h"
proof (cases xs rule: rev_cases)
  case Nil
  then show ?thesis using list_rep_main [OF assms] list_remove_main assms
    by (auto simp: list_remove_tail_def)
next
  case (snoc ys x)
  then show ?thesis using list_rep_main [OF assms] list_remove_effect [of h l ys x "[]"] assms
    by (auto simp: list_remove_tail_def)
qed

interpretation dlist: intrusive_queue list_rep node_in node_in list_init list_is_empty list_head
    list_next list_prepend list_remove_head list_append
proof
  show "\<exists>h'. list_prepend h l x = Some h' \<and> list_rep h' l (x # xs) \<and> node_in h' = node_in h"
    if "list_rep h l xs" "node_in h x" "x \<notin> set (l # xs)" for h l xs x
    using list_insert_effect [of h l "[]" xs x] that by (auto simp: list_prepend_def)
  show "\<exists>h'. list_append h l x = Some h' \<and> list_rep h' l (xs @ [x]) \<and> node_in h' = node_in h"
    if "list_rep h l xs" "node_in h x" "x \<notin> set (l # xs)" for h l xs x
    using list_insert_effect [of h l xs "[]" x] that by (auto simp: list_append_def)
  show "list_next h x = Some (hd (zs @ [l]))" if "list_rep h l (ys @ x # zs)" for h l ys x zs
    using list_rep_links(1) [of h l "ys @ [x]" zs] that by simp
  show "distinct (l # xs)" if "list_rep h l xs" for h l xs using that by (simp add: list_rep_def)
qed (simp_all add: list_init_effect list_ends list_remove_head_effect)

section \<open>SLIST as a sequence\<close>

definition slist_rep :: "slist_heap \<Rightarrow> addr \<Rightarrow> addr list \<Rightarrow> bool" where
  "slist_rep h l xs \<longleftrightarrow> distinct (l # xs) \<and> chain (slist_next h) l xs l"

lemma slist_next_upd: "a \<noteq> NULL \<Longrightarrow> slist_next (h(a \<mapsto> m)) = (slist_next h)(a := Some (slist_n m))"
  by (auto simp: slist_next_def load_def fun_eq_iff)

lemma slist_step_load: "slist_next h a = Some b \<longleftrightarrow> (\<exists>m. load h a = Some m \<and> slist_n m = b)"
  by (auto simp: slist_next_def split: bind_splits)

lemma slist_rep_link: "slist_rep h l (ys @ zs) \<Longrightarrow> slist_next h (last (l # ys)) = Some (hd (zs @ [l]))"
  by (cases zs) (auto simp: slist_rep_def simp del: last.simps dest: chain_last)

lemma slist_insert_effect:
  assumes "slist_rep h l (ys @ zs)" and "node_in h x" and "x \<notin> set (l # ys @ zs)"
  shows "\<exists>h'. slist_insert_after h l (last (l # ys)) x = Some h' \<and> slist_rep h' l (ys @ x # zs) \<and>
    node_in h' = node_in h \<and> (\<forall>y. y \<notin> {x, last (l # ys)} \<longrightarrow> h' y = h y)"
proof -
  define w where "w = last (l # ys)"
  have "w \<in> set (l # ys)" unfolding w_def by (rule last_in_set) simp
  then have "w \<noteq> x" using assms by auto
  obtain mw mx where m: "load h w = Some mw" "load h x = Some mx"
    using slist_rep_link [OF assms(1)] assms(2)
    by (auto simp: slist_step_load node_in_def w_def simp del: last.simps)
  then have nn: "w \<noteq> NULL" "x \<noteq> NULL" "h w = Some mw" "h x = Some mx" by (auto dest: load_SomeD)
  let ?h = "h(x \<mapsto> mx\<lparr>slist_n := slist_n mw\<rparr>, w \<mapsto> mw\<lparr>slist_n := x\<rparr>)"
  have "slist_insert_after h l w x = Some ?h"
    using m nn \<open>w \<noteq> x\<close> by (simp add: slist_insert_after_def mem_simps)
  moreover have "slist_next ?h = (slist_next h)(x := slist_next h w, w := Some x)"
    using m nn by (simp add: slist_next_upd slist_step_load [THEN iffD2])
  then have "slist_rep ?h l (ys @ x # zs)"
    using chain_insert [of "slist_next h" l ys zs l x] assms by (auto simp: slist_rep_def w_def simp del: last.simps)
  moreover have "node_in ?h = node_in h" using nn by (simp add: node_in_upd node_in_upd2)
  ultimately show ?thesis by (auto simp: w_def)
qed

lemma slist_remove_effect:
  assumes "slist_rep h l (ys @ x # zs)"
  shows "\<exists>h'. slist_remove h l (last (l # ys)) x = Some h' \<and> slist_rep h' l (ys @ zs) \<and>
    node_in h' = node_in h \<and> (\<forall>y. y \<noteq> last (l # ys) \<longrightarrow> h' y = h y)"
proof -
  define w where "w = last (l # ys)"
  have "slist_next h w = Some x" "slist_next h x = Some (hd (zs @ [l]))"
    using slist_rep_link [of h l ys "x # zs"] slist_rep_link [of h l "ys @ [x]" zs] assms
    by (simp_all add: w_def)
  then obtain mw mx where m: "load h w = Some mw" "load h x = Some mx" "slist_next h x = Some (slist_n mx)"
    by (auto simp: slist_step_load)
  then have nn: "w \<noteq> NULL" "h w = Some mw" by (auto dest: load_SomeD)
  let ?h = "h(w \<mapsto> mw\<lparr>slist_n := slist_n mx\<rparr>)"
  have "slist_remove h l w x = Some ?h" using m nn by (simp add: slist_remove_def mem_simps)
  moreover have "slist_next ?h = (slist_next h)(w := slist_next h x)"
    using m nn by (simp add: slist_next_upd)
  then have "slist_rep ?h l (ys @ zs)"
    using chain_remove [of "slist_next h" l ys x zs l] assms by (auto simp: slist_rep_def w_def simp del: last.simps)
  moreover have "node_in ?h = node_in h" using nn by (simp add: node_in_upd)
  ultimately show ?thesis by (auto simp: w_def)
qed

lemma slist_remove_head_effect:
  assumes "slist_rep h l xs"
  shows "\<exists>h'. slist_remove_head h l = Some h' \<and> slist_rep h' l (tl xs) \<and> node_in h' = node_in h"
proof -
  obtain m where m: "load h l = Some m" "slist_n m = hd (xs @ [l])"
    using slist_rep_link [of h l "[]" xs] assms by (auto simp: slist_step_load)
  show ?thesis
  proof (cases xs)
    case Nil
    then have "m\<lparr>slist_n := l\<rparr> = m" "h l = Some m" using m by (auto dest: load_SomeD)
    then show ?thesis using m Nil assms
      by (simp add: slist_remove_head_def slist_remove_def mem_simps map_upd_triv)
  next
    case (Cons x zs)
    then show ?thesis using m slist_remove_effect [of h l "[]" x zs] assms
      by (auto simp: slist_remove_head_def)
  qed
qed

interpretation slist: intrusive_list slist_rep node_in node_in slist_init slist_is_empty slist_head
    slist_next slist_prepend slist_remove_head
proof
  show "\<exists>h'. slist_init h l = Some h' \<and> slist_rep h' l [] \<and> node_in h' = node_in h"
    if "node_in h l" for h l
    using that by (auto simp: node_in_def [of h l] slist_init_def mem_simps slist_rep_def slist_next_upd node_in_upd
        dest: load_SomeD)
  show "distinct (l # xs)" if "slist_rep h l xs" for h l xs using that by (simp add: slist_rep_def)
  show "slist_is_empty h l = Some (xs = [])" if "slist_rep h l xs" for h l xs
    using slist_rep_link [of h l "[]" xs] that
    by (cases xs) (auto simp: slist_is_empty_def slist_step_load slist_rep_def)
  show "slist_head h l = Some (hd (xs @ [l]))" if "slist_rep h l xs" for h l xs
    using slist_rep_link [of h l "[]" xs] that by (auto simp: slist_head_def slist_step_load)
  show "slist_next h x = Some (hd (zs @ [l]))" if "slist_rep h l (ys @ x # zs)" for h l ys x zs
    using slist_rep_link [of h l "ys @ [x]" zs] that by simp
  show "\<exists>h'. slist_prepend h l x = Some h' \<and> slist_rep h' l (x # xs) \<and> node_in h' = node_in h"
    if "slist_rep h l xs" "node_in h x" "x \<notin> set (l # xs)" for h l xs x
    using slist_insert_effect [of h l "[]" xs x] that by (auto simp: slist_prepend_def)
qed (rule slist_remove_head_effect)



section \<open>QLIST as a sequence\<close>

text \<open>The tail pointer always names the last node, or the list itself when it is empty.\<close>

definition qlist_rep :: "qlist_heap \<Rightarrow> addr \<Rightarrow> addr list \<Rightarrow> bool" where
  "qlist_rep h l xs \<longleftrightarrow> distinct (l # xs) \<and> chain (qlist_next h) l xs l \<and>
     qlist_tail h l = Some (last (l # xs))"

definition qnode_in :: "qlist_heap \<Rightarrow> addr \<Rightarrow> bool" where
  "qnode_in h x = node_in (qlist_nodes h) x"

lemma qlist_step_load: "qlist_next h a = Some b \<longleftrightarrow> (\<exists>m. load (qlist_nodes h) a = Some m \<and> qlist_n m = b)"
  by (auto simp: qlist_next_def split: bind_splits)

lemma load_qlist_tail: "load (qlist_tails h) l = qlist_tail h l"
  by (simp add: qlist_tail_def)

lemma qlist_set_n_effect:
  assumes "qnode_in h x"
  shows "\<exists>h'. qlist_set_n h x y = Some h' \<and> qlist_next h' = (qlist_next h)(x := Some y) \<and>
    qlist_tail h' = qlist_tail h \<and> qnode_in h' = qnode_in h"
proof -
  obtain m where "load (qlist_nodes h) x = Some m" "qlist_nodes h x = Some m" "x \<noteq> NULL"
    using assms by (auto simp: qnode_in_def node_in_def dest: load_SomeD)
  then show ?thesis
    by (auto simp: qlist_set_n_def mem_simps qlist_next_def qlist_tail_def qnode_in_def node_in_upd
        load_def fun_eq_iff)
qed

lemma qlist_set_tail_effect:
  assumes "qlist_tail h l = Some t"
  shows "\<exists>h'. qlist_set_tail h l y = Some h' \<and> qlist_next h' = qlist_next h \<and>
    qlist_tail h' = (qlist_tail h)(l := Some y) \<and> qnode_in h' = qnode_in h"
  using assms
  by (auto simp: qlist_set_tail_def qlist_tail_def mem_simps qlist_next_def qnode_in_def fun_eq_iff load_def
      split: if_splits)

lemma qlist_rep_link: "qlist_rep h l (ys @ zs) \<Longrightarrow> qlist_next h (last (l # ys)) = Some (hd (zs @ [l]))"
  by (cases zs) (auto simp: qlist_rep_def simp del: last.simps dest: chain_last)

lemma qlist_next_in: "qlist_next h x = Some y \<Longrightarrow> qnode_in h x"
  by (auto simp: qlist_step_load qnode_in_def node_in_def)

lemma last_not_later: "distinct (l # ys @ zs) \<Longrightarrow> last (l # ys @ zs) = last (l # ys) \<longleftrightarrow> zs = []"
  by (cases zs rule: rev_cases; cases ys rule: rev_cases) auto

lemma qlist_insert_effect:
  assumes "qlist_rep h l (ys @ zs)" and "qnode_in h x" and "x \<notin> set (l # ys @ zs)"
  shows "\<exists>h'. qlist_insert_after h l (last (l # ys)) x = Some h' \<and> qlist_rep h' l (ys @ x # zs) \<and>
    qnode_in h' = qnode_in h"
proof -
  define w where "w = last (l # ys)"
  have w: "qlist_next h w = Some (hd (zs @ [l]))" using qlist_rep_link [OF assms(1)] by (simp add: w_def)
  then obtain mw where m: "load (qlist_nodes h) w = Some mw" "qlist_next h w = Some (qlist_n mw)"
    by (metis qlist_step_load)
  obtain h1 where h1: "qlist_set_n h x (qlist_n mw) = Some h1"
    "qlist_next h1 = (qlist_next h)(x := qlist_next h w)" "qlist_tail h1 = qlist_tail h" "qnode_in h1 = qnode_in h"
    using qlist_set_n_effect [OF assms(2)] m(2) by metis
  obtain h2 where h2: "qlist_set_n h1 w x = Some h2" "qlist_next h2 = (qlist_next h1)(w := Some x)"
    "qlist_tail h2 = qlist_tail h" "qnode_in h2 = qnode_in h"
    using qlist_set_n_effect [of h1 w x] qlist_next_in [OF w] h1 by metis
  have tail: "qlist_tail h2 l = Some (last (l # ys @ zs))"
    using assms(1) h2(3) by (simp add: qlist_rep_def)
  obtain h3 where h3: "qlist_set_tail h2 l x = Some h3" "qlist_next h3 = qlist_next h2"
    "qlist_tail h3 l = Some x" "qnode_in h3 = qnode_in h"
    using qlist_set_tail_effect [OF tail, of x] h2(4) by auto
  have chain: "chain (qlist_next h2) l (ys @ x # zs) l"
    using chain_insert [of "qlist_next h" l ys zs l x] assms h1 h2
    by (simp add: qlist_rep_def w_def del: last.simps)
  have d: "distinct (l # ys @ x # zs)" using assms by (auto simp: qlist_rep_def)
  have run: "qlist_insert_after h l w x = (if zs = [] then Some h3 else Some h2)"
    using m h1 h2 h3 tail last_not_later [of l ys zs] d
    by (auto simp: qlist_insert_after_def w_def load_qlist_tail simp del: last.simps)
  show ?thesis
  proof (cases "zs = []")
    case True
    then show ?thesis using run chain d h3 by (auto simp: qlist_rep_def w_def)
  next
    case False
    then show ?thesis using run chain d h2 tail by (auto simp: qlist_rep_def w_def)
  qed
qed

lemma qlist_append_effect:
  assumes "qlist_rep h l xs" and "qnode_in h x" and "x \<notin> set (l # xs)"
  shows "\<exists>h'. qlist_append h l x = Some h' \<and> qlist_rep h' l (xs @ [x]) \<and> qnode_in h' = qnode_in h"
proof -
  define w where "w = last (l # xs)"
  have w: "qlist_next h w = Some l" using qlist_rep_link [of h l xs "[]"] assms(1) by (simp add: w_def)
  have tail: "qlist_tail h l = Some w" using assms(1) by (simp add: qlist_rep_def w_def)
  have "w \<in> set (l # xs)" unfolding w_def by (rule last_in_set) simp
  then have "x \<noteq> w" using assms(3) by auto
  obtain h1 where h1: "qlist_set_n h x l = Some h1" "qlist_next h1 = (qlist_next h)(x := Some l)"
    "qlist_tail h1 = qlist_tail h" "qnode_in h1 = qnode_in h"
    using qlist_set_n_effect [OF assms(2)] by metis
  obtain h2 where h2: "qlist_set_n h1 w x = Some h2" "qlist_next h2 = (qlist_next h1)(w := Some x)"
    "qlist_tail h2 = qlist_tail h" "qnode_in h2 = qnode_in h"
    using qlist_set_n_effect [of h1 w x] qlist_next_in [OF w] h1 by metis
  obtain h3 where h3: "qlist_set_tail h2 l x = Some h3" "qlist_next h3 = qlist_next h2"
    "qlist_tail h3 l = Some x" "qnode_in h3 = qnode_in h"
    using qlist_set_tail_effect [of h2 l w x] tail h2 by auto
  have "chain (qlist_next h3) l (xs @ [x]) l"
    using chain_insert [of "qlist_next h" l xs "[]" l x] assms w h1 h2 h3 \<open>x \<noteq> w\<close>
    by (simp add: qlist_rep_def w_def del: last.simps)
  moreover have "qlist_append h l x = Some h3"
    using h1 h2 h3 tail by (simp add: qlist_append_def load_qlist_tail)
  ultimately show ?thesis using h3 assms by (auto simp: qlist_rep_def)
qed

lemma qlist_remove_effect:
  assumes "qlist_rep h l (ys @ x # zs)"
  shows "\<exists>h'. qlist_remove h l (last (l # ys)) x = Some h' \<and> qlist_rep h' l (ys @ zs) \<and>
    qnode_in h' = qnode_in h"
proof -
  define w where "w = last (l # ys)"
  have "qlist_next h w = Some x" "qlist_next h x = Some (hd (zs @ [l]))"
    using qlist_rep_link [of h l ys "x # zs"] qlist_rep_link [of h l "ys @ [x]" zs] assms
    by (simp_all add: w_def)
  then obtain mx where m: "load (qlist_nodes h) x = Some mx" "qlist_next h x = Some (qlist_n mx)" "qnode_in h w"
    by (metis qlist_step_load qlist_next_in)
  obtain h1 where h1: "qlist_set_n h w (qlist_n mx) = Some h1"
    "qlist_next h1 = (qlist_next h)(w := qlist_next h x)" "qlist_tail h1 = qlist_tail h" "qnode_in h1 = qnode_in h"
    using qlist_set_n_effect [OF m(3)] m(2) by metis
  have d: "distinct (l # ys @ x # zs)" using assms by (simp add: qlist_rep_def)
  have tail: "qlist_tail h1 l = Some (last (l # ys @ x # zs))"
    using assms h1(3) by (simp add: qlist_rep_def)
  obtain h2 where h2: "qlist_set_tail h1 l w = Some h2" "qlist_next h2 = qlist_next h1"
    "qlist_tail h2 l = Some w" "qnode_in h2 = qnode_in h"
    using qlist_set_tail_effect [OF tail, of w] h1(4) by auto
  have chain: "chain (qlist_next h1) l (ys @ zs) l"
    using chain_remove [of "qlist_next h" l ys x zs l] assms h1
    by (simp add: qlist_rep_def w_def del: last.simps)
  have "last (l # ys @ x # zs) = x \<longleftrightarrow> zs = []"
    using last_not_later [of l "ys @ [x]" zs] d by simp
  then have run: "qlist_remove h l w x = (if zs = [] then Some h2 else Some h1)"
    using m h1 h2 tail by (auto simp: qlist_remove_def load_qlist_tail simp del: last.simps)
  show ?thesis
  proof (cases "zs = []")
    case True
    then show ?thesis using run chain d h2 by (auto simp: qlist_rep_def w_def)
  next
    case False
    then show ?thesis using run chain d h1 tail by (auto simp: qlist_rep_def w_def)
  qed
qed

lemma qlist_remove_main:
  assumes "qlist_rep h l []"
  shows "\<exists>h'. qlist_remove h l l l = Some h' \<and> qlist_rep h' l [] \<and> qnode_in h' = qnode_in h"
proof -
  have tail: "qlist_tail h l = Some l" and n: "qlist_next h l = Some l"
    using assms by (simp_all add: qlist_rep_def)
  then obtain m where m: "load (qlist_nodes h) l = Some m" "qlist_n m = l" by (auto simp: qlist_step_load)
  obtain h1 where h1: "qlist_set_n h l l = Some h1" "qlist_next h1 = (qlist_next h)(l := Some l)"
    "qlist_tail h1 = qlist_tail h" "qnode_in h1 = qnode_in h"
    using qlist_set_n_effect [OF qlist_next_in [OF n]] by metis
  obtain h2 where h2: "qlist_set_tail h1 l l = Some h2" "qlist_next h2 = qlist_next h1"
    "qlist_tail h2 l = Some l" "qnode_in h2 = qnode_in h"
    using qlist_set_tail_effect [of h1 l l l] tail h1 by auto
  show ?thesis using m h1 h2 tail by (auto simp: qlist_remove_def qlist_rep_def load_qlist_tail)
qed

lemma qlist_ends:
  assumes "qlist_rep h l xs"
  shows "qlist_is_empty h l = Some (xs = [])" "qlist_head h l = Some (hd (xs @ [l]))"
    "qlist_tail h l = Some (last (l # xs))"
proof -
  have "hd (xs @ [l]) = l \<longleftrightarrow> xs = []" using assms by (cases xs) (auto simp: qlist_rep_def)
  moreover obtain m where "load (qlist_nodes h) l = Some m" "qlist_n m = hd (xs @ [l])"
    using qlist_rep_link [of h l "[]" xs] assms by (auto simp: qlist_step_load)
  ultimately show "qlist_is_empty h l = Some (xs = [])" "qlist_head h l = Some (hd (xs @ [l]))"
    "qlist_tail h l = Some (last (l # xs))"
    using assms by (simp_all add: qlist_is_empty_def qlist_head_def qlist_rep_def)
qed

lemma qlist_remove_head_effect:
  assumes "qlist_rep h l xs"
  shows "\<exists>h'. qlist_remove_head h l = Some h' \<and> qlist_rep h' l (tl xs) \<and> qnode_in h' = qnode_in h"
proof -
  obtain m where m: "load (qlist_nodes h) l = Some m" "qlist_n m = hd (xs @ [l])"
    using qlist_rep_link [of h l "[]" xs] assms by (auto simp: qlist_step_load)
  show ?thesis
  proof (cases xs)
    case Nil
    then show ?thesis using m qlist_remove_main assms by (simp add: qlist_remove_head_def)
  next
    case (Cons x zs)
    then show ?thesis using m qlist_remove_effect [of h l "[]" x zs] assms
      by (auto simp: qlist_remove_head_def)
  qed
qed

definition qlist_at :: "qlist_heap \<Rightarrow> addr \<Rightarrow> bool" where
  "qlist_at h l \<longleftrightarrow> qnode_in h l \<and> node_in (qlist_tails h) l"

lemma qlist_init_effect:
  assumes "qlist_at h l"
  shows "\<exists>h'. qlist_init h l = Some h' \<and> qlist_rep h' l [] \<and> qnode_in h' = qnode_in h"
proof -
  obtain t where t: "qlist_tail h l = Some t" using assms by (auto simp: qlist_at_def node_in_def qlist_tail_def)
  obtain h1 where h1: "qlist_set_n h l l = Some h1" "qlist_next h1 = (qlist_next h)(l := Some l)"
    "qlist_tail h1 = qlist_tail h" "qnode_in h1 = qnode_in h"
    using qlist_set_n_effect [of h l l] assms by (auto simp: qlist_at_def)
  obtain h2 where h2: "qlist_set_tail h1 l l = Some h2" "qlist_next h2 = qlist_next h1"
    "qlist_tail h2 l = Some l" "qnode_in h2 = qnode_in h"
    using qlist_set_tail_effect [of h1 l t l] t h1 by auto
  show ?thesis using h1 h2 by (auto simp: qlist_init_def qlist_rep_def)
qed

interpretation qlist: intrusive_queue qlist_rep qnode_in qlist_at qlist_init qlist_is_empty qlist_head
    qlist_next qlist_prepend qlist_remove_head qlist_append
proof
  show "distinct (l # xs)" if "qlist_rep h l xs" for h l xs using that by (simp add: qlist_rep_def)
  show "qlist_next h x = Some (hd (zs @ [l]))" if "qlist_rep h l (ys @ x # zs)" for h l ys x zs
    using qlist_rep_link [of h l "ys @ [x]" zs] that by simp
  show "\<exists>h'. qlist_prepend h l x = Some h' \<and> qlist_rep h' l (x # xs) \<and> qnode_in h' = qnode_in h"
    if "qlist_rep h l xs" "qnode_in h x" "x \<notin> set (l # xs)" for h l xs x
    using qlist_insert_effect [of h l "[]" xs x] that by (auto simp: qlist_prepend_def)
qed (simp_all add: qlist_init_effect qlist_ends qlist_remove_head_effect qlist_append_effect)


section \<open>Properties\<close>

text \<open>
  Inserting an allocated node into a \<open>LIST\<close> after some node, or before its successor, does the
  same to memory: it puts the node at that place of the sequence, whatever the place, and touches
  nothing outside the list; appending and prepending are its two ends.
\<close>

theorem list_insert_correct:
  assumes "list_rep h l (ys @ zs)" and "node_in h x" and "x \<notin> set (l # ys @ zs)"
  shows "\<exists>h'. list_insert_after h l (last (l # ys)) x = Some h' \<and>
    list_insert_before h l (hd (zs @ [l])) x = Some h' \<and>
    (zs = [] \<longrightarrow> list_append h l x = Some h') \<and> (ys = [] \<longrightarrow> list_prepend h l x = Some h') \<and>
    list_rep h' l (ys @ x # zs) \<and> node_in h' = node_in h \<and>
    (\<forall>y. y \<notin> set (l # ys @ x # zs) \<longrightarrow> h' y = h y)"
  using list_insert_effect [OF assms] by (cases ys; cases zs) (auto simp: list_append_def list_prepend_def)

definition list_example :: list_heap where
  "list_example = [1 \<mapsto> \<lparr>list_p = 2, list_n = 2\<rparr>, 2 \<mapsto> \<lparr>list_p = 1, list_n = 1\<rparr>, 3 \<mapsto> \<lparr>list_p = 0, list_n = 0\<rparr>]"

lemma list_example_rep: "list_rep list_example 1 [2]" and list_example_node: "node_in list_example 3"
  by (simp_all add: list_rep_def list_example_def list_next_def list_prev_def load_def node_in_def)

lemma list_insert_correct_witness:
  "\<exists>h'. list_insert_after list_example 1 (last (1 # [2])) 3 = Some h' \<and>
    list_insert_before list_example 1 (hd ([] @ [1])) 3 = Some h' \<and>
    ([] = ([] :: addr list) \<longrightarrow> list_append list_example 1 3 = Some h') \<and>
    ([2] = ([] :: addr list) \<longrightarrow> list_prepend list_example 1 3 = Some h') \<and>
    list_rep h' 1 ([2] @ 3 # []) \<and> node_in h' = node_in list_example \<and>
    (\<forall>y. y \<notin> set (1 # [2] @ 3 # []) \<longrightarrow> h' y = list_example y)"
  by (rule list_insert_correct) (simp_all add: list_example_rep list_example_node)

text \<open>
  Removing a node from a \<open>LIST\<close> takes exactly that node out of the sequence, leaves the node's
  own links and everything outside the list as they were; removing the head or the tail of an
  empty list changes nothing.
\<close>

theorem list_remove_correct:
  assumes "list_rep h l (ys @ x # zs)"
  shows "(\<exists>h'. list_remove h l x = Some h' \<and>
      (ys = [] \<longrightarrow> list_remove_head h l = Some h') \<and> (zs = [] \<longrightarrow> list_remove_tail h l = Some h') \<and>
      list_rep h' l (ys @ zs) \<and> node_in h' = node_in h \<and>
      (\<forall>y. y \<notin> set (l # ys @ zs) \<longrightarrow> h' y = h y)) \<and>
    (list_rep g k [] \<longrightarrow> list_remove_head g k = Some g \<and> list_remove_tail g k = Some g)"
proof (intro conjI impI)
  show "\<exists>h'. list_remove h l x = Some h' \<and>
      (ys = [] \<longrightarrow> list_remove_head h l = Some h') \<and> (zs = [] \<longrightarrow> list_remove_tail h l = Some h') \<and>
      list_rep h' l (ys @ zs) \<and> node_in h' = node_in h \<and> (\<forall>y. y \<notin> set (l # ys @ zs) \<longrightarrow> h' y = h y)"
    using list_remove_effect [OF assms] list_rep_main [OF assms]
    by (auto simp: list_remove_head_def list_remove_tail_def)
  assume "list_rep g k []"
  then show "list_remove_head g k = Some g" "list_remove_tail g k = Some g"
    using list_remove_main list_rep_main by (fastforce simp: list_remove_head_def list_remove_tail_def)+
qed

lemma list_remove_correct_witness:
  "\<exists>h'. list_remove list_example 1 2 = Some h' \<and> list_remove_head list_example 1 = Some h' \<and>
      list_remove_tail list_example 1 = Some h' \<and> list_rep h' 1 [] \<and> node_in h' = node_in list_example \<and>
      (\<forall>y. y \<notin> {1} \<longrightarrow> h' y = list_example y)"
  using list_remove_correct [of list_example 1 "[]" 2 "[]"] by (simp add: list_example_rep)

text \<open>
  The iteration of the header's example ends and visits every node once: forward from the head
  the sequence itself, backward from the tail its reverse.
\<close>

theorem list_iteration_complete:
  assumes "list_rep h l xs"
  shows "Option.bind (list_head h l) (\<lambda>x. walk_my_list list_next h x (list_end l)) = Some xs \<and>
         Option.bind (list_tail h l) (\<lambda>x. walk_my_list list_prev h x (list_end l)) = Some (rev xs)"
proof -
  have "walk_my_list list_prev h (last (l # xs)) l = Some (rev xs)"
  proof (cases xs rule: rev_cases)
    case Nil
    then show ?thesis by (simp add: walk_my_list.simps)
  next
    case (snoc ys y)
    then show ?thesis using assms walk_chain [of list_prev h y "rev ys" l] by (auto simp: list_rep_def)
  qed
  then show ?thesis using dlist.walk_complete [OF assms] list_ends(3) [OF assms]
    by (simp add: list_end_def del: last.simps)
qed

lemma list_iteration_complete_witness:
  "Option.bind (list_head list_example 1) (\<lambda>x. walk_my_list list_next list_example x (list_end 1)) = Some [2] \<and>
   Option.bind (list_tail list_example 1) (\<lambda>x. walk_my_list list_prev list_example x (list_end 1)) = Some (rev [2])"
  by (rule list_iteration_complete) (rule list_example_rep)

text \<open>
  An \<open>SLIST\<close> is a stack: nodes prepended one by one to a list just initialised come out of its
  head in the opposite order, until the list reports that it is empty.
\<close>

theorem slist_is_stack:
  assumes "node_in h l" and "\<forall>x \<in> set ns. node_in h x" and "distinct (l # ns)"
  shows "\<exists>h1 h2 h3. slist_init h l = Some h1 \<and> put_all slist_prepend h1 l ns = Some h2 \<and>
    drain slist_is_empty slist_head slist_remove_head h2 l = Some (rev ns, h3) \<and> slist_rep h3 l []"
  using assms by (rule slist.stack_order)

lemma slist_is_stack_witness:
  "let h = (\<lambda>_. Some \<lparr>slist_n = 0\<rparr>) in
   \<exists>h1 h2 h3. slist_init h 1 = Some h1 \<and> put_all slist_prepend h1 1 [2, 3, 4] = Some h2 \<and>
    drain slist_is_empty slist_head slist_remove_head h2 1 = Some (rev [2, 3, 4], h3) \<and> slist_rep h3 1 []"
  unfolding Let_def by (rule slist_is_stack) (simp_all add: node_in_def load_def)

text \<open>
  C10. A \<open>QLIST\<close> refines a FIFO queue: after any sequence of appends and removals at the head, in any order,
  on a list just initialised, the nodes that came out (or the answer that the list is empty) are those of
  the queue, the walk along the list finds exactly what is left in the queue, and the tail pointer is at
  its last node, or back on the list. A node may be appended again once it is out.
\<close>

theorem qlist_is_queue:
  assumes "qlist_at h l" and "\<forall>x \<in> avail. qnode_in h x" and "l \<notin> avail" and "queue_ok avail [] qs"
  defines "xs \<equiv> snd (queue_spec [] qs)"
  shows "\<exists>h1 h2. qlist_init h l = Some h1 \<and>
    queue_serve qlist_is_empty qlist_head qlist_remove_head qlist_append h1 l qs = Some (fst (queue_spec [] qs), h2) \<and>
    Option.bind (qlist_head h2 l) (\<lambda>x. walk_my_list qlist_next h2 x (qlist_end l)) = Some xs \<and>
    qlist_tail h2 l = Some (last (l # xs))"
proof -
  obtain h1 where h1: "qlist_init h l = Some h1" "qlist_rep h1 l []" "qnode_in h1 = qnode_in h"
    using qlist_init_effect [OF assms(1)] by auto
  then obtain h2 where h2: "queue_serve qlist_is_empty qlist_head qlist_remove_head qlist_append h1 l qs = Some (fst (queue_spec [] qs), h2)"
    "qlist_rep h2 l xs"
    using qlist.serves_queue [OF h1(2), of avail qs] assms by auto
  then show ?thesis using h1(1) qlist.walk_complete [OF h2(2)] qlist_ends(3) [OF h2(2)] by (auto simp: qlist_end_def)
qed

text \<open>Two appends, a removal, an append after it, three removals (the last on an empty list) and the first node again.\<close>

lemma qlist_is_queue_witness:
  "let h = \<lparr>qlist_nodes = (\<lambda>_. Some \<lparr>qlist_n = 0\<rparr>), qlist_tails = [1 \<mapsto> 0]\<rparr>;
       qs = [Enqueue 2, Enqueue 3, Dequeue, Enqueue 4, Dequeue, Dequeue, Dequeue, Enqueue 2] in
   \<exists>h1 h2. qlist_init h 1 = Some h1 \<and>
    queue_serve qlist_is_empty qlist_head qlist_remove_head qlist_append h1 1 qs =
      Some ([Some 2, Some 3, Some 4, None], h2) \<and> qlist_tail h2 1 = Some 2"
proof -
  let ?h = "\<lparr>qlist_nodes = (\<lambda>_. Some \<lparr>qlist_n = 0\<rparr>), qlist_tails = [1 \<mapsto> 0]\<rparr>"
  let ?qs = "[Enqueue 2, Enqueue 3, Dequeue, Enqueue 4, Dequeue, Dequeue, Dequeue, Enqueue 2]"
  have "qlist_at ?h 1" "\<forall>x \<in> {2, 3, 4}. qnode_in ?h x"
    by (simp_all add: qlist_at_def qnode_in_def node_in_def load_def)
  from qlist_is_queue [OF this, of ?qs] show ?thesis by auto
qed

text \<open>
  Inserting and removing in the middle keep a \<open>QLIST\<close> a sequence with a true tail pointer: after
  an insertion behind a given node, the new node follows it, and becomes the tail exactly when that
  node was the tail; and removing it again, given its predecessor, restores the sequence.
\<close>

theorem qlist_insert_remove:
  assumes "qlist_rep h l (ys @ zs)" and "qnode_in h x" and "x \<notin> set (l # ys @ zs)"
  shows "\<exists>h1 h2. qlist_insert_after h l (last (l # ys)) x = Some h1 \<and> qlist_rep h1 l (ys @ x # zs) \<and>
    qlist_tail h1 l = Some (if zs = [] then x else last zs) \<and>
    qlist_remove h1 l (last (l # ys)) x = Some h2 \<and> qlist_rep h2 l (ys @ zs)"
proof -
  obtain h1 where h1: "qlist_insert_after h l (last (l # ys)) x = Some h1" "qlist_rep h1 l (ys @ x # zs)"
    using qlist_insert_effect [OF assms] by blast
  moreover have "qlist_tail h1 l = Some (if zs = [] then x else last zs)"
    using qlist_ends(3) [OF h1(2)] by simp
  ultimately show ?thesis using qlist_remove_effect [OF h1(2)] by blast
qed

definition qlist_example :: qlist_heap where
  "qlist_example = \<lparr>qlist_nodes = [1 \<mapsto> \<lparr>qlist_n = 2\<rparr>, 2 \<mapsto> \<lparr>qlist_n = 1\<rparr>, 3 \<mapsto> \<lparr>qlist_n = 0\<rparr>],
     qlist_tails = [1 \<mapsto> 2]\<rparr>"

lemma qlist_insert_remove_witness:
  "\<exists>h1 h2. qlist_insert_after qlist_example 1 (last (1 # [2])) 3 = Some h1 \<and> qlist_rep h1 1 ([2] @ 3 # []) \<and>
    qlist_tail h1 1 = Some (if ([] :: addr list) = [] then 3 else last []) \<and>
    qlist_remove h1 1 (last (1 # [2])) 3 = Some h2 \<and> qlist_rep h2 1 ([2] @ [])"
  by (rule qlist_insert_remove)
    (simp_all add: qlist_example_def qlist_rep_def qlist_next_def qlist_tail_def qnode_in_def node_in_def load_def)


end
