(* ===== verification/Bytes.thy ===== *)
theory Bytes
  imports CRE_Prelude
begin

text \<open>
  Words in memory: the bytes of a \<open>w\<close>-bit integer or pointer on a little-endian target, and the
  word that some bytes hold.
\<close>

fun le_word :: "byte list \<Rightarrow> 'w :: len word" where
  "le_word [] = 0"
| "le_word (b # bs) = ucast b OR push_bit 8 (le_word bs)"

definition sizeof :: "'w :: len word itself \<Rightarrow> nat" where
  "sizeof _ = LENGTH('w) div 8"

definition le_bytes :: "'w :: len word \<Rightarrow> byte list" where
  "le_bytes w = map (\<lambda>i. ucast (drop_bit (8 * i) w)) [0..<sizeof TYPE('w word)]"

lemma length_le_bytes [simp]: "length (le_bytes (w :: 'w :: len word)) = sizeof TYPE('w word)"
  by (simp add: le_bytes_def)

lemma bit_le_word:
  "bit (le_word bs :: 'w :: len word) i \<longleftrightarrow>
     i < LENGTH('w) \<and> i div 8 < length bs \<and> bit (bs ! (i div 8)) (i mod 8)"
proof (induction bs arbitrary: i)
  case (Cons b bs)
  show ?case
  proof (cases "i < 8")
    case True
    then show ?thesis by (auto simp: bit_or_iff bit_push_bit_iff bit_ucast_iff)
  next
    case False
    then have "i div 8 = Suc ((i - 8) div 8)" "i mod 8 = (i - 8) mod 8"
      by (simp_all add: le_div_geq le_mod_geq)
    with False show ?thesis
      by (auto simp: bit_or_iff bit_push_bit_iff bit_ucast_iff Cons.IH)
  qed
qed simp

lemma le_word_Cons_xor: "le_word (b # bs) = ucast b XOR push_bit 8 (le_word bs)"
  by (rule bit_word_eqI) (auto simp: bit_or_iff bit_xor_iff bit_push_bit_iff bit_ucast_iff)

lemma le_word_bytes:
  assumes "8 dvd LENGTH('w)"
  shows "le_word (le_bytes w) = (w :: 'w :: len word)"
proof (rule bit_word_eqI)
  fix i assume i: "i < LENGTH('w)"
  with assms have "i div 8 < sizeof TYPE('w word)" by (auto simp: sizeof_def)
  moreover have "bit (drop_bit (8 * (i div 8)) w) (i mod 8) = bit w i"
    by (simp add: bit_drop_bit_eq)
  ultimately show "bit (le_word (le_bytes w) :: 'w word) i = bit w i"
    using i by (simp add: bit_le_word le_bytes_def bit_ucast_iff)
qed

lemma sizeof_words [simp]:
  "sizeof TYPE(8 word) = 1" "sizeof TYPE(16 word) = 2" "sizeof TYPE(32 word) = 4"
  "sizeof TYPE(64 word) = 8"
  by (simp_all add: sizeof_def)

end
