(* ===== verification/Buffer.thy ===== *)
theory Buffer
  imports Bytes
begin

text \<open>
  \<open>data/buffer.c\<close> and \<open>data/buffer.h\<close>: the growable \<open>BUFFER\<close> and its inline wrappers \<open>STACK\<close> and
  \<open>ARRAY_*\<close>. The block of a buffer is \<^term>\<open>None\<close> for \<open>NULL\<close> or the bytes of the heap block; every
  access is checked against the block.

  The nine \<open>ARRAY_*\<close> types and the typed stack operations are textual copies of each other for
  one element type; they are one polymorphic definition over the word type of the element
  (\<open>intN_t\<close>, \<open>uintN_t\<close> and pointers differ only in how the caller reads the word).
\<close>

section \<open>The allocator\<close>

text \<open>
  \<open>realloc\<close> (and \<open>malloc\<close>, which is \<open>realloc\<close> of \<open>NULL\<close>) either fails and leaves the old block alone, or
  returns a block that starts with the old bytes and goes on with indeterminate ones. Each
  operation calls it at most once; its answer for every size is an argument of the operation.
\<close>

type_synonym allocator = "size_t \<Rightarrow> byte list option"

definition realloc_block :: "allocator \<Rightarrow> byte list option \<Rightarrow> size_t \<Rightarrow> byte list option" where
  "realloc_block mem old n = (case mem n of
       None \<Rightarrow> None
     | Some fresh \<Rightarrow>
         let keep = take (unat n) (case old of None \<Rightarrow> [] | Some d \<Rightarrow> d)
         in Some (keep @ drop (length keep) fresh))"

definition allocator_ok :: "allocator \<Rightarrow> bool" where
  "allocator_ok mem \<longleftrightarrow> (\<forall>n fresh. mem n = Some fresh \<longrightarrow> length fresh = unat n)"

section \<open>BUFFER\<close>

record BUFFER =
  buf_data :: "byte list option"
  buf_size :: size_t
  buf_alloc :: size_t

text \<open>A pointer into the block of a buffer.\<close>

datatype buffer_ptr = Null | At size_t

definition buffer_init :: BUFFER where
  "buffer_init = \<lparr>buf_data = None, buf_size = 0, buf_alloc = 0\<rparr>"

definition buffer_size :: "BUFFER \<Rightarrow> size_t" where
  "buffer_size buf = buf_size buf"

definition buffer_is_empty :: "BUFFER \<Rightarrow> bool" where
  "buffer_is_empty buf = (buf_size buf = 0)"

definition buffer_data :: "BUFFER \<Rightarrow> byte list option" where
  "buffer_data buf = buf_data buf"

definition buffer_data_at :: "BUFFER \<Rightarrow> size_t \<Rightarrow> buffer_ptr option" where
  "buffer_data_at buf off = (case buf_data buf of
       None \<Rightarrow> if off = 0 then Some Null else None
     | Some d \<Rightarrow> if unat off \<le> length d then Some (At off) else None)"

text \<open>Reading and writing \<open>n\<close> bytes through such a pointer.\<close>

definition buffer_read :: "BUFFER \<Rightarrow> buffer_ptr \<Rightarrow> nat \<Rightarrow> byte list option" where
  "buffer_read buf ptr n = (case (ptr, buf_data buf) of
       (At off, Some d) \<Rightarrow> if unat off + n \<le> length d then Some (take n (drop (unat off) d)) else None
     | _ \<Rightarrow> if n = 0 then Some [] else None)"

definition buffer_write :: "BUFFER \<Rightarrow> buffer_ptr \<Rightarrow> byte list \<Rightarrow> BUFFER option" where
  "buffer_write buf ptr bs = (case (ptr, buf_data buf) of
       (At off, Some d) \<Rightarrow> do { d \<leftarrow> mem_copy d (unat off) bs; Some (buf\<lparr>buf_data := Some d\<rparr>) }
     | _ \<Rightarrow> if bs = [] then Some buf else None)"

text \<open>The two doubling loops of the size policy; nothing bounds them in \<open>size_t\<close>.\<close>

partial_function (option) good_alloc_small :: "size_t \<Rightarrow> size_t \<Rightarrow> size_t option" where
  "good_alloc_small good_alloc requested_alloc =
     (if good_alloc < requested_alloc then good_alloc_small (good_alloc * 2) requested_alloc
      else Some good_alloc)"

partial_function (option) good_alloc_large :: "size_t \<Rightarrow> size_t \<Rightarrow> size_t option" where
  "good_alloc_large good_alloc requested_alloc =
     (if good_alloc - 32 < requested_alloc then good_alloc_large (good_alloc * 2) requested_alloc
      else Some good_alloc)"

definition buffer_good_alloc_size :: "size_t \<Rightarrow> size_t option" where
  "buffer_good_alloc_size requested_alloc =
     (if requested_alloc \<le> 256 then good_alloc_small 16 requested_alloc
      else do { good_alloc \<leftarrow> good_alloc_large 512 requested_alloc; Some (good_alloc - 32) })"

definition buffer_realloc :: "allocator \<Rightarrow> BUFFER \<Rightarrow> size_t \<Rightarrow> int \<times> BUFFER" where
  "buffer_realloc mem buf alloc =
     (if alloc = buf_alloc buf then (0, buf)
      else if alloc = 0 then (0, buffer_init)
      else (case realloc_block mem (buf_data buf) alloc of
          None \<Rightarrow> (- 1, buf)
        | Some tmp \<Rightarrow>
            let buf = buf\<lparr>buf_data := Some tmp, buf_alloc := alloc\<rparr>
            in (0, if alloc < buf_size buf then buf\<lparr>buf_size := alloc\<rparr> else buf)))"

definition buffer_reserve :: "allocator \<Rightarrow> BUFFER \<Rightarrow> size_t \<Rightarrow> (int \<times> BUFFER) option" where
  "buffer_reserve mem buf n =
     (if buf_size buf + n < buf_alloc buf then Some (0, buf)
      else do {
        alloc \<leftarrow> buffer_good_alloc_size (buf_size buf + n);
        Some (buffer_realloc mem buf alloc)
      })"

definition buffer_shrink :: "allocator \<Rightarrow> BUFFER \<Rightarrow> BUFFER" where
  "buffer_shrink mem buf =
     (if 0 < buf_alloc buf \<and> buf_alloc buf < 8 \<or> buf_alloc buf div 8 < buf_size buf div 7 then buf
      else snd (buffer_realloc mem buf (buf_size buf)))"

text \<open>\<open>memmove\<close> inside the block; the offsets are those of the pointer arithmetic.\<close>

definition buffer_move :: "BUFFER \<Rightarrow> nat \<Rightarrow> nat \<Rightarrow> nat \<Rightarrow> BUFFER option" where
  "buffer_move buf dst src n = (case buf_data buf of
       None \<Rightarrow> None
     | Some d \<Rightarrow> do { d \<leftarrow> mem_move d dst src n; Some (buf\<lparr>buf_data := Some d\<rparr>) })"

definition buffer_insert_raw ::
    "allocator \<Rightarrow> BUFFER \<Rightarrow> size_t \<Rightarrow> size_t \<Rightarrow> (buffer_ptr \<times> BUFFER) option" where
  "buffer_insert_raw mem buf off n = do {
     (res, buf) \<leftarrow> (if buf_size buf + n > buf_alloc buf then buffer_reserve mem buf n else Some (0, buf));
     if res \<noteq> 0 then Some (Null, buf)
     else do {
       buf \<leftarrow> (if buf_size buf > off
              then buffer_move buf (unat off + unat n) (unat off) (unat (buf_size buf - off))
              else Some buf);
       let buf = buf\<lparr>buf_size := buf_size buf + n\<rparr>;
       ptr \<leftarrow> buffer_data_at buf off;
       Some (ptr, buf)
     }
   }"

definition buffer_insert ::
    "allocator \<Rightarrow> BUFFER \<Rightarrow> size_t \<Rightarrow> byte list \<Rightarrow> size_t \<Rightarrow> (int \<times> BUFFER) option" where
  "buffer_insert mem buf off data n = do {
     (ptr, buf) \<leftarrow> buffer_insert_raw mem buf off n;
     if ptr = Null then Some (- 1, buf)
     else if length data < unat n then None
     else do {
       buf \<leftarrow> buffer_write buf ptr (take (unat n) data);
       Some (0, buf)
     }
   }"

definition buffer_append_raw :: "allocator \<Rightarrow> BUFFER \<Rightarrow> size_t \<Rightarrow> (buffer_ptr \<times> BUFFER) option" where
  "buffer_append_raw mem buf n = buffer_insert_raw mem buf (buf_size buf) n"

definition buffer_append :: "allocator \<Rightarrow> BUFFER \<Rightarrow> byte list \<Rightarrow> size_t \<Rightarrow> (int \<times> BUFFER) option" where
  "buffer_append mem buf data n = buffer_insert mem buf (buf_size buf) data n"

definition buffer_remove :: "allocator \<Rightarrow> BUFFER \<Rightarrow> size_t \<Rightarrow> size_t \<Rightarrow> BUFFER option" where
  "buffer_remove mem buf off n = do {
     buf \<leftarrow> (if off + n < buf_size buf
            then do {
              buf \<leftarrow> buffer_move buf (unat off) (unat off + unat n) (unat (buf_size buf - off - n));
              Some (buf\<lparr>buf_size := buf_size buf - n\<rparr>)
            }
            else Some (buf\<lparr>buf_size := off\<rparr>));
     if buf_size buf = 0 then Some (buf\<lparr>buf_data := None, buf_alloc := 0\<rparr>)
     else if buf_size buf < buf_alloc buf div 4 then do {
       new_alloc \<leftarrow> buffer_good_alloc_size (buf_size buf * 2);
       Some (if new_alloc < buf_alloc buf div 2 then snd (buffer_realloc mem buf new_alloc) else buf)
     }
     else Some buf
   }"

definition buffer_clear :: "allocator \<Rightarrow> BUFFER \<Rightarrow> BUFFER option" where
  "buffer_clear mem buf = buffer_remove mem buf 0 (buf_size buf)"

text \<open>The block and its size are handed to the caller, and the buffer starts anew.\<close>

definition buffer_acquire :: "BUFFER \<Rightarrow> byte list option \<times> size_t \<times> BUFFER" where
  "buffer_acquire buf = (buf_data buf, buf_size buf, buffer_init)"

definition buffer_swap :: "BUFFER \<Rightarrow> BUFFER \<Rightarrow> BUFFER \<times> BUFFER" where
  "buffer_swap buf1 buf2 = (let tmp = buf1; buf1 = buf2; buf2 = tmp in (buf1, buf2))"

section \<open>STACK\<close>

type_synonym STACK = BUFFER

definition stack_init :: STACK where
  "stack_init = buffer_init"

definition stack_reserve :: "allocator \<Rightarrow> STACK \<Rightarrow> size_t \<Rightarrow> (int \<times> STACK) option" where
  "stack_reserve mem stack n = buffer_reserve mem stack n"

definition stack_size :: "STACK \<Rightarrow> size_t" where
  "stack_size stack = buffer_size stack"

definition stack_is_empty :: "STACK \<Rightarrow> bool" where
  "stack_is_empty stack = buffer_is_empty stack"

definition stack_data :: "STACK \<Rightarrow> byte list option" where
  "stack_data stack = buffer_data stack"

definition stack_push_raw :: "allocator \<Rightarrow> STACK \<Rightarrow> size_t \<Rightarrow> (buffer_ptr \<times> STACK) option" where
  "stack_push_raw mem stack n = buffer_append_raw mem stack n"

definition stack_push :: "allocator \<Rightarrow> STACK \<Rightarrow> byte list \<Rightarrow> size_t \<Rightarrow> (int \<times> STACK) option" where
  "stack_push mem stack data n = buffer_append mem stack data n"

definition stack_push_word :: "allocator \<Rightarrow> STACK \<Rightarrow> 'w :: len word \<Rightarrow> (int \<times> STACK) option" where
  "stack_push_word mem stack w = stack_push mem stack (le_bytes w) (of_nat (sizeof TYPE('w word)))"

definition stack_peek_raw :: "STACK \<Rightarrow> size_t \<Rightarrow> buffer_ptr option" where
  "stack_peek_raw stack n = buffer_data_at stack (stack_size stack - n)"

definition stack_peek :: "STACK \<Rightarrow> size_t \<Rightarrow> byte list option" where
  "stack_peek stack n = do {
     ptr \<leftarrow> buffer_data_at stack (stack_size stack - n);
     buffer_read stack ptr (unat n)
   }"

definition stack_peek_word :: "STACK \<Rightarrow> 'w :: len word option" where
  "stack_peek_word stack = do {
     bs \<leftarrow> stack_peek stack (of_nat (sizeof TYPE('w word)));
     Some (le_word bs)
   }"

definition stack_pop_raw :: "STACK \<Rightarrow> size_t \<Rightarrow> (buffer_ptr \<times> STACK) option" where
  "stack_pop_raw stack n = do {
     let stack = stack\<lparr>buf_size := buf_size stack - n\<rparr>;
     ptr \<leftarrow> buffer_data_at stack (buf_size stack);
     Some (ptr, stack)
   }"

definition stack_pop :: "allocator \<Rightarrow> STACK \<Rightarrow> size_t \<Rightarrow> (byte list \<times> STACK) option" where
  "stack_pop mem stack n = do {
     bs \<leftarrow> stack_peek stack n;
     stack \<leftarrow> buffer_remove mem stack (stack_size stack - n) n;
     Some (bs, stack)
   }"

definition stack_pop_word :: "allocator \<Rightarrow> STACK \<Rightarrow> ('w :: len word \<times> STACK) option" where
  "stack_pop_word mem stack = do {
     (bs, stack) \<leftarrow> stack_pop mem stack (of_nat (sizeof TYPE('w word)));
     Some (le_word bs, stack)
   }"

definition stack_clear :: "allocator \<Rightarrow> STACK \<Rightarrow> STACK option" where
  "stack_clear mem stack = buffer_clear mem stack"

definition stack_acquire :: "STACK \<Rightarrow> byte list option \<times> size_t \<times> STACK" where
  "stack_acquire stack = buffer_acquire stack"

definition stack_swap :: "STACK \<Rightarrow> STACK \<Rightarrow> STACK \<times> STACK" where
  "stack_swap stack1 stack2 = buffer_swap stack1 stack2"

section \<open>ARRAY\<close>

text \<open>An array of words \<open>'w\<close> is a buffer that holds their bytes.\<close>

datatype (dead 'w) ARRAY = ARRAY (array_buf: BUFFER)

definition array_init :: "'w :: len word ARRAY" where
  "array_init = ARRAY buffer_init"

definition array_data :: "'w :: len word ARRAY \<Rightarrow> byte list option" where
  "array_data array = buffer_data (array_buf array)"

definition array_size :: "'w :: len word ARRAY \<Rightarrow> size_t" where
  "array_size array = buffer_size (array_buf array) div of_nat (sizeof TYPE('w word))"

definition array_is_empty :: "'w :: len word ARRAY \<Rightarrow> bool" where
  "array_is_empty array = buffer_is_empty (array_buf array)"

definition array_get :: "'w :: len word ARRAY \<Rightarrow> size_t \<Rightarrow> 'w word option" where
  "array_get array index = do {
     d \<leftarrow> array_data array;
     let w = sizeof TYPE('w word);
     if unat index * w + w \<le> length d then Some (le_word (take w (drop (unat index * w) d))) else None
   }"

definition array_set :: "'w :: len word ARRAY \<Rightarrow> size_t \<Rightarrow> 'w word \<Rightarrow> 'w word ARRAY option" where
  "array_set array index v = do {
     d \<leftarrow> array_data array;
     d \<leftarrow> mem_copy d (unat index * sizeof TYPE('w word)) (le_bytes v);
     Some (ARRAY ((array_buf array)\<lparr>buf_data := Some d\<rparr>))
   }"

definition array_insert_n_raw ::
    "allocator \<Rightarrow> 'w :: len word ARRAY \<Rightarrow> size_t \<Rightarrow> size_t \<Rightarrow> (int \<times> 'w word ARRAY) option" where
  "array_insert_n_raw mem array index n = do {
     let w = of_nat (sizeof TYPE('w word));
     (addr, buf) \<leftarrow> buffer_insert_raw mem (array_buf array) (index * w) (n * w);
     Some (if addr \<noteq> Null then 0 else - 1, ARRAY buf)
   }"

definition array_insert_raw :: "allocator \<Rightarrow> 'w :: len word ARRAY \<Rightarrow> size_t \<Rightarrow> (int \<times> 'w word ARRAY) option" where
  "array_insert_raw mem array index = do {
     let w = of_nat (sizeof TYPE('w word));
     (addr, buf) \<leftarrow> buffer_insert_raw mem (array_buf array) (index * w) w;
     Some (if addr \<noteq> Null then 0 else - 1, ARRAY buf)
   }"

definition array_insert ::
    "allocator \<Rightarrow> 'w :: len word ARRAY \<Rightarrow> size_t \<Rightarrow> 'w word \<Rightarrow> (int \<times> 'w word ARRAY) option" where
  "array_insert mem array index v = do {
     let w = of_nat (sizeof TYPE('w word));
     (addr, buf) \<leftarrow> buffer_insert_raw mem (array_buf array) (index * w) w;
     buf \<leftarrow> (if addr \<noteq> Null then buffer_write buf addr (le_bytes v) else Some buf);
     Some (if addr \<noteq> Null then 0 else - 1, ARRAY buf)
   }"

definition array_append_n ::
    "allocator \<Rightarrow> 'w :: len word ARRAY \<Rightarrow> size_t \<Rightarrow> (int \<times> 'w word ARRAY) option" where
  "array_append_n mem array n = do {
     (addr, buf) \<leftarrow> buffer_append_raw mem (array_buf array) (n * of_nat (sizeof TYPE('w word)));
     Some (if addr \<noteq> Null then 0 else - 1, ARRAY buf)
   }"

definition array_append_raw :: "allocator \<Rightarrow> 'w :: len word ARRAY \<Rightarrow> (int \<times> 'w word ARRAY) option" where
  "array_append_raw mem array = do {
     (addr, buf) \<leftarrow> buffer_append_raw mem (array_buf array) (of_nat (sizeof TYPE('w word)));
     Some (if addr \<noteq> Null then 0 else - 1, ARRAY buf)
   }"

definition array_append :: "allocator \<Rightarrow> 'w :: len word ARRAY \<Rightarrow> 'w word \<Rightarrow> (int \<times> 'w word ARRAY) option" where
  "array_append mem array v = do {
     (addr, buf) \<leftarrow> buffer_append_raw mem (array_buf array) (of_nat (sizeof TYPE('w word)));
     buf \<leftarrow> (if addr \<noteq> Null then buffer_write buf addr (le_bytes v) else Some buf);
     Some (if addr \<noteq> Null then 0 else - 1, ARRAY buf)
   }"

definition array_remove_n ::
    "allocator \<Rightarrow> 'w :: len word ARRAY \<Rightarrow> size_t \<Rightarrow> size_t \<Rightarrow> 'w word ARRAY option" where
  "array_remove_n mem array index n = do {
     let w = of_nat (sizeof TYPE('w word));
     buf \<leftarrow> buffer_remove mem (array_buf array) (index * w) (n * w);
     Some (ARRAY buf)
   }"

definition array_remove :: "allocator \<Rightarrow> 'w :: len word ARRAY \<Rightarrow> size_t \<Rightarrow> 'w word ARRAY option" where
  "array_remove mem array index = do {
     let w = of_nat (sizeof TYPE('w word));
     buf \<leftarrow> buffer_remove mem (array_buf array) (index * w) w;
     Some (ARRAY buf)
   }"

definition array_acquire :: "'w :: len word ARRAY \<Rightarrow> byte list option \<times> size_t \<times> 'w word ARRAY" where
  "array_acquire array =
     (let (data, size, buf) = buffer_acquire (array_buf array)
      in (data, size div of_nat (sizeof TYPE('w word)), ARRAY buf))"



end
