(* ===== verification/Sequence.thy ===== *)
theory Sequence
  imports CRE_Prelude
begin

text \<open>
  The contract of a growable sequence, as the users of \<open>data/buffer.h\<close> rely on it: an insertion either
  reports success and has put the new elements at their place, or reports \<open>-1\<close> and has changed
  nothing; a removal always takes exactly its range out. The environment is what an operation asks
  of the heap.
\<close>

locale sequence =
  fixes env_ok :: "'m \<Rightarrow> bool"
    and rep :: "'b \<Rightarrow> 'e list \<Rightarrow> bool"
    and fits :: "nat \<Rightarrow> bool"
    and piece :: "'e list \<Rightarrow> bool"
    and insert_op :: "'m \<Rightarrow> 'b \<Rightarrow> nat \<Rightarrow> 'e list \<Rightarrow> (int \<times> 'b) option"
    and remove_op :: "'m \<Rightarrow> 'b \<Rightarrow> nat \<Rightarrow> nat \<Rightarrow> 'b option"
  assumes insert_law: "env_ok m \<Longrightarrow> rep b xs \<Longrightarrow> i \<le> length xs \<Longrightarrow> piece ys \<Longrightarrow>
      fits (length xs + length ys) \<Longrightarrow>
      \<exists>r b'. insert_op m b i ys = Some (r, b') \<and>
        (r = 0 \<and> rep b' (take i xs @ ys @ drop i xs) \<or> r = - 1 \<and> b' = b)"
    and remove_law: "env_ok m \<Longrightarrow> rep b xs \<Longrightarrow> i \<le> length xs \<Longrightarrow> fits (i + n) \<Longrightarrow>
      \<exists>b'. remove_op m b i n = Some b' \<and> rep b' (take i xs @ drop (i + n) xs)"
    and fits_mono: "fits n \<Longrightarrow> k \<le> n \<Longrightarrow> fits k"
begin

text \<open>Removing what a successful insertion put in restores the sequence.\<close>

lemma insert_then_remove:
  assumes "env_ok m" "env_ok m'" "rep b xs" "i \<le> length xs" "piece ys" "fits (length xs + length ys)"
    and "insert_op m b i ys = Some (0, b')"
  shows "rep b' (take i xs @ ys @ drop i xs) \<and> (\<exists>b''. remove_op m' b' i (length ys) = Some b'' \<and> rep b'' xs)"
proof -
  have b': "rep b' (take i xs @ ys @ drop i xs)"
    using insert_law [OF assms(1,3-6)] assms(7) by auto
  moreover have "fits (i + length ys)" using fits_mono [OF assms(6)] assms(4) by simp
  ultimately show ?thesis
    using remove_law [OF assms(2) b', of i "length ys"] assms(4) by (auto simp: min_def)
qed

text \<open>The same at the end: a stack.\<close>

lemma push_then_pop:
  assumes "env_ok m" "env_ok m'" "rep b xs" "piece ys" "fits (length xs + length ys)"
    and "insert_op m b (length xs) ys = Some (0, b')"
  shows "rep b' (xs @ ys) \<and> (\<exists>b''. remove_op m' b' (length xs) (length ys) = Some b'' \<and> rep b'' xs)"
  using insert_then_remove [OF assms(1-3) _ assms(4-6)] by simp

end

end
