(* ===== verification/Buffer_Bytes.thy ===== *)
theory Buffer_Bytes
  imports Buffer Sequence
begin

text \<open>
  The \<open>BUFFER\<close> of \<open>data/buffer.c\<close> as a sequence of bytes: the size policy, the invariant, what every
  operation does to the contents, and the contract of a growable sequence.
\<close>

section \<open>The size policy\<close>

lemma unat_2p: "k < 64 \<Longrightarrow> unat (2 ^ k :: size_t) = 2 ^ k"
proof -
  assume "k < 64"
  then have "(2 :: nat) ^ k < 2 ^ 64" by (rule power_strict_increasing) simp
  then show ?thesis using unat_of_nat_size [of "2 ^ k"] by simp
qed

lemma unat_2p_minus_32:
  assumes "9 \<le> k" "k \<le> 64"
  shows "unat ((2 ^ k :: size_t) - 32) = 2 ^ k - 32"
proof (cases "k = 64")
  case True
  then show ?thesis by simp
next
  case False
  have "(2 :: nat) ^ 9 \<le> 2 ^ k" using assms by (intro power_increasing) simp_all
  then have "(32 :: size_t) \<le> 2 ^ k" using False assms
    by (simp add: word_le_nat_alt unat_2p)
  then show ?thesis using False assms by (simp add: unat_sub unat_2p)
qed

lemma good_alloc_small_doubles:
  "k \<le> 8 \<Longrightarrow> unat r \<le> 256 \<Longrightarrow>
     \<exists>m. k \<le> m \<and> m \<le> 8 \<and> good_alloc_small (2 ^ k) r = Some (2 ^ m) \<and>
       unat r \<le> 2 ^ m \<and> (k < m \<longrightarrow> 2 ^ m < 2 * unat r)"
proof (induction "8 - k" arbitrary: k)
  case 0
  then show ?case by (intro exI [of _ 8]) (simp add: good_alloc_small.simps word_less_nat_alt)
next
  case (Suc d)
  show ?case
  proof (cases "2 ^ k < unat r")
    case True
    then have "d = 8 - Suc k" "Suc k \<le> 8" using Suc.hyps(2) by simp_all
    then obtain m where "Suc k \<le> m" "m \<le> 8" "good_alloc_small (2 ^ Suc k) r = Some (2 ^ m)"
      "unat r \<le> 2 ^ m" "Suc k < m \<longrightarrow> 2 ^ m < 2 * unat r"
      using Suc.hyps(1) [of "Suc k"] Suc.prems by auto
    with True Suc.prems show ?thesis
      by (intro exI [of _ m], subst good_alloc_small.simps)
        (auto simp: word_less_nat_alt unat_2p mult.commute le_less)
  next
    case False
    with Suc.prems show ?thesis
      by (intro exI [of _ k], subst good_alloc_small.simps) (simp add: word_less_nat_alt unat_2p)
  qed
qed

lemma good_alloc_large_doubles:
  "9 \<le> k \<Longrightarrow> k \<le> 64 \<Longrightarrow> unat r \<le> 2 ^ 64 - 32 \<Longrightarrow>
     \<exists>m. k \<le> m \<and> m \<le> 64 \<and> good_alloc_large (2 ^ k) r = Some (2 ^ m) \<and>
       unat r \<le> 2 ^ m - 32 \<and> (k < m \<longrightarrow> 2 ^ m < 2 * unat r + 64)"
proof (induction "64 - k" arbitrary: k)
  case 0
  then have k: "k = 64" by simp
  have "\<not> (2 ^ 64 :: size_t) - 32 < r"
    using 0 unat_2p_minus_32 [of 64] by (simp only: word_less_nat_alt not_less)
  then show ?case using 0 k by (intro exI [of _ 64], subst good_alloc_large.simps) simp
next
  case (Suc d)
  show ?case
  proof (cases "2 ^ k - 32 < unat r")
    case True
    then have "d = 64 - Suc k" "Suc k \<le> 64" using Suc.hyps(2) by simp_all
    then obtain m where "Suc k \<le> m" "m \<le> 64" "good_alloc_large (2 ^ Suc k) r = Some (2 ^ m)"
      "unat r \<le> 2 ^ m - 32" "Suc k < m \<longrightarrow> 2 ^ m < 2 * unat r + 64"
      using Suc.hyps(1) [of "Suc k"] Suc.prems by auto
    with True Suc.prems show ?thesis
      by (intro exI [of _ m], subst good_alloc_large.simps)
        (auto simp: word_less_nat_alt unat_2p_minus_32 mult.commute le_less)
  next
    case False
    with Suc.prems show ?thesis
      by (intro exI [of _ k], subst good_alloc_large.simps) (simp add: word_less_nat_alt unat_2p_minus_32)
  qed
qed

lemma minus_32_bound:
  assumes "32 dvd unat (g :: size_t)"
  shows "unat (g - 32) \<le> 2 ^ 64 - 32"
proof (cases "g = 0")
  case True
  then show ?thesis by simp
next
  case False
  then have "0 < unat g" by (simp add: unat_gt_0)
  with assms have "32 \<le> unat g" by (rule dvd_imp_le)
  then have "unat (g - 32) = unat g - 32" by (simp add: unat_sub word_le_nat_alt)
  moreover have "unat g < 2 ^ 64" using unsigned_less [of g] by simp
  ultimately show ?thesis by simp
qed

lemma good_alloc_large_stuck:
  "good_alloc_large g r = Some y \<Longrightarrow> 2 ^ 64 - 32 < unat r \<longrightarrow> 32 dvd unat g \<longrightarrow> False"
proof (induction g r y rule: good_alloc_large.raw_induct [rotated 1, consumes 1, case_names step])
  case (step f g r y)
  show ?case
  proof (intro impI)
    assume r: "2 ^ 64 - 32 < unat r" and g: "32 dvd unat g"
    have "g - 32 < r" using minus_32_bound [OF g] r by (simp add: word_less_nat_alt)
    then have "f (g * 2) r = Some y" using step(2) by simp
    moreover have "unat (g * 2) = (unat g * 2) mod 2 ^ 64" by (simp add: unat_word_ariths)
    then have "32 dvd unat (g * 2)" using g by (simp add: dvd_mod)
    ultimately show False using step(1) r by blast
  qed
qed

lemma good_alloc_size:
  assumes "unat r \<le> 2 ^ 64 - 32"
  shows "\<exists>g. buffer_good_alloc_size r = Some g \<and> unat r \<le> unat g \<and> 16 \<le> unat g \<and> unat g < 2 * unat r + 32"
proof (cases "unat r \<le> 256")
  case True
  obtain m where m: "4 \<le> m" "m \<le> 8" "good_alloc_small (2 ^ 4) r = Some (2 ^ m)" "unat r \<le> 2 ^ m"
    "4 < m \<longrightarrow> 2 ^ m < 2 * unat r"
    using good_alloc_small_doubles [of 4 r] True by auto
  then have "(2 :: nat) ^ 4 \<le> 2 ^ m" by (intro power_increasing) simp_all
  moreover have "m = 4 \<or> 4 < m" using m(1) by linarith
  ultimately show ?thesis using m True
    by (intro exI [of _ "2 ^ m"]) (auto simp: buffer_good_alloc_size_def word_le_nat_alt unat_2p)
next
  case False
  obtain m where m: "9 \<le> m" "m \<le> 64" "good_alloc_large (2 ^ 9) r = Some (2 ^ m)" "unat r \<le> 2 ^ m - 32"
    "9 < m \<longrightarrow> 2 ^ m < 2 * unat r + 64"
    using good_alloc_large_doubles [of 9 r] assms by auto
  moreover have "m = 9 \<or> 9 < m" using m(1) by linarith
  moreover have "unat ((2 ^ m :: size_t) - 32) = 2 ^ m - 32" using m by (simp add: unat_2p_minus_32)
  ultimately show ?thesis using False
    by (intro exI [of _ "2 ^ m - 32"]) (auto simp: buffer_good_alloc_size_def word_le_nat_alt)
qed

lemma good_alloc_size_stuck:
  assumes "2 ^ 64 - 32 < unat r"
  shows "buffer_good_alloc_size r = None"
proof (cases "good_alloc_large 512 r")
  case None
  then show ?thesis using assms by (simp add: buffer_good_alloc_size_def word_le_nat_alt)
next
  case (Some g)
  then show ?thesis using good_alloc_large_stuck [OF Some] assms by simp
qed



section \<open>The invariant and the contents\<close>

definition buffer_ok :: "BUFFER \<Rightarrow> bool" where
  "buffer_ok b \<longleftrightarrow> buf_size b \<le> buf_alloc b \<and>
     (case buf_data b of None \<Rightarrow> buf_alloc b = 0 | Some d \<Rightarrow> buf_alloc b \<noteq> 0 \<and> length d = unat (buf_alloc b))"

definition contents :: "BUFFER \<Rightarrow> byte list" where
  "contents b = take (unat (buf_size b)) (case buf_data b of None \<Rightarrow> [] | Some d \<Rightarrow> d)"

lemma length_contents: "buffer_ok b \<Longrightarrow> length (contents b) = unat (buf_size b)"
  by (auto simp: buffer_ok_def contents_def word_le_nat_alt min_def split: option.splits)

lemma buffer_init_ok: "buffer_ok buffer_init" and contents_init: "contents buffer_init = []"
  by (simp_all add: buffer_init_def buffer_ok_def contents_def)

lemma realloc_block_ok:
  "allocator_ok mem \<Longrightarrow> realloc_block mem old n = Some d \<Longrightarrow>
     length d = unat n \<and> take (unat n) (case old of None \<Rightarrow> [] | Some o' \<Rightarrow> o') =
       take (min (unat n) (length (case old of None \<Rightarrow> [] | Some o' \<Rightarrow> o'))) d"
  by (auto simp: realloc_block_def allocator_ok_def Let_def min_def split: option.splits dest: spec [of _ n])

lemma realloc_cases:
  assumes "allocator_ok mem" "buffer_ok b"
  obtains (ok) b' where "buffer_realloc mem b alloc = (0, b')" "buffer_ok b'" "buf_alloc b' = alloc"
      "contents b' = take (unat alloc) (contents b)" "buf_size b' = min alloc (buf_size b)"
    | (fail) "buffer_realloc mem b alloc = (- 1, b)" "mem alloc = None" "alloc \<noteq> 0"
proof -
  consider "alloc = buf_alloc b" | "alloc \<noteq> buf_alloc b" "alloc = 0"
    | "alloc \<noteq> buf_alloc b" "alloc \<noteq> 0" "realloc_block mem (buf_data b) alloc = None"
    | d where "alloc \<noteq> buf_alloc b" "alloc \<noteq> 0" "realloc_block mem (buf_data b) alloc = Some d"
    by fastforce
  then show ?thesis
  proof cases
    case 1
    then have "buf_size b \<le> alloc" "length (contents b) \<le> unat alloc"
      using assms by (auto simp: length_contents buffer_ok_def word_le_nat_alt)
    with 1 show ?thesis using assms by (intro ok [of b]) (auto simp: buffer_realloc_def min_def)
  next
    case 2
    then show ?thesis
      by (intro ok [of buffer_init])
        (auto simp: buffer_realloc_def buffer_init_ok contents_init, auto simp: buffer_init_def min_def)
  next
    case 3
    then show ?thesis by (intro fail) (auto simp: buffer_realloc_def realloc_block_def Let_def split: option.splits)
  next
    case 4
    let ?b = "(if alloc < buf_size b then b\<lparr>buf_data := Some d, buf_alloc := alloc, buf_size := alloc\<rparr>
               else b\<lparr>buf_data := Some d, buf_alloc := alloc\<rparr>)"
    note d = realloc_block_ok [OF assms(1) 4(3)]
    have "buffer_realloc mem b alloc = (0, ?b)" using 4 by (simp add: buffer_realloc_def Let_def)
    moreover have "buffer_ok ?b" using 4 d by (auto simp: buffer_ok_def not_less)
    moreover have "contents ?b = take (unat alloc) (contents b)"
    proof -
      have "unat (buf_size b) \<le> length (case buf_data b of None \<Rightarrow> [] | Some o' \<Rightarrow> o')"
        using assms(2) by (auto simp: buffer_ok_def word_le_nat_alt split: option.splits)
      then show ?thesis using d
        by (auto simp: contents_def word_less_nat_alt min_def not_less dest: arg_cong [where f = "take (unat (buf_size b))"])
    qed
    ultimately show ?thesis by (intro ok [of ?b]) (auto simp: min_def)
  qed
qed

text \<open>The largest total size that the policy can serve.\<close>

definition buffer_max :: nat where
  "buffer_max = 2 ^ 64 - 32"

lemma sum_fits:
  "unat (a :: size_t) + unat b \<le> buffer_max \<Longrightarrow> unat (a + b) = unat a + unat b \<and> unat (a + b) \<le> buffer_max"
  by (simp add: buffer_max_def unat_plus_size)

lemma reserve_cases:
  assumes "allocator_ok mem" "buffer_ok b" "unat (buf_size b) + unat n \<le> buffer_max"
  obtains (ok) b' where "buffer_reserve mem b n = Some (0, b')" "buffer_ok b'" "contents b' = contents b"
      "buf_size b' = buf_size b" "unat (buf_size b) + unat n \<le> unat (buf_alloc b')"
    | (fail) g where "buffer_reserve mem b n = Some (- 1, b)" "unat (buf_alloc b) \<le> unat (buf_size b) + unat n"
      "buffer_good_alloc_size (buf_size b + n) = Some g" "mem g = None"
proof (cases "buf_size b + n < buf_alloc b")
  case True
  then show ?thesis using assms sum_fits [OF assms(3)]
    by (intro ok [of b]) (auto simp: buffer_reserve_def word_less_nat_alt)
next
  case False
  obtain g where g: "buffer_good_alloc_size (buf_size b + n) = Some g"
    "unat (buf_size b + n) \<le> unat g"
    using good_alloc_size [of "buf_size b + n"] sum_fits [OF assms(3)] by (auto simp: buffer_max_def)
  have run: "buffer_reserve mem b n = Some (buffer_realloc mem b g)"
    using False g by (simp add: buffer_reserve_def)
  from assms(1,2) show ?thesis
  proof (cases rule: realloc_cases [of mem b g])
    case (ok b')
    have "buf_size b \<le> g" "length (contents b) \<le> unat g"
      using g(2) sum_fits [OF assms(3)] length_contents [OF assms(2)] by (auto simp: word_le_nat_alt)
    then show ?thesis using ok run g(2) sum_fits [OF assms(3)] that(1) [of b'] by (simp add: min_def)
  next
    case fail
    then show ?thesis using run g False sum_fits [OF assms(3)] that(2) [of g]
      by (simp add: word_less_nat_alt)
  qed
qed

lemma move_in:
  assumes "dst + n \<le> length d" "src + n \<le> length d" "buf_data b = Some d"
  shows "buffer_move b dst src n =
    Some (b\<lparr>buf_data := Some (take dst d @ take n (drop src d) @ drop (dst + n) d)\<rparr>)"
  using assms by (simp add: buffer_move_def mem_simps)

lemma take_gap:
  "off \<le> s \<Longrightarrow> s + n \<le> length d \<Longrightarrow>
     take (s + n) (take (off + n) d @ take (s - off) (drop off d) @ zs) =
       take off (take s d) @ take n (drop off d) @ drop off (take s d)"
  by (simp add: take_add drop_take)

text \<open>The part of \<open>buffer_insert_raw\<close> after the reservation.\<close>

lemma insert_gap:
  assumes "buffer_ok b" "buf_data b = Some d" "unat off \<le> unat (buf_size b)"
    "unat (buf_size b) + unat n \<le> unat (buf_alloc b)"
  defines "s \<equiv> unat (buf_size b)" and "d' \<equiv> take (unat off + unat n) d @
      take (unat (buf_size b) - unat off) (drop (unat off) d) @ drop (unat (buf_size b) + unat n) d"
  shows "(if buf_size b > off
     then buffer_move b (unat off + unat n) (unat off) (unat (buf_size b - off)) else Some b) =
       Some (b\<lparr>buf_data := Some d'\<rparr>)"
    and "length d' = length d"
    and "take (unat (buf_size b) + unat n) d' =
      take (unat off) (contents b) @ take (unat n) (drop (unat off) d) @ drop (unat off) (contents b)"
proof -
  have len: "length d = unat (buf_alloc b)" using assms(1,2) by (simp add: buffer_ok_def)
  show "length d' = length d" using len assms(3,4) by (simp add: d'_def)
  have c: "contents b = take s d" using assms(2) by (simp add: contents_def s_def)
  show "take (unat (buf_size b) + unat n) d' =
      take (unat off) (contents b) @ take (unat n) (drop (unat off) d) @ drop (unat off) (contents b)"
    unfolding d'_def c s_def by (rule take_gap) (use assms(3,4) len in simp_all)
  show "(if buf_size b > off
     then buffer_move b (unat off + unat n) (unat off) (unat (buf_size b - off)) else Some b) =
       Some (b\<lparr>buf_data := Some d'\<rparr>)"
  proof (cases "buf_size b > off")
    case True
    then have "unat (buf_size b - off) = s - unat off" using assms(3) by (simp add: unat_sub word_le_nat_alt s_def)
    then show ?thesis using True assms(2-4) len
      by (simp add: move_in [OF _ _ assms(2)] d'_def s_def add.commute)
  next
    case False
    then have "unat off = s" using assms(3) by (simp add: word_less_nat_alt s_def)
    then have "d' = d" by (simp add: d'_def s_def)
    with False show ?thesis using assms(2) by (cases b) simp
  qed
qed

lemma insert_raw_cases:
  assumes "allocator_ok mem" "buffer_ok b" "unat off \<le> unat (buf_size b)"
    "unat (buf_size b) + unat n \<le> buffer_max"
  obtains (ok) b' js where "buffer_insert_raw mem b off n = Some (At off, b')" "buffer_ok b'"
      "unat (buf_size b') = unat (buf_size b) + unat n" "buf_data b' \<noteq> None" "length js = unat n"
      "contents b' = take (unat off) (contents b) @ js @ drop (unat off) (contents b)"
    | (fail) g where "buffer_insert_raw mem b off n = Some (Null, b)"
      "unat (buf_alloc b) < unat (buf_size b) + unat n"
      "buffer_good_alloc_size (buf_size b + n) = Some g" "mem g = None"
    | (nothing) "buffer_insert_raw mem b off n = Some (Null, b)" "n = 0" "buf_data b = None"
proof -
  note sum = sum_fits [OF assms(4)]
  have filled: thesis
    if pre: "(if buf_size b + n > buf_alloc b then buffer_reserve mem b n else Some (0, b)) = Some (0, b1)"
      and b1: "buffer_ok b1" "contents b1 = contents b" "buf_size b1 = buf_size b"
        "unat (buf_size b) + unat n \<le> unat (buf_alloc b1)"
      and same: "buf_data b1 = None \<Longrightarrow> b1 = b" for b1
  proof (cases "buf_data b1")
    case None
    then have "b1 = b" "buf_alloc b = 0" using same b1(1) by (auto simp: buffer_ok_def)
    then have "unat (buf_size b) + unat n = 0" using b1 by simp
    then have "n = 0" "buf_size b = 0" "off = 0" using assms(3) by (simp_all add: unat_eq_0)
    then have "buffer_insert_raw mem b off n = Some (Null, b)"
      using pre None \<open>b1 = b\<close> by (simp add: buffer_insert_raw_def buffer_data_at_def)
    then show thesis by (rule nothing) (use \<open>n = 0\<close> None \<open>b1 = b\<close> in simp_all)
  next
    case (Some d)
    define d' where "d' = take (unat off + unat n) d @
      take (unat (buf_size b1) - unat off) (drop (unat off) d) @ drop (unat (buf_size b1) + unat n) d"
    note gap = insert_gap [OF b1(1) Some, of off n, folded d'_def]
    have o1: "unat off \<le> unat (buf_size b1)" "unat (buf_size b1) + unat n \<le> unat (buf_alloc b1)"
      using assms(3) b1 by simp_all
    let ?b = "b1\<lparr>buf_data := Some d', buf_size := buf_size b1 + n\<rparr>"
    have len: "length d = unat (buf_alloc b1)" "buf_alloc b1 \<noteq> 0" using b1(1) Some by (simp_all add: buffer_ok_def)
    have "buffer_insert_raw mem b off n = Some (At off, ?b)"
      using pre gap(1,2) [OF o1] o1 len
      by (simp add: buffer_insert_raw_def buffer_data_at_def b1(3))
    moreover have "buffer_ok ?b"
      using gap(2) [OF o1] len sum b1 by (simp add: buffer_ok_def word_le_nat_alt)
    moreover have "contents ?b = take (unat (buf_size b1) + unat n) d'"
      using sum b1(3) by (simp add: contents_def)
    then have "contents ?b = take (unat off) (contents b) @ take (unat n) (drop (unat off) d) @
        drop (unat off) (contents b)"
      using gap(3) [OF o1] unfolding b1(2) by simp
    ultimately show thesis using sum b1 o1 len
      by (intro ok [of ?b "take (unat n) (drop (unat off) d)"]) auto
  qed
  show thesis
  proof (cases "buf_size b + n > buf_alloc b")
    case False
    then show thesis using assms(2) sum
      by (intro filled [of b]) (auto simp: word_less_nat_alt)
  next
    case True
    from assms(1,2,4) show thesis
    proof (cases rule: reserve_cases)
      case (ok b1)
      have "buf_data b1 \<noteq> None"
        using ok True sum by (cases "buf_data b1") (auto simp: buffer_ok_def word_less_nat_alt)
      then show thesis using ok True by (intro filled [of b1]) auto
    next
      case (fail g)
      then show thesis using True sum that(2) [of g]
        by (simp add: buffer_insert_raw_def word_less_nat_alt)
    qed
  qed
qed

lemma write_gap:
  assumes "buffer_ok b" "buf_data b \<noteq> None" "contents b = xs @ js @ zs" "length xs = unat off" "length js = length bs"
  shows "\<exists>b'. buffer_write b (At off) bs = Some b' \<and> buffer_ok b' \<and> contents b' = xs @ bs @ zs \<and>
    buf_size b' = buf_size b \<and> buf_alloc b' = buf_alloc b"
proof -
  obtain d where d: "buf_data b = Some d" using assms(2) by auto
  define s where "s = unat (buf_size b)"
  have len: "s \<le> length d" "length d = unat (buf_alloc b)" "buf_alloc b \<noteq> 0"
    using assms(1) d by (auto simp: buffer_ok_def word_le_nat_alt s_def)
  have c: "take s d = xs @ js @ zs" using assms(3) d by (simp add: contents_def s_def)
  then have sl: "s = length xs + length js + length zs" using len(1) length_take [of s d] unfolding c by simp
  have split: "d = xs @ js @ zs @ drop s d" using c by (metis append_assoc append_take_drop_id)
  have "mem_copy d (unat off) bs = Some (xs @ bs @ zs @ drop s d)"
    using assms(4,5) len sl by (subst split) (simp add: mem_simps)
  then show ?thesis using d assms(1) len sl split
    by (auto simp: buffer_write_def buffer_ok_def contents_def s_def assms(5))
qed

lemma buffer_insert_cases:
  assumes "allocator_ok mem" "buffer_ok b" "unat off \<le> unat (buf_size b)"
    "unat (buf_size b) + unat n \<le> buffer_max" "unat n \<le> length data"
  obtains (ok) b' where "buffer_insert mem b off data n = Some (0, b')" "buffer_ok b'"
      "unat (buf_size b') = unat (buf_size b) + unat n"
      "contents b' = take (unat off) (contents b) @ take (unat n) data @ drop (unat off) (contents b)"
    | (fail) "buffer_insert mem b off data n = Some (- 1, b)"
      "n = 0 \<and> buf_data b = None \<or> unat (buf_alloc b) < unat (buf_size b) + unat n \<and>
       (\<exists>g. buffer_good_alloc_size (buf_size b + n) = Some g \<and> mem g = None)"
  using assms(1-4)
proof (cases rule: insert_raw_cases)
  case (ok b' js)
  have "length (take (unat off) (contents b)) = unat off"
    using assms(3) length_contents [OF assms(2)] by simp
  then obtain b2 where "buffer_write b' (At off) (take (unat n) data) = Some b2" "buffer_ok b2"
    "contents b2 = take (unat off) (contents b) @ take (unat n) data @ drop (unat off) (contents b)"
    "buf_size b2 = buf_size b'"
    using write_gap [OF ok(2,4,6), of off "take (unat n) data"] ok(5) assms(5) by auto
  then show ?thesis using ok assms(5) that(1) [of b2] by (simp add: buffer_insert_def)
qed (auto simp: buffer_insert_def intro: that(2))


text \<open>What removal leaves behind before the block is perhaps made smaller.\<close>

lemma remove_gap:
  "off + n < s \<Longrightarrow> s \<le> length d \<Longrightarrow>
     take (s - n) (take off d @ take (s - off - n) (drop (off + n) d) @ zs) =
       take off (take s d) @ drop (off + n) (take s d)"
  by (auto simp: drop_take min_def add.commute)

lemma shrink_back:
  assumes "allocator_ok mem" "buffer_ok b"
  shows "buffer_ok (snd (buffer_realloc mem b (buf_size b)))"
    and "contents (snd (buffer_realloc mem b (buf_size b))) = contents b"
  using realloc_cases [OF assms, of "buf_size b"] length_contents [OF assms(2)] assms(2)
  by (metis order.refl snd_conv take_all)+

lemma remove_tail:
  assumes "allocator_ok mem" "buffer_ok b"
  shows "\<exists>b'. (if buf_size b = 0 then Some (b\<lparr>buf_data := None, buf_alloc := 0\<rparr>)
     else if buf_size b < buf_alloc b div 4 then do {
       new_alloc \<leftarrow> buffer_good_alloc_size (buf_size b * 2);
       Some (if new_alloc < buf_alloc b div 2 then snd (buffer_realloc mem b new_alloc) else b)
     }
     else Some b) = Some b' \<and> buffer_ok b' \<and> contents b' = contents b \<and> buf_size b' = buf_size b \<and>
     (buf_size b = 0 \<longrightarrow> b' = buffer_init) \<and> buf_alloc b' \<le> buf_alloc b"
proof -
  consider "buf_size b = 0" | "buf_size b \<noteq> 0" "\<not> buf_size b < buf_alloc b div 4"
    | "buf_size b \<noteq> 0" "buf_size b < buf_alloc b div 4" by blast
  then show ?thesis
  proof cases
    case 1
    then show ?thesis by (auto simp: buffer_ok_def contents_def buffer_init_def)
  next
    case 2
    then show ?thesis using assms by simp
  next
    case 3
    have "unat (buf_size b) < unat (buf_alloc b) div 4"
      using 3(2) by (simp add: word_less_nat_alt unat_div)
    moreover have "unat (buf_alloc b) < 2 ^ 64" using unsigned_less [of "buf_alloc b"] by simp
    ultimately have "unat (buf_size b * 2) = unat (buf_size b) * 2" "unat (buf_size b * 2) \<le> 2 ^ 64 - 32"
      by (simp_all add: unat_word_ariths)
    then obtain g where g: "buffer_good_alloc_size (buf_size b * 2) = Some g" "unat (buf_size b) * 2 \<le> unat g"
      using good_alloc_size [of "buf_size b * 2"] by auto
    show ?thesis
    proof (cases "g < buf_alloc b div 2")
      case False
      then show ?thesis using 3 g assms by simp
    next
      case True
      have le: "g \<le> buf_alloc b" using True by (auto simp: word_less_nat_alt word_le_nat_alt unat_div)
      from assms show ?thesis
      proof (cases rule: realloc_cases [of mem b g])
        case (ok b')
        have "buf_size b \<le> g" "length (contents b) \<le> unat g"
          using g(2) length_contents [OF assms(2)] by (auto simp: word_le_nat_alt)
        then show ?thesis using ok 3 g True le by (simp add: min_def)
      next
        case fail
        then show ?thesis using 3 g True assms by simp
      qed
    qed
  qed
qed

lemma buffer_remove_effect:
  assumes "allocator_ok mem" "buffer_ok b" "unat off \<le> unat (buf_size b)" "unat off + unat n < 2 ^ 64"
  shows "\<exists>b'. buffer_remove mem b off n = Some b' \<and> buffer_ok b' \<and>
    contents b' = take (unat off) (contents b) @ drop (unat off + unat n) (contents b) \<and>
    (contents b' = [] \<longrightarrow> b' = buffer_init) \<and> buf_alloc b' \<le> buf_alloc b"
proof -
  have sum: "unat (off + n) = unat off + unat n" using assms(4) by (simp add: unat_plus_size)
  have "\<exists>b1. (if off + n < buf_size b
       then do {
         b \<leftarrow> buffer_move b (unat off) (unat off + unat n) (unat (buf_size b - off - n));
         Some (b\<lparr>buf_size := buf_size b - n\<rparr>)
       }
       else Some (b\<lparr>buf_size := off\<rparr>)) = Some b1 \<and> buffer_ok b1 \<and> buf_alloc b1 = buf_alloc b \<and>
     contents b1 = take (unat off) (contents b) @ drop (unat off + unat n) (contents b)"
  proof (cases "off + n < buf_size b")
    case False
    then have "unat (buf_size b) \<le> unat off + unat n" using sum by (simp add: word_less_nat_alt)
    moreover have "off \<le> buf_alloc b" "off \<le> buf_size b"
      using assms(2,3) by (auto simp: buffer_ok_def word_le_nat_alt)
    ultimately show ?thesis using False assms(2) length_contents [OF assms(2)]
      by (auto simp: buffer_ok_def contents_def word_le_nat_alt min_def split: option.splits)
  next
    case True
    then have lt: "unat off + unat n < unat (buf_size b)" using sum by (simp add: word_less_nat_alt)
    then have ne: "buf_alloc b \<noteq> 0" using assms(2) by (auto simp: buffer_ok_def)
    then obtain d where d: "buf_data b = Some d" using assms(2) by (cases "buf_data b") (auto simp: buffer_ok_def)
    have len: "length d = unat (buf_alloc b)" "unat (buf_size b) \<le> length d"
      using assms(2) d by (auto simp: buffer_ok_def word_le_nat_alt)
    have sub1: "unat (buf_size b - off) = unat (buf_size b) - unat off"
      using lt by (intro unat_sub) (simp add: word_le_nat_alt)
    have sub: "unat (buf_size b - off - n) = unat (buf_size b) - unat off - unat n"
      "unat (buf_size b - n) = unat (buf_size b) - unat n"
      using lt by (simp_all add: unat_sub word_le_nat_alt sub1)
    let ?d = "take (unat off) d @ take (unat (buf_size b) - unat off - unat n) (drop (unat off + unat n) d) @
      drop (unat off + (unat (buf_size b) - unat off - unat n)) d"
    let ?b = "b\<lparr>buf_data := Some ?d, buf_size := buf_size b - n\<rparr>"
    have "buffer_move b (unat off) (unat off + unat n) (unat (buf_size b - off - n)) =
        Some (b\<lparr>buf_data := Some ?d\<rparr>)"
      using len lt unfolding sub by (subst move_in [OF _ _ d]) auto
    moreover have "buffer_ok ?b" using len lt sub ne by (simp add: buffer_ok_def word_le_nat_alt)
    moreover have "contents ?b = take (unat off) (contents b) @ drop (unat off + unat n) (contents b)"
      using remove_gap [OF lt len(2)] d sub by (simp add: contents_def)
    ultimately show ?thesis using True by simp
  qed
  then obtain b1 where b1: "(if off + n < buf_size b
       then do {
         b \<leftarrow> buffer_move b (unat off) (unat off + unat n) (unat (buf_size b - off - n));
         Some (b\<lparr>buf_size := buf_size b - n\<rparr>)
       }
       else Some (b\<lparr>buf_size := off\<rparr>)) = Some b1" "buffer_ok b1" "buf_alloc b1 = buf_alloc b"
     "contents b1 = take (unat off) (contents b) @ drop (unat off + unat n) (contents b)" by blast
  then have "contents b1 = [] \<longleftrightarrow> buf_size b1 = 0"
    using length_contents [OF b1(2)] by (metis length_0_conv unat_eq_0)
  with remove_tail [OF assms(1) b1(2)] b1 show ?thesis by (auto simp: buffer_remove_def)
qed



lemma unat_lt2p64: "unat (a :: size_t) < 2 ^ 64"
  using unsigned_less [of a] by simp

section \<open>BUFFER as a sequence\<close>

definition buffer_rep :: "BUFFER \<Rightarrow> byte list \<Rightarrow> bool" where
  "buffer_rep b xs \<longleftrightarrow> buffer_ok b \<and> contents b = xs"

lemma buffer_rep_length: "buffer_rep b xs \<Longrightarrow> length xs = unat (buf_size b)"
  by (auto simp: buffer_rep_def length_contents)

lemma fits_word: "k \<le> buffer_max \<Longrightarrow> unat (of_nat k :: size_t) = k"
  by (rule unat_of_nat_size) (simp add: buffer_max_def)

definition buffer_insert_list :: "allocator \<Rightarrow> BUFFER \<Rightarrow> nat \<Rightarrow> byte list \<Rightarrow> (int \<times> BUFFER) option" where
  "buffer_insert_list mem b i ys = buffer_insert mem b (of_nat i) ys (of_nat (length ys))"

definition buffer_remove_list :: "allocator \<Rightarrow> BUFFER \<Rightarrow> nat \<Rightarrow> nat \<Rightarrow> BUFFER option" where
  "buffer_remove_list mem b i n = buffer_remove mem b (of_nat i) (of_nat n)"

interpretation bytes: sequence allocator_ok buffer_rep "\<lambda>n. n \<le> buffer_max" "\<lambda>ys. True"
    buffer_insert_list buffer_remove_list
proof
  fix m b and xs ys :: "byte list" and i
  assume a: "allocator_ok m" "buffer_rep b xs" "i \<le> length xs" "length xs + length ys \<le> buffer_max"
  then have rep: "buffer_ok b" "contents b = xs" and len: "length xs = unat (buf_size b)"
    by (simp_all add: buffer_rep_def buffer_rep_length [of b xs])
  have i: "unat (of_nat i :: size_t) = i" "unat (of_nat (length ys) :: size_t) = length ys"
    using a(3,4) by (simp_all add: fits_word)
  from a(1) rep(1) show "\<exists>r b'. buffer_insert_list m b i ys = Some (r, b') \<and>
      (r = 0 \<and> buffer_rep b' (take i xs @ ys @ drop i xs) \<or> r = - 1 \<and> b' = b)"
    by (cases rule: buffer_insert_cases [of m b "of_nat i" "of_nat (length ys)" ys])
      (use a i len rep in \<open>auto simp: buffer_insert_list_def buffer_rep_def\<close>)
next
  fix m b and xs :: "byte list" and i n
  assume a: "allocator_ok m" "buffer_rep b xs" "i \<le> length xs" "i + n \<le> buffer_max"
  then have rep: "buffer_ok b" "contents b = xs" and len: "length xs = unat (buf_size b)"
    by (simp_all add: buffer_rep_def buffer_rep_length [of b xs])
  have i: "unat (of_nat i :: size_t) = i" "unat (of_nat n :: size_t) = n"
    using a(4) by (simp_all add: fits_word)
  show "\<exists>b'. buffer_remove_list m b i n = Some b' \<and> buffer_rep b' (take i xs @ drop (i + n) xs)"
    using buffer_remove_effect [OF a(1) rep(1), of "of_nat i" "of_nat n"] a i len rep
    by (auto simp: buffer_remove_list_def buffer_rep_def buffer_max_def)
qed simp

section \<open>Properties of BUFFER\<close>

text \<open>An allocator that always succeeds, with zeros as the fresh bytes.\<close>

definition zero_mem :: allocator where
  "zero_mem n = Some (replicate (unat n) 0)"

lemma zero_mem_ok: "allocator_ok zero_mem"
  by (simp add: allocator_ok_def zero_mem_def)

definition buffer_example :: BUFFER where
  "buffer_example = \<lparr>buf_data = Some [1, 2, 3, 9], buf_size = 3, buf_alloc = 4\<rparr>"

lemma buffer_example_ok: "buffer_ok buffer_example" and contents_example: "contents buffer_example = [1, 2, 3]"
  by (simp_all add: buffer_ok_def contents_def buffer_example_def)

text \<open>
  C20. The size policy terminates for exactly the requests up to \<open>2 ^ 64 - 32\<close> bytes; it grants at least
  the request, at least 16 bytes, and less than twice the request plus 32. For a larger request its
  doubling overflows to zero and the loop never ends.
\<close>

theorem buffer_good_alloc_size_correct:
  "if unat r \<le> 2 ^ 64 - 32
   then \<exists>g. buffer_good_alloc_size r = Some g \<and> unat r \<le> unat g \<and> 16 \<le> unat g \<and> unat g < 2 * unat r + 32
   else buffer_good_alloc_size r = None"
  using good_alloc_size [of r] good_alloc_size_stuck [of r] by (auto simp: not_le)

text \<open>
  C6. \<open>buffer_insert\<close> at any offset inside the contents is memory safe and terminates; it puts exactly
  the given bytes at that place and keeps the rest, or returns \<open>-1\<close> and leaves the buffer as it was.
  It fails only when the block is too small and the allocator refuses the grown size, and when zero
  bytes are inserted into a buffer that holds no block.
\<close>

theorem buffer_insert_correct:
  assumes "allocator_ok mem" and "buffer_ok b" and "unat off \<le> unat (buf_size b)"
    and "unat (buf_size b) + unat n \<le> 2 ^ 64 - 32" and "unat n \<le> length data"
  shows "\<exists>res b'. buffer_insert mem b off data n = Some (res, b') \<and>
    (if res = 0 then buffer_ok b' \<and>
         contents b' = take (unat off) (contents b) @ take (unat n) data @ drop (unat off) (contents b)
     else res = - 1 \<and> b' = b \<and> (n = 0 \<and> buf_data b = None \<or>
         unat (buf_alloc b) < unat (buf_size b) + unat n \<and>
         (\<exists>g. buffer_good_alloc_size (buf_size b + n) = Some g \<and> mem g = None)))"
  using assms(1-3) assms(4) [folded buffer_max_def] assms(5)
  by (cases rule: buffer_insert_cases) auto

lemma buffer_insert_correct_witness:
  "\<exists>res b'. buffer_insert zero_mem buffer_example 1 [7, 8] 2 = Some (res, b') \<and>
    (if res = 0 then buffer_ok b' \<and> contents b' = take (unat (1 :: size_t)) (contents buffer_example) @
         take (unat (2 :: size_t)) [7, 8] @ drop (unat (1 :: size_t)) (contents buffer_example)
     else res = - 1 \<and> b' = buffer_example \<and> ((2 :: size_t) = 0 \<and> buf_data buffer_example = None \<or>
         unat (buf_alloc buffer_example) < unat (buf_size buffer_example) + unat (2 :: size_t) \<and>
         (\<exists>g. buffer_good_alloc_size (buf_size buffer_example + 2) = Some g \<and> zero_mem g = None)))"
  by (rule buffer_insert_correct)
    (simp_all add: zero_mem_ok buffer_example_ok, simp_all add: buffer_example_def)

text \<open>
  C7. \<open>buffer_remove\<close> takes exactly the given range out of the contents (cut at their end), whatever
  becomes of the attempt to give memory back; the block never grows, and a buffer that becomes empty
  holds no block, like one just initialised.
\<close>

theorem buffer_remove_correct:
  assumes "allocator_ok mem" and "buffer_ok b" and "unat off \<le> unat (buf_size b)"
    and "unat off + unat n < 2 ^ 64"
  shows "\<exists>b'. buffer_remove mem b off n = Some b' \<and> buffer_ok b' \<and>
    contents b' = take (unat off) (contents b) @ drop (unat off + unat n) (contents b) \<and>
    (contents b' = [] \<longrightarrow> b' = buffer_init) \<and> buf_alloc b' \<le> buf_alloc b"
  using assms by (rule buffer_remove_effect)

lemma buffer_remove_correct_witness:
  "\<exists>b'. buffer_remove zero_mem buffer_example 1 1 = Some b' \<and> buffer_ok b' \<and>
    contents b' = take (unat (1 :: size_t)) (contents buffer_example) @
      drop (unat (1 :: size_t) + unat (1 :: size_t)) (contents buffer_example) \<and>
    (contents b' = [] \<longrightarrow> b' = buffer_init) \<and> buf_alloc b' \<le> buf_alloc buffer_example"
  by (rule buffer_remove_correct)
    (simp_all add: zero_mem_ok buffer_example_ok, simp_all add: buffer_example_def)



text \<open>
  Sizes are added without a check: when the size and the request together reach \<open>2 ^ 64\<close>,
  \<open>buffer_reserve\<close> reports success without reserving anything, and \<open>buffer_append_raw\<close> reports success
  with a buffer that has become smaller.
\<close>

theorem buffer_overflow_unchecked:
  assumes "buffer_ok b" and "2 ^ 64 \<le> unat (buf_size b) + unat n"
  shows "buffer_reserve mem b n = Some (0, b) \<and>
    (\<exists>b'. buffer_append_raw mem b n = Some (At (buf_size b), b') \<and> buf_data b' = buf_data b \<and>
       unat (buf_size b') < unat (buf_size b))"
proof -
  have "unat (buf_size b + n) = (unat (buf_size b) + unat n) mod 2 ^ 64" by (simp add: unat_word_ariths)
  also have "\<dots> = unat (buf_size b) + unat n - 2 ^ 64"
    using assms(2) unat_lt2p64 [of "buf_size b"] unat_lt2p64 [of n] by (simp add: le_mod_geq)
  also have "\<dots> < unat (buf_size b)"
    using assms(2) unat_lt2p64 [of n] by (simp add: less_diff_conv2)
  finally have lt: "buf_size b + n < buf_size b" by (simp add: word_less_nat_alt)
  have le: "buf_size b \<le> buf_alloc b" using assms(1) by (simp add: buffer_ok_def)
  then have "buf_alloc b \<noteq> 0" using lt by auto
  then obtain d where d: "buf_data b = Some d" "length d = unat (buf_alloc b)"
    using assms(1) by (cases "buf_data b") (auto simp: buffer_ok_def)
  show ?thesis using lt le d
    by (auto simp: buffer_reserve_def buffer_append_raw_def buffer_insert_raw_def buffer_data_at_def
        word_less_nat_alt word_le_nat_alt)
qed

lemma buffer_overflow_unchecked_witness:
  "buffer_reserve zero_mem buffer_example 0xffffffffffffffff = Some (0, buffer_example) \<and>
    (\<exists>b'. buffer_append_raw zero_mem buffer_example 0xffffffffffffffff = Some (At (buf_size buffer_example), b') \<and>
       buf_data b' = buf_data buffer_example \<and> unat (buf_size b') < unat (buf_size buffer_example))"
  by (rule buffer_overflow_unchecked) (rule buffer_example_ok, simp add: buffer_example_def)


end
