(* ===== verification/Buffer_Wrappers.thy ===== *)
theory Buffer_Wrappers
  imports Buffer_Bytes
begin

text \<open>
  The wrappers of \<open>data/buffer.h\<close>: the \<open>STACK\<close> as a stack of words of any mixture of sizes, and the
  \<open>ARRAY_*\<close> types as sequences of words of one size.
\<close>

section \<open>Peeking\<close>

lemma sizeof_pos: "8 dvd LENGTH('w :: len) \<Longrightarrow> 0 < sizeof TYPE('w word)"
  using dvd_imp_le [OF _ len_gt_0, of 8, where ?'a1 = 'w] by (simp add: sizeof_def div_greater_zero_iff)

lemma peek_end:
  assumes "buffer_rep s (xs @ ys)" "length ys = unat n"
  shows "stack_peek s n = Some ys"
proof -
  have len: "unat (buf_size s) = length xs + unat n"
    using buffer_rep_length [OF assms(1)] assms(2) by simp
  then have off: "unat (buf_size s - n) = length xs"
    by (subst unat_sub) (simp_all add: word_le_nat_alt)
  have c: "contents s = xs @ ys" "buffer_ok s" using assms(1) by (simp_all add: buffer_rep_def)
  show ?thesis
  proof (cases "buf_data s")
    case None
    then have "buf_size s = 0" using c(2) by (auto simp: buffer_ok_def word_le_nat_alt unat_eq_0)
    then have "ys = []" "n = 0" using len assms(2) by (simp_all add: unat_eq_0)
    then show ?thesis using None \<open>buf_size s = 0\<close>
      by (simp add: stack_peek_def stack_size_def buffer_size_def buffer_data_at_def buffer_read_def)
  next
    case (Some d)
    have le: "unat (buf_size s) \<le> length d" using c(2) Some by (simp add: buffer_ok_def word_le_nat_alt)
    have "take (length xs + unat n) d = xs @ ys" using c(1) Some len by (simp add: contents_def)
    then have "take (unat n) (drop (length xs) d) = ys"
      using drop_take [of "length xs" "length xs + unat n" d] by simp
    then show ?thesis using Some le len
      by (simp add: stack_peek_def stack_size_def buffer_size_def buffer_data_at_def buffer_read_def off)
  qed
qed

lemma pop_end:
  assumes "allocator_ok mem" "buffer_rep s (xs @ ys)" "length ys = unat n" "unat (buf_size s) \<le> buffer_max"
  shows "\<exists>s'. stack_pop mem s n = Some (ys, s') \<and> buffer_rep s' xs"
proof -
  have len: "unat (buf_size s) = length xs + unat n" using buffer_rep_length [OF assms(2)] assms(3) by simp
  then have off: "buf_size s - n = of_nat (length xs)"
    by (intro word_unat_eq_iff [THEN iffD2])
      (use assms(4) in \<open>simp add: unat_sub word_le_nat_alt fits_word\<close>)
  have "\<exists>s'. buffer_remove_list mem s (length xs) (unat n) = Some s' \<and>
      buffer_rep s' (take (length xs) (xs @ ys) @ drop (length xs + unat n) (xs @ ys))"
    using assms(1,2) by (rule bytes.remove_law) (use assms(4) len in simp_all)
  then show ?thesis using peek_end [OF assms(2,3)] assms(3)
    by (auto simp: stack_pop_def buffer_remove_list_def stack_size_def buffer_size_def off)
qed

section \<open>Arrays of words\<close>

definition array_rep :: "'w :: len word ARRAY \<Rightarrow> 'w word list \<Rightarrow> bool" where
  "array_rep array vs \<longleftrightarrow> 8 dvd LENGTH('w) \<and> buffer_rep (array_buf array) (concat (map le_bytes vs))"

lemma length_words: "length (concat (map le_bytes (vs :: 'w :: len word list))) = length vs * sizeof TYPE('w word)"
  by (induction vs) simp_all

lemma take_words: "take (i * sizeof TYPE('w :: len word)) (concat (map le_bytes (vs :: 'w word list))) =
    concat (map le_bytes (take i vs))"
proof (induction vs arbitrary: i)
  case (Cons v vs)
  then show ?case by (cases i) simp_all
qed simp

lemma drop_words: "drop (i * sizeof TYPE('w :: len word)) (concat (map le_bytes (vs :: 'w word list))) =
    concat (map le_bytes (drop i vs))"
proof (induction vs arbitrary: i)
  case (Cons v vs)
  then show ?case by (cases i) simp_all
qed simp

lemma index_offset:
  "i * k \<le> buffer_max \<Longrightarrow> unat ((of_nat i :: size_t) * of_nat k) = i * k"
  using fits_word [of "i * k"] by simp

lemma array_block:
  assumes "array_rep array vs" "vs \<noteq> []"
  shows "\<exists>d. buf_data (array_buf array) = Some d \<and>
    take (length vs * sizeof TYPE('w :: len word)) d = concat (map le_bytes (vs :: 'w word list)) \<and>
    length vs * sizeof TYPE('w word) \<le> length d"
proof -
  have rep: "buffer_rep (array_buf array) (concat (map le_bytes vs))" and w: "0 < sizeof TYPE('w word)"
    using assms(1) sizeof_pos by (auto simp: array_rep_def)
  have len: "unat (buf_size (array_buf array)) = length vs * sizeof TYPE('w word)"
    using buffer_rep_length [OF rep] length_words [of vs] by simp
  then have "buf_size (array_buf array) \<noteq> 0" using assms(2) w by auto
  then obtain d where "buf_data (array_buf array) = Some d"
    using rep by (cases "buf_data (array_buf array)") (auto simp: buffer_rep_def buffer_ok_def)
  with rep len show ?thesis by (auto simp: buffer_rep_def buffer_ok_def contents_def word_le_nat_alt)
qed

lemma array_get_rep:
  fixes vs :: "'w :: len word list"
  assumes "array_rep array vs" "unat i < length vs"
  shows "array_get array i = Some (vs ! unat i)"
proof -
  let ?w = "sizeof TYPE('w word)"
  obtain d where d: "buf_data (array_buf array) = Some d"
    "take (length vs * ?w) d = concat (map le_bytes vs)" "length vs * ?w \<le> length d"
    using array_block [OF assms(1)] assms(2) by fastforce
  have le: "unat i * ?w + ?w \<le> length vs * ?w"
    using assms(2) by (metis Suc_leI add.commute mult_Suc mult_le_mono1)
  have "take ?w (drop (unat i * ?w) d) = take ?w (drop (unat i * ?w) (take (length vs * ?w) d))"
    using le by (simp add: drop_take min_def)
  also have "\<dots> = take ?w (concat (map le_bytes (drop (unat i) vs)))" by (simp only: d(2) drop_words)
  also have "\<dots> = le_bytes (vs ! unat i)" using assms(2) by (simp add: Cons_nth_drop_Suc [symmetric])
  finally show ?thesis using d le assms(1)
    by (simp add: array_get_def array_data_def buffer_data_def Let_def le_word_bytes array_rep_def)
qed

lemma take_overwrite:
  "q + length l \<le> p \<Longrightarrow> p \<le> length d \<Longrightarrow>
     take p (take q d @ l @ drop (q + length l) d) = take q (take p d) @ l @ drop (q + length l) (take p d)"
proof -
  assume "q + length l \<le> p" and "p \<le> length d"
  moreover then obtain r where "p = q + length l + r" using le_Suc_ex by blast
  moreover have "length (take q d) = q" using calculation by simp
  ultimately show ?thesis by (simp add: drop_take min_def del: length_take)
qed

lemma array_set_rep:
  fixes vs :: "'w :: len word list"
  assumes "array_rep array vs" "unat i < length vs"
  shows "\<exists>array'. array_set array i v = Some array' \<and> array_rep array' (vs[unat i := v])"
proof -
  let ?w = "sizeof TYPE('w word)" and ?i = "unat i"
  obtain d where d: "buf_data (array_buf array) = Some d"
    "take (length vs * ?w) d = concat (map le_bytes vs)" "length vs * ?w \<le> length d"
    using array_block [OF assms(1)] assms(2) by fastforce
  have rep: "buffer_ok (array_buf array)" "unat (buf_size (array_buf array)) = length vs * ?w"
    using assms(1) buffer_rep_length [of "array_buf array"] length_words [of vs]
    by (auto simp: array_rep_def buffer_rep_def)
  have le: "?i * ?w + ?w \<le> length vs * ?w"
    using assms(2) by (metis Suc_leI add.commute mult_Suc mult_le_mono1)
  let ?d = "take (?i * ?w) d @ le_bytes v @ drop (?i * ?w + ?w) d"
  have run: "array_set array i v = Some (ARRAY ((array_buf array)\<lparr>buf_data := Some ?d\<rparr>))"
    using d le by (simp add: array_set_def array_data_def buffer_data_def mem_simps)
  have "take (length vs * ?w) ?d = take (?i * ?w) (take (length vs * ?w) d) @ le_bytes v @
      drop (Suc ?i * ?w) (take (length vs * ?w) d)"
    using take_overwrite [of "?i * ?w" "le_bytes v" "length vs * ?w" d] le d(3) by (simp add: add.commute)
  also have "\<dots> = concat (map le_bytes (vs[?i := v]))"
    using assms(2) by (simp only: d(2) take_words drop_words) (simp add: upd_conv_take_nth_drop)
  finally have "take (length vs * ?w) ?d = concat (map le_bytes (vs[?i := v]))" .
  moreover have "length ?d = length d" using le d(3) by simp
  ultimately show ?thesis using run rep d assms(1)
    by (auto simp: array_rep_def buffer_rep_def buffer_ok_def contents_def)
qed


lemma array_size_rep:
  fixes vs :: "'w :: len word list"
  assumes "array_rep array vs"
  shows "unat (array_size array) = length vs"
proof -
  let ?w = "sizeof TYPE('w word)"
  have w: "0 < ?w" using assms sizeof_pos by (auto simp: array_rep_def)
  have len: "unat (buf_size (array_buf array)) = length vs * ?w"
    using assms buffer_rep_length [of "array_buf array"] length_words [of vs] by (auto simp: array_rep_def)
  show ?thesis
  proof (cases "vs = []")
    case True
    then show ?thesis using len by (simp add: array_size_def buffer_size_def unat_div)
  next
    case False
    then have "1 * ?w \<le> length vs * ?w" by (intro mult_le_mono1) (simp add: Suc_le_eq)
    then have "?w < 2 ^ 64" using len unat_lt2p64 [of "buf_size (array_buf array)"] by linarith
    then show ?thesis using len w by (simp add: array_size_def buffer_size_def unat_div)
  qed
qed

text \<open>Inserting one word, and removing several: the contract once more, one level up.\<close>

definition array_fits :: "'w :: len itself \<Rightarrow> nat \<Rightarrow> bool" where
  "array_fits _ n \<longleftrightarrow> n * sizeof TYPE('w word) \<le> buffer_max"

definition array_insert_list ::
    "allocator \<Rightarrow> 'w :: len word ARRAY \<Rightarrow> nat \<Rightarrow> 'w word list \<Rightarrow> (int \<times> 'w word ARRAY) option" where
  "array_insert_list mem array i ys = array_insert mem array (of_nat i) (hd ys)"

definition array_remove_list :: "allocator \<Rightarrow> 'w :: len word ARRAY \<Rightarrow> nat \<Rightarrow> nat \<Rightarrow> 'w word ARRAY option" where
  "array_remove_list mem array i n = array_remove_n mem array (of_nat i) (of_nat n)"

lemma array_insert_rep:
  fixes vs :: "'w :: len word list"
  assumes "allocator_ok mem" "array_rep array vs" "i \<le> length vs" "array_fits TYPE('w) (length vs + 1)"
  shows "\<exists>r array'. array_insert mem array (of_nat i) v = Some (r, array') \<and>
    (r = 0 \<and> array_rep array' (take i vs @ [v] @ drop i vs) \<or> r = - 1 \<and> array' = array)"
proof -
  let ?w = "sizeof TYPE('w word)" and ?b = "array_buf array"
  have rep: "buffer_ok ?b" "contents ?b = concat (map le_bytes vs)" "8 dvd LENGTH('w)"
    using assms(2) by (simp_all add: array_rep_def buffer_rep_def)
  have len: "unat (buf_size ?b) = length vs * ?w"
    using length_contents [OF rep(1)] length_words [of vs] rep(2) by simp
  have w: "0 < ?w" using rep(3) sizeof_pos by blast
  have fit: "length vs * ?w + ?w \<le> buffer_max" using assms(4) by (simp add: array_fits_def add.commute)
  then have wn: "unat (of_nat ?w :: size_t) = ?w" by (intro fits_word) simp
  have i: "i * ?w \<le> length vs * ?w" using assms(3) by simp
  then have off: "unat ((of_nat i :: size_t) * of_nat ?w) = i * ?w" using fit by (intro index_offset) linarith
  have t: "take (i * ?w) (contents ?b) = concat (map le_bytes (take i vs))"
    "drop (i * ?w) (contents ?b) = concat (map le_bytes (drop i vs))"
    by (simp_all add: rep(2) take_words drop_words)
  have "unat ((of_nat i :: size_t) * of_nat ?w) \<le> unat (buf_size ?b)"
    "unat (buf_size ?b) + unat (of_nat ?w :: size_t) \<le> buffer_max"
    using off len i wn fit by simp_all
  with assms(1) rep(1) show ?thesis
  proof (cases rule: insert_raw_cases)
    case (ok b' js)
    have "length (take (i * ?w) (contents ?b)) = unat ((of_nat i :: size_t) * of_nat ?w)"
      using off len i length_contents [OF rep(1)] by simp
    then obtain b2 where b2: "buffer_write b' (At (of_nat i * of_nat ?w)) (le_bytes v) = Some b2" "buffer_ok b2"
      "contents b2 = take (i * ?w) (contents ?b) @ le_bytes v @ drop (i * ?w) (contents ?b)"
      using write_gap [OF ok(2,4) ok(6) [unfolded off], of "of_nat i * of_nat ?w" "le_bytes v"] ok(5) wn by auto
    have "array_insert mem array (of_nat i) v = Some (0, ARRAY b2)"
      using ok(1) b2(1) by (simp add: array_insert_def Let_def)
    moreover have "array_rep (ARRAY b2 :: 'w word ARRAY) (take i vs @ [v] @ drop i vs)"
      using b2 rep(3) by (simp add: array_rep_def buffer_rep_def t)
    ultimately show ?thesis by blast
  next
    case (fail g)
    then show ?thesis by (simp add: array_insert_def Let_def)
  next
    case nothing
    then have "?w = 0" using wn by simp
    then show ?thesis using w by simp
  qed
qed

lemma array_remove_rep:
  fixes vs :: "'w :: len word list"
  assumes "allocator_ok mem" "array_rep array vs" "i \<le> length vs" "array_fits TYPE('w) (i + n)"
  shows "\<exists>array'. array_remove_n mem array (of_nat i) (of_nat n) = Some array' \<and>
    array_rep array' (take i vs @ drop (i + n) vs)"
proof -
  let ?w = "sizeof TYPE('w word)" and ?b = "array_buf array"
  have rep: "buffer_ok ?b" "contents ?b = concat (map le_bytes vs)" "8 dvd LENGTH('w)"
    using assms(2) by (simp_all add: array_rep_def buffer_rep_def)
  have len: "unat (buf_size ?b) = length vs * ?w"
    using length_contents [OF rep(1)] length_words [of vs] rep(2) by simp
  have fit: "i * ?w + n * ?w \<le> buffer_max" using assms(4) by (simp add: array_fits_def distrib_right)
  then have off: "unat ((of_nat i :: size_t) * of_nat ?w) = i * ?w" "unat ((of_nat n :: size_t) * of_nat ?w) = n * ?w"
    by (intro index_offset; simp)+
  have "unat ((of_nat i :: size_t) * of_nat ?w) \<le> unat (buf_size ?b)" using off(1) len assms(3) by simp
  moreover have "unat ((of_nat i :: size_t) * of_nat ?w) + unat ((of_nat n :: size_t) * of_nat ?w) < 2 ^ 64"
    using off fit by (simp add: buffer_max_def)
  ultimately obtain b' where b': "buffer_remove mem ?b (of_nat i * of_nat ?w) (of_nat n * of_nat ?w) = Some b'"
    "buffer_ok b'" "contents b' = take (i * ?w) (contents ?b) @ drop ((i + n) * ?w) (contents ?b)"
    using buffer_remove_effect [OF assms(1) rep(1), of "of_nat i * of_nat ?w" "of_nat n * of_nat ?w"] off
    by (auto simp: distrib_right)
  have "contents b' = concat (map le_bytes (take i vs @ drop (i + n) vs))"
    unfolding b'(3) rep(2) take_words drop_words by simp
  with b' rep(3) show ?thesis by (simp add: array_remove_n_def Let_def array_rep_def buffer_rep_def)
qed

interpretation words: sequence allocator_ok array_rep "array_fits TYPE('w :: len)" "\<lambda>ys. length ys = 1"
    array_insert_list "array_remove_list :: allocator \<Rightarrow> 'w word ARRAY \<Rightarrow> nat \<Rightarrow> nat \<Rightarrow> 'w word ARRAY option"
proof
  fix m and b :: "'w word ARRAY" and xs ys :: "'w word list" and i n k
  show "allocator_ok m \<Longrightarrow> array_rep b xs \<Longrightarrow> i \<le> length xs \<Longrightarrow> array_fits TYPE('w) (i + n) \<Longrightarrow>
      \<exists>b'. array_remove_list m b i n = Some b' \<and> array_rep b' (take i xs @ drop (i + n) xs)"
    unfolding array_remove_list_def by (rule array_remove_rep)
  show "array_fits TYPE('w) k" if "array_fits TYPE('w) n" "k \<le> n"
    using that by (auto simp: array_fits_def intro: order_trans [OF mult_le_mono1])
  show "\<exists>r b'. array_insert_list m b i ys = Some (r, b') \<and>
      (r = 0 \<and> array_rep b' (take i xs @ ys @ drop i xs) \<or> r = - 1 \<and> b' = b)"
    if "allocator_ok m" "array_rep b xs" "i \<le> length xs" "length ys = 1" "array_fits TYPE('w) (length xs + length ys)"
    using array_insert_rep [OF that(1-3), of "hd ys"] that(4,5)
    by (cases ys) (simp_all add: array_insert_list_def)
qed


section \<open>Properties\<close>

text \<open>
  Stacks are last in, first out, for words of every size in any mixture: a push reports success, and
  then the top of the stack is the word just pushed and popping it restores the contents below; or it
  reports \<open>-1\<close> and changes nothing. Neither touches memory outside the block, even when the pop makes
  the block smaller.
\<close>

theorem stack_push_pop:
  fixes w :: "'w :: len word"
  assumes "8 dvd LENGTH('w)" and "allocator_ok mem" and "allocator_ok mem'" and "buffer_ok s"
    and "unat (buf_size s) + sizeof TYPE('w word) \<le> 2 ^ 64 - 32"
  shows "\<exists>res s1. stack_push_word mem s w = Some (res, s1) \<and> buffer_ok s1 \<and>
    (if res = 0 then contents s1 = contents s @ le_bytes w \<and>
         stack_peek_word s1 = Some w \<and>
         (\<exists>s2. stack_pop_word mem' s1 = Some (w, s2) \<and> buffer_ok s2 \<and> contents s2 = contents s)
     else res = - 1 \<and> s1 = s)"
proof -
  let ?n = "of_nat (sizeof TYPE('w word)) :: size_t"
  have fit: "unat (buf_size s) + sizeof TYPE('w word) \<le> buffer_max" using assms(5) by (simp add: buffer_max_def)
  then have n: "unat ?n = sizeof TYPE('w word)" by (intro fits_word) simp
  have c: "length (contents s) = unat (buf_size s)" by (rule length_contents [OF assms(4)])
  have "buffer_rep s (contents s)" using assms(4) by (simp add: buffer_rep_def)
  moreover have "stack_push_word mem s w = buffer_insert_list mem s (length (contents s)) (le_bytes w)"
    by (simp add: stack_push_word_def stack_push_def buffer_append_def buffer_insert_list_def c)
  ultimately obtain res s1 where s1: "stack_push_word mem s w = Some (res, s1)"
    "res = 0 \<and> buffer_rep s1 (contents s @ le_bytes w) \<or> res = - 1 \<and> s1 = s"
    using bytes.insert_law [OF assms(2), of s "contents s" "length (contents s)" "le_bytes w"] c fit by auto
  show ?thesis
  proof (cases "res = 0")
    case False
    then show ?thesis using s1 assms(4) by auto
  next
    case True
    then have rep: "buffer_rep s1 (contents s @ le_bytes w)" using s1(2) by simp
    then have "unat (buf_size s1) \<le> buffer_max" using buffer_rep_length [OF rep] c fit by simp
    then obtain s2 where "stack_pop mem' s1 ?n = Some (le_bytes w, s2)" "buffer_rep s2 (contents s)"
      using pop_end [OF assms(3) rep, of ?n] n by auto
    moreover have "stack_peek s1 ?n = Some (le_bytes w)" using peek_end [OF rep] n by simp
    ultimately show ?thesis using True s1(1) rep assms(1)
      by (simp add: stack_pop_word_def stack_peek_word_def le_word_bytes buffer_rep_def)
  qed
qed

lemma stack_push_pop_witness:
  "\<exists>res s1. stack_push_word zero_mem buffer_example (0xabcd :: 16 word) = Some (res, s1) \<and> buffer_ok s1 \<and>
    (if res = 0 then contents s1 = contents buffer_example @ le_bytes (0xabcd :: 16 word) \<and>
         stack_peek_word s1 = Some (0xabcd :: 16 word) \<and>
         (\<exists>s2. stack_pop_word zero_mem s1 = Some (0xabcd :: 16 word, s2) \<and> buffer_ok s2 \<and>
           contents s2 = contents buffer_example)
     else res = - 1 \<and> s1 = buffer_example)"
  by (rule stack_push_pop) (simp_all add: zero_mem_ok buffer_example_ok, simp add: buffer_example_def)

text \<open>
  An array reads and writes like a list of words: its size is the number of the elements, reading
  an index below it gives the element there, and writing one changes that element and no other.
\<close>

theorem array_access_correct:
  fixes vs :: "'w :: len word list"
  assumes "array_rep array vs"
  shows "unat (array_size array) = length vs \<and>
    (unat i < length vs \<longrightarrow> array_get array i = Some (vs ! unat i) \<and>
       (\<exists>array'. array_set array i v = Some array' \<and> array_rep array' (vs[unat i := v])))"
  using array_size_rep [OF assms] array_get_rep [OF assms, of i] array_set_rep [OF assms, of i v] by simp

lemma le_bytes_16: "le_bytes (w :: 16 word) = [ucast w, ucast (drop_bit 8 w)]"
proof -
  have "[0..<2] = [0, 1 :: nat]" by (simp add: upt_conv_Cons)
  then show ?thesis by (simp add: le_bytes_def)
qed

lemma array_example_rep: "array_rep (ARRAY \<lparr>buf_data = Some [1, 2, 3, 4, 9, 9], buf_size = 4, buf_alloc = 6\<rparr>)
    [0x0201, 0x0403 :: 16 word]"
  by (simp add: le_bytes_16 array_rep_def buffer_rep_def buffer_ok_def contents_def)

lemma array_access_correct_witness:
  "let a = ARRAY \<lparr>buf_data = Some [1, 2, 3, 4, 9, 9], buf_size = 4, buf_alloc = 6\<rparr>;
       vs = [0x0201, 0x0403 :: 16 word] in
   unat (array_size a) = length vs \<and>
    (unat (1 :: size_t) < length vs \<longrightarrow> array_get a 1 = Some (vs ! unat (1 :: size_t)) \<and>
       (\<exists>a'. array_set a 1 7 = Some a' \<and> array_rep a' (vs[unat (1 :: size_t) := 7])))"
  unfolding Let_def by (rule array_access_correct) (rule array_example_rep)



end
