(* ===== verification/Container.thy ===== *)
theory Container
  imports CRE_Prelude
begin

text \<open>
  The contract that the two intrusive containers of nodes with unique keys share (\<open>data/rbtree.h\<close> and
  \<open>data/htable.h\<close>), and what follows from it for their users.
\<close>

section \<open>The contract\<close>

text \<open>
  A user's requests: put a node in, take the node with the key of another out, get that node; and what
  the answers are in terms of the set of nodes inside.
\<close>

datatype request = Put addr | Take addr | Get addr

definition find_in :: "(addr \<Rightarrow> addr \<Rightarrow> bool) \<Rightarrow> addr set \<Rightarrow> addr \<Rightarrow> addr" where
  "find_in eq X k = (if {x \<in> X. eq k x} = {} then NULL else the_elem {x \<in> X. eq k x})"

fun spec_step :: "(addr \<Rightarrow> addr \<Rightarrow> bool) \<Rightarrow> addr set \<Rightarrow> request \<Rightarrow> (int + addr) \<times> addr set" where
  "spec_step eq X (Put x) = (if \<exists>y \<in> X. eq x y then (Inl (- 1), X) else (Inl 0, insert x X))"
| "spec_step eq X (Take k) = (Inr (find_in eq X k), X - {find_in eq X k})"
| "spec_step eq X (Get k) = (Inr (find_in eq X k), X)"

fun spec_run :: "(addr \<Rightarrow> addr \<Rightarrow> bool) \<Rightarrow> addr set \<Rightarrow> request list \<Rightarrow> (int + addr) list \<times> addr set" where
  "spec_run eq X [] = ([], X)"
| "spec_run eq X (q # qs) =
     (let (a, X) = spec_step eq X q; (as, X) = spec_run eq X qs in (a # as, X))"

text \<open>Requests that respect the headers: a node is put in only while it is outside and there is room.\<close>

fun requests_ok :: "(addr \<Rightarrow> addr \<Rightarrow> bool) \<Rightarrow> nat \<Rightarrow> addr set \<Rightarrow> addr set \<Rightarrow> request list \<Rightarrow> bool" where
  "requests_ok eq room avail X [] = True"
| "requests_ok eq room avail X (q # qs) =
     ((case q of Put x \<Rightarrow> x \<in> avail \<and> x \<notin> X \<and> card X < room | _ \<Rightarrow> True) \<and>
      requests_ok eq room avail (snd (spec_step eq X q)) qs)"

fun serve ::
    "('s \<Rightarrow> addr \<Rightarrow> (int \<times> 's) option) \<Rightarrow> ('s \<Rightarrow> addr \<Rightarrow> (addr \<times> 's) option) \<Rightarrow> ('s \<Rightarrow> addr \<Rightarrow> addr option)
      \<Rightarrow> 's \<Rightarrow> request list \<Rightarrow> ((int + addr) list \<times> 's) option" where
  "serve put_op take_op get_op s [] = Some ([], s)"
| "serve put_op take_op get_op s (Put x # qs) = do {
     (r, s) \<leftarrow> put_op s x; (as, s) \<leftarrow> serve put_op take_op get_op s qs; Some (Inl r # as, s) }"
| "serve put_op take_op get_op s (Take k # qs) = do {
     (x, s) \<leftarrow> take_op s k; (as, s) \<leftarrow> serve put_op take_op get_op s qs; Some (Inr x # as, s) }"
| "serve put_op take_op get_op s (Get k # qs) = do {
     x \<leftarrow> get_op s k; (as, s) \<leftarrow> serve put_op take_op get_op s qs; Some (Inr x # as, s) }"

locale intrusive_set =
  fixes eq :: "addr \<Rightarrow> addr \<Rightarrow> bool"
    and inv :: "'s \<Rightarrow> addr set \<Rightarrow> bool"
    and node_at :: "'s \<Rightarrow> addr \<Rightarrow> bool"
    and room :: nat
    and put :: "'s \<Rightarrow> addr \<Rightarrow> (int \<times> 's) option"
    and take_op :: "'s \<Rightarrow> addr \<Rightarrow> (addr \<times> 's) option"
    and get :: "'s \<Rightarrow> addr \<Rightarrow> addr option"
  assumes inside: "inv s X \<Longrightarrow> NULL \<notin> X"
    and unique: "inv s X \<Longrightarrow> x \<in> X \<Longrightarrow> y \<in> X \<Longrightarrow> eq k x \<Longrightarrow> eq k y \<Longrightarrow> x = y"
    and put_law: "inv s X \<Longrightarrow> node_at s x \<Longrightarrow> x \<notin> X \<Longrightarrow> card X < room \<Longrightarrow>
      if \<exists>y \<in> X. eq x y then put s x = Some (- 1, s)
      else \<exists>s'. put s x = Some (0, s') \<and> inv s' (insert x X) \<and> (\<forall>y. node_at s y \<longrightarrow> node_at s' y)"
    and take_law: "inv s X \<Longrightarrow> if \<exists>y \<in> X. eq k y
      then \<exists>x s'. x \<in> X \<and> eq k x \<and> take_op s k = Some (x, s') \<and> inv s' (X - {x}) \<and> (\<forall>y. node_at s y \<longrightarrow> node_at s' y)
      else take_op s k = Some (NULL, s)"
    and get_law: "inv s X \<Longrightarrow> if \<exists>y \<in> X. eq k y then \<exists>x. x \<in> X \<and> eq k x \<and> get s k = Some x
      else get s k = Some NULL"
begin

lemma find_in_one: "inv s X \<Longrightarrow> x \<in> X \<Longrightarrow> eq k x \<Longrightarrow> find_in eq X k = x"
proof -
  assume a: "inv s X" "x \<in> X" "eq k x"
  then have "{y \<in> X. eq k y} = {x}" using unique [OF a(1)] by blast
  then show ?thesis by (simp add: find_in_def)
qed

lemma find_in_none: "\<not> (\<exists>y \<in> X. eq k y) \<Longrightarrow> find_in eq X k = NULL"
  by (auto simp: find_in_def)

lemma get_is_find: "inv s X \<Longrightarrow> get s k = Some (find_in eq X k)"
  using get_law [of s X k] find_in_one [of s X _ k] find_in_none [of X k] by (auto split: if_splits)

lemma take_is_find: "inv s X \<Longrightarrow> \<exists>s'. take_op s k = Some (find_in eq X k, s') \<and> inv s' (X - {find_in eq X k}) \<and>
    (\<forall>y. node_at s y \<longrightarrow> node_at s' y)"
  using take_law [of s X k] find_in_one [of s X _ k] find_in_none [of X k] inside [of s X]
  by (auto split: if_splits)

lemma serve_is_spec:
  "inv s X \<Longrightarrow> \<forall>x \<in> avail. node_at s x \<Longrightarrow> requests_ok eq room avail X qs \<Longrightarrow>
   \<exists>s'. serve put take_op get s qs = Some (fst (spec_run eq X qs), s') \<and> inv s' (snd (spec_run eq X qs))"
proof (induction qs arbitrary: s X)
  case (Cons q qs)
  show ?case
  proof (cases q)
    case (Put x)
    have law: "if \<exists>y \<in> X. eq x y then put s x = Some (- 1, s)
        else \<exists>s'. put s x = Some (0, s') \<and> inv s' (insert x X) \<and> (\<forall>y. node_at s y \<longrightarrow> node_at s' y)"
      using Cons.prems Put by (intro put_law) auto
    show ?thesis
    proof (cases "\<exists>y \<in> X. eq x y")
      case True
      then show ?thesis using Cons.IH [of s X] Cons.prems Put law by (auto simp: Let_def split_beta)
    next
      case False
      then obtain s' where "put s x = Some (0, s')" "inv s' (insert x X)" "\<forall>y. node_at s y \<longrightarrow> node_at s' y"
        using law by auto
      then show ?thesis using Cons.IH [of s' "insert x X"] Cons.prems Put False
        by (auto simp: Let_def split_beta)
    qed
  next
    case (Take k)
    obtain s' where "take_op s k = Some (find_in eq X k, s')" "inv s' (X - {find_in eq X k})"
      "\<forall>y. node_at s y \<longrightarrow> node_at s' y"
      using take_is_find [OF Cons.prems(1)] by blast
    then show ?thesis using Cons.IH [of s' "X - {find_in eq X k}"] Cons.prems Take
      by (auto simp: Let_def split_beta)
  next
    case (Get k)
    then show ?thesis using Cons.IH [of s X] Cons.prems get_is_find [OF Cons.prems(1), of k]
      by (auto simp: Let_def split_beta)
  qed
qed simp

end

end
