(* ===== verification/Rbtree_Code.thy ===== *)
theory Rbtree_Code
  imports CRE_Prelude
begin

text \<open>
  \<open>data/rbtree.c\<close>, \<open>data/rbtree.h\<close>: the intrusive red-black tree, operation by operation. The
  state is the memory of the nodes and the root pointer of the tree; a node keeps its colour in
  the lowest bit of its left pointer, as in the code. The properties are in the theories that
  import this one.
\<close>

section \<open>Nodes and the tree\<close>

record RBTREE_NODE =
  node_lc :: addr
  node_r :: addr

record RBTREE =
  nodes :: "addr \<rightharpoonup> RBTREE_NODE"
  root :: addr

type_synonym RBTREE_CMP_FUNC = "addr \<Rightarrow> addr \<Rightarrow> int"

text \<open>
  \<open>RBTREE_CURSOR\<close> (also named \<open>RBTREE_PATH\<close>): the used part of its stack, the last pushed node
  first. The stack has \<open>2 * 8 * sizeof(void*)\<close> entries; a push beyond them is undefined.
\<close>

type_synonym RBTREE_CURSOR = "addr list"

definition path_capacity :: nat where
  "path_capacity = 2 * 8 * 8"

definition path_push :: "RBTREE_CURSOR \<Rightarrow> addr \<Rightarrow> RBTREE_CURSOR option" where
  "path_push path p = (if length path < path_capacity then Some (p # path) else None)"

text \<open>\<open>path->stack[path->n - k]\<close>, read and written.\<close>

definition path_top :: "RBTREE_CURSOR \<Rightarrow> nat \<Rightarrow> addr option" where
  "path_top path k = (if k = 0 then None else peek path (k - 1))"

definition path_set_top :: "RBTREE_CURSOR \<Rightarrow> nat \<Rightarrow> addr \<Rightarrow> RBTREE_CURSOR option" where
  "path_set_top path k p = (if k = 0 then None else poke path (k - 1) p)"

text \<open>\<open>path->stack[i]\<close>, read and written.\<close>

definition path_at :: "RBTREE_CURSOR \<Rightarrow> nat \<Rightarrow> addr option" where
  "path_at path i = (if i < length path then Some (path ! (length path - 1 - i)) else None)"

definition path_set_at :: "RBTREE_CURSOR \<Rightarrow> nat \<Rightarrow> addr \<Rightarrow> RBTREE_CURSOR option" where
  "path_set_at path i p =
     (if i < length path then Some (path[length path - 1 - i := p]) else None)"

section \<open>The accessor macros\<close>

definition RED_FLAG :: addr where "RED_FLAG = 1"

definition COLOR :: "RBTREE \<Rightarrow> addr \<Rightarrow> addr option" where
  "COLOR S p = do { x \<leftarrow> load (nodes S) p; Some (node_lc x AND RED_FLAG) }"

definition IS_RED :: "RBTREE \<Rightarrow> addr \<Rightarrow> bool option" where
  "IS_RED S p = do { c \<leftarrow> COLOR S p; Some (c = RED_FLAG) }"

definition IS_BLACK :: "RBTREE \<Rightarrow> addr \<Rightarrow> bool option" where
  "IS_BLACK S p = do { c \<leftarrow> COLOR S p; Some (c \<noteq> RED_FLAG) }"

definition update_node :: "RBTREE \<Rightarrow> addr \<Rightarrow> (RBTREE_NODE \<Rightarrow> RBTREE_NODE) \<Rightarrow> RBTREE option" where
  "update_node S p f = do { h \<leftarrow> modify (nodes S) p f; Some (S\<lparr>nodes := h\<rparr>) }"

definition MAKE_RED :: "RBTREE \<Rightarrow> addr \<Rightarrow> RBTREE option" where
  "MAKE_RED S p = update_node S p (\<lambda>x. x\<lparr>node_lc := node_lc x OR RED_FLAG\<rparr>)"

definition MAKE_BLACK :: "RBTREE \<Rightarrow> addr \<Rightarrow> RBTREE option" where
  "MAKE_BLACK S p = update_node S p (\<lambda>x. x\<lparr>node_lc := node_lc x AND NOT RED_FLAG\<rparr>)"

definition TOGGLE_COLOR :: "RBTREE \<Rightarrow> addr \<Rightarrow> RBTREE option" where
  "TOGGLE_COLOR S p = update_node S p (\<lambda>x. x\<lparr>node_lc := node_lc x XOR RED_FLAG\<rparr>)"

definition LEFT :: "RBTREE \<Rightarrow> addr \<Rightarrow> addr option" where
  "LEFT S p = do { x \<leftarrow> load (nodes S) p; Some (node_lc x AND NOT RED_FLAG) }"

definition RIGHT :: "RBTREE \<Rightarrow> addr \<Rightarrow> addr option" where
  "RIGHT S p = do { x \<leftarrow> load (nodes S) p; Some (node_r x) }"

definition SET_LEFT :: "RBTREE \<Rightarrow> addr \<Rightarrow> addr \<Rightarrow> RBTREE option" where
  "SET_LEFT S p q = update_node S p (\<lambda>x. x\<lparr>node_lc := q OR (node_lc x AND RED_FLAG)\<rparr>)"

definition SET_RIGHT :: "RBTREE \<Rightarrow> addr \<Rightarrow> addr \<Rightarrow> RBTREE option" where
  "SET_RIGHT S p q = update_node S p (\<lambda>x. x\<lparr>node_r := q\<rparr>)"

text \<open>\<open>p != NULL && IS_RED(p)\<close>, and \<open>p == NULL || IS_BLACK(p)\<close>.\<close>

definition red_node :: "RBTREE \<Rightarrow> addr \<Rightarrow> bool option" where
  "red_node S p = (if p \<noteq> NULL then IS_RED S p else Some False)"

definition black_node :: "RBTREE \<Rightarrow> addr \<Rightarrow> bool option" where
  "black_node S p = (if p = NULL then Some True else IS_BLACK S p)"

section \<open>Rotations and paths\<close>

definition rbtree_init :: "RBTREE \<Rightarrow> RBTREE" where
  "rbtree_init S = S\<lparr>root := NULL\<rparr>"

definition rbtree_is_empty :: "RBTREE \<Rightarrow> bool" where
  "rbtree_is_empty S = (root S = NULL)"

definition rbtree_rotate_left :: "RBTREE \<Rightarrow> addr \<Rightarrow> addr \<Rightarrow> RBTREE option" where
  "rbtree_rotate_left S parent node = do {
     tmp \<leftarrow> RIGHT S node;
     l \<leftarrow> LEFT S tmp;
     S \<leftarrow> SET_RIGHT S node l;
     S \<leftarrow> SET_LEFT S tmp node;
     if parent \<noteq> NULL then do {
       pl \<leftarrow> LEFT S parent;
       if node = pl then SET_LEFT S parent tmp
       else do {
         pr \<leftarrow> RIGHT S parent;
         if node = pr then SET_RIGHT S parent tmp else Some S
       }
     }
     else Some (S\<lparr>root := tmp\<rparr>)
   }"

definition rbtree_rotate_right :: "RBTREE \<Rightarrow> addr \<Rightarrow> addr \<Rightarrow> RBTREE option" where
  "rbtree_rotate_right S parent node = do {
     tmp \<leftarrow> LEFT S node;
     r \<leftarrow> RIGHT S tmp;
     S \<leftarrow> SET_LEFT S node r;
     S \<leftarrow> SET_RIGHT S tmp node;
     if parent \<noteq> NULL then do {
       pr \<leftarrow> RIGHT S parent;
       if node = pr then SET_RIGHT S parent tmp
       else do {
         pl \<leftarrow> LEFT S parent;
         if node = pl then SET_LEFT S parent tmp else Some S
       }
     }
     else Some (S\<lparr>root := tmp\<rparr>)
   }"

partial_function (option) rbtree_leftmost_path ::
  "RBTREE \<Rightarrow> addr \<Rightarrow> RBTREE_CURSOR \<Rightarrow> RBTREE_CURSOR option" where
  "rbtree_leftmost_path S node path =
     (if node \<noteq> NULL then do {
        path \<leftarrow> path_push path node;
        node \<leftarrow> LEFT S node;
        rbtree_leftmost_path S node path
      }
      else Some path)"

partial_function (option) rbtree_rightmost_path ::
  "RBTREE \<Rightarrow> addr \<Rightarrow> RBTREE_CURSOR \<Rightarrow> RBTREE_CURSOR option" where
  "rbtree_rightmost_path S node path =
     (if node \<noteq> NULL then do {
        path \<leftarrow> path_push path node;
        node \<leftarrow> RIGHT S node;
        rbtree_rightmost_path S node path
      }
      else Some path)"

text \<open>
  The cleaning step. The pointer \<open>pointer_down_to_node\<close> is the address of the parent's left
  link, or NULL here for that of the root.
\<close>

partial_function (option) rbtree_fini_descend :: "RBTREE \<Rightarrow> addr \<Rightarrow> addr \<Rightarrow> (addr \<times> addr) option" where
  "rbtree_fini_descend S down node = do {
     l \<leftarrow> LEFT S node;
     if l \<noteq> NULL then rbtree_fini_descend S node l else Some (down, node)
   }"

definition rbtree_fini_step :: "RBTREE \<Rightarrow> (addr \<times> RBTREE) option" where
  "rbtree_fini_step S =
     (if root S \<noteq> NULL then do {
        (down, node) \<leftarrow> rbtree_fini_descend S NULL (root S);
        r \<leftarrow> RIGHT S node;
        S \<leftarrow> (if down = NULL then Some (S\<lparr>root := r\<rparr>)
              else update_node S down (\<lambda>x. x\<lparr>node_lc := r\<rparr>));
        Some (node, S)
      }
      else Some (NULL, S))"

section \<open>Lookup and insertion\<close>

text \<open>The result pairs the last comparison with the path.\<close>

partial_function (option) rbtree_lookup_path ::
  "RBTREE \<Rightarrow> addr \<Rightarrow> addr \<Rightarrow> RBTREE_CMP_FUNC \<Rightarrow> int \<Rightarrow> RBTREE_CURSOR \<Rightarrow> (int \<times> RBTREE_CURSOR) option" where
  "rbtree_lookup_path S node key cmp_func cmp path =
     (if node \<noteq> NULL then do {
        path \<leftarrow> path_push path node;
        let cmp = cmp_func key node;
        if cmp = 0 then Some (cmp, path)
        else if cmp < 0 then do {
          node \<leftarrow> LEFT S node;
          rbtree_lookup_path S node key cmp_func cmp path
        }
        else do {
          node \<leftarrow> RIGHT S node;
          rbtree_lookup_path S node key cmp_func cmp path
        }
      }
      else Some (cmp, path))"

text \<open>The case of a black uncle: one or two rotations and the exchange of two colours.\<close>

definition insert_fixup_rotate ::
  "RBTREE \<Rightarrow> RBTREE_CURSOR \<Rightarrow> addr \<Rightarrow> addr \<Rightarrow> addr \<Rightarrow> RBTREE option" where
  "insert_fixup_rotate S path node parent grandparent = do {
     grandgrandparent \<leftarrow> (if 3 < length path then path_top path 4 else Some NULL);
     gl \<leftarrow> LEFT S grandparent;
     inner_left \<leftarrow> (if gl \<noteq> NULL then do { x \<leftarrow> RIGHT S gl; Some (node = x) } else Some False);
     (S, parent, node) \<leftarrow>
       (if inner_left then do {
          S \<leftarrow> rbtree_rotate_left S grandparent parent;
          l \<leftarrow> LEFT S node;
          Some (S, node, l)
        }
        else do {
          gr \<leftarrow> RIGHT S grandparent;
          inner_right \<leftarrow> (if gr \<noteq> NULL then do { x \<leftarrow> LEFT S gr; Some (node = x) } else Some False);
          if inner_right then do {
            S \<leftarrow> rbtree_rotate_right S grandparent parent;
            r \<leftarrow> RIGHT S node;
            Some (S, node, r)
          }
          else Some (S, parent, node)
        });
     pl \<leftarrow> LEFT S parent;
     S \<leftarrow> (if node = pl then rbtree_rotate_right S grandgrandparent grandparent
           else rbtree_rotate_left S grandgrandparent grandparent);
     S \<leftarrow> MAKE_BLACK S parent;
     MAKE_RED S grandparent
   }"

partial_function (option) rbtree_insert_fixup :: "RBTREE \<Rightarrow> RBTREE_CURSOR \<Rightarrow> RBTREE option" where
  "rbtree_insert_fixup S path = do {
     node \<leftarrow> path_top path 1;
     parent \<leftarrow> (if 1 < length path then path_top path 2 else Some NULL);
     if parent = NULL then do {
       S \<leftarrow> MAKE_BLACK S node;
       Some (S\<lparr>root := node\<rparr>)
     }
     else do {
       parent_black \<leftarrow> IS_BLACK S parent;
       if parent_black then Some S
       else do {
         grandparent \<leftarrow> path_top path 3;
         gl \<leftarrow> LEFT S grandparent;
         uncle \<leftarrow> (if parent = gl then RIGHT S grandparent else LEFT S grandparent);
         uncle_black \<leftarrow> black_node S uncle;
         if uncle_black then insert_fixup_rotate S path node parent grandparent
         else do {
           S \<leftarrow> MAKE_BLACK S parent;
           S \<leftarrow> MAKE_BLACK S uncle;
           S \<leftarrow> MAKE_RED S grandparent;
           rbtree_insert_fixup S (drop 2 path)
         }
       }
     }
   }"

definition rbtree_insert :: "RBTREE \<Rightarrow> addr \<Rightarrow> RBTREE_CMP_FUNC \<Rightarrow> (int \<times> RBTREE) option" where
  "rbtree_insert S node cmp_func = do {
     (cmp, path) \<leftarrow> rbtree_lookup_path S (root S) node cmp_func 0 [];
     if 0 < length path \<and> cmp = 0 then Some (-1, S)
     else do {
       S \<leftarrow> SET_LEFT S node NULL;
       S \<leftarrow> SET_RIGHT S node NULL;
       S \<leftarrow> MAKE_RED S node;
       S \<leftarrow> (if 0 < length path then do {
               last \<leftarrow> path_top path 1;
               if cmp < 0 then SET_LEFT S last node else SET_RIGHT S last node
             }
             else Some (S\<lparr>root := node\<rparr>));
       path \<leftarrow> path_push path node;
       S \<leftarrow> rbtree_insert_fixup S path;
       Some (0, S)
     }
   }"

section \<open>Removal\<close>

text \<open>
  The case of a black sibling with a red child: the second half (colours and the last rotation),
  and the whole of it.
\<close>

definition remove_fixup_finish ::
  "RBTREE \<Rightarrow> addr \<Rightarrow> addr \<Rightarrow> addr \<Rightarrow> addr \<Rightarrow> RBTREE option" where
  "remove_fixup_finish S node parent grandparent sibling = do {
     cs \<leftarrow> COLOR S sibling;
     cp \<leftarrow> COLOR S parent;
     S \<leftarrow> (if cs \<noteq> cp then TOGGLE_COLOR S sibling else Some S);
     S \<leftarrow> MAKE_BLACK S parent;
     pl \<leftarrow> LEFT S parent;
     if node = pl then do {
       sr \<leftarrow> RIGHT S sibling;
       S \<leftarrow> MAKE_BLACK S sr;
       rbtree_rotate_left S grandparent parent
     }
     else do {
       sl \<leftarrow> LEFT S sibling;
       S \<leftarrow> MAKE_BLACK S sl;
       rbtree_rotate_right S grandparent parent
     }
   }"

definition remove_fixup_rotate ::
  "RBTREE \<Rightarrow> addr \<Rightarrow> addr \<Rightarrow> addr \<Rightarrow> addr \<Rightarrow> RBTREE option" where
  "remove_fixup_rotate S node parent grandparent sibling = do {
     pl \<leftarrow> LEFT S parent;
     inner_left \<leftarrow> (if node = pl then do { sr \<leftarrow> RIGHT S sibling; black_node S sr } else Some False);
     (S, sibling) \<leftarrow>
       (if inner_left then do {
          S \<leftarrow> MAKE_RED S sibling;
          sl \<leftarrow> LEFT S sibling;
          S \<leftarrow> MAKE_BLACK S sl;
          S \<leftarrow> rbtree_rotate_right S parent sibling;
          sibling \<leftarrow> RIGHT S parent;
          Some (S, sibling)
        }
        else do {
          pr \<leftarrow> RIGHT S parent;
          inner_right \<leftarrow> (if node = pr then do { sl \<leftarrow> LEFT S sibling; black_node S sl } else Some False);
          if inner_right then do {
            S \<leftarrow> MAKE_RED S sibling;
            sr \<leftarrow> RIGHT S sibling;
            S \<leftarrow> MAKE_BLACK S sr;
            S \<leftarrow> rbtree_rotate_left S parent sibling;
            sibling \<leftarrow> LEFT S parent;
            Some (S, sibling)
          }
          else Some (S, sibling)
        });
     remove_fixup_finish S node parent grandparent sibling
   }"

partial_function (option) rbtree_remove_fixup :: "RBTREE \<Rightarrow> RBTREE_CURSOR \<Rightarrow> RBTREE option" where
  "rbtree_remove_fixup S path = do {
     node \<leftarrow> path_top path 1;
     node_red \<leftarrow> red_node S node;
     if node_red then MAKE_BLACK S node
     else if length path \<le> 1 then Some S
     else do {
       parent \<leftarrow> path_top path 2;
       pl \<leftarrow> LEFT S parent;
       sibling \<leftarrow> (if node = pl then RIGHT S parent else LEFT S parent);
       grandparent \<leftarrow> (if 2 < length path then path_top path 3 else Some NULL);
       sibling_red \<leftarrow> IS_RED S sibling;
       if sibling_red then do {
         S \<leftarrow> (if node = pl then rbtree_rotate_left S grandparent parent
               else rbtree_rotate_right S grandparent parent);
         S \<leftarrow> MAKE_BLACK S sibling;
         S \<leftarrow> MAKE_RED S parent;
         path \<leftarrow> path_set_top path 2 sibling;
         path \<leftarrow> path_set_top path 1 parent;
         path \<leftarrow> path_push path node;
         rbtree_remove_fixup S path
       }
       else do {
         sl \<leftarrow> LEFT S sibling;
         sl_red \<leftarrow> red_node S sl;
         sr \<leftarrow> RIGHT S sibling;
         sr_red \<leftarrow> (if sl_red then Some True else red_node S sr);
         if sl_red \<or> sr_red then remove_fixup_rotate S node parent grandparent sibling
         else do {
           S \<leftarrow> MAKE_RED S sibling;
           rbtree_remove_fixup S (drop 1 path)
         }
       }
     }
   }"

text \<open>
  The exchange of a node that has a right child with its successor: the three cases of the code,
  giving the successor (NULL when there is nothing to exchange) and the path.
\<close>

definition remove_find_successor ::
  "RBTREE \<Rightarrow> addr \<Rightarrow> nat \<Rightarrow> RBTREE_CURSOR \<Rightarrow> (RBTREE \<times> RBTREE_CURSOR \<times> addr) option" where
  "remove_find_successor S node node_index path = do {
     nr \<leftarrow> RIGHT S node;
     nrl \<leftarrow> LEFT S nr;
     nl \<leftarrow> LEFT S node;
     if nrl \<noteq> NULL then do {
       path \<leftarrow> rbtree_leftmost_path S nr path;
       successor \<leftarrow> path_top path 1;
       tmp \<leftarrow> RIGHT S successor;
       nr \<leftarrow> RIGHT S node;
       S \<leftarrow> SET_RIGHT S successor nr;
       S \<leftarrow> SET_RIGHT S node tmp;
       sp \<leftarrow> path_top path 2;
       spl \<leftarrow> LEFT S sp;
       S \<leftarrow> (if successor = spl then SET_LEFT S sp node else SET_RIGHT S sp node);
       path \<leftarrow> path_set_at path node_index successor;
       path \<leftarrow> path_set_top path 1 node;
       Some (S, path, successor)
     }
     else if nl \<noteq> NULL then do {
       successor \<leftarrow> RIGHT S node;
       sr \<leftarrow> RIGHT S successor;
       S \<leftarrow> SET_RIGHT S node sr;
       S \<leftarrow> SET_RIGHT S successor node;
       path \<leftarrow> path_set_top path 1 successor;
       path \<leftarrow> path_push path node;
       Some (S, path, successor)
     }
     else Some (S, path, NULL)
   }"

definition remove_swap_common ::
  "RBTREE \<Rightarrow> addr \<Rightarrow> nat \<Rightarrow> RBTREE_CURSOR \<Rightarrow> addr \<Rightarrow> RBTREE option" where
  "remove_swap_common S node node_index path successor = do {
     nl \<leftarrow> LEFT S node;
     S \<leftarrow> SET_LEFT S successor nl;
     S \<leftarrow> SET_LEFT S node NULL;
     S \<leftarrow> (if 0 < node_index then do {
             p \<leftarrow> path_at path (node_index - 1);
             pl \<leftarrow> LEFT S p;
             if node = pl then SET_LEFT S p successor else SET_RIGHT S p successor
           }
           else Some (S\<lparr>root := successor\<rparr>));
     cs \<leftarrow> COLOR S successor;
     cn \<leftarrow> COLOR S node;
     if cs \<noteq> cn then do {
       S \<leftarrow> TOGGLE_COLOR S successor;
       TOGGLE_COLOR S node
     }
     else Some S
   }"

text \<open>The unlinking of a node with at most one child.\<close>

definition remove_unlink ::
  "RBTREE \<Rightarrow> addr \<Rightarrow> RBTREE_CURSOR \<Rightarrow> (RBTREE \<times> RBTREE_CURSOR) option" where
  "remove_unlink S node path = do {
     nl \<leftarrow> LEFT S node;
     single_child \<leftarrow> (if nl \<noteq> NULL then LEFT S node else RIGHT S node);
     S \<leftarrow> (if 1 < length path then do {
             p \<leftarrow> path_top path 2;
             pl \<leftarrow> LEFT S p;
             if node = pl then SET_LEFT S p single_child else SET_RIGHT S p single_child
           }
           else Some (S\<lparr>root := single_child\<rparr>));
     path \<leftarrow> path_set_top path 1 single_child;
     Some (S, path)
   }"

definition rbtree_remove :: "RBTREE \<Rightarrow> addr \<Rightarrow> RBTREE_CMP_FUNC \<Rightarrow> (addr \<times> RBTREE) option" where
  "rbtree_remove S key cmp_func = do {
     (cmp, path) \<leftarrow> rbtree_lookup_path S (root S) key cmp_func 0 [];
     if length path = 0 \<or> cmp \<noteq> 0 then Some (NULL, S)
     else do {
       node \<leftarrow> path_top path 1;
       nr \<leftarrow> RIGHT S node;
       (S, path) \<leftarrow>
         (if nr \<noteq> NULL then do {
            let node_index = length path - 1;
            (S, path, successor) \<leftarrow> remove_find_successor S node node_index path;
            S \<leftarrow> (if successor \<noteq> NULL then remove_swap_common S node node_index path successor
                  else Some S);
            Some (S, path)
          }
          else Some (S, path));
       (S, path) \<leftarrow> remove_unlink S node path;
       black \<leftarrow> IS_BLACK S node;
       S \<leftarrow> (if black then rbtree_remove_fixup S path else Some S);
       Some (node, S)
     }
   }"

section \<open>Lookup and walking\<close>

partial_function (option) rbtree_lookup_loop ::
  "RBTREE \<Rightarrow> addr \<Rightarrow> addr \<Rightarrow> RBTREE_CMP_FUNC \<Rightarrow> addr option" where
  "rbtree_lookup_loop S node key cmp_func =
     (if node \<noteq> NULL then
        let cmp = cmp_func key node in
        if cmp < 0 then do {
          node \<leftarrow> LEFT S node;
          rbtree_lookup_loop S node key cmp_func
        }
        else if cmp > 0 then do {
          node \<leftarrow> RIGHT S node;
          rbtree_lookup_loop S node key cmp_func
        }
        else Some node
      else Some node)"

definition rbtree_lookup :: "RBTREE \<Rightarrow> addr \<Rightarrow> RBTREE_CMP_FUNC \<Rightarrow> addr option" where
  "rbtree_lookup S key cmp_func = rbtree_lookup_loop S (root S) key cmp_func"

definition rbtree_lookup_ex ::
  "RBTREE \<Rightarrow> addr \<Rightarrow> RBTREE_CMP_FUNC \<Rightarrow> (addr \<times> RBTREE_CURSOR) option" where
  "rbtree_lookup_ex S key cmp_func = do {
     (cmp, cur) \<leftarrow> rbtree_lookup_path S (root S) key cmp_func 0 [];
     if length cur = 0 \<or> cmp \<noteq> 0 then Some (NULL, [])
     else do {
       node \<leftarrow> path_top cur 1;
       Some (node, cur)
     }
   }"

definition rbtree_current :: "RBTREE_CURSOR \<Rightarrow> addr option" where
  "rbtree_current cur = (if 0 < length cur then path_top cur 1 else Some NULL)"

definition rbtree_head :: "RBTREE \<Rightarrow> (addr \<times> RBTREE_CURSOR) option" where
  "rbtree_head S = do {
     cur \<leftarrow> rbtree_leftmost_path S (root S) [];
     node \<leftarrow> rbtree_current cur;
     Some (node, cur)
   }"

definition rbtree_tail :: "RBTREE \<Rightarrow> (addr \<times> RBTREE_CURSOR) option" where
  "rbtree_tail S = do {
     cur \<leftarrow> rbtree_rightmost_path S (root S) [];
     node \<leftarrow> rbtree_current cur;
     Some (node, cur)
   }"

text \<open>
  \<open>while(n > 1 && stack[n - 1] == RIGHT(stack[n - 2])) n--;\<close> for the path truncated to \<open>n\<close>
  entries, with the child accessor as a parameter (\<open>LEFT\<close> in \<open>rbtree_prev\<close>).
\<close>

fun climb :: "(addr \<Rightarrow> addr option) \<Rightarrow> RBTREE_CURSOR \<Rightarrow> RBTREE_CURSOR option" where
  "climb child (p # q # path) = do {
     c \<leftarrow> child q;
     if p = c then climb child (q # path) else Some (p # q # path)
   }"
| "climb child path = Some path"

definition rbtree_next :: "RBTREE \<Rightarrow> RBTREE_CURSOR \<Rightarrow> (addr \<times> RBTREE_CURSOR) option" where
  "rbtree_next S cur =
     (if 0 < length cur then do {
        p \<leftarrow> path_top cur 1;
        r \<leftarrow> RIGHT S p;
        if r \<noteq> NULL then do {
          cur \<leftarrow> rbtree_leftmost_path S r cur;
          node \<leftarrow> rbtree_current cur;
          Some (node, cur)
        }
        else do {
          path \<leftarrow> climb (RIGHT S) cur;
          let path = drop 1 path;
          if length path = 0 then Some (NULL, cur)
          else do { node \<leftarrow> rbtree_current path; Some (node, path) }
        }
      }
      else Some (NULL, cur))"

definition rbtree_prev :: "RBTREE \<Rightarrow> RBTREE_CURSOR \<Rightarrow> (addr \<times> RBTREE_CURSOR) option" where
  "rbtree_prev S cur =
     (if 0 < length cur then do {
        p \<leftarrow> path_top cur 1;
        l \<leftarrow> LEFT S p;
        if l \<noteq> NULL then do {
          cur \<leftarrow> rbtree_rightmost_path S l cur;
          node \<leftarrow> rbtree_current cur;
          Some (node, cur)
        }
        else do {
          path \<leftarrow> climb (LEFT S) cur;
          let path = drop 1 path;
          if length path = 0 then Some (NULL, cur)
          else do { node \<leftarrow> rbtree_current path; Some (node, path) }
        }
      }
      else Some (NULL, cur))"

section \<open>The checker of the test build\<close>

partial_function (option) rbtree_verify_recurse :: "RBTREE \<Rightarrow> addr \<Rightarrow> int option" where
  "rbtree_verify_recurse S node =
     (if node = NULL then Some 1
      else do {
        l \<leftarrow> LEFT S node;
        r \<leftarrow> RIGHT S node;
        node_red \<leftarrow> IS_RED S node;
        bad_l \<leftarrow> (if node_red \<and> l \<noteq> NULL then IS_RED S l else Some False);
        if bad_l then Some (-1)
        else do {
          hl \<leftarrow> rbtree_verify_recurse S l;
          if hl < 0 then Some (-1)
          else do {
            bad_r \<leftarrow> (if node_red \<and> r \<noteq> NULL then IS_RED S r else Some False);
            if bad_r then Some (-1)
            else do {
              hr \<leftarrow> rbtree_verify_recurse S r;
              if hr < 0 then Some (-1)
              else if hl \<noteq> hr then Some (-1)
              else Some (hl + (if node_red then 0 else 1))
            }
          }
        }
      })"

definition rbtree_verify :: "RBTREE \<Rightarrow> int option" where
  "rbtree_verify S = do {
     root_red \<leftarrow> red_node S (root S);
     if root_red then Some (-1)
     else do {
       h \<leftarrow> rbtree_verify_recurse S (root S);
       Some (if 0 \<le> h then 0 else -1)
     }
   }"

declare rbtree_leftmost_path.simps [code] rbtree_rightmost_path.simps [code]
  rbtree_fini_descend.simps [code] rbtree_lookup_path.simps [code]
  rbtree_insert_fixup.simps [code] rbtree_remove_fixup.simps [code]
  rbtree_lookup_loop.simps [code] rbtree_verify_recurse.simps [code]

end
