(* ===== verification/Rbtree_Shape.thy ===== *)
theory Rbtree_Shape
  imports CRE_Prelude
begin

text \<open>
  The trees that the heap of \<open>data/rbtree.c\<close> represents: red-black trees labelled with the
  addresses of their nodes, contexts (what a cursor path is the spine of), and the rebalancing of
  the code as functions on them, with the red-black invariant.
\<close>

section \<open>Trees and contexts\<close>

datatype rb_color = Red | Black

datatype 'a rbt = Leaf | Node rb_color "'a rbt" 'a "'a rbt"

text \<open>A frame is a node without one of its children: the left one, or the right one.\<close>

datatype 'a frame = LFrame rb_color 'a "'a rbt" | RFrame rb_color 'a "'a rbt"

fun frame_color :: "'a frame \<Rightarrow> rb_color" where
  "frame_color (LFrame c a s) = c"
| "frame_color (RFrame c a s) = c"

fun frame_label :: "'a frame \<Rightarrow> 'a" where
  "frame_label (LFrame c a s) = a"
| "frame_label (RFrame c a s) = a"

fun frame_sibling :: "'a frame \<Rightarrow> 'a rbt" where
  "frame_sibling (LFrame c a s) = s"
| "frame_sibling (RFrame c a s) = s"

fun up :: "'a frame \<Rightarrow> 'a rbt \<Rightarrow> 'a rbt" where
  "up (LFrame c a s) t = Node c t a s"
| "up (RFrame c a s) t = Node c s a t"

text \<open>A context is the list of the frames above a hole, the lowest first.\<close>

fun plug :: "'a frame list \<Rightarrow> 'a rbt \<Rightarrow> 'a rbt" where
  "plug [] t = t"
| "plug (f # ctx) t = plug ctx (up f t)"

fun inorder :: "'a rbt \<Rightarrow> 'a list" where
  "inorder Leaf = []"
| "inorder (Node c l a r) = inorder l @ a # inorder r"

fun tsize :: "'a rbt \<Rightarrow> nat" where
  "tsize Leaf = 0"
| "tsize (Node c l a r) = tsize l + tsize r + 1"

fun height :: "'a rbt \<Rightarrow> nat" where
  "height Leaf = 0"
| "height (Node c l a r) = max (height l) (height r) + 1"

fun lefts :: "'a frame list \<Rightarrow> 'a list" where
  "lefts [] = []"
| "lefts (LFrame c a s # ctx) = lefts ctx"
| "lefts (RFrame c a s # ctx) = lefts ctx @ inorder s @ [a]"

fun rights :: "'a frame list \<Rightarrow> 'a list" where
  "rights [] = []"
| "rights (LFrame c a s # ctx) = a # inorder s @ rights ctx"
| "rights (RFrame c a s # ctx) = rights ctx"

text \<open>The descent of a lookup: \<open>k\<close> compares the key with a label.\<close>

fun find_path :: "('a \<Rightarrow> int) \<Rightarrow> 'a rbt \<Rightarrow> 'a frame list \<Rightarrow> 'a frame list \<times> 'a rbt" where
  "find_path k Leaf ctx = (ctx, Leaf)"
| "find_path k (Node c l a r) ctx =
     (if k a = 0 then (ctx, Node c l a r)
      else if k a < 0 then find_path k l (LFrame c a r # ctx)
      else find_path k r (RFrame c a l # ctx))"

lemma plug_find_path: "find_path k t ctx = (ctx', u) \<Longrightarrow> plug ctx' u = plug ctx t"
  by (induction k t ctx arbitrary: ctx' u rule: find_path.induct) (auto split: if_splits)

lemma plug_append [simp]: "plug (ctx @ ctx') t = plug ctx' (plug ctx t)"
  by (induction ctx arbitrary: t) simp_all

lemma inorder_plug: "inorder (plug ctx t) = lefts ctx @ inorder t @ rights ctx"
proof (induction ctx arbitrary: t)
  case (Cons f ctx)
  then show ?case by (cases f) simp_all
qed simp

lemma inorder_plug_cong: "inorder t = inorder t' \<Longrightarrow> inorder (plug ctx t) = inorder (plug ctx t')"
  by (simp add: inorder_plug)

lemma length_inorder [simp]: "length (inorder t) = tsize t"
  by (induction t) simp_all

lemma height_plug: "length ctx + height t \<le> height (plug ctx t)"
proof (induction ctx arbitrary: t)
  case (Cons f ctx)
  have "height t + 1 \<le> height (up f t)" by (cases f) simp_all
  with Cons [of "up f t"] show ?case by simp
qed simp

section \<open>The red-black invariant\<close>

fun color :: "'a rbt \<Rightarrow> rb_color" where
  "color Leaf = Black"
| "color (Node c l a r) = c"

fun paint :: "rb_color \<Rightarrow> 'a rbt \<Rightarrow> 'a rbt" where
  "paint c Leaf = Leaf"
| "paint c (Node _ l a r) = Node c l a r"

text \<open>No red node has a red child.\<close>

fun invc :: "'a rbt \<Rightarrow> bool" where
  "invc Leaf = True"
| "invc (Node c l a r) =
     ((c = Red \<longrightarrow> color l = Black \<and> color r = Black) \<and> invc l \<and> invc r)"

definition weight :: "rb_color \<Rightarrow> nat" where
  "weight c = (if c = Black then 1 else 0)"

text \<open>The black height, counting the NULL leaves as the checker of the code does.\<close>

fun bheight :: "'a rbt \<Rightarrow> nat" where
  "bheight Leaf = 1"
| "bheight (Node c l a r) = bheight l + weight c"

fun invh :: "'a rbt \<Rightarrow> bool" where
  "invh Leaf = True"
| "invh (Node c l a r) = (bheight l = bheight r \<and> invh l \<and> invh r)"

definition is_rb :: "'a rbt \<Rightarrow> bool" where
  "is_rb t \<longleftrightarrow> invc t \<and> invh t \<and> color t = Black"

text \<open>The same conditions on a context, for a hole of the given colour or black height.\<close>

fun ctx_c :: "'a frame list \<Rightarrow> rb_color \<Rightarrow> bool" where
  "ctx_c [] c = True"
| "ctx_c (f # ctx) c =
     ((frame_color f = Red \<longrightarrow> c = Black \<and> color (frame_sibling f) = Black) \<and>
      invc (frame_sibling f) \<and> ctx_c ctx (frame_color f))"

fun ctx_h :: "'a frame list \<Rightarrow> nat \<Rightarrow> bool" where
  "ctx_h [] n = True"
| "ctx_h (f # ctx) n =
     (bheight (frame_sibling f) = n \<and> invh (frame_sibling f) \<and>
      ctx_h ctx (n + weight (frame_color f)))"

definition top_black :: "'a frame list \<Rightarrow> bool" where
  "top_black ctx \<longleftrightarrow> (ctx \<noteq> [] \<longrightarrow> frame_color (last ctx) = Black)"

lemma color_up [simp]: "color (up f t) = frame_color f"
  by (cases f) simp_all

lemma invc_up: "invc (up f t) \<longleftrightarrow>
    (frame_color f = Red \<longrightarrow> color t = Black \<and> color (frame_sibling f) = Black) \<and>
    invc (frame_sibling f) \<and> invc t"
  by (cases f) auto

lemma invh_up: "invh (up f t) \<longleftrightarrow> bheight (frame_sibling f) = bheight t \<and> invh (frame_sibling f) \<and> invh t"
  by (cases f) auto

lemma bheight_up: "invh (up f t) \<Longrightarrow> bheight (up f t) = bheight t + weight (frame_color f)"
  by (cases f) simp_all

lemma invc_plug: "invc (plug ctx t) \<longleftrightarrow> invc t \<and> ctx_c ctx (color t)"
  by (induction ctx arbitrary: t) (auto simp: invc_up)

lemma ctx_c_Black: "ctx_c ctx c \<Longrightarrow> ctx_c ctx Black"
  by (cases ctx) auto

lemma invh_plug: "invh (plug ctx t) \<longleftrightarrow> invh t \<and> ctx_h ctx (bheight t)"
proof (induction ctx arbitrary: t)
  case (Cons f ctx)
  show ?case
    using Cons [of "up f t"] bheight_up [of f t] by (auto simp: invh_up)
qed simp

lemma color_plug: "color (plug ctx t) = (if ctx = [] then color t else frame_color (last ctx))"
proof (induction ctx arbitrary: t)
  case (Cons f ctx)
  then show ?case by simp
qed simp

lemma is_rb_plug:
  "is_rb (plug ctx t) \<longleftrightarrow> invc t \<and> invh t \<and> ctx_c ctx (color t) \<and> ctx_h ctx (bheight t) \<and>
     (ctx = [] \<longrightarrow> color t = Black) \<and> top_black ctx"
  by (auto simp: is_rb_def invc_plug invh_plug color_plug top_black_def)

lemma top_black_Cons: "top_black (f # ctx) \<longleftrightarrow> (ctx = [] \<longrightarrow> frame_color f = Black) \<and> top_black ctx"
  by (simp add: top_black_def)

text \<open>The height of a red-black tree is logarithmic in its size.\<close>

lemma bheight_pos: "0 < bheight t"
  by (induction t) simp_all

lemma two_pow_bheight: "invh t \<Longrightarrow> 2 ^ (bheight t - 1) \<le> tsize t + 1"
proof (induction t)
  case (Node c l a r)
  then have IH: "2 ^ (bheight l - 1) \<le> tsize l + 1" "2 ^ (bheight l - 1) \<le> tsize r + 1" by simp_all
  have "bheight (Node c l a r) - 1 \<le> Suc (bheight l - 1)"
    using bheight_pos [of l] by (simp add: weight_def)
  then have "(2::nat) ^ (bheight (Node c l a r) - 1) \<le> 2 ^ Suc (bheight l - 1)"
    by (rule power_increasing) simp
  with IH show ?case by simp
qed simp

lemma height_bheight:
  "invc t \<Longrightarrow> invh t \<Longrightarrow> height t \<le> 2 * (bheight t - 1) + (if color t = Red then 1 else 0)"
proof (induction t)
  case (Node c l a r)
  then show ?case using bheight_pos [of l] bheight_pos [of r]
    by (cases c) (auto simp: weight_def split: if_splits)
qed simp

lemma height_log:
  assumes "is_rb t" "tsize t < 2 ^ k"
  shows "height t \<le> 2 * k"
proof -
  have t: "invc t" "invh t" "color t = Black" using assms(1) by (simp_all add: is_rb_def)
  have "(2::nat) ^ (bheight t - 1) \<le> 2 ^ k"
    using two_pow_bheight [OF t(2)] assms(2) by linarith
  then have "bheight t - 1 \<le> k" by (simp add: power_le_imp_le_exp)
  with height_bheight [OF t(1,2)] t(3) show ?thesis by simp
qed

section \<open>Rebalancing after an insertion\<close>

text \<open>
  One or two rotations for a red node under the red parent \<open>f\<close> under the black grandparent \<open>g\<close>
  whose other child is black.
\<close>

fun ins_rotate :: "'a frame \<Rightarrow> 'a frame \<Rightarrow> 'a rbt \<Rightarrow> 'a rbt" where
  "ins_rotate (LFrame _ p s) (LFrame _ g u) t = Node Black t p (Node Red s g u)"
| "ins_rotate (RFrame _ p s) (RFrame _ g u) t = Node Black (Node Red u g s) p t"
| "ins_rotate (RFrame _ p s) (LFrame _ g u) (Node _ l x r) =
     Node Black (Node Red s p l) x (Node Red r g u)"
| "ins_rotate (LFrame _ p s) (RFrame _ g u) (Node _ l x r) =
     Node Black (Node Red u g l) x (Node Red r p s)"
| "ins_rotate f g Leaf = up g (up f Leaf)"

fun recolor :: "'a frame \<Rightarrow> 'a frame \<Rightarrow> 'a rbt \<Rightarrow> 'a rbt" where
  "recolor f (LFrame _ g u) t = Node Red (paint Black (up f t)) g (paint Black u)"
| "recolor f (RFrame _ g u) t = Node Red (paint Black u) g (paint Black (up f t))"

fun ins_fix :: "'a frame list \<Rightarrow> 'a rbt \<Rightarrow> 'a rbt" where
  "ins_fix [] t = paint Black t"
| "ins_fix [f] t = up f t"
| "ins_fix (f # g # ctx) t =
     (if frame_color f = Black then plug (f # g # ctx) t
      else if color (frame_sibling g) = Red then ins_fix ctx (recolor f g t)
      else plug ctx (ins_rotate f g t))"

lemma inorder_paint [simp]: "inorder (paint c t) = inorder t"
  by (cases t) simp_all

lemma inorder_recolor: "inorder (recolor f g t) = inorder (up g (up f t))"
  by (cases g) simp_all

lemma inorder_ins_rotate: "inorder (ins_rotate f g t) = inorder (up g (up f t))"
  by (cases "(f, g, t)" rule: ins_rotate.cases) simp_all

lemma inorder_ins_fix: "inorder (ins_fix ctx t) = inorder (plug ctx t)"
  by (induction ctx t rule: ins_fix.induct) (auto simp: inorder_recolor inorder_ins_rotate intro: inorder_plug_cong)

lemma color_neq [simp]: "c \<noteq> Red \<longleftrightarrow> c = Black"
  by (cases c) auto

lemma weight_simps [simp]: "weight Red = 0" "weight Black = 1"
  by (simp_all add: weight_def)

lemma color_paint [simp]: "color (paint c t) = (if t = Leaf then Black else c)"
  by (cases t) simp_all

lemma invh_paint [simp]: "invh (paint c t) = invh t"
  by (cases t) simp_all

lemma invc_paint [simp]: "invc t \<Longrightarrow> invc (paint Black t)"
  by (cases t) simp_all

lemma bheight_paint [simp]: "color t = Red \<Longrightarrow> bheight (paint Black t) = bheight t + 1"
  by (cases t) simp_all

lemma recolor_simps: "color (up f t) = frame_color f" "invh t \<Longrightarrow> bheight (frame_sibling f) = bheight t \<Longrightarrow>
    invh (frame_sibling f) \<Longrightarrow> bheight (up f t) = bheight t + weight (frame_color f)"
  by (cases f; simp)+

lemma is_rb_ins_fix:
  assumes "invc t" "invh t" "color t = Red" "ctx_c ctx Black" "ctx_h ctx (bheight t)" "top_black ctx"
  shows "is_rb (ins_fix ctx t)"
  using assms
proof (induction ctx t rule: ins_fix.induct)
  case (1 t)
  then show ?case by (cases t) (auto simp: is_rb_def)
next
  case (2 f t)
  then show ?case
    using is_rb_plug [of "[f]" t] by (simp add: top_black_def)
next
  case (3 f g ctx t)
  show ?case
  proof (cases "frame_color f")
    case Black
    with 3 show ?thesis by (simp add: is_rb_plug del: plug.simps)
  next
    case Red
    with 3 have g: "frame_color g = Black" by auto
    have above: "ctx_c ctx Black" "ctx_h ctx (bheight t + 1)" "top_black ctx"
      using 3 Red g by (simp_all add: top_black_Cons)
    show ?thesis
    proof (cases "color (frame_sibling g) = Red")
      case True
      have "invc (recolor f g t) \<and> invh (recolor f g t) \<and> color (recolor f g t) = Red \<and>
          bheight (recolor f g t) = bheight t + 1"
        using 3(2-) Red g True by (cases f; cases g) auto
      with 3(1) Red True above show ?thesis by simp
    next
      case False
      have "invc (ins_rotate f g t)" "invh (ins_rotate f g t)" "color (ins_rotate f g t) = Black"
          "bheight (ins_rotate f g t) = bheight t + 1"
        using 3(2-) Red g False by (cases "(f, g, t)" rule: ins_rotate.cases; auto)+
      with Red False above show ?thesis by (simp add: is_rb_plug)
    qed
  qed
qed

section \<open>Rebalancing after a removal\<close>

text \<open>
  The rotations for a black sibling with a red child: the hole of the frame misses one black node.
\<close>

definition has_red_child :: "'a rbt \<Rightarrow> bool" where
  "has_red_child s = (case s of Leaf \<Rightarrow> False | Node _ l _ r \<Rightarrow> color l = Red \<or> color r = Red)"

fun rem_rotate :: "'a frame \<Rightarrow> 'a rbt \<Rightarrow> 'a rbt" where
  "rem_rotate (LFrame c p (Node cs sl s sr)) t =
     (if color sr = Red then Node c (Node Black t p sl) s (paint Black sr)
      else case sl of Node _ xl x xr \<Rightarrow> Node c (Node Black t p xl) x (Node Black xr s sr)
                    | Leaf \<Rightarrow> up (LFrame c p (Node cs sl s sr)) t)"
| "rem_rotate (RFrame c p (Node cs sl s sr)) t =
     (if color sl = Red then Node c (paint Black sl) s (Node Black sr p t)
      else case sr of Node _ xl x xr \<Rightarrow> Node c (Node Black sl s xl) x (Node Black xr p t)
                    | Leaf \<Rightarrow> up (RFrame c p (Node cs sl s sr)) t)"
| "rem_rotate f t = up f t"

fun redden_sibling :: "'a frame \<Rightarrow> 'a frame" where
  "redden_sibling (LFrame c a s) = LFrame c a (paint Red s)"
| "redden_sibling (RFrame c a s) = RFrame c a (paint Red s)"

text \<open>A red sibling is rotated above the parent: the hole's new parent, and the frame above.\<close>

fun red_sibling_frames :: "'a frame \<Rightarrow> 'a frame \<times> 'a frame" where
  "red_sibling_frames (LFrame c p (Node cs sl s sr)) = (LFrame Red p sl, LFrame Black s sr)"
| "red_sibling_frames (RFrame c p (Node cs sl s sr)) = (RFrame Red p sr, RFrame Black s sl)"
| "red_sibling_frames f = (f, f)"

text \<open>\<open>t\<close> in the hole of the context has a black height one less than its sibling.\<close>

fun rem_fix :: "'a frame list \<Rightarrow> 'a rbt \<Rightarrow> 'a rbt" where
  "rem_fix [] t = paint Black t"
| "rem_fix (f # ctx) t =
     (if color t = Red then plug (f # ctx) (paint Black t)
      else if color (frame_sibling f) = Red then
        (case red_sibling_frames f of (f', g) \<Rightarrow>
           plug (g # ctx)
             (if has_red_child (frame_sibling f') then rem_rotate f' t
              else paint Black (up (redden_sibling f') t)))
      else if has_red_child (frame_sibling f) then plug ctx (rem_rotate f t)
      else rem_fix ctx (up (redden_sibling f) t))"

lemma inorder_rem_rotate: "inorder (rem_rotate f t) = inorder (up f t)"
  by (cases "(f, t)" rule: rem_rotate.cases) (auto split: rbt.splits)

lemma inorder_redden: "inorder (up (redden_sibling f) t) = inorder (up f t)"
  by (cases f) simp_all

lemma inorder_red_sibling:
  "color (frame_sibling f) = Red \<Longrightarrow> red_sibling_frames f = (f', g) \<Longrightarrow>
     inorder (up g (up f' t)) = inorder (up f t)"
  by (cases f rule: red_sibling_frames.cases) auto

lemma inorder_rem_fix: "inorder (rem_fix ctx t) = inorder (plug ctx t)"
proof (induction ctx arbitrary: t)
  case (Cons f ctx)
  obtain f' g where fg: "red_sibling_frames f = (f', g)" by fastforce
  have "inorder (plug (g # ctx) (up f' t)) = inorder (plug (f # ctx) t)" if "color (frame_sibling f) = Red"
    using inorder_red_sibling [OF that fg, of t] by (auto intro: inorder_plug_cong)
  moreover have "inorder (plug (g # ctx) (rem_rotate f' t)) = inorder (plug (g # ctx) (up f' t))"
    "inorder (plug (g # ctx) (up (redden_sibling f') t)) = inorder (plug (g # ctx) (up f' t))"
    "inorder (plug ctx (rem_rotate f t)) = inorder (plug ctx (up f t))"
    "inorder (plug ctx (up (redden_sibling f) t)) = inorder (plug ctx (up f t))"
    "inorder (plug (f # ctx) (paint Black t)) = inorder (plug (f # ctx) t)"
    "\<And>u. inorder (plug (g # ctx) (paint Black u)) = inorder (plug (g # ctx) u)"
    by (intro inorder_plug_cong; simp add: inorder_rem_rotate inorder_redden)+
  ultimately show ?case using Cons by (simp add: fg del: plug.simps(2)) simp
qed simp


lemma rem_rotate_ok:
  assumes "color (frame_sibling f) = Black" "has_red_child (frame_sibling f)"
    "invc t" "invh t" "color t = Black" "invc (frame_sibling f)" "invh (frame_sibling f)"
    "bheight (frame_sibling f) = bheight t + 1"
  shows "invc (rem_rotate f t) \<and> invh (rem_rotate f t) \<and> color (rem_rotate f t) = frame_color f \<and>
    bheight (rem_rotate f t) = bheight t + 1 + weight (frame_color f)"
proof (cases "(f, t)" rule: rem_rotate.cases)
  case (1 c p cs sl s sr t)
  with assms show ?thesis by (cases "color sr"; cases sl) (simp_all add: has_red_child_def)
next
  case (2 c p cs sl s sr t)
  with assms show ?thesis by (cases "color sl"; cases sr) (simp_all add: has_red_child_def)
qed (use assms in \<open>simp_all add: has_red_child_def\<close>)

lemma redden_ok:
  assumes "color (frame_sibling f) = Black" "\<not> has_red_child (frame_sibling f)"
    "invc t" "invh t" "color t = Black" "invc (frame_sibling f)" "invh (frame_sibling f)"
    "bheight (frame_sibling f) = bheight t + 1"
  shows "invc (paint Black (up (redden_sibling f) t)) \<and> invh (up (redden_sibling f) t) \<and>
    bheight (up (redden_sibling f) t) = bheight t + weight (frame_color f) \<and>
    color (up (redden_sibling f) t) = frame_color f"
proof (cases f)
  case (LFrame c p s)
  with assms bheight_pos [of t] show ?thesis by (cases s) (simp_all add: has_red_child_def)
next
  case (RFrame c p s)
  with assms bheight_pos [of t] show ?thesis by (cases s) (simp_all add: has_red_child_def)
qed

lemma red_sibling_ok:
  assumes "color (frame_sibling f) = Red" "red_sibling_frames f = (f', g)"
    "invc (frame_sibling f)" "invh (frame_sibling f)" "bheight (frame_sibling f) = Suc n"
  shows "frame_color f' = Red" "frame_color g = Black"
    "color (frame_sibling f') = Black" "invc (frame_sibling f')" "invh (frame_sibling f')"
    "bheight (frame_sibling f') = Suc n"
    "invc (frame_sibling g)" "invh (frame_sibling g)" "bheight (frame_sibling g) = Suc n"
  using assms by (cases f rule: red_sibling_frames.cases; auto)+

lemma is_rb_rem_fix:
  assumes "invc (paint Black t)" "invh t" "ctx_c ctx Black" "ctx_h ctx (bheight t + 1)" "top_black ctx"
  shows "is_rb (rem_fix ctx t)"
  using assms
proof (induction ctx arbitrary: t)
  case Nil
  then show ?case by (simp add: is_rb_def)
next
  case (Cons f ctx)
  let ?s = "frame_sibling f"
  show ?case
  proof (cases "color t")
    case Red
    with Cons.prems show ?thesis by (cases t) (simp_all add: is_rb_plug del: plug.simps)
  next
    case Black
    then have t: "invc t" "invh t" "color t = Black" using Cons.prems by (cases t; simp)+
    have s: "invc ?s" "invh ?s" "bheight ?s = bheight t + 1" using Cons.prems by simp_all
    have above: "ctx_c ctx (frame_color f)" "ctx_h ctx (bheight t + 1 + weight (frame_color f))"
      "top_black ctx" "ctx = [] \<longrightarrow> frame_color f = Black"
      using Cons.prems by (simp_all add: top_black_Cons)
    obtain f' g where fg: "red_sibling_frames f = (f', g)" by fastforce
    consider "color ?s = Red" | "color ?s = Black" "has_red_child ?s"
      | "color ?s = Black" "\<not> has_red_child ?s" using color_neq by blast
    then show ?thesis
    proof cases
      case 1
      note g = red_sibling_ok [OF 1 fg s(1,2) s(3) [simplified]]
      have fB: "frame_color f = Black" using Cons.prems(3) 1 by auto
      note rot = rem_rotate_ok [of f' t] and red = redden_ok [of f' t]
      show ?thesis
        using 1 fg g t above fB rot red Black
        by (cases "has_red_child (frame_sibling f')")
           (simp_all add: is_rb_plug top_black_Cons del: plug.simps)
    next
      case 2
      with t s above rem_rotate_ok [of f t] Black show ?thesis by (simp add: is_rb_plug)
    next
      case 3
      then have "is_rb (rem_fix ctx (up (redden_sibling f) t))"
        using t s above redden_ok [of f t] ctx_c_Black [OF above(1)] by (intro Cons.IH) simp_all
      with 3 Black show ?thesis by simp
    qed
  qed
qed

end
