(* ===== verification/Rbtree_Heap.thy ===== *)
theory Rbtree_Heap
  imports Rbtree_Code Rbtree_Shape
begin

text \<open>
  When the memory of the tree represents a tree of addresses, and what the accessor macros, the
  rotations and the path functions of \<open>data/rbtree.c\<close> do to the tree represented.
\<close>

section \<open>One node\<close>

text \<open>A node with its colour bit packed into an even left pointer.\<close>

definition mknode :: "rb_color \<Rightarrow> addr \<Rightarrow> addr \<Rightarrow> RBTREE_NODE" where
  "mknode c l r = \<lparr>node_lc = l OR (if c = Red then 1 else 0), node_r = r\<rparr>"

definition put :: "RBTREE \<Rightarrow> addr \<Rightarrow> RBTREE_NODE \<Rightarrow> RBTREE" where
  "put S p x = S\<lparr>nodes := (nodes S)(p \<mapsto> x)\<rparr>"

definition cell :: "RBTREE \<Rightarrow> addr \<Rightarrow> rb_color \<Rightarrow> addr \<Rightarrow> addr \<Rightarrow> bool" where
  "cell S p c l r \<longleftrightarrow> p \<noteq> NULL \<and> even p \<and> even l \<and> nodes S p = Some (mknode c l r)"

named_theorems heap_simps \<open>evaluation of the accessor macros on represented nodes\<close>

lemma color_bits:
  fixes l :: addr
  assumes "even l"
  shows "(l OR 1) AND 1 = 1" "l AND 1 = 0" "(l OR 1) AND NOT 1 = l" "l AND NOT 1 = l"
    "(l OR 1) XOR 1 = l" "l XOR 1 = l OR 1"
proof -
  have z: "\<not> bit l 0" using assms by (simp add: bit_0)
  show "(l OR 1) AND 1 = 1" "l AND 1 = 0" "(l OR 1) AND NOT 1 = l" "l AND NOT 1 = l"
    "(l OR 1) XOR 1 = l" "l XOR 1 = l OR 1"
    using z by (auto intro!: bit_word_eqI simp: bit_simps bit_1_iff; metis gr0I)+
qed

lemma cell_read [heap_simps]:
  assumes "cell S p c l r"
  shows "LEFT S p = Some l" "RIGHT S p = Some r" "IS_RED S p = Some (c = Red)"
    "IS_BLACK S p = Some (c = Black)" "red_node S p = Some (c = Red)"
    "black_node S p = Some (c = Black)" "COLOR S p = Some (if c = Red then 1 else 0)"
  using assms color_bits [of l]
  by (auto simp: cell_def LEFT_def RIGHT_def COLOR_def IS_RED_def IS_BLACK_def red_node_def
      black_node_def mknode_def RED_FLAG_def load_Some)

lemma cell_write [heap_simps]:
  assumes "cell S p c l r"
  shows "MAKE_RED S p = Some (put S p (mknode Red l r))"
    "MAKE_BLACK S p = Some (put S p (mknode Black l r))"
    "TOGGLE_COLOR S p = Some (put S p (mknode (if c = Red then Black else Red) l r))"
    "SET_LEFT S p q = Some (put S p (mknode c q r))"
    "SET_RIGHT S p q = Some (put S p (mknode c l q))"
  using assms color_bits [of l]
  by (auto simp: cell_def MAKE_RED_def MAKE_BLACK_def TOGGLE_COLOR_def SET_LEFT_def SET_RIGHT_def
      update_node_def modify_def mknode_def RED_FLAG_def put_def load_Some)

lemma node_NULL [heap_simps]: "red_node S NULL = Some False" "black_node S NULL = Some True"
  by (simp_all add: red_node_def black_node_def)

lemma cell_put [heap_simps]:
  "p \<noteq> NULL \<Longrightarrow> even p \<Longrightarrow> even l \<Longrightarrow> cell (put S p (mknode c l r)) p c l r"
  "p \<noteq> q \<Longrightarrow> cell (put S q x) p c l r = cell S p c l r"
  "cell (S\<lparr>root := q\<rparr>) p c l r = cell S p c l r"
  by (simp_all add: cell_def put_def)

lemma cell_facts [heap_simps]:
  assumes "cell S p c l r"
  shows "p \<noteq> NULL" "even p" "even l"
  using assms by (simp_all add: cell_def)

lemma cell_NULL [simp]: "\<not> cell S NULL c l r"
  by (simp add: cell_def)

lemma put_fields [heap_simps]: "root (put S p x) = root S" "nodes (put S p x) = (nodes S)(p \<mapsto> x)"
  by (simp_all add: put_def)

section \<open>Trees and contexts in memory\<close>

fun ptr :: "addr rbt \<Rightarrow> addr" where
  "ptr Leaf = NULL"
| "ptr (Node c l a r) = a"

fun holds :: "RBTREE \<Rightarrow> addr rbt \<Rightarrow> bool" where
  "holds S Leaf = True"
| "holds S (Node c l a r) = (cell S a c (ptr l) (ptr r) \<and> holds S l \<and> holds S r)"

fun seg :: "RBTREE \<Rightarrow> addr frame list \<Rightarrow> addr \<Rightarrow> bool" where
  "seg S [] p = True"
| "seg S (LFrame c a s # ctx) p = (cell S a c p (ptr s) \<and> holds S s \<and> seg S ctx a)"
| "seg S (RFrame c a s # ctx) p = (cell S a c (ptr s) p \<and> even p \<and> holds S s \<and> seg S ctx a)"

text \<open>The pointer at the top of a context with \<open>p\<close> in its hole, and the one right above the hole.\<close>

definition top_of :: "addr frame list \<Rightarrow> addr \<Rightarrow> addr" where
  "top_of ctx p = (if ctx = [] then p else frame_label (last ctx))"

definition parent_ptr :: "addr frame list \<Rightarrow> addr" where
  "parent_ptr ctx = (case ctx of [] \<Rightarrow> NULL | f # _ \<Rightarrow> frame_label f)"

text \<open>The tree is \<open>T\<close>, and memory outside it is as in \<open>h\<close>.\<close>

definition rep :: "(addr \<rightharpoonup> RBTREE_NODE) \<Rightarrow> RBTREE \<Rightarrow> addr rbt \<Rightarrow> bool" where
  "rep h S T \<longleftrightarrow> holds S T \<and> root S = ptr T \<and> distinct (inorder T) \<and>
     (\<forall>p. p \<notin> set (inorder T) \<longrightarrow> nodes S p = h p)"

lemma ptr_up [simp]: "ptr (up f t) = frame_label f"
  by (cases f) simp_all

lemma top_of_simps [simp]: "top_of [] p = p" "top_of (f # ctx) p = top_of ctx (frame_label f)"
  by (simp_all add: top_of_def)

lemma ptr_plug: "ptr (plug ctx t) = top_of ctx (ptr t)"
  by (induction ctx arbitrary: t) simp_all

lemma parent_ptr_simps [simp]: "parent_ptr [] = NULL" "parent_ptr (f # ctx) = frame_label f"
  by (simp_all add: parent_ptr_def)

lemma cellD: "cell S p c l r \<Longrightarrow> p \<noteq> NULL \<and> even p \<and> even l"
  by (simp add: cell_def)

lemma ptr_even [heap_simps]: "holds S t \<Longrightarrow> even (ptr t)"
  by (cases t) (auto dest: cellD)

lemma holds_plug: "holds S (plug ctx t) \<longleftrightarrow> seg S ctx (ptr t) \<and> holds S t"
proof (induction ctx arbitrary: t)
  case (Cons f ctx)
  then show ?case by (cases f) (auto dest: ptr_even)
qed simp

lemma seg_append: "seg S (ctx @ ctx') p \<longleftrightarrow> seg S ctx p \<and> seg S ctx' (top_of ctx p)"
proof (induction ctx arbitrary: p)
  case (Cons f ctx)
  then show ?case by (cases f) auto
qed simp

lemma holds_frame [heap_simps]: "p \<notin> set (inorder t) \<Longrightarrow> holds (put S p x) t = holds S t"
  by (induction t) (auto simp: cell_put)

lemma holds_root [heap_simps]: "holds (S\<lparr>root := q\<rparr>) t = holds S t"
  by (induction t) (auto simp: cell_put)

lemma seg_frame [heap_simps]:
  "p \<notin> set (lefts ctx) \<Longrightarrow> p \<notin> set (rights ctx) \<Longrightarrow> seg (put S p x) ctx q = seg S ctx q"
  by (induction S ctx q rule: seg.induct) (auto simp: cell_put holds_frame)

lemma seg_root [heap_simps]: "seg (S\<lparr>root := r\<rparr>) ctx q = seg S ctx q"
  by (induction S ctx q rule: seg.induct) (auto simp: cell_put holds_root)

lemma addr_nonnull: "holds S t \<Longrightarrow> a \<in> set (inorder t) \<Longrightarrow> a \<noteq> NULL \<and> even a"
  by (induction t) (auto dest: cellD)

lemma ptr_in: "ptr t \<noteq> NULL \<Longrightarrow> ptr t \<in> set (inorder t)"
  by (cases t) auto

lemma ptr_neq [heap_simps]: "a \<noteq> NULL \<Longrightarrow> a \<notin> set (inorder t) \<Longrightarrow> ptr t \<noteq> a \<and> a \<noteq> ptr t"
  by (cases t) auto

lemma rep_plug: "rep h S (plug ctx t) \<longleftrightarrow> seg S ctx (ptr t) \<and> holds S t \<and> root S = top_of ctx (ptr t) \<and>
    distinct (lefts ctx @ inorder t @ rights ctx) \<and>
    (\<forall>p. p \<notin> set (lefts ctx) \<union> set (inorder t) \<union> set (rights ctx) \<longrightarrow> nodes S p = h p)"
  by (auto simp: rep_def holds_plug ptr_plug inorder_plug)

section \<open>Reading and repainting a node\<close>

lemma rep_cell: "rep h S (plug ctx (Node c l a r)) \<Longrightarrow> cell S a c (ptr l) (ptr r)"
  by (simp add: rep_plug)

lemma rep_repaint:
  "rep h S (plug ctx (Node c l a r)) \<Longrightarrow>
     rep h (put S a (mknode c' (ptr l) (ptr r))) (plug ctx (Node c' l a r))"
  by (auto simp: rep_plug heap_simps dest: cellD)

lemma rep_up: "rep h S (plug (f # ctx) t) \<longleftrightarrow> rep h S (plug ctx (up f t))"
  by simp

section \<open>Rotations\<close>

lemma rotate_left:
  assumes "rep h S (plug ctx (Node c l a (Node c' m b r)))"
  shows "\<exists>S'. rbtree_rotate_left S (parent_ptr ctx) a = Some S' \<and>
    rep h S' (plug ctx (Node c' (Node c l a m) b r))"
proof (cases ctx)
  case Nil
  with assms show ?thesis
    by (auto simp: rep_def rbtree_rotate_left_def heap_simps)
next
  case (Cons f ctx')
  show ?thesis
  proof (cases f)
    case (LFrame d p s)
    with Cons assms show ?thesis
      by (auto simp: rep_plug rbtree_rotate_left_def heap_simps)
  next
    case (RFrame d p s)
    with Cons assms show ?thesis
      by (auto simp: rep_plug rbtree_rotate_left_def heap_simps)
  qed
qed

lemma rotate_right:
  assumes "rep h S (plug ctx (Node c (Node c' l b m) a r))"
  shows "\<exists>S'. rbtree_rotate_right S (parent_ptr ctx) a = Some S' \<and>
    rep h S' (plug ctx (Node c' l b (Node c m a r)))"
proof (cases ctx)
  case Nil
  with assms show ?thesis
    by (auto simp: rep_def rbtree_rotate_right_def heap_simps)
next
  case (Cons f ctx')
  show ?thesis
  proof (cases f)
    case (LFrame d p s)
    with Cons assms show ?thesis
      by (auto simp: rep_plug rbtree_rotate_right_def heap_simps)
  next
    case (RFrame d p s)
    with Cons assms show ?thesis
      by (auto simp: rep_plug rbtree_rotate_right_def heap_simps)
  qed
qed

lemma make_color:
  assumes "rep h S (plug ctx (Node c l a r))"
  shows "\<exists>S'. MAKE_BLACK S a = Some S' \<and> rep h S' (plug ctx (Node Black l a r))"
    and "\<exists>S'. MAKE_RED S a = Some S' \<and> rep h S' (plug ctx (Node Red l a r))"
    and "\<exists>S'. TOGGLE_COLOR S a = Some S' \<and>
      rep h S' (plug ctx (Node (if c = Red then Black else Red) l a r))"
  using rep_cell [OF assms] rep_repaint [OF assms] by (auto simp: heap_simps)


section \<open>The capacity of the path\<close>

lemma even_words: "card {a :: addr. even a \<and> a \<noteq> 0} < 2 ^ 63"
proof -
  have u: "unat a < 2 ^ 64" for a :: addr using unsigned_less [of a, where ?'a = nat] by simp
  have e: "even a \<longleftrightarrow> even (unat a)" for a :: addr
  proof -
    have "unat (a mod 2) = unat a mod 2" by (simp add: unat_mod)
    then show ?thesis using unat_eq_zero [of "a mod 2"] by (simp add: even_iff_mod_2_eq_zero)
  qed
  have inj: "inj_on (\<lambda>a :: addr. unat a div 2) {a. even a \<and> a \<noteq> 0}"
    by (rule inj_onI) (metis (mono_tags) e dvd_mult_div_cancel mem_Collect_eq word_unat_eq_iff)
  have "(\<lambda>a :: addr. unat a div 2) ` {a. even a \<and> a \<noteq> 0} \<subseteq> {1..<2 ^ 63}"
  proof
    fix n assume "n \<in> (\<lambda>a :: addr. unat a div 2) ` {a. even a \<and> a \<noteq> 0}"
    then obtain a :: addr where a: "n = unat a div 2" "even (unat a)" "unat a \<noteq> 0"
      using e by (auto simp: unat_eq_zero)
    then have "2 \<le> unat a" by presburger
    with a(1) u [of a] show "n \<in> {1..<2 ^ 63}"
      by (simp add: Suc_le_eq div_greater_zero_iff less_mult_imp_div_less)
  qed
  then have "card {a :: addr. even a \<and> a \<noteq> 0} \<le> card {1..<2 ^ 63 :: nat}"
    using inj by (intro card_inj_on_le) simp_all
  also have "card {1..<2 ^ 63 :: nat} < 2 ^ 63" by (simp only: card_atLeastLessThan) simp
  finally show ?thesis .
qed

lemma rep_height:
  assumes "rep h S T" "is_rb T"
  shows "height T \<le> 126"
proof -
  have "set (inorder T) \<subseteq> {a. even a \<and> a \<noteq> 0}"
    using assms(1) addr_nonnull [of S T] by (auto simp: rep_def)
  then have "card (set (inorder T)) \<le> card {a :: addr. even a \<and> a \<noteq> 0}"
    by (rule card_mono [rotated]) simp
  moreover have "card (set (inorder T)) = tsize T"
    using assms(1) by (simp add: rep_def distinct_card)
  ultimately have "tsize T < 2 ^ 63" using even_words by linarith
  from height_log [OF assms(2) this] show ?thesis by simp
qed

end
