(* ===== verification/Comparator.thy ===== *)
theory Comparator
  imports CRE_Prelude
begin

text \<open>
  The contract of a comparator function (\<open>RBTREE_CMP_FUNC\<close> of \<open>data/rbtree.h\<close>): the sign of its
  result orders its arguments.
\<close>

locale comparator =
  fixes cmp :: "'a \<Rightarrow> 'a \<Rightarrow> int"
  assumes cmp_swap: "cmp a b < 0 \<longleftrightarrow> 0 < cmp b a"
    and cmp_trans: "cmp a b \<le> 0 \<Longrightarrow> cmp b c \<le> 0 \<Longrightarrow> cmp a c \<le> 0"
begin

lemma cmp_refl: "cmp a a = 0"
  using cmp_swap [of a a] by linarith

lemma cmp_eq_swap: "cmp a b = 0 \<longleftrightarrow> cmp b a = 0"
  using cmp_swap [of a b] cmp_swap [of b a] by linarith

lemma cmp_ge_swap: "0 \<le> cmp a b \<longleftrightarrow> cmp b a \<le> 0"
  using cmp_swap [of a b] by linarith

lemma cmp_less_le: "cmp a b < 0 \<Longrightarrow> cmp b c \<le> 0 \<Longrightarrow> cmp a c < 0"
  using cmp_trans [of b c a] cmp_ge_swap [of a c] cmp_ge_swap [of a b] by linarith

lemma cmp_le_less: "cmp a b \<le> 0 \<Longrightarrow> cmp b c < 0 \<Longrightarrow> cmp a c < 0"
  using cmp_trans [of c a b] cmp_ge_swap [of a c] cmp_ge_swap [of b c] by linarith

lemma cmp_less_trans: "cmp a b < 0 \<Longrightarrow> cmp b c < 0 \<Longrightarrow> cmp a c < 0"
  using cmp_less_le [of a b c] by simp

lemma cmp_greater_trans: "0 < cmp a b \<Longrightarrow> 0 < cmp b c \<Longrightarrow> 0 < cmp a c"
  using cmp_less_trans [of c b a] by (simp add: cmp_swap)

lemma comparator_key: "comparator (\<lambda>x y. cmp (f x) (f y))"
  by unfold_locales (auto simp: cmp_swap intro: cmp_trans)

end

end
