(* ===== verification/Rbtree_Insert.thy ===== *)
theory Rbtree_Insert
  imports Rbtree_Heap Comparator
begin

text \<open>
  Correctness of \<open>rbtree_insert\<close>: its fix-up loop computes the rebalancing of the shapes, and
  the whole function is insertion into the ordered set of the represented nodes.
\<close>

section \<open>The fix-up loop\<close>

lemma outer_left:
  assumes "rep h S (plug ctx (Node d (Node c t p s) q u))"
  shows "\<exists>S'. do { S \<leftarrow> rbtree_rotate_right S (parent_ptr ctx) q; S \<leftarrow> MAKE_BLACK S p; MAKE_RED S q } = Some S' \<and>
    rep h S' (plug ctx (Node Black t p (Node Red s q u)))"
proof -
  obtain S1 where 1: "rbtree_rotate_right S (parent_ptr ctx) q = Some S1"
      "rep h S1 (plug ctx (Node c t p (Node d s q u)))"
    using rotate_right [OF assms] by auto
  obtain S2 where 2: "MAKE_BLACK S1 p = Some S2" "rep h S2 (plug ctx (Node Black t p (Node d s q u)))"
    using make_color(1) [OF 1(2)] by auto
  then have "rep h S2 (plug (RFrame Black p t # ctx) (Node d s q u))" by simp
  from make_color(2) [OF this] 1 2 show ?thesis by auto
qed

lemma outer_right:
  assumes "rep h S (plug ctx (Node d u q (Node c s p t)))"
  shows "\<exists>S'. do { S \<leftarrow> rbtree_rotate_left S (parent_ptr ctx) q; S \<leftarrow> MAKE_BLACK S p; MAKE_RED S q } = Some S' \<and>
    rep h S' (plug ctx (Node Black (Node Red u q s) p t))"
proof -
  obtain S1 where 1: "rbtree_rotate_left S (parent_ptr ctx) q = Some S1"
      "rep h S1 (plug ctx (Node c (Node d u q s) p t))"
    using rotate_left [OF assms] by auto
  obtain S2 where 2: "MAKE_BLACK S1 p = Some S2" "rep h S2 (plug ctx (Node Black (Node d u q s) p t))"
    using make_color(1) [OF 1(2)] by auto
  then have "rep h S2 (plug (LFrame Black p t # ctx) (Node d u q s))" by simp
  from make_color(2) [OF this] 1 2 show ?thesis by auto
qed

text \<open>The path of a context, above the pointer in its hole.\<close>

definition path_of :: "addr frame list \<Rightarrow> addr \<Rightarrow> RBTREE_CURSOR" where
  "path_of ctx p = p # map frame_label ctx"

lemma path_of_top:
  "path_top (path_of ctx p) (Suc 0) = Some p"
  "path_top (path_of (f # ctx) p) 2 = Some (frame_label f)"
  "path_top (path_of (f # g # ctx) p) 3 = Some (frame_label g)"
  "(if 3 < length (path_of (f # g # ctx) p) then path_top (path_of (f # g # ctx) p) 4 else Some NULL) =
     Some (parent_ptr ctx)"
  "length (path_of ctx p) = Suc (length ctx)"
  by (cases ctx; simp add: path_of_def path_top_def peek_def numeral_eq_Suc)+

lemma path_of_parent:
  "(if 1 < length (path_of ctx p) then path_top (path_of ctx p) 2 else Some NULL) = Some (parent_ptr ctx)"
  by (cases ctx) (simp_all add: path_of_top)

lemma drop_path_of: "drop 2 (path_of (f # g # ctx) p) = path_of ctx (frame_label g)"
  by (simp add: path_of_def numeral_2_eq_2)

lemma not_child:
  assumes "holds S u" "x \<notin> set (inorder u)" "x \<noteq> NULL"
  shows "(if ptr u \<noteq> NULL then do { y \<leftarrow> RIGHT S (ptr u); Some (x = y) } else Some False) = Some False"
    and "(if ptr u \<noteq> NULL then do { y \<leftarrow> LEFT S (ptr u); Some (x = y) } else Some False) = Some False"
  using assms by (cases u; auto simp: heap_simps)+

lemma insert_fixup_rotate:
  assumes R: "rep h S (plug (f # g # ctx) t)" and t: "t = Node Red l x r" and f: "frame_color f = Red"
  shows "\<exists>S'. insert_fixup_rotate S (path_of (f # g # ctx) x) x (frame_label f) (frame_label g) = Some S' \<and>
    rep h S' (plug ctx (ins_rotate f g t))"
proof -
  note code = insert_fixup_rotate_def path_of_top(4)
  note R = R [unfolded t]
  consider (LL) p s d q u where "f = LFrame Red p s" "g = LFrame d q u"
    | (RR) p s d q u where "f = RFrame Red p s" "g = RFrame d q u"
    | (RL) p s d q u where "f = RFrame Red p s" "g = LFrame d q u"
    | (LR) p s d q u where "f = LFrame Red p s" "g = RFrame d q u"
    using f by (cases f; cases g) auto
  then show ?thesis
  proof cases
    case LL
    have "cell S x Red (ptr l) (ptr r)" "cell S p Red x (ptr s)" "cell S q d p (ptr u)"
      "holds S u" "x \<notin> set (inorder u)" "x \<notin> set (inorder s)"
      using R LL by (simp_all add: rep_plug)
    with LL t outer_left [of h S ctx d Red "Node Red l x r" p s q u] R show ?thesis
      by (auto simp: code not_child cell_read cell_facts ptr_neq)
  next
    case RR
    have "cell S x Red (ptr l) (ptr r)" "cell S p Red (ptr s) x" "cell S q d (ptr u) p"
      "holds S u" "x \<notin> set (inorder u)" "x \<notin> set (inorder s)"
      using R RR by (simp_all add: rep_plug)
    with RR t outer_right [of h S ctx d u q Red s p "Node Red l x r"] R show ?thesis
      by (auto simp: code not_child cell_read cell_facts ptr_neq)
  next
    case RL
    have 0: "cell S p Red (ptr s) x" "cell S q d p (ptr u)"
      using R RL by (simp_all add: rep_plug)
    obtain S1 where 1: "rbtree_rotate_left S q p = Some S1"
        "rep h S1 (plug ctx (Node d (Node Red (Node Red s p l) x r) q u))"
      using rotate_left [of h S "LFrame d q u # ctx" Red s p Red l x r] R RL by auto
    then have "cell S1 x Red p (ptr r)" by (simp add: rep_plug)
    with RL t 0 1 outer_left [OF 1(2)] show ?thesis by (auto simp: code cell_read cell_facts)
  next
    case LR
    have 0: "cell S x Red (ptr l) (ptr r)" "cell S p Red x (ptr s)" "cell S q d (ptr u) p"
        "holds S u" "x \<notin> set (inorder u)"
      using R LR by (simp_all add: rep_plug)
    obtain S1 where 1: "rbtree_rotate_right S q p = Some S1"
        "rep h S1 (plug ctx (Node d u q (Node Red l x (Node Red r p s))))"
      using rotate_right [of h S "RFrame d q u # ctx" Red Red l x r p s] R LR by auto
    then have "cell S1 x Red (ptr l) p" "p \<notin> set (inorder l)" by (simp_all add: rep_plug)
    with LR t 0 1 outer_right [OF 1(2)] show ?thesis
      by (auto simp: code not_child cell_read cell_facts ptr_neq)
  qed
qed

lemma black_node_ptr: "holds S u \<Longrightarrow> black_node S (ptr u) = Some (color u = Black)"
  by (cases u) (auto simp: heap_simps)

lemma insert_fixup_recolor:
  assumes R: "rep h S (plug (f # g # ctx) t)" and f: "frame_color f = Red"
    and u: "color (frame_sibling g) = Red"
  shows "\<exists>S'. do { S \<leftarrow> MAKE_BLACK S (frame_label f); S \<leftarrow> MAKE_BLACK S (ptr (frame_sibling g));
      MAKE_RED S (frame_label g) } = Some S' \<and> rep h S' (plug ctx (recolor f g t))"
proof -
  obtain l p r where v: "up f t = Node Red l p r" "frame_label f = p" using f by (cases f) auto
  obtain ul b ur where b: "frame_sibling g = Node Red ul b ur" using u by (cases "frame_sibling g") auto
  have R: "rep h S (plug (g # ctx) (Node Red l p r))" using R v by simp
  obtain S1 where 1: "MAKE_BLACK S p = Some S1" "rep h S1 (plug (g # ctx) (Node Black l p r))"
    using make_color(1) [OF R] by auto
  show ?thesis
  proof (cases g)
    case (LFrame d q u)
    have "rep h S1 (plug (RFrame d q (Node Black l p r) # ctx) (Node Red ul b ur))"
      using 1(2) b LFrame by simp
    from make_color(1) [OF this] obtain S2 where 2: "MAKE_BLACK S1 b = Some S2"
        "rep h S2 (plug ctx (Node d (Node Black l p r) q (Node Black ul b ur)))"
      by auto
    show ?thesis using 1(1) 2(1) make_color(2) [OF 2(2)] v b LFrame by auto
  next
    case (RFrame d q u)
    have "rep h S1 (plug (LFrame d q (Node Black l p r) # ctx) (Node Red ul b ur))"
      using 1(2) b RFrame by simp
    from make_color(1) [OF this] obtain S2 where 2: "MAKE_BLACK S1 b = Some S2"
        "rep h S2 (plug ctx (Node d (Node Black ul b ur) q (Node Black l p r)))"
      by auto
    show ?thesis using 1(1) 2(1) make_color(2) [OF 2(2)] v b RFrame by auto
  qed
qed

lemma ptr_eq_disjoint:
  "set (inorder t) \<inter> set (inorder u) = {} \<Longrightarrow> ptr t = ptr u \<Longrightarrow> ptr t = NULL \<and> ptr u = NULL"
  by (cases t; cases u) auto

lemma ptr_NULL: "holds S t \<Longrightarrow> ptr t = NULL \<longleftrightarrow> t = Leaf"
  by (cases t) (auto dest: cellD)

text \<open>What the fix-up loops read of the node above the current one.\<close>

lemma frame_reads:
  assumes R: "rep h S (plug (f # ctx) t)"
  shows "IS_BLACK S (frame_label f) = Some (frame_color f = Black)" "frame_label f \<noteq> NULL"
    and "t \<noteq> Leaf \<or> frame_sibling f \<noteq> Leaf \<Longrightarrow>
      \<exists>l. LEFT S (frame_label f) = Some l \<and>
        (if ptr t = l then RIGHT S (frame_label f) else LEFT S (frame_label f)) = Some (ptr (frame_sibling f))"
    and "holds S (frame_sibling f)" "holds S t"
proof -
  show h: "holds S (frame_sibling f)" "holds S t" using R by (cases f; simp add: rep_plug)+
  have D: "set (inorder t) \<inter> set (inorder (frame_sibling f)) = {}"
    using R by (cases f) (auto simp: rep_plug)
  have neq: "ptr t \<noteq> ptr (frame_sibling f)" if "t \<noteq> Leaf \<or> frame_sibling f \<noteq> Leaf"
    using that ptr_eq_disjoint [OF D] ptr_NULL [OF h(1)] ptr_NULL [OF h(2)] by metis
  consider (left) "cell S (frame_label f) (frame_color f) (ptr t) (ptr (frame_sibling f))"
    | (right) "cell S (frame_label f) (frame_color f) (ptr (frame_sibling f)) (ptr t)"
    using R by (cases f) (auto simp: rep_plug)
  note c = this
  from c show "IS_BLACK S (frame_label f) = Some (frame_color f = Black)" "frame_label f \<noteq> NULL"
    by (cases; simp add: cell_read cell_facts)+
  from c show "t \<noteq> Leaf \<or> frame_sibling f \<noteq> Leaf \<Longrightarrow> \<exists>l. LEFT S (frame_label f) = Some l \<and>
      (if ptr t = l then RIGHT S (frame_label f) else LEFT S (frame_label f)) = Some (ptr (frame_sibling f))"
    using neq by (cases; simp add: cell_read)
qed

lemma up_neq_Leaf: "up f t \<noteq> Leaf"
  by (cases f) simp_all

lemma insert_fixup:
  assumes "rep h S (plug ctx t)" "t = Node Red l x r" "top_black ctx"
  shows "\<exists>S'. rbtree_insert_fixup S (path_of ctx x) = Some S' \<and> rep h S' (ins_fix ctx t)"
  using assms
proof (induction ctx t arbitrary: S l x r rule: ins_fix.induct)
  case (1 t)
  obtain S' where S': "MAKE_BLACK S x = Some S'" "rep h S' (plug [] (Node Black l x r))"
    using make_color(1) [of h S "[]" Red l x r] 1 by auto
  then have "root S' = x" by (simp add: rep_def)
  then have "S'\<lparr>root := x\<rparr> = S'" by auto
  then show ?case
    using S' 1 by (subst rbtree_insert_fixup.simps) (simp add: path_of_top path_of_parent)
next
  case (2 f t)
  then show ?case
    using frame_reads [of h S f "[]" t]
    by (subst rbtree_insert_fixup.simps) (auto simp: path_of_top path_of_parent top_black_def)
next
  case (3 f g ctx t)
  note fr = frame_reads [OF 3(2)]
  note gr = frame_reads [of h S g ctx "up f t"]
  show ?case
  proof (cases "frame_color f")
    case Black
    then show ?thesis using 3(2,3) fr
      by (subst rbtree_insert_fixup.simps) (simp add: path_of_top path_of_parent)
  next
    case Red
    have start: "rbtree_insert_fixup S (path_of (f # g # ctx) x) =
       (if color (frame_sibling g) = Black
        then insert_fixup_rotate S (path_of (f # g # ctx) x) x (frame_label f) (frame_label g)
        else do { S \<leftarrow> MAKE_BLACK S (frame_label f); S \<leftarrow> MAKE_BLACK S (ptr (frame_sibling g));
            S \<leftarrow> MAKE_RED S (frame_label g); rbtree_insert_fixup S (path_of ctx (frame_label g)) })"
      using 3(2) fr gr Red black_node_ptr [of S "frame_sibling g"] up_neq_Leaf [of f t]
      by (subst rbtree_insert_fixup.simps) (auto simp: path_of_top path_of_parent drop_path_of)
    show ?thesis
    proof (cases "color (frame_sibling g) = Red")
      case True
      obtain S' where S': "do { S \<leftarrow> MAKE_BLACK S (frame_label f); S \<leftarrow> MAKE_BLACK S (ptr (frame_sibling g));
          MAKE_RED S (frame_label g) } = Some S'" "rep h S' (plug ctx (recolor f g t))"
        using insert_fixup_recolor [OF 3(2) Red True] by auto
      obtain l' r' where "recolor f g t = Node Red l' (frame_label g) r'" by (cases g) auto
      moreover have "top_black ctx" using 3 by (simp add: top_black_Cons)
      ultimately show ?thesis
        using 3(1) [OF _ True S'(2)] S'(1) start Red True by (auto simp: bind_eq_Some_conv)
    next
      case False
      then show ?thesis using start Red insert_fixup_rotate [OF 3(2,3) Red] by simp
    qed
  qed
qed


section \<open>Lookup along a path\<close>

definition last_cmp :: "(addr \<Rightarrow> int) \<Rightarrow> addr frame list \<Rightarrow> int" where
  "last_cmp k ctx = (case ctx of [] \<Rightarrow> 0 | f # _ \<Rightarrow> k (frame_label f))"

lemma lookup_path:
  assumes "holds S t" "length ctx + height t \<le> path_capacity"
    "find_path k t ctx = (ctx', u)" "k = cmp_func key"
  shows "rbtree_lookup_path S (ptr t) key cmp_func (last_cmp k ctx) (map frame_label ctx) =
    Some (if u = Leaf then (last_cmp k ctx', map frame_label ctx') else (0, path_of ctx' (ptr u)))"
  using assms
proof (induction k t ctx rule: find_path.induct)
  case (1 k ctx)
  then show ?case by (subst rbtree_lookup_path.simps) simp
next
  case (2 k c l a r ctx)
  have cell: "cell S a c (ptr l) (ptr r)" "holds S l" "holds S r" using 2(3) by simp_all
  have len: "length ctx < path_capacity" using 2(4) by simp
  have len': "length (LFrame c a r # ctx) + height l \<le> path_capacity"
    "length (RFrame c a l # ctx) + height r \<le> path_capacity" using 2(4) by simp_all
  consider "k a = 0" | "k a < 0" | "0 < k a" by linarith
  then show ?case
  proof cases
    case 1
    with 2(5,6) cell len show ?thesis
      by (subst rbtree_lookup_path.simps) (auto simp: path_push_def path_of_def cell_facts)
  next
    case less: 2
    with 2(1) [OF _ _ cell(2) len'(1)] 2(5,6) cell len show ?thesis
      by (subst rbtree_lookup_path.simps) (simp add: path_push_def cell_read cell_facts last_cmp_def)
  next
    case 3
    with 2(2) [OF _ _ cell(3) len'(2)] 2(5,6) cell len show ?thesis
      by (subst rbtree_lookup_path.simps) (simp add: path_push_def cell_read cell_facts last_cmp_def)
  qed
qed

lemma find_path_Node: "find_path k t ctx = (ctx', Node c l a r) \<Longrightarrow> k a = 0"
  by (induction k t ctx rule: find_path.induct) (auto split: if_splits)

text \<open>Each frame of a descent is on the side its comparison says, and so are all the labels.\<close>

definition ctx_dir :: "(addr \<Rightarrow> int) \<Rightarrow> addr frame list \<Rightarrow> bool" where
  "ctx_dir k ctx = (case ctx of [] \<Rightarrow> True | LFrame c a s # _ \<Rightarrow> k a < 0 | RFrame c a s # _ \<Rightarrow> 0 < k a)"

lemma find_path_dir: "find_path k t ctx = (ctx', u) \<Longrightarrow> ctx_dir k ctx \<Longrightarrow> ctx_dir k ctx'"
  by (induction k t ctx rule: find_path.induct) (auto simp: ctx_dir_def split: if_splits)

definition descent_ok :: "(addr \<Rightarrow> int) \<Rightarrow> addr frame list \<Rightarrow> bool" where
  "descent_ok k ctx \<longleftrightarrow> (\<forall>a \<in> set (lefts ctx). 0 < k a) \<and> (\<forall>a \<in> set (rights ctx). k a < 0)"

text \<open>The nodes of the tree are in the order of the comparator, with no two equal ones.\<close>

definition ordered :: "RBTREE_CMP_FUNC \<Rightarrow> addr list \<Rightarrow> bool" where
  "ordered cmp xs \<longleftrightarrow> sorted_wrt (\<lambda>a b. cmp a b < 0) xs"

lemma find_path_order:
  assumes "comparator cmp" "find_path (cmp key) t ctx = (ctx', u)"
    "ordered cmp (inorder (plug ctx t))" "descent_ok (cmp key) ctx"
  shows "descent_ok (cmp key) ctx'"
  using assms(2-)
proof (induction t arbitrary: ctx)
  case (Node c l a r)
  note cmp_less_trans = comparator.cmp_less_trans [OF assms(1)]
    and cmp_greater_trans = comparator.cmp_greater_trans [OF assms(1)]
    and cmp_swap = comparator.cmp_swap [OF assms(1)]
  consider "cmp key a = 0" | "cmp key a < 0" | "0 < cmp key a" by linarith
  then show ?case
  proof cases
    case 2
    have "\<forall>b \<in> set (inorder r). cmp key b < 0"
      using Node.prems(2) 2 cmp_less_trans by (auto simp: ordered_def inorder_plug sorted_wrt_append)
    with 2 Node.prems show ?thesis
      by (intro Node.IH(1) [of "LFrame c a r # ctx"]) (auto simp: descent_ok_def)
  next
    case 3
    have "\<forall>b \<in> set (inorder l). cmp b a < 0"
      using Node.prems(2) by (auto simp: ordered_def inorder_plug sorted_wrt_append)
    then have "\<forall>b \<in> set (inorder l). 0 < cmp key b"
      using 3 cmp_greater_trans [of key a] by (auto simp: cmp_swap)
    with 3 Node.prems show ?thesis
      by (intro Node.IH(2) [of "RFrame c a l # ctx"]) (auto simp: descent_ok_def)
  qed (use Node.prems in simp)
qed simp


section \<open>Insertion\<close>

text \<open>
  The memory holds a red-black tree that is ordered by the comparator and whose nodes, in that
  order, are \<open>xs\<close>.
\<close>

definition rbtree_holds :: "RBTREE_CMP_FUNC \<Rightarrow> RBTREE \<Rightarrow> addr list \<Rightarrow> bool" where
  "rbtree_holds cmp S xs \<longleftrightarrow>
     (\<exists>T. rep (nodes S) S T \<and> is_rb T \<and> inorder T = xs \<and> ordered cmp xs)"

lemma prepare_node:
  assumes "nodes S p = Some x" "p \<noteq> NULL"
  shows "SET_LEFT S p NULL = Some (put S p (x\<lparr>node_lc := node_lc x AND 1\<rparr>))"
    and "SET_RIGHT (put S p (x\<lparr>node_lc := node_lc x AND 1\<rparr>)) p NULL =
      Some (put S p (x\<lparr>node_lc := node_lc x AND 1, node_r := NULL\<rparr>))"
    and "MAKE_RED (put S p (x\<lparr>node_lc := node_lc x AND 1, node_r := NULL\<rparr>)) p =
      Some (put S p (mknode Red NULL NULL))"
proof -
  have "(node_lc x AND 1) OR 1 = (1 :: addr)" by (rule bit_word_eqI) (auto simp: bit_simps)
  then show "MAKE_RED (put S p (x\<lparr>node_lc := node_lc x AND 1, node_r := NULL\<rparr>)) p =
      Some (put S p (mknode Red NULL NULL))"
    using assms by (cases x) (simp add: MAKE_RED_def update_node_def modify_def load_def put_def mknode_def RED_FLAG_def)
qed (use assms in \<open>simp_all add: SET_LEFT_def SET_RIGHT_def update_node_def modify_def load_def put_def RED_FLAG_def\<close>)

text \<open>The fresh red node becomes the child of the last node of the path, or the root.\<close>

lemma attach_node:
  assumes R: "rep h S (plug ctx Leaf)" and p: "p \<noteq> NULL" "even p" "p \<notin> set (inorder (plug ctx Leaf))"
    and d: "ctx_dir k ctx"
  shows "\<exists>S'. (if 0 < length ctx then
        if last_cmp k ctx < 0 then SET_LEFT (put S p (mknode Red NULL NULL)) (parent_ptr ctx) p
        else SET_RIGHT (put S p (mknode Red NULL NULL)) (parent_ptr ctx) p
      else Some ((put S p (mknode Red NULL NULL))\<lparr>root := p\<rparr>)) = Some S' \<and>
    rep h S' (plug ctx (Node Red Leaf p Leaf))"
proof (cases ctx)
  case Nil
  with R p show ?thesis by (simp add: rep_def heap_simps)
next
  case (Cons f ctx')
  show ?thesis
  proof (cases f)
    case (LFrame c a s)
    then have "cell S a c NULL (ptr s)" "p \<noteq> a" "k a < 0"
      using R p d Cons by (auto simp: rep_plug inorder_plug ctx_dir_def)
    then have "SET_LEFT (put S p (mknode Red NULL NULL)) a p =
        Some (put (put S p (mknode Red NULL NULL)) a (mknode c p (ptr s)))"
      by (intro cell_write(4)) (simp add: cell_put)
    with R p d Cons LFrame \<open>k a < 0\<close> show ?thesis
      by (auto simp: rep_plug last_cmp_def heap_simps inorder_plug)
  next
    case (RFrame c a s)
    then have "cell S a c (ptr s) NULL" "p \<noteq> a" "\<not> k a < 0"
      using R p d Cons by (auto simp: rep_plug inorder_plug ctx_dir_def)
    then have "SET_RIGHT (put S p (mknode Red NULL NULL)) a p =
        Some (put (put S p (mknode Red NULL NULL)) a (mknode c (ptr s) p))"
      by (intro cell_write(5)) (simp add: cell_put)
    with R p d Cons RFrame \<open>\<not> k a < 0\<close> show ?thesis
      by (auto simp: rep_plug last_cmp_def heap_simps inorder_plug)
  qed
qed


lemma ordered_split:
  assumes "descent_ok (cmp key) ctx"
  shows "[a \<leftarrow> lefts ctx @ rights ctx. 0 < cmp key a] = lefts ctx"
    "[a \<leftarrow> lefts ctx @ rights ctx. cmp key a < 0] = rights ctx"
proof -
  have l: "\<forall>a \<in> set (lefts ctx). 0 < cmp key a" and r: "\<forall>a \<in> set (rights ctx). cmp key a < 0"
    using assms by (simp_all add: descent_ok_def)
  then have "[a \<leftarrow> rights ctx. 0 < cmp key a] = []" "[a \<leftarrow> lefts ctx. cmp key a < 0] = []"
    by (force simp: filter_empty_conv)+
  with l r show "[a \<leftarrow> lefts ctx @ rights ctx. 0 < cmp key a] = lefts ctx"
    "[a \<leftarrow> lefts ctx @ rights ctx. cmp key a < 0] = rights ctx"
    by (auto intro!: filter_True)
qed

text \<open>What a lookup from the root finds: the path, and where the key is in the order.\<close>

lemma lookup_root:
  assumes cmp: "comparator cmp" and R: "rep h S T" "is_rb T" "ordered cmp (inorder T)"
  obtains ctx u where "find_path (cmp key) T [] = (ctx, u)"
    "plug ctx u = T" "ctx_dir (cmp key) ctx" "descent_ok (cmp key) ctx"
    "rbtree_lookup_path S (root S) key cmp 0 [] =
      Some (if u = Leaf then (last_cmp (cmp key) ctx, map frame_label ctx) else (0, path_of ctx (ptr u)))"
    "u \<noteq> Leaf \<Longrightarrow> cmp key (ptr u) = 0" "length ctx + height u \<le> 126"
proof -
  obtain ctx u where f: "find_path (cmp key) T [] = (ctx, u)" by fastforce
  have plug: "plug ctx u = T" using plug_find_path [OF f] by simp
  have "rbtree_lookup_path S (ptr T) key cmp (last_cmp (cmp key) []) (map frame_label []) =
      Some (if u = Leaf then (last_cmp (cmp key) ctx, map frame_label ctx) else (0, path_of ctx (ptr u)))"
    using lookup_path [of S T "[]" "cmp key" ctx u cmp key] f R(1) rep_height [OF R(1,2)]
    by (simp add: rep_def path_capacity_def)
  moreover have "ctx_dir (cmp key) ctx" using find_path_dir [OF f] by (simp add: ctx_dir_def)
  moreover have "descent_ok (cmp key) ctx"
    using find_path_order [OF cmp f] R(3) by (simp add: descent_ok_def)
  moreover have "u \<noteq> Leaf \<Longrightarrow> cmp key (ptr u) = 0"
    using f find_path_Node [of "cmp key" T "[]" ctx] by (cases u) auto
  moreover have "length ctx + height u \<le> 126"
    using height_plug [of ctx u] rep_height [OF R(1,2)] plug by simp
  ultimately show ?thesis
    using that f plug R(1) by (simp add: last_cmp_def rep_def)
qed

lemma dir_nonzero: "ctx_dir k ctx \<Longrightarrow> ctx \<noteq> [] \<Longrightarrow> last_cmp k ctx \<noteq> 0"
  by (cases ctx; cases "hd ctx") (auto simp: ctx_dir_def last_cmp_def)

lemma insert_code:
  assumes "rbtree_lookup_path S (root S) node cmp 0 [] = Some (last_cmp k ctx, map frame_label ctx)"
    and d: "ctx_dir k ctx" and len: "length ctx \<le> 126" and node: "nodes S node = Some x" "node \<noteq> NULL"
  shows "rbtree_insert S node cmp = do {
    S \<leftarrow> (if 0 < length ctx then
        if last_cmp k ctx < 0 then SET_LEFT (put S node (mknode Red NULL NULL)) (parent_ptr ctx) node
        else SET_RIGHT (put S node (mknode Red NULL NULL)) (parent_ptr ctx) node
      else Some ((put S node (mknode Red NULL NULL))\<lparr>root := node\<rparr>));
    S \<leftarrow> rbtree_insert_fixup S (path_of ctx node);
    Some (0, S) }"
proof -
  have "path_push (map frame_label ctx) node = Some (path_of ctx node)"
    using len by (simp add: path_push_def path_capacity_def path_of_def)
  moreover have "ctx \<noteq> [] \<Longrightarrow> path_top (map frame_label ctx) (Suc 0) = Some (parent_ptr ctx)"
    by (cases ctx) (simp_all add: path_top_def peek_def)
  ultimately show ?thesis
    using assms(1) dir_nonzero [OF d] prepare_node [OF node]
    by (cases "ctx = []") (simp_all add: rbtree_insert_def)
qed

lemma rbtree_insert_effect:
  assumes cmp: "comparator cmp" and tree: "rbtree_holds cmp S xs"
    and node: "node \<noteq> NULL" "even node" "node \<notin> set xs" "nodes S node = Some x"
  shows "if \<exists>a \<in> set xs. cmp node a = 0 then rbtree_insert S node cmp = Some (-1, S)
    else \<exists>S'. rbtree_insert S node cmp = Some (0, S') \<and>
      rbtree_holds cmp S' ([a \<leftarrow> xs. 0 < cmp node a] @ [node] @ [a \<leftarrow> xs. cmp node a < 0]) \<and>
      (\<forall>p. p \<notin> insert node (set xs) \<longrightarrow> nodes S' p = nodes S p)"
proof -
  obtain T where T: "rep (nodes S) S T" "is_rb T" "inorder T = xs" "ordered cmp xs"
    using tree by (auto simp: rbtree_holds_def)
  obtain ctx u where L: "plug ctx u = T" "ctx_dir (cmp node) ctx" "descent_ok (cmp node) ctx"
    "rbtree_lookup_path S (root S) node cmp 0 [] =
      Some (if u = Leaf then (last_cmp (cmp node) ctx, map frame_label ctx) else (0, path_of ctx (ptr u)))"
    "u \<noteq> Leaf \<Longrightarrow> cmp node (ptr u) = 0" "length ctx + height u \<le> 126"
    using lookup_root [OF cmp T(1,2)] T(3,4) by metis
  show ?thesis
  proof (cases "u = Leaf")
    case False
    then have "ptr u \<in> set xs" using L(1) T(3) by (cases u) (auto simp: inorder_plug)
    moreover have "rbtree_insert S node cmp = Some (-1, S)"
      using L(4) False by (simp add: rbtree_insert_def path_of_def)
    ultimately show ?thesis using L(5) False by auto
  next
    case True
    have xs: "xs = lefts ctx @ rights ctx" using L(1) T(3) True by (auto simp: inorder_plug)
    then have absent: "\<not> (\<exists>a \<in> set xs. cmp node a = 0)" using L(3) by (force simp: descent_ok_def)
    have look: "rbtree_lookup_path S (root S) node cmp 0 [] =
        Some (last_cmp (cmp node) ctx, map frame_label ctx)"
      using L(4) True by simp
    obtain S1 where S1: "rep (nodes S) S1 (plug ctx (Node Red Leaf node Leaf))"
      "rbtree_insert S node cmp = do { S \<leftarrow> rbtree_insert_fixup S1 (path_of ctx node); Some (0, S) }"
      using attach_node [of "nodes S" S ctx node "cmp node"] insert_code [OF look L(2) _ node(4,1)]
        T L node True by auto
    moreover have "top_black ctx" using T(2) L(1) is_rb_plug [of ctx u] by simp
    ultimately obtain S' where S': "rbtree_insert S node cmp = Some (0, S')"
        "rep (nodes S) S' (ins_fix ctx (Node Red Leaf node Leaf))"
      using insert_fixup [OF S1(1)] by auto
    have "is_rb (ins_fix ctx (Node Red Leaf node Leaf))"
      using T(2) L(1) True is_rb_plug [of ctx Leaf] by (intro is_rb_ins_fix) simp_all
    moreover have "inorder (ins_fix ctx (Node Red Leaf node Leaf)) = lefts ctx @ [node] @ rights ctx"
      by (simp add: inorder_ins_fix inorder_plug)
    moreover have "ordered cmp (lefts ctx @ [node] @ rights ctx)"
      using T(4) L(3) xs comparator.cmp_swap [OF cmp]
      by (auto simp: ordered_def sorted_wrt_append descent_ok_def)
    ultimately have "rbtree_holds cmp S' (lefts ctx @ [node] @ rights ctx)"
      using S'(2) by (auto simp: rbtree_holds_def rep_def)
    then show ?thesis
      using absent S' ordered_split [of cmp node ctx, OF L(3)] xs
      by (auto simp: rep_def inorder_ins_fix inorder_plug)
  qed
qed

text \<open>
  C1. \<open>rbtree_insert\<close> of a fresh, allocated and aligned node into a valid tree of any size: it
  never leaves the 128 entries of its path and never touches a node outside the tree; if an equal
  node is present it returns -1 and changes nothing, otherwise it returns 0 and leaves a valid
  red-black tree whose nodes are the old ones with the new one at its place in the order.
\<close>

theorem rbtree_insert_correct:
  assumes cmp: "comparator cmp" and tree: "rbtree_holds cmp S xs"
    and node: "node \<noteq> NULL" "even node" "node \<notin> set xs" "nodes S node = Some x"
  shows "if \<exists>a \<in> set xs. cmp node a = 0 then rbtree_insert S node cmp = Some (-1, S)
    else \<exists>S'. rbtree_insert S node cmp = Some (0, S') \<and>
      rbtree_holds cmp S' ([a \<leftarrow> xs. 0 < cmp node a] @ [node] @ [a \<leftarrow> xs. cmp node a < 0]) \<and>
      (\<forall>p. p \<notin> insert node (set xs) \<longrightarrow> nodes S' p = nodes S p)"
  using assms by (rule rbtree_insert_effect)

section \<open>A concrete tree\<close>

definition address_order :: "addr \<Rightarrow> addr \<Rightarrow> int" where
  "address_order a b = int (unat a) - int (unat b)"

definition example_tree :: RBTREE where
  "example_tree = \<lparr>nodes = [16 \<mapsto> mknode Black 0 32, 32 \<mapsto> mknode Red 0 0, 48 \<mapsto> \<lparr>node_lc = 7, node_r = 9\<rparr>],
     root = 16\<rparr>"

definition example_shape :: "addr rbt" where
  "example_shape = Node Black Leaf 16 (Node Red Leaf 32 Leaf)"

lemma comparator_address_order: "comparator address_order"
  by unfold_locales (auto simp: address_order_def)

lemma example_rep: "rep (nodes example_tree) example_tree example_shape"
  by (simp add: rep_def example_tree_def example_shape_def cell_def)

lemma example_rb: "is_rb example_shape"
  by (simp add: is_rb_def example_shape_def)

lemma example_holds: "rbtree_holds address_order example_tree [16, 32]"
  using example_rep example_rb
  by (auto simp: rbtree_holds_def ordered_def address_order_def example_shape_def
      intro!: exI [of _ example_shape])

theorem rbtree_insert_correct_witness:
  "(\<exists>S'. rbtree_insert example_tree 48 address_order = Some (0, S') \<and>
     rbtree_holds address_order S' [16, 32, 48])"
  using rbtree_insert_correct [OF comparator_address_order example_holds, of 48 "\<lparr>node_lc = 7, node_r = 9\<rparr>"]
  by (auto simp: address_order_def example_tree_def)

end
