(* ===== verification/Rbtree_Remove.thy ===== *)
theory Rbtree_Remove
  imports Rbtree_Insert
begin

text \<open>
  Correctness of \<open>rbtree_remove\<close>: the exchange with the successor, the unlinking, and the fix-up
  loop, each as an operation on the represented tree.
\<close>

section \<open>The fix-up loop\<close>

lemma finish_left:
  assumes "rep h S (plug ctx (Node c t p (Node Black sl b sr)))" "color sr = Red"
  shows "\<exists>S'. remove_fixup_finish S (ptr t) p (parent_ptr ctx) b = Some S' \<and>
    rep h S' (plug ctx (Node c (Node Black t p sl) b (paint Black sr)))"
proof -
  obtain xl x xr where sr: "sr = Node Red xl x xr" using assms(2) by (cases sr) auto
  have 0: "rep h S (plug (RFrame c p t # ctx) (Node Black sl b sr))" using assms(1) by simp
  have cols: "COLOR S b = Some 0" "COLOR S p = Some (if c = Red then 1 else 0)"
    using cell_read(7) [OF rep_cell [OF 0]] cell_read(7) [OF rep_cell [OF assms(1)]] by simp_all
  obtain S1 where 1: "(if (0 :: addr) \<noteq> (if c = Red then 1 else 0) then TOGGLE_COLOR S b else Some S) = Some S1"
      "rep h S1 (plug ctx (Node c t p (Node c sl b sr)))"
    using make_color(3) [OF 0] 0 by (cases c) auto
  obtain S2 where 2: "MAKE_BLACK S1 p = Some S2" "rep h S2 (plug ctx (Node Black t p (Node c sl b sr)))"
    using make_color(1) [OF 1(2)] by auto
  then have "rep h S2 (plug (RFrame c b sl # RFrame Black p t # ctx) (Node Red xl x xr))"
    by (simp add: sr)
  from make_color(1) [OF this] obtain S3 where 3: "MAKE_BLACK S2 x = Some S3"
      "rep h S3 (plug ctx (Node Black t p (Node c sl b (Node Black xl x xr))))"
    by auto
  have "cell S2 p Black (ptr t) b" "cell S2 b c (ptr sl) x" using 2(2) sr by (simp_all add: rep_plug)
  then have reads: "LEFT S2 p = Some (ptr t)" "RIGHT S2 b = Some x" by (simp_all add: cell_read)
  show ?thesis
    using 1(1) 2(1) 3(1) reads cols rotate_left [OF 3(2)] sr
    by (simp add: remove_fixup_finish_def)
qed

lemma finish_right:
  assumes "rep h S (plug ctx (Node c (Node Black sl b sr) p t))" "color sl = Red"
  shows "\<exists>S'. remove_fixup_finish S (ptr t) p (parent_ptr ctx) b = Some S' \<and>
    rep h S' (plug ctx (Node c (paint Black sl) b (Node Black sr p t)))"
proof -
  obtain xl x xr where sl: "sl = Node Red xl x xr" using assms(2) by (cases sl) auto
  have 0: "rep h S (plug (LFrame c p t # ctx) (Node Black sl b sr))" using assms(1) by simp
  have cols: "COLOR S b = Some 0" "COLOR S p = Some (if c = Red then 1 else 0)"
    using cell_read(7) [OF rep_cell [OF 0]] cell_read(7) [OF rep_cell [OF assms(1)]] by simp_all
  obtain S1 where 1: "(if (0 :: addr) \<noteq> (if c = Red then 1 else 0) then TOGGLE_COLOR S b else Some S) = Some S1"
      "rep h S1 (plug ctx (Node c (Node c sl b sr) p t))"
    using make_color(3) [OF 0] 0 by (cases c) auto
  obtain S2 where 2: "MAKE_BLACK S1 p = Some S2" "rep h S2 (plug ctx (Node Black (Node c sl b sr) p t))"
    using make_color(1) [OF 1(2)] by auto
  then have "rep h S2 (plug (LFrame c b sr # LFrame Black p t # ctx) (Node Red xl x xr))"
    by (simp add: sl)
  from make_color(1) [OF this] obtain S3 where 3: "MAKE_BLACK S2 x = Some S3"
      "rep h S3 (plug ctx (Node Black (Node c (Node Black xl x xr) b sr) p t))"
    by auto
  have "cell S2 p Black b (ptr t)" "cell S2 b c x (ptr sr)" "b \<notin> set (inorder t)"
    using 2(2) sl by (simp_all add: rep_plug)
  then have reads: "LEFT S2 p = Some b" "LEFT S2 b = Some x" "ptr t \<noteq> b"
    by (simp_all add: cell_read cell_facts ptr_neq)
  show ?thesis
    using 1(1) 2(1) 3(1) reads cols rotate_right [OF 3(2)] sl
    by (simp add: remove_fixup_finish_def)
qed

lemma remove_fixup_rotate:
  assumes R: "rep h S (plug (f # ctx) t)" and s: "frame_sibling f = Node Black sl b sr"
    and red: "has_red_child (frame_sibling f)"
  shows "\<exists>S'. remove_fixup_rotate S (ptr t) (frame_label f) (parent_ptr ctx) b = Some S' \<and>
    rep h S' (plug ctx (rem_rotate f t))"
proof (cases f)
  case (LFrame c p u)
  then have f: "f = LFrame c p (Node Black sl b sr)" using s by simp
  have R: "rep h S (plug ctx (Node c t p (Node Black sl b sr)))" using R f by simp
  then have "cell S p c (ptr t) b" "cell S b Black (ptr sl) (ptr sr)" "holds S sr" "b \<notin> set (inorder t)"
    by (simp_all add: rep_plug)
  then have reads: "LEFT S p = Some (ptr t)" "RIGHT S p = Some b" "RIGHT S b = Some (ptr sr)"
      "black_node S (ptr sr) = Some (color sr = Black)" "ptr t \<noteq> b"
    by (simp_all add: cell_read cell_facts ptr_neq black_node_ptr)
  show ?thesis
  proof (cases "color sr")
    case Red
    with reads f finish_left [OF R Red] show ?thesis by (simp add: remove_fixup_rotate_def)
  next
    case Black
    then obtain xl x xr where sl: "sl = Node Red xl x xr"
      using red s by (cases sl) (auto simp: has_red_child_def)
    have "rep h S (plug (RFrame c p t # ctx) (Node Black sl b sr))" using R by simp
    from make_color(2) [OF this] obtain S1 where 1: "MAKE_RED S b = Some S1"
        "rep h S1 (plug (LFrame Red b sr # RFrame c p t # ctx) (Node Red xl x xr))"
      by (auto simp: sl)
    obtain S2 where 2: "MAKE_BLACK S1 x = Some S2"
        "rep h S2 (plug (RFrame c p t # ctx) (Node Red (Node Black xl x xr) b sr))"
      using make_color(1) [OF 1(2)] by auto
    obtain S3 where 3: "rbtree_rotate_right S2 p b = Some S3"
        "rep h S3 (plug ctx (Node c t p (Node Black xl x (Node Red xr b sr))))"
      using rotate_right [OF 2(2)] by auto
    have "cell S1 b Red x (ptr sr)" "cell S3 p c (ptr t) x" using 1(2) 3(2) by (simp_all add: rep_plug)
    then have "LEFT S1 b = Some x" "RIGHT S3 p = Some x" by (simp_all add: cell_read)
    with reads Black f sl 1(1) 2(1) 3(1) finish_left [OF 3(2)] show ?thesis
      by (simp add: remove_fixup_rotate_def)
  qed
next
  case (RFrame c p u)
  then have f: "f = RFrame c p (Node Black sl b sr)" using s by simp
  have R: "rep h S (plug ctx (Node c (Node Black sl b sr) p t))" using R f by simp
  then have "cell S p c b (ptr t)" "cell S b Black (ptr sl) (ptr sr)" "holds S sl" "b \<notin> set (inorder t)"
    by (simp_all add: rep_plug)
  then have reads: "LEFT S p = Some b" "RIGHT S p = Some (ptr t)" "LEFT S b = Some (ptr sl)"
      "black_node S (ptr sl) = Some (color sl = Black)" "ptr t \<noteq> b"
    by (simp_all add: cell_read cell_facts ptr_neq black_node_ptr)
  show ?thesis
  proof (cases "color sl")
    case Red
    with reads f finish_right [OF R Red] show ?thesis by (simp add: remove_fixup_rotate_def)
  next
    case Black
    then obtain xl x xr where sr: "sr = Node Red xl x xr"
      using red s by (cases sr) (auto simp: has_red_child_def)
    have "rep h S (plug (LFrame c p t # ctx) (Node Black sl b sr))" using R by simp
    from make_color(2) [OF this] obtain S1 where 1: "MAKE_RED S b = Some S1"
        "rep h S1 (plug (RFrame Red b sl # LFrame c p t # ctx) (Node Red xl x xr))"
      by (auto simp: sr)
    obtain S2 where 2: "MAKE_BLACK S1 x = Some S2"
        "rep h S2 (plug (LFrame c p t # ctx) (Node Red sl b (Node Black xl x xr)))"
      using make_color(1) [OF 1(2)] by auto
    obtain S3 where 3: "rbtree_rotate_left S2 p b = Some S3"
        "rep h S3 (plug ctx (Node c (Node Black (Node Red sl b xl) x xr) p t))"
      using rotate_left [OF 2(2)] by auto
    have "cell S1 b Red (ptr sl) x" "cell S3 p c x (ptr t)" using 1(2) 3(2) by (simp_all add: rep_plug)
    then have "RIGHT S1 b = Some x" "LEFT S3 p = Some x" by (simp_all add: cell_read)
    with reads Black f sr 1(1) 2(1) 3(1) finish_right [OF 3(2)] show ?thesis
      by (simp add: remove_fixup_rotate_def)
  qed
qed

fun on_left :: "'a frame \<Rightarrow> bool" where
  "on_left (LFrame c a s) = True"
| "on_left (RFrame c a s) = False"

lemma frame_side:
  assumes R: "rep h S (plug (f # ctx) t)" and s: "frame_sibling f \<noteq> Leaf"
  shows "\<exists>l. LEFT S (frame_label f) = Some l \<and> (ptr t = l) = on_left f"
    and "RIGHT S (frame_label f) = Some (if on_left f then ptr (frame_sibling f) else ptr t)"
    and "LEFT S (frame_label f) = Some (if on_left f then ptr t else ptr (frame_sibling f))"
proof -
  obtain c l b r where b: "frame_sibling f = Node c l b r" using s by (cases "frame_sibling f") auto
  have "b \<notin> set (inorder t)" "b \<noteq> NULL" "holds S t"
    using R b by (cases f; auto simp: rep_plug dest: cellD)+
  then have ne: "ptr t \<noteq> b" by (simp add: ptr_neq)
  have side: "cell S (frame_label f) (frame_color f) (if on_left f then ptr t else b) (if on_left f then b else ptr t)"
    using R b by (cases f) (simp_all add: rep_plug)
  show "\<exists>l. LEFT S (frame_label f) = Some l \<and> (ptr t = l) = on_left f"
    "RIGHT S (frame_label f) = Some (if on_left f then ptr (frame_sibling f) else ptr t)"
    "LEFT S (frame_label f) = Some (if on_left f then ptr t else ptr (frame_sibling f))"
    using side ne b by (cases f; simp add: cell_read)+
qed

lemma red_sibling_rotate:
  assumes R: "rep h S (plug (f # ctx) t)" and s: "color (frame_sibling f) = Red"
    and fg: "red_sibling_frames f = (f', g)"
  shows "\<exists>S'. do { S \<leftarrow> (if on_left f then rbtree_rotate_left S (parent_ptr ctx) (frame_label f)
          else rbtree_rotate_right S (parent_ptr ctx) (frame_label f));
        S \<leftarrow> MAKE_BLACK S (ptr (frame_sibling f)); MAKE_RED S (frame_label f) } = Some S' \<and>
      rep h S' (plug (f' # g # ctx) t) \<and> frame_label g = ptr (frame_sibling f) \<and>
      frame_label f' = frame_label f"
proof -
  obtain sl b sr where b: "frame_sibling f = Node Red sl b sr" using s by (cases "frame_sibling f") auto
  show ?thesis
  proof (cases f)
    case (LFrame c p u)
    then have f: "f = LFrame c p (Node Red sl b sr)" "f' = LFrame Red p sl" "g = LFrame Black b sr"
      using b fg by auto
    obtain S1 where 1: "rbtree_rotate_left S (parent_ptr ctx) p = Some S1"
        "rep h S1 (plug ctx (Node Red (Node c t p sl) b sr))"
      using rotate_left [of h S ctx c t p Red sl b sr] R f by auto
    obtain S2 where 2: "MAKE_BLACK S1 b = Some S2" "rep h S2 (plug (LFrame Black b sr # ctx) (Node c t p sl))"
      using make_color(1) [OF 1(2)] by auto
    show ?thesis using make_color(2) [OF 2(2)] 1(1) 2(1) f by auto
  next
    case (RFrame c p u)
    then have f: "f = RFrame c p (Node Red sl b sr)" "f' = RFrame Red p sr" "g = RFrame Black b sl"
      using b fg by auto
    obtain S1 where 1: "rbtree_rotate_right S (parent_ptr ctx) p = Some S1"
        "rep h S1 (plug ctx (Node Red sl b (Node c sr p t)))"
      using rotate_right [of h S ctx c Red sl b sr p t] R f by auto
    obtain S2 where 2: "MAKE_BLACK S1 b = Some S2" "rep h S2 (plug (RFrame Black b sl # ctx) (Node c sr p t))"
      using make_color(1) [OF 1(2)] by auto
    show ?thesis using make_color(2) [OF 2(2)] 1(1) 2(1) f by auto
  qed
qed

lemma redden_step:
  assumes R: "rep h S (plug (f # ctx) t)" and s: "frame_sibling f = Node c l b r"
  shows "\<exists>S'. MAKE_RED S b = Some S' \<and> rep h S' (plug ctx (up (redden_sibling f) t))"
proof (cases f)
  case (LFrame d p u)
  then show ?thesis using make_color(2) [of h S "RFrame d p t # ctx" c l b r] R s by simp
next
  case (RFrame d p u)
  then show ?thesis using make_color(2) [of h S "LFrame d p t # ctx" c l b r] R s by simp
qed

lemma path_of_parent2:
  "(if 2 < length (path_of (f # ctx) p) then path_top (path_of (f # ctx) p) 3 else Some NULL) =
     Some (parent_ptr ctx)"
  by (cases ctx) (simp_all add: path_of_top)

lemma drop1_path_of: "drop (Suc 0) (path_of (f # ctx) p) = path_of ctx (frame_label f)"
  by (simp add: path_of_def)

lemma red_node_ptr: "holds S u \<Longrightarrow> red_node S (ptr u) = Some (color u = Red)"
  by (cases u) (auto simp: heap_simps)

lemma IS_RED_ptr: "holds S u \<Longrightarrow> u \<noteq> Leaf \<Longrightarrow> IS_RED S (ptr u) = Some (color u = Red)"
  by (cases u) (auto simp: cell_read)

text \<open>One iteration with a black sibling.\<close>

lemma fixup_black_sibling:
  assumes R: "rep h S (plug (f # ctx) t)" and t: "color t = Black"
    and s: "frame_sibling f = Node Black sl b sr"
  shows "rbtree_remove_fixup S (path_of (f # ctx) (ptr t)) =
    (if has_red_child (frame_sibling f)
     then remove_fixup_rotate S (ptr t) (frame_label f) (parent_ptr ctx) b
     else do { S \<leftarrow> MAKE_RED S b; rbtree_remove_fixup S (path_of ctx (frame_label f)) })"
proof -
  have "holds S t" "holds S sl" "holds S sr" "cell S b Black (ptr sl) (ptr sr)"
    using R s by (cases f; auto simp: rep_plug)+
  then have reads: "red_node S (ptr t) = Some False" "red_node S (ptr sl) = Some (color sl = Red)"
    "red_node S (ptr sr) = Some (color sr = Red)" "IS_RED S b = Some False"
    "LEFT S b = Some (ptr sl)" "RIGHT S b = Some (ptr sr)"
    using t by (simp_all add: red_node_ptr cell_read)
  obtain l where l: "LEFT S (frame_label f) = Some l"
      "(if ptr t = l then RIGHT S (frame_label f) else LEFT S (frame_label f)) = Some b"
    using frame_reads(3) [OF R] s by auto
  have "ctx \<noteq> [] \<Longrightarrow> path_top (path_of (f # ctx) (ptr t)) 3 = Some (parent_ptr ctx)"
    by (cases ctx) (simp_all add: path_of_top)
  then show ?thesis
    by (subst rbtree_remove_fixup.simps)
       (simp add: path_of_top reads l s has_red_child_def drop1_path_of)
qed

lemma fixup_red:
  assumes R: "rep h S (plug ctx t)" and t: "color t = Red"
  shows "\<exists>S'. rbtree_remove_fixup S (path_of ctx (ptr t)) = Some S' \<and> rep h S' (plug ctx (paint Black t))"
proof -
  obtain l a r where n: "t = Node Red l a r" using t by (cases t) auto
  then have "red_node S (ptr t) = Some True"
    using cell_read(5) [OF rep_cell, of h S ctx Red l a r] R by simp
  then show ?thesis
    using make_color(1) [of h S ctx Red l a r] R n
    by (subst rbtree_remove_fixup.simps) (simp add: path_of_top)
qed

lemma fixup_root:
  "rep h S t \<Longrightarrow> color t = Black \<Longrightarrow> rbtree_remove_fixup S (path_of [] (ptr t)) = Some S"
  by (subst rbtree_remove_fixup.simps) (simp add: path_of_top red_node_ptr rep_def)

lemma fixup_red_sibling:
  assumes R: "rep h S (plug (f # ctx) t)" and t: "color t = Black"
    and s: "color (frame_sibling f) = Red" and fg: "red_sibling_frames f = (f', g)"
    and len: "length ctx \<le> 125"
  shows "\<exists>S'. rbtree_remove_fixup S (path_of (f # ctx) (ptr t)) =
      rbtree_remove_fixup S' (path_of (f' # g # ctx) (ptr t)) \<and> rep h S' (plug (f' # g # ctx) t)"
proof -
  let ?b = "ptr (frame_sibling f)"
  have sl: "frame_sibling f \<noteq> Leaf" using s by auto
  obtain S' where S': "do { S \<leftarrow> (if on_left f then rbtree_rotate_left S (parent_ptr ctx) (frame_label f)
          else rbtree_rotate_right S (parent_ptr ctx) (frame_label f));
        S \<leftarrow> MAKE_BLACK S ?b; MAKE_RED S (frame_label f) } = Some S'"
      "rep h S' (plug (f' # g # ctx) t)" "frame_label g = ?b" "frame_label f' = frame_label f"
    using red_sibling_rotate [OF R s fg] by auto
  have "holds S t" "holds S (frame_sibling f)" using frame_reads [OF R] by simp_all
  then have reads: "red_node S (ptr t) = Some False" "IS_RED S ?b = Some True"
    using t s sl by (simp_all add: red_node_ptr IS_RED_ptr)
  obtain l where l: "LEFT S (frame_label f) = Some l" "(ptr t = l) = on_left f"
    using frame_side(1) [OF R sl] by auto
  have b: "(if on_left f then RIGHT S (frame_label f) else LEFT S (frame_label f)) = Some ?b"
    using frame_side(2,3) [OF R sl] by simp
  have paths: "path_set_top (path_of (f # ctx) (ptr t)) 2 ?b = Some (ptr t # ?b # map frame_label ctx)"
    "path_set_top (ptr t # ?b # map frame_label ctx) (Suc 0) (frame_label f) =
      Some (frame_label f # ?b # map frame_label ctx)"
    "path_push (frame_label f # ?b # map frame_label ctx) (ptr t) = Some (path_of (f' # g # ctx) (ptr t))"
    using len S'(3,4)
    by (simp_all add: path_set_top_def path_of_def poke_def path_push_def path_capacity_def numeral_2_eq_2)
  have gp: "ctx \<noteq> [] \<Longrightarrow> path_top (path_of (f # ctx) (ptr t)) 3 = Some (parent_ptr ctx)"
    by (cases ctx) (simp_all add: path_of_top)
  have "rbtree_remove_fixup S (path_of (f # ctx) (ptr t)) =
      rbtree_remove_fixup S' (path_of (f' # g # ctx) (ptr t))"
    using S'(1) gp
    by (subst rbtree_remove_fixup.simps)
       (auto simp: path_of_top reads l b paths bind_eq_Some_conv split: if_splits)
  with S'(2) show ?thesis by blast
qed

lemma black_sibling_result:
  assumes R: "rep h S (plug (f # ctx) t)" and t: "color t = Black"
    and s: "color (frame_sibling f) = Black" "frame_sibling f \<noteq> Leaf"
  shows "if has_red_child (frame_sibling f)
    then \<exists>S'. rbtree_remove_fixup S (path_of (f # ctx) (ptr t)) = Some S' \<and>
      rep h S' (plug ctx (rem_rotate f t))
    else \<exists>S'. rbtree_remove_fixup S (path_of (f # ctx) (ptr t)) =
        rbtree_remove_fixup S' (path_of ctx (ptr (up (redden_sibling f) t))) \<and>
      rep h S' (plug ctx (up (redden_sibling f) t))"
proof -
  obtain sl b sr where b: "frame_sibling f = Node Black sl b sr"
    using s by (cases "frame_sibling f") auto
  have "ptr (up (redden_sibling f) t) = frame_label f" by (cases f) simp_all
  then show ?thesis
    using fixup_black_sibling [OF R t b] remove_fixup_rotate [OF R b] redden_step [OF R b] by auto
qed

lemma remove_fixup:
  assumes "rep h S (plug ctx t)" "invc (paint Black t)" "invh t" "ctx_c ctx Black"
    "ctx_h ctx (bheight t + 1)" "length ctx \<le> 126"
  shows "\<exists>S'. rbtree_remove_fixup S (path_of ctx (ptr t)) = Some S' \<and> rep h S' (rem_fix ctx t)"
  using assms
proof (induction ctx arbitrary: t S)
  case Nil
  then show ?case
    using fixup_red [of h S "[]" t] fixup_root [of h S t]
    by (cases "color t"; cases t) auto
next
  case (Cons f ctx)
  let ?s = "frame_sibling f"
  show ?case
  proof (cases "color t")
    case Red
    with fixup_red [OF Cons.prems(1)] show ?thesis by simp
  next
    case Black
    then have t: "invc t" "invh t" using Cons.prems(2,3) by (cases t; simp)+
    have s: "invc ?s" "invh ?s" "bheight ?s = Suc (bheight t)" using Cons.prems by simp_all
    have leaf: "u \<noteq> Leaf" if "bheight u = Suc (bheight t)" for u :: "addr rbt"
      using that bheight_pos [of t] by auto
    obtain f' g where fg: "red_sibling_frames f = (f', g)" by fastforce
    show ?thesis
    proof (cases "color ?s")
      case red: Red
      note g = red_sibling_ok [OF red fg s(1,2,3)]
      obtain S1 where S1: "rbtree_remove_fixup S (path_of (f # ctx) (ptr t)) =
          rbtree_remove_fixup S1 (path_of (f' # g # ctx) (ptr t))" "rep h S1 (plug (f' # g # ctx) t)"
        using fixup_red_sibling [OF Cons.prems(1) Black red fg] Cons.prems(6) by auto
      have "color (up (redden_sibling f') t) = Red" using g(1) by (cases f') simp_all
      then show ?thesis
        using black_sibling_result [OF S1(2) Black g(3) leaf [OF g(6)]] S1(1) Black red fg
          fixup_red [of h _ "g # ctx" "up (redden_sibling f') t"]
        by (auto split: if_splits)
    next
      case black: Black
      note res = black_sibling_result [OF Cons.prems(1) Black black leaf [OF s(3)]]
      show ?thesis
      proof (cases "has_red_child ?s")
        case True
        with res Black black show ?thesis by auto
      next
        case False
        then obtain S1 where S1: "rbtree_remove_fixup S (path_of (f # ctx) (ptr t)) =
            rbtree_remove_fixup S1 (path_of ctx (ptr (up (redden_sibling f) t)))"
            "rep h S1 (plug ctx (up (redden_sibling f) t))"
          using res by auto
        note ok = redden_ok [OF black False t Black s(1,2)]
        have "ctx_c ctx (frame_color f)" "ctx_h ctx (bheight t + 1 + weight (frame_color f))"
          using Cons.prems by simp_all
        then have "\<exists>S'. rbtree_remove_fixup S1 (path_of ctx (ptr (up (redden_sibling f) t))) = Some S' \<and>
            rep h S' (rem_fix ctx (up (redden_sibling f) t))"
          using ok s(3) Cons.prems(6) ctx_c_Black by (intro Cons.IH S1(2)) auto
        with S1(1) Black black False show ?thesis by simp
      qed
    qed
  qed
qed


section \<open>The exchange with the successor, and the unlinking\<close>

fun min_path :: "'a rbt \<Rightarrow> 'a frame list \<Rightarrow> 'a frame list \<times> 'a rbt" where
  "min_path Leaf ctx = (ctx, Leaf)"
| "min_path (Node c l a r) ctx =
     (if l = Leaf then (ctx, Node c l a r) else min_path l (LFrame c a r # ctx))"

lemma plug_min_path: "min_path t ctx = (ctx', u) \<Longrightarrow> plug ctx' u = plug ctx t"
  by (induction t ctx rule: min_path.induct) (auto split: if_splits)

lemma min_path_Node: "t \<noteq> Leaf \<Longrightarrow> \<exists>ctx' c a r. min_path t ctx = (ctx', Node c Leaf a r)"
  by (induction t ctx rule: min_path.induct) auto

lemma min_path_hd:
  "min_path t ctx = (ctx', u) \<Longrightarrow> ctx' = ctx \<or> (\<exists>c a r rest. ctx' = LFrame c a r # rest)"
  by (induction t ctx rule: min_path.induct) (auto split: if_splits)

lemma min_path_lefts: "min_path t ctx = (ctx', u) \<Longrightarrow> lefts ctx' = lefts ctx"
  by (induction t ctx rule: min_path.induct) (auto split: if_splits)

lemma leftmost_path:
  assumes "holds S t" "t \<noteq> Leaf" "length ctx + length path + height t \<le> path_capacity"
    "min_path t ctx = (ctx', Node c Leaf a r)"
  shows "rbtree_leftmost_path S (ptr t) (map frame_label ctx @ path) =
    Some (a # map frame_label ctx' @ path)"
  using assms
proof (induction t ctx rule: min_path.induct)
  case (2 d l b q ctx)
  have cell: "cell S b d (ptr l) (ptr q)" "holds S l" using 2(2) by simp_all
  then have b: "b \<noteq> NULL" "LEFT S b = Some (ptr l)" by (simp_all add: cell_facts cell_read)
  have push: "path_push (map frame_label ctx @ path) b = Some (b # map frame_label ctx @ path)"
    using 2(4) by (simp add: path_push_def)
  show ?case
  proof (cases "l = Leaf")
    case True
    then have "rbtree_leftmost_path S (ptr l) (b # map frame_label ctx @ path) =
        Some (b # map frame_label ctx @ path)"
      by (subst rbtree_leftmost_path.simps) simp
    with True b push 2(5) show ?thesis by (subst rbtree_leftmost_path.simps) auto
  next
    case False
    with 2 cell have "rbtree_leftmost_path S (ptr l) (map frame_label (LFrame d b q # ctx) @ path) =
        Some (a # map frame_label ctx' @ path)"
      by (intro "2.IH") auto
    with b push show ?thesis by (subst rbtree_leftmost_path.simps) simp
  qed
qed simp

text \<open>Representation depends only on the cells involved.\<close>

lemma cell_cong: "nodes S' p = nodes S p \<Longrightarrow> cell S' p c l r = cell S p c l r"
  by (simp add: cell_def)

lemma holds_cong: "\<forall>p \<in> set (inorder t). nodes S' p = nodes S p \<Longrightarrow> holds S' t = holds S t"
proof (induction t)
  case (Node c l a r)
  have "cell S' a c (ptr l) (ptr r) = cell S a c (ptr l) (ptr r)"
    by (rule cell_cong) (simp add: Node.prems)
  moreover have "holds S' l = holds S l" "holds S' r = holds S r"
    using Node by simp_all
  ultimately show ?case by simp
qed simp

lemma seg_cong:
  "\<forall>p \<in> set (lefts ctx) \<union> set (rights ctx). nodes S' p = nodes S p \<Longrightarrow> seg S' ctx q = seg S ctx q"
proof (induction S ctx q rule: seg.induct)
  case (2 S c a s ctx p)
  have "cell S' a c p (ptr s) = cell S a c p (ptr s)" by (rule cell_cong) (simp add: 2)
  moreover have "holds S' s = holds S s" by (rule holds_cong) (simp add: 2)
  moreover have "seg S' ctx a = seg S ctx a" using 2(2) by (intro 2(1)) auto
  ultimately show ?case by simp
next
  case (3 S c a s ctx p)
  have "cell S' a c (ptr s) p = cell S a c (ptr s) p" by (rule cell_cong) (simp add: 3)
  moreover have "holds S' s = holds S s" by (rule holds_cong) (simp add: 3)
  moreover have "seg S' ctx a = seg S ctx a" using 3(2) by (intro 3(1)) auto
  ultimately show ?case by simp
qed simp

text \<open>The code that lets the node above point to \<open>q\<close> instead of \<open>a\<close>.\<close>

definition set_child :: "RBTREE \<Rightarrow> addr frame list \<Rightarrow> addr \<Rightarrow> addr \<Rightarrow> RBTREE option" where
  "set_child S ctx a q =
     (if 0 < length ctx then do {
        l \<leftarrow> LEFT S (parent_ptr ctx);
        if a = l then SET_LEFT S (parent_ptr ctx) q else SET_RIGHT S (parent_ptr ctx) q
      }
      else Some (S\<lparr>root := q\<rparr>))"

lemma set_child:
  assumes "seg S ctx a" "root S = top_of ctx a" "a \<noteq> NULL" "even q"
    "a \<notin> set (lefts ctx) \<union> set (rights ctx)" "distinct (lefts ctx @ rights ctx)"
  shows "\<exists>S'. set_child S ctx a q = Some S' \<and> seg S' ctx q \<and> root S' = top_of ctx q \<and>
    (\<forall>p. p \<notin> set (lefts ctx) \<union> set (rights ctx) \<longrightarrow> nodes S' p = nodes S p)"
proof (cases ctx)
  case Nil
  then show ?thesis by (simp add: set_child_def)
next
  case (Cons f ctx')
  show ?thesis
  proof (cases f)
    case (LFrame c g u)
    with Cons assms show ?thesis
      by (auto simp: set_child_def heap_simps)
  next
    case (RFrame c g u)
    with Cons assms show ?thesis
      by (auto simp: set_child_def heap_simps)
  qed
qed

text \<open>
  Half way through the exchange of \<open>a\<close> (in the hole of \<open>ctx\<close>) with its successor \<open>s\<close> (in the
  hole of \<open>lctx\<close>, inside the right subtree): the links below are exchanged already, while the
  parent of \<open>a\<close>, the left links and the colours are not.
\<close>

definition half_swapped ::
  "(addr \<rightharpoonup> RBTREE_NODE) \<Rightarrow> RBTREE \<Rightarrow> addr frame list \<Rightarrow> rb_color \<Rightarrow> addr rbt \<Rightarrow> addr \<Rightarrow>
     addr frame list \<Rightarrow> rb_color \<Rightarrow> addr \<Rightarrow> addr rbt \<Rightarrow> bool" where
  "half_swapped h S ctx c l a lctx cs s sr \<longleftrightarrow>
     seg S ctx a \<and> root S = top_of ctx a \<and> holds S l \<and>
     cell S s cs NULL (top_of lctx a) \<and> even (top_of lctx a) \<and> cell S a c (ptr l) (ptr sr) \<and> seg S lctx a \<and> holds S sr \<and>
     distinct (lefts ctx @ inorder l @ a # lefts lctx @ s # inorder sr @ rights lctx @ rights ctx) \<and>
     (\<forall>p. p \<notin> set (lefts ctx) \<union> set (inorder l) \<union> {a, s} \<union> set (lefts lctx) \<union> set (inorder sr) \<union>
        set (rights lctx) \<union> set (rights ctx) \<longrightarrow> nodes S p = h p)"

lemma find_successor_near:
  assumes R: "rep h S (plug ctx (Node c l a (Node cs Leaf s sr)))" and l: "l \<noteq> Leaf"
    and len: "length ctx \<le> 126"
  shows "\<exists>S'. remove_find_successor S a (length ctx) (path_of ctx a) =
      Some (S', a # s # map frame_label ctx, s) \<and> half_swapped h S' ctx c l a [] cs s sr"
proof -
  have cells: "cell S a c (ptr l) s" "cell S s cs NULL (ptr sr)" "holds S l" "holds S sr" "a \<noteq> s"
    using R by (simp_all add: rep_plug)
  define S2 where "S2 = put (put S a (mknode c (ptr l) (ptr sr))) s (mknode cs NULL a)"
  have nl: "ptr l \<noteq> NULL" using l cells(3) by (simp add: ptr_NULL)
  have path: "path_set_top (path_of ctx a) (Suc 0) s = Some (s # map frame_label ctx)"
    "path_push (s # map frame_label ctx) a = Some (a # s # map frame_label ctx)"
    using len by (simp_all add: path_set_top_def path_of_def poke_def path_push_def path_capacity_def)
  have w: "SET_RIGHT S a (ptr sr) = Some (put S a (mknode c (ptr l) (ptr sr)))"
    "SET_RIGHT (put S a (mknode c (ptr l) (ptr sr))) s a = Some S2"
    using cells by (simp_all add: cell_write(5) S2_def cell_put(2))
  have "remove_find_successor S a (length ctx) (path_of ctx a) = Some (S2, a # s # map frame_label ctx, s)"
    using cells nl w path by (simp add: remove_find_successor_def cell_read)
  moreover have "half_swapped h S2 ctx c l a [] cs s sr"
    using R unfolding half_swapped_def rep_plug S2_def by (auto simp: heap_simps)
  ultimately show ?thesis by blast
qed

lemma path_exchange:
  "path_set_at (s # xs @ a # ys) (length ys) b = Some (s # xs @ b # ys)"
  "path_set_top (s # xs) (Suc 0) b = Some (b # xs)"
  by (simp_all add: path_set_at_def path_set_top_def poke_def list_update_append nth_append Suc_diff_le)

lemma find_successor_far:
  assumes R: "rep h S (plug ctx (Node c l a (plug lctx (Node cs Leaf s sr))))"
    and m: "min_path (plug lctx (Node cs Leaf s sr)) [] = (lctx, Node cs Leaf s sr)" and far: "lctx \<noteq> []"
    and len: "length ctx + height (Node c l a (plug lctx (Node cs Leaf s sr))) \<le> 126"
  shows "\<exists>S'. remove_find_successor S a (length ctx) (path_of ctx a) =
      Some (S', a # map frame_label lctx @ s # map frame_label ctx, s) \<and>
    half_swapped h S' ctx c l a lctx cs s sr"
proof -
  obtain d p q rest where lctx: "lctx = LFrame d p q # rest" using min_path_hd [OF m] far by auto
  let ?r = "plug lctx (Node cs Leaf s sr)"
  let ?pr = "top_of rest p"
  have pr: "ptr ?r = ?pr" by (simp add: ptr_plug lctx)
  obtain cr rl b rr where r: "?r = Node cr rl b rr" "rl \<noteq> Leaf"
    using m far by (cases ?r) (auto split: if_splits)
  have H: "holds S ?r" using R by (simp add: rep_plug)
  then have rlp: "LEFT S ?pr = Some (ptr rl)" "ptr rl \<noteq> NULL"
    using r pr ptr_NULL [of S rl] by (auto simp: cell_read simp del: ptr_plug)
  have cells: "cell S a c (ptr l) ?pr" "cell S s cs NULL (ptr sr)" "cell S p d s (ptr q)"
      "a \<noteq> s" "a \<noteq> p" "s \<noteq> p"
    using R by (simp_all add: rep_plug holds_plug lctx inorder_plug ptr_plug)
  define S1 where "S1 = put S s (mknode cs NULL ?pr)"
  define S2 where "S2 = put S1 a (mknode c (ptr l) (ptr sr))"
  define S3 where "S3 = put S2 p (mknode d a (ptr q))"
  have c2: "cell S1 a c (ptr l) ?pr" "cell S2 p d s (ptr q)"
    using cells by (simp_all add: S1_def S2_def cell_put(2))
  have w: "SET_RIGHT S s ?pr = Some S1" "SET_RIGHT S1 a (ptr sr) = Some S2" "SET_LEFT S2 p a = Some S3"
      "LEFT S2 p = Some s"
    using cell_write(5) [OF cells(2)] cell_write(5) [OF c2(1)] cell_write(4) [OF c2(2)] cell_read(1) [OF c2(2)]
    by (simp_all add: S1_def S2_def S3_def)
  have "rbtree_leftmost_path S ?pr (path_of ctx a) = Some (s # map frame_label lctx @ path_of ctx a)"
    using leftmost_path [OF H _ _ m, of "path_of ctx a"] len r pr
    by (simp add: path_of_def path_capacity_def)
  moreover have "path_top (s # map frame_label lctx @ path_of ctx a) (Suc 0) = Some s"
    "path_top (s # map frame_label lctx @ path_of ctx a) 2 = Some p"
    by (simp_all add: path_top_def peek_def lctx)
  ultimately have "remove_find_successor S a (length ctx) (path_of ctx a) =
      Some (S3, a # map frame_label lctx @ s # map frame_label ctx, s)"
    using cells rlp w path_exchange(1) [of s "map frame_label lctx" a "map frame_label ctx" s]
    by (simp add: remove_find_successor_def cell_read path_of_def path_exchange path_top_def peek_def lctx)
  moreover have "half_swapped h S3 ctx c l a lctx cs s sr"
    using R ptr_even [OF H, unfolded pr] unfolding half_swapped_def rep_plug S3_def S2_def S1_def lctx
    by (auto simp: heap_simps holds_plug inorder_plug ptr_plug)
  ultimately show ?thesis by blast
qed

lemma lefts_append [simp]: "lefts (ctx @ ctx') = lefts ctx' @ lefts ctx"
proof (induction ctx)
  case (Cons f ctx)
  then show ?case by (cases f) simp_all
qed simp

lemma rights_append [simp]: "rights (ctx @ ctx') = rights ctx @ rights ctx'"
proof (induction ctx)
  case (Cons f ctx)
  then show ?case by (cases f) simp_all
qed simp

lemma top_of_append [simp]: "top_of (ctx @ ctx') p = top_of ctx' (top_of ctx p)"
  by (cases "ctx' = []") (simp_all add: top_of_def)

lemma toggle_both:
  assumes "cell S s cs l r" "cell S a c l' r'" "a \<noteq> s"
  shows "do { x \<leftarrow> COLOR S s; y \<leftarrow> COLOR S a;
      if x \<noteq> y then do { S \<leftarrow> TOGGLE_COLOR S s; TOGGLE_COLOR S a } else Some S } =
    Some (put (put S s (mknode c l r)) a (mknode cs l' r'))"
proof (cases "c = cs")
  case True
  then have "put (put S s (mknode c l r)) a (mknode cs l' r') = S"
    using assms by (simp add: put_def cell_def fun_upd_idem)
  with True assms show ?thesis by (simp add: cell_read)
next
  case False
  have "cell (put S s (mknode c l r)) a c l' r'" using assms by (simp add: cell_put(2))
  with False assms show ?thesis by (cases c; cases cs) (simp_all add: cell_read(7) cell_write(3))
qed

lemma swap_common:
  assumes H: "half_swapped h S ctx c l a lctx cs s sr"
  shows "\<exists>S'. remove_swap_common S a (length ctx) (a # map frame_label lctx @ s # map frame_label ctx) s = Some S' \<and>
    rep h S' (plug (lctx @ RFrame c s l # ctx) (Node cs Leaf a sr))"
proof -
  let ?tp = "top_of lctx a" and ?path = "a # map frame_label lctx @ s # map frame_label ctx"
  have cells: "cell S s cs NULL ?tp" "cell S a c (ptr l) (ptr sr)" and tp: "even ?tp"
    and D: "distinct (lefts ctx @ inorder l @ a # lefts lctx @ s # inorder sr @ rights lctx @ rights ctx)"
    and parts: "seg S ctx a" "root S = top_of ctx a" "holds S l" "seg S lctx a" "holds S sr"
    and frame: "\<forall>p. p \<notin> set (lefts ctx) \<union> set (inorder l) \<union> {a, s} \<union> set (lefts lctx) \<union> set (inorder sr) \<union>
        set (rights lctx) \<union> set (rights ctx) \<longrightarrow> nodes S p = h p"
    using H by (simp_all add: half_swapped_def)
  define S2 where "S2 = put (put S s (mknode cs (ptr l) ?tp)) a (mknode c NULL (ptr sr))"
  have w: "SET_LEFT S s (ptr l) = Some (put S s (mknode cs (ptr l) ?tp))"
    "SET_LEFT (put S s (mknode cs (ptr l) ?tp)) a NULL = Some S2"
    using cells D by (simp_all add: cell_write(4) S2_def cell_put(2))
  have c2: "cell S2 s cs (ptr l) ?tp" "cell S2 a c NULL (ptr sr)"
    using cells D parts(3) ptr_even [OF parts(3)] by (auto simp: S2_def cell_put cell_facts)
  have dctx: "a \<notin> set (lefts ctx) \<union> set (rights ctx)" "distinct (lefts ctx @ rights ctx)" using D by auto
  have "seg S2 ctx a" "root S2 = top_of ctx a" using parts D by (auto simp: S2_def heap_simps)
  then obtain S3 where S3: "set_child S2 ctx a s = Some S3" "seg S3 ctx s" "root S3 = top_of ctx s"
      "\<forall>p. p \<notin> set (lefts ctx) \<union> set (rights ctx) \<longrightarrow> nodes S3 p = nodes S2 p"
    using set_child [OF _ _ cell_facts(1) [OF c2(2)] cell_facts(2) [OF c2(1)] dctx] by blast
  have "path_at ?path (length ctx - 1) = Some (parent_ptr ctx)" if "ctx \<noteq> []"
    using that by (cases ctx) (simp_all add: path_at_def nth_append)
  then have parent: "(if 0 < length ctx then do {
        p \<leftarrow> path_at ?path (length ctx - 1);
        pl \<leftarrow> LEFT S2 p;
        if a = pl then SET_LEFT S2 p s else SET_RIGHT S2 p s }
      else Some (S2\<lparr>root := s\<rparr>)) = Some S3"
    using S3(1) by (auto simp: set_child_def split: if_splits)
  define S4 where "S4 = put (put S3 s (mknode c (ptr l) ?tp)) a (mknode cs NULL (ptr sr))"
  have same: "nodes S3 p = nodes S2 p" if "p \<in> {a, s} \<union> set (inorder l) \<union> set (inorder sr) \<union> set (lefts lctx) \<union> set (rights lctx)" for p
    using that D S3(4) by auto
  have c3: "cell S3 s cs (ptr l) ?tp" "cell S3 a c NULL (ptr sr)"
    using c2 cell_cong [OF same] by auto
  have "remove_swap_common S a (length ctx) ?path s = Some S4"
    using w cells parent toggle_both [OF c3] D
    by (simp add: remove_swap_common_def cell_read S4_def)
  moreover have "rep h S4 (plug (lctx @ RFrame c s l # ctx) (Node cs Leaf a sr))"
  proof -
    have "holds S2 l" "holds S2 sr" "seg S2 lctx a" using parts D by (auto simp: S2_def heap_simps)
    then have h3: "holds S3 l" "holds S3 sr" "seg S3 lctx a"
      using holds_cong [of l S3 S2] holds_cong [of sr S3 S2] seg_cong [of lctx S3 S2] same by simp_all
    have c4: "cell S4 s c (ptr l) ?tp" "cell S4 a cs NULL (ptr sr)" "even ?tp"
      using c3 tp D by (auto simp: S4_def cell_put cell_facts)
    have h4: "holds S4 l" "holds S4 sr" "seg S4 lctx a" "seg S4 ctx s" "root S4 = top_of ctx s"
      using h3 S3(2,3) D by (auto simp: S4_def heap_simps)
    have "nodes S4 p = h p" if "p \<notin> set (lefts ctx) \<union> set (inorder l) \<union> {a, s} \<union> set (lefts lctx) \<union>
        set (inorder sr) \<union> set (rights lctx) \<union> set (rights ctx)" for p
      using that S3(4) frame by (auto simp: S4_def S2_def put_fields)
    then show ?thesis
      using c4 h4 D unfolding rep_plug by (auto simp: seg_append)
  qed
  ultimately show ?thesis by blast
qed


lemma remove_unlink:
  assumes R: "rep h S (plug ctx (Node c l a r))" and one: "l = Leaf \<or> r = Leaf"
  defines "child \<equiv> (if l = Leaf then r else l)"
  shows "\<exists>S'. remove_unlink S a (path_of ctx a) = Some (S', path_of ctx (ptr child)) \<and>
    rep (h(a \<mapsto> mknode c (ptr l) (ptr r))) S' (plug ctx child) \<and> IS_BLACK S' a = Some (c = Black)"
proof -
  have cells: "cell S a c (ptr l) (ptr r)" "holds S l" "holds S r" "seg S ctx a" "root S = top_of ctx a"
    and D: "distinct (lefts ctx @ inorder l @ a # inorder r @ rights ctx)"
    and frame: "\<forall>p. p \<notin> set (lefts ctx) \<union> set (inorder l) \<union> {a} \<union> set (inorder r) \<union> set (rights ctx) \<longrightarrow>
      nodes S p = h p"
    using R by (simp_all add: rep_plug)
  have child: "(if ptr l \<noteq> NULL then LEFT S a else RIGHT S a) = Some (ptr child)"
    using cells ptr_NULL [of S l] by (simp add: cell_read child_def)
  have "even (ptr child)" "holds S child" using cells ptr_even by (auto simp: child_def)
  then obtain S' where S': "set_child S ctx a (ptr child) = Some S'" "seg S' ctx (ptr child)"
      "root S' = top_of ctx (ptr child)" "\<forall>p. p \<notin> set (lefts ctx) \<union> set (rights ctx) \<longrightarrow> nodes S' p = nodes S p"
    using set_child [of S ctx a "ptr child"] cells D by (auto simp: cell_facts)
  have parent: "(if 1 < length (path_of ctx a) then do {
        p \<leftarrow> path_top (path_of ctx a) 2;
        pl \<leftarrow> LEFT S p;
        if a = pl then SET_LEFT S p (ptr child) else SET_RIGHT S p (ptr child) }
      else Some (S\<lparr>root := ptr child\<rparr>)) = Some S'"
    using S'(1) by (cases ctx) (simp_all add: set_child_def path_of_top cong: if_cong)
  have path: "path_set_top (path_of ctx a) (Suc 0) (ptr child) = Some (path_of ctx (ptr child))"
    by (simp add: path_of_def path_set_top_def poke_def)
  have sub: "set (inorder child) \<subseteq> set (inorder l) \<union> set (inorder r)" "distinct (inorder child)"
    using D by (auto simp: child_def)
  have same: "\<forall>p \<in> set (inorder child) \<union> {a}. nodes S' p = nodes S p"
  proof
    fix p assume "p \<in> set (inorder child) \<union> {a}"
    then have "p \<in> set (inorder l) \<union> {a} \<union> set (inorder r)" using sub by auto
    then have "p \<notin> set (lefts ctx) \<union> set (rights ctx)" using D by auto
    then show "nodes S' p = nodes S p" using S'(4) by blast
  qed
  have "holds S' child" "cell S' a c (ptr l) (ptr r)"
    using \<open>holds S child\<close> cells(1) holds_cong [of child S' S] cell_cong [of S' a S] same by auto
  moreover have "rep (h(a \<mapsto> mknode c (ptr l) (ptr r))) S' (plug ctx child)"
  proof -
    have "nodes S' p = (h(a \<mapsto> mknode c (ptr l) (ptr r))) p"
      if "p \<notin> set (lefts ctx) \<union> set (inorder child) \<union> set (rights ctx)" for p
    proof (cases "p = a")
      case True
      then show ?thesis using \<open>cell S' a c (ptr l) (ptr r)\<close> by (simp add: cell_def)
    next
      case False
      moreover have "set (inorder child) = set (inorder l) \<union> set (inorder r)"
        using one by (auto simp: child_def)
      ultimately show ?thesis using that S'(4) frame by auto
    qed
    then show ?thesis
      unfolding rep_plug using S'(2,3) \<open>holds S' child\<close> D sub by auto
  qed
  moreover have "remove_unlink S a (path_of ctx a) = Some (S', path_of ctx (ptr child))"
    using cells(1) child parent path by (simp add: remove_unlink_def cell_read)
  ultimately show ?thesis by (auto simp: cell_read)
qed

text \<open>The invariant does not depend on the labels.\<close>

lemma relabel_ctx:
  "ctx_c (lctx @ RFrame c s l # ctx) k = ctx_c (lctx @ RFrame c a l # ctx) k"
  "ctx_h (lctx @ RFrame c s l # ctx) n = ctx_h (lctx @ RFrame c a l # ctx) n"
  "top_black (lctx @ RFrame c s l # ctx) = top_black (lctx @ RFrame c a l # ctx)"
  by (induction lctx arbitrary: k n) (simp_all add: top_black_def)

lemma is_rb_swapped:
  "is_rb (plug ctx (Node c l a (plug lctx (Node cs Leaf s sr)))) \<longleftrightarrow>
     is_rb (plug (lctx @ RFrame c s l # ctx) (Node cs Leaf a sr))"
proof -
  have "plug ctx (Node c l a (plug lctx (Node cs Leaf s sr))) =
      plug (lctx @ RFrame c a l # ctx) (Node cs Leaf s sr)" by simp
  moreover have "ctx_c (lctx @ RFrame c s l # ctx) k = ctx_c (lctx @ RFrame c a l # ctx) k"
    "ctx_h (lctx @ RFrame c s l # ctx) n = ctx_h (lctx @ RFrame c a l # ctx) n"
    "top_black (lctx @ RFrame c s l # ctx) = top_black (lctx @ RFrame c a l # ctx)" for k n
    by (rule relabel_ctx)+
  ultimately show ?thesis
    unfolding is_rb_plug [of "lctx @ RFrame c s l # ctx"]
    by (simp only: is_rb_plug [of "lctx @ RFrame c a l # ctx"]) simp
qed

lemma remove_prepare:
  assumes R: "rep h S (plug ctx (Node c l a r))" and rb: "is_rb (plug ctx (Node c l a r))"
  shows "\<exists>S' ctx' c' l' r'.
    do { nr \<leftarrow> RIGHT S a;
      if nr \<noteq> NULL then do {
            let node_index = length (path_of ctx a) - 1;
            (S, path, successor) \<leftarrow> remove_find_successor S a node_index (path_of ctx a);
            S \<leftarrow> (if successor \<noteq> NULL then remove_swap_common S a node_index path successor
                  else Some S);
            Some (S, path)
          }
          else Some (S, path_of ctx a) } = Some (S', path_of ctx' a) \<and>
    rep h S' (plug ctx' (Node c' l' a r')) \<and> (l' = Leaf \<or> r' = Leaf) \<and> is_rb (plug ctx' (Node c' l' a r')) \<and>
    inorder (plug ctx' (if l' = Leaf then r' else l')) = lefts ctx @ inorder l @ inorder r @ rights ctx"
proof -
  have cells: "cell S a c (ptr l) (ptr r)" "holds S r" "holds S l" using R by (simp_all add: rep_plug)
  have len: "length ctx + height (Node c l a r) \<le> 126"
    using height_plug [of ctx "Node c l a r"] rep_height [OF R rb] by linarith
  show ?thesis
  proof (cases "r = Leaf")
    case True
    then have "RIGHT S a = Some NULL" using cells by (simp add: cell_read)
    with True R rb show ?thesis
      by - (rule exI [of _ S], rule exI [of _ ctx], rule exI [of _ c], rule exI [of _ l],
          rule exI [of _ r], simp add: inorder_plug)
  next
    case False
    obtain lctx cs s sr where m: "min_path r [] = (lctx, Node cs Leaf s sr)"
      using min_path_Node [OF False] by blast
    have r: "r = plug lctx (Node cs Leaf s sr)" using plug_min_path [OF m] by simp
    have nr: "RIGHT S a = Some (ptr r)" "ptr r \<noteq> NULL"
      using cells False by (simp_all add: cell_read ptr_NULL)
    have s: "s \<noteq> NULL" using cells(2) unfolding r by (auto simp: holds_plug cell_facts)
    have idx: "length (path_of ctx a) - 1 = length ctx" by (simp add: path_of_def)
    have path: "a # map frame_label lctx @ s # map frame_label ctx =
        path_of (lctx @ RFrame c s l # ctx) a" by (simp add: path_of_def)
    show ?thesis
    proof (cases "lctx = [] \<and> l = Leaf")
      case True
      then have "r = Node cs Leaf s sr" using r by simp
      then have "cell S s cs NULL (ptr sr)" "ptr r = s" using cells by simp_all
      then have "remove_find_successor S a (length ctx) (path_of ctx a) = Some (S, path_of ctx a, NULL)"
        using cells nr(1) True by (simp add: remove_find_successor_def cell_read)
      with nr idx True R rb show ?thesis
        by - (rule exI [of _ S], rule exI [of _ ctx], rule exI [of _ c], rule exI [of _ l],
            rule exI [of _ r], simp add: inorder_plug Let_def)
    next
      case ex: False
      obtain S1 where S1: "remove_find_successor S a (length ctx) (path_of ctx a) =
          Some (S1, a # map frame_label lctx @ s # map frame_label ctx, s)"
          "half_swapped h S1 ctx c l a lctx cs s sr"
        using find_successor_near [of h S ctx c l a cs s sr] find_successor_far [of h S ctx c l a lctx cs s sr]
          R ex m len unfolding r by (cases "lctx = []") auto
      obtain S2 where S2: "remove_swap_common S1 a (length ctx) (a # map frame_label lctx @ s # map frame_label ctx) s = Some S2"
          "rep h S2 (plug (lctx @ RFrame c s l # ctx) (Node cs Leaf a sr))"
        using swap_common [OF S1(2)] by blast
      show ?thesis
        using nr idx S1(1) S2 s path rb [unfolded r is_rb_swapped] min_path_lefts [OF m]
        by - (rule exI [of _ S2], rule exI [of _ "lctx @ RFrame c s l # ctx"], rule exI [of _ cs],
            rule exI [of _ Leaf], rule exI [of _ sr], simp add: Let_def r inorder_plug)
    qed
  qed
qed

section \<open>Removal\<close>

lemma remove_rb:
  assumes R: "rep h S (plug ctx child)" and rb: "is_rb (plug ctx (Node c l a r))"
    and one: "l = Leaf \<or> r = Leaf" and child: "child = (if l = Leaf then r else l)"
    and len: "length ctx \<le> 126"
  shows "\<exists>S' T'. (if c = Black then rbtree_remove_fixup S (path_of ctx (ptr child)) else Some S) = Some S' \<and>
    rep h S' T' \<and> is_rb T' \<and> inorder T' = inorder (plug ctx child)"
proof -
  have n: "invc (Node c l a r)" "invh (Node c l a r)" "ctx_c ctx c" "ctx_h ctx (bheight (Node c l a r))"
    "top_black ctx" "ctx = [] \<longrightarrow> c = Black"
    using rb unfolding is_rb_plug color.simps by blast+
  have ch: "invc child" "invh child" "bheight child = bheight l" using n(1,2) child by auto
  show ?thesis
  proof (cases c)
    case Red
    then have "color child = Black" using n(1) child by auto
    then have "is_rb (plug ctx child)"
      using Red n ch ctx_c_Black [OF n(3)] by (simp add: is_rb_plug)
    with Red R show ?thesis by auto
  next
    case Black
    then have b: "invc (paint Black child)" "ctx_c ctx Black" "ctx_h ctx (bheight child + 1)"
      using n ch by simp_all
    obtain S' where "rbtree_remove_fixup S (path_of ctx (ptr child)) = Some S'" "rep h S' (rem_fix ctx child)"
      using remove_fixup [OF R b(1) ch(2) b(2,3) len] by blast
    with Black is_rb_rem_fix [OF b(1) ch(2) b(2,3) n(5)] inorder_rem_fix [of ctx child]
    show ?thesis by auto
  qed
qed

lemma ordered_remove1: "ordered cmp xs \<Longrightarrow> ordered cmp (remove1 a xs)"
proof (induction xs)
  case (Cons x xs)
  have "set (remove1 a xs) \<subseteq> set xs" by (rule set_remove1_subset)
  with Cons show ?case by (auto simp: ordered_def)
qed simp

lemma rbtree_remove_effect:
  assumes cmp: "comparator cmp" and tree: "rbtree_holds cmp S xs"
  shows "if \<exists>a \<in> set xs. cmp key a = 0
    then \<exists>a S'. a \<in> set xs \<and> cmp key a = 0 \<and> rbtree_remove S key cmp = Some (a, S') \<and>
      rbtree_holds cmp S' (remove1 a xs) \<and> (\<forall>p. p \<notin> set xs \<longrightarrow> nodes S' p = nodes S p)
    else rbtree_remove S key cmp = Some (NULL, S)"
proof -
  obtain T where T: "rep (nodes S) S T" "is_rb T" "inorder T = xs" "ordered cmp xs"
    using tree by (auto simp: rbtree_holds_def)
  obtain ctx u where L: "plug ctx u = T" "ctx_dir (cmp key) ctx" "descent_ok (cmp key) ctx"
    "rbtree_lookup_path S (root S) key cmp 0 [] =
      Some (if u = Leaf then (last_cmp (cmp key) ctx, map frame_label ctx) else (0, path_of ctx (ptr u)))"
    "u \<noteq> Leaf \<Longrightarrow> cmp key (ptr u) = 0" "length ctx + height u \<le> 126"
    using lookup_root [OF cmp T(1,2)] T(3,4) by metis
  show ?thesis
  proof (cases u)
    case Leaf
    have "xs = lefts ctx @ rights ctx" using L(1) T(3) Leaf by (auto simp: inorder_plug)
    then have "\<not> (\<exists>a \<in> set xs. cmp key a = 0)" using L(3) by (force simp: descent_ok_def)
    moreover have "rbtree_remove S key cmp = Some (NULL, S)"
      using L(4) Leaf dir_nonzero [OF L(2)] by (auto simp: rbtree_remove_def)
    ultimately show ?thesis by simp
  next
    case (Node c l a r)
    have xs: "xs = lefts ctx @ inorder l @ a # inorder r @ rights ctx" "distinct xs"
      using L(1) T(1,3) Node by (auto simp: inorder_plug rep_def)
    have a: "a \<in> set xs" "cmp key a = 0" using xs L(5) Node by auto
    have rm: "remove1 a xs = lefts ctx @ inorder l @ inorder r @ rights ctx"
      using xs by (simp add: remove1_append)
    have R: "rep (nodes S) S (plug ctx (Node c l a r))" "is_rb (plug ctx (Node c l a r))"
      using T L(1) Node by simp_all
    obtain S1 ctx' c' l' r' where 1:
      "do { nr \<leftarrow> RIGHT S a;
        if nr \<noteq> NULL then do {
            let node_index = length (path_of ctx a) - 1;
            (S, path, successor) \<leftarrow> remove_find_successor S a node_index (path_of ctx a);
            S \<leftarrow> (if successor \<noteq> NULL then remove_swap_common S a node_index path successor
                  else Some S);
            Some (S, path)
          }
          else Some (S, path_of ctx a) } = Some (S1, path_of ctx' a)"
      "rep (nodes S) S1 (plug ctx' (Node c' l' a r'))" "l' = Leaf \<or> r' = Leaf"
      "is_rb (plug ctx' (Node c' l' a r'))"
      "inorder (plug ctx' (if l' = Leaf then r' else l')) = remove1 a xs"
      using remove_prepare [OF R] unfolding rm by blast
    let ?child = "if l' = Leaf then r' else l'"
    obtain S2 where 2: "remove_unlink S1 a (path_of ctx' a) = Some (S2, path_of ctx' (ptr ?child))"
      "rep ((nodes S)(a \<mapsto> mknode c' (ptr l') (ptr r'))) S2 (plug ctx' ?child)"
      "IS_BLACK S2 a = Some (c' = Black)"
      using remove_unlink [OF 1(2,3)] by auto
    have "length ctx' \<le> 126"
      using height_plug [of ctx' "Node c' l' a r'"] rep_height [OF 1(2,4)] by linarith
    from remove_rb [OF 2(2) 1(4,3) refl this] obtain S3 T3 where
      3: "(if c' = Black then rbtree_remove_fixup S2 (path_of ctx' (ptr ?child)) else Some S2) = Some S3"
      "rep ((nodes S)(a \<mapsto> mknode c' (ptr l') (ptr r'))) S3 T3" "is_rb T3" "inorder T3 = remove1 a xs"
      using 1(5) by metis
    obtain nr where nr: "RIGHT S a = Some nr" using 1(1) by (cases "RIGHT S a") simp_all
    have top: "path_top (path_of ctx a) 1 = Some a" "path_of ctx a \<noteq> []"
      by (simp_all add: path_of_def path_top_def peek_def)
    have "rbtree_remove S key cmp = Some (a, S3)"
      using L(4) Node 1(1) [unfolded nr Option.bind.bind_lunit] 2(1,3) 3(1)
      by (simp add: rbtree_remove_def top nr del: One_nat_def)
    moreover have "rbtree_holds cmp S3 (remove1 a xs)"
      using 3 ordered_remove1 [OF T(4)] by (auto simp: rbtree_holds_def rep_def)
    moreover have "\<forall>p. p \<notin> set xs \<longrightarrow> nodes S3 p = nodes S p"
      using 3(2,4) a(1) by (auto simp: rep_def dest: notin_set_remove1)
    ultimately show ?thesis using a by auto
  qed
qed

text \<open>
  C2. \<open>rbtree_remove\<close> on a valid tree of any size: it stays within its 128-entry path and the
  nodes of the tree; without an equal node it returns NULL and changes nothing, otherwise it
  returns the equal node, disconnected, and leaves a valid red-black tree of all the others in
  their order.
\<close>

theorem rbtree_remove_correct:
  assumes cmp: "comparator cmp" and tree: "rbtree_holds cmp S xs"
  shows "if \<exists>a \<in> set xs. cmp key a = 0
    then \<exists>a S'. a \<in> set xs \<and> cmp key a = 0 \<and> rbtree_remove S key cmp = Some (a, S') \<and>
      rbtree_holds cmp S' (remove1 a xs) \<and> (\<forall>p. p \<notin> set xs \<longrightarrow> nodes S' p = nodes S p)
    else rbtree_remove S key cmp = Some (NULL, S)"
  using assms by (rule rbtree_remove_effect)


theorem rbtree_remove_correct_witness:
  "\<exists>S'. rbtree_remove example_tree 16 address_order = Some (16, S') \<and>
     rbtree_holds address_order S' [32]"
  using rbtree_remove_correct [OF comparator_address_order example_holds, of 16]
  by (auto simp: address_order_def)

end
