(* ===== verification/Rbtree_Walk.thy ===== *)
theory Rbtree_Walk
  imports Rbtree_Remove
begin

text \<open>
  Lookup, cursors, cleaning and the checker of \<open>data/rbtree.c\<close>: the functions that read the tree
  or take it apart.
\<close>

section \<open>Lookup\<close>

lemma lookup_loop:
  assumes "holds S t" "find_path k t ctx = (ctx', u)" "k = cmp_func key"
  shows "rbtree_lookup_loop S (ptr t) key cmp_func = Some (ptr u)"
  using assms
proof (induction k t ctx rule: find_path.induct)
  case (1 k ctx)
  then show ?case by (subst rbtree_lookup_loop.simps) simp
next
  case (2 k c l a r ctx)
  then have "cell S a c (ptr l) (ptr r)" "holds S l" "holds S r" by simp_all
  with 2 show ?case
    by (subst rbtree_lookup_loop.simps) (auto simp: cell_read cell_facts split: if_splits)
qed

text \<open>
  The cursor stands at the node \<open>a\<close>, with the nodes \<open>ys\<close> before it and \<open>zs\<close> behind it.
\<close>

definition cursor_at :: "RBTREE \<Rightarrow> RBTREE_CURSOR \<Rightarrow> addr list \<Rightarrow> addr \<Rightarrow> addr list \<Rightarrow> bool" where
  "cursor_at S cur ys a zs \<longleftrightarrow> (\<exists>ctx c l r.
     rep (nodes S) S (plug ctx (Node c l a r)) \<and> is_rb (plug ctx (Node c l a r)) \<and>
     cur = path_of ctx a \<and> lefts ctx @ inorder l = ys \<and> inorder r @ rights ctx = zs)"

lemma rbtree_lookup_effect:
  assumes cmp: "comparator cmp" and tree: "rbtree_holds cmp S xs"
  shows "if \<exists>a \<in> set xs. cmp key a = 0
    then \<exists>ys a zs cur. xs = ys @ a # zs \<and> cmp key a = 0 \<and>
      rbtree_lookup S key cmp = Some a \<and>
      rbtree_lookup_ex S key cmp = Some (a, cur) \<and> cursor_at S cur ys a zs \<and>
      (\<forall>b \<in> set ys. 0 < cmp key b) \<and> (\<forall>b \<in> set zs. cmp key b < 0)
    else rbtree_lookup S key cmp = Some NULL \<and> rbtree_lookup_ex S key cmp = Some (NULL, [])"
proof -
  obtain T where T: "rep (nodes S) S T" "is_rb T" "inorder T = xs" "ordered cmp xs"
    using tree by (auto simp: rbtree_holds_def)
  obtain ctx u where L: "find_path (cmp key) T [] = (ctx, u)" "plug ctx u = T" "ctx_dir (cmp key) ctx"
    "descent_ok (cmp key) ctx"
    "rbtree_lookup_path S (root S) key cmp 0 [] =
      Some (if u = Leaf then (last_cmp (cmp key) ctx, map frame_label ctx) else (0, path_of ctx (ptr u)))"
    "u \<noteq> Leaf \<Longrightarrow> cmp key (ptr u) = 0"
    using lookup_root [OF cmp T(1,2)] T(3,4) by metis
  have look: "rbtree_lookup S key cmp = Some (ptr u)"
    using lookup_loop [of S T "cmp key" "[]" ctx u cmp key] L(1) T(1) by (simp add: rbtree_lookup_def rep_def)
  show ?thesis
  proof (cases u)
    case Leaf
    have "xs = lefts ctx @ rights ctx" using L(2) T(3) Leaf by (auto simp: inorder_plug)
    then have "\<not> (\<exists>a \<in> set xs. cmp key a = 0)" using L(4) by (force simp: descent_ok_def)
    moreover have "rbtree_lookup_ex S key cmp = Some (NULL, [])"
      using L(5) Leaf dir_nonzero [OF L(3)] by (auto simp: rbtree_lookup_ex_def)
    ultimately show ?thesis using look Leaf by simp
  next
    case (Node c l a r)
    let ?ys = "lefts ctx @ inorder l" and ?zs = "inorder r @ rights ctx"
    have xs: "xs = ?ys @ a # ?zs" using L(2) T(3) Node by (auto simp: inorder_plug)
    have a: "cmp key a = 0" using L(6) Node by simp
    have "rbtree_lookup_ex S key cmp = Some (a, path_of ctx a)"
      using L(5) Node by (simp add: rbtree_lookup_ex_def path_of_def path_top_def peek_def)
    moreover have "cursor_at S (path_of ctx a) ?ys a ?zs"
      using T(1,2) L(2) Node by (auto simp: cursor_at_def)
    moreover have "\<forall>b \<in> set ?ys. 0 < cmp key b"
      using T(4) xs a comparator.cmp_less_le [OF cmp, of _ a key] comparator.cmp_eq_swap [OF cmp, of key a]
      by (auto simp: ordered_def sorted_wrt_append comparator.cmp_swap [OF cmp, symmetric])
    moreover have "\<forall>b \<in> set ?zs. cmp key b < 0"
      using T(4) xs a comparator.cmp_le_less [OF cmp, of key a]
      by (auto simp: ordered_def sorted_wrt_append)
    ultimately show ?thesis using xs a look Node by (metis (no_types, lifting) in_set_conv_decomp ptr.simps(2))
  qed
qed

text \<open>
  \<open>rbtree_lookup\<close> and \<open>rbtree_lookup_ex\<close> on a valid tree agree: they find the node equal to
  the key (there is at most one), the latter leaving its cursor at that place of the order, or
  return NULL, with an empty cursor, when no node is equal to it.
\<close>

theorem rbtree_lookup_correct:
  assumes cmp: "comparator cmp" and tree: "rbtree_holds cmp S xs"
  shows "if \<exists>a \<in> set xs. cmp key a = 0
    then \<exists>ys a zs cur. xs = ys @ a # zs \<and> cmp key a = 0 \<and>
      rbtree_lookup S key cmp = Some a \<and>
      rbtree_lookup_ex S key cmp = Some (a, cur) \<and> cursor_at S cur ys a zs \<and>
      (\<forall>b \<in> set ys. 0 < cmp key b) \<and> (\<forall>b \<in> set zs. cmp key b < 0)
    else rbtree_lookup S key cmp = Some NULL \<and> rbtree_lookup_ex S key cmp = Some (NULL, [])"
  using assms by (rule rbtree_lookup_effect)

section \<open>Walking\<close>

lemma cursor_atI:
  "rep (nodes S) S (plug ctx (Node c l a r)) \<Longrightarrow> is_rb (plug ctx (Node c l a r)) \<Longrightarrow>
     cursor_at S (path_of ctx a) (lefts ctx @ inorder l) a (inorder r @ rights ctx)"
  unfolding cursor_at_def by blast

lemma cursor_current: "cursor_at S cur ys a zs \<Longrightarrow> rbtree_current cur = Some a"
  by (auto simp: cursor_at_def rbtree_current_def path_of_def path_top_def peek_def)

lemma cursor_holds: "cursor_at S cur ys a zs \<Longrightarrow> \<exists>T. rep (nodes S) S T \<and> is_rb T \<and> inorder T = ys @ a # zs"
  by (auto simp: cursor_at_def inorder_plug)

fun max_path :: "'a rbt \<Rightarrow> 'a frame list \<Rightarrow> 'a frame list \<times> 'a rbt" where
  "max_path Leaf ctx = (ctx, Leaf)"
| "max_path (Node c l a r) ctx =
     (if r = Leaf then (ctx, Node c l a r) else max_path r (RFrame c a l # ctx))"

lemma plug_max_path: "max_path t ctx = (ctx', u) \<Longrightarrow> plug ctx' u = plug ctx t"
  by (induction t ctx rule: max_path.induct) (auto split: if_splits)

lemma max_path_Node: "t \<noteq> Leaf \<Longrightarrow> \<exists>ctx' c l a. max_path t ctx = (ctx', Node c l a Leaf)"
  by (induction t ctx rule: max_path.induct) auto

lemma max_path_rights: "max_path t ctx = (ctx', u) \<Longrightarrow> rights ctx' = rights ctx"
  by (induction t ctx rule: max_path.induct) (auto split: if_splits)

lemma rightmost_path:
  assumes "holds S t" "t \<noteq> Leaf" "length ctx + height t \<le> path_capacity"
    "max_path t ctx = (ctx', Node c l a Leaf)"
  shows "rbtree_rightmost_path S (ptr t) (map frame_label ctx) = Some (path_of ctx' a)"
  using assms
proof (induction t ctx rule: max_path.induct)
  case (2 d p b q ctx)
  have cell: "cell S b d (ptr p) (ptr q)" "holds S q" using 2(2) by simp_all
  then have b: "b \<noteq> NULL" "RIGHT S b = Some (ptr q)" by (simp_all add: cell_facts cell_read)
  have push: "path_push (map frame_label ctx) b = Some (b # map frame_label ctx)"
    using 2(4) by (simp add: path_push_def)
  show ?case
  proof (cases "q = Leaf")
    case True
    then have "rbtree_rightmost_path S (ptr q) (b # map frame_label ctx) = Some (b # map frame_label ctx)"
      by (subst rbtree_rightmost_path.simps) simp
    with True b push 2(5) show ?thesis by (subst rbtree_rightmost_path.simps) (auto simp: path_of_def)
  next
    case False
    with 2 cell have "rbtree_rightmost_path S (ptr q) (map frame_label (RFrame d b p # ctx)) =
        Some (path_of ctx' a)"
      by (intro "2.IH") auto
    with b push show ?thesis by (subst rbtree_rightmost_path.simps) simp
  qed
qed simp

text \<open>The descents to the first and to the last node below the node of a context.\<close>

lemma descend_left:
  assumes R: "rep (nodes S) S (plug ctx t)" "is_rb (plug ctx t)" and t: "t \<noteq> Leaf"
  shows "\<exists>a zs cur. inorder t = a # zs \<and> rbtree_leftmost_path S (ptr t) (map frame_label ctx) = Some cur \<and>
    cursor_at S cur (lefts ctx) a (zs @ rights ctx)"
proof -
  obtain ctx' c a r where m: "min_path t ctx = (ctx', Node c Leaf a r)" using min_path_Node [OF t] by blast
  have "length ctx + height t \<le> path_capacity"
    using height_plug [of ctx t] rep_height [OF R] by (simp add: path_capacity_def)
  then have "rbtree_leftmost_path S (ptr t) (map frame_label ctx) = Some (path_of ctx' a)"
    using leftmost_path [OF _ t _ m, of S "[]"] R(1) by (simp add: rep_plug path_of_def)
  moreover have plug: "plug ctx' (Node c Leaf a r) = plug ctx t" using plug_min_path [OF m] .
  moreover have lefts: "lefts ctx' = lefts ctx" using min_path_lefts [OF m] by simp
  moreover obtain x xs where x: "inorder t = x # xs" using t by (cases "inorder t") (cases t; simp)+
  moreover have "lefts ctx @ a # inorder r @ rights ctx' = lefts ctx @ x # xs @ rights ctx"
    using arg_cong [OF plug, of inorder] lefts x by (simp add: inorder_plug)
  ultimately show ?thesis
    using R cursor_atI [of S ctx' c Leaf a r] by auto
qed

lemma descend_right:
  assumes R: "rep (nodes S) S (plug ctx t)" "is_rb (plug ctx t)" and t: "t \<noteq> Leaf"
  shows "\<exists>a ys cur. inorder t = ys @ [a] \<and> rbtree_rightmost_path S (ptr t) (map frame_label ctx) = Some cur \<and>
    cursor_at S cur (lefts ctx @ ys) a (rights ctx)"
proof -
  obtain ctx' c l a where m: "max_path t ctx = (ctx', Node c l a Leaf)" using max_path_Node [OF t] by blast
  have "length ctx + height t \<le> path_capacity"
    using height_plug [of ctx t] rep_height [OF R] by (simp add: path_capacity_def)
  then have "rbtree_rightmost_path S (ptr t) (map frame_label ctx) = Some (path_of ctx' a)"
    using rightmost_path [OF _ t _ m, of S] R(1) by (simp add: rep_plug)
  moreover have plug: "plug ctx' (Node c l a Leaf) = plug ctx t" using plug_max_path [OF m] .
  moreover have rights: "rights ctx' = rights ctx" using max_path_rights [OF m] by simp
  moreover obtain xs x where x: "inorder t = xs @ [x]"
    using t by (cases "inorder t" rule: rev_cases) (cases t; simp)+
  moreover have "(lefts ctx' @ inorder l) @ [a] @ rights ctx = (lefts ctx @ xs) @ [x] @ rights ctx"
    using arg_cong [OF plug, of inorder] rights x by (simp add: inorder_plug)
  then have "lefts ctx' @ inorder l = lefts ctx @ xs" "a = x" by simp_all
  ultimately show ?thesis
    using R cursor_atI [of S ctx' c l a Leaf] by auto
qed

text \<open>
  The climbs to the next and to the previous node above a subtree: the first frame on whose
  left, or right, side it is.
\<close>

fun next_above :: "'a frame list \<Rightarrow> 'a rbt \<Rightarrow> ('a frame list \<times> rb_color \<times> 'a rbt \<times> 'a \<times> 'a rbt) option" where
  "next_above [] t = None"
| "next_above (LFrame c g s # ctx) t = Some (ctx, c, t, g, s)"
| "next_above (RFrame c g s # ctx) t = next_above ctx (Node c s g t)"

fun prev_above :: "'a frame list \<Rightarrow> 'a rbt \<Rightarrow> ('a frame list \<times> rb_color \<times> 'a rbt \<times> 'a \<times> 'a rbt) option" where
  "prev_above [] t = None"
| "prev_above (RFrame c g s # ctx) t = Some (ctx, c, s, g, t)"
| "prev_above (LFrame c g s # ctx) t = prev_above ctx (Node c t g s)"

lemma next_above_None: "next_above ctx t = None \<Longrightarrow> rights ctx = []"
  by (induction ctx t rule: next_above.induct) simp_all

lemma next_above_Some:
  "next_above ctx t = Some (ctx', c, l, b, r) \<Longrightarrow> plug ctx' (Node c l b r) = plug ctx t \<and>
     lefts ctx' @ inorder l = lefts ctx @ inorder t \<and> b # inorder r @ rights ctx' = rights ctx"
  by (induction ctx t rule: next_above.induct) simp_all

lemma prev_above_None: "prev_above ctx t = None \<Longrightarrow> lefts ctx = []"
  by (induction ctx t rule: prev_above.induct) simp_all

lemma prev_above_Some:
  "prev_above ctx t = Some (ctx', c, l, b, r) \<Longrightarrow> plug ctx' (Node c l b r) = plug ctx t \<and>
     inorder r @ rights ctx' = inorder t @ rights ctx \<and> lefts ctx' @ inorder l @ [b] = lefts ctx"
  by (induction ctx t rule: prev_above.induct) simp_all

lemma climb_right:
  assumes "rep h S (plug ctx t)" "t \<noteq> Leaf"
  shows "\<exists>p. climb (RIGHT S) (path_of ctx (ptr t)) =
    Some (case next_above ctx t of None \<Rightarrow> [p] | Some (ctx', _, _, b, _) \<Rightarrow> p # path_of ctx' b)"
  using assms
proof (induction ctx t rule: next_above.induct)
  case (1 t)
  then show ?case by (simp add: path_of_def)
next
  case (2 c g s ctx t)
  have R: "rep h S (plug ctx (Node c t g s))" using 2 by simp
  then have "set (inorder t) \<inter> set (inorder s) = {}" "holds S t" by (auto simp: rep_plug)
  then have "ptr t \<noteq> ptr s" using ptr_eq_disjoint ptr_NULL 2(2) by metis
  moreover have "RIGHT S g = Some (ptr s)" using cell_read(2) [OF rep_cell [OF R]] .
  ultimately show ?case by (simp add: path_of_def)
next
  case (3 c g s ctx t)
  have "RIGHT S g = Some (ptr t)" using cell_read(2) [OF rep_cell, of h S ctx c s g t] 3 by simp
  with 3 show ?case by (simp add: path_of_def)
qed

lemma climb_left:
  assumes "rep h S (plug ctx t)" "t \<noteq> Leaf"
  shows "\<exists>p. climb (LEFT S) (path_of ctx (ptr t)) =
    Some (case prev_above ctx t of None \<Rightarrow> [p] | Some (ctx', _, _, b, _) \<Rightarrow> p # path_of ctx' b)"
  using assms
proof (induction ctx t rule: prev_above.induct)
  case (1 t)
  then show ?case by (simp add: path_of_def)
next
  case (2 c g s ctx t)
  have R: "rep h S (plug ctx (Node c s g t))" using 2 by simp
  then have "set (inorder t) \<inter> set (inorder s) = {}" "holds S t" by (auto simp: rep_plug)
  then have "ptr t \<noteq> ptr s" using ptr_eq_disjoint ptr_NULL 2(2) by metis
  moreover have "LEFT S g = Some (ptr s)" using cell_read(1) [OF rep_cell [OF R]] .
  ultimately show ?case by (simp add: path_of_def)
next
  case (3 c g s ctx t)
  have "LEFT S g = Some (ptr t)" using cell_read(1) [OF rep_cell, of h S ctx c t g s] 3 by simp
  with 3 show ?case by (simp add: path_of_def)
qed

lemma next_step:
  assumes "cursor_at S cur ys a zs"
  shows "case zs of [] \<Rightarrow> rbtree_next S cur = Some (NULL, cur)
    | b # zs' \<Rightarrow> \<exists>cur'. rbtree_next S cur = Some (b, cur') \<and> cursor_at S cur' (ys @ [a]) b zs'"
proof -
  obtain ctx c l r where R: "rep (nodes S) S (plug ctx (Node c l a r))" "is_rb (plug ctx (Node c l a r))"
    and cur: "cur = path_of ctx a" and ys: "ys = lefts ctx @ inorder l" and zs: "zs = inorder r @ rights ctx"
    using assms by (auto simp: cursor_at_def)
  have a: "RIGHT S a = Some (ptr r)" "path_top cur 1 = Some a" "cur \<noteq> []" "holds S r"
    using cell_read(2) [OF rep_cell [OF R(1)]] R(1) by (simp_all add: cur path_of_def path_top_def peek_def rep_plug)
  show ?thesis
  proof (cases "r = Leaf")
    case False
    have R': "rep (nodes S) S (plug (RFrame c a l # ctx) r)" "is_rb (plug (RFrame c a l # ctx) r)"
      using R by simp_all
    obtain b zs' cur' where b: "inorder r = b # zs'" "rbtree_leftmost_path S (ptr r) cur = Some cur'"
        "cursor_at S cur' (ys @ [a]) b (zs' @ rights ctx)"
      using descend_left [OF R' False] by (auto simp: cur path_of_def ys)
    then show ?thesis
      using a zs False cursor_current [OF b(3)] ptr_NULL [OF a(4)] by (simp add: rbtree_next_def)
  next
    case True
    then have r: "RIGHT S a = Some NULL" using a by simp
    obtain p where p: "climb (RIGHT S) (path_of ctx a) = Some (case next_above ctx (Node c l a r) of
        None \<Rightarrow> [p] | Some (ctx', _, _, b, _) \<Rightarrow> p # path_of ctx' b)"
      using climb_right [OF R(1)] by auto
    show ?thesis
    proof (cases "next_above ctx (Node c l a r)")
      case None
      with p r a zs True next_above_None [OF None] cur show ?thesis
        by (simp add: rbtree_next_def)
    next
      case (Some x)
      obtain ctx' d l' b r' where x: "x = (ctx', d, l', b, r')" by (cases x) auto
      note up = next_above_Some [OF Some [unfolded x]]
      have "cursor_at S (path_of ctx' b) (lefts ctx' @ inorder l') b (inorder r' @ rights ctx')"
        using R up by (intro cursor_atI [of S ctx' d]) simp_all
      moreover have "rbtree_next S cur = Some (b, path_of ctx' b)"
        using p r a Some x cur cursor_current [OF calculation]
        by (simp add: rbtree_next_def Let_def) (simp add: path_of_def)
      ultimately show ?thesis using up ys zs True by (auto split: list.splits)
    qed
  qed
qed

lemma prev_step:
  assumes "cursor_at S cur ys a zs"
  shows "if ys = [] then rbtree_prev S cur = Some (NULL, cur)
    else \<exists>cur'. rbtree_prev S cur = Some (last ys, cur') \<and> cursor_at S cur' (butlast ys) (last ys) (a # zs)"
proof -
  obtain ctx c l r where R: "rep (nodes S) S (plug ctx (Node c l a r))" "is_rb (plug ctx (Node c l a r))"
    and cur: "cur = path_of ctx a" and ys: "ys = lefts ctx @ inorder l" and zs: "zs = inorder r @ rights ctx"
    using assms by (auto simp: cursor_at_def)
  have a: "LEFT S a = Some (ptr l)" "path_top cur 1 = Some a" "cur \<noteq> []" "holds S l"
    using cell_read(1) [OF rep_cell [OF R(1)]] R(1) by (simp_all add: cur path_of_def path_top_def peek_def rep_plug)
  show ?thesis
  proof (cases "l = Leaf")
    case False
    have R': "rep (nodes S) S (plug (LFrame c a r # ctx) l)" "is_rb (plug (LFrame c a r # ctx) l)"
      using R by simp_all
    obtain b ys' cur' where b: "inorder l = ys' @ [b]" "rbtree_rightmost_path S (ptr l) cur = Some cur'"
        "cursor_at S cur' (lefts ctx @ ys') b (a # zs)"
      using descend_right [OF R' False] by (auto simp: cur path_of_def zs)
    then show ?thesis
      using a ys False cursor_current [OF b(3)] ptr_NULL [OF a(4)] by (simp add: rbtree_prev_def butlast_append)
  next
    case True
    then have l: "LEFT S a = Some NULL" using a by simp
    obtain p where p: "climb (LEFT S) (path_of ctx a) = Some (case prev_above ctx (Node c l a r) of
        None \<Rightarrow> [p] | Some (ctx', _, _, b, _) \<Rightarrow> p # path_of ctx' b)"
      using climb_left [OF R(1)] by auto
    show ?thesis
    proof (cases "prev_above ctx (Node c l a r)")
      case None
      with p l a ys True prev_above_None [OF None] cur show ?thesis
        by (simp add: rbtree_prev_def)
    next
      case (Some x)
      obtain ctx' d l' b r' where x: "x = (ctx', d, l', b, r')" by (cases x) auto
      note up = prev_above_Some [OF Some [unfolded x]]
      have "cursor_at S (path_of ctx' b) (lefts ctx' @ inorder l') b (inorder r' @ rights ctx')"
        using R up by (intro cursor_atI [of S ctx' d]) simp_all
      moreover have "rbtree_prev S cur = Some (b, path_of ctx' b)"
        using p l a Some x cur cursor_current [OF calculation]
        by (simp add: rbtree_prev_def Let_def) (simp add: path_of_def)
      moreover have "ys = (lefts ctx' @ inorder l') @ [b]" using up ys True by simp
      then have "ys \<noteq> []" "last ys = b" "butlast ys = lefts ctx' @ inorder l'"
        by (simp_all only: last_snoc butlast_snoc) simp
      ultimately show ?thesis using up zs True by simp
    qed
  qed
qed

text \<open>
  The cursor steps: from a cursor at the node \<open>a\<close> of a valid tree, \<open>rbtree_next\<close> and
  \<open>rbtree_prev\<close> move to its neighbour in the order and return it; at the last, respectively the
  first, node they return NULL and leave the cursor where it is. \<open>rbtree_current\<close> is the node.
\<close>

theorem rbtree_cursor_steps:
  assumes "cursor_at S cur ys a zs"
  shows "rbtree_current cur = Some a \<and>
    (case zs of [] \<Rightarrow> rbtree_next S cur = Some (NULL, cur)
      | b # zs' \<Rightarrow> \<exists>cur'. rbtree_next S cur = Some (b, cur') \<and> cursor_at S cur' (ys @ [a]) b zs') \<and>
    (if ys = [] then rbtree_prev S cur = Some (NULL, cur)
     else \<exists>cur'. rbtree_prev S cur = Some (last ys, cur') \<and>
       cursor_at S cur' (butlast ys) (last ys) (a # zs))"
  using next_step [OF assms] prev_step [OF assms] cursor_current [OF assms] by blast

lemma rbtree_ends:
  assumes "rbtree_holds cmp S xs"
  shows "if xs = [] then rbtree_head S = Some (NULL, []) \<and> rbtree_tail S = Some (NULL, [])
    else (\<exists>cur. rbtree_head S = Some (hd xs, cur) \<and> cursor_at S cur [] (hd xs) (tl xs)) \<and>
      (\<exists>cur. rbtree_tail S = Some (last xs, cur) \<and> cursor_at S cur (butlast xs) (last xs) [])"
proof -
  obtain T where T: "rep (nodes S) S (plug [] T)" "is_rb (plug [] T)" "inorder T = xs"
    using assms by (auto simp: rbtree_holds_def)
  then have root: "root S = ptr T" by (simp add: rep_def)
  show ?thesis
  proof (cases "T = Leaf")
    case True
    then have "rbtree_leftmost_path S (root S) [] = Some []" "rbtree_rightmost_path S (root S) [] = Some []"
      using root by (simp_all add: rbtree_leftmost_path.simps rbtree_rightmost_path.simps)
    with True T(3) show ?thesis by (auto simp: rbtree_head_def rbtree_tail_def rbtree_current_def)
  next
    case False
    obtain a zs cur where h: "xs = a # zs" "rbtree_leftmost_path S (root S) [] = Some cur" "cursor_at S cur [] a zs"
      using descend_left [OF T(1,2) False] T(3) root by auto
    obtain b ys cur' where t: "xs = ys @ [b]" "rbtree_rightmost_path S (root S) [] = Some cur'" "cursor_at S cur' ys b []"
      using descend_right [OF T(1,2) False] T(3) root by auto
    have "rbtree_head S = Some (hd xs, cur)" "cursor_at S cur [] (hd xs) (tl xs)"
      using h cursor_current [OF h(3)] by (simp_all add: rbtree_head_def)
    moreover have "rbtree_tail S = Some (last xs, cur')" "cursor_at S cur' (butlast xs) (last xs) []"
      using t cursor_current [OF t(3)] by (simp_all add: rbtree_tail_def)
    ultimately show ?thesis using h(1) by auto
  qed
qed

text \<open>The loop over the whole tree that \<open>rbtree.h\<close> documents, collecting the nodes.\<close>

partial_function (option) walk_from :: "RBTREE \<Rightarrow> addr \<Rightarrow> RBTREE_CURSOR \<Rightarrow> addr list option" where
  "walk_from S node cur =
     (if node \<noteq> NULL then do {
        (next, cur) \<leftarrow> rbtree_next S cur;
        rest \<leftarrow> walk_from S next cur;
        Some (node # rest)
      }
      else Some [])"

definition walk_over_tree :: "RBTREE \<Rightarrow> addr list option" where
  "walk_over_tree S = do { (node, cur) \<leftarrow> rbtree_head S; walk_from S node cur }"

declare walk_from.simps [code]

lemma walk_from_cursor: "cursor_at S cur ys a zs \<Longrightarrow> walk_from S a cur = Some (a # zs)"
proof (induction zs arbitrary: ys a cur)
  case Nil
  have "a \<noteq> NULL" using cursor_holds [OF Nil] by (auto simp: rep_def dest: addr_nonnull)
  with next_step [OF Nil] show ?case by (subst walk_from.simps) (simp add: walk_from.simps [of S NULL])
next
  case (Cons b zs)
  have "a \<noteq> NULL" using cursor_holds [OF Cons.prems] by (auto simp: rep_def dest: addr_nonnull)
  moreover obtain cur' where "rbtree_next S cur = Some (b, cur')" "cursor_at S cur' (ys @ [a]) b zs"
    using next_step [OF Cons.prems] by auto
  ultimately show ?case using Cons.IH by (subst walk_from.simps) simp
qed

text \<open>
  C15. The documented walk (from \<open>rbtree_head\<close> by \<open>rbtree_next\<close> until NULL) over a valid tree
  terminates and visits exactly its nodes, each once, in the order of the comparator.
\<close>

theorem rbtree_walk_complete:
  assumes "rbtree_holds cmp S xs"
  shows "walk_over_tree S = Some xs \<and> sorted_wrt (\<lambda>a b. cmp a b < 0) xs \<and> distinct xs"
proof -
  have "walk_over_tree S = Some xs"
  proof (cases xs)
    case Nil
    with rbtree_ends [OF assms] show ?thesis by (simp add: walk_over_tree_def walk_from.simps)
  next
    case (Cons a zs)
    with rbtree_ends [OF assms] walk_from_cursor show ?thesis by (auto simp: walk_over_tree_def)
  qed
  then show ?thesis using assms by (auto simp: rbtree_holds_def rep_def ordered_def)
qed

section \<open>The checker\<close>

lemma verify_recurse:
  "holds S t \<Longrightarrow> rbtree_verify_recurse S (ptr t) =
     Some (if invc t \<and> invh t then int (bheight t) else -1)"
proof (induction t)
  case Leaf
  then show ?case by (subst rbtree_verify_recurse.simps) simp
next
  case (Node c l a r)
  then have cell: "cell S a c (ptr l) (ptr r)" and h: "holds S l" "holds S r" by simp_all
  have red: "(if c = Red \<and> ptr u \<noteq> NULL then IS_RED S (ptr u) else Some False) =
      Some (c = Red \<and> color u = Red)" if "holds S u" for u
    using that by (cases u) (auto simp: cell_read cell_facts)
  show ?case
    using Node.IH h red [OF h(1)] red [OF h(2)] cell_read [OF cell] cell_facts [OF cell]
    by (subst rbtree_verify_recurse.simps) (auto simp: weight_def)
qed

text \<open>
  C18. The checker of the test build is sound and complete: on any memory that represents a tree,
  \<open>rbtree_verify\<close> returns 0 if the tree satisfies the red-black invariant (black root, no red
  node with a red child, equal black heights), and -1 if it does not.
\<close>

theorem rbtree_verify_correct:
  assumes "rep h S T"
  shows "rbtree_verify S = Some (if is_rb T then 0 else -1)"
proof -
  have "holds S T" "root S = ptr T" using assms by (simp_all add: rep_def)
  then show ?thesis
    using verify_recurse [of S T] red_node_ptr [of S T]
    by (auto simp: rbtree_verify_def is_rb_def)
qed

section \<open>Cleaning\<close>

text \<open>Memory that represents a tree with the nodes \<open>xs\<close>, whatever its colours.\<close>

definition tree_nodes :: "RBTREE \<Rightarrow> addr list \<Rightarrow> bool" where
  "tree_nodes S xs \<longleftrightarrow> (\<exists>T. rep (nodes S) S T \<and> inorder T = xs)"

text \<open>
  The cleaning loop that \<open>rbtree.h\<close> documents: every node returned is freed (it is no longer
  readable) before the next step.
\<close>

partial_function (option) clean_tree :: "RBTREE \<Rightarrow> (addr list \<times> RBTREE) option" where
  "clean_tree S = do {
     (node, S) \<leftarrow> rbtree_fini_step S;
     if node = NULL then Some ([], S)
     else do {
       (rest, S) \<leftarrow> clean_tree (S\<lparr>nodes := (nodes S)(node := None)\<rparr>);
       Some (node # rest, S)
     }
   }"

declare clean_tree.simps [code]

lemma fini_descend:
  assumes "holds S t" "t \<noteq> Leaf" "min_path t ctx = (ctx', Node c Leaf a r)"
  shows "rbtree_fini_descend S (parent_ptr ctx) (ptr t) = Some (parent_ptr ctx', a)"
  using assms
proof (induction t ctx rule: min_path.induct)
  case (2 d l b q ctx)
  have cell: "cell S b d (ptr l) (ptr q)" "holds S l" using 2(2) by simp_all
  then have b: "LEFT S b = Some (ptr l)" "(ptr l = NULL) = (l = Leaf)" by (simp_all add: cell_read ptr_NULL)
  with 2 cell show ?case
    by (subst rbtree_fini_descend.simps) (auto split: if_splits)
qed simp

lemma unlink_leftmost:
  assumes R: "rep h S (plug ctx (Node c Leaf a r))" and ctx: "ctx = [] \<or> (\<exists>d p q rest. ctx = LFrame d p q # rest)"
    and lefts: "lefts ctx = []"
  shows "\<exists>S'. (if parent_ptr ctx = NULL then Some (S\<lparr>root := ptr r\<rparr>)
        else update_node S (parent_ptr ctx) (\<lambda>x. x\<lparr>node_lc := ptr r\<rparr>)) = Some S' \<and>
    tree_nodes S' (inorder r @ rights ctx) \<and> (\<forall>p. p \<notin> set (rights ctx) \<longrightarrow> nodes S' p = nodes S p)"
proof (cases "ctx = []")
  case True
  with R have "rep (nodes (S\<lparr>root := ptr r\<rparr>)) (S\<lparr>root := ptr r\<rparr>) r" by (auto simp: rep_def heap_simps)
  with True show ?thesis by (auto simp: tree_nodes_def)
next
  case False
  then obtain d p q rest where f: "ctx = LFrame d p q # rest" using ctx by auto
  have cell: "cell S p d a (ptr q)" and even: "even (ptr r)" using R ptr_even f by (auto simp: rep_plug)
  define S' where "S' = put S p (mknode Black (ptr r) (ptr q))"
  have "update_node S p (\<lambda>x. x\<lparr>node_lc := ptr r\<rparr>) = Some S'"
    using cell by (simp add: update_node_def modify_def load_def cell_def S'_def put_def mknode_def)
  moreover have "rep (nodes S') S' (plug (LFrame Black p q # rest) r)"
    using R f even unfolding rep_plug S'_def by (auto simp: heap_simps)
  ultimately show ?thesis
    using f cell_facts(1) [OF cell] lefts
    by (auto simp: tree_nodes_def inorder_plug S'_def put_fields)
qed

lemma fini_step:
  assumes "tree_nodes S xs"
  shows "case xs of [] \<Rightarrow> rbtree_fini_step S = Some (NULL, S)
    | a # ys \<Rightarrow> \<exists>S'. rbtree_fini_step S = Some (a, S') \<and> a \<noteq> NULL \<and> a \<notin> set ys \<and> tree_nodes S' ys \<and>
        (\<forall>p. p \<notin> set ys \<longrightarrow> nodes S' p = nodes S p)"
proof -
  obtain T where T: "rep (nodes S) S T" "inorder T = xs" using assms by (auto simp: tree_nodes_def)
  then have root: "root S = ptr T" "holds S T" by (simp_all add: rep_def)
  show ?thesis
  proof (cases "T = Leaf")
    case True
    with T(2) root show ?thesis by (auto simp: rbtree_fini_step_def)
  next
    case False
    obtain ctx c a r where m: "min_path T [] = (ctx, Node c Leaf a r)" using min_path_Node [OF False] by blast
    have T': "T = plug ctx (Node c Leaf a r)" using plug_min_path [OF m] by simp
    have xs: "xs = a # inorder r @ rights ctx" using T(2) T' min_path_lefts [OF m] by (simp add: inorder_plug)
    have desc: "rbtree_fini_descend S NULL (root S) = Some (parent_ptr ctx, a)"
      using fini_descend [OF root(2) False m] root by simp
    have cell: "cell S a c NULL (ptr r)" using rep_cell T(1) T' by fastforce
    have nz: "root S \<noteq> NULL" using root False by (simp add: ptr_NULL)
    have "\<exists>S'. (if parent_ptr ctx = NULL then Some (S\<lparr>root := ptr r\<rparr>)
        else update_node S (parent_ptr ctx) (\<lambda>x. x\<lparr>node_lc := ptr r\<rparr>)) = Some S' \<and>
        tree_nodes S' (inorder r @ rights ctx) \<and> (\<forall>p. p \<notin> set (rights ctx) \<longrightarrow> nodes S' p = nodes S p)"
      using unlink_leftmost [OF T(1) [unfolded T']] min_path_hd [OF m] min_path_lefts [OF m] by auto
    then show ?thesis
      using xs desc cell nz T T' by (auto simp: rbtree_fini_step_def cell_read cell_facts rep_plug)
  qed
qed

lemma tree_nodes_free:
  assumes "tree_nodes S xs" "a \<notin> set xs"
  shows "tree_nodes (S\<lparr>nodes := (nodes S)(a := None)\<rparr>) xs"
proof -
  obtain T where T: "rep (nodes S) S T" "inorder T = xs" using assms(1) by (auto simp: tree_nodes_def)
  have "holds (S\<lparr>nodes := (nodes S)(a := None)\<rparr>) T = holds S T"
    using assms(2) T(2) by (intro holds_cong) auto
  with T show ?thesis by (auto simp: tree_nodes_def rep_def)
qed

lemma clean_nodes:
  "tree_nodes S xs \<Longrightarrow> \<exists>S'. clean_tree S = Some (xs, S') \<and> root S' = NULL \<and>
     (\<forall>p. nodes S' p = (if p \<in> set xs then None else nodes S p))"
proof (induction xs arbitrary: S)
  case Nil
  then have "root S = NULL" by (auto simp: tree_nodes_def rep_def) (metis inorder.elims list.distinct(1) Nil_is_append_conv ptr.simps(1))
  with fini_step [OF Nil] show ?case by (subst clean_tree.simps) simp
next
  case (Cons a ys)
  obtain S1 where 1: "rbtree_fini_step S = Some (a, S1)" "a \<noteq> NULL" "a \<notin> set ys" "tree_nodes S1 ys"
      "\<forall>p. p \<notin> set ys \<longrightarrow> nodes S1 p = nodes S p"
    using fini_step [OF Cons.prems] by auto
  obtain S' where "clean_tree (S1\<lparr>nodes := (nodes S1)(a := None)\<rparr>) = Some (ys, S')" "root S' = NULL"
      "\<forall>p. nodes S' p = (if p \<in> set ys then None else ((nodes S1)(a := None)) p)"
    using Cons.IH [OF tree_nodes_free [OF 1(4,3)]] by auto
  with 1 show ?case by (subst clean_tree.simps) auto
qed

text \<open>
  C14. Cleaning: repeating \<open>rbtree_fini_step\<close> and freeing every node it returns terminates, returns
  each node of the tree exactly once, never touches a node freed before, and leaves the tree
  empty. (The first step may break the colours; no later step depends on them.)
\<close>

theorem rbtree_cleaning:
  assumes "rbtree_holds cmp S xs"
  shows "\<exists>S'. clean_tree S = Some (xs, S') \<and> rbtree_is_empty S' \<and> distinct xs \<and>
    nodes S' = nodes S |` (- set xs)"
proof -
  have T: "tree_nodes S xs" "distinct xs" using assms by (auto simp: rbtree_holds_def tree_nodes_def rep_def)
  obtain S' where "clean_tree S = Some (xs, S')" "root S' = NULL"
      "\<forall>p. nodes S' p = (if p \<in> set xs then None else nodes S p)"
    using clean_nodes [OF T(1)] by blast
  with T(2) show ?thesis by (auto simp: rbtree_is_empty_def restrict_map_def)
qed

section \<open>The properties at the concrete tree\<close>

lemma example_cursor: "cursor_at example_tree [16] [] 16 [32]"
  using cursor_atI [of example_tree "[]" Black Leaf 16 "Node Red Leaf 32 Leaf"] example_rep example_rb
  by (simp add: example_shape_def path_of_def)

theorem rbtree_lookup_correct_witness:
  "rbtree_lookup example_tree 32 address_order = Some 32 \<and>
     rbtree_lookup example_tree 40 address_order = Some 0"
  using rbtree_lookup_correct [OF comparator_address_order example_holds, of 32]
    rbtree_lookup_correct [OF comparator_address_order example_holds, of 40]
  by (auto simp: address_order_def Cons_eq_append_conv)

theorem rbtree_cursor_steps_witness:
  "rbtree_current [16] = Some 16 \<and>
     (\<exists>cur. rbtree_next example_tree [16] = Some (32, cur)) \<and>
     rbtree_prev example_tree [16] = Some (0, [16])"
  using rbtree_cursor_steps [OF example_cursor] by auto

theorem rbtree_walk_complete_witness: "walk_over_tree example_tree = Some [16, 32]"
  using rbtree_walk_complete [OF example_holds] by simp

theorem rbtree_verify_correct_witness: "rbtree_verify example_tree = Some 0"
  using rbtree_verify_correct [OF example_rep] example_rb by simp

theorem rbtree_cleaning_witness:
  "\<exists>S'. clean_tree example_tree = Some ([16, 32], S') \<and> rbtree_is_empty S' \<and> nodes S' 16 = None \<and>
     nodes S' 48 \<noteq> None"
  using rbtree_cleaning [OF example_holds] by (auto simp: example_tree_def restrict_map_def)

end
