(* ===== verification/Value_Key.thy ===== *)
theory Value_Key
  imports Comparator
begin

text \<open>
  The default order of the keys of a dictionary, from \<open>data/value.c\<close>: bytes in lexicographic order,
  a proper prefix first.
\<close>

text \<open>
  \<open>memcmp\<close> compares unsigned bytes; only the sign of its result is specified, and only the sign is used.
\<close>

fun memcmp :: "byte list \<Rightarrow> byte list \<Rightarrow> nat \<Rightarrow> int option" where
  "memcmp xs ys 0 = Some 0"
| "memcmp (x # xs) (y # ys) (Suc n) =
     (if x < y then Some (- 1) else if y < x then Some 1 else memcmp xs ys n)"
| "memcmp xs ys (Suc n) = None"

definition value_dict_default_cmp :: "byte list \<Rightarrow> nat \<Rightarrow> byte list \<Rightarrow> nat \<Rightarrow> int option" where
  "value_dict_default_cmp key1 len1 key2 len2 = do {
     let min_len = (if len1 < len2 then len1 else len2);
     cmp \<leftarrow> memcmp key1 key2 min_len;
     Some (if cmp = 0 \<and> len1 \<noteq> len2 then (if len1 < len2 then - 1 else 1) else cmp)
   }"

text \<open>The comparison of two keys with their lengths: it never reads past either key.\<close>

definition key_cmp :: "byte list \<Rightarrow> byte list \<Rightarrow> int" where
  "key_cmp key1 key2 = the (value_dict_default_cmp key1 (length key1) key2 (length key2))"

fun lex_cmp :: "byte list \<Rightarrow> byte list \<Rightarrow> int" where
  "lex_cmp [] [] = 0"
| "lex_cmp [] (y # ys) = - 1"
| "lex_cmp (x # xs) [] = 1"
| "lex_cmp (x # xs) (y # ys) = (if x < y then - 1 else if y < x then 1 else lex_cmp xs ys)"

fun first_diff :: "byte list \<Rightarrow> byte list \<Rightarrow> int" where
  "first_diff (x # xs) (y # ys) = (if x < y then - 1 else if y < x then 1 else first_diff xs ys)"
| "first_diff _ _ = 0"

lemma memcmp_diff: "memcmp xs ys (min (length xs) (length ys)) = Some (first_diff xs ys)"
  by (induction xs ys rule: lex_cmp.induct) auto

lemma lex_cmp_diff: "lex_cmp xs ys = (if first_diff xs ys = 0 \<and> length xs \<noteq> length ys
    then (if length xs < length ys then - 1 else 1) else first_diff xs ys)"
  by (induction xs ys rule: lex_cmp.induct) auto

lemma default_cmp_lex: "value_dict_default_cmp xs (length xs) ys (length ys) = Some (lex_cmp xs ys)"
proof -
  have "(if length xs < length ys then length xs else length ys) = min (length xs) (length ys)" by simp
  then show ?thesis using memcmp_diff [of xs ys] by (simp add: value_dict_default_cmp_def Let_def lex_cmp_diff)
qed

lemma key_cmp_lex: "key_cmp xs ys = lex_cmp xs ys"
  by (simp add: key_cmp_def default_cmp_lex)

lemma lex_cmp_swap: "lex_cmp ys xs = - lex_cmp xs ys"
  by (induction xs ys rule: lex_cmp.induct) auto

lemma lex_cmp_eq: "lex_cmp xs ys = 0 \<longleftrightarrow> xs = ys"
  by (induction xs ys rule: lex_cmp.induct) auto

lemma lex_cmp_trans: "lex_cmp xs ys \<le> 0 \<Longrightarrow> lex_cmp ys zs \<le> 0 \<Longrightarrow> lex_cmp xs zs \<le> 0"
proof (induction xs ys arbitrary: zs rule: lex_cmp.induct)
  case (2 y ys)
  then show ?case by (cases zs) auto
next
  case (4 x xs y ys)
  then show ?case by (cases zs) (auto split: if_splits)
qed auto

interpretation keys: comparator key_cmp
proof
  show "key_cmp a b < 0 \<longleftrightarrow> 0 < key_cmp b a" for a b
    using lex_cmp_swap [of a b] by (simp add: key_cmp_lex)
qed (simp add: key_cmp_lex lex_cmp_trans)

lemma key_cmp_eq: "key_cmp xs ys = 0 \<longleftrightarrow> xs = ys"
  by (simp add: key_cmp_lex lex_cmp_eq)

text \<open>
  The default order of dictionary keys is total and lexicographic: comparing two keys never reads
  past their lengths, and its sign is that of the first difference, or of the lengths when one key
  is a prefix of the other.
\<close>

theorem value_dict_default_cmp_correct:
  "value_dict_default_cmp xs (length xs) ys (length ys) = Some (key_cmp xs ys) \<and>
   (key_cmp xs ys = 0 \<longleftrightarrow> xs = ys) \<and> key_cmp ys xs = - key_cmp xs ys \<and>
   key_cmp (zs @ x # xs) (zs @ y # ys) = (if x < y then - 1 else if y < x then 1 else key_cmp xs ys) \<and>
   key_cmp zs (zs @ y # ys) = - 1"
proof (intro conjI)
  show "value_dict_default_cmp xs (length xs) ys (length ys) = Some (key_cmp xs ys)"
    by (simp add: key_cmp_lex default_cmp_lex)
  show "key_cmp xs ys = 0 \<longleftrightarrow> xs = ys" "key_cmp ys xs = - key_cmp xs ys"
    by (simp_all add: key_cmp_eq) (simp add: key_cmp_lex lex_cmp_swap [of ys])
  show "key_cmp (zs @ x # xs) (zs @ y # ys) = (if x < y then - 1 else if y < x then 1 else key_cmp xs ys)"
    by (induction zs) (simp_all add: key_cmp_lex)
  show "key_cmp zs (zs @ y # ys) = - 1" by (induction zs) (simp_all add: key_cmp_lex)
qed

end
