(* ===== verification/Rbtree_Set.thy ===== *)
theory Rbtree_Set
  imports Container Rbtree_Walk Value_Key
begin

text \<open>
  The red-black tree provides the contract of the containers with unique keys, for every
  comparator. First, removal never loses a node of the memory: every step keeps the domain.
\<close>

section \<open>The memory keeps its nodes\<close>

definition keeps :: "('a \<Rightarrow> RBTREE) \<Rightarrow> addr set \<Rightarrow> 'a option \<Rightarrow> bool" where
  "keeps st D r \<longleftrightarrow> (\<forall>v. r = Some v \<longrightarrow> dom (nodes (st v)) = D)"

lemma keeps_None: "keeps st D None"
  by (simp add: keeps_def)

lemma keeps_Some: "dom (nodes (st v)) = D \<Longrightarrow> keeps st D (Some v)"
  by (simp add: keeps_def)

lemma keeps_if: "(b \<Longrightarrow> keeps st D m) \<Longrightarrow> (\<not> b \<Longrightarrow> keeps st D m') \<Longrightarrow> keeps st D (if b then m else m')"
  by simp

lemma keeps_case: "(\<And>a b. keeps st D (g a b)) \<Longrightarrow> keeps st D (case x of (a, b) \<Rightarrow> g a b)"
  by (cases x) simp

lemma keeps_state:
  "keeps (\<lambda>S. S) D m \<Longrightarrow> (\<And>S. dom (nodes S) = D \<Longrightarrow> keeps st D (f S)) \<Longrightarrow> keeps st D (m \<bind> f)"
  unfolding keeps_def bind_eq_Some_conv by metis

lemma keeps_pair:
  "keeps fst D m \<Longrightarrow> (\<And>S x. dom (nodes S) = D \<Longrightarrow> keeps st D (g S x)) \<Longrightarrow>
   keeps st D (m \<bind> (\<lambda>(S, x). g S x))"
  by (fastforce simp: keeps_def bind_eq_Some_conv)

lemma keeps_read: "(\<And>x. keeps st D (f x)) \<Longrightarrow> keeps st D (m \<bind> f)"
  by (auto simp: keeps_def bind_eq_Some_conv)

lemma keeps_update: "dom (nodes S) = D \<Longrightarrow> keeps (\<lambda>S. S) D (update_node S p f)"
  by (auto simp: keeps_def update_node_def modify_def load_def bind_eq_Some_conv split: option.splits if_splits)

lemma keeps_set:
  assumes "dom (nodes S) = D"
  shows "keeps (\<lambda>S. S) D (SET_LEFT S p q)" "keeps (\<lambda>S. S) D (SET_RIGHT S p q)" "keeps (\<lambda>S. S) D (MAKE_RED S p)"
    "keeps (\<lambda>S. S) D (MAKE_BLACK S p)" "keeps (\<lambda>S. S) D (TOGGLE_COLOR S p)"
  using keeps_update [OF assms]
  by (simp_all add: SET_LEFT_def SET_RIGHT_def MAKE_RED_def MAKE_BLACK_def TOGGLE_COLOR_def)

lemmas keeps_rules = keeps_None keeps_Some keeps_if keeps_set keeps_state keeps_pair keeps_case keeps_read

lemma keeps_rotate:
  assumes "dom (nodes S) = D"
  shows "keeps (\<lambda>S. S) D (rbtree_rotate_left S p q)" "keeps (\<lambda>S. S) D (rbtree_rotate_right S p q)"
  unfolding rbtree_rotate_left_def rbtree_rotate_right_def
  by (insert assms, (assumption | rule keeps_rules | simp; fail)+)

lemma keeps_finish: "dom (nodes S) = D \<Longrightarrow> keeps (\<lambda>S. S) D (remove_fixup_finish S a b c d)"
  unfolding remove_fixup_finish_def
  by (assumption | rule keeps_rotate keeps_rules | simp; fail)+

lemma keeps_fixup_rotate: "dom (nodes S) = D \<Longrightarrow> keeps (\<lambda>S. S) D (remove_fixup_rotate S a b c d)"
  unfolding remove_fixup_rotate_def
  by (assumption | rule keeps_finish keeps_rotate keeps_rules | simp; fail)+

lemma keeps_fixup: "dom (nodes S) = D \<Longrightarrow> keeps (\<lambda>S. S) D (rbtree_remove_fixup S path)"
proof -
  have "rbtree_remove_fixup S path = Some R \<Longrightarrow> dom (nodes R) = dom (nodes S)" for R
  proof (induction rule: rbtree_remove_fixup.raw_induct [rotated 1, consumes 1, case_names step])
    case (step f S path R)
    have rec: "keeps (\<lambda>S. S) D (f S path)" if "dom (nodes S) = D" for D S path
      using step.IH that by (auto simp: keeps_def)
    have "keeps (\<lambda>S. S) (dom (nodes S)) (Some R)"
      unfolding step.hyps [symmetric] using refl
      by - (assumption | rule rec keeps_fixup_rotate keeps_rotate keeps_rules | simp; fail)+
    then show ?case by (simp add: keeps_def)
  qed
  then show "dom (nodes S) = D \<Longrightarrow> keeps (\<lambda>S. S) D (rbtree_remove_fixup S path)" by (simp add: keeps_def)
qed

lemma keeps_successor: "dom (nodes S) = D \<Longrightarrow> keeps fst D (remove_find_successor S a n path)"
  unfolding remove_find_successor_def
  by (assumption | rule keeps_rules | simp; fail)+

lemma keeps_swap: "dom (nodes S) = D \<Longrightarrow> keeps (\<lambda>S. S) D (remove_swap_common S a n path b)"
  unfolding remove_swap_common_def
  by (assumption | rule keeps_rules | simp; fail)+

lemma keeps_unlink: "dom (nodes S) = D \<Longrightarrow> keeps fst D (remove_unlink S a path)"
  unfolding remove_unlink_def
  by (assumption | rule keeps_rules | simp; fail)+

lemma keeps_remove: "dom (nodes S) = D \<Longrightarrow> keeps snd D (rbtree_remove S key cmp)"
  unfolding rbtree_remove_def Let_def
  by (assumption | rule keeps_fixup keeps_successor keeps_swap keeps_unlink keeps_rules | simp; fail)+


section \<open>The tree as a container of nodes with unique keys\<close>

text \<open>The caller's comparator: the default order of the keys that the nodes carry.\<close>

definition node_cmp :: "(addr \<Rightarrow> byte list) \<Rightarrow> addr \<Rightarrow> addr \<Rightarrow> int" where
  "node_cmp key x y = key_cmp (key x) (key y)"

lemma node_comparator: "comparator (node_cmp key)"
  unfolding node_cmp_def by (rule keys.comparator_key)

lemma node_cmp_zero: "node_cmp key x y = 0 \<longleftrightarrow> key x = key y"
  by (simp add: node_cmp_def key_cmp_eq)

definition tree_inv :: "(addr \<Rightarrow> byte list) \<Rightarrow> RBTREE \<Rightarrow> addr set \<Rightarrow> bool" where
  "tree_inv key S X \<longleftrightarrow> (\<exists>xs. rbtree_holds (node_cmp key) S xs \<and> set xs = X)"

definition tree_node :: "RBTREE \<Rightarrow> addr \<Rightarrow> bool" where
  "tree_node S x \<longleftrightarrow> x \<noteq> NULL \<and> even x \<and> x \<in> dom (nodes S)"

lemma holds_node: "holds S T \<Longrightarrow> x \<in> set (inorder T) \<Longrightarrow> tree_node S x"
  by (induction T) (auto simp: tree_node_def cell_def)

lemma rbtree_holds_node: "rbtree_holds cmp S xs \<Longrightarrow> x \<in> set xs \<Longrightarrow> tree_node S x"
  by (auto simp: rbtree_holds_def rep_def intro: holds_node)

lemma rbtree_holds_unique:
  assumes "rbtree_holds (node_cmp key) S xs" "x \<in> set xs" "y \<in> set xs" "key x = key y"
  shows "x = y"
proof -
  have "sorted_wrt (\<lambda>a b. node_cmp key a b < 0) xs" using assms(1) by (auto simp: rbtree_holds_def ordered_def)
  then show ?thesis using assms(2-4)
  proof (induction xs)
    case (Cons a xs)
    have "node_cmp key x y = 0" "node_cmp key y x = 0" using Cons.prems(4) by (simp_all add: node_cmp_zero)
    then show ?case using Cons.IH Cons.prems by auto
  qed simp
qed

lemma rbtree_holds_distinct: "rbtree_holds cmp S xs \<Longrightarrow> distinct xs"
  by (auto simp: rbtree_holds_def rep_def)

interpretation tree_set: intrusive_set "\<lambda>k x. node_cmp key k x = 0" "tree_inv key" tree_node "2 ^ 64"
  "\<lambda>S x. rbtree_insert S x (node_cmp key)" "\<lambda>S k. rbtree_remove S k (node_cmp key)"
  "\<lambda>S k. rbtree_lookup S k (node_cmp key)" for key
proof (unfold_locales, goal_cases)
  case (1 S X)
  then show ?case by (auto simp: tree_inv_def tree_node_def dest: rbtree_holds_node)
next
  case (2 S X x y k)
  then show ?case by (auto simp: tree_inv_def node_cmp_zero intro: rbtree_holds_unique)
next
  case (3 S X x)
  then obtain xs n where xs: "rbtree_holds (node_cmp key) S xs" "set xs = X" and n: "x \<noteq> NULL" "even x"
    "x \<notin> set xs" "nodes S x = Some n" by (auto simp: tree_inv_def tree_node_def)
  note ins = rbtree_insert_effect [OF node_comparator xs(1) n]
  show ?case
  proof (cases "\<exists>a \<in> X. node_cmp key x a = 0")
    case True
    then show ?thesis using ins xs(2) by simp
  next
    case False
    let ?ys = "[a \<leftarrow> xs. 0 < node_cmp key x a] @ [x] @ [a \<leftarrow> xs. node_cmp key x a < 0]"
    obtain S' where S': "rbtree_insert S x (node_cmp key) = Some (0, S')" "rbtree_holds (node_cmp key) S' ?ys"
      "\<forall>p. p \<notin> insert x (set xs) \<longrightarrow> nodes S' p = nodes S p"
      using ins False xs(2) by auto
    have ys: "set ?ys = insert x X" using False xs(2) by (auto simp: neq_iff)
    have "tree_node S' y" if "tree_node S y" for y
    proof (cases "y \<in> insert x X")
      case True
      then show ?thesis using rbtree_holds_node [OF S'(2)] ys by blast
    next
      case False
      then show ?thesis using that S'(3) xs(2) by (simp add: tree_node_def domIff)
    qed
    then show ?thesis using S'(1,2) ys False unfolding tree_inv_def by auto
  qed
next
  case (4 S X k)
  then obtain xs where xs: "rbtree_holds (node_cmp key) S xs" "set xs = X" by (auto simp: tree_inv_def)
  have node: "tree_node S' y" if "rbtree_remove S k (node_cmp key) = Some (x, S')" "tree_node S y" for x S' y
    using keeps_remove [OF refl, of S k "node_cmp key"] that by (simp add: keeps_def tree_node_def)
  have "set (remove1 x xs) = X - {x}" for x using rbtree_holds_distinct [OF xs(1)] xs(2) by simp
  then show ?case using rbtree_remove_effect [OF node_comparator xs(1), of k] xs(2) node
    unfolding tree_inv_def by (fastforce split: if_splits)
next
  case (5 S X k)
  then obtain xs where xs: "rbtree_holds (node_cmp key) S xs" "set xs = X" by (auto simp: tree_inv_def)
  then show ?case using rbtree_lookup_effect [OF node_comparator xs(1), of k] by (auto split: if_splits)
qed

end
