(* ===== verification/Htable.thy ===== *)
theory Htable
  imports CRE_Prelude
begin

text \<open>
  \<open>data/htable.c\<close>: the intrusive hash table. Nodes are named by their addresses and linked through the
  \<open>next\<close> member; the table is a growing array of planes, the \<open>i\<close>-th with \<open>59 << i\<close> slots, each slot
  the head of a chain. Comparator and hash function are those of the caller; they read the caller's
  data around the nodes, so they are functions of the addresses.
\<close>

section \<open>Data\<close>

record HTABLE_NODE =
  ht_next :: addr

type_synonym htable_mem = "addr \<rightharpoonup> HTABLE_NODE"

text \<open>
  The planes array is the list of the planes it holds (the entry that a failed \<open>malloc\<close> leaves
  uninitialised at its end is not one of them, and never read); \<open>NULL\<close> is the empty list.
\<close>

record HTABLE =
  ht_planes :: "addr list list"
  ht_n_planes :: nat
  ht_n :: size_t

type_synonym HTABLE_CMP_FUNC = "addr \<Rightarrow> addr \<Rightarrow> int"
type_synonym HTABLE_HASH_FUNC = "addr \<Rightarrow> uint32"

text \<open>What a \<open>HTABLE_NODE**\<close> of the code points to: a slot of a plane, or the link of a node.\<close>

datatype htable_ref = Slot nat nat | Link addr

section \<open>Sizes, in the \<open>int\<close> arithmetic of the macros\<close>

definition HTABLE_PLANE_SIZE :: "nat \<Rightarrow> nat option" where
  "HTABLE_PLANE_SIZE plane_index = (if 59 * 2 ^ plane_index \<le> INT_MAX then Some (59 * 2 ^ plane_index) else None)"

definition HTABLE_SLOT_COUNT :: "HTABLE \<Rightarrow> nat option" where
  "HTABLE_SLOT_COUNT htable = do {
     plane_size \<leftarrow> HTABLE_PLANE_SIZE 0;
     if 2 ^ ht_n_planes htable \<le> INT_MAX \<and> plane_size * (2 ^ ht_n_planes htable - 1) \<le> INT_MAX
     then Some (plane_size * (2 ^ ht_n_planes htable - 1)) else None
   }"

definition HTABLE_TOO_FULL :: "HTABLE \<Rightarrow> bool option" where
  "HTABLE_TOO_FULL htable = do { slots \<leftarrow> HTABLE_SLOT_COUNT htable; Some (unat (ht_n htable) \<ge> slots) }"

definition HTABLE_TOO_EMPTY :: "HTABLE \<Rightarrow> bool option" where
  "HTABLE_TOO_EMPTY htable = do { slots \<leftarrow> HTABLE_SLOT_COUNT htable; Some (unat (ht_n htable) < slots div 4) }"

section \<open>Slots\<close>

definition get_slot :: "HTABLE \<Rightarrow> nat \<Rightarrow> nat \<Rightarrow> addr option" where
  "get_slot htable i index = do { plane \<leftarrow> peek (ht_planes htable) i; peek plane index }"

definition set_slot :: "HTABLE \<Rightarrow> nat \<Rightarrow> nat \<Rightarrow> addr \<Rightarrow> HTABLE option" where
  "set_slot htable i index node = do {
     plane \<leftarrow> peek (ht_planes htable) i;
     plane \<leftarrow> poke plane index node;
     Some (htable\<lparr>ht_planes := (ht_planes htable)[i := plane]\<rparr>)
   }"

definition set_ref :: "htable_mem \<Rightarrow> HTABLE \<Rightarrow> htable_ref \<Rightarrow> addr \<Rightarrow> (htable_mem \<times> HTABLE) option" where
  "set_ref mem htable ref node = (case ref of
       Slot i index \<Rightarrow> do { htable \<leftarrow> set_slot htable i index node; Some (mem, htable) }
     | Link p \<Rightarrow> do { mem \<leftarrow> modify mem p (ht_next_update (\<lambda>_. node)); Some (mem, htable) })"

section \<open>Operations\<close>

definition htable_init :: HTABLE where
  "htable_init = \<lparr>ht_planes = [], ht_n_planes = 0, ht_n = 0\<rparr>"

definition htable_is_empty :: "HTABLE \<Rightarrow> bool" where
  "htable_is_empty htable = (ht_n htable = 0)"

text \<open>Whether the \<open>realloc\<close> and the \<open>malloc\<close> succeed is given by the caller of the model.\<close>

definition htable_grow :: "bool \<Rightarrow> bool \<Rightarrow> HTABLE \<Rightarrow> (int \<times> HTABLE) option" where
  "htable_grow realloc_ok malloc_ok htable =
     (if \<not> realloc_ok then Some (if ht_n_planes htable > 0 then 0 else - 1, htable)
      else do {
        plane_size \<leftarrow> HTABLE_PLANE_SIZE (ht_n_planes htable);
        if \<not> malloc_ok then Some (- 1, htable)
        else Some (0, htable\<lparr>ht_planes := take (ht_n_planes htable) (ht_planes htable) @ [replicate plane_size NULL],
                             ht_n_planes := ht_n_planes htable + 1\<rparr>)
      })"

definition htable_free_all_planes :: "HTABLE \<Rightarrow> HTABLE" where
  "htable_free_all_planes htable = htable\<lparr>ht_planes := [], ht_n_planes := 0\<rparr>"

partial_function (option) htable_tail :: "htable_mem \<Rightarrow> addr \<Rightarrow> addr option" where
  "htable_tail mem tail = do {
     node \<leftarrow> load mem tail;
     if ht_next node \<noteq> NULL then htable_tail mem (ht_next node) else Some tail
   }"

text \<open>The body of the merging loop, and the loop: plane \<open>p + 1\<close> into plane \<open>p\<close>.\<close>

definition htable_merge_slot ::
    "nat \<Rightarrow> nat \<Rightarrow> nat \<Rightarrow> htable_mem \<Rightarrow> HTABLE \<Rightarrow> (htable_mem \<times> HTABLE) option" where
  "htable_merge_slot p prev_plane_size i mem htable = do {
     node \<leftarrow> get_slot htable (p + 1) i;
     if node \<noteq> NULL then do {
       prev \<leftarrow> get_slot htable p (i mod prev_plane_size);
       mem \<leftarrow> (if prev \<noteq> NULL then do {
                tail \<leftarrow> htable_tail mem node;
                modify mem tail (ht_next_update (\<lambda>_. prev))
              }
              else Some mem);
       htable \<leftarrow> set_slot htable p (i mod prev_plane_size) node;
       Some (mem, htable)
     }
     else Some (mem, htable)
   }"

function htable_merge ::
    "nat \<Rightarrow> nat \<Rightarrow> nat \<Rightarrow> nat \<Rightarrow> htable_mem \<Rightarrow> HTABLE \<Rightarrow> (htable_mem \<times> HTABLE) option" where
  "htable_merge p plane_size prev_plane_size i mem htable =
     (if i < plane_size then do {
        (mem, htable) \<leftarrow> htable_merge_slot p prev_plane_size i mem htable;
        htable_merge p plane_size prev_plane_size (i + 1) mem htable
      }
      else Some (mem, htable))"
  by pat_completeness auto
termination
  by (relation "measure (\<lambda>(_, plane_size, _, i, _). plane_size - i)") auto

declare htable_merge.simps [simp del]

definition htable_shrink :: "htable_mem \<Rightarrow> HTABLE \<Rightarrow> (htable_mem \<times> HTABLE) option" where
  "htable_shrink mem htable =
     (if ht_n htable = 0 then Some (mem, htable_free_all_planes htable)
      else if ht_n_planes htable \<le> 1 then Some (mem, htable)
      else do {
        prev_plane_size \<leftarrow> HTABLE_PLANE_SIZE (ht_n_planes htable - 2);
        plane_size \<leftarrow> HTABLE_PLANE_SIZE (ht_n_planes htable - 1);
        (mem, htable) \<leftarrow> htable_merge (ht_n_planes htable - 2) plane_size prev_plane_size 0 mem htable;
        Some (mem, htable\<lparr>ht_planes := butlast (ht_planes htable), ht_n_planes := ht_n_planes htable - 1\<rparr>)
      })"

partial_function (option) htable_lookup_chain ::
    "htable_mem \<Rightarrow> addr \<Rightarrow> HTABLE_CMP_FUNC \<Rightarrow> htable_ref \<Rightarrow> addr \<Rightarrow> (htable_ref \<times> addr) option option" where
  "htable_lookup_chain mem key cmp_func ref node =
     (if node = NULL then Some None
      else do {
        nd \<leftarrow> load mem node;
        if cmp_func key node = 0 then Some (Some (ref, node))
        else htable_lookup_chain mem key cmp_func (Link node) (ht_next nd)
      })"

text \<open>The loop over the planes, from the last to the first; \<open>i\<close> of them are left.\<close>

primrec htable_lookup_planes ::
    "htable_mem \<Rightarrow> HTABLE \<Rightarrow> uint32 \<Rightarrow> addr \<Rightarrow> HTABLE_CMP_FUNC \<Rightarrow> nat \<Rightarrow> (htable_ref \<times> addr) option option" where
  "htable_lookup_planes mem htable hash key cmp_func 0 = Some None"
| "htable_lookup_planes mem htable hash key cmp_func (Suc i) = do {
     plane_size \<leftarrow> HTABLE_PLANE_SIZE i;
     node \<leftarrow> get_slot htable i (unat hash mod plane_size);
     found \<leftarrow> htable_lookup_chain mem key cmp_func (Slot i (unat hash mod plane_size)) node;
     (case found of Some x \<Rightarrow> Some (Some x)
      | None \<Rightarrow> htable_lookup_planes mem htable hash key cmp_func i)
   }"

definition htable_lookup_internal ::
    "htable_mem \<Rightarrow> HTABLE \<Rightarrow> uint32 \<Rightarrow> addr \<Rightarrow> HTABLE_CMP_FUNC \<Rightarrow> (htable_ref \<times> addr) option option" where
  "htable_lookup_internal mem htable hash key cmp_func =
     htable_lookup_planes mem htable hash key cmp_func (ht_n_planes htable)"

text \<open>\<open>htable_fini\<close>: every node is unlinked, then handed to the destructor, which frees it.\<close>

partial_function (option) htable_fini_slot ::
    "nat \<Rightarrow> nat \<Rightarrow> addr list \<Rightarrow> htable_mem \<Rightarrow> HTABLE \<Rightarrow> (addr list \<times> htable_mem \<times> HTABLE) option" where
  "htable_fini_slot i index dead mem htable = do {
     node \<leftarrow> get_slot htable i index;
     if node \<noteq> NULL then do {
       nd \<leftarrow> load mem node;
       htable \<leftarrow> set_slot htable i index (ht_next nd);
       htable_fini_slot i index (dead @ [node]) (mem(node := None)) htable
     }
     else Some (dead, mem, htable)
   }"

function htable_fini_plane ::
    "nat \<Rightarrow> nat \<Rightarrow> nat \<Rightarrow> addr list \<Rightarrow> htable_mem \<Rightarrow> HTABLE \<Rightarrow> (addr list \<times> htable_mem \<times> HTABLE) option" where
  "htable_fini_plane i plane_size index dead mem htable =
     (if index < plane_size then do {
        (dead, mem, htable) \<leftarrow> htable_fini_slot i index dead mem htable;
        htable_fini_plane i plane_size (index + 1) dead mem htable
      }
      else Some (dead, mem, htable))"
  by pat_completeness auto
termination
  by (relation "measure (\<lambda>(_, plane_size, index, _). plane_size - index)") auto

function htable_fini_planes ::
    "nat \<Rightarrow> nat \<Rightarrow> addr list \<Rightarrow> htable_mem \<Rightarrow> HTABLE \<Rightarrow> (addr list \<times> htable_mem \<times> HTABLE) option" where
  "htable_fini_planes n_planes i dead mem htable =
     (if i < n_planes then do {
        plane_size \<leftarrow> HTABLE_PLANE_SIZE i;
        (dead, mem, htable) \<leftarrow> htable_fini_plane i plane_size 0 dead mem htable;
        htable_fini_planes n_planes (i + 1) dead mem htable
      }
      else Some (dead, mem, htable))"
  by pat_completeness auto
termination
  by (relation "measure (\<lambda>(n_planes, i, _). n_planes - i)") auto

declare htable_fini_plane.simps [simp del] htable_fini_planes.simps [simp del]

text \<open>The result lists the nodes given to the destructor, in the order of the calls.\<close>

definition htable_fini :: "bool \<Rightarrow> htable_mem \<Rightarrow> HTABLE \<Rightarrow> (addr list \<times> htable_mem \<times> HTABLE) option" where
  "htable_fini with_dtor mem htable = do {
     (dead, mem, htable) \<leftarrow> (if with_dtor \<and> ht_n htable > 0
        then htable_fini_planes (ht_n_planes htable) 0 [] mem htable else Some ([], mem, htable));
     Some (dead, mem, htable_free_all_planes (htable\<lparr>ht_n := 0\<rparr>))
   }"

definition htable_insert_internal ::
    "bool \<Rightarrow> bool \<Rightarrow> htable_mem \<Rightarrow> HTABLE \<Rightarrow> addr \<Rightarrow> HTABLE_CMP_FUNC \<Rightarrow> HTABLE_HASH_FUNC \<Rightarrow> bool
      \<Rightarrow> (int \<times> htable_mem \<times> HTABLE) option" where
  "htable_insert_internal realloc_ok malloc_ok mem htable node cmp_func hash_func skip_lookup = do {
     let hash = hash_func node;
     dup \<leftarrow> (if skip_lookup then Some None else htable_lookup_internal mem htable hash node cmp_func);
     if dup \<noteq> None then Some (- 1, mem, htable)
     else do {
       full \<leftarrow> HTABLE_TOO_FULL htable;
       (res, htable) \<leftarrow> (if full then htable_grow realloc_ok malloc_ok htable else Some (0, htable));
       if res \<noteq> 0 then Some (- 1, mem, htable)
       else if ht_n_planes htable = 0 then None
       else do {
         let plane = ht_n_planes htable - 1;
         plane_size \<leftarrow> HTABLE_PLANE_SIZE plane;
         first \<leftarrow> get_slot htable plane (unat hash mod plane_size);
         mem \<leftarrow> modify mem node (ht_next_update (\<lambda>_. first));
         htable \<leftarrow> set_slot htable plane (unat hash mod plane_size) node;
         Some (0, mem, htable\<lparr>ht_n := ht_n htable + 1\<rparr>)
       }
     }
   }"

definition htable_insert ::
    "bool \<Rightarrow> bool \<Rightarrow> htable_mem \<Rightarrow> HTABLE \<Rightarrow> addr \<Rightarrow> HTABLE_CMP_FUNC \<Rightarrow> HTABLE_HASH_FUNC
      \<Rightarrow> (int \<times> htable_mem \<times> HTABLE) option" where
  "htable_insert realloc_ok malloc_ok mem htable node cmp_func hash_func =
     htable_insert_internal realloc_ok malloc_ok mem htable node cmp_func hash_func False"

definition htable_insert_unsafe ::
    "bool \<Rightarrow> bool \<Rightarrow> htable_mem \<Rightarrow> HTABLE \<Rightarrow> addr \<Rightarrow> HTABLE_CMP_FUNC \<Rightarrow> HTABLE_HASH_FUNC
      \<Rightarrow> (int \<times> htable_mem \<times> HTABLE) option" where
  "htable_insert_unsafe realloc_ok malloc_ok mem htable node cmp_func hash_func =
     htable_insert_internal realloc_ok malloc_ok mem htable node cmp_func hash_func True"

definition htable_remove ::
    "htable_mem \<Rightarrow> HTABLE \<Rightarrow> addr \<Rightarrow> HTABLE_CMP_FUNC \<Rightarrow> HTABLE_HASH_FUNC
      \<Rightarrow> (addr \<times> htable_mem \<times> HTABLE) option" where
  "htable_remove mem htable key cmp_func hash_func = do {
     found \<leftarrow> htable_lookup_internal mem htable (hash_func key) key cmp_func;
     (case found of
        None \<Rightarrow> Some (NULL, mem, htable)
      | Some (p_ref, node) \<Rightarrow> do {
          nd \<leftarrow> load mem node;
          (mem, htable) \<leftarrow> set_ref mem htable p_ref (ht_next nd);
          let htable = htable\<lparr>ht_n := ht_n htable - 1\<rparr>;
          empty \<leftarrow> HTABLE_TOO_EMPTY htable;
          (mem, htable) \<leftarrow> (if empty then htable_shrink mem htable else Some (mem, htable));
          Some (node, mem, htable)
        })
   }"

definition htable_lookup ::
    "htable_mem \<Rightarrow> HTABLE \<Rightarrow> addr \<Rightarrow> HTABLE_CMP_FUNC \<Rightarrow> HTABLE_HASH_FUNC \<Rightarrow> addr option" where
  "htable_lookup mem htable key cmp_func hash_func = do {
     found \<leftarrow> htable_lookup_internal mem htable (hash_func key) key cmp_func;
     Some (case found of None \<Rightarrow> NULL | Some (_, node) \<Rightarrow> node)
   }"

end
