(* ===== verification/Htable_Inv.thy ===== *)
theory Htable_Inv
  imports Htable
begin

text \<open>
  The invariant of the hash table: every slot of every plane heads a chain of nodes that belong there,
  with the one lemma that all operations use to change the chain of a slot.
\<close>

section \<open>Chains\<close>

fun path :: "htable_mem \<Rightarrow> addr \<Rightarrow> addr list \<Rightarrow> bool" where
  "path h a [] = (a = NULL)"
| "path h a (x # xs) = (a = x \<and> x \<noteq> NULL \<and> (\<exists>nd. h x = Some nd \<and> path h (ht_next nd) xs))"

lemma path_cong: "(\<And>x. x \<in> set xs \<Longrightarrow> g x = h x) \<Longrightarrow> path g a xs = path h a xs"
  by (induction xs arbitrary: a) auto

lemma path_upd [simp]: "x \<notin> set xs \<Longrightarrow> path (h(x := v)) a xs = path h a xs"
  by (rule path_cong) auto

lemma path_NULL: "path h a xs \<Longrightarrow> a = NULL \<longleftrightarrow> xs = []"
  by (cases xs) auto

lemma path_node: "path h a xs \<Longrightarrow> x \<in> set xs \<Longrightarrow> \<exists>nd. load h x = Some nd"
  by (induction xs arbitrary: a) (auto simp: load_def)

lemma path_split: "path h a (ys @ x # zs) \<Longrightarrow> \<exists>nd. h x = Some nd \<and> x \<noteq> NULL \<and> path h (ht_next nd) zs"
  by (induction ys arbitrary: a) auto

lemma path_tail: "path h a xs \<Longrightarrow> xs \<noteq> [] \<Longrightarrow> htable_tail h a = Some (last xs)"
proof (induction xs arbitrary: a)
  case (Cons x xs)
  then obtain nd where "h x = Some nd" "path h (ht_next nd) xs" "a = x" "x \<noteq> NULL" by auto
  with Cons.IH [of "ht_next nd"] path_NULL [of h "ht_next nd" xs] show ?case
    by (subst htable_tail.simps) (auto simp: load_def)
qed simp

lemma path_join:
  "path h a xs \<Longrightarrow> path h b ys \<Longrightarrow> xs \<noteq> [] \<Longrightarrow> distinct (xs @ ys) \<Longrightarrow> h (last xs) = Some nd \<Longrightarrow>
     path (h(last xs \<mapsto> nd\<lparr>ht_next := b\<rparr>)) a (xs @ ys)"
proof (induction xs arbitrary: a)
  case (Cons x xs)
  show ?case
  proof (cases xs)
    case Nil
    then show ?thesis using Cons.prems by (auto simp del: fun_upd_apply) (simp_all add: fun_upd_same)
  next
    case (Cons y zs)
    then have "last xs \<noteq> x" using Cons.prems(4) by auto
    then show ?thesis using Cons.IH Cons.prems Cons by auto
  qed
qed simp

lemma path_unlink:
  assumes "path h a (ys @ x # zs)" "distinct (ys @ x # zs)" "ys \<noteq> []" "h (last ys) = Some nd" "h x = Some m"
  shows "path (h(last ys \<mapsto> nd\<lparr>ht_next := ht_next m\<rparr>)) a (ys @ zs)"
  using assms
proof (induction ys arbitrary: a)
  case (Cons y ys)
  show ?case
  proof (cases ys)
    case Nil
    have "path h (ht_next m) zs" using Cons.prems(1,5) path_split [of h a "y # ys" x zs] by auto
    then show ?thesis using Cons.prems Nil by (auto simp del: fun_upd_apply) (simp_all add: fun_upd_same)
  next
    case (Cons y' ys')
    then have "last ys \<noteq> y" using Cons.prems(2) by auto
    then show ?thesis using Cons.IH Cons.prems Cons by auto
  qed
qed simp

text \<open>What the search in a chain finds.\<close>

fun find_ref :: "(addr \<Rightarrow> bool) \<Rightarrow> htable_ref \<Rightarrow> addr list \<Rightarrow> (htable_ref \<times> addr) option" where
  "find_ref P ref [] = None"
| "find_ref P ref (x # xs) = (if P x then Some (ref, x) else find_ref P (Link x) xs)"

lemma lookup_chain: "path h a xs \<Longrightarrow>
    htable_lookup_chain h key cmp ref a = Some (find_ref (\<lambda>x. cmp key x = 0) ref xs)"
proof (induction xs arbitrary: a ref)
  case Nil
  then show ?case by (subst htable_lookup_chain.simps) simp
next
  case (Cons x xs)
  then show ?case by (subst htable_lookup_chain.simps) (auto simp: load_def)
qed

lemma find_ref_None: "find_ref P ref xs = None \<longleftrightarrow> (\<forall>x \<in> set xs. \<not> P x)"
  by (induction xs arbitrary: ref) auto

lemma find_ref_Some: "find_ref P ref xs = Some (r, x) \<Longrightarrow>
    \<exists>ys zs. xs = ys @ x # zs \<and> P x \<and> r = (if ys = [] then ref else Link (last ys))"
proof (induction xs arbitrary: ref)
  case (Cons y xs)
  show ?case
  proof (cases "P y")
    case True
    then show ?thesis using Cons.prems by (intro exI [of _ "[]"] exI [of _ xs]) auto
  next
    case False
    then obtain ys zs where "xs = ys @ x # zs" "P x" "r = (if ys = [] then Link y else Link (last ys))"
      using Cons.IH [of "Link y"] Cons.prems by auto
    then show ?thesis by (intro exI [of _ "y # ys"] exI [of _ zs]) auto
  qed
qed simp

section \<open>The invariant of the table\<close>

definition psize :: "nat \<Rightarrow> nat" where
  "psize i = 59 * 2 ^ i"

lemma psize_pos [simp]: "0 < psize i"
  by (simp add: psize_def)

lemma plane_size_ok:
  assumes "i \<le> 25"
  shows "HTABLE_PLANE_SIZE i = Some (psize i)"
proof -
  have "(2 :: nat) ^ i \<le> 2 ^ 25" using assms by (intro power_increasing) simp_all
  then show ?thesis by (simp add: HTABLE_PLANE_SIZE_def psize_def INT_MAX_def)
qed

lemma slot_count_ok:
  assumes "ht_n_planes t \<le> 25"
  shows "HTABLE_SLOT_COUNT t = Some (59 * (2 ^ ht_n_planes t - 1))"
proof -
  have "(2 :: nat) ^ ht_n_planes t \<le> 2 ^ 25" using assms by (intro power_increasing) simp_all
  then show ?thesis using plane_size_ok [of 0] by (simp add: HTABLE_SLOT_COUNT_def psize_def INT_MAX_def)
qed

text \<open>
  The slots that count (all of them outside \<open>htable_shrink\<close>), and the chain \<open>C i j\<close> of each: a node is
  in the slot that its hash tells, and in no other plane.
\<close>

definition table_ok ::
    "HTABLE_HASH_FUNC \<Rightarrow> htable_mem \<Rightarrow> HTABLE \<Rightarrow> (nat \<Rightarrow> nat \<Rightarrow> addr list) \<Rightarrow> (nat \<Rightarrow> nat \<Rightarrow> bool) \<Rightarrow> bool" where
  "table_ok hash h t C live \<longleftrightarrow>
     length (ht_planes t) = ht_n_planes t \<and> ht_n_planes t \<le> 25 \<and>
     (\<forall>i < ht_n_planes t. length (ht_planes t ! i) = psize i) \<and>
     (\<forall>i j. live i j \<longrightarrow> i < ht_n_planes t \<and> j < psize i \<and>
        path h (ht_planes t ! i ! j) (C i j) \<and> distinct (C i j) \<and>
        (\<forall>x \<in> set (C i j). unat (hash x) mod psize i = j \<and> (\<forall>i' j'. live i' j' \<longrightarrow> x \<in> set (C i' j') \<longrightarrow> i' = i)))"

definition all_slots :: "HTABLE \<Rightarrow> nat \<Rightarrow> nat \<Rightarrow> bool" where
  "all_slots t i j \<longleftrightarrow> i < ht_n_planes t \<and> j < psize i"

definition nodes_of :: "(nat \<Rightarrow> nat \<Rightarrow> addr list) \<Rightarrow> (nat \<Rightarrow> nat \<Rightarrow> bool) \<Rightarrow> addr set" where
  "nodes_of C live = {x. \<exists>i j. live i j \<and> x \<in> set (C i j)}"

definition put_slot :: "HTABLE \<Rightarrow> nat \<Rightarrow> nat \<Rightarrow> addr \<Rightarrow> HTABLE" where
  "put_slot t i j a = t\<lparr>ht_planes := (ht_planes t)[i := (ht_planes t ! i)[j := a]]\<rparr>"

lemma put_slot_simps [simp]:
  "ht_n_planes (put_slot t i j a) = ht_n_planes t" "ht_n (put_slot t i j a) = ht_n t"
  "all_slots (put_slot t i j a) = all_slots t"
  by (simp_all add: put_slot_def all_slots_def fun_eq_iff)

lemma put_slot_same: "put_slot t i j (ht_planes t ! i ! j) = t"
  by (simp add: put_slot_def)

lemma table_slot:
  assumes "table_ok hash h t C live" "i < ht_n_planes t" "j < psize i"
  shows "get_slot t i j = Some (ht_planes t ! i ! j)" "set_slot t i j a = Some (put_slot t i j a)"
  using assms by (simp_all add: table_ok_def get_slot_def set_slot_def put_slot_def mem_simps)

lemma table_disjoint:
  assumes "table_ok hash h t C live" "live i j" "live i' j'" "(i, j) \<noteq> (i', j')"
  shows "set (C i j) \<inter> set (C i' j') = {}"
proof (rule ccontr)
  assume "set (C i j) \<inter> set (C i' j') \<noteq> {}"
  then obtain x where x: "x \<in> set (C i j)" "x \<in> set (C i' j')" by blast
  then have "i' = i" "unat (hash x) mod psize i = j" "unat (hash x) mod psize i' = j'"
    using assms(1-3) unfolding table_ok_def by blast+
  with assms(4) show False by simp
qed

lemma table_put:
  assumes ok: "table_ok hash h t C live" and sub: "\<And>i' j'. live' i' j' \<Longrightarrow> live i' j'" and here: "live' i j"
    and path: "path h' a xs" "distinct xs" and hash: "\<And>x. x \<in> set xs \<Longrightarrow> unat (hash x) mod psize i = j"
    and sep: "\<And>i' j'. live' i' j' \<Longrightarrow> (i', j') \<noteq> (i, j) \<Longrightarrow> set (C i' j') \<inter> set xs = {}"
    and frame: "\<And>i' j' y. live' i' j' \<Longrightarrow> (i', j') \<noteq> (i, j) \<Longrightarrow> y \<in> set (C i' j') \<Longrightarrow> h' y = h y"
  shows "table_ok hash h' (put_slot t i j a) (C(i := (C i)(j := xs))) live'"
proof -
  let ?C = "C(i := (C i)(j := xs))" and ?t = "put_slot t i j a"
  have len: "length (ht_planes t) = ht_n_planes t" "ht_n_planes t \<le> 25"
    "\<And>k. k < ht_n_planes t \<Longrightarrow> length (ht_planes t ! k) = psize k" and ij: "i < ht_n_planes t" "j < psize i"
    using ok sub [OF here] by (auto simp: table_ok_def)
  have uniq: "k = k'" if "live' k l" "live' k' l'" "x \<in> set (?C k l)" "x \<in> set (?C k' l')" for k l k' l' x
  proof (cases "(k, l) = (i, j) \<or> (k', l') = (i, j)")
    case True
    then show ?thesis using that sep [of k l] sep [of k' l'] by (auto split: if_splits)
  next
    case False
    then show ?thesis using that ok sub [OF that(1)] sub [OF that(2)] unfolding table_ok_def by (auto split: if_splits)
  qed
  have slot: "k < ht_n_planes t \<and> l < psize k \<and> path h' (ht_planes ?t ! k ! l) (?C k l) \<and> distinct (?C k l) \<and>
      (\<forall>x \<in> set (?C k l). unat (hash x) mod psize k = l)" if "live' k l" for k l
  proof (cases "(k, l) = (i, j)")
    case True
    then show ?thesis using ij len path hash by (simp add: put_slot_def)
  next
    case False
    have old: "k < ht_n_planes t" "l < psize k" "path h (ht_planes t ! k ! l) (C k l)" "distinct (C k l)"
      "\<forall>x \<in> set (C k l). unat (hash x) mod psize k = l"
      using ok sub [OF that] by (auto simp: table_ok_def)
    have "path h' (ht_planes t ! k ! l) (C k l)"
      using old(3) path_cong [of "C k l" h' h] frame [OF that False] by blast
    moreover have "ht_planes ?t ! k ! l = ht_planes t ! k ! l" "?C k l = C k l"
      using False len ij old(1) by (auto simp: put_slot_def nth_list_update)
    ultimately show ?thesis using old by simp
  qed
  have "\<forall>k < ht_n_planes ?t. length (ht_planes ?t ! k) = psize k"
    using len ij by (simp add: put_slot_def nth_list_update)
  moreover have "length (ht_planes ?t) = ht_n_planes ?t" using len by (simp add: put_slot_def)
  ultimately show ?thesis using len(2) slot uniq unfolding table_ok_def put_slot_simps by metis
qed

lemma table_chain:
  assumes "table_ok hash h t C live" "live i j"
  shows "i < ht_n_planes t" "j < psize i" "path h (ht_planes t ! i ! j) (C i j)" "distinct (C i j)"
    "\<And>x. x \<in> set (C i j) \<Longrightarrow> unat (hash x) mod psize i = j"
  using assms unfolding table_ok_def by blast+

end
