(* ===== verification/Htable_Ops.thy ===== *)
theory Htable_Ops
  imports Htable_Inv
begin

text \<open>
  What each operation of the hash table does to the invariant: searching, linking a node in, unlinking
  one, growing by a plane, merging the last plane into the one before, and emptying the table.
\<close>

section \<open>Search\<close>

definition found_at ::
    "(nat \<Rightarrow> nat \<Rightarrow> addr list) \<Rightarrow> uint32 \<Rightarrow> (addr \<Rightarrow> bool) \<Rightarrow> nat \<Rightarrow> htable_ref \<Rightarrow> addr \<Rightarrow> bool" where
  "found_at C w P k ref x \<longleftrightarrow> (\<exists>ys zs. C k (unat w mod psize k) = ys @ x # zs \<and> P x \<and>
     ref = (if ys = [] then Slot k (unat w mod psize k) else Link (last ys)))"

lemma lookup_planes:
  assumes ok: "table_ok hash h t C (all_slots t)" and "i \<le> ht_n_planes t"
  shows "\<exists>r. htable_lookup_planes h t w key cmp i = Some r \<and>
    (case r of
       None \<Rightarrow> \<forall>k < i. \<forall>x \<in> set (C k (unat w mod psize k)). cmp key x \<noteq> 0
     | Some (ref, x) \<Rightarrow> \<exists>k < i. found_at C w (\<lambda>x. cmp key x = 0) k ref x)"
  using assms(2)
proof (induction i)
  case (Suc i)
  let ?j = "unat w mod psize i" and ?P = "\<lambda>x. cmp key x = 0"
  have i: "i < ht_n_planes t" "i \<le> 25" "?j < psize i"
    using Suc.prems ok by (auto simp: table_ok_def)
  have path: "path h (ht_planes t ! i ! ?j) (C i ?j)" using ok i by (auto simp: table_ok_def all_slots_def)
  note step = plane_size_ok [OF i(2)] table_slot(1) [OF ok i(1,3)] lookup_chain [OF path]
  show ?case
  proof (cases "find_ref ?P (Slot i ?j) (C i ?j)")
    case None
    then have none: "\<forall>x \<in> set (C i ?j). cmp key x \<noteq> 0" by (simp add: find_ref_None)
    obtain r where r: "htable_lookup_planes h t w key cmp i = Some r"
      "case r of None \<Rightarrow> \<forall>k < i. \<forall>x \<in> set (C k (unat w mod psize k)). cmp key x \<noteq> 0
       | Some (ref, x) \<Rightarrow> \<exists>k < i. found_at C w ?P k ref x"
      using Suc by auto
    have "htable_lookup_planes h t w key cmp (Suc i) = Some r" using step None r(1) by simp
    with r(2) none show ?thesis
      by (intro exI [of _ r]) (auto simp: less_Suc_eq split: option.splits)
  next
    case (Some found)
    obtain ref x where found: "found = (ref, x)" by force
    have "found_at C w ?P i ref x"
      unfolding found_at_def by (rule find_ref_Some) (use Some found in simp)
    moreover have "htable_lookup_planes h t w key cmp (Suc i) = Some (Some (ref, x))"
      using step Some found by simp
    ultimately show ?thesis by auto
  qed
qed simp

text \<open>For the nodes of the table: the node equal to the key, if there is one.\<close>

lemma lookup_internal:
  assumes ok: "table_ok hash h t C (all_slots t)"
    and same: "\<And>x. x \<in> nodes_of C (all_slots t) \<Longrightarrow> cmp key x = 0 \<Longrightarrow> hash x = hash key"
  shows "\<exists>r. htable_lookup_internal h t (hash key) key cmp = Some r \<and>
    (case r of
       None \<Rightarrow> \<forall>x \<in> nodes_of C (all_slots t). cmp key x \<noteq> 0
     | Some (ref, x) \<Rightarrow> \<exists>k < ht_n_planes t. found_at C (hash key) (\<lambda>x. cmp key x = 0) k ref x)"
proof -
  obtain r where r: "htable_lookup_internal h t (hash key) key cmp = Some r"
    "case r of None \<Rightarrow> \<forall>k < ht_n_planes t. \<forall>x \<in> set (C k (unat (hash key) mod psize k)). cmp key x \<noteq> 0
       | Some (ref, x) \<Rightarrow> \<exists>k < ht_n_planes t. found_at C (hash key) (\<lambda>x. cmp key x = 0) k ref x"
    using lookup_planes [OF ok order.refl] unfolding htable_lookup_internal_def by blast
  have "\<forall>x \<in> nodes_of C (all_slots t). cmp key x \<noteq> 0" if None: "r = None"
  proof (intro ballI notI)
    fix x assume x: "x \<in> nodes_of C (all_slots t)" and eq: "cmp key x = 0"
    then obtain k j where kj: "all_slots t k j" "x \<in> set (C k j)" by (auto simp: nodes_of_def)
    then have "unat (hash x) mod psize k = j" "k < ht_n_planes t" using ok by (auto simp: table_ok_def all_slots_def)
    then show False using r(2) None kj same [OF x eq] eq by auto
  qed
  then show ?thesis using r by (intro exI [of _ r]) (auto split: option.splits)
qed

section \<open>Insertion\<close>

lemma grow_ok:
  assumes ok: "table_ok hash h t C (all_slots t)" and room: "ht_n_planes t \<le> 24"
  shows "\<exists>res t'. htable_grow r m t = Some (res, t') \<and> ht_n t' = ht_n t \<and>
    (if res = 0 then 0 < ht_n_planes t' \<and> (\<exists>C'. table_ok hash h t' C' (all_slots t') \<and>
         nodes_of C' (all_slots t') = nodes_of C (all_slots t))
     else res = - 1 \<and> t' = t \<and> (\<not> r \<and> ht_n_planes t = 0 \<or> \<not> m))"
proof -
  let ?n = "ht_n_planes t"
  consider "\<not> r" | "r" "\<not> m" | "r" "m" by blast
  then show ?thesis
  proof cases
    case 1
    then show ?thesis using ok by (auto simp: htable_grow_def intro!: exI [of _ C])
  next
    case 2
    then show ?thesis using room by (simp add: htable_grow_def plane_size_ok)
  next
    case 3
    let ?t = "t\<lparr>ht_planes := ht_planes t @ [replicate (psize ?n) NULL], ht_n_planes := Suc ?n\<rparr>"
    let ?C = "C(?n := \<lambda>_. [])"
    have len: "length (ht_planes t) = ?n" using ok by (simp add: table_ok_def)
    have run: "htable_grow r m t = Some (0, ?t)"
      using 3 room len by (simp add: htable_grow_def plane_size_ok)
    have live: "all_slots ?t i j \<longleftrightarrow> all_slots t i j \<or> i = ?n \<and> j < psize i" for i j
      by (auto simp: all_slots_def less_Suc_eq)
    have "table_ok hash h ?t ?C (all_slots ?t)"
      unfolding table_ok_def
    proof (intro conjI allI impI)
      show "length (ht_planes ?t) = ht_n_planes ?t" "ht_n_planes ?t \<le> 25" using len room by simp_all
      show "length (ht_planes ?t ! i) = psize i" if "i < ht_n_planes ?t" for i
        using that ok len by (auto simp: nth_append less_Suc_eq table_ok_def)
      fix i j assume a: "all_slots ?t i j"
      then show "i < ht_n_planes ?t" "j < psize i" by (simp_all add: all_slots_def)
      show "path h (ht_planes ?t ! i ! j) (?C i j)" "distinct (?C i j)"
        using a ok len by (auto simp: live nth_append table_ok_def all_slots_def)
      show "\<forall>x \<in> set (?C i j). unat (hash x) mod psize i = j \<and>
          (\<forall>i' j'. all_slots ?t i' j' \<longrightarrow> x \<in> set (?C i' j') \<longrightarrow> i' = i)"
        using a ok by (auto simp: live table_ok_def)
    qed
    moreover have "nodes_of ?C (all_slots ?t) = nodes_of C (all_slots t)"
    proof -
      have "all_slots ?t i j \<and> x \<in> set (?C i j) \<longleftrightarrow> all_slots t i j \<and> x \<in> set (C i j)" for i j x
        by (auto simp: live all_slots_def)
      then show ?thesis by (simp only: nodes_of_def)
    qed
    ultimately show ?thesis using run by auto
  qed
qed

lemma link_ok:
  assumes ok: "table_ok hash h t C (all_slots t)" and "0 < ht_n_planes t"
    and x: "h x = Some nd" "x \<noteq> NULL" "x \<notin> nodes_of C (all_slots t)"
  defines "p \<equiv> ht_n_planes t - 1"
  defines "j \<equiv> unat (hash x) mod psize p"
  defines "h' \<equiv> h(x \<mapsto> nd\<lparr>ht_next := ht_planes t ! p ! j\<rparr>)" and "C' \<equiv> C(p := (C p)(j := x # C p j))"
  shows "table_ok hash h' (put_slot t p j x) C' (all_slots t)"
    and "nodes_of C' (all_slots t) = insert x (nodes_of C (all_slots t))"
proof -
  have pj: "all_slots t p j" using assms(2) by (simp add: all_slots_def p_def j_def)
  have chain: "path h (ht_planes t ! p ! j) (C p j)" "distinct (C p j)"
    "\<And>y. y \<in> set (C p j) \<Longrightarrow> unat (hash y) mod psize p = j"
    using ok pj by (auto simp: table_ok_def)
  have fresh: "x \<notin> set (C i' j')" if "all_slots t i' j'" for i' j' using that x(3) by (auto simp: nodes_of_def)
  show "table_ok hash h' (put_slot t p j x) C' (all_slots t)"
    unfolding C'_def
  proof (rule table_put [OF ok, where live' = "all_slots t"])
    show "all_slots t p j" by (rule pj)
    show "path h' x (x # C p j)" using chain(1) fresh [OF pj] x(2) by (simp add: h'_def)
    show "distinct (x # C p j)" using chain(2) fresh [OF pj] by simp
    show "unat (hash y) mod psize p = j" if "y \<in> set (x # C p j)" for y using that chain(3) by (auto simp: j_def)
    fix i' j' assume a: "all_slots t i' j'" "(i', j') \<noteq> (p, j)"
    show "set (C i' j') \<inter> set (x # C p j) = {}"
      using fresh [OF a(1)] table_disjoint [OF ok a(1) pj a(2)] by auto
    show "h' y = h y" if "y \<in> set (C i' j')" for y using that fresh [OF a(1)] by (auto simp: h'_def)
  qed
  show "nodes_of C' (all_slots t) = insert x (nodes_of C (all_slots t))"
    using pj by (auto simp: nodes_of_def C'_def split: if_splits)
qed

section \<open>Removal\<close>

lemma unlink_ok:
  assumes ok: "table_ok hash h t C (all_slots t)" and k: "k < ht_n_planes t"
    and split: "C k j = ys @ x # zs" and j: "j < psize k" and m: "h x = Some m"
    and ref: "ref = (if ys = [] then Slot k j else Link (last ys))"
  shows "\<exists>h' t'. set_ref h t ref (ht_next m) = Some (h', t') \<and>
    ht_n_planes t' = ht_n_planes t \<and> ht_n t' = ht_n t \<and>
    table_ok hash h' t' (C(k := (C k)(j := ys @ zs))) (all_slots t') \<and>
    nodes_of (C(k := (C k)(j := ys @ zs))) (all_slots t') = nodes_of C (all_slots t) - {x} \<and>
    h' x = h x \<and> (\<forall>y. y \<notin> nodes_of C (all_slots t) \<longrightarrow> h' y = h y)"
proof -
  have kj: "all_slots t k j" using k j by (simp add: all_slots_def)
  have chain: "path h (ht_planes t ! k ! j) (ys @ x # zs)" "distinct (ys @ x # zs)"
    "\<And>y. y \<in> set (ys @ x # zs) \<Longrightarrow> unat (hash y) mod psize k = j"
    using table_chain(3-5) [OF ok kj] unfolding split by blast+
  have only: "x \<notin> set (C i' j')" if "all_slots t i' j'" "(i', j') \<noteq> (k, j)" for i' j'
    using table_disjoint [OF ok that(1) kj that(2)] split by auto
  have nodes: "nodes_of (C(k := (C k)(j := ys @ zs))) (all_slots t) = nodes_of C (all_slots t) - {x}"
  proof -
    have "all_slots t i' j' \<and> y \<in> set ((C(k := (C k)(j := ys @ zs))) i' j') \<longleftrightarrow>
        all_slots t i' j' \<and> y \<in> set (C i' j') \<and> y \<noteq> x" for i' j' y
      using only [of i' j'] chain(2) split by (cases "(i', j') = (k, j)") auto
    then show ?thesis by (auto simp only: nodes_of_def)
  qed
  define h' where "h' = (if ys = [] then h else h(last ys \<mapsto> (the (h (last ys)))\<lparr>ht_next := ht_next m\<rparr>))"
  define a where "a = (if ys = [] then ht_next m else ht_planes t ! k ! j)"
  have last: "last ys \<in> set ys" if "ys \<noteq> []" using that by simp
  then have in_C: "last ys \<in> set (C k j)" if "ys \<noteq> []" using that split by simp
  have tok: "table_ok hash h' (put_slot t k j a) (C(k := (C k)(j := ys @ zs))) (all_slots t)"
  proof (rule table_put [OF ok, where live' = "all_slots t"])
    show "all_slots t k j" by (rule kj)
    show "path h' a (ys @ zs)"
    proof (cases "ys = []")
      case True
      then show ?thesis using path_split [OF chain(1)] m by (auto simp: h'_def a_def)
    next
      case False
      then obtain nd where "h (last ys) = Some nd"
        using path_node [OF chain(1), of "last ys"] by (auto dest: load_SomeD)
      then show ?thesis using path_unlink [OF chain(1,2) False _ m] False by (simp add: h'_def a_def)
    qed
    show "distinct (ys @ zs)" using chain(2) by auto
    show "unat (hash y) mod psize k = j" if "y \<in> set (ys @ zs)" for y using chain(3) that by auto
    fix i' j' assume ij: "all_slots t i' j'" "(i', j') \<noteq> (k, j)"
    note dis = table_disjoint [OF ok ij(1) kj ij(2)]
    then show "set (C i' j') \<inter> set (ys @ zs) = {}" using split by auto
    show "h' y = h y" if "y \<in> set (C i' j')" for y using dis in_C that by (auto simp: h'_def)
  qed simp
  have run: "set_ref h t ref (ht_next m) = Some (h', put_slot t k j a)"
  proof (cases "ys = []")
    case True
    then show ?thesis using ref table_slot(2) [OF ok k j] by (simp add: set_ref_def h'_def a_def)
  next
    case False
    then obtain nd where "load h (last ys) = Some nd" using path_node [OF chain(1), of "last ys"] by auto
    then show ?thesis using False ref
      by (auto simp: set_ref_def h'_def a_def mem_simps put_slot_same dest: load_SomeD)
  qed
  have "x \<noteq> last ys" if "ys \<noteq> []" using chain(2) last [OF that] by auto
  then have "h' x = h x" by (simp add: h'_def)
  moreover have "h' y = h y" if "y \<notin> nodes_of C (all_slots t)" for y
    using that in_C kj by (auto simp: h'_def nodes_of_def)
  ultimately show ?thesis using run tok nodes by auto
qed

section \<open>Shrinking\<close>

lemma table_drop:
  assumes "table_ok hash h t C live" "\<And>i j. live' i j \<Longrightarrow> live i j"
  shows "table_ok hash h t C live'"
  using assms unfolding table_ok_def by meson

text \<open>The slots that count when the merge of the last plane has reached slot \<open>k\<close>.\<close>

definition merging :: "HTABLE \<Rightarrow> nat \<Rightarrow> nat \<Rightarrow> nat \<Rightarrow> bool" where
  "merging t k i j \<longleftrightarrow> all_slots t i j \<and> (Suc i = ht_n_planes t \<longrightarrow> k \<le> j)"

lemma merge_slot:
  assumes ok: "table_ok hash h t C (merging t k)" and n: "ht_n_planes t = p + 2" and k: "k < psize (p + 1)"
  shows "\<exists>h' t' C'. htable_merge_slot p (psize p) k h t = Some (h', t') \<and>
    ht_n_planes t' = ht_n_planes t \<and> ht_n t' = ht_n t \<and> table_ok hash h' t' C' (merging t' (k + 1)) \<and>
    nodes_of C' (merging t' (k + 1)) = nodes_of C (merging t k) \<and>
    (\<forall>y. y \<notin> nodes_of C (merging t k) \<longrightarrow> h' y = h y)"
proof -
  let ?j = "k mod psize p" and ?xs = "C (p + 1) k" and ?ps = "C p (k mod psize p)"
  have src: "merging t k (p + 1) k" using n k by (simp add: merging_def all_slots_def)
  have dst: "merging t k p ?j" "merging t (k + 1) p ?j" using n by (simp_all add: merging_def all_slots_def)
  have sub: "merging t k i j" if "merging t (k + 1) i j" for i j using that by (auto simp: merging_def)
  have xs: "path h (ht_planes t ! (p + 1) ! k) ?xs" "distinct ?xs"
    "\<And>x. x \<in> set ?xs \<Longrightarrow> unat (hash x) mod psize (p + 1) = k"
    and ps: "path h (ht_planes t ! p ! ?j) ?ps" "distinct ?ps"
    "\<And>x. x \<in> set ?ps \<Longrightarrow> unat (hash x) mod psize p = ?j"
    using table_chain(3-5) [OF ok src] table_chain(3-5) [OF ok dst(1)] by blast+
  have "(p, ?j) \<noteq> (p + 1, k)" by simp
  then have apart: "set ?xs \<inter> set ?ps = {}" using table_disjoint [OF ok src dst(1)] by auto
  have get: "get_slot t (p + 1) k = Some (ht_planes t ! (p + 1) ! k)"
    "get_slot t p ?j = Some (ht_planes t ! p ! ?j)" "\<And>a. set_slot t p ?j a = Some (put_slot t p ?j a)"
    using table_slot [OF ok] n k by simp_all
  have rest: "merging t k i j \<longleftrightarrow> merging t (k + 1) i j \<or> i = p + 1 \<and> j = k" for i j
    using n k by (auto simp: merging_def all_slots_def)
  show ?thesis
  proof (cases "?xs = []")
    case True
    then have "htable_merge_slot p (psize p) k h t = Some (h, t)"
      using get(1) path_NULL [OF xs(1)] by (simp add: htable_merge_slot_def)
    moreover have "nodes_of C (merging t (k + 1)) = nodes_of C (merging t k)"
      using True by (auto simp: nodes_of_def rest)
    ultimately show ?thesis using table_drop [OF ok sub] by blast
  next
    case False
    have l: "last ?xs \<in> set ?xs" using False by simp
    then obtain nd where nd: "load h (last ?xs) = Some nd" "h (last ?xs) = Some nd"
      using path_node [OF xs(1)] by (auto dest: load_SomeD)
    define h' where "h' = (if ?ps = [] then h else h(last ?xs \<mapsto> nd\<lparr>ht_next := ht_planes t ! p ! ?j\<rparr>))"
    define t' where "t' = put_slot t p ?j (ht_planes t ! (p + 1) ! k)"
    define C' where "C' = C(p := (C p)(?j := ?xs @ ?ps))"
    have live: "merging t' = merging t" by (simp add: t'_def merging_def fun_eq_iff)
    have "htable_merge_slot p (psize p) k h t = Some (h', t')"
      using get False path_NULL [OF xs(1)] path_NULL [OF ps(1)] path_tail [OF xs(1) False] nd
      by (simp add: htable_merge_slot_def h'_def t'_def mem_simps)
    moreover have "table_ok hash h' t' C' (merging t (k + 1))"
      unfolding t'_def C'_def
    proof (rule table_put [OF ok, where live' = "merging t (k + 1)"])
      show "merging t k i j" if "merging t (k + 1) i j" for i j using sub that .
      show "merging t (k + 1) p ?j" by (rule dst(2))
      show "path h' (ht_planes t ! (p + 1) ! k) (?xs @ ?ps)"
        using path_join [OF xs(1) ps(1) False _ nd(2)] xs ps(2) apart by (simp add: h'_def)
      show "distinct (?xs @ ?ps)" using xs(2) ps(2) apart by simp
      show "unat (hash x) mod psize p = ?j" if "x \<in> set (?xs @ ?ps)" for x
      proof (cases "x \<in> set ?xs")
        case True
        have "psize (p + 1) = psize p * 2" by (simp add: psize_def)
        then have "unat (hash x) mod psize (p + 1) mod psize p = unat (hash x) mod psize p"
          by (simp add: mod_mod_cancel)
        then show ?thesis using xs(3) [OF True] by simp
      qed (use that ps(3) in simp)
      fix i j assume ij: "merging t (k + 1) i j" "(i, j) \<noteq> (p, ?j)"
      then have ne: "(i, j) \<noteq> (p + 1, k)" using n by (auto simp: merging_def)
      note dis = table_disjoint [OF ok sub [OF ij(1)] src ne] table_disjoint [OF ok sub [OF ij(1)] dst(1) ij(2)]
      then show "set (C i j) \<inter> set (?xs @ ?ps) = {}" by auto
      show "h' y = h y" if "y \<in> set (C i j)" for y using dis(1) l that by (auto simp: h'_def)
    qed
    moreover have "nodes_of C' (merging t (k + 1)) = nodes_of C (merging t k)"
    proof -
      have "y \<in> nodes_of C' (merging t (k + 1)) \<longleftrightarrow> y \<in> nodes_of C (merging t k)" for y
        using src dst unfolding nodes_of_def rest C'_def
        by (auto split: if_splits) (metis fun_upd_other fun_upd_same)+
      then show ?thesis by blast
    qed
    moreover have "h' y = h y" if "y \<notin> nodes_of C (merging t k)" for y
      using that l src by (auto simp: h'_def nodes_of_def)
    moreover have "ht_n_planes t' = ht_n_planes t" "ht_n t' = ht_n t" by (simp_all add: t'_def)
    ultimately show ?thesis
      by (intro exI [of _ h'] exI [of _ t'] exI [of _ C']) (simp add: live)
  qed
qed


lemma merge_loop:
  "table_ok hash h t C (merging t k) \<Longrightarrow> ht_n_planes t = p + 2 \<Longrightarrow> k \<le> psize (p + 1) \<Longrightarrow>
   \<exists>h' t' C'. htable_merge p (psize (p + 1)) (psize p) k h t = Some (h', t') \<and>
     ht_n_planes t' = ht_n_planes t \<and> ht_n t' = ht_n t \<and> table_ok hash h' t' C' (merging t' (psize (p + 1))) \<and>
     nodes_of C' (merging t' (psize (p + 1))) = nodes_of C (merging t k) \<and>
     (\<forall>y. y \<notin> nodes_of C (merging t k) \<longrightarrow> h' y = h y)"
proof (induction "psize (p + 1) - k" arbitrary: k h t C)
  case 0
  then have "k = psize (p + 1)" by simp
  then show ?case using 0 by (subst htable_merge.simps) auto
next
  case (Suc d)
  then have k: "k < psize (p + 1)" by simp
  obtain h1 t1 C1 where 1: "htable_merge_slot p (psize p) k h t = Some (h1, t1)"
    "ht_n_planes t1 = ht_n_planes t" "ht_n t1 = ht_n t" "table_ok hash h1 t1 C1 (merging t1 (k + 1))"
    "nodes_of C1 (merging t1 (k + 1)) = nodes_of C (merging t k)"
    "\<forall>y. y \<notin> nodes_of C (merging t k) \<longrightarrow> h1 y = h y"
    using merge_slot [OF Suc.prems(1,2) k] by blast
  obtain h2 t2 C2 where 2: "htable_merge p (psize (p + 1)) (psize p) (k + 1) h1 t1 = Some (h2, t2)"
    "ht_n_planes t2 = ht_n_planes t1" "ht_n t2 = ht_n t1" "table_ok hash h2 t2 C2 (merging t2 (psize (p + 1)))"
    "nodes_of C2 (merging t2 (psize (p + 1))) = nodes_of C1 (merging t1 (k + 1))"
    "\<forall>y. y \<notin> nodes_of C1 (merging t1 (k + 1)) \<longrightarrow> h2 y = h1 y"
    using Suc.hyps(1) [OF _ 1(4)] Suc.hyps(2) Suc.prems(2) 1(2) k by fastforce
  have "htable_merge p (psize (p + 1)) (psize p) k h t = Some (h2, t2)"
    using k 1(1) 2(1) by (subst htable_merge.simps) simp
  then show ?case using 1 2 by (intro exI [of _ h2] exI [of _ t2] exI [of _ C2]) simp
qed

lemma shrink_ok:
  assumes ok: "table_ok hash h t C (all_slots t)"
    and count: "ht_n t = 0 \<longleftrightarrow> nodes_of C (all_slots t) = {}"
  shows "\<exists>h' t' C'. htable_shrink h t = Some (h', t') \<and> ht_n t' = ht_n t \<and>
    ht_n_planes t' = (if ht_n t = 0 then 0 else if ht_n_planes t \<le> 1 then ht_n_planes t else ht_n_planes t - 1) \<and>
    table_ok hash h' t' C' (all_slots t') \<and> nodes_of C' (all_slots t') = nodes_of C (all_slots t) \<and>
    (\<forall>y. y \<notin> nodes_of C (all_slots t) \<longrightarrow> h' y = h y)"
proof -
  consider "ht_n t = 0" | "ht_n t \<noteq> 0" "ht_n_planes t \<le> 1" | "ht_n t \<noteq> 0" "1 < ht_n_planes t" by linarith
  then show ?thesis
  proof cases
    case 1
    then show ?thesis using count
      by (auto simp: htable_shrink_def htable_free_all_planes_def table_ok_def all_slots_def nodes_of_def)
  next
    case 2
    then show ?thesis using ok by (auto simp: htable_shrink_def)
  next
    case 3
    define p where "p = ht_n_planes t - 2"
    have n: "ht_n_planes t = p + 2" "p + 1 \<le> 25" using 3(2) ok by (auto simp: p_def table_ok_def)
    have "merging t 0 = all_slots t" by (auto simp: merging_def fun_eq_iff)
    with ok obtain h1 t1 C1 where 1: "htable_merge p (psize (p + 1)) (psize p) 0 h t = Some (h1, t1)"
      "ht_n_planes t1 = p + 2" "ht_n t1 = ht_n t" "table_ok hash h1 t1 C1 (merging t1 (psize (p + 1)))"
      "nodes_of C1 (merging t1 (psize (p + 1))) = nodes_of C (all_slots t)"
      "\<forall>y. y \<notin> nodes_of C (all_slots t) \<longrightarrow> h1 y = h y"
      using merge_loop [of hash h t C 0 p] n(1) by auto
    let ?t = "t1\<lparr>ht_planes := butlast (ht_planes t1), ht_n_planes := p + 1\<rparr>"
    have live: "merging t1 (psize (p + 1)) = all_slots ?t"
      using 1(2) by (auto simp: merging_def all_slots_def fun_eq_iff less_Suc_eq)
    have "htable_shrink h t = Some (h1, ?t)"
      using 3 n 1(1,2) by (simp add: htable_shrink_def plane_size_ok p_def [symmetric])
    moreover have "table_ok hash h1 ?t C1 (all_slots ?t)"
      using 1(2,4) unfolding live by (auto simp: table_ok_def all_slots_def nth_butlast)
    ultimately show ?thesis using 1 3(1) n unfolding live
      by (intro exI [of _ h1] exI [of _ ?t] exI [of _ C1]) simp
  qed
qed

section \<open>Destruction\<close>

lemma fini_slot:
  "table_ok hash h t C (all_slots t) \<Longrightarrow> all_slots t i j \<Longrightarrow>
   \<exists>h' t'. htable_fini_slot i j dead h t = Some (dead @ C i j, h', t') \<and>
     ht_n_planes t' = ht_n_planes t \<and> table_ok hash h' t' (C(i := (C i)(j := []))) (all_slots t') \<and>
     (\<forall>y. y \<notin> set (C i j) \<longrightarrow> h' y = h y)"
proof (induction "C i j" arbitrary: C h t dead)
  case Nil
  note c = table_chain [OF Nil.prems]
  have "ht_planes t ! i ! j = NULL" using c(3) Nil.hyps [symmetric] by simp
  moreover have "C(i := (C i)(j := [])) = C" using Nil.hyps by (simp add: fun_upd_idem)
  ultimately show ?case using Nil table_slot(1) [OF Nil.prems(1) c(1,2)]
    by (subst htable_fini_slot.simps) simp
next
  case (Cons x xs)
  note c = table_chain [OF Cons.prems]
  then obtain nd where x: "ht_planes t ! i ! j = x" "x \<noteq> NULL" "h x = Some nd" "path h (ht_next nd) xs"
    "x \<notin> set xs" "distinct xs" using Cons.hyps(2) [symmetric] by auto
  let ?h = "h(x := None)" and ?t = "put_slot t i j (ht_next nd)" and ?C = "C(i := (C i)(j := xs))"
  have ok: "table_ok hash ?h ?t ?C (all_slots t)"
  proof (rule table_put [OF Cons.prems(1), where live' = "all_slots t"])
    show "all_slots t i j" by (rule Cons.prems(2))
    show "path ?h (ht_next nd) xs" "distinct xs" using x by simp_all
    show "unat (hash y) mod psize i = j" if "y \<in> set xs" for y
      using c(5) that by (simp add: Cons.hyps(2) [symmetric])
    fix i' j' assume ij: "all_slots t i' j'" "(i', j') \<noteq> (i, j)"
    note dis = table_disjoint [OF Cons.prems(1) ij(1) Cons.prems(2) ij(2)]
    then show "set (C i' j') \<inter> set xs = {}" by (auto simp: Cons.hyps(2) [symmetric])
    show "?h y = h y" if "y \<in> set (C i' j')" for y
      using dis that by (auto simp: Cons.hyps(2) [symmetric])
  qed simp
  obtain h' t' where 1: "htable_fini_slot i j (dead @ [x]) ?h ?t = Some ((dead @ [x]) @ ?C i j, h', t')"
    "ht_n_planes t' = ht_n_planes ?t" "table_ok hash h' t' (?C(i := (?C i)(j := []))) (all_slots t')"
    "\<forall>y. y \<notin> set (?C i j) \<longrightarrow> h' y = ?h y"
    using Cons.hyps(1) [of ?C ?h ?t "dead @ [x]"] ok Cons.prems(2) by auto
  have "htable_fini_slot i j dead h t = Some (dead @ C i j, h', t')"
    using table_slot [OF Cons.prems(1) c(1,2)] x 1(1) Cons.hyps(2) [symmetric]
    by (subst htable_fini_slot.simps) (simp add: mem_simps)
  moreover have "?C(i := (?C i)(j := [])) = C(i := (C i)(j := []))" by (simp add: fun_eq_iff)
  ultimately show ?case using 1 by (auto simp: Cons.hyps(2) [symmetric])
qed


lemma fini_plane:
  "table_ok hash h t C (all_slots t) \<Longrightarrow> i < ht_n_planes t \<Longrightarrow> k \<le> psize i \<Longrightarrow>
   \<exists>h' t'. htable_fini_plane i (psize i) k dead h t = Some (dead @ concat (map (C i) [k..<psize i]), h', t') \<and>
     ht_n_planes t' = ht_n_planes t \<and>
     table_ok hash h' t' (\<lambda>i' j'. if i' = i \<and> k \<le> j' then [] else C i' j') (all_slots t') \<and>
     (\<forall>y. y \<notin> nodes_of C (all_slots t) \<longrightarrow> h' y = h y)"
proof (induction "psize i - k" arbitrary: k h t C dead)
  case 0
  then have k: "k = psize i" by simp
  have "table_ok hash h t (\<lambda>i' j'. if i' = i \<and> k \<le> j' then [] else C i' j') (all_slots t)"
    using 0(2) k unfolding table_ok_def by (auto simp: all_slots_def)
  then show ?case using k by (subst htable_fini_plane.simps) simp
next
  case (Suc d)
  then have k: "k < psize i" and d: "d = psize i - Suc k" and slot: "all_slots t i k"
    by (simp_all add: all_slots_def)
  obtain h1 t1 where 1: "htable_fini_slot i k dead h t = Some (dead @ C i k, h1, t1)"
    "ht_n_planes t1 = ht_n_planes t" "table_ok hash h1 t1 (C(i := (C i)(k := []))) (all_slots t1)"
    "\<forall>y. y \<notin> set (C i k) \<longrightarrow> h1 y = h y"
    using fini_slot [OF Suc.prems(1) slot] by blast
  let ?C = "C(i := (C i)(k := []))"
  obtain h2 t2 where 2: "htable_fini_plane i (psize i) (Suc k) (dead @ C i k) h1 t1 =
      Some ((dead @ C i k) @ concat (map (?C i) [Suc k..<psize i]), h2, t2)"
    "ht_n_planes t2 = ht_n_planes t1"
    "table_ok hash h2 t2 (\<lambda>i' j'. if i' = i \<and> Suc k \<le> j' then [] else ?C i' j') (all_slots t2)"
    "\<forall>y. y \<notin> nodes_of ?C (all_slots t1) \<longrightarrow> h2 y = h1 y"
    using Suc.hyps(1) [OF d 1(3), of "dead @ C i k"] Suc.prems(2) 1(2) k by auto
  have same: "(\<lambda>i' j'. if i' = i \<and> Suc k \<le> j' then [] else ?C i' j') =
      (\<lambda>i' j'. if i' = i \<and> k \<le> j' then [] else C i' j')"
    by (auto simp: fun_eq_iff)
  have "map (?C i) [Suc k..<psize i] = map (C i) [Suc k..<psize i]" by simp
  then have "htable_fini_plane i (psize i) k dead h t =
      Some (dead @ concat (map (C i) [k..<psize i]), h2, t2)"
    using k 1(1) 2(1) by (subst htable_fini_plane.simps) (simp add: upt_conv_Cons)
  moreover have "h2 y = h y" if "y \<notin> nodes_of C (all_slots t)" for y
  proof -
    have "y \<notin> nodes_of ?C (all_slots t1)" "y \<notin> set (C i k)"
      using that slot 1(2) by (auto simp: nodes_of_def all_slots_def split: if_splits)
    then show ?thesis using 1(4) 2(4) by simp
  qed
  ultimately show ?case using 1(2) 2(2,3) unfolding same by auto
qed

lemma fini_planes:
  "table_ok hash h t C (all_slots t) \<Longrightarrow> k \<le> ht_n_planes t \<Longrightarrow>
   \<exists>h' t'. htable_fini_planes (ht_n_planes t) k dead h t =
       Some (dead @ concat (map (\<lambda>i. concat (map (C i) [0..<psize i])) [k..<ht_n_planes t]), h', t') \<and>
     ht_n_planes t' = ht_n_planes t \<and> (\<forall>y. y \<notin> nodes_of C (all_slots t) \<longrightarrow> h' y = h y)"
proof (induction "ht_n_planes t - k" arbitrary: k h t C dead)
  case 0
  then show ?case by (subst htable_fini_planes.simps) simp
next
  case (Suc d)
  then have k: "k < ht_n_planes t" "k \<le> 25" by (auto simp: table_ok_def)
  have d: "d = ht_n_planes t - Suc k" using Suc.hyps(2) by simp
  let ?C = "\<lambda>i' j'. if i' = k \<and> 0 \<le> j' then [] else C i' j'"
  obtain h1 t1 where 1: "htable_fini_plane k (psize k) 0 dead h t =
      Some (dead @ concat (map (C k) [0..<psize k]), h1, t1)"
    "ht_n_planes t1 = ht_n_planes t" "table_ok hash h1 t1 ?C (all_slots t1)"
    "\<forall>y. y \<notin> nodes_of C (all_slots t) \<longrightarrow> h1 y = h y"
    using fini_plane [OF Suc.prems(1) k(1) le0] by blast
  obtain h2 t2 where 2: "htable_fini_planes (ht_n_planes t1) (Suc k) (dead @ concat (map (C k) [0..<psize k])) h1 t1 =
      Some ((dead @ concat (map (C k) [0..<psize k])) @
        concat (map (\<lambda>i. concat (map (?C i) [0..<psize i])) [Suc k..<ht_n_planes t1]), h2, t2)"
    "ht_n_planes t2 = ht_n_planes t1" "\<forall>y. y \<notin> nodes_of ?C (all_slots t1) \<longrightarrow> h2 y = h1 y"
    using Suc.hyps(1) [OF d [folded 1(2)] 1(3), of "dead @ concat (map (C k) [0..<psize k])"] 1(2) k by auto
  have eq: "map (\<lambda>i. concat (map (?C i) [0..<psize i])) [Suc k..<ht_n_planes t] =
      map (\<lambda>i. concat (map (C i) [0..<psize i])) [Suc k..<ht_n_planes t]" by simp
  have "htable_fini_planes (ht_n_planes t) k dead h t =
      Some (dead @ concat (map (\<lambda>i. concat (map (C i) [0..<psize i])) [k..<ht_n_planes t]), h2, t2)"
    using k 1(1) 2(1) [unfolded 1(2) eq]
    by (subst htable_fini_planes.simps) (simp add: plane_size_ok upt_conv_Cons [of k])
  moreover have "h2 y = h y" if "y \<notin> nodes_of C (all_slots t)" for y
  proof -
    have "y \<notin> nodes_of ?C (all_slots t1)" using that 1(2) by (auto simp: nodes_of_def all_slots_def split: if_splits)
    then show ?thesis using that 1(4) 2(3) by simp
  qed
  ultimately show ?case using 1(2) 2(2) by auto
qed

lemma distinct_concat_map:
  "distinct xs \<Longrightarrow> (\<And>x. x \<in> set xs \<Longrightarrow> distinct (f x)) \<Longrightarrow>
   (\<And>x y. x \<in> set xs \<Longrightarrow> y \<in> set xs \<Longrightarrow> x \<noteq> y \<Longrightarrow> set (f x) \<inter> set (f y) = {}) \<Longrightarrow>
   distinct (concat (map f xs))"
proof (induction xs)
  case (Cons x xs)
  have "set (f x) \<inter> set (concat (map f xs)) = {}"
    using Cons.prems(1) Cons.prems(3) [of x] by auto
  with Cons show ?case by simp
qed simp

lemma chains_distinct:
  assumes ok: "table_ok hash h t C (all_slots t)"
  shows "distinct (concat (map (\<lambda>i. concat (map (C i) [0..<psize i])) [0..<ht_n_planes t]))"
    and "set (concat (map (\<lambda>i. concat (map (C i) [0..<psize i])) [0..<ht_n_planes t])) = nodes_of C (all_slots t)"
proof -
  have slot: "all_slots t i j" if "i < ht_n_planes t" "j < psize i" for i j using that by (simp add: all_slots_def)
  show "distinct (concat (map (\<lambda>i. concat (map (C i) [0..<psize i])) [0..<ht_n_planes t]))"
  proof (intro distinct_concat_map distinct_upt)
    fix i j assume "i \<in> set [0..<ht_n_planes t]" "j \<in> set [0..<psize i]"
    then show "distinct (C i j)" using table_chain(4) [OF ok] slot by simp
  next
    fix i j j' assume "i \<in> set [0..<ht_n_planes t]" "j \<in> set [0..<psize i]" "j' \<in> set [0..<psize i]" "j \<noteq> j'"
    then show "set (C i j) \<inter> set (C i j') = {}" using table_disjoint [OF ok slot slot] by simp
  next
    fix i i' assume a: "i \<in> set [0..<ht_n_planes t]" "i' \<in> set [0..<ht_n_planes t]" "i \<noteq> i'"
    have "set (C i j) \<inter> set (C i' j') = {}" if "j < psize i" "j' < psize i'" for j j'
      using a that table_disjoint [OF ok slot slot, of i j i' j'] by simp
    then show "set (concat (map (C i) [0..<psize i])) \<inter> set (concat (map (C i') [0..<psize i'])) = {}"
      by fastforce
  qed
  show "set (concat (map (\<lambda>i. concat (map (C i) [0..<psize i])) [0..<ht_n_planes t])) = nodes_of C (all_slots t)"
    unfolding nodes_of_def all_slots_def by (simp add: set_eq_iff Bex_def)
qed

end
