(* ===== verification/Htable_Set.thy ===== *)
theory Htable_Set
  imports Htable_Ops
begin

text \<open>
  The hash table as a set of nodes with different keys: what the public functions promise, for every
  comparator and hash function that fit together, and for every outcome of the memory allocations.
\<close>

lemma set_n_slots [simp]: "all_slots (t\<lparr>ht_n := v\<rparr>) = all_slots t"
  by (simp add: all_slots_def fun_eq_iff)

lemma set_n_table [simp]: "table_ok hash h (t\<lparr>ht_n := v\<rparr>) C live = table_ok hash h t C live"
  by (simp add: table_ok_def)

section \<open>The table as a set of nodes\<close>

definition htable_holds ::
    "HTABLE_CMP_FUNC \<Rightarrow> HTABLE_HASH_FUNC \<Rightarrow> htable_mem \<Rightarrow> HTABLE \<Rightarrow> addr set \<Rightarrow> bool" where
  "htable_holds cmp hash h t X \<longleftrightarrow>
     (\<exists>C. table_ok hash h t C (all_slots t) \<and> nodes_of C (all_slots t) = X) \<and>
     unat (ht_n t) = card X \<and> (\<forall>x \<in> X. \<forall>y \<in> X. cmp x y = 0 \<longrightarrow> x = y)"

text \<open>What the header asks of the two functions of the caller.\<close>

definition keys_ok :: "HTABLE_CMP_FUNC \<Rightarrow> HTABLE_HASH_FUNC \<Rightarrow> bool" where
  "keys_ok cmp hash \<longleftrightarrow> (\<forall>x y. cmp x y = 0 \<longrightarrow> cmp y x = 0 \<and> hash x = hash y)"

text \<open>The number of slots of the largest table whose sizes fit an \<open>int\<close>.\<close>

definition htable_max :: nat where
  "htable_max = 59 * (2 ^ 25 - 1)"

lemma holds_nodes:
  assumes "table_ok hash h t C (all_slots t)" "x \<in> nodes_of C (all_slots t)"
  shows "x \<noteq> NULL" "h x \<noteq> None"
proof -
  obtain i j where "all_slots t i j" "x \<in> set (C i j)" using assms(2) by (auto simp: nodes_of_def)
  then obtain nd where "load h x = Some nd" using path_node [OF table_chain(3) [OF assms(1)]] by blast
  then show "x \<noteq> NULL" "h x \<noteq> None" by (auto dest: load_SomeD)
qed

lemma lookup_holds:
  assumes "keys_ok cmp hash" "table_ok hash h t C (all_slots t)"
  shows "\<exists>r. htable_lookup_internal h t (hash key) key cmp = Some r \<and>
    (case r of None \<Rightarrow> \<forall>x \<in> nodes_of C (all_slots t). cmp key x \<noteq> 0
     | Some (ref, x) \<Rightarrow> x \<in> nodes_of C (all_slots t) \<and> cmp key x = 0 \<and>
         (\<exists>k < ht_n_planes t. found_at C (hash key) (\<lambda>x. cmp key x = 0) k ref x))"
proof -
  have "hash x = hash key" if "cmp key x = 0" for x using that assms(1) by (metis keys_ok_def)
  then obtain r where r: "htable_lookup_internal h t (hash key) key cmp = Some r"
    "case r of None \<Rightarrow> \<forall>x \<in> nodes_of C (all_slots t). cmp key x \<noteq> 0
     | Some (ref, x) \<Rightarrow> \<exists>k < ht_n_planes t. found_at C (hash key) (\<lambda>x. cmp key x = 0) k ref x"
    using lookup_internal [OF assms(2)] by blast
  have "x \<in> nodes_of C (all_slots t) \<and> cmp key x = 0"
    if "k < ht_n_planes t" "found_at C (hash key) (\<lambda>x. cmp key x = 0) k ref x" for k ref x
  proof -
    have "x \<in> set (C k (unat (hash key) mod psize k))" "cmp key x = 0" using that(2) by (auto simp: found_at_def)
    moreover have "all_slots t k (unat (hash key) mod psize k)" using that(1) by (simp add: all_slots_def)
    ultimately show ?thesis unfolding nodes_of_def by blast
  qed
  then show ?thesis using r by (intro exI [of _ r]) (auto split: option.splits)
qed

lemma card_word_bound: "x \<notin> X \<Longrightarrow> x \<noteq> NULL \<Longrightarrow> NULL \<notin> X \<Longrightarrow> card (X :: addr set) + 1 < 2 ^ 64"
proof -
  assume a: "x \<notin> X" "x \<noteq> NULL" "NULL \<notin> X"
  then have "card (insert NULL (insert x X)) = card X + 2" by simp
  moreover have "card (insert NULL (insert x X)) \<le> card (UNIV :: addr set)" by (intro card_mono) simp_all
  ultimately show ?thesis by (simp add: card_word)
qed

lemma insert_holds:
  assumes "keys_ok cmp hash" and "htable_holds cmp hash h t X" and "h x = Some nd" "x \<noteq> NULL" "x \<notin> X"
    and "card X < htable_max" and new: "\<forall>y \<in> X. cmp x y \<noteq> 0"
  shows "\<exists>res h' t'. htable_insert_internal r m h t x cmp hash skip = Some (res, h', t') \<and>
    (if res = 0 then htable_holds cmp hash h' t' (insert x X) \<and> (\<forall>y. y \<notin> insert x X \<longrightarrow> h' y = h y)
     else res = - 1 \<and> h' = h \<and> t' = t \<and> 59 * (2 ^ ht_n_planes t - 1) \<le> card X \<and>
       (\<not> r \<and> ht_n_planes t = 0 \<or> \<not> m))"
proof -
  obtain C where C: "table_ok hash h t C (all_slots t)" "nodes_of C (all_slots t) = X"
    and n: "unat (ht_n t) = card X" and uniq: "\<forall>x \<in> X. \<forall>y \<in> X. cmp x y = 0 \<longrightarrow> x = y"
    using assms(2) by (auto simp: htable_holds_def)
  have n25: "ht_n_planes t \<le> 25" using C(1) by (simp add: table_ok_def)
  obtain dup where "htable_lookup_internal h t (hash x) x cmp = Some dup"
    "case dup of None \<Rightarrow> True | Some (ref, y) \<Rightarrow> y \<in> X \<and> cmp x y = 0"
    using lookup_holds [OF assms(1) C(1), of x] C(2) by (auto split: option.splits)
  then have dup: "(if skip then Some None else htable_lookup_internal h t (hash x) x cmp) = Some None"
    using new by (auto split: option.splits)
  define full where "full \<longleftrightarrow> 59 * (2 ^ ht_n_planes t - 1) \<le> card X"
  have tf: "HTABLE_TOO_FULL t = Some full"
    using n slot_count_ok [OF n25] by (simp add: HTABLE_TOO_FULL_def full_def)
  have room: "ht_n_planes t \<le> 24" if full
  proof (rule ccontr)
    assume "\<not> ht_n_planes t \<le> 24"
    then have "ht_n_planes t = 25" using n25 by simp
    then show False using that assms(6) by (simp add: full_def htable_max_def)
  qed
  have "\<exists>res t1. (if full then htable_grow r m t else Some (0, t)) = Some (res, t1) \<and> ht_n t1 = ht_n t \<and>
    (if res = 0 then 0 < ht_n_planes t1 \<and> (\<exists>C1. table_ok hash h t1 C1 (all_slots t1) \<and> nodes_of C1 (all_slots t1) = X)
     else res = - 1 \<and> t1 = t \<and> full \<and> (\<not> r \<and> ht_n_planes t = 0 \<or> \<not> m))"
  proof (cases full)
    case True
    obtain res t1 where "htable_grow r m t = Some (res, t1)" "ht_n t1 = ht_n t"
      "if res = 0 then 0 < ht_n_planes t1 \<and> (\<exists>C1. table_ok hash h t1 C1 (all_slots t1) \<and> nodes_of C1 (all_slots t1) = X)
       else res = - 1 \<and> t1 = t \<and> (\<not> r \<and> ht_n_planes t = 0 \<or> \<not> m)"
      using grow_ok [OF C(1) room [OF True], of r m] C(2) by blast
    with True show ?thesis by (intro exI [of _ res] exI [of _ t1]) (simp split: if_splits)
  next
    case False
    then have "0 < ht_n_planes t" by (cases "ht_n_planes t") (simp_all add: full_def)
    then show ?thesis using False C by auto
  qed
  then obtain res t1 where g: "(if full then htable_grow r m t else Some (0, t)) = Some (res, t1)" "ht_n t1 = ht_n t"
    "if res = 0 then 0 < ht_n_planes t1 \<and> (\<exists>C1. table_ok hash h t1 C1 (all_slots t1) \<and> nodes_of C1 (all_slots t1) = X)
     else res = - 1 \<and> t1 = t \<and> full \<and> (\<not> r \<and> ht_n_planes t = 0 \<or> \<not> m)" by blast
  show ?thesis
  proof (cases "res = 0")
    case False
    then show ?thesis using g dup tf by (auto simp: htable_insert_internal_def full_def)
  next
    case True
    then obtain C1 where C1: "0 < ht_n_planes t1" "table_ok hash h t1 C1 (all_slots t1)" "nodes_of C1 (all_slots t1) = X"
      using g(3) by auto
    define p where "p = ht_n_planes t1 - 1"
    define j where "j = unat (hash x) mod psize p"
    let ?h = "h(x \<mapsto> nd\<lparr>ht_next := ht_planes t1 ! p ! j\<rparr>)" and ?t = "put_slot t1 p j x"
    have p: "p < ht_n_planes t1" "p \<le> 25" using C1(1,2) by (auto simp: p_def table_ok_def)
    have pp: "ht_n_planes t1 - Suc 0 = p" "j < psize p" by (simp_all add: p_def j_def)
    have run: "htable_insert_internal r m h t x cmp hash skip = Some (0, ?h, ?t\<lparr>ht_n := ht_n t + 1\<rparr>)"
      using g(1,2) True dup tf C1(1) assms(3,4) table_slot [OF C1(2) p(1)] plane_size_ok [OF p(2)]
      by (simp add: htable_insert_internal_def pp j_def [symmetric] mem_simps)
    let ?t2 = "?t\<lparr>ht_n := ht_n t + 1\<rparr>" and ?C = "C1(p := (C1 p)(j := x # C1 p j))"
    have link: "table_ok hash ?h ?t ?C (all_slots t1)" "nodes_of ?C (all_slots t1) = insert x X"
      using link_ok [OF C1(2,1) assms(3,4)] C1(3) assms(5) unfolding p_def j_def by simp_all
    then have "table_ok hash ?h ?t2 ?C (all_slots ?t2)" "nodes_of ?C (all_slots ?t2) = insert x X"
      by simp_all
    moreover have "unat (ht_n ?t2) = card (insert x X)"
    proof -
      have "NULL \<notin> X" using holds_nodes(1) [OF C(1)] C(2) by auto
      then have "unat (ht_n t) + 1 < 2 ^ 64" using card_word_bound assms(4,5) n by simp
      then show ?thesis using n assms(5) unat_plus_size [of "ht_n t" 1] by simp
    qed
    moreover have "\<forall>y \<in> insert x X. \<forall>z \<in> insert x X. cmp y z = 0 \<longrightarrow> y = z"
      using uniq new assms(1) by (auto simp: keys_ok_def)
    ultimately have "htable_holds cmp hash ?h ?t2 (insert x X)" unfolding htable_holds_def by blast
    then show ?thesis using run by auto
  qed
qed

lemma insert_dup:
  assumes "keys_ok cmp hash" and "htable_holds cmp hash h t X" and "\<exists>y \<in> X. cmp x y = 0"
  shows "htable_insert r m h t x cmp hash = Some (- 1, h, t)"
proof -
  obtain C where C: "table_ok hash h t C (all_slots t)" "nodes_of C (all_slots t) = X"
    using assms(2) by (auto simp: htable_holds_def)
  obtain found where "htable_lookup_internal h t (hash x) x cmp = Some (Some found)"
    using lookup_holds [OF assms(1) C(1), of x] assms(3) unfolding C(2) by (auto split: option.splits)
  then show ?thesis by (simp add: htable_insert_def htable_insert_internal_def Let_def)
qed

text \<open>
  The number of planes once a removal has left \<open>n\<close> nodes in a table of \<open>p\<close> planes: below a quarter of the
  slots the last plane is merged into the one before it, and an empty table gives all of them back.
\<close>

definition planes_after :: "nat \<Rightarrow> nat \<Rightarrow> nat" where
  "planes_after n p =
     (if 59 * (2 ^ p - 1) div 4 \<le> n then p else if n = 0 then 0 else if p \<le> 1 then p else p - 1)"

lemma remove_holds:
  assumes "keys_ok cmp hash" and "htable_holds cmp hash h t X"
  shows "\<exists>x h' t'. htable_remove h t key cmp hash = Some (x, h', t') \<and>
    (if x = NULL then h' = h \<and> t' = t \<and> (\<forall>y \<in> X. cmp key y \<noteq> 0)
     else x \<in> X \<and> cmp key x = 0 \<and> htable_holds cmp hash h' t' (X - {x}) \<and>
       ht_n_planes t' = planes_after (card (X - {x})) (ht_n_planes t) \<and> h' x = h x \<and> (\<forall>y. y \<notin> X \<longrightarrow> h' y = h y))"
proof -
  obtain C where C: "table_ok hash h t C (all_slots t)" "nodes_of C (all_slots t) = X"
    and n: "unat (ht_n t) = card X" and uniq: "\<forall>x \<in> X. \<forall>y \<in> X. cmp x y = 0 \<longrightarrow> x = y"
    using assms(2) by (auto simp: htable_holds_def)
  obtain r where r: "htable_lookup_internal h t (hash key) key cmp = Some r"
    "case r of None \<Rightarrow> \<forall>x \<in> X. cmp key x \<noteq> 0
     | Some (ref, x) \<Rightarrow> x \<in> X \<and> cmp key x = 0 \<and>
         (\<exists>k < ht_n_planes t. found_at C (hash key) (\<lambda>x. cmp key x = 0) k ref x)"
    using lookup_holds [OF assms(1) C(1), of key] unfolding C(2) by blast
  show ?thesis
  proof (cases r)
    case None
    then show ?thesis using r by (auto simp: htable_remove_def)
  next
    case (Some found)
    then obtain ref x k ys zs where x: "r = Some (ref, x)" "x \<in> X" "cmp key x = 0" "k < ht_n_planes t"
      "C k (unat (hash key) mod psize k) = ys @ x # zs"
      "ref = (if ys = [] then Slot k (unat (hash key) mod psize k) else Link (last ys))"
      using r(2) by (cases found) (auto simp: found_at_def)
    define j where "j = unat (hash key) mod psize k"
    have x0: "x \<noteq> NULL" "h x \<noteq> None" using holds_nodes [OF C(1)] x(2) C(2) by auto
    then obtain nd where nd: "h x = Some nd" by auto
    have j: "j < psize k" by (simp add: j_def)
    define C1 where "C1 = C(k := (C k)(j := ys @ zs))"
    obtain h1 t1 where 1: "set_ref h t ref (ht_next nd) = Some (h1, t1)" "ht_n_planes t1 = ht_n_planes t"
      "ht_n t1 = ht_n t" "table_ok hash h1 t1 C1 (all_slots t1)" "nodes_of C1 (all_slots t1) = X - {x}"
      "h1 x = h x" "\<forall>y. y \<notin> X \<longrightarrow> h1 y = h y"
      using unlink_ok [OF C(1) x(4) x(5) [folded j_def] j nd x(6) [folded j_def]] C(2) by (auto simp: C1_def)
    let ?t = "t1\<lparr>ht_n := ht_n t1 - 1\<rparr>"
    have ok: "table_ok hash h1 ?t C1 (all_slots ?t)" "nodes_of C1 (all_slots ?t) = X - {x}"
      using 1(4,5) by simp_all
    have fin: "finite X" by simp
    then have "0 < card X" using x(2) by (auto simp: card_gt_0_iff)
    then have "unat (ht_n ?t) = card X - 1"
      using n 1(3) by (simp add: unat_sub word_le_nat_alt)
    then have count: "unat (ht_n ?t) = card (X - {x})" using x(2) by simp
    then have zero: "ht_n ?t = 0 \<longleftrightarrow> nodes_of C1 (all_slots ?t) = {}"
      unfolding ok(2) by (simp add: unat_eq_0 [symmetric] del: unat_eq_0)
    have "ht_n_planes ?t \<le> 25" using ok(1) by (simp add: table_ok_def)
    then obtain empty where e: "HTABLE_TOO_EMPTY ?t = Some empty"
      and empty: "empty \<longleftrightarrow> card (X - {x}) < 59 * (2 ^ ht_n_planes t - 1) div 4"
      using slot_count_ok [of ?t] count 1(2) by (simp add: HTABLE_TOO_EMPTY_def)
    obtain h2 t2 C2 where 2: "(if empty then htable_shrink h1 ?t else Some (h1, ?t)) = Some (h2, t2)"
      "ht_n t2 = ht_n ?t" "ht_n_planes t2 = planes_after (card (X - {x})) (ht_n_planes t)" "table_ok hash h2 t2 C2 (all_slots t2)"
      "nodes_of C2 (all_slots t2) = X - {x}" "\<forall>y. y \<notin> X - {x} \<longrightarrow> h2 y = h1 y"
    proof (cases empty)
      case True
      have n0: "(ht_n ?t = 0) = (card (X - {x}) = 0)" using count by (metis unat_eq_0)
      obtain h2 t2 C2 where s: "htable_shrink h1 ?t = Some (h2, t2)" "ht_n t2 = ht_n ?t"
        "ht_n_planes t2 = (if ht_n ?t = 0 then 0 else if ht_n_planes ?t \<le> 1 then ht_n_planes ?t else ht_n_planes ?t - 1)"
        "table_ok hash h2 t2 C2 (all_slots t2)" "nodes_of C2 (all_slots t2) = X - {x}" "\<forall>y. y \<notin> X - {x} \<longrightarrow> h2 y = h1 y"
        using shrink_ok [OF ok(1) zero] unfolding ok(2) by blast
      have "ht_n_planes t2 = planes_after (card (X - {x})) (ht_n_planes t)"
        unfolding s(3) n0 planes_after_def using True empty 1(2) by simp
      then show ?thesis using that [of h2 t2 C2] s(1,2,4-6) True by simp
    next
      case False
      then show ?thesis using that [of h1 ?t C1] ok 1(2) empty by (simp add: planes_after_def)
    qed
    have "htable_remove h t key cmp hash = Some (x, h2, t2)"
      using r(1) x(1) x0 nd 1(1) e 2(1) by (simp add: htable_remove_def mem_simps Let_def)
    moreover have "htable_holds cmp hash h2 t2 (X - {x})"
      unfolding htable_holds_def using 2(2,4,5) count uniq by auto
    ultimately show ?thesis using x x0 2(3,6) 1(6,7) by auto
  qed
qed

lemma fini_holds:
  assumes "htable_holds cmp hash h t X"
  shows "\<exists>dead h' t'. htable_fini True h t = Some (dead, h', t') \<and> distinct dead \<and> set dead = X \<and>
    t' = htable_init \<and> (\<forall>y. y \<notin> X \<longrightarrow> h' y = h y)"
proof -
  obtain C where C: "table_ok hash h t C (all_slots t)" "nodes_of C (all_slots t) = X"
    and n: "unat (ht_n t) = card X" using assms by (auto simp: htable_holds_def)
  show ?thesis
  proof (cases "ht_n t = 0")
    case True
    then have "X = {}" using n by simp
    then show ?thesis using True by (simp add: htable_fini_def htable_free_all_planes_def htable_init_def)
  next
    case False
    then have "0 < ht_n t" by (simp add: word_less_nat_alt unat_gt_0)
    then show ?thesis using fini_planes [OF C(1) le0, of "[]"] chains_distinct [OF C(1)] C(2)
      by (auto simp: htable_fini_def htable_free_all_planes_def htable_init_def)
  qed
qed

lemma init_holds: "htable_holds cmp hash h htable_init {}"
  by (auto simp: htable_holds_def htable_init_def table_ok_def all_slots_def nodes_of_def)


section \<open>Properties\<close>

text \<open>An example: two nodes in one slot of one plane, the key of a node being its address modulo 100.\<close>

definition example_cmp :: HTABLE_CMP_FUNC where
  "example_cmp x y = (if unat x mod 100 = unat y mod 100 then 0 else 1)"

definition example_hash :: HTABLE_HASH_FUNC where
  "example_hash x = of_nat (unat x mod 100)"

definition example_mem :: htable_mem where
  "example_mem = [1 \<mapsto> \<lparr>ht_next = 60\<rparr>, 60 \<mapsto> \<lparr>ht_next = 0\<rparr>, 5 \<mapsto> \<lparr>ht_next = 0\<rparr>]"

definition example_table :: HTABLE where
  "example_table = \<lparr>ht_planes = [(replicate 59 0)[1 := 1]], ht_n_planes = 1, ht_n = 2\<rparr>"

lemma example_keys: "keys_ok example_cmp example_hash"
  by (auto simp: keys_ok_def example_cmp_def example_hash_def split: if_splits)

lemma example_table_holds: "htable_holds example_cmp example_hash example_mem example_table {1, 60}"
  unfolding htable_holds_def
proof (intro conjI exI)
  let ?C = "\<lambda>i j. if i = 0 \<and> j = (1 :: nat) then [1, 60 :: addr] else []"
  show "table_ok example_hash example_mem example_table ?C (all_slots example_table)"
    by (simp add: table_ok_def all_slots_def example_table_def example_mem_def example_hash_def psize_def nth_list_update)
  show "nodes_of ?C (all_slots example_table) = {1, 60}"
    by (auto simp: nodes_of_def all_slots_def example_table_def psize_def split: if_splits)
qed (simp_all add: example_table_def example_cmp_def)



text \<open>
  C5. \<open>htable_remove\<close> takes exactly the node with the given key out of the table and returns it, and leaves the
  number of planes that \<open>planes_after\<close> says: when fewer nodes are left than a quarter of the slots (rounded
  down), the last plane is merged into the one before it, except that a single plane stays; when none is
  left, all planes are given back; otherwise they stay. Without such a node it returns \<open>NULL\<close> and changes
  nothing. Memory outside the table is not touched, and the removed node itself neither.
\<close>

theorem htable_remove_correct:
  assumes "keys_ok cmp hash" and "htable_holds cmp hash h t X"
  shows "\<exists>x h' t'. htable_remove h t key cmp hash = Some (x, h', t') \<and>
    (if x = NULL then h' = h \<and> t' = t \<and> (\<forall>y \<in> X. cmp key y \<noteq> 0)
     else x \<in> X \<and> cmp key x = 0 \<and> htable_holds cmp hash h' t' (X - {x}) \<and>
       ht_n_planes t' = planes_after (card (X - {x})) (ht_n_planes t) \<and> h' x = h x \<and> (\<forall>y. y \<notin> X \<longrightarrow> h' y = h y))"
  using assms by (rule remove_holds)

lemma htable_remove_correct_witness:
  "\<exists>h' t'. htable_remove example_mem example_table 160 example_cmp example_hash = Some (60, h', t') \<and>
    htable_holds example_cmp example_hash h' t' {1} \<and> ht_n_planes t' = 1 \<and> h' 5 = example_mem 5"
proof -
  obtain x h' t' where r: "htable_remove example_mem example_table 160 example_cmp example_hash = Some (x, h', t')"
    "if x = NULL then h' = example_mem \<and> t' = example_table \<and> (\<forall>y \<in> {1, 60}. example_cmp 160 y \<noteq> 0)
     else x \<in> {1, 60} \<and> example_cmp 160 x = 0 \<and> htable_holds example_cmp example_hash h' t' ({1, 60} - {x}) \<and>
       ht_n_planes t' = planes_after (card ({1, 60} - {x})) (ht_n_planes example_table) \<and> h' x = example_mem x \<and>
       (\<forall>y. y \<notin> {1, 60} \<longrightarrow> h' y = example_mem y)"
    using htable_remove_correct [OF example_keys example_table_holds, of 160] by blast
  have k: "example_cmp 160 60 = 0" "example_cmp 160 1 \<noteq> 0" by (simp_all add: example_cmp_def)
  then have x: "x = 60" using r(2) by (auto split: if_splits)
  have "{1, 60} - {60} = {1 :: addr}" by auto
  then show ?thesis using r unfolding x by (simp add: planes_after_def example_table_def)
qed

lemma lookup_effect:
  assumes "keys_ok cmp hash" and "htable_holds cmp hash h t X"
  shows "\<exists>x. htable_lookup h t key cmp hash = Some x \<and>
    (if x = NULL then \<forall>y \<in> X. cmp key y \<noteq> 0 else x \<in> X \<and> cmp key x = 0)"
proof -
  obtain C where C: "table_ok hash h t C (all_slots t)" "nodes_of C (all_slots t) = X"
    using assms(2) by (auto simp: htable_holds_def)
  obtain r where r: "htable_lookup_internal h t (hash key) key cmp = Some r"
    "case r of None \<Rightarrow> \<forall>x \<in> X. cmp key x \<noteq> 0 | Some (ref, x) \<Rightarrow> x \<in> X \<and> cmp key x = 0"
    using lookup_holds [OF assms(1) C(1), of key] unfolding C(2) by (auto split: option.splits)
  have "NULL \<notin> X" using holds_nodes(1) [OF C(1)] C(2) by auto
  then show ?thesis using r
    by (intro exI [of _ "case r of None \<Rightarrow> NULL | Some (_, x) \<Rightarrow> x"]) (auto simp: htable_lookup_def split: option.splits)
qed

text \<open>
  \<open>htable_lookup\<close> terminates and returns the one node with the given key, or \<open>NULL\<close> when there is
  none, wherever earlier growth has left the node; and the number of nodes is what the table counts.
\<close>

theorem htable_lookup_correct:
  assumes "keys_ok cmp hash" and "htable_holds cmp hash h t X"
  shows "(\<exists>x. htable_lookup h t key cmp hash = Some x \<and>
      (if x = NULL then \<forall>y \<in> X. cmp key y \<noteq> 0 else x \<in> X \<and> cmp key x = 0)) \<and>
    (x \<in> X \<longrightarrow> cmp x x = 0 \<longrightarrow> htable_lookup h t x cmp hash = Some x) \<and>
    unat (ht_n t) = card X \<and> (htable_is_empty t \<longleftrightarrow> X = {})"
proof (intro conjI impI)
  show "\<exists>x. htable_lookup h t key cmp hash = Some x \<and>
      (if x = NULL then \<forall>y \<in> X. cmp key y \<noteq> 0 else x \<in> X \<and> cmp key x = 0)"
    by (rule lookup_effect [OF assms])
  show n: "unat (ht_n t) = card X" using assms(2) by (simp add: htable_holds_def)
  then show "htable_is_empty t \<longleftrightarrow> X = {}" by (auto simp: htable_is_empty_def unat_eq_0 [symmetric] simp del: unat_eq_0)
  assume x: "x \<in> X" "cmp x x = 0"
  obtain y where y: "htable_lookup h t x cmp hash = Some y"
    "if y = NULL then \<forall>z \<in> X. cmp x z \<noteq> 0 else y \<in> X \<and> cmp x y = 0"
    using lookup_effect [OF assms, of x] by blast
  then have "y \<in> X" "cmp x y = 0" using x by (auto split: if_splits)
  then show "htable_lookup h t x cmp hash = Some x"
    using x(1) y(1) assms(2) by (auto simp: htable_holds_def)
qed

lemma htable_lookup_correct_witness:
  "(\<exists>x. htable_lookup example_mem example_table 160 example_cmp example_hash = Some x \<and>
      (if x = NULL then \<forall>y \<in> {1, 60}. example_cmp 160 y \<noteq> 0 else x \<in> {1, 60} \<and> example_cmp 160 x = 0)) \<and>
    htable_lookup example_mem example_table 60 example_cmp example_hash = Some 60 \<and>
    unat (ht_n example_table) = card {1, 60 :: addr} \<and> (htable_is_empty example_table \<longleftrightarrow> {1, 60 :: addr} = {})"
proof -
  have "60 \<in> {1, 60 :: addr}" "example_cmp 60 60 = 0" by (simp_all add: example_cmp_def)
  then show ?thesis
    using htable_lookup_correct [OF example_keys example_table_holds, of 160 60]
      htable_lookup_correct [OF example_keys example_table_holds, of 60 60] by blast
qed

text \<open>
  \<open>htable_fini\<close> gives every node of the table to the destructor exactly once, although the destructor
  frees it at once, and leaves an empty table without memory.
\<close>

theorem htable_fini_correct:
  assumes "htable_holds cmp hash h t X"
  shows "\<exists>dead h' t'. htable_fini True h t = Some (dead, h', t') \<and> distinct dead \<and> set dead = X \<and>
    t' = htable_init \<and> htable_holds cmp hash h' t' {} \<and> (\<forall>y. y \<notin> X \<longrightarrow> h' y = h y)"
  using fini_holds [OF assms] init_holds by blast

lemma htable_fini_correct_witness:
  "\<exists>dead h' t'. htable_fini True example_mem example_table = Some (dead, h', t') \<and> distinct dead \<and>
    set dead = {1, 60} \<and> t' = htable_init \<and> htable_holds example_cmp example_hash h' t' {} \<and>
    (\<forall>y. y \<notin> {1, 60} \<longrightarrow> h' y = example_mem y)"
  by (rule htable_fini_correct) (rule example_table_holds)

end
