(* ===== verification/Hash.thy ===== *)
theory Hash
  imports Bytes
begin

text \<open>
  \<open>hash/crc32.c\<close> and \<open>hash/fnv1a.c\<close>: the CRC-32 checksum with its precomputed table, and the
  two FNV-1a hash functions; with the contract they share, a fold of steps that lose nothing.
\<close>

section \<open>CRC-32\<close>

definition CRC32_POLY :: uint32 where "CRC32_POLY = 0xedb88320"
definition CRC32_INITXOR :: uint32 where "CRC32_INITXOR = 0xffffffff"
definition CRC32_FINALXOR :: uint32 where "CRC32_FINALXOR = 0xffffffff"

text \<open>The program that computed the table, kept in the source under \<open>#if 0\<close>.\<close>

definition crc32_bit :: "uint32 \<Rightarrow> uint32" where
  "crc32_bit c = (if c AND 1 \<noteq> 0 then drop_bit 1 c XOR CRC32_POLY else drop_bit 1 c)"

definition crc32_build_table :: "uint32 list" where
  "crc32_build_table = map (\<lambda>n. (crc32_bit ^^ 8) (of_nat n)) [0..<256]"

definition crc32_table :: "uint32 list" where
  "crc32_table =
     [0x00000000, 0x77073096, 0xee0e612c, 0x990951ba, 0x076dc419, 0x706af48f, 0xe963a535, 0x9e6495a3,
      0x0edb8832, 0x79dcb8a4, 0xe0d5e91e, 0x97d2d988, 0x09b64c2b, 0x7eb17cbd, 0xe7b82d07, 0x90bf1d91,
      0x1db71064, 0x6ab020f2, 0xf3b97148, 0x84be41de, 0x1adad47d, 0x6ddde4eb, 0xf4d4b551, 0x83d385c7,
      0x136c9856, 0x646ba8c0, 0xfd62f97a, 0x8a65c9ec, 0x14015c4f, 0x63066cd9, 0xfa0f3d63, 0x8d080df5,
      0x3b6e20c8, 0x4c69105e, 0xd56041e4, 0xa2677172, 0x3c03e4d1, 0x4b04d447, 0xd20d85fd, 0xa50ab56b,
      0x35b5a8fa, 0x42b2986c, 0xdbbbc9d6, 0xacbcf940, 0x32d86ce3, 0x45df5c75, 0xdcd60dcf, 0xabd13d59,
      0x26d930ac, 0x51de003a, 0xc8d75180, 0xbfd06116, 0x21b4f4b5, 0x56b3c423, 0xcfba9599, 0xb8bda50f,
      0x2802b89e, 0x5f058808, 0xc60cd9b2, 0xb10be924, 0x2f6f7c87, 0x58684c11, 0xc1611dab, 0xb6662d3d,
      0x76dc4190, 0x01db7106, 0x98d220bc, 0xefd5102a, 0x71b18589, 0x06b6b51f, 0x9fbfe4a5, 0xe8b8d433,
      0x7807c9a2, 0x0f00f934, 0x9609a88e, 0xe10e9818, 0x7f6a0dbb, 0x086d3d2d, 0x91646c97, 0xe6635c01,
      0x6b6b51f4, 0x1c6c6162, 0x856530d8, 0xf262004e, 0x6c0695ed, 0x1b01a57b, 0x8208f4c1, 0xf50fc457,
      0x65b0d9c6, 0x12b7e950, 0x8bbeb8ea, 0xfcb9887c, 0x62dd1ddf, 0x15da2d49, 0x8cd37cf3, 0xfbd44c65,
      0x4db26158, 0x3ab551ce, 0xa3bc0074, 0xd4bb30e2, 0x4adfa541, 0x3dd895d7, 0xa4d1c46d, 0xd3d6f4fb,
      0x4369e96a, 0x346ed9fc, 0xad678846, 0xda60b8d0, 0x44042d73, 0x33031de5, 0xaa0a4c5f, 0xdd0d7cc9,
      0x5005713c, 0x270241aa, 0xbe0b1010, 0xc90c2086, 0x5768b525, 0x206f85b3, 0xb966d409, 0xce61e49f,
      0x5edef90e, 0x29d9c998, 0xb0d09822, 0xc7d7a8b4, 0x59b33d17, 0x2eb40d81, 0xb7bd5c3b, 0xc0ba6cad,
      0xedb88320, 0x9abfb3b6, 0x03b6e20c, 0x74b1d29a, 0xead54739, 0x9dd277af, 0x04db2615, 0x73dc1683,
      0xe3630b12, 0x94643b84, 0x0d6d6a3e, 0x7a6a5aa8, 0xe40ecf0b, 0x9309ff9d, 0x0a00ae27, 0x7d079eb1,
      0xf00f9344, 0x8708a3d2, 0x1e01f268, 0x6906c2fe, 0xf762575d, 0x806567cb, 0x196c3671, 0x6e6b06e7,
      0xfed41b76, 0x89d32be0, 0x10da7a5a, 0x67dd4acc, 0xf9b9df6f, 0x8ebeeff9, 0x17b7be43, 0x60b08ed5,
      0xd6d6a3e8, 0xa1d1937e, 0x38d8c2c4, 0x4fdff252, 0xd1bb67f1, 0xa6bc5767, 0x3fb506dd, 0x48b2364b,
      0xd80d2bda, 0xaf0a1b4c, 0x36034af6, 0x41047a60, 0xdf60efc3, 0xa867df55, 0x316e8eef, 0x4669be79,
      0xcb61b38c, 0xbc66831a, 0x256fd2a0, 0x5268e236, 0xcc0c7795, 0xbb0b4703, 0x220216b9, 0x5505262f,
      0xc5ba3bbe, 0xb2bd0b28, 0x2bb45a92, 0x5cb36a04, 0xc2d7ffa7, 0xb5d0cf31, 0x2cd99e8b, 0x5bdeae1d,
      0x9b64c2b0, 0xec63f226, 0x756aa39c, 0x026d930a, 0x9c0906a9, 0xeb0e363f, 0x72076785, 0x05005713,
      0x95bf4a82, 0xe2b87a14, 0x7bb12bae, 0x0cb61b38, 0x92d28e9b, 0xe5d5be0d, 0x7cdcefb7, 0x0bdbdf21,
      0x86d3d2d4, 0xf1d4e242, 0x68ddb3f8, 0x1fda836e, 0x81be16cd, 0xf6b9265b, 0x6fb077e1, 0x18b74777,
      0x88085ae6, 0xff0f6a70, 0x66063bca, 0x11010b5c, 0x8f659eff, 0xf862ae69, 0x616bffd3, 0x166ccf45,
      0xa00ae278, 0xd70dd2ee, 0x4e048354, 0x3903b3c2, 0xa7672661, 0xd06016f7, 0x4969474d, 0x3e6e77db,
      0xaed16a4a, 0xd9d65adc, 0x40df0b66, 0x37d83bf0, 0xa9bcae53, 0xdebb9ec5, 0x47b2cf7f, 0x30b5ffe9,
      0xbdbdf21c, 0xcabac28a, 0x53b39330, 0x24b4a3a6, 0xbad03605, 0xcdd70693, 0x54de5729, 0x23d967bf,
      0xb3667a2e, 0xc4614ab8, 0x5d681b02, 0x2a6f2b94, 0xb40bbe37, 0xc30c8ea1, 0x5a05df1b, 0x2d02ef8d]"

text \<open>
  The loop over \<open>int i\<close>: the comparison with the \<open>size_t\<close> argument is unsigned, and the
  increment of the largest \<open>int\<close> is undefined.
\<close>

function crc32_loop :: "byte list \<Rightarrow> nat \<Rightarrow> nat \<Rightarrow> uint32 \<Rightarrow> uint32 option" where
  "crc32_loop bytes n i crcreg =
     (if i < n then do {
        b \<leftarrow> peek bytes i;
        t \<leftarrow> peek crc32_table (unat ((crcreg XOR ucast b) AND 0xff));
        if i < INT_MAX then crc32_loop bytes n (i + 1) (drop_bit 8 crcreg XOR t) else None
      }
      else Some crcreg)"
  by pat_completeness auto
termination
  by (relation "measure (\<lambda>(_, n, i, _). n - i)") auto

definition crc32 :: "byte list \<Rightarrow> size_t \<Rightarrow> uint32 option" where
  "crc32 data n = do {
     crcreg \<leftarrow> crc32_loop data (unat n) 0 CRC32_INITXOR;
     Some (crcreg XOR CRC32_FINALXOR)
   }"

section \<open>FNV-1a\<close>

definition FNV1A_BASE_32 :: uint32 where "FNV1A_BASE_32 = 2166136261"
definition FNV1A_BASE_64 :: uint64 where "FNV1A_BASE_64 = 14695981039346656037"
definition FNV1A_PRIME_32 :: uint32 where "FNV1A_PRIME_32 = 16777619"
definition FNV1A_PRIME_64 :: uint64 where "FNV1A_PRIME_64 = 1099511628211"

function fnv1a_32_loop :: "byte list \<Rightarrow> nat \<Rightarrow> nat \<Rightarrow> uint32 \<Rightarrow> uint32 option" where
  "fnv1a_32_loop bytes n i fnv1a =
     (if i < n then do {
        b \<leftarrow> peek bytes i;
        fnv1a_32_loop bytes n (i + 1) ((fnv1a XOR ucast b) * FNV1A_PRIME_32)
      }
      else Some fnv1a)"
  by pat_completeness auto
termination
  by (relation "measure (\<lambda>(_, n, i, _). n - i)") auto

definition fnv1a_32 :: "uint32 \<Rightarrow> byte list \<Rightarrow> size_t \<Rightarrow> uint32 option" where
  "fnv1a_32 fnv1a data n = fnv1a_32_loop data (unat n) 0 fnv1a"

function fnv1a_64_loop :: "byte list \<Rightarrow> nat \<Rightarrow> nat \<Rightarrow> uint64 \<Rightarrow> uint64 option" where
  "fnv1a_64_loop bytes n i fnv1a =
     (if i < n then do {
        b \<leftarrow> peek bytes i;
        fnv1a_64_loop bytes n (i + 1) ((fnv1a XOR ucast b) * FNV1A_PRIME_64)
      }
      else Some fnv1a)"
  by pat_completeness auto
termination
  by (relation "measure (\<lambda>(_, n, i, _). n - i)") auto

definition fnv1a_64 :: "uint64 \<Rightarrow> byte list \<Rightarrow> size_t \<Rightarrow> uint64 option" where
  "fnv1a_64 fnv1a data n = fnv1a_64_loop data (unat n) 0 fnv1a"

declare crc32_loop.simps [simp del] fnv1a_32_loop.simps [simp del] fnv1a_64_loop.simps [simp del]

section \<open>The contract of a byte-wise hash\<close>

text \<open>
  A hash is computed by one step for each byte; no step forgets anything of the state, and none
  of the byte.
\<close>

locale byte_hash =
  fixes step :: "'h \<Rightarrow> byte \<Rightarrow> 'h"
  assumes step_inj_state: "step h b = step h' b \<Longrightarrow> h = h'"
    and step_inj_byte: "step h b = step h b' \<Longrightarrow> b = b'"
begin

lemma foldl_inj: "foldl step h bs = foldl step h' bs \<longleftrightarrow> h = h'"
  by (induction bs arbitrary: h h') (auto dest: step_inj_state)

lemma common_suffix: "foldl step h (xs @ zs) = foldl step h' (ys @ zs) \<longleftrightarrow> foldl step h xs = foldl step h' ys"
  by (simp add: foldl_inj)

lemma one_byte_differs: "foldl step h (xs @ b # zs) = foldl step h (xs @ b' # zs) \<longleftrightarrow> b = b'"
  by (auto simp: foldl_inj dest: step_inj_byte)

end

section \<open>The checksum by bits\<close>


lemma crc32_bit_alt: "crc32_bit c = drop_bit 1 c XOR (if odd c then CRC32_POLY else 0)"
  by (simp add: crc32_bit_def and_one_eq odd_iff_mod_2_eq_one)

lemma bit_crc32_bit: "bit (crc32_bit c) i \<longleftrightarrow> (bit c (Suc i) \<noteq> (bit c 0 \<and> bit CRC32_POLY i))"
  by (auto simp: crc32_bit_alt bit_xor_iff bit_drop_bit_eq bit_0)

lemma crc32_bit_xor: "crc32_bit (a XOR b) = crc32_bit a XOR crc32_bit b"
  by (rule bit_word_eqI) (auto simp: bit_crc32_bit bit_xor_iff)

lemma crc32_bit_inj: "crc32_bit a = crc32_bit b \<Longrightarrow> a = b"
proof -
  assume eq: "crc32_bit a = crc32_bit b"
  have bits: "bit (crc32_bit a) i = bit (crc32_bit b) i" for i using eq by simp
  have top: "bit CRC32_POLY 31" by (simp add: CRC32_POLY_def)
  have z: "bit a 0 = bit b 0"
    using bits [of 31] top by (auto simp: bit_crc32_bit dest: bit_imp_le_length)
  have s: "bit a (Suc i) = bit b (Suc i)" for i
    using bits [of i] z by (auto simp: bit_crc32_bit)
  have "bit a i = bit b i" for i using z s by (cases i) auto
  then show "a = b" by (intro bit_eqI) simp
qed

lemma crc32_bits_xor: "(crc32_bit ^^ n) (a XOR b) = (crc32_bit ^^ n) a XOR (crc32_bit ^^ n) b"
  by (induction n) (simp_all add: crc32_bit_xor)

lemma crc32_bits_inj: "(crc32_bit ^^ n) a = (crc32_bit ^^ n) b \<longleftrightarrow> a = b"
  by (induction n) (auto dest: crc32_bit_inj)

text \<open>The table by doubling: each new power of two is combined with all entries so far.\<close>

definition doubled :: "uint32 \<Rightarrow> uint32 list \<Rightarrow> uint32 list" where
  "doubled c xs = xs @ map ((XOR) c) xs"

lemma crc32_table_doubled:
  assumes c: "(crc32_bit ^^ 8) (2 ^ k) = c" and k: "k < 32"
  shows "map (\<lambda>n. (crc32_bit ^^ 8) (of_nat n)) [0..<2 ^ Suc k] =
    doubled c (map (\<lambda>n. (crc32_bit ^^ 8) (of_nat n)) [0..<2 ^ k])"
proof -
  have x: "(of_nat n + 2 ^ k :: uint32) = 2 ^ k XOR of_nat n" if n: "n < 2 ^ k" for n
  proof -
    have "\<not> bit n k" using n by (simp add: bit_iff_odd)
    then have "of_nat n AND (2 ^ k :: uint32) = 0"
      by (simp add: and_exp_eq_0_iff_not_bit bit_of_nat_iff)
    then show ?thesis by (simp add: disjunctive_xor_eq_or disjunctive_add_eq_xor and.commute or.commute)
  qed
  have "[0..<2 ^ Suc k] = [0..<2 ^ k] @ map (\<lambda>n. n + 2 ^ k) [0..<2 ^ k]"
    using upt_add_eq_append [of 0 "2 ^ k" "2 ^ k"] map_add_upt [of "2 ^ k" "2 ^ k"] by (simp add: mult_2)
  then show ?thesis by (simp add: doubled_def x crc32_bits_xor c)
qed

lemma funpow_8: "(f ^^ 8) x = f (f (f (f (f (f (f (f x)))))))"
  by (simp add: numeral_eq_Suc)

lemma crc32_powers:
  "(crc32_bit ^^ 8) 0 = 0"
  "(crc32_bit ^^ 8) (2 ^ 0) = 0x77073096" "(crc32_bit ^^ 8) (2 ^ 1) = 0xee0e612c"
  "(crc32_bit ^^ 8) (2 ^ 2) = 0x076dc419" "(crc32_bit ^^ 8) (2 ^ 3) = 0x0edb8832"
  "(crc32_bit ^^ 8) (2 ^ 4) = 0x1db71064" "(crc32_bit ^^ 8) (2 ^ 5) = 0x3b6e20c8"
  "(crc32_bit ^^ 8) (2 ^ 6) = 0x76dc4190" "(crc32_bit ^^ 8) (2 ^ 7) = 0xedb88320"
  by (simp_all add: crc32_bit_def CRC32_POLY_def funpow_8)

lemma crc32_table_is: "crc32_table = crc32_build_table"
proof -
  have "crc32_build_table = doubled 0xedb88320 (doubled 0x76dc4190 (doubled 0x3b6e20c8
    (doubled 0x1db71064 (doubled 0x0edb8832 (doubled 0x076dc419 (doubled 0xee0e612c
    (doubled 0x77073096 [0])))))))"
    using crc32_powers(2-) [THEN crc32_table_doubled]
    by (simp add: crc32_build_table_def crc32_powers(1))
  also have "\<dots> = crc32_table" by (simp add: doubled_def crc32_table_def)
  finally show ?thesis by simp
qed

definition crc32_step :: "uint32 \<Rightarrow> byte \<Rightarrow> uint32" where
  "crc32_step reg b = (crc32_bit ^^ 8) (reg XOR ucast b)"

definition crc32_bitwise :: "byte list \<Rightarrow> uint32" where
  "crc32_bitwise bs = foldl crc32_step CRC32_INITXOR bs XOR CRC32_FINALXOR"

lemma crc32_bits_low_clear: "(\<And>i. i < n \<Longrightarrow> \<not> bit c i) \<Longrightarrow> (crc32_bit ^^ n) c = drop_bit n c"
proof (induction n)
  case (Suc n)
  have "\<not> bit (drop_bit n c) 0" using Suc.prems [of n] by (simp add: bit_drop_bit_eq)
  then have "crc32_bit (drop_bit n c) = drop_bit (Suc n) c"
    by (intro bit_word_eqI) (simp add: bit_crc32_bit bit_drop_bit_eq)
  with Suc show ?case by simp
qed simp

lemma crc32_bits_push: "(\<And>i. 24 \<le> i \<Longrightarrow> \<not> bit c i) \<Longrightarrow> (crc32_bit ^^ 8) (push_bit 8 c) = c"
  by (subst crc32_bits_low_clear)
    (auto simp: bit_push_bit_iff bit_drop_bit_eq not_le [symmetric] intro!: bit_word_eqI)

lemma and_ff: "x AND 0xff = take_bit 8 (x :: uint32)"
  by (simp add: take_bit_eq_mask mask_eq_exp_minus_1)

lemma crc32_bits_split: "(crc32_bit ^^ 8) c = drop_bit 8 c XOR (crc32_bit ^^ 8) (c AND 0xff)"
proof -
  have "c = push_bit 8 (drop_bit 8 c) XOR (c AND 0xff)"
    by (rule bit_word_eqI) (auto simp: bit_push_bit_iff bit_drop_bit_eq bit_xor_iff and_ff bit_take_bit_iff)
  also have "(crc32_bit ^^ 8) \<dots> = drop_bit 8 c XOR (crc32_bit ^^ 8) (c AND 0xff)"
    by (subst crc32_bits_xor, subst crc32_bits_push) (auto simp: bit_drop_bit_eq dest: bit_imp_le_length)
  finally show ?thesis .
qed

lemma crc32_table_nth: "i < 256 \<Longrightarrow> crc32_table ! i = (crc32_bit ^^ 8) (of_nat i)"
  by (subst crc32_table_is) (simp add: crc32_build_table_def)

lemma and_ff_less: "unat (x AND 0xff :: uint32) < 256"
  using take_bit_nat_less_exp [of 8 "unat x"] by (simp add: and_ff unsigned_take_bit_eq)

lemma drop_bit_ucast_byte [simp]: "drop_bit 8 (ucast (b :: byte) :: uint32) = 0"
  by (rule bit_word_eqI) (simp add: bit_drop_bit_eq bit_ucast_iff)

lemma crc32_step_table:
  "drop_bit 8 reg XOR crc32_table ! unat ((reg XOR ucast b) AND 0xff) = crc32_step reg b"
  using crc32_bits_split [of "reg XOR ucast b"]
  by (simp add: crc32_step_def crc32_table_nth and_ff_less drop_bit_xor)

lemma length_crc32_table: "length crc32_table = 256"
  by (simp add: crc32_table_is crc32_build_table_def)

lemma crc32_loop_runs:
  "n \<le> length bytes \<Longrightarrow> i \<le> n \<Longrightarrow> i \<le> INT_MAX \<Longrightarrow>
     crc32_loop bytes n i reg =
       (if n \<le> INT_MAX then Some (foldl crc32_step reg (drop i (take n bytes))) else None)"
proof (induction bytes n i reg rule: crc32_loop.induct)
  case (1 bytes n i reg)
  show ?case
  proof (cases "i < n")
    case True
    then have d: "drop i (take n bytes) = bytes ! i # drop (i + 1) (take n bytes)"
      using 1 by (simp add: Cons_nth_drop_Suc [symmetric] min_def)
    have "i < INT_MAX \<Longrightarrow> crc32_loop bytes n (i + 1)
        (drop_bit 8 reg XOR crc32_table ! unat ((reg XOR ucast (bytes ! i)) AND 0xff)) =
      (if n \<le> INT_MAX then Some (foldl crc32_step reg (drop i (take n bytes))) else None)"
      using True 1(2-) unfolding d
      by (subst 1(1) [OF True peek_in peek_in])
        (auto simp: length_crc32_table and_ff_less crc32_step_table)
    then show ?thesis using True 1(2-)
      by (subst crc32_loop.simps)
        (auto simp: mem_simps length_crc32_table and_ff_less crc32_step_table)
  qed (use 1 in \<open>subst crc32_loop.simps, auto\<close>)
qed



lemma xor_word_cancel:
  "x XOR y = x XOR z \<longleftrightarrow> y = (z :: 'w :: len word)" "y XOR x = z XOR x \<longleftrightarrow> y = z"
  by (metis xor.left_commute xor_self_eq xor.right_neutral xor.commute)+

lemma ucast_byte_inj:
  "(ucast b :: uint32) = ucast b' \<longleftrightarrow> b = b'" "(ucast b :: uint64) = ucast b' \<longleftrightarrow> b = (b' :: byte)"
proof -
  have "take_bit n (uint b) = uint b" if "8 \<le> n" for n and b :: byte
    using that uint_lt2p [of b] power_increasing [of 8 n "2 :: int"]
    by (simp add: take_bit_int_eq_self_iff)
  then show "(ucast b :: uint32) = ucast b' \<longleftrightarrow> b = b'" "(ucast b :: uint64) = ucast b' \<longleftrightarrow> b = b'"
    by (simp_all add: word_uint_eq_iff unsigned_ucast_eq)
qed

lemma drop_take_step:
  "i < n \<Longrightarrow> n \<le> length xs \<Longrightarrow> drop i (take n xs) = xs ! i # drop (Suc i) (take n xs)"
  by (simp add: Cons_nth_drop_Suc [symmetric] min_def)

text \<open>A run of up to four bytes as one little-endian word.\<close>

lemma le_word_high: "8 * length bs \<le> i \<Longrightarrow> \<not> bit (le_word bs :: uint32) i"
  by (auto simp: bit_le_word)

lemma le_word_inj:
  "length bs = length bs' \<Longrightarrow> length bs \<le> 4 \<Longrightarrow> (le_word bs :: uint32) = le_word bs' \<Longrightarrow> bs = bs'"
proof (induction bs bs' rule: list_induct2)
  case (Cons b bs b' bs')
  let ?u = "\<lambda>b :: byte. ucast b :: uint32"
  have bits: "bit (?u b XOR push_bit 8 (le_word bs)) i = bit (?u b' XOR push_bit 8 (le_word bs')) i" for i
    using Cons.prems by (simp flip: le_word_Cons_xor)
  have "b = b'"
    using bits [of 0] bits [of 1] bits [of 2] bits [of 3] bits [of 4] bits [of 5] bits [of 6] bits [of 7]
    by (intro byte_eqI) (simp_all add: bit_xor_iff bit_push_bit_iff bit_ucast_iff)
  moreover have "(le_word bs :: uint32) = le_word bs'"
  proof (rule bit_word_eqI)
    fix i assume "i < LENGTH(32)"
    show "bit (le_word bs :: uint32) i = bit (le_word bs' :: uint32) i"
    proof (cases "i < 24")
      case True
      then show ?thesis using bits [of "i + 8"]
        by (simp add: bit_xor_iff bit_push_bit_iff bit_ucast_iff)
    next
      case False
      then show ?thesis using Cons by (simp add: le_word_high)
    qed
  qed
  ultimately show ?case using Cons by simp
qed simp

lemma crc32_steps_word:
  "length bs \<le> 4 \<Longrightarrow> foldl crc32_step reg bs = (crc32_bit ^^ (8 * length bs)) (reg XOR le_word bs)"
proof (induction bs arbitrary: reg)
  case (Cons b bs)
  have w: "le_word bs = (crc32_bit ^^ 8) (push_bit 8 (le_word bs))"
    using Cons.prems by (intro crc32_bits_push [symmetric] le_word_high) simp
  have "foldl crc32_step reg (b # bs) = (crc32_bit ^^ (8 * length bs)) (crc32_step reg b XOR le_word bs)"
    using Cons by simp
  also have "crc32_step reg b XOR le_word bs = (crc32_bit ^^ 8) (reg XOR le_word (b # bs))"
    by (subst w) (simp add: crc32_step_def crc32_bits_xor xor.assoc le_word_Cons_xor del: le_word.simps)
  finally show ?case by (simp add: funpow_add [symmetric, THEN fun_cong, unfolded o_apply] add.commute)
qed simp

lemma crc32_steps_inj:
  assumes "length bs = length bs'" "length bs \<le> 4" "foldl crc32_step reg bs = foldl crc32_step reg bs'"
  shows "bs = bs'"
proof -
  have "reg XOR le_word bs = reg XOR le_word bs'"
    using assms by (simp add: crc32_steps_word crc32_bits_inj)
  then have "(le_word bs :: uint32) = le_word bs'" by (simp add: xor_word_cancel)
  with assms show ?thesis by (simp add: le_word_inj)
qed

interpretation crc: byte_hash crc32_step
proof
  show "h = h'" if "crc32_step h b = crc32_step h' b" for h h' b
    using that by (simp add: crc32_step_def crc32_bits_inj xor_word_cancel)
  show "b = b'" if "crc32_step h b = crc32_step h b'" for h b b'
    using crc32_steps_inj [of "[b]" "[b']" h] that by simp
qed

lemma crc32_is_bitwise:
  assumes "unat n \<le> length data"
  shows "crc32 data n = (if unat n \<le> INT_MAX then Some (crc32_bitwise (take (unat n) data)) else None)"
  using assms by (simp add: crc32_def crc32_loop_runs crc32_bitwise_def)

lemma crc32_whole:
  assumes "length bs \<le> INT_MAX"
  shows "crc32 bs (of_nat (length bs)) = Some (crc32_bitwise bs)"
  using assms by (simp add: crc32_is_bitwise INT_MAX_def)

section \<open>FNV-1a by steps\<close>

definition fnv32_step :: "uint32 \<Rightarrow> byte \<Rightarrow> uint32" where
  "fnv32_step h b = (h XOR ucast b) * FNV1A_PRIME_32"

definition fnv64_step :: "uint64 \<Rightarrow> byte \<Rightarrow> uint64" where
  "fnv64_step h b = (h XOR ucast b) * FNV1A_PRIME_64"

lemma fnv_loops_run:
  "n \<le> length bs \<Longrightarrow> fnv1a_32_loop bs n i h32 = Some (foldl fnv32_step h32 (drop i (take n bs)))"
  "n \<le> length bs \<Longrightarrow> fnv1a_64_loop bs n i h64 = Some (foldl fnv64_step h64 (drop i (take n bs)))"
proof -
  show "n \<le> length bs \<Longrightarrow> fnv1a_32_loop bs n i h32 = Some (foldl fnv32_step h32 (drop i (take n bs)))"
    by (induction bs n i h32 rule: fnv1a_32_loop.induct; subst fnv1a_32_loop.simps)
      (simp add: mem_simps fnv32_step_def drop_take_step)
  show "n \<le> length bs \<Longrightarrow> fnv1a_64_loop bs n i h64 = Some (foldl fnv64_step h64 (drop i (take n bs)))"
    by (induction bs n i h64 rule: fnv1a_64_loop.induct; subst fnv1a_64_loop.simps)
      (simp add: mem_simps fnv64_step_def drop_take_step)
qed

lemma fnv1a_folds:
  "unat n \<le> length bs \<Longrightarrow> fnv1a_32 h32 bs n = Some (foldl fnv32_step h32 (take (unat n) bs))"
  "unat n \<le> length bs \<Longrightarrow> fnv1a_64 h64 bs n = Some (foldl fnv64_step h64 (take (unat n) bs))"
  by (simp_all add: fnv1a_32_def fnv1a_64_def fnv_loops_run)

lemma FNV1A_PRIME_inverse:
  "FNV1A_PRIME_32 * 899433627 = 1" "FNV1A_PRIME_64 * 14886173955864302971 = 1"
  by (simp_all add: FNV1A_PRIME_32_def FNV1A_PRIME_64_def)

lemma times_inverse_inj: "p * q = 1 \<Longrightarrow> x * p = y * p \<longleftrightarrow> x = (y :: 'w :: len word)"
  by (metis mult.assoc mult.right_neutral)

interpretation fnv32: byte_hash fnv32_step
  by unfold_locales
    (auto simp: fnv32_step_def xor_word_cancel ucast_byte_inj times_inverse_inj [OF FNV1A_PRIME_inverse(1)])

interpretation fnv64: byte_hash fnv64_step
  by unfold_locales
    (auto simp: fnv64_step_def xor_word_cancel ucast_byte_inj times_inverse_inj [OF FNV1A_PRIME_inverse(2)])


section \<open>Properties\<close>

text \<open>
  C8. \<open>crc32\<close> with its table is the bit-by-bit CRC-32 of the reflected polynomial over the first
  \<open>n\<close> bytes, for every \<open>n\<close> up to \<open>INT_MAX\<close>; and for a larger \<open>n\<close> the \<open>int\<close> counter of its loop
  overflows, which is undefined behaviour. (The table itself is what the program of the comment
  above it computes: \<open>crc32_table_is\<close>.)
\<close>

theorem crc32_correct:
  assumes "unat n \<le> length data"
  shows "crc32 data n = (if unat n \<le> INT_MAX
           then Some (foldl (\<lambda>reg b. (crc32_bit ^^ 8) (reg XOR ucast b)) CRC32_INITXOR (take (unat n) data)
                        XOR CRC32_FINALXOR)
           else None)"
  using crc32_is_bitwise [OF assms] by (simp add: crc32_bitwise_def crc32_step_def [abs_def])

lemma crc32_correct_witness: "crc32 (bytes_of ''123456789'') 9 = Some 0xcbf43926"
proof -
  have bs: "bytes_of ''123456789'' = [49, 50, 51, 52, 53, 54, 55, 56, 57]"
    by (simp add: bytes_of_def of_char_of)
  have "foldl crc32_step CRC32_INITXOR [49, 50, 51, 52, 53, 54, 55, 56, 57] = 0x340bc6d9"
    by (simp add: crc32_step_def funpow_8 crc32_bit_def CRC32_POLY_def CRC32_INITXOR_def)
  then show ?thesis
    using crc32_correct [of 9 "bytes_of ''123456789''"]
    by (simp add: bs INT_MAX_def CRC32_FINALXOR_def crc32_step_def [abs_def, symmetric])
qed

text \<open>
  C19. The checksum detects every error burst confined to four consecutive bytes: two messages that
  differ only there have different checksums.
\<close>

theorem crc32_detects_bursts:
  assumes "length ws = length ws'" and "length ws \<le> 4" and "ws \<noteq> ws'"
    and "length (xs @ ws @ zs) \<le> INT_MAX"
  shows "crc32 (xs @ ws @ zs) (of_nat (length (xs @ ws @ zs))) \<noteq>
         crc32 (xs @ ws' @ zs) (of_nat (length (xs @ ws @ zs)))"
proof -
  have "length (xs @ ws' @ zs) = length (xs @ ws @ zs)" using assms by simp
  then have "crc32 (xs @ ws @ zs) (of_nat (length (xs @ ws @ zs))) = Some (crc32_bitwise (xs @ ws @ zs))"
    and "crc32 (xs @ ws' @ zs) (of_nat (length (xs @ ws @ zs))) = Some (crc32_bitwise (xs @ ws' @ zs))"
    using assms(4) crc32_whole [of "xs @ ws @ zs"] crc32_whole [of "xs @ ws' @ zs"] by metis+
  moreover have "crc32_bitwise (xs @ ws @ zs) \<noteq> crc32_bitwise (xs @ ws' @ zs)"
    using assms(1-3) crc32_steps_inj [of ws ws']
    by (auto simp: crc32_bitwise_def xor_word_cancel crc.foldl_inj)
  ultimately show ?thesis by simp
qed

lemma crc32_detects_bursts_witness:
  "crc32 ([1] @ [2, 3] @ [4]) (of_nat (length ([1 :: byte] @ [2, 3] @ [4 :: byte]))) \<noteq>
   crc32 ([1] @ [3, 2] @ [4]) (of_nat (length ([1 :: byte] @ [2, 3] @ [4 :: byte])))"
  by (rule crc32_detects_bursts) (simp_all add: INT_MAX_def)

text \<open>
  Both FNV-1a functions can be computed piecewise: hashing a message and then its continuation
  from the first hash gives the hash of the whole.
\<close>

theorem fnv1a_chains:
  assumes "unat m = length as" and "unat n = length bs" and "length as + length bs < 2 ^ 64"
  shows "Option.bind (fnv1a_32 h as m) (\<lambda>h'. fnv1a_32 h' bs n) = fnv1a_32 h (as @ bs) (m + n) \<and>
         Option.bind (fnv1a_64 k as m) (\<lambda>k'. fnv1a_64 k' bs n) = fnv1a_64 k (as @ bs) (m + n)"
  using assms by (simp add: fnv1a_folds unat_plus_size)

lemma fnv1a_chains_witness:
  "Option.bind (fnv1a_32 FNV1A_BASE_32 [1, 2] 2) (\<lambda>h'. fnv1a_32 h' [3] 1) =
     fnv1a_32 FNV1A_BASE_32 ([1, 2] @ [3]) (2 + 1) \<and>
   Option.bind (fnv1a_64 FNV1A_BASE_64 [1, 2] 2) (\<lambda>k'. fnv1a_64 k' [3] 1) =
     fnv1a_64 FNV1A_BASE_64 ([1, 2] @ [3]) (2 + 1)"
  by (rule fnv1a_chains) simp_all

text \<open>
  No FNV-1a step loses anything: the hash of a message is an injective function of the start
  value, and of each single byte of the message, in both widths.
\<close>

theorem fnv1a_separates:
  assumes "unat n = length (xs @ b # zs)"
  shows "(fnv1a_32 h (xs @ b # zs) n = fnv1a_32 h' (xs @ b # zs) n \<longleftrightarrow> h = h') \<and>
         (fnv1a_64 k (xs @ b # zs) n = fnv1a_64 k' (xs @ b # zs) n \<longleftrightarrow> k = k') \<and>
         (fnv1a_32 h (xs @ b # zs) n = fnv1a_32 h (xs @ b' # zs) n \<longleftrightarrow> b = b') \<and>
         (fnv1a_64 k (xs @ b # zs) n = fnv1a_64 k (xs @ b' # zs) n \<longleftrightarrow> b = b')"
  using assms fnv32.foldl_inj [of h "xs @ b # zs" h'] fnv64.foldl_inj [of k "xs @ b # zs" k']
    fnv32.one_byte_differs [of h xs b zs b'] fnv64.one_byte_differs [of k xs b zs b']
  by (simp add: fnv1a_folds del: foldl_append)

lemma fnv1a_separates_witness:
  "(fnv1a_32 0 ([1] @ 2 # [3]) 3 = fnv1a_32 1 ([1] @ 2 # [3]) 3 \<longleftrightarrow> (0 :: uint32) = 1) \<and>
   (fnv1a_64 0 ([1] @ 2 # [3]) 3 = fnv1a_64 1 ([1] @ 2 # [3]) 3 \<longleftrightarrow> (0 :: uint64) = 1) \<and>
   (fnv1a_32 0 ([1] @ 2 # [3]) 3 = fnv1a_32 0 ([1] @ 5 # [3]) 3 \<longleftrightarrow> (2 :: byte) = 5) \<and>
   (fnv1a_64 0 ([1] @ 2 # [3]) 3 = fnv1a_64 0 ([1] @ 5 # [3]) 3 \<longleftrightarrow> (2 :: byte) = 5)"
  by (rule fnv1a_separates) simp

end
