(* ===== verification/Containers.thy ===== *)
theory Containers
  imports Rbtree_Set Htable_Set Hash
begin

text \<open>
  The hash table provides the same contract as the red-black tree; so the two containers, used with
  the same keys, answer every sequence of requests alike as long as the table gets its memory.
\<close>

section \<open>The hash table as a container of nodes with unique keys\<close>

text \<open>The caller's hash function: FNV-1a of the key that the node carries.\<close>

definition node_hash :: "(addr \<Rightarrow> byte list) \<Rightarrow> addr \<Rightarrow> uint32" where
  "node_hash key x = the (fnv1a_32 FNV1A_BASE_32 (key x) (of_nat (length (key x))))"

lemma node_keys_ok: "keys_ok (node_cmp key) (node_hash key)"
  by (simp add: keys_ok_def node_cmp_zero node_hash_def)

definition table_inv :: "(addr \<Rightarrow> byte list) \<Rightarrow> htable_mem \<times> HTABLE \<Rightarrow> addr set \<Rightarrow> bool" where
  "table_inv key s X \<longleftrightarrow> htable_holds (node_cmp key) (node_hash key) (fst s) (snd s) X"

definition table_node :: "htable_mem \<times> HTABLE \<Rightarrow> addr \<Rightarrow> bool" where
  "table_node s x \<longleftrightarrow> x \<noteq> NULL \<and> x \<in> dom (fst s)"

text \<open>Insertion with memory at hand: neither of the allocations for a new plane is refused.\<close>

definition table_put :: "(addr \<Rightarrow> byte list) \<Rightarrow> htable_mem \<times> HTABLE \<Rightarrow> addr \<Rightarrow> (int \<times> htable_mem \<times> HTABLE) option" where
  "table_put key s x = htable_insert True True (fst s) (snd s) x (node_cmp key) (node_hash key)"

definition table_take :: "(addr \<Rightarrow> byte list) \<Rightarrow> htable_mem \<times> HTABLE \<Rightarrow> addr \<Rightarrow> (addr \<times> htable_mem \<times> HTABLE) option" where
  "table_take key s k = htable_remove (fst s) (snd s) k (node_cmp key) (node_hash key)"

definition table_get :: "(addr \<Rightarrow> byte list) \<Rightarrow> htable_mem \<times> HTABLE \<Rightarrow> addr \<Rightarrow> addr option" where
  "table_get key s k = htable_lookup (fst s) (snd s) k (node_cmp key) (node_hash key)"

lemma table_inv_node: "table_inv key s X \<Longrightarrow> x \<in> X \<Longrightarrow> table_node s x"
  by (auto simp: table_inv_def htable_holds_def table_node_def dest: holds_nodes)

lemma table_put_node:
  "table_inv key s' Y \<Longrightarrow> \<forall>y. y \<notin> Y \<longrightarrow> fst s' y = fst s y \<Longrightarrow> table_node s y \<Longrightarrow> table_node s' y"
  by (cases "y \<in> Y") (auto simp: table_node_def domIff dest: table_inv_node)

interpretation table_set: intrusive_set "\<lambda>k x. node_cmp key k x = 0" "table_inv key" table_node htable_max
  "table_put key" "table_take key" "table_get key" for key
proof (unfold_locales, goal_cases)
  case (1 s X)
  then show ?case by (auto simp: table_node_def dest: table_inv_node)
next
  case (2 s X x y k)
  then show ?case by (auto simp: table_inv_def htable_holds_def node_cmp_zero)
next
  case (3 s X x)
  then obtain nd where inv: "htable_holds (node_cmp key) (node_hash key) (fst s) (snd s) X"
    and nd: "fst s x = Some nd" "x \<noteq> NULL" by (auto simp: table_inv_def table_node_def)
  show ?case
  proof (cases "\<exists>y \<in> X. node_cmp key x y = 0")
    case True
    then show ?thesis using insert_dup [OF node_keys_ok inv True, of True True] by (simp add: table_put_def)
  next
    case False
    obtain res h' t' where "table_put key s x = Some (res, h', t')"
      "if res = 0 then htable_holds (node_cmp key) (node_hash key) h' t' (insert x X) \<and>
         (\<forall>y. y \<notin> insert x X \<longrightarrow> h' y = fst s y) else False"
      using insert_holds [OF node_keys_ok inv nd 3(3,4), of True True False] False
      unfolding table_put_def htable_insert_def by (auto split: if_splits)
    then show ?thesis using False 3(2) table_put_node [of key "(h', t')" "insert x X" s]
      by (auto simp: table_inv_def split: if_splits)
  qed
next
  case (4 s X k)
  then have inv: "htable_holds (node_cmp key) (node_hash key) (fst s) (snd s) X" by (simp add: table_inv_def)
  obtain x h' t' where rm: "table_take key s k = Some (x, h', t')"
    "if x = NULL then h' = fst s \<and> t' = snd s \<and> (\<forall>y \<in> X. node_cmp key k y \<noteq> 0)
     else x \<in> X \<and> node_cmp key k x = 0 \<and> htable_holds (node_cmp key) (node_hash key) h' t' (X - {x}) \<and>
       ht_n_planes t' = planes_after (card (X - {x})) (ht_n_planes (snd s)) \<and> h' x = fst s x \<and> (\<forall>y. y \<notin> X \<longrightarrow> h' y = fst s y)"
    using remove_holds [OF node_keys_ok inv, of k] unfolding table_take_def by blast
  have node: "table_node (h', t') y" if "table_node s y" "x \<noteq> NULL" for y
  proof (cases "y \<in> X - {x}")
    case True
    then show ?thesis using rm(2) that(2) by (intro table_inv_node [of key _ "X - {x}"]) (auto simp: table_inv_def)
  next
    case False
    then show ?thesis using rm(2) that by (cases "y = x") (auto simp: table_node_def domIff)
  qed
  show ?case
  proof (cases "x = NULL")
    case True
    then show ?thesis using rm by (cases s) auto
  next
    case False
    then show ?thesis using rm node by (auto simp: table_inv_def)
  qed
next
  case (5 s X k)
  then have "htable_holds (node_cmp key) (node_hash key) (fst s) (snd s) X" by (simp add: table_inv_def)
  from lookup_effect [OF node_keys_ok this, of k] show ?case
    unfolding table_get_def by (auto split: if_splits)
qed

section \<open>The two containers together\<close>

lemma requests_room: "requests_ok eq room A X qs \<Longrightarrow> room \<le> room' \<Longrightarrow> requests_ok eq room' A X qs"
  by (induction qs arbitrary: X) (auto split: request.splits)

lemma tree_inv_init: "tree_inv key (rbtree_init S) {}"
  by (auto simp: tree_inv_def rbtree_holds_def rbtree_init_def ordered_def rep_def is_rb_def intro!: exI [of _ "[]"] exI [of _ Leaf])

lemma table_inv_init: "table_inv key (h, htable_init) {}"
  by (simp add: table_inv_def init_holds)

lemma node_cmp_key: "(\<lambda>k x. node_cmp key k x = 0) = (\<lambda>k x. key k = key x)"
  by (simp add: node_cmp_zero)

text \<open>
  C3. A red-black tree and a hash table, both empty at first, give the same answers to every sequence of
  insertions, removals and lookups of nodes with keys, and these answers are those of a set of nodes
  with different keys, under three conditions: no allocation of the hash table is refused (a refused one
  makes \<open>htable_insert\<close> return \<open>-1\<close> where the tree, which allocates nothing, succeeds); a node that is
  inserted is one of the allocated nodes and outside, though it may have been inside before; and an
  insertion finds fewer than \<open>59 * (2 ^ 25 - 1)\<close> nodes inside, up to which the sizes of the table fit an \<open>int\<close>.
\<close>

theorem containers_agree:
  assumes "\<forall>x \<in> A. tree_node S x \<and> table_node (h, t) x"
    and "requests_ok (\<lambda>k x. key k = key x) (59 * (2 ^ 25 - 1)) A {} qs"
  defines "cmp \<equiv> node_cmp key" and "hash \<equiv> node_hash key"
    and "as \<equiv> fst (spec_run (\<lambda>k x. key k = key x) {} qs)" and "X \<equiv> snd (spec_run (\<lambda>k x. key k = key x) {} qs)"
  shows "\<exists>S' h' t'.
    serve (\<lambda>S x. rbtree_insert S x cmp) (\<lambda>S k. rbtree_remove S k cmp) (\<lambda>S k. rbtree_lookup S k cmp) (rbtree_init S) qs =
      Some (as, S') \<and>
    serve (\<lambda>(h, t) x. htable_insert True True h t x cmp hash) (\<lambda>(h, t) k. htable_remove h t k cmp hash)
      (\<lambda>(h, t) k. htable_lookup h t k cmp hash) (h, htable_init) qs = Some (as, h', t') \<and>
    tree_inv key S' X \<and> table_inv key (h', t') X"
proof -
  have tree: "\<forall>x \<in> A. tree_node (rbtree_init S) x" and table: "\<forall>x \<in> A. table_node (h, htable_init) x"
    using assms(1) by (auto simp: tree_node_def table_node_def rbtree_init_def)
  have room: "requests_ok (\<lambda>k x. node_cmp key k x = 0) htable_max A {} qs"
    "requests_ok (\<lambda>k x. node_cmp key k x = 0) (2 ^ 64) A {} qs"
    using assms(2) requests_room [OF assms(2), of "2 ^ 64"] by (simp_all add: node_cmp_key htable_max_def)
  have ops: "(\<lambda>(h, t) x. htable_insert True True h t x cmp hash) = table_put key"
    "(\<lambda>(h, t) k. htable_remove h t k cmp hash) = table_take key" "(\<lambda>(h, t) k. htable_lookup h t k cmp hash) = table_get key"
    by (auto simp: fun_eq_iff table_put_def table_take_def table_get_def cmp_def hash_def)
  show ?thesis
    using tree_set.serve_is_spec [OF tree_inv_init tree room(2)]
      table_set.serve_is_spec [OF table_inv_init table room(1)]
    unfolding node_cmp_key ops unfolding cmp_def as_def X_def by auto
qed

lemma containers_agree_witness:
  "let cmp = node_cmp (\<lambda>x. [ucast x]); hash = node_hash (\<lambda>x. [ucast x]);
       qs = [Put 2, Put 258, Get 258, Take 258, Put 258, Put 4]; as = [Inl 0, Inl (- 1), Inr 2, Inr 2, Inl 0, Inl 0] in
   \<exists>S' h' t'.
    serve (\<lambda>S x. rbtree_insert S x cmp) (\<lambda>S k. rbtree_remove S k cmp) (\<lambda>S k. rbtree_lookup S k cmp)
      (rbtree_init \<lparr>nodes = (\<lambda>x. if x \<in> {2, 4, 258} then Some (RBTREE_NODE.make 0 0) else None), root = 0\<rparr>) qs = Some (as, S') \<and>
    serve (\<lambda>(h, t) x. htable_insert True True h t x cmp hash) (\<lambda>(h, t) k. htable_remove h t k cmp hash)
      (\<lambda>(h, t) k. htable_lookup h t k cmp hash)
      ((\<lambda>x. if x \<in> {2, 4, 258} then Some (HTABLE_NODE.make 0) else None), htable_init) qs = Some (as, h', t')"
proof -
  have run: "spec_run (\<lambda>k x. [ucast k :: byte] = [ucast x]) {} [Put 2, Put 258, Get 258, Take 258, Put 258, Put 4] =
      ([Inl 0, Inl (- 1), Inr 2, Inr 2, Inl 0, Inl 0], {258, 4})"
    by code_simp
  have nodes: "\<forall>x \<in> {2, 4, 258}.
      tree_node \<lparr>nodes = (\<lambda>x. if x \<in> {2, 4, 258} then Some (RBTREE_NODE.make 0 0) else None), root = 0\<rparr> x \<and>
      table_node ((\<lambda>x. if x \<in> {2, 4, 258} then Some (HTABLE_NODE.make 0) else None), htable_init) x"
    by (simp add: tree_node_def table_node_def domIff)
  have "requests_ok (\<lambda>k x. [ucast k :: byte] = [ucast x]) 2 {2, 4, 258} {}
      [Put 2, Put 258, Get 258, Take 258, Put 258, Put 4]"
    by code_simp
  then have ok: "requests_ok (\<lambda>k x. [ucast k :: byte] = [ucast x]) (59 * (2 ^ 25 - 1)) {2, 4, 258} {}
      [Put 2, Put 258, Get 258, Take 258, Put 258, Put 4]"
    by (rule requests_room) simp
  show ?thesis using containers_agree [OF nodes ok, unfolded run fst_conv snd_conv] unfolding Let_def by blast
qed

end
