(* ===== verification/Memchunk.thy ===== *)
theory Memchunk
  imports CRE_Prelude
begin

text \<open>
  \<open>mem/memchunk.c\<close>: the chunk allocator, many small allocations out of a list of larger blocks. The
  memory is that of the live \<open>malloc\<close> blocks that begin with a \<open>MEMCHUNK_BLOCK\<close>; what is proved is that
  every reachable allocator has handed out disjoint pieces of live memory, and that the final
  clean-up gives all of it back.
\<close>

section \<open>Data\<close>

text \<open>A block: its header, and the number of bytes for which \<open>malloc\<close> was asked.\<close>

record MEMCHUNK_BLOCK =
  mb_next :: addr
  mb_len :: nat

type_synonym chunk_mem = "addr \<rightharpoonup> MEMCHUNK_BLOCK"

record MEMCHUNK =
  mc_head :: addr
  mc_block_size :: size_t
  mc_free_off :: size_t

definition MEMCHUNK_DEFAULT_BLOCK_SIZE :: size_t where
  "MEMCHUNK_DEFAULT_BLOCK_SIZE = 1024"

text \<open>The size of the header.\<close>

abbreviation sizeof_block :: size_t where
  "sizeof_block \<equiv> 8"

section \<open>Operations\<close>

definition MEMCHUNK_INITIALIZER :: "size_t \<Rightarrow> MEMCHUNK" where
  "MEMCHUNK_INITIALIZER block_size =
     \<lparr>mc_head = NULL, mc_block_size = (if block_size = 0 then MEMCHUNK_DEFAULT_BLOCK_SIZE else block_size), mc_free_off = 0\<rparr>"

definition memchunk_init :: "size_t \<Rightarrow> MEMCHUNK" where
  "memchunk_init block_size =
     (let block_size = (if block_size = 0 then MEMCHUNK_DEFAULT_BLOCK_SIZE else block_size) in
      \<lparr>mc_head = NULL, mc_block_size = block_size, mc_free_off = block_size\<rparr>)"

text \<open>
  The allocation itself, from the head block; the address must not leave that block. \<open>malloc\<close> is the
  answer of the C library to a request of so many bytes.
\<close>

definition memchunk_serve :: "chunk_mem \<Rightarrow> MEMCHUNK \<Rightarrow> size_t \<Rightarrow> (addr \<times> chunk_mem \<times> MEMCHUNK) option" where
  "memchunk_serve h chunk n = do {
     head \<leftarrow> load h (mc_head chunk);
     if mb_len head < 8 + unat (mc_free_off chunk) then None
     else Some (mc_head chunk + sizeof_block + mc_free_off chunk, h, chunk\<lparr>mc_free_off := mc_free_off chunk + n\<rparr>)
   }"

definition memchunk_alloc ::
    "(size_t \<Rightarrow> addr) \<Rightarrow> chunk_mem \<Rightarrow> MEMCHUNK \<Rightarrow> size_t \<Rightarrow> (addr \<times> chunk_mem \<times> MEMCHUNK) option" where
  "memchunk_alloc malloc h chunk n =
     (if mc_head chunk = NULL \<or> mc_free_off chunk + n > mc_block_size chunk then
        if 4 * n > mc_block_size chunk then do {
          let block = malloc (sizeof_block + n);
          if block = NULL then Some (NULL, h, chunk)
          else if mc_head chunk \<noteq> NULL then do {
            head \<leftarrow> load h (mc_head chunk);
            let h = h(block \<mapsto> \<lparr>mb_next = mb_next head, mb_len = unat (sizeof_block + n)\<rparr>);
            h \<leftarrow> modify h (mc_head chunk) (mb_next_update (\<lambda>_. block));
            Some (block + sizeof_block, h, chunk)
          }
          else Some (block + sizeof_block, h(block \<mapsto> \<lparr>mb_next = NULL, mb_len = unat (sizeof_block + n)\<rparr>),
                     chunk\<lparr>mc_head := block, mc_free_off := mc_block_size chunk\<rparr>)
        }
        else do {
          let block = malloc (sizeof_block + mc_block_size chunk);
          if block = NULL then Some (NULL, h, chunk)
          else memchunk_serve
                 (h(block \<mapsto> \<lparr>mb_next = mc_head chunk, mb_len = unat (sizeof_block + mc_block_size chunk)\<rparr>))
                 (chunk\<lparr>mc_head := block, mc_free_off := 0\<rparr>) n
        }
      else memchunk_serve h chunk n)"

partial_function (option) memchunk_fini :: "chunk_mem \<Rightarrow> MEMCHUNK \<Rightarrow> (chunk_mem \<times> MEMCHUNK) option" where
  "memchunk_fini h chunk =
     (if mc_head chunk \<noteq> NULL then do {
        block \<leftarrow> load h (mc_head chunk);
        memchunk_fini (h(mc_head chunk := None)) (chunk\<lparr>mc_head := mb_next block\<rparr>)
      }
      else Some (h, chunk))"

section \<open>The heap and its blocks\<close>

definition region :: "addr \<Rightarrow> nat \<Rightarrow> nat set" where
  "region p n = {unat p ..< unat p + n}"

definition heap_ok :: "chunk_mem \<Rightarrow> bool" where
  "heap_ok h \<longleftrightarrow>
     (\<forall>b x. h b = Some x \<longrightarrow> b \<noteq> NULL \<and> unat b + mb_len x \<le> 2 ^ 64) \<and>
     (\<forall>b b' x x'. h b = Some x \<longrightarrow> h b' = Some x' \<longrightarrow> b \<noteq> b' \<longrightarrow> region b (mb_len x) \<inter> region b' (mb_len x') = {})"

text \<open>What \<open>malloc\<close> promises: \<open>NULL\<close>, or a block that overlaps no live one.\<close>

definition fresh :: "chunk_mem \<Rightarrow> addr \<Rightarrow> nat \<Rightarrow> bool" where
  "fresh h p n \<longleftrightarrow> p \<noteq> NULL \<and> h p = None \<and> unat p + n \<le> 2 ^ 64 \<and>
     (\<forall>b x. h b = Some x \<longrightarrow> region b (mb_len x) \<inter> region p n = {})"

definition malloc_ok :: "chunk_mem \<Rightarrow> (size_t \<Rightarrow> addr) \<Rightarrow> bool" where
  "malloc_ok h malloc \<longleftrightarrow> (\<forall>n. malloc n = NULL \<or> fresh h (malloc n) (unat n))"

fun block_chain :: "chunk_mem \<Rightarrow> addr \<Rightarrow> addr list \<Rightarrow> bool" where
  "block_chain h p [] \<longleftrightarrow> p = NULL"
| "block_chain h p (b # bs) \<longleftrightarrow> p = b \<and> b \<noteq> NULL \<and> (\<exists>x. h b = Some x \<and> block_chain h (mb_next x) bs)"

lemma heap_ok_fresh: "heap_ok h \<Longrightarrow> fresh h p n \<Longrightarrow> mb_len x = n \<Longrightarrow> heap_ok (h(p \<mapsto> x))"
  unfolding heap_ok_def fresh_def by (auto simp: Int_commute)

lemma heap_ok_next: "heap_ok h \<Longrightarrow> h p = Some x \<Longrightarrow> heap_ok (h(p \<mapsto> x\<lparr>mb_next := q\<rparr>))"
  unfolding heap_ok_def by (auto split: if_splits)

lemma block_chain_other: "p \<notin> set bs \<Longrightarrow> block_chain (h(p := v)) q bs = block_chain h q bs"
  by (induction bs arbitrary: q) auto

section \<open>The invariant\<close>

text \<open>
  \<open>bs\<close> are the blocks of the allocator, \<open>A\<close> the pieces handed out. The rest of the heap is as at the
  beginning (\<open>h0\<close>). A head block that still serves has the standard length and its free part is beyond
  \<open>free_off\<close>; a special block at the head is never used again.
\<close>

definition list_inv :: "chunk_mem \<Rightarrow> chunk_mem \<Rightarrow> MEMCHUNK \<Rightarrow> addr list \<Rightarrow> bool" where
  "list_inv h0 h c bs \<longleftrightarrow> heap_ok h \<and> block_chain h (mc_head c) bs \<and> distinct bs \<and> set bs \<inter> dom h0 = {} \<and>
     (\<forall>b. b \<notin> set bs \<longrightarrow> h b = h0 b) \<and> 0 < mc_block_size c \<and> unat (mc_block_size c) < 2 ^ 63 \<and>
     mc_free_off c \<le> mc_block_size c \<and>
     (mc_head c \<noteq> NULL \<longrightarrow> mc_free_off c = mc_block_size c \<or>
        (\<exists>x. h (mc_head c) = Some x \<and> mb_len x = 8 + unat (mc_block_size c)))"

definition placed :: "chunk_mem \<Rightarrow> MEMCHUNK \<Rightarrow> addr list \<Rightarrow> addr \<times> nat \<Rightarrow> bool" where
  "placed h c bs a \<longleftrightarrow> (\<exists>b \<in> set bs. \<exists>x. h b = Some x \<and> 0 < snd a \<and> unat b + 8 \<le> unat (fst a) \<and>
     unat (fst a) + snd a \<le> unat b + mb_len x \<and>
     (b = mc_head c \<longrightarrow> mc_free_off c = mc_block_size c \<or> unat (fst a) + snd a \<le> unat b + 8 + unat (mc_free_off c)))"

definition apart :: "addr \<times> nat \<Rightarrow> addr \<times> nat \<Rightarrow> bool" where
  "apart a a' \<longleftrightarrow> region (fst a) (snd a) \<inter> region (fst a') (snd a') = {}"

definition chunk_inv :: "chunk_mem \<Rightarrow> chunk_mem \<Rightarrow> MEMCHUNK \<Rightarrow> (addr \<times> nat) list \<Rightarrow> bool" where
  "chunk_inv h0 h c A \<longleftrightarrow> (\<exists>bs. list_inv h0 h c bs \<and> (\<forall>a \<in> set A. placed h c bs a) \<and> sorted_wrt apart A)"

text \<open>The steps of a program that uses one allocator.\<close>

inductive chunk_reach :: "chunk_mem \<Rightarrow> chunk_mem \<Rightarrow> MEMCHUNK \<Rightarrow> (addr \<times> nat) list \<Rightarrow> bool" for h0 where
  start: "heap_ok h0 \<Longrightarrow> unat block_size < 2 ^ 62 \<Longrightarrow>
    c = memchunk_init block_size \<or> c = MEMCHUNK_INITIALIZER block_size \<Longrightarrow> chunk_reach h0 h0 c []"
| alloc: "chunk_reach h0 h c A \<Longrightarrow> malloc_ok h malloc \<Longrightarrow> 0 < n \<Longrightarrow> unat n < 2 ^ 62 \<Longrightarrow>
    memchunk_alloc malloc h c n = Some (p, h', c') \<Longrightarrow>
    chunk_reach h0 h' c' (if p = NULL then A else (p, unat n) # A)"


section \<open>Every operation keeps it\<close>

lemma block_chain_in: "block_chain h p bs \<Longrightarrow> b \<in> set bs \<Longrightarrow> b \<noteq> NULL \<and> (\<exists>x. h b = Some x)"
  by (induction bs arbitrary: p) auto

lemma block_chain_first: "block_chain h p bs \<Longrightarrow> p \<noteq> NULL \<Longrightarrow> \<exists>bs'. bs = p # bs' \<and> (\<exists>x. h p = Some x \<and> block_chain h (mb_next x) bs')"
  by (cases bs) auto

lemma region_inside:
  "unat b + 8 \<le> unat p \<Longrightarrow> unat p + n \<le> unat b + m \<Longrightarrow> region p n \<subseteq> region b m"
  by (auto simp: region_def)

text \<open>A piece lies in its block, so it is apart from whatever is in another block.\<close>

lemma placed_apart:
  assumes "heap_ok h" "placed h c bs a" "h b = Some x" "b \<notin> set bs" "unat b + 8 \<le> unat p" "unat p + n \<le> unat b + mb_len x"
  shows "apart (p, n) a"
proof -
  obtain b' x' where "b' \<in> set bs" "h b' = Some x'" "region (fst a) (snd a) \<subseteq> region b' (mb_len x')"
    using assms(2) region_inside by (fastforce simp: placed_def)
  moreover have "region p n \<subseteq> region b (mb_len x)" using assms(5,6) by (rule region_inside)
  moreover have "region b (mb_len x) \<inter> region b' (mb_len x') = {}"
    using assms(1,3,4) calculation(1,2) unfolding heap_ok_def by blast
  ultimately show ?thesis by (auto simp: apart_def)
qed

lemma unat_add_small: "unat (a :: size_t) + k < 2 ^ 64 \<Longrightarrow> unat b = k \<Longrightarrow> unat (a + b) = unat a + k"
  using unat_plus_size [of a b] by simp

lemma serve_ok:
  assumes inv: "list_inv h0 h c bs" and A: "\<forall>a \<in> set A. placed h c bs a" and n: "0 < n" "unat n < 2 ^ 62"
    and room: "mc_head c \<noteq> NULL" "mc_free_off c + n \<le> mc_block_size c"
  shows "\<exists>p c'. memchunk_serve h c n = Some (p, h, c') \<and> p \<noteq> NULL \<and> list_inv h0 h c' bs \<and>
    (\<forall>a \<in> set ((p, unat n) # A). placed h c' bs a) \<and> (\<forall>a \<in> set A. apart (p, unat n) a)"
proof -
  let ?b = "mc_head c" and ?off = "unat (mc_free_off c)"
  have off: "?off \<le> unat (mc_block_size c)" "unat (mc_block_size c) < 2 ^ 63"
    using inv by (simp_all add: list_inv_def word_le_nat_alt)
  then have sum: "unat (mc_free_off c + n) = ?off + unat n" using n(2) by (intro unat_add_small) simp_all
  then have fits: "?off + unat n \<le> unat (mc_block_size c)" using room(2) by (simp add: word_le_nat_alt)
  have "0 < unat n" using n(1) by (simp add: word_less_nat_alt)
  then have free: "mc_free_off c \<noteq> mc_block_size c" using fits by auto
  then obtain x where x: "h ?b = Some x" "mb_len x = 8 + unat (mc_block_size c)"
    using inv room(1) by (auto simp: list_inv_def)
  have mem: "?b \<in> set bs" using inv room(1) block_chain_first by (fastforce simp: list_inv_def)
  have heap: "heap_ok h" using inv by (simp add: list_inv_def)
  have fin: "unat ?b + 8 + unat (mc_block_size c) \<le> 2 ^ 64" using heap x unfolding heap_ok_def by fastforce
  define p where "p = ?b + 8 + mc_free_off c"
  have p8: "unat (?b + 8) = unat ?b + 8" using fin fits \<open>0 < unat n\<close> by (intro unat_add_small) simp_all
  have p: "unat p = unat ?b + 8 + ?off" unfolding p_def using p8 fin fits \<open>0 < unat n\<close>
    by (subst unat_plus_size) simp_all
  define c' where "c' = c\<lparr>mc_free_off := mc_free_off c + n\<rparr>"
  have run: "memchunk_serve h c n = Some (p, h, c')"
    using room(1) x off by (simp add: memchunk_serve_def mem_simps p_def c'_def)
  have "list_inv h0 h c' bs" using inv x fits sum room(2) by (auto simp: list_inv_def c'_def)
  moreover have "placed h c' bs (p, unat n)" unfolding placed_def
    by (rule bexI [OF _ mem]) (use x p fits sum \<open>0 < unat n\<close> in \<open>simp add: c'_def\<close>)
  moreover have "placed h c' bs a" if "a \<in> set A" for a
    using A [rule_format, OF that] free sum unfolding placed_def c'_def by fastforce
  moreover have "apart (p, unat n) a" if "a \<in> set A" for a
  proof -
    have "placed h c bs a" using A that by blast
    then obtain b y where b: "b \<in> set bs" "h b = Some y" "unat b + 8 \<le> unat (fst a)" "unat (fst a) + snd a \<le> unat b + mb_len y"
      "b = ?b \<longrightarrow> unat (fst a) + snd a \<le> unat b + 8 + ?off"
      using free unfolding placed_def by blast
    show ?thesis
    proof (cases "b = ?b")
      case True
      then show ?thesis using b(5) p by (auto simp: apart_def region_def)
    next
      case False
      have "region b (mb_len y) \<inter> region ?b (mb_len x) = {}" using heap b(2) x(1) False unfolding heap_ok_def by blast
      moreover have "region (fst a) (snd a) \<subseteq> region b (mb_len y)" using b(3,4) by (rule region_inside)
      moreover have "region p (unat n) \<subseteq> region ?b (mb_len x)" using p fits x(2) by (intro region_inside) simp_all
      ultimately show ?thesis by (auto simp: apart_def)
    qed
  qed
  moreover have "p \<noteq> NULL" using p by auto
  ultimately show ?thesis using run by (intro exI [of _ p] exI [of _ c']) simp
qed


text \<open>A fresh block is put at the head, or behind it; the pieces handed out stay where they are.\<close>

lemma fresh_block:
  assumes inv: "list_inv h0 h c bs" and fr: "fresh h b m" and x: "mb_len x = m"
  shows "b \<noteq> NULL" "b \<notin> set bs" "b \<notin> dom h0" "heap_ok (h(b \<mapsto> x))"
    and "block_chain (h(b \<mapsto> x)) (mc_head c) bs"
proof -
  show b: "b \<noteq> NULL" using fr by (simp add: fresh_def)
  show nb: "b \<notin> set bs" using inv fr block_chain_in by (fastforce simp: list_inv_def fresh_def)
  then show "b \<notin> dom h0" using inv fr by (auto simp: list_inv_def fresh_def)
  show "heap_ok (h(b \<mapsto> x))" using inv fr x by (intro heap_ok_fresh) (simp_all add: list_inv_def)
  show "block_chain (h(b \<mapsto> x)) (mc_head c) bs" using inv nb by (simp add: list_inv_def block_chain_other)
qed

lemma push_head:
  assumes inv: "list_inv h0 h c bs" and fr: "fresh h b m" and x: "x = \<lparr>mb_next = mc_head c, mb_len = m\<rparr>"
    and off: "off \<le> mc_block_size c" "off = mc_block_size c \<or> m = 8 + unat (mc_block_size c)"
  shows "list_inv h0 (h(b \<mapsto> x)) (c\<lparr>mc_head := b, mc_free_off := off\<rparr>) (b # bs)"
    and "placed h c bs a \<Longrightarrow> placed (h(b \<mapsto> x)) (c\<lparr>mc_head := b, mc_free_off := off\<rparr>) (b # bs) a"
proof -
  have len: "mb_len x = m" using x by simp
  note new = fresh_block [OF inv fr len]
  show "list_inv h0 (h(b \<mapsto> x)) (c\<lparr>mc_head := b, mc_free_off := off\<rparr>) (b # bs)"
    using inv new x off unfolding list_inv_def by auto
  show "placed h c bs a \<Longrightarrow> placed (h(b \<mapsto> x)) (c\<lparr>mc_head := b, mc_free_off := off\<rparr>) (b # bs) a"
    using new(2) unfolding placed_def by fastforce
qed

lemma push_behind:
  assumes inv: "list_inv h0 h c (d # bs)" and fr: "fresh h b m" and d: "h d = Some y"
    and h': "h' = h(b \<mapsto> \<lparr>mb_next = mb_next y, mb_len = m\<rparr>, d \<mapsto> y\<lparr>mb_next := b\<rparr>)"
  shows "list_inv h0 h' c (d # b # bs)"
    and "placed h c (d # bs) a \<Longrightarrow> placed h' c (d # b # bs) a"
proof -
  let ?x = "\<lparr>mb_next = mb_next y, mb_len = m\<rparr>"
  have len: "mb_len ?x = m" by simp
  note new = fresh_block [OF inv fr len]
  have inv': "block_chain h (mb_next y) bs" "mc_head c = d" "d \<noteq> NULL" "d \<notin> set bs" "b \<noteq> d" "b \<notin> set bs"
    using inv d new(2) by (auto simp: list_inv_def)
  have "heap_ok h'" unfolding h' using new(4) d inv'(5) by (intro heap_ok_next) simp_all
  moreover have "block_chain h' d (d # b # bs)" using inv' new(1) by (simp add: h' block_chain_other)
  moreover have "\<forall>z. z \<notin> set (d # b # bs) \<longrightarrow> h' z = h0 z" using inv by (auto simp: list_inv_def h')
  ultimately show "list_inv h0 h' c (d # b # bs)"
    using inv inv' new(3) d unfolding list_inv_def by (auto simp: h')
  show "placed h c (d # bs) a \<Longrightarrow> placed h' c (d # b # bs) a"
    using inv' d unfolding placed_def h' by fastforce
qed

text \<open>The outcome of an allocation that succeeds, and of one that is refused.\<close>

definition good_alloc ::
    "chunk_mem \<Rightarrow> (addr \<times> nat) list \<Rightarrow> nat \<Rightarrow> (addr \<times> chunk_mem \<times> MEMCHUNK) option \<Rightarrow> bool" where
  "good_alloc h0 A n r \<longleftrightarrow> (\<exists>p h c. r = Some (p, h, c) \<and> p \<noteq> NULL \<and> chunk_inv h0 h c ((p, n) # A))"

lemma good_allocI: "p \<noteq> NULL \<Longrightarrow> chunk_inv h0 h c ((p, n) # A) \<Longrightarrow> good_alloc h0 A n (Some (p, h, c))"
  by (simp add: good_alloc_def)

definition all_placed :: "chunk_mem \<Rightarrow> chunk_mem \<Rightarrow> MEMCHUNK \<Rightarrow> addr list \<Rightarrow> (addr \<times> nat) list \<Rightarrow> bool" where
  "all_placed h0 h c bs A \<longleftrightarrow> list_inv h0 h c bs \<and> (\<forall>a \<in> set A. placed h c bs a) \<and> sorted_wrt apart A"

lemma chunk_invI:
  "list_inv h0 h c bs \<Longrightarrow> \<forall>a \<in> set ((p, n) # A). placed h c bs a \<Longrightarrow> \<forall>a \<in> set A. apart (p, n) a \<Longrightarrow>
   sorted_wrt apart A \<Longrightarrow> chunk_inv h0 h c ((p, n) # A)"
  unfolding chunk_inv_def sorted_wrt.simps by blast

lemma serve_good:
  assumes "all_placed h0 h c bs A" "0 < n" "unat n < 2 ^ 62" "mc_head c \<noteq> NULL" "mc_free_off c + n \<le> mc_block_size c"
  shows "good_alloc h0 A (unat n) (memchunk_serve h c n)"
proof -
  have inv: "list_inv h0 h c bs" "\<forall>a \<in> set A. placed h c bs a" "sorted_wrt apart A"
    using assms(1) by (simp_all add: all_placed_def)
  obtain p c' where r: "memchunk_serve h c n = Some (p, h, c')" "p \<noteq> NULL" "list_inv h0 h c' bs"
    "\<forall>a \<in> set ((p, unat n) # A). placed h c' bs a" "\<forall>a \<in> set A. apart (p, unat n) a"
    using serve_ok [OF inv(1,2) assms(2-5)] by blast
  show ?thesis unfolding r(1) using r(2) chunk_invI [OF r(3-5) inv(3)] by (rule good_allocI)
qed

text \<open>A special block \<open>b\<close> of its own, wherever it has been put into the list.\<close>

lemma special_good:
  assumes old: "all_placed h0 h c bs A" and new: "all_placed h0 h' c' bs' A"
    and b: "b \<in> set bs'" "h' b = Some x" "mb_len x = 8 + n" "b = mc_head c' \<longrightarrow> mc_free_off c' = mc_block_size c'"
    and fr: "fresh h b (8 + n)" "0 < n"
  shows "good_alloc h0 A n (Some (b + 8, h', c'))"
proof -
  have L: "list_inv h0 h c bs" and A: "\<forall>a \<in> set A. placed h c bs a" using old by (simp_all add: all_placed_def)
  have p: "unat b + (8 + n) \<le> 2 ^ 64" "b \<notin> set bs" "heap_ok (h(b \<mapsto> x))"
    using fr(1) fresh_block(2,4) [OF L fr(1) b(3)] by (simp_all add: fresh_def)
  then have b8: "unat (b + 8) = unat b + 8" using fr(2) by (intro unat_add_small) simp_all
  have here: "placed h' c' bs' (b + 8, n)" unfolding placed_def
    by (rule bexI [OF _ b(1)]) (use b b8 fr in simp)
  have "apart (b + 8, n) a" if "a \<in> set A" for a
  proof (rule placed_apart)
    show "heap_ok (h(b \<mapsto> x))" by (rule p(3))
    show "placed (h(b \<mapsto> x)) c bs a" using A that p(2) unfolding placed_def by fastforce
  qed (use p b8 b(3) in auto)
  then have "chunk_inv h0 h' c' ((b + 8, n) # A)"
    using new here unfolding all_placed_def by (intro chunk_invI) auto
  moreover have "b + 8 \<noteq> NULL" using b8 by auto
  ultimately show ?thesis by (intro good_allocI)
qed

lemma all_placed_push:
  assumes "all_placed h0 h c bs A" "fresh h b m" "off \<le> mc_block_size c" "off = mc_block_size c \<or> m = 8 + unat (mc_block_size c)"
  shows "all_placed h0 (h(b \<mapsto> \<lparr>mb_next = mc_head c, mb_len = m\<rparr>)) (c\<lparr>mc_head := b, mc_free_off := off\<rparr>) (b # bs) A"
  using assms push_head [OF _ assms(2) refl assms(3,4)] unfolding all_placed_def by blast

lemma all_placed_behind:
  assumes "all_placed h0 h c (d # bs) A" "fresh h b m" "h d = Some y"
  shows "all_placed h0 (h(b \<mapsto> \<lparr>mb_next = mb_next y, mb_len = m\<rparr>, d \<mapsto> y\<lparr>mb_next := b\<rparr>)) c (d # b # bs) A"
  using assms push_behind [OF _ assms(2,3) refl] unfolding all_placed_def by blast

text \<open>The two ways to a new block.\<close>

lemma alloc_special:
  assumes P: "all_placed h0 h c bs A" and n: "0 < n" "unat n < 2 ^ 62"
    and need: "mc_head c = NULL \<or> mc_block_size c < mc_free_off c + n" "mc_block_size c < 4 * n"
    and fr: "fresh h (malloc (8 + n)) (8 + unat n)"
  shows "good_alloc h0 A (unat n) (memchunk_alloc malloc h c n)"
proof -
  define b where "b = malloc (8 + n)"
  have b: "b \<noteq> NULL" "fresh h b (8 + unat n)" using fr by (simp_all add: b_def fresh_def)
  have n0: "0 < unat n" using n(1) by (simp add: word_less_nat_alt)
  have big: "unat (8 + n) = 8 + unat n" using n(2) by (subst unat_plus_size) simp_all
  show ?thesis
  proof (cases "mc_head c = NULL")
    case True
    let ?h = "h(b \<mapsto> \<lparr>mb_next = NULL, mb_len = 8 + unat n\<rparr>)" and ?c = "c\<lparr>mc_head := b, mc_free_off := mc_block_size c\<rparr>"
    have new: "all_placed h0 ?h ?c (b # bs) A" using all_placed_push [OF P b(2), of "mc_block_size c"] True by simp
    have "good_alloc h0 A (unat n) (Some (b + 8, ?h, ?c))"
      by (rule special_good [OF P new, where x = "\<lparr>mb_next = NULL, mb_len = 8 + unat n\<rparr>"]) (use b(2) n0 in simp_all)
    then show ?thesis using need b(1) True by (simp add: memchunk_alloc_def big b_def Let_def)
  next
    case False
    then obtain bs' y where bs: "bs = mc_head c # bs'" "h (mc_head c) = Some y"
      using P block_chain_first unfolding all_placed_def list_inv_def by blast
    let ?h = "h(b \<mapsto> \<lparr>mb_next = mb_next y, mb_len = 8 + unat n\<rparr>, mc_head c \<mapsto> y\<lparr>mb_next := b\<rparr>)"
    have ne: "b \<noteq> mc_head c" using b(2) bs(2) by (auto simp: fresh_def)
    have new: "all_placed h0 ?h c (mc_head c # b # bs') A" using all_placed_behind [OF P [unfolded bs(1)] b(2) bs(2)] .
    have "good_alloc h0 A (unat n) (Some (b + 8, ?h, c))"
      by (rule special_good [OF P new, where x = "\<lparr>mb_next = mb_next y, mb_len = 8 + unat n\<rparr>"]) (use b(2) n0 ne in simp_all)
    then show ?thesis using need b(1) False ne bs(2) by (simp add: memchunk_alloc_def big mem_simps b_def [symmetric] Let_def)
  qed
qed

lemma alloc_standard:
  assumes P: "all_placed h0 h c bs A" and n: "0 < n" "unat n < 2 ^ 62"
    and need: "mc_head c = NULL \<or> mc_block_size c < mc_free_off c + n" "\<not> mc_block_size c < 4 * n"
    and fr: "fresh h (malloc (8 + mc_block_size c)) (8 + unat (mc_block_size c))"
  shows "good_alloc h0 A (unat n) (memchunk_alloc malloc h c n)"
proof -
  define b where "b = malloc (8 + mc_block_size c)"
  have b: "b \<noteq> NULL" "fresh h b (8 + unat (mc_block_size c))" using fr by (simp_all add: b_def fresh_def)
  have std: "unat (8 + mc_block_size c) = 8 + unat (mc_block_size c)"
    using P by (subst unat_plus_size) (simp_all add: all_placed_def list_inv_def)
  have "unat (4 * n) = 4 * unat n" using n(2) by (simp add: unat_word_ariths)
  then have fit: "n \<le> mc_block_size c" using need(2) by (simp add: word_le_nat_alt word_less_nat_alt)
  let ?h = "h(b \<mapsto> \<lparr>mb_next = mc_head c, mb_len = 8 + unat (mc_block_size c)\<rparr>)" and ?c = "c\<lparr>mc_head := b, mc_free_off := 0\<rparr>"
  have "all_placed h0 ?h ?c (b # bs) A" using all_placed_push [OF P b(2), of 0] by simp
  from serve_good [OF this n] have "good_alloc h0 A (unat n) (memchunk_serve ?h ?c n)" using b(1) fit by simp
  then show ?thesis using need b(1) by (simp add: memchunk_alloc_def std b_def Let_def)
qed

lemma alloc_refused:
  assumes "mc_head c = NULL \<or> mc_block_size c < mc_free_off c + n"
    and "malloc (8 + (if mc_block_size c < 4 * n then n else mc_block_size c)) = NULL"
  shows "memchunk_alloc malloc h c n = Some (NULL, h, c)"
  using assms by (auto simp: memchunk_alloc_def Let_def split: if_splits)

lemma alloc_ok:
  assumes inv: "chunk_inv h0 h c A" and m: "malloc_ok h malloc" and n: "0 < n" "unat n < 2 ^ 62"
  shows "good_alloc h0 A (unat n) (memchunk_alloc malloc h c n) \<or>
    memchunk_alloc malloc h c n = Some (NULL, h, c) \<and> (malloc (8 + n) = NULL \<or> malloc (8 + mc_block_size c) = NULL)"
proof -
  obtain bs where P: "all_placed h0 h c bs A" using inv by (auto simp: chunk_inv_def all_placed_def)
  have size: "unat (8 + n) = 8 + unat n" "unat (8 + mc_block_size c) = 8 + unat (mc_block_size c)"
    using n(2) P by (simp_all add: unat_plus_size all_placed_def list_inv_def)
  have answer: "malloc k = NULL \<or> fresh h (malloc k) (unat k)" for k using m by (simp add: malloc_ok_def)
  show ?thesis
  proof (cases "mc_head c = NULL \<or> mc_block_size c < mc_free_off c + n")
    case False
    then have "memchunk_alloc malloc h c n = memchunk_serve h c n" unfolding memchunk_alloc_def by (rule if_not_P)
    then show ?thesis using serve_good [OF P n] False by (simp add: not_less)
  next
    case True
    note need = True
    show ?thesis
    proof (cases "mc_block_size c < 4 * n")
      case True
      then show ?thesis using answer [of "8 + n"] alloc_special [OF P n need True] alloc_refused [OF need] size(1) by metis
    next
      case False
      then show ?thesis using answer [of "8 + mc_block_size c"] alloc_standard [OF P n need False] alloc_refused [OF need] size(2)
        by metis
    qed
  qed
qed

lemma fini_ok:
  assumes "block_chain h p bs" "distinct bs" "\<forall>b. b \<notin> set bs \<longrightarrow> h b = h0 b" "\<forall>b \<in> set bs. h0 b = None"
  shows "memchunk_fini h (c\<lparr>mc_head := p\<rparr>) = Some (h0, c\<lparr>mc_head := NULL\<rparr>)"
  using assms
proof (induction bs arbitrary: h p)
  case Nil
  then have "h = h0" "p = NULL" by auto
  then show ?case by (simp add: memchunk_fini.simps)
next
  case (Cons b bs)
  then obtain x where x: "p = b" "b \<noteq> NULL" "h b = Some x" "block_chain h (mb_next x) bs" by auto
  have "block_chain (h(b := None)) (mb_next x) bs" using x(4) Cons.prems(2) by (simp add: block_chain_other)
  then have "memchunk_fini (h(b := None)) (c\<lparr>mc_head := mb_next x\<rparr>) = Some (h0, c\<lparr>mc_head := NULL\<rparr>)"
    by (rule Cons.IH) (use Cons.prems in auto)
  then show ?case using x by (subst memchunk_fini.simps) (simp add: mem_simps)
qed


section \<open>Properties\<close>

lemma reach_inv: "chunk_reach h0 h c A \<Longrightarrow> chunk_inv h0 h c A \<and> heap_ok h0"
proof (induction rule: chunk_reach.induct)
  case (start block_size c)
  then have "list_inv h0 h0 c []"
    by (auto simp: list_inv_def memchunk_init_def MEMCHUNK_INITIALIZER_def MEMCHUNK_DEFAULT_BLOCK_SIZE_def Let_def
        word_gt_0 split: if_splits)
  then show ?case using start(1) by (auto simp: chunk_inv_def)
next
  case (alloc h c A malloc n p h' c')
  then have "chunk_inv h0 h c A" by simp
  from alloc_ok [OF this alloc.hyps(2-4)] show ?case
    using alloc.hyps(5) alloc.IH by (auto simp: good_alloc_def)
qed

lemma reach_apart: "chunk_inv h0 h c A \<Longrightarrow> i < j \<Longrightarrow> j < length A \<Longrightarrow> apart (A ! i) (A ! j)"
  by (auto simp: chunk_inv_def sorted_wrt_iff_nth_less)

lemma placed_live:
  assumes "placed h c bs a" "set bs \<inter> dom h0 = {}"
  shows "\<exists>b x. h b = Some x \<and> h0 b = None \<and> unat b + 8 \<le> unat (fst a) \<and> unat (fst a) + snd a \<le> unat b + mb_len x"
  using assms unfolding placed_def by blast

text \<open>
  An execution: three pieces, the second too big for a block, and the third in the first block again.
  Each call has its own answer of \<open>malloc\<close>.
\<close>

definition example_malloc :: "size_t \<Rightarrow> addr \<Rightarrow> size_t \<Rightarrow> addr" where
  "example_malloc k p n = (if n = k then p else NULL)"

lemma example_steps:
  "memchunk_alloc (example_malloc 1032 4096) Map.empty (memchunk_init 0) 256 =
     Some (4104, [4096 \<mapsto> \<lparr>mb_next = 0, mb_len = 1032\<rparr>], \<lparr>mc_head = 4096, mc_block_size = 1024, mc_free_off = 256\<rparr>)"
  "memchunk_alloc (example_malloc 808 65536) [4096 \<mapsto> \<lparr>mb_next = 0, mb_len = 1032\<rparr>]
       \<lparr>mc_head = 4096, mc_block_size = 1024, mc_free_off = 256\<rparr> 800 =
     Some (65544, [4096 \<mapsto> \<lparr>mb_next = 65536, mb_len = 1032\<rparr>, 65536 \<mapsto> \<lparr>mb_next = 0, mb_len = 808\<rparr>],
       \<lparr>mc_head = 4096, mc_block_size = 1024, mc_free_off = 256\<rparr>)"
  "memchunk_alloc (\<lambda>_. NULL) [4096 \<mapsto> \<lparr>mb_next = 65536, mb_len = 1032\<rparr>, 65536 \<mapsto> \<lparr>mb_next = 0, mb_len = 808\<rparr>]
       \<lparr>mc_head = 4096, mc_block_size = 1024, mc_free_off = 256\<rparr> 700 =
     Some (4360, [4096 \<mapsto> \<lparr>mb_next = 65536, mb_len = 1032\<rparr>, 65536 \<mapsto> \<lparr>mb_next = 0, mb_len = 808\<rparr>],
       \<lparr>mc_head = 4096, mc_block_size = 1024, mc_free_off = 956\<rparr>)"
  by (simp_all add: memchunk_alloc_def memchunk_serve_def memchunk_init_def example_malloc_def
      MEMCHUNK_DEFAULT_BLOCK_SIZE_def load_def modify_def fun_upd_twist)

definition example_mem :: chunk_mem where
  "example_mem = [4096 \<mapsto> \<lparr>mb_next = 65536, mb_len = 1032\<rparr>, 65536 \<mapsto> \<lparr>mb_next = 0, mb_len = 808\<rparr>]"

definition example_chunk :: MEMCHUNK where
  "example_chunk = \<lparr>mc_head = 4096, mc_block_size = 1024, mc_free_off = 956\<rparr>"

lemma example_reach: "chunk_reach Map.empty example_mem example_chunk [(4360, 700), (65544, 800), (4104, 256)]"
proof -
  have "chunk_reach Map.empty Map.empty (memchunk_init 0) []"
    by (rule chunk_reach.start [of _ 0]) (simp_all add: heap_ok_def)
  from chunk_reach.alloc [OF this _ _ _ example_steps(1)]
  have 1: "chunk_reach Map.empty [4096 \<mapsto> \<lparr>mb_next = 0, mb_len = 1032\<rparr>]
      \<lparr>mc_head = 4096, mc_block_size = 1024, mc_free_off = 256\<rparr> [(4104, 256)]"
    by (simp add: malloc_ok_def fresh_def example_malloc_def)
  from chunk_reach.alloc [OF this _ _ _ example_steps(2)]
  have 2: "chunk_reach Map.empty [4096 \<mapsto> \<lparr>mb_next = 65536, mb_len = 1032\<rparr>, 65536 \<mapsto> \<lparr>mb_next = 0, mb_len = 808\<rparr>]
      \<lparr>mc_head = 4096, mc_block_size = 1024, mc_free_off = 256\<rparr> [(65544, 800), (4104, 256)]"
    by (simp add: malloc_ok_def fresh_def example_malloc_def region_def)
  from chunk_reach.alloc [OF this _ _ _ example_steps(3)] show ?thesis
    by (simp add: malloc_ok_def example_mem_def example_chunk_def)
qed

text \<open>
  C21. In every reachable state of a chunk allocator, each piece of memory it has handed out lies
  inside one live block of its own, behind the header, and no two pieces overlap.
\<close>

theorem memchunk_pieces_disjoint:
  assumes "chunk_reach h0 h c A"
  shows "(\<forall>p n. (p, n) \<in> set A \<longrightarrow> (\<exists>b x. h b = Some x \<and> h0 b = None \<and> unat b + 8 \<le> unat p \<and> unat p + n \<le> unat b + mb_len x)) \<and>
    (\<forall>i j. i < j \<longrightarrow> j < length A \<longrightarrow> region (fst (A ! i)) (snd (A ! i)) \<inter> region (fst (A ! j)) (snd (A ! j)) = {})"
proof (intro conjI allI impI)
  have inv: "chunk_inv h0 h c A" using reach_inv [OF assms] by simp
  then obtain bs where bs: "\<forall>a \<in> set A. placed h c bs a" "set bs \<inter> dom h0 = {}"
    unfolding chunk_inv_def list_inv_def by blast
  show "\<exists>b x. h b = Some x \<and> h0 b = None \<and> unat b + 8 \<le> unat p \<and> unat p + n \<le> unat b + mb_len x"
    if "(p, n) \<in> set A" for p n
    using placed_live [OF bs(1) [rule_format, OF that] bs(2)] by simp
  show "region (fst (A ! i)) (snd (A ! i)) \<inter> region (fst (A ! j)) (snd (A ! j)) = {}"
    if "i < j" "j < length A" for i j
    using reach_apart [OF inv that] by (simp add: apart_def)
qed

lemma memchunk_pieces_disjoint_witness:
  "(\<exists>b x. example_mem b = Some x \<and> unat b + 8 \<le> unat (4360 :: addr) \<and> unat (4360 :: addr) + 700 \<le> unat b + mb_len x) \<and>
   region 4360 700 \<inter> region 4104 256 = {}"
  using memchunk_pieces_disjoint [OF example_reach]
proof (elim conjE, intro conjI)
  assume "\<forall>p n. (p, n) \<in> set [(4360 :: addr, 700), (65544, 800), (4104, 256)] \<longrightarrow>
    (\<exists>b x. example_mem b = Some x \<and> Map.empty b = None \<and> unat b + 8 \<le> unat p \<and> unat p + n \<le> unat b + mb_len x)"
  from this [rule_format, of 4360 700]
  show "\<exists>b x. example_mem b = Some x \<and> unat b + 8 \<le> unat (4360 :: addr) \<and> unat (4360 :: addr) + 700 \<le> unat b + mb_len x"
    by simp
next
  let ?A = "[(4360, 700), (65544, 800), (4104, 256)] :: (addr \<times> nat) list"
  assume "\<forall>i j. i < j \<longrightarrow> j < length ?A \<longrightarrow> region (fst (?A ! i)) (snd (?A ! i)) \<inter> region (fst (?A ! j)) (snd (?A ! j)) = {}"
  from this [rule_format, of 0 2] show "region 4360 700 \<inter> region 4104 256 = {}" by simp
qed

text \<open>
  C22. Every allocation of a reachable allocator, of at least one byte and less than \<open>2 ^ 62\<close>, terminates: it
  hands out a new piece, apart from all the others, or returns \<open>NULL\<close> and changes nothing, the
  latter only when \<open>malloc\<close> refuses a block.
\<close>

theorem memchunk_alloc_correct:
  assumes "chunk_reach h0 h c A" and "malloc_ok h malloc" and "0 < n" and "unat n < 2 ^ 62"
  shows "\<exists>p h' c'. memchunk_alloc malloc h c n = Some (p, h', c') \<and>
    (if p = NULL then h' = h \<and> c' = c \<and> (malloc (8 + n) = NULL \<or> malloc (8 + mc_block_size c) = NULL)
     else chunk_reach h0 h' c' ((p, unat n) # A) \<and>
       (\<forall>q m. (q, m) \<in> set A \<longrightarrow> region p (unat n) \<inter> region q m = {}))"
proof -
  have "chunk_inv h0 h c A" using reach_inv [OF assms(1)] by simp
  from alloc_ok [OF this assms(2-4)] show ?thesis
  proof
    assume "good_alloc h0 A (unat n) (memchunk_alloc malloc h c n)"
    then obtain p h' c' where r: "memchunk_alloc malloc h c n = Some (p, h', c')" "p \<noteq> NULL" "chunk_inv h0 h' c' ((p, unat n) # A)"
      by (auto simp: good_alloc_def)
    have "region p (unat n) \<inter> region q m = {}" if "(q, m) \<in> set A" for q m
      using r(3) that by (fastforce simp: chunk_inv_def apart_def)
    then show ?thesis using r chunk_reach.alloc [OF assms r(1)] by simp
  qed simp
qed

lemma memchunk_alloc_correct_witness:
  "\<exists>p h' c'. memchunk_alloc (example_malloc 1032 4096) Map.empty (memchunk_init 0) 256 = Some (p, h', c') \<and>
    (if p = NULL then h' = Map.empty \<and> c' = memchunk_init 0 \<and>
       (example_malloc 1032 4096 (8 + 256) = NULL \<or> example_malloc 1032 4096 (8 + mc_block_size (memchunk_init 0)) = NULL)
     else chunk_reach Map.empty h' c' [(p, unat (256 :: size_t))] \<and>
       (\<forall>q m. (q, m) \<in> set [] \<longrightarrow> region p (unat (256 :: size_t)) \<inter> region q m = {}))"
proof (rule memchunk_alloc_correct)
  show "chunk_reach Map.empty Map.empty (memchunk_init 0) []"
    by (rule chunk_reach.start [of _ 0]) (simp_all add: heap_ok_def)
  show "malloc_ok Map.empty (example_malloc 1032 4096)" by (simp add: malloc_ok_def fresh_def example_malloc_def)
qed simp_all

text \<open>
  C23. \<open>memchunk_fini\<close> terminates and frees every block exactly once: afterwards the memory is the one in which
  the allocator started, and the allocator can be used again.
\<close>

theorem memchunk_fini_correct:
  assumes "chunk_reach h0 h c A"
  shows "memchunk_fini h c = Some (h0, c\<lparr>mc_head := NULL\<rparr>)"
proof -
  obtain bs where L: "list_inv h0 h c bs" using reach_inv [OF assms] by (auto simp: chunk_inv_def)
  have "\<forall>b \<in> set bs. h0 b = None" using L by (auto simp: list_inv_def)
  then have "memchunk_fini h (c\<lparr>mc_head := mc_head c\<rparr>) = Some (h0, c\<lparr>mc_head := NULL\<rparr>)"
    using L by (intro fini_ok) (simp_all add: list_inv_def)
  then show ?thesis by simp
qed

lemma memchunk_fini_correct_witness:
  "memchunk_fini example_mem example_chunk = Some (Map.empty, example_chunk\<lparr>mc_head := NULL\<rparr>)"
  by (rule memchunk_fini_correct [OF example_reach])

text \<open>
  Beyond these sizes the allocator goes wrong. For \<open>2 ^ 62\<close> bytes the product \<open>4 * size\<close> overflows to
  0, so the request succeeds with a piece of an ordinary block of 1024 bytes; and a request for no
  bytes, right after a special block has become the head, computes an address outside that block.
\<close>

theorem memchunk_size_limits:
  assumes "malloc 1032 = p" and "p \<noteq> NULL" and "malloc 408 = q" and "q \<noteq> NULL"
  shows "memchunk_alloc malloc h (memchunk_init 1024) (2 ^ 62) =
      Some (p + 8, h(p \<mapsto> \<lparr>mb_next = NULL, mb_len = 8 + 1024\<rparr>),
        \<lparr>mc_head = p, mc_block_size = 1024, mc_free_off = 2 ^ 62\<rparr>) \<and>
    Option.bind (memchunk_alloc malloc h (memchunk_init 1024) 400)
      (\<lambda>(_, h, c). memchunk_alloc malloc h c 0) = None"
  using assms by (simp add: memchunk_alloc_def memchunk_init_def memchunk_serve_def load_def)

lemma memchunk_size_limits_witness:
  "memchunk_alloc (\<lambda>_. 4096) Map.empty (memchunk_init 1024) (2 ^ 62) =
      Some (4096 + 8, [4096 \<mapsto> \<lparr>mb_next = NULL, mb_len = 8 + 1024\<rparr>],
        \<lparr>mc_head = 4096, mc_block_size = 1024, mc_free_off = 2 ^ 62\<rparr>) \<and>
    Option.bind (memchunk_alloc (\<lambda>_. 4096) Map.empty (memchunk_init 1024) 400)
      (\<lambda>(_, h, c). memchunk_alloc (\<lambda>_. 4096) h c 0) = None"
  by (rule memchunk_size_limits [of _ 4096 4096]) simp_all

end
