(* ===== verification/Memstream.thy ===== *)
theory Memstream
  imports CRE_Prelude
begin

text \<open>
  \<open>win32/memstream.c\<close>: a read-only COM stream over a block of memory. The streams live in a map from
  addresses to their state; the virtual table is the calls themselves. Outputs through pointers
  (\<open>*n_read\<close>, \<open>*p_new_pos\<close>, ...) are returned; they are what is stored when the pointer is not null.
  The result codes have the documented values of the Windows headers. The streams are used by one
  thread; the interlocked counter is then an ordinary one.
\<close>

section \<open>Result codes and data\<close>

type_synonym HRESULT = "32 word"

definition S_OK :: HRESULT where "S_OK = 0"
definition S_FALSE :: HRESULT where "S_FALSE = 1"
definition E_NOINTERFACE :: HRESULT where "E_NOINTERFACE = 0x80004002"
definition STG_E_INVALIDFUNCTION :: HRESULT where "STG_E_INVALIDFUNCTION = 0x80030001"
definition STG_E_ACCESSDENIED :: HRESULT where "STG_E_ACCESSDENIED = 0x80030005"
definition STG_E_INVALIDPARAMETER :: HRESULT where "STG_E_INVALIDPARAMETER = 0x80030057"
definition ERROR_OUTOFMEMORY :: HRESULT where "ERROR_OUTOFMEMORY = 14"

definition FAILED :: "HRESULT \<Rightarrow> bool" where
  "FAILED hr \<longleftrightarrow> sint hr < 0"

definition HRESULT_FROM_WIN32 :: "uint32 \<Rightarrow> HRESULT" where
  "HRESULT_FROM_WIN32 x = (if sint x \<le> 0 then x else (x AND 0xFFFF) OR 0x80070000)"

lemmas hresult_defs = S_OK_def S_FALSE_def E_NOINTERFACE_def STG_E_INVALIDFUNCTION_def
  STG_E_ACCESSDENIED_def STG_E_INVALIDPARAMETER_def ERROR_OUTOFMEMORY_def

text \<open>The interface identifiers that the code tells apart; \<open>STREAM_SEEK_*\<close> are 0, 1 and 2.\<close>

datatype IID = IID_IUnknown | IID_IDispatch | IID_ISequentialStream | IID_IStream | IID_Other

text \<open>The block behind \<open>buffer\<close> belongs to the caller; it is the list of its bytes.\<close>

record MEMSTREAM =
  ms_refs :: uint32
  ms_buffer :: "byte list"
  ms_pos :: uint32
  ms_size :: uint32

type_synonym com_mem = "addr \<rightharpoonup> MEMSTREAM"

record STATSTG =
  st_size :: uint64
  st_is_stream :: bool
  st_read_only :: bool

text \<open>\<open>n\<close> bytes of a block from an offset on; reading none of them touches nothing.\<close>

definition read_block :: "byte list \<Rightarrow> nat \<Rightarrow> nat \<Rightarrow> byte list option" where
  "read_block block off n =
     (if n = 0 then Some [] else if off + n \<le> length block then Some (take n (drop off block)) else None)"

section \<open>Life time\<close>

text \<open>\<open>p\<close> is the answer of \<open>malloc\<close>.\<close>

definition memstream_create :: "addr \<Rightarrow> com_mem \<Rightarrow> byte list \<Rightarrow> uint32 \<Rightarrow> HRESULT \<times> addr \<times> com_mem" where
  "memstream_create p mem buffer n =
     (if p = NULL then (ERROR_OUTOFMEMORY, NULL, mem)
      else (S_OK, p, mem(p \<mapsto> \<lparr>ms_refs = 1, ms_buffer = buffer, ms_pos = 0, ms_size = n\<rparr>)))"

text \<open>
  The resource functions of Windows are parameters: the handle found, its size, the handle loaded and
  the memory it is locked at, and the last error.
\<close>

definition memstream_create_from_resource ::
    "addr \<Rightarrow> uint32 \<Rightarrow> addr \<Rightarrow> byte list option \<Rightarrow> uint32 \<Rightarrow> addr \<Rightarrow> com_mem \<Rightarrow> HRESULT \<times> addr \<times> com_mem" where
  "memstream_create_from_resource res res_size res_global res_data last_error p mem =
     (if res = NULL \<or> res_size = 0 \<or> res_global = NULL then (HRESULT_FROM_WIN32 last_error, NULL, mem)
      else (case res_data of
          None \<Rightarrow> (HRESULT_FROM_WIN32 last_error, NULL, mem)
        | Some buffer \<Rightarrow> memstream_create p mem buffer res_size))"

definition memstream_QueryInterface :: "com_mem \<Rightarrow> addr \<Rightarrow> IID \<Rightarrow> (HRESULT \<times> addr \<times> com_mem) option" where
  "memstream_QueryInterface mem self riid =
     (if riid = IID_IUnknown \<or> riid = IID_IDispatch \<or> riid = IID_ISequentialStream \<or> riid = IID_IStream then do {
        mem \<leftarrow> modify mem self (ms_refs_update (\<lambda>r. r + 1));
        Some (S_OK, self, mem)
      }
      else Some (E_NOINTERFACE, NULL, mem))"

definition memstream_AddRef :: "com_mem \<Rightarrow> addr \<Rightarrow> (uint32 \<times> com_mem) option" where
  "memstream_AddRef mem self = do {
     s \<leftarrow> load mem self;
     mem \<leftarrow> modify mem self (ms_refs_update (\<lambda>r. r + 1));
     Some (ms_refs s + 1, mem)
   }"

definition memstream_Release :: "com_mem \<Rightarrow> addr \<Rightarrow> (uint32 \<times> com_mem) option" where
  "memstream_Release mem self = do {
     s \<leftarrow> load mem self;
     mem \<leftarrow> modify mem self (ms_refs_update (\<lambda>r. r - 1));
     let refs = ms_refs s - 1;
     Some (refs, if refs = 0 then mem(self := None) else mem)
   }"

section \<open>Reading and seeking\<close>

definition memstream_Read :: "com_mem \<Rightarrow> addr \<Rightarrow> byte list \<Rightarrow> uint32 \<Rightarrow> (HRESULT \<times> byte list \<times> uint32 \<times> com_mem) option" where
  "memstream_Read mem self buf n = do {
     s \<leftarrow> load mem self;
     if ms_pos s \<ge> ms_size s then Some (S_FALSE, buf, 0, mem)
     else do {
       let n = (if n > ms_size s - ms_pos s then ms_size s - ms_pos s else n);
       data \<leftarrow> read_block (ms_buffer s) (unat (ms_pos s)) (unat n);
       buf \<leftarrow> mem_copy buf 0 data;
       mem \<leftarrow> modify mem self (ms_pos_update (\<lambda>p. p + n));
       Some (S_OK, buf, n, mem)
     }
   }"

definition memstream_Write :: "HRESULT \<times> uint32" where
  "memstream_Write = (STG_E_ACCESSDENIED, 0)"

text \<open>\<open>LONGLONG\<close> arithmetic: a sum outside 64 bits is undefined.\<close>

definition longlong_add :: "int \<Rightarrow> int \<Rightarrow> int option" where
  "longlong_add a b = (if - (2 ^ 63) \<le> a + b \<and> a + b < 2 ^ 63 then Some (a + b) else None)"

text \<open>The switch over the origins 0, 1 and 2.\<close>

definition memstream_seek_pos :: "MEMSTREAM \<Rightarrow> 64 word \<Rightarrow> uint32 \<Rightarrow> int option" where
  "memstream_seek_pos s delta origin =
     (if origin = 0 then Some (sint delta)
      else if origin = 1 then longlong_add (uint (ms_pos s)) (sint delta)
      else longlong_add (uint (ms_size s)) (sint delta))"

definition memstream_Seek :: "com_mem \<Rightarrow> addr \<Rightarrow> 64 word \<Rightarrow> uint32 \<Rightarrow> (HRESULT \<times> uint64 \<times> com_mem) option" where
  "memstream_Seek mem self delta origin = do {
     s \<leftarrow> load mem self;
     if origin > 2 then Some (STG_E_INVALIDPARAMETER, ucast (ms_pos s), mem)
     else do {
       pos \<leftarrow> memstream_seek_pos s delta origin;
       if pos < 0 then Some (STG_E_INVALIDFUNCTION, ucast (ms_pos s), mem)
       else if pos \<noteq> uint (word_of_int pos :: uint32) then Some (STG_E_INVALIDFUNCTION, ucast (ms_pos s), mem)
       else do {
         mem \<leftarrow> modify mem self (ms_pos_update (\<lambda>_. word_of_int pos));
         Some (S_OK, ucast (word_of_int pos :: uint32), mem)
       }
     }
   }"

definition memstream_SetSize :: HRESULT where
  "memstream_SetSize = STG_E_INVALIDFUNCTION"

text \<open>
  \<open>CopyTo\<close> another stream, of which the caller gives the \<open>Write\<close>: from the bytes offered to the result,
  the number of bytes written and its new state. The two counters get the number of bytes written; after a
  failure nothing is stored in them.
\<close>

definition memstream_CopyTo ::
    "(byte list \<Rightarrow> 'o \<Rightarrow> HRESULT \<times> uint32 \<times> 'o) \<Rightarrow> com_mem \<Rightarrow> addr \<Rightarrow> 'o \<Rightarrow> uint64
      \<Rightarrow> (HRESULT \<times> uint64 option \<times> com_mem \<times> 'o) option" where
  "memstream_CopyTo write mem self other n = do {
     s \<leftarrow> load mem self;
     let n = (if ucast (ms_pos s) + n \<ge> ucast (ms_size s)
              then (if ms_pos s < ms_size s then ucast (ms_size s - ms_pos s) else 0) else n);
     data \<leftarrow> read_block (ms_buffer s) (unat (ms_pos s)) (unat (ucast n :: uint32));
     let (hr, written, other) = write data other;
     if FAILED hr then Some (hr, None, mem, other)
     else do {
       mem \<leftarrow> modify mem self (ms_pos_update (\<lambda>p. p + written));
       Some (S_OK, Some (ucast written), mem, other)
     }
   }"

section \<open>The rest of the interface\<close>

definition memstream_Commit :: HRESULT where "memstream_Commit = S_OK"
definition memstream_Revert :: HRESULT where "memstream_Revert = S_OK"
definition memstream_LockRegion :: HRESULT where "memstream_LockRegion = STG_E_INVALIDFUNCTION"
definition memstream_UnlockRegion :: HRESULT where "memstream_UnlockRegion = STG_E_INVALIDFUNCTION"

definition memstream_Stat :: "com_mem \<Rightarrow> addr \<Rightarrow> (HRESULT \<times> STATSTG) option" where
  "memstream_Stat mem self = do {
     s \<leftarrow> load mem self;
     Some (S_OK, \<lparr>st_size = ucast (ms_size s), st_is_stream = True, st_read_only = True\<rparr>)
   }"

definition memstream_Clone :: "addr \<Rightarrow> com_mem \<Rightarrow> addr \<Rightarrow> (HRESULT \<times> addr \<times> com_mem) option" where
  "memstream_Clone p mem self = do {
     s \<leftarrow> load mem self;
     let (hr, other, mem) = memstream_create p mem (ms_buffer s) (ms_size s);
     mem \<leftarrow> (if other \<noteq> NULL then modify mem other (ms_pos_update (\<lambda>_. ms_pos s)) else Some mem);
     Some (hr, other, mem)
   }"


section \<open>What the operations do\<close>

text \<open>A stream is well formed when its block has as many bytes as the stream claims.\<close>

definition stream_ok :: "MEMSTREAM \<Rightarrow> bool" where
  "stream_ok s \<longleftrightarrow> unat (ms_size s) \<le> length (ms_buffer s)"

definition stream_data :: "MEMSTREAM \<Rightarrow> byte list" where
  "stream_data s = take (unat (ms_size s)) (ms_buffer s)"

lemma length_stream_data [simp]: "stream_ok s \<Longrightarrow> length (stream_data s) = unat (ms_size s)"
  by (simp add: stream_ok_def stream_data_def)

lemma read_block_data:
  "stream_ok s \<Longrightarrow> off + n \<le> unat (ms_size s) \<Longrightarrow>
     read_block (ms_buffer s) off n = Some (take n (drop off (stream_data s)))"
  by (auto simp: read_block_def stream_ok_def stream_data_def drop_take min_def)

lemma stream_update_pos [simp]: "stream_ok (s\<lparr>ms_pos := p\<rparr>) = stream_ok s" "stream_data (s\<lparr>ms_pos := p\<rparr>) = stream_data s"
  by (simp_all add: stream_ok_def stream_data_def)

lemma ms_pos_add: "ms_pos_update (\<lambda>p. p + m) s = s\<lparr>ms_pos := ms_pos s + m\<rparr>"
  by simp

lemma read_effect:
  fixes n :: uint32
  assumes "load mem self = Some s" and ok: "stream_ok s"
    and data: "data = take (unat n) (drop (unat (ms_pos s)) (stream_data s))" and "length data \<le> length buf"
  shows "memstream_Read mem self buf n =
    Some (if ms_pos s < ms_size s then S_OK else S_FALSE, data @ drop (length data) buf, word_of_nat (length data),
      mem(self \<mapsto> s\<lparr>ms_pos := ms_pos s + word_of_nat (length data)\<rparr>))"
proof (cases "ms_pos s < ms_size s")
  case False
  then have "length (stream_data s) \<le> unat (ms_pos s)" using ok by (simp add: not_less word_le_nat_alt)
  then have "data = []" using data by simp
  moreover have "mem self = Some s" using assms(1) load_SomeD by metis
  ultimately show ?thesis using False assms(1) by (auto simp: memstream_Read_def fun_upd_idem)
next
  case True
  define m where "m = (if n > ms_size s - ms_pos s then ms_size s - ms_pos s else n)"
  have left: "unat (ms_size s - ms_pos s) = unat (ms_size s) - unat (ms_pos s)"
    using True by (simp add: unat_sub)
  have m: "unat m = min (unat n) (unat (ms_size s) - unat (ms_pos s))"
    by (auto simp: m_def left [symmetric] word_less_nat_alt)
  have "unat (ms_pos s) < unat (ms_size s)" using True by (simp add: word_less_nat_alt)
  then have "read_block (ms_buffer s) (unat (ms_pos s)) (unat m) = Some (take (unat m) (drop (unat (ms_pos s)) (stream_data s)))"
    using m by (intro read_block_data [OF ok]) simp
  moreover have "take (unat m) (drop (unat (ms_pos s)) (stream_data s)) = data"
    using data ok by (simp add: m) (metis length_drop length_stream_data min.commute take_all_iff take_take
        min_def nle_le)
  moreover have "length data = unat m" using data ok m by simp
  ultimately show ?thesis using True assms(1,4)
    by (simp add: memstream_Read_def m_def [symmetric] mem_simps not_le Let_def not_le [THEN iffD2, OF True] ms_pos_add)
qed

text \<open>Reading again and again: the bytes of each answer, and the final state.\<close>

fun memstream_reads :: "com_mem \<Rightarrow> addr \<Rightarrow> uint32 list \<Rightarrow> (byte list list \<times> com_mem) option" where
  "memstream_reads mem self [] = Some ([], mem)"
| "memstream_reads mem self (n # ns) = do {
     (hr, buf, k, mem) \<leftarrow> memstream_Read mem self (replicate (unat n) 0) n;
     (datas, mem) \<leftarrow> memstream_reads mem self ns;
     Some (take (unat k) buf # datas, mem)
   }"

lemma reads_effect:
  assumes "load mem self = Some s" "stream_ok s"
  shows "\<exists>datas mem'. memstream_reads mem self ns = Some (datas, mem') \<and>
    concat datas = take (sum_list (map unat ns)) (drop (unat (ms_pos s)) (stream_data s)) \<and>
    mem' = mem(self \<mapsto> s\<lparr>ms_pos := ms_pos s + word_of_nat (length (concat datas))\<rparr>)"
  using assms
proof (induction ns arbitrary: mem s)
  case Nil
  then have "mem self = Some s" by (metis load_SomeD)
  then have "mem = mem(self \<mapsto> s\<lparr>ms_pos := ms_pos s + word_of_nat (length (concat []))\<rparr>)" by simp (metis fun_upd_triv)
  then show ?case by (simp del: fun_upd_apply)
next
  case (Cons n ns)
  let ?rest = "drop (unat (ms_pos s)) (stream_data s)"
  define data where "data = take (unat n) ?rest"
  define s' where "s' = s\<lparr>ms_pos := ms_pos s + word_of_nat (length data)\<rparr>"
  have len: "length data \<le> unat n" "length data \<le> unat (ms_size s) - unat (ms_pos s)"
    using Cons.prems(2) by (simp_all add: data_def)
  have "length data < 2 ^ 32" using len(1) unsigned_less [of n, where ?'a = nat] by simp
  then have k: "unat (word_of_nat (length data) :: uint32) = length data" by simp
  have step: "memstream_Read mem self (replicate (unat n) 0) n =
      Some (if ms_pos s < ms_size s then S_OK else S_FALSE, data @ drop (length data) (replicate (unat n) 0),
        word_of_nat (length data), mem(self \<mapsto> s'))"
    unfolding s'_def using Cons.prems len(1) by (intro read_effect) (simp_all add: data_def)
  have "self \<noteq> NULL" using Cons.prems(1) load_SomeD by metis
  then have "load (mem(self \<mapsto> s')) self = Some s'" "stream_ok s'"
    using Cons.prems(2) by (simp_all add: mem_simps s'_def)
  from Cons.IH [OF this] obtain datas mem' where
    ih: "memstream_reads (mem(self \<mapsto> s')) self ns = Some (datas, mem')"
      "concat datas = take (sum_list (map unat ns)) (drop (unat (ms_pos s')) (stream_data s'))"
      "mem' = (mem(self \<mapsto> s'))(self \<mapsto> s'\<lparr>ms_pos := ms_pos s' + word_of_nat (length (concat datas))\<rparr>)"
    by blast
  have mem': "mem' = mem(self \<mapsto> s\<lparr>ms_pos := ms_pos s + word_of_nat (length (data @ concat datas))\<rparr>)"
    unfolding ih(3) by (simp add: s'_def add.assoc)
  have "drop (unat (ms_pos s')) (stream_data s) = drop (unat n) ?rest"
  proof (cases "unat (ms_pos s) < unat (ms_size s)")
    case True
    then have "unat (ms_pos s') = unat (ms_pos s) + length data"
      unfolding s'_def using len(2) k unsigned_less [of "ms_size s", where ?'a = nat]
      by (simp add: unat_word_ariths)
    moreover have "drop (length data) ?rest = drop (unat n) ?rest" by (simp add: data_def min_def)
    ultimately show ?thesis by (simp add: add.commute)
  next
    case False
    then show ?thesis using Cons.prems(2) by (simp add: s'_def data_def)
  qed
  then have "data @ concat datas = take (sum_list (map unat (n # ns))) ?rest"
    using ih(2) by (simp add: data_def take_add s'_def)
  moreover have "memstream_reads mem self (n # ns) = Some (data # datas, mem')" using step ih(1) k by simp
  ultimately show ?case using mem' by (intro exI [of _ "data # datas"] exI [of _ mem']) (simp del: fun_upd_apply)
qed


section \<open>Properties\<close>

definition example_stream :: MEMSTREAM where
  "example_stream = \<lparr>ms_refs = 1, ms_buffer = [1, 2, 3, 4, 5], ms_pos = 1, ms_size = 4\<rparr>"

definition example_streams :: com_mem where
  "example_streams = [4096 \<mapsto> example_stream]"

lemma example_stream_ok: "load example_streams 4096 = Some example_stream" "stream_ok example_stream"
  by (simp_all add: example_streams_def example_stream_def load_def stream_ok_def)

text \<open>
  Reading from a stream again and again yields its bytes in order from the current position on,
  each once and never one behind the end, whatever the sizes asked for; the position moves by what
  was read and the stream is otherwise unchanged.
\<close>

theorem memstream_reads_in_order:
  assumes "load mem self = Some s" and "stream_ok s"
  shows "\<exists>datas mem'. memstream_reads mem self ns = Some (datas, mem') \<and>
    concat datas = take (sum_list (map unat ns)) (drop (unat (ms_pos s)) (stream_data s)) \<and>
    mem' = mem(self \<mapsto> s\<lparr>ms_pos := ms_pos s + word_of_nat (length (concat datas))\<rparr>)"
  using assms by (rule reads_effect)

lemma memstream_reads_in_order_witness:
  "\<exists>datas mem'. memstream_reads example_streams 4096 [2, 0, 7] = Some (datas, mem') \<and> concat datas = [2, 3, 4]"
  using memstream_reads_in_order [OF example_stream_ok, of "[2, 0, 7]"]
  by (auto simp: example_stream_def stream_data_def)

text \<open>
  \<open>Read\<close> gives as many bytes as were asked for, or as are left, and says \<open>S_FALSE\<close> exactly at the end. It
  writes nothing behind what it read into the caller's buffer.
\<close>

theorem memstream_read_correct:
  fixes n :: uint32
  assumes "load mem self = Some s" and "stream_ok s"
    and "data = take (unat n) (drop (unat (ms_pos s)) (stream_data s))" and "length data \<le> length buf"
  shows "memstream_Read mem self buf n =
    Some (if ms_pos s < ms_size s then S_OK else S_FALSE, data @ drop (length data) buf, word_of_nat (length data),
      mem(self \<mapsto> s\<lparr>ms_pos := ms_pos s + word_of_nat (length data)\<rparr>))"
  using assms by (rule read_effect)

lemma memstream_read_correct_witness:
  "memstream_Read example_streams 4096 [9, 9, 9, 9, 9] 4 =
    Some (if ms_pos example_stream < ms_size example_stream then S_OK else S_FALSE,
      [2, 3, 4] @ drop (length [2, 3, 4 :: byte]) [9, 9, 9, 9, 9], word_of_nat (length [2, 3, 4 :: byte]),
      example_streams(4096 \<mapsto> example_stream\<lparr>ms_pos := ms_pos example_stream + word_of_nat (length [2, 3, 4 :: byte])\<rparr>))"
  by (rule memstream_read_correct [OF example_stream_ok]) (simp_all add: example_stream_def stream_data_def)

text \<open>The position that a \<open>Seek\<close> asks for, as a number.\<close>

definition seek_target :: "MEMSTREAM \<Rightarrow> 64 word \<Rightarrow> uint32 \<Rightarrow> int" where
  "seek_target s delta origin = (if origin = 0 then 0 else if origin = 1 then uint (ms_pos s) else uint (ms_size s)) + sint delta"

text \<open>
  \<open>Seek\<close> sets the position to the one asked for exactly when it is from 0 to \<open>2 ^ 32 - 1\<close>, also behind the end;
  otherwise, and for an unknown origin, it fails and the position stays. It reports the position in
  every case. The distance must not make the sum overflow a \<open>LONGLONG\<close>.
\<close>

theorem memstream_seek_correct:
  assumes "load mem self = Some s" and "sint delta \<le> 2 ^ 63 - 2 ^ 32"
  shows "memstream_Seek mem self delta origin =
    Some (if 2 < origin then (STG_E_INVALIDPARAMETER, ucast (ms_pos s), mem)
      else if 0 \<le> seek_target s delta origin \<and> seek_target s delta origin < 2 ^ 32
      then (S_OK, word_of_int (seek_target s delta origin), mem(self \<mapsto> s\<lparr>ms_pos := word_of_int (seek_target s delta origin)\<rparr>))
      else (STG_E_INVALIDFUNCTION, ucast (ms_pos s), mem))"
proof -
  have small: "uint (w :: uint32) < 2 ^ 32" "0 \<le> uint w" for w using uint_lt2p [of w] by simp_all
  have low: "- (2 ^ 63) \<le> sint delta" using sint_greater_eq [of delta] by simp
  have add: "longlong_add (uint w) (sint delta) = Some (uint w + sint delta)" for w :: uint32
    unfolding longlong_add_def
    by (rule if_P) (use small [of w] low assms(2) in linarith)
  have fits: "x = uint (word_of_int x :: uint32) \<longleftrightarrow> 0 \<le> x \<and> x < 2 ^ 32" for x
  proof -
    have "uint (word_of_int x :: uint32) = x mod 2 ^ 32" by (simp add: uint_word_of_int)
    moreover have "x = x mod 2 ^ 32 \<longleftrightarrow> 0 \<le> x \<and> x < 2 ^ 32"
      using pos_mod_sign [of "2 ^ 32" x] pos_mod_bound [of "2 ^ 32" x] mod_pos_pos_trivial [of x "2 ^ 32"] by auto
    ultimately show ?thesis by simp
  qed
  define t where "t = seek_target s delta origin"
  have t: "memstream_seek_pos s delta origin = Some t"
    by (simp add: t_def seek_target_def memstream_seek_pos_def add)
  have mem: "modify mem self (ms_pos_update (\<lambda>_. x)) = Some (mem(self \<mapsto> s\<lparr>ms_pos := x\<rparr>))" for x
    using assms(1) by (simp add: mem_simps)
  have new: "ucast (word_of_int t :: uint32) = (word_of_int t :: uint64)" if "0 \<le> t" "t < 2 ^ 32"
    using fits [of t] that by (simp add: ucast_eq)
  have "memstream_Seek mem self delta origin = (if 2 < origin then Some (STG_E_INVALIDPARAMETER, ucast (ms_pos s), mem)
      else if t < 0 then Some (STG_E_INVALIDFUNCTION, ucast (ms_pos s), mem)
      else if t \<noteq> uint (word_of_int t :: uint32) then Some (STG_E_INVALIDFUNCTION, ucast (ms_pos s), mem)
      else Some (S_OK, ucast (word_of_int t :: uint32), mem(self \<mapsto> s\<lparr>ms_pos := word_of_int t\<rparr>)))"
    by (simp add: memstream_Seek_def assms(1) t mem)
  then show ?thesis unfolding t_def [symmetric] using fits [of t] new by (cases "t < 0") (simp_all split: if_split)
qed

lemma memstream_seek_correct_witness:
  "memstream_Seek example_streams 4096 (- 1) 2 =
    Some (if 2 < (2 :: uint32) then (STG_E_INVALIDPARAMETER, ucast (ms_pos example_stream), example_streams)
      else if 0 \<le> seek_target example_stream (- 1) 2 \<and> seek_target example_stream (- 1) 2 < 2 ^ 32
      then (S_OK, word_of_int (seek_target example_stream (- 1) 2),
        example_streams(4096 \<mapsto> example_stream\<lparr>ms_pos := word_of_int (seek_target example_stream (- 1) 2)\<rparr>))
      else (STG_E_INVALIDFUNCTION, ucast (ms_pos example_stream), example_streams)) \<and> seek_target example_stream (- 1) 2 = 3"
  using memstream_seek_correct [OF example_stream_ok(1), of "- 1" 2]
  by (simp add: seek_target_def example_stream_def)

text \<open>The size that \<open>CopyTo\<close> settles on, without and with the overflow of its test.\<close>

definition copy_size :: "MEMSTREAM \<Rightarrow> uint64 \<Rightarrow> uint64" where
  "copy_size s n = (if ucast (ms_pos s) + n \<ge> ucast (ms_size s)
     then (if ms_pos s < ms_size s then ucast (ms_size s - ms_pos s) else 0) else n)"

lemma unat32: "unat (w :: uint32) < 2 ^ 32"
  using unsigned_less [of w, where ?'a = nat] by simp

lemma unat_up: "unat (ucast (w :: uint32) :: uint64) = unat w"
  using unat32 [of w] by (simp add: unsigned_ucast_eq take_bit_nat_eq_self)

lemma unat_down: "unat (n :: uint64) < 2 ^ 32 \<Longrightarrow> unat (ucast n :: uint32) = unat n"
  by (simp add: unsigned_ucast_eq take_bit_nat_eq_self)

lemma copy_size_fits:
  assumes "unat (ms_pos s) + unat n < 2 ^ 64"
  shows "unat (ucast (copy_size s n) :: uint32) = min (unat n) (unat (ms_size s) - unat (ms_pos s))"
proof -
  have sum: "unat (ucast (ms_pos s) + n) = unat (ms_pos s) + unat n"
    using assms by (subst unat_plus_size) (simp_all add: unat_up)
  have past: "ucast (ms_size s) \<le> ucast (ms_pos s) + n \<longleftrightarrow> unat (ms_size s) \<le> unat (ms_pos s) + unat n"
    by (simp only: word_le_nat_alt sum unat_up)
  show ?thesis
  proof (cases "unat (ms_size s) \<le> unat (ms_pos s) + unat n")
    case True
    have "unat (ucast (ucast w :: uint64) :: uint32) = unat w" for w :: uint32
      by (rule unat_down [of "ucast w", unfolded unat_up]) (rule unat32)
    moreover have "ms_pos s < ms_size s \<longleftrightarrow> unat (ms_pos s) < unat (ms_size s)" by (rule word_less_nat_alt)
    ultimately show ?thesis using True
      by (cases "ms_pos s < ms_size s") (auto simp: copy_size_def past unat_sub)
  next
    case False
    then have "unat n < 2 ^ 32" using unat32 [of "ms_size s"] by linarith
    then show ?thesis using False by (simp add: copy_size_def past unat_down)
  qed
qed

lemma copy_size_wraps:
  assumes "0 < ms_pos s" "ms_pos s \<le> ms_size s"
  shows "copy_size s (- 1) = - 1"
proof -
  have "0 < unat (ms_pos s)" using assms(1) by (simp add: word_less_nat_alt)
  then have "unat (ucast (ms_pos s) - 1 :: uint64) = unat (ms_pos s) - 1"
    using unat_up [of "ms_pos s"] by (subst unat_sub) (simp_all add: word_le_nat_alt)
  then have "ucast (ms_pos s) + - 1 < (ucast (ms_size s) :: uint64)"
    using assms \<open>0 < unat (ms_pos s)\<close> by (simp add: word_less_nat_alt word_le_nat_alt unat_up)
  then have "\<not> ucast (ms_size s) \<le> ucast (ms_pos s) + (- 1 :: uint64)" by (simp only: not_le)
  then show ?thesis unfolding copy_size_def by (rule if_not_P)
qed

text \<open>
  C24. \<open>CopyTo\<close> offers the other stream exactly the bytes asked for, or those left, from the current position
  on; it moves by what was written, or keeps its position when the other stream fails. That holds while
  the position plus the size asked for fits in 64 bits. Beyond, as in the idiom "copy everything" with
  \<open>2 ^ 64 - 1\<close>, the test for the end wraps around: away from the start, up to \<open>2 ^ 32 - 1\<close> bytes are read
  behind the block.
\<close>

theorem memstream_copyto_correct:
  assumes "load mem self = Some s" and "stream_ok s"
  shows "(unat (ms_pos s) + unat n < 2 ^ 64 \<longrightarrow>
      memstream_CopyTo write mem self other n =
        (case write (take (unat n) (drop (unat (ms_pos s)) (stream_data s))) other of (hr, written, other) \<Rightarrow>
           Some (if FAILED hr then (hr, None, mem, other)
             else (S_OK, Some (ucast written), mem(self \<mapsto> s\<lparr>ms_pos := ms_pos s + written\<rparr>), other)))) \<and>
    (n = - 1 \<longrightarrow> 0 < ms_pos s \<longrightarrow> ms_pos s \<le> ms_size s \<longrightarrow> length (ms_buffer s) < 2 ^ 32 \<longrightarrow>
      memstream_CopyTo write mem self other n = None)"
proof (intro conjI impI)
  have code: "memstream_CopyTo write mem self other n = do {
      data \<leftarrow> read_block (ms_buffer s) (unat (ms_pos s)) (unat (ucast (copy_size s n) :: uint32));
      case write data other of (hr, written, other) \<Rightarrow>
        Some (if FAILED hr then (hr, None, mem, other)
          else (S_OK, Some (ucast written), mem(self \<mapsto> s\<lparr>ms_pos := ms_pos s + written\<rparr>), other)) }" for n
    using assms(1)
    by (cases "read_block (ms_buffer s) (unat (ms_pos s)) (unat (ucast (copy_size s n) :: uint32))")
      (auto simp: memstream_CopyTo_def copy_size_def [symmetric] mem_simps ms_pos_add Let_def split: prod.splits)
  {
    assume "unat (ms_pos s) + unat n < 2 ^ 64"
    note size = copy_size_fits [OF this]
    have "read_block (ms_buffer s) (unat (ms_pos s)) (unat (ucast (copy_size s n) :: uint32)) =
        Some (take (unat n) (drop (unat (ms_pos s)) (stream_data s)))"
    proof (cases "unat (ms_pos s) \<le> unat (ms_size s)")
      case True
      then show ?thesis using assms(2) unfolding size
        by (subst read_block_data) (auto simp: min_def)
    next
      case False
      then show ?thesis using assms(2) by (simp add: size read_block_def)
    qed
    then show "memstream_CopyTo write mem self other n =
        (case write (take (unat n) (drop (unat (ms_pos s)) (stream_data s))) other of (hr, written, other) \<Rightarrow>
           Some (if FAILED hr then (hr, None, mem, other)
             else (S_OK, Some (ucast written), mem(self \<mapsto> s\<lparr>ms_pos := ms_pos s + written\<rparr>), other)))"
      by (simp add: code)
  next
    assume "n = - 1" "0 < ms_pos s" "ms_pos s \<le> ms_size s" "length (ms_buffer s) < 2 ^ 32"
    moreover have "unat (ucast (- 1 :: uint64) :: uint32) = 2 ^ 32 - 1"
      by (simp add: unsigned_ucast_eq unsigned_minus_1_eq_mask take_bit_of_mask mask_eq_exp_minus_1)
    moreover have "0 < unat (ms_pos s)" using calculation(2) by (simp add: word_less_nat_alt)
    ultimately have "read_block (ms_buffer s) (unat (ms_pos s)) (unat (ucast (copy_size s n) :: uint32)) = None"
      by (simp add: copy_size_wraps read_block_def)
    then show "memstream_CopyTo write mem self other n = None" by (simp add: code)
  }
qed


definition example_sink :: "byte list \<Rightarrow> byte list \<Rightarrow> HRESULT \<times> uint32 \<times> byte list" where
  "example_sink data sink = (S_OK, word_of_nat (length data), sink @ data)"

lemma memstream_copyto_correct_witness:
  "memstream_CopyTo example_sink example_streams 4096 [7] 2 =
     Some (S_OK, Some 2, example_streams(4096 \<mapsto> example_stream\<lparr>ms_pos := 3\<rparr>), [7, 2, 3]) \<and>
   memstream_CopyTo example_sink example_streams 4096 [7] (- 1) = None"
  using memstream_copyto_correct [OF example_stream_ok, of 2 example_sink "[7]"]
    memstream_copyto_correct [OF example_stream_ok, of "- 1" example_sink "[7]"]
  by (simp add: example_stream_def stream_data_def example_sink_def FAILED_def S_OK_def)

section \<open>Life time\<close>

text \<open>
  A client's calls that change the number of references, and the number it then holds. It must hold one
  to make a call, and never \<open>2 ^ 32 - 1\<close>.
\<close>

datatype com_call = Query IID | Add_Ref | Release_Ref

fun com_held :: "com_call \<Rightarrow> nat \<Rightarrow> nat" where
  "com_held (Query riid) k = (if riid = IID_Other then k else k + 1)"
| "com_held Add_Ref k = k + 1"
| "com_held Release_Ref k = k - 1"

fun com_valid :: "com_call list \<Rightarrow> nat \<Rightarrow> bool" where
  "com_valid [] k = True"
| "com_valid (c # cs) k = (0 < k \<and> k < 2 ^ 32 - 1 \<and> com_valid cs (com_held c k))"

fun com_run :: "com_mem \<Rightarrow> addr \<Rightarrow> com_call list \<Rightarrow> com_mem option" where
  "com_run mem self [] = Some mem"
| "com_run mem self (Query riid # cs) = do { (_, _, mem) \<leftarrow> memstream_QueryInterface mem self riid; com_run mem self cs }"
| "com_run mem self (Add_Ref # cs) = do { (_, mem) \<leftarrow> memstream_AddRef mem self; com_run mem self cs }"
| "com_run mem self (Release_Ref # cs) = do { (_, mem) \<leftarrow> memstream_Release mem self; com_run mem self cs }"

definition stream_held :: "com_mem \<Rightarrow> addr \<Rightarrow> MEMSTREAM \<Rightarrow> nat \<Rightarrow> com_mem" where
  "stream_held mem self s k = mem(self := if k = 0 then None else Some (s\<lparr>ms_refs := word_of_nat k\<rparr>))"

lemma com_step:
  assumes "self \<noteq> NULL" "0 < k" "k < 2 ^ 32 - 1"
  shows "memstream_QueryInterface (stream_held mem self s k) self riid =
      Some (if riid = IID_Other then E_NOINTERFACE else S_OK, if riid = IID_Other then NULL else self,
        stream_held mem self s (com_held (Query riid) k))"
    and "memstream_AddRef (stream_held mem self s k) self = Some (word_of_nat (k + 1), stream_held mem self s (k + 1))"
    and "memstream_Release (stream_held mem self s k) self = Some (word_of_nat (k - 1), stream_held mem self s (k - 1))"
proof -
  have l: "load (stream_held mem self s k) self = Some (s\<lparr>ms_refs := word_of_nat k\<rparr>)"
    using assms(1,2) by (simp add: stream_held_def load_def)
  have dec: "(word_of_nat k :: uint32) - 1 = word_of_nat (k - 1)" using assms(2) by (simp add: of_nat_diff)
  have zero: "(word_of_nat (k - 1) :: uint32) = 0 \<longleftrightarrow> k = 1"
  proof -
    have "unat (word_of_nat (k - 1) :: uint32) = k - 1" using assms(3) by simp
    then have "(word_of_nat (k - 1) :: uint32) = 0 \<longleftrightarrow> k - 1 = 0" by (metis unat_eq_0)
    then show ?thesis using assms(2) by linarith
  qed
  show "memstream_QueryInterface (stream_held mem self s k) self riid =
      Some (if riid = IID_Other then E_NOINTERFACE else S_OK, if riid = IID_Other then NULL else self,
        stream_held mem self s (com_held (Query riid) k))"
    using l assms(2) by (cases riid) (simp_all add: memstream_QueryInterface_def mem_simps stream_held_def add.commute o_def)
  show "memstream_AddRef (stream_held mem self s k) self = Some (word_of_nat (k + 1), stream_held mem self s (k + 1))"
    using l assms(2) by (simp add: memstream_AddRef_def mem_simps stream_held_def add.commute o_def)
  show "memstream_Release (stream_held mem self s k) self = Some (word_of_nat (k - 1), stream_held mem self s (k - 1))"
    using l assms(2) dec zero by (auto simp: memstream_Release_def mem_simps stream_held_def Let_def o_def)
qed

lemma com_run_held:
  "self \<noteq> NULL \<Longrightarrow> com_valid cs k \<Longrightarrow>
   com_run (stream_held mem self s k) self cs = Some (stream_held mem self s (fold com_held cs k))"
proof (induction cs arbitrary: k)
  case (Cons c cs)
  then show ?case by (cases c) (simp_all add: com_step)
qed simp

text \<open>
  C25. A stream lives exactly as long as its client holds references: after any valid calls, a created
  stream has the count of the references held, its data and position unchanged, and it is freed by
  the very \<open>Release\<close> that gives the last one back; nothing else in memory is touched.
\<close>

theorem memstream_lifetime:
  assumes "p \<noteq> NULL" and "com_valid calls 1"
    and "memstream_create p mem buffer n = (hr, self, mem0)"
  shows "\<exists>mem'. com_run mem0 self calls = Some mem' \<and>
    mem' p = (if fold com_held calls 1 = 0 then None
      else Some \<lparr>ms_refs = word_of_nat (fold com_held calls 1), ms_buffer = buffer, ms_pos = 0, ms_size = n\<rparr>) \<and>
    (\<forall>q. q \<noteq> p \<longrightarrow> mem' q = mem q)"
proof -
  let ?s = "\<lparr>ms_refs = 1, ms_buffer = buffer, ms_pos = 0, ms_size = n\<rparr>"
  have "self = p" "mem0 = stream_held mem p ?s 1"
    using assms(1,3) by (auto simp: memstream_create_def stream_held_def)
  then show ?thesis using com_run_held [OF assms(1,2), of mem ?s] by (simp add: stream_held_def)
qed

lemma memstream_lifetime_witness:
  "\<exists>mem'. com_run [4096 \<mapsto> \<lparr>ms_refs = 1, ms_buffer = [1], ms_pos = 0, ms_size = 1\<rparr>] 4096
      [Add_Ref, Query IID_IStream, Release_Ref, Query IID_Other, Release_Ref, Release_Ref] = Some mem' \<and> mem' 4096 = None"
proof -
  have "memstream_create 4096 Map.empty [1] 1 = (S_OK, 4096, [4096 \<mapsto> \<lparr>ms_refs = 1, ms_buffer = [1], ms_pos = 0, ms_size = 1\<rparr>])"
    by (simp add: memstream_create_def)
  from memstream_lifetime [OF _ _ this, of "[Add_Ref, Query IID_IStream, Release_Ref, Query IID_Other, Release_Ref, Release_Ref]"]
  show ?thesis by (auto simp: numeral_3_eq_3 simp del: com_run.simps)
qed

end
