(* ===== verification/Cmdline.thy ===== *)
theory Cmdline
  imports CRE_Prelude
begin

text \<open>
  \<open>misc/cmdline.c\<close>: the command line parser. A C string is the list of its characters, without the
  terminator; the characters are \<open>char\<close> values as bytes. The callback of the program is an argument,
  with the program's own data (\<open>userdata\<close>) passed through it.
\<close>

section \<open>Strings\<close>

text \<open>\<open>s[k]\<close>: the terminator is readable, what is behind it is not.\<close>

definition char_at :: "byte list \<Rightarrow> nat \<Rightarrow> byte option" where
  "char_at s k = (if k < length s then Some (s ! k) else if k = length s then Some 0 else None)"

text \<open>\<open>strncmp(a, b, n) == 0\<close>\<close>

fun strncmp_eq :: "byte list \<Rightarrow> byte list \<Rightarrow> nat \<Rightarrow> bool" where
  "strncmp_eq xs ys 0 = True"
| "strncmp_eq (x # xs) (y # ys) (Suc n) = (x = y \<and> strncmp_eq xs ys n)"
| "strncmp_eq [] [] (Suc n) = True"
| "strncmp_eq _ _ (Suc n) = False"

abbreviation dash :: byte where "dash \<equiv> 45"
abbreviation equals :: byte where "equals \<equiv> 61"

section \<open>Options\<close>

record CMDLINE_OPTION =
  shortname :: byte
  longname :: "byte list option"
  opt_id :: int
  flags :: uint32

definition CMDLINE_OPTFLAG_OPTIONALARG :: uint32 where "CMDLINE_OPTFLAG_OPTIONALARG = 1"
definition CMDLINE_OPTFLAG_REQUIREDARG :: uint32 where "CMDLINE_OPTFLAG_REQUIREDARG = 2"
definition CMDLINE_OPTFLAG_COMPILERLIKE :: uint32 where "CMDLINE_OPTFLAG_COMPILERLIKE = 4"

definition CMDLINE_OPTID_NONE :: int where "CMDLINE_OPTID_NONE = 0"
definition CMDLINE_OPTID_UNKNOWN :: int where "CMDLINE_OPTID_UNKNOWN = - 0x7fffffff + 0"
definition CMDLINE_OPTID_MISSINGARG :: int where "CMDLINE_OPTID_MISSINGARG = - 0x7fffffff + 1"
definition CMDLINE_OPTID_BOGUSARG :: int where "CMDLINE_OPTID_BOGUSARG = - 0x7fffffff + 2"

definition CMDLINE_AUXBUF_SIZE :: nat where "CMDLINE_AUXBUF_SIZE = 32"

definition has_flag :: "CMDLINE_OPTION \<Rightarrow> uint32 \<Rightarrow> bool" where
  "has_flag opt flag \<longleftrightarrow> flags opt AND flag \<noteq> 0"

type_synonym 'u callback = "int \<Rightarrow> byte list option \<Rightarrow> 'u \<Rightarrow> int \<times> 'u"

section \<open>A group of short options\<close>

text \<open>
  The options array ends with a record whose id is 0; running past its end is undefined. The search
  loop stops at the option or at that record.
\<close>

fun cmdline_find_short :: "CMDLINE_OPTION list \<Rightarrow> byte \<Rightarrow> CMDLINE_OPTION option" where
  "cmdline_find_short [] c = None"
| "cmdline_find_short (opt # opts) c =
     (if opt_id opt = 0 \<or> c = shortname opt then Some opt else cmdline_find_short opts c)"

fun cmdline_handle_short_opt_group ::
    "CMDLINE_OPTION list \<Rightarrow> byte list \<Rightarrow> 'u callback \<Rightarrow> 'u \<Rightarrow> (int \<times> 'u) option" where
  "cmdline_handle_short_opt_group options [] callback userdata = Some (0, userdata)"
| "cmdline_handle_short_opt_group options (c # cs) callback userdata = do {
     opt \<leftarrow> cmdline_find_short options c;
     let (ret, userdata) =
       (if opt_id opt \<noteq> 0 \<and> \<not> has_flag opt CMDLINE_OPTFLAG_REQUIREDARG then callback (opt_id opt) None userdata
        else callback (if opt_id opt \<noteq> 0 then CMDLINE_OPTID_MISSINGARG else CMDLINE_OPTID_UNKNOWN) (Some [dash, c]) userdata);
     if ret \<noteq> 0 then Some (ret, userdata)
     else cmdline_handle_short_opt_group options cs callback userdata
   }"

section \<open>One option against one token\<close>

text \<open>
  \<open>arg\<close> is \<open>argv[i]\<close> and \<open>rest\<close> the tokens after it. The result of a match is what the callback gave, and how
  many tokens of \<open>rest\<close> were used up (\<open>++i\<close>); \<open>Some None\<close> continues with the next option.
\<close>

definition cmdline_compilerlike ::
    "CMDLINE_OPTION \<Rightarrow> byte list \<Rightarrow> byte list list \<Rightarrow> 'u callback \<Rightarrow> 'u \<Rightarrow> (int \<times> 'u \<times> nat) option option" where
  "cmdline_compilerlike opt arg rest callback userdata = do {
     name \<leftarrow> longname opt;
     let len = length name;
     if strncmp_eq arg name len then do {
       c \<leftarrow> char_at arg len;
       Some (Some (if c \<noteq> 0 then (let (ret, u) = callback (opt_id opt) (Some (drop len arg)) userdata in (ret, u, 0))
         else case rest of
             next # _ \<Rightarrow> (let (ret, u) = callback (opt_id opt) (Some next) userdata in (ret, u, 1))
           | [] \<Rightarrow> (let (ret, u) = callback CMDLINE_OPTID_MISSINGARG (Some name) userdata in (ret, u, 0))))
     }
     else Some None
   }"

definition cmdline_long ::
    "CMDLINE_OPTION \<Rightarrow> byte list \<Rightarrow> byte list \<Rightarrow> 'u callback \<Rightarrow> 'u \<Rightarrow> (int \<times> 'u \<times> nat) option option" where
  "cmdline_long opt name arg callback userdata = (
     let len = length name in
     if strncmp_eq (drop 2 arg) name len then do {
       c \<leftarrow> char_at arg (2 + len);
       if c = 0 then
         Some (Some (let (ret, u) =
             (if \<not> has_flag opt CMDLINE_OPTFLAG_REQUIREDARG then callback (opt_id opt) None userdata
              else callback CMDLINE_OPTID_MISSINGARG (Some arg) userdata) in (ret, u, 0)))
       else if c = equals then
         Some (Some (let (ret, u) =
             (if has_flag opt (CMDLINE_OPTFLAG_OPTIONALARG OR CMDLINE_OPTFLAG_REQUIREDARG)
              then callback (opt_id opt) (Some (drop (2 + len + 1) arg)) userdata
              else callback CMDLINE_OPTID_BOGUSARG (Some (take (CMDLINE_AUXBUF_SIZE - 1) ([dash, dash] @ name))) userdata)
           in (ret, u, 0)))
       else Some None
     }
     else Some None)"

definition cmdline_short ::
    "CMDLINE_OPTION list \<Rightarrow> CMDLINE_OPTION \<Rightarrow> byte list \<Rightarrow> byte list list \<Rightarrow> 'u callback \<Rightarrow> 'u
      \<Rightarrow> (int \<times> 'u \<times> nat) option option" where
  "cmdline_short options opt arg rest callback userdata = do {
     c1 \<leftarrow> char_at arg 1;
     if c1 = shortname opt then do {
       c2 \<leftarrow> char_at arg 2;
       if has_flag opt CMDLINE_OPTFLAG_REQUIREDARG then
         Some (Some (if c2 \<noteq> 0 then (let (ret, u) = callback (opt_id opt) (Some (drop 2 arg)) userdata in (ret, u, 0))
           else case rest of
               next # _ \<Rightarrow> (let (ret, u) = callback (opt_id opt) (Some next) userdata in (ret, u, 1))
             | [] \<Rightarrow> (let (ret, u) = callback CMDLINE_OPTID_MISSINGARG (Some arg) userdata in (ret, u, 0))))
       else do {
         let (ret, userdata) = callback (opt_id opt) None userdata;
         (ret, userdata) \<leftarrow> (if ret = 0 \<and> c2 \<noteq> 0
            then cmdline_handle_short_opt_group options (drop 2 arg) callback userdata else Some (ret, userdata));
         Some (Some (ret, userdata, 0))
       }
     }
     else Some None
   }"

definition cmdline_try_option ::
    "CMDLINE_OPTION list \<Rightarrow> CMDLINE_OPTION \<Rightarrow> byte list \<Rightarrow> byte list list \<Rightarrow> 'u callback \<Rightarrow> 'u
      \<Rightarrow> (int \<times> 'u \<times> nat) option option" where
  "cmdline_try_option options opt arg rest callback userdata =
     (if has_flag opt CMDLINE_OPTFLAG_COMPILERLIKE then cmdline_compilerlike opt arg rest callback userdata
      else case (longname opt, strncmp_eq arg [dash, dash] 2) of
          (Some name, True) \<Rightarrow> cmdline_long opt name arg callback userdata
        | _ \<Rightarrow> do {
            c0 \<leftarrow> char_at arg 0;
            if shortname opt \<noteq> 0 \<and> c0 = dash then cmdline_short options opt arg rest callback userdata else Some None
          })"

fun cmdline_match ::
    "CMDLINE_OPTION list \<Rightarrow> CMDLINE_OPTION list \<Rightarrow> byte list \<Rightarrow> byte list list \<Rightarrow> 'u callback \<Rightarrow> 'u
      \<Rightarrow> (int \<times> 'u \<times> nat) option option" where
  "cmdline_match options [] arg rest callback userdata = None"
| "cmdline_match options (opt # opts) arg rest callback userdata =
     (if opt_id opt = 0 then Some None
      else do {
        res \<leftarrow> cmdline_try_option options opt arg rest callback userdata;
        (case res of Some r \<Rightarrow> Some (Some r) | None \<Rightarrow> cmdline_match options opts arg rest callback userdata)
      })"

section \<open>The command line\<close>

text \<open>The name reported for an unknown option: a long option loses its argument.\<close>

definition cmdline_badoptname :: "byte list \<Rightarrow> byte list" where
  "cmdline_badoptname arg =
     (if strncmp_eq arg [dash, dash] 2 \<and> equals \<in> set arg
      then take CMDLINE_AUXBUF_SIZE (takeWhile (\<lambda>c. c \<noteq> equals) arg) else arg)"

definition cmdline_unhandled :: "byte list \<Rightarrow> 'u callback \<Rightarrow> 'u \<Rightarrow> (int \<times> 'u) option" where
  "cmdline_unhandled arg callback userdata = do {
     c0 \<leftarrow> char_at arg 0;
     Some (if c0 \<noteq> dash then callback CMDLINE_OPTID_NONE (Some arg) userdata
           else callback CMDLINE_OPTID_UNKNOWN (Some (cmdline_badoptname arg)) userdata)
   }"

fun cmdline_fast_optarg_decision :: "CMDLINE_OPTION list \<Rightarrow> bool option" where
  "cmdline_fast_optarg_decision [] = None"
| "cmdline_fast_optarg_decision (opt # opts) =
     (if opt_id opt = 0 then Some True
      else do {
        this \<leftarrow> (if has_flag opt CMDLINE_OPTFLAG_COMPILERLIKE
                then do { name \<leftarrow> longname opt; c \<leftarrow> char_at name 0; Some (c = dash) } else Some True);
        later \<leftarrow> cmdline_fast_optarg_decision opts;
        Some (this \<and> later)
      })"

text \<open>One turn of the loop: the result, the data, \<open>after_doubledash\<close> and the tokens used after this one.\<close>

definition cmdline_token ::
    "CMDLINE_OPTION list \<Rightarrow> bool \<Rightarrow> bool \<Rightarrow> byte list \<Rightarrow> byte list list \<Rightarrow> 'u callback \<Rightarrow> 'u
      \<Rightarrow> (int \<times> 'u \<times> bool \<times> nat) option" where
  "cmdline_token options fast after_doubledash arg rest callback userdata =
     (if after_doubledash \<or> arg = [dash]
      then (let (ret, u) = callback CMDLINE_OPTID_NONE (Some arg) userdata in Some (ret, u, after_doubledash, 0))
      else if arg = [dash, dash] then Some (0, userdata, True, 0)
      else do {
        c0 \<leftarrow> char_at arg 0;
        if fast \<and> c0 \<noteq> dash
        then (let (ret, u) = callback CMDLINE_OPTID_NONE (Some arg) userdata in Some (ret, u, after_doubledash, 0))
        else do {
          res \<leftarrow> cmdline_match options options arg rest callback userdata;
          (case res of
             Some (ret, u, used) \<Rightarrow> Some (ret, u, after_doubledash, used)
           | None \<Rightarrow> do { (ret, u) \<leftarrow> cmdline_unhandled arg callback userdata; Some (ret, u, after_doubledash, 0) })
        }
      })"

function cmdline_loop ::
    "CMDLINE_OPTION list \<Rightarrow> bool \<Rightarrow> bool \<Rightarrow> byte list list \<Rightarrow> 'u callback \<Rightarrow> 'u \<Rightarrow> (int \<times> 'u) option" where
  "cmdline_loop options fast after_doubledash [] callback userdata = Some (0, userdata)"
| "cmdline_loop options fast after_doubledash (arg # rest) callback userdata = do {
     (ret, userdata, after_doubledash, used) \<leftarrow> cmdline_token options fast after_doubledash arg rest callback userdata;
     if ret \<noteq> 0 then Some (ret, userdata)
     else cmdline_loop options fast after_doubledash (drop used rest) callback userdata
   }"
  by pat_completeness auto
termination
  by (relation "measure (\<lambda>(_, _, _, args, _). length args)") auto

definition cmdline_read ::
    "CMDLINE_OPTION list \<Rightarrow> byte list list \<Rightarrow> 'u callback \<Rightarrow> 'u \<Rightarrow> (int \<times> 'u) option" where
  "cmdline_read options argv callback userdata = do {
     fast \<leftarrow> cmdline_fast_optarg_decision options;
     cmdline_loop options fast False (drop 1 argv) callback userdata
   }"

end
