(* ===== verification/Cmdline_Spec.thy ===== *)
theory Cmdline_Spec
  imports Cmdline
begin

text \<open>
  What the parser of \<open>misc/cmdline.c\<close> promises: which calls the program gets, for any command line and any
  callback; what may be in a call; and that every well-formed use of the options is read back.
\<close>

section \<open>The calls of a command line\<close>

type_synonym call = "int \<times> byte list option"

fun run_calls :: "'u callback \<Rightarrow> call list \<Rightarrow> 'u \<Rightarrow> int \<times> 'u" where
  "run_calls callback [] u = (0, u)"
| "run_calls callback ((oid, arg) # calls) u =
     (let (ret, u) = callback oid arg u in if ret \<noteq> 0 then (ret, u) else run_calls callback calls u)"

text \<open>The callback that accepts everything and keeps a record; the calls of a command line are its record.\<close>

fun log_callback :: "call list callback" where
  "log_callback oid arg calls = (0, calls @ [(oid, arg)])"

declare log_callback.simps [simp del]

definition cmdline_calls :: "CMDLINE_OPTION list \<Rightarrow> byte list list \<Rightarrow> call list" where
  "cmdline_calls options argv = snd (the (cmdline_read options argv log_callback []))"

text \<open>An options array has its end record, and names its compiler-like options.\<close>

fun options_ok :: "CMDLINE_OPTION list \<Rightarrow> bool" where
  "options_ok [] = False"
| "options_ok (opt # opts) =
     (opt_id opt = 0 \<or> (has_flag opt CMDLINE_OPTFLAG_COMPILERLIKE \<longrightarrow> longname opt \<noteq> None) \<and> options_ok opts)"

text \<open>What a call may be: its id is that of an option of the table (or a special one), and its argument fits the flags.\<close>

definition special_id :: "int \<Rightarrow> bool" where
  "special_id oid \<longleftrightarrow> oid \<in> {CMDLINE_OPTID_NONE, CMDLINE_OPTID_UNKNOWN, CMDLINE_OPTID_MISSINGARG, CMDLINE_OPTID_BOGUSARG}"

definition takes_arg :: "CMDLINE_OPTION \<Rightarrow> bool" where
  "takes_arg opt \<longleftrightarrow> has_flag opt CMDLINE_OPTFLAG_COMPILERLIKE \<or>
     has_flag opt (CMDLINE_OPTFLAG_OPTIONALARG OR CMDLINE_OPTFLAG_REQUIREDARG)"

text \<open>
  \<open>G\<close> are the letters of the groups: all but the first in a token with a dash. Only as such a letter is a
  compiler-like option reported without an argument; \<open>cmdline.h\<close> says that this never happens.
\<close>

definition group_letters :: "byte list list \<Rightarrow> byte set" where
  "group_letters tokens = (\<Union>t \<in> set tokens. if t \<noteq> [] \<and> hd t = dash then set (drop 2 t) else {})"

definition call_ok :: "CMDLINE_OPTION list \<Rightarrow> byte set \<Rightarrow> call \<Rightarrow> bool" where
  "call_ok options G call = (case call of
       (oid, None) \<Rightarrow> \<exists>opt \<in> set options. opt_id opt = oid \<and> oid \<noteq> 0 \<and> \<not> has_flag opt CMDLINE_OPTFLAG_REQUIREDARG \<and>
         (has_flag opt CMDLINE_OPTFLAG_COMPILERLIKE \<longrightarrow> shortname opt \<in> G)
     | (oid, Some arg) \<Rightarrow> special_id oid \<or> (\<exists>opt \<in> set options. opt_id opt = oid \<and> oid \<noteq> 0 \<and> takes_arg opt))"

lemma run_calls_append:
  "run_calls cb (xs @ ys) u = (case run_calls cb xs u of (ret, u) \<Rightarrow> if ret \<noteq> 0 then (ret, u) else run_calls cb ys u)"
  by (induction cb xs u rule: run_calls.induct) (auto simp: Let_def split: prod.splits)

lemma run_calls_single [simp]: "run_calls cb [(oid, arg)] u = cb oid arg u"
  by (auto simp: Let_def split: prod.splits)

lemma log_calls [simp]: "run_calls log_callback calls l = (0, l @ calls)"
  by (induction calls arbitrary: l) (auto simp: log_callback.simps)

lemma strncmp_prefix: "strncmp_eq xs ys (length ys) \<longleftrightarrow> (\<exists>zs. xs = ys @ zs)"
proof (induction ys arbitrary: xs)
  case (Cons y ys)
  then show ?case by (cases xs) auto
qed simp

lemma strncmp_dashes: "strncmp_eq xs [dash, dash] 2 \<longleftrightarrow> (\<exists>zs. xs = dash # dash # zs)"
  using strncmp_prefix [of xs "[dash, dash]"] by (simp add: numeral_2_eq_2)

lemma char_at_in: "k \<le> length s \<Longrightarrow> \<exists>c. char_at s k = Some c"
  by (simp add: char_at_def)

lemma char_at_next: "char_at s k = Some c \<Longrightarrow> c \<noteq> 0 \<Longrightarrow> k < length s"
  by (auto simp: char_at_def split: if_splits)

lemma find_short_in: "options_ok opts \<Longrightarrow> \<exists>opt. cmdline_find_short opts c = Some opt \<and> opt \<in> set opts \<and>
    (opt_id opt \<noteq> 0 \<longrightarrow> shortname opt = c)"
  by (induction opts) auto

text \<open>
  Every part of the parser acts through a list of calls that does not depend on the callback. A part
  that yields \<open>(ret, u)\<close>, and one that also yields how the loop goes on.
\<close>

lemma group_calls_all:
  assumes "options_ok options"
  shows "set cs \<subseteq> G \<Longrightarrow> \<exists>calls. (\<forall>l. cmdline_handle_short_opt_group options cs log_callback l = Some (0, l @ calls)) \<and>
    (\<forall>u. cmdline_handle_short_opt_group options cs cb u = Some (run_calls cb calls u)) \<and> list_all (call_ok options G) calls"
proof (induction cs)
  case Nil
  then show ?case by (intro exI [of _ "[]"]) simp
next
  case (Cons c cs)
  then have "set cs \<subseteq> G" by simp
  with Cons.IH obtain calls where ih: "\<And>l. cmdline_handle_short_opt_group options cs log_callback l = Some (0, l @ calls)"
    "\<And>u. cmdline_handle_short_opt_group options cs cb u = Some (run_calls cb calls u)" "list_all (call_ok options G) calls"
    by blast
  obtain opt where opt: "cmdline_find_short options c = Some opt" "opt \<in> set options" "opt_id opt \<noteq> 0 \<longrightarrow> shortname opt \<in> G"
    using find_short_in [OF assms, of c] Cons.prems by auto
  define oid arg where "oid = (if opt_id opt \<noteq> 0 \<and> \<not> has_flag opt CMDLINE_OPTFLAG_REQUIREDARG then opt_id opt
     else if opt_id opt \<noteq> 0 then CMDLINE_OPTID_MISSINGARG else CMDLINE_OPTID_UNKNOWN)"
    and "arg = (if opt_id opt \<noteq> 0 \<and> \<not> has_flag opt CMDLINE_OPTFLAG_REQUIREDARG then None else Some [dash, c])"
  have code: "cmdline_handle_short_opt_group options (c # cs) cb u =
      (let (ret, u) = cb oid arg u in if ret \<noteq> 0 then Some (ret, u) else cmdline_handle_short_opt_group options cs cb u)"
    for cb :: "'b callback" and u
    using opt(1) by (simp add: oid_def arg_def)
  have "call_ok options G (oid, arg)" using opt(2,3) by (auto simp: oid_def arg_def call_ok_def special_id_def)
  then show ?case unfolding code using ih
    by (intro exI [of _ "(oid, arg) # calls"]) (auto simp: Let_def log_callback.simps split: prod.splits)
qed

text \<open>
  The same for one turn of the loop. \<open>follows f g calls x\<close>: with the recording callback \<open>f\<close> records \<open>calls\<close>, with
  the program's callback \<open>g\<close> makes them until one is refused, and both go on alike (\<open>x\<close>).
\<close>

definition follows ::
    "'u callback \<Rightarrow> (call list \<Rightarrow> (int \<times> call list \<times> 'x) option) \<Rightarrow> ('u \<Rightarrow> (int \<times> 'u \<times> 'x) option) \<Rightarrow> call list \<Rightarrow> 'x \<Rightarrow> bool" where
  "follows cb f g calls x \<longleftrightarrow>
     (\<forall>l. f l = Some (0, l @ calls, x)) \<and>
     (\<forall>u. g u = Some (fst (run_calls cb calls u), snd (run_calls cb calls u), x))"

lemma follows_call:
  "follows cb (\<lambda>l. Some (let (ret, u) = log_callback oid arg l in (ret, u, x)))
     (\<lambda>u. Some (let (ret, u) = cb oid arg u in (ret, u, x))) [(oid, arg)] x"
  by (simp add: follows_def Let_def split_beta log_callback.simps)

text \<open>One option against one token: no match for any callback, or a match with the same calls for all.\<close>

definition matches ::
    "CMDLINE_OPTION list \<Rightarrow> byte set \<Rightarrow> 'u callback \<Rightarrow> (call list \<Rightarrow> (int \<times> call list \<times> nat) option option)
      \<Rightarrow> ('u \<Rightarrow> (int \<times> 'u \<times> nat) option option) \<Rightarrow> bool" where
  "matches options G cb f g \<longleftrightarrow>
     (\<forall>l. f l = Some None) \<and> (\<forall>u. g u = Some None) \<or>
     (\<exists>calls used. list_all (call_ok options G) calls \<and> (\<forall>l. f l = Some (Some (0, l @ calls, used))) \<and>
       (\<forall>u. g u = Some (Some (fst (run_calls cb calls u), snd (run_calls cb calls u), used))))"

lemma matches_none: "matches options G cb (\<lambda>_. Some None) (\<lambda>_. Some None)"
  by (simp add: matches_def)

lemma matches_call:
  "call_ok options G (oid, arg) \<Longrightarrow>
   matches options G cb (\<lambda>l. Some (Some (let (ret, u) = log_callback oid arg l in (ret, u, used))))
     (\<lambda>u. Some (Some (let (ret, u) = cb oid arg u in (ret, u, used))))"
  unfolding matches_def
  by (intro disjI2 exI [of _ "[(oid, arg)]"] exI [of _ used]) (simp add: Let_def split_beta log_callback.simps)

lemma matches_if:
  "(b \<Longrightarrow> matches options G cb f g) \<Longrightarrow> (\<not> b \<Longrightarrow> matches options G cb f' g') \<Longrightarrow>
   matches options G cb (\<lambda>l. if b then f l else f' l) (\<lambda>u. if b then g u else g' u)"
  by (cases b) simp_all

lemma matches_rest:
  "(\<And>x xs. matches options G cb (f x xs) (g x xs)) \<Longrightarrow> matches options G cb f' g' \<Longrightarrow>
   matches options G cb (\<lambda>l. case rest of x # xs \<Rightarrow> f x xs l | [] \<Rightarrow> f' l) (\<lambda>u. case rest of x # xs \<Rightarrow> g x xs u | [] \<Rightarrow> g' u)"
  by (cases rest) simp_all

lemma special_call_ok: "call_ok options G (CMDLINE_OPTID_MISSINGARG, Some a)" "call_ok options G (CMDLINE_OPTID_BOGUSARG, Some a)"
  "call_ok options G (CMDLINE_OPTID_UNKNOWN, Some a)" "call_ok options G (CMDLINE_OPTID_NONE, Some a)"
  by (simp_all add: call_ok_def special_id_def)

lemma has_flag_or: "has_flag opt (a OR b) \<longleftrightarrow> has_flag opt a \<or> has_flag opt b"
  by (simp add: has_flag_def bit.conj_disj_distrib or_eq_0_iff)

lemma arg_call_ok:
  "opt \<in> set options \<Longrightarrow> opt_id opt \<noteq> 0 \<Longrightarrow> takes_arg opt \<Longrightarrow> call_ok options G (opt_id opt, Some a)"
  "opt \<in> set options \<Longrightarrow> opt_id opt \<noteq> 0 \<Longrightarrow> \<not> has_flag opt CMDLINE_OPTFLAG_REQUIREDARG \<Longrightarrow> \<not> has_flag opt CMDLINE_OPTFLAG_COMPILERLIKE \<Longrightarrow>
    call_ok options G (opt_id opt, None)"
  by (auto simp: call_ok_def)

lemma compilerlike_matches:
  assumes "opt \<in> set options" "opt_id opt \<noteq> 0" "has_flag opt CMDLINE_OPTFLAG_COMPILERLIKE" "longname opt = Some name"
  shows "matches options G cb (cmdline_compilerlike opt arg rest log_callback) (cmdline_compilerlike opt arg rest cb)"
proof (cases "strncmp_eq arg name (length name)")
  case False
  then show ?thesis using assms(4) by (simp add: matches_def cmdline_compilerlike_def)
next
  case True
  then obtain zs where arg: "arg = name @ zs" using strncmp_prefix by blast
  then obtain c where c: "char_at arg (length name) = Some c" using char_at_in [of "length name" arg] by auto
  have ok: "call_ok options G (opt_id opt, Some a)" for a using assms by (intro arg_call_ok) (simp_all add: takes_arg_def)
  have code: "cmdline_compilerlike opt arg rest cb = (\<lambda>u.
      if c \<noteq> 0 then Some (Some (let (ret, u) = cb (opt_id opt) (Some (drop (length name) arg)) u in (ret, u, 0)))
      else case rest of
          next # _ \<Rightarrow> Some (Some (let (ret, u) = cb (opt_id opt) (Some next) u in (ret, u, 1)))
        | [] \<Rightarrow> Some (Some (let (ret, u) = cb CMDLINE_OPTID_MISSINGARG (Some name) u in (ret, u, 0))))" for cb :: "'b callback"
    using True assms(4) c by (auto simp: cmdline_compilerlike_def fun_eq_iff split: list.split)
  show ?thesis unfolding code
    by (intro matches_if matches_rest matches_call ok special_call_ok)
qed


lemma long_matches:
  assumes "opt \<in> set options" "opt_id opt \<noteq> 0" "arg = dash # dash # rest" "\<not> has_flag opt CMDLINE_OPTFLAG_COMPILERLIKE"
  shows "matches options G cb (cmdline_long opt name arg log_callback) (cmdline_long opt name arg cb)"
proof (cases "strncmp_eq rest name (length name)")
  case False
  then show ?thesis using assms(3) by (simp add: matches_def cmdline_long_def numeral_2_eq_2)
next
  case True
  then obtain zs where "rest = name @ zs" using strncmp_prefix by blast
  then obtain c where c: "char_at arg (2 + length name) = Some c"
    using char_at_in [of "2 + length name" arg] assms(3) by auto
  have ok: "has_flag opt (CMDLINE_OPTFLAG_OPTIONALARG OR CMDLINE_OPTFLAG_REQUIREDARG) \<Longrightarrow> call_ok options G (opt_id opt, Some a)"
    "\<not> has_flag opt CMDLINE_OPTFLAG_REQUIREDARG \<Longrightarrow> call_ok options G (opt_id opt, None)" for a
    using assms by (auto simp: takes_arg_def intro: arg_call_ok)
  have code: "cmdline_long opt name arg cb = (\<lambda>u.
      if c = 0 then (if \<not> has_flag opt CMDLINE_OPTFLAG_REQUIREDARG
          then Some (Some (let (ret, u) = cb (opt_id opt) None u in (ret, u, 0)))
          else Some (Some (let (ret, u) = cb CMDLINE_OPTID_MISSINGARG (Some arg) u in (ret, u, 0))))
      else if c = equals then
        (if has_flag opt (CMDLINE_OPTFLAG_OPTIONALARG OR CMDLINE_OPTFLAG_REQUIREDARG)
         then Some (Some (let (ret, u) = cb (opt_id opt) (Some (drop (2 + length name + 1) arg)) u in (ret, u, 0)))
         else Some (Some (let (ret, u) = cb CMDLINE_OPTID_BOGUSARG
            (Some (take (CMDLINE_AUXBUF_SIZE - 1) ([dash, dash] @ name))) u in (ret, u, 0))))
      else Some None)" for cb :: "'b callback"
    using True assms(3) c by (auto simp: cmdline_long_def fun_eq_iff numeral_2_eq_2)
  show ?thesis unfolding code
    by (intro matches_if matches_call matches_none ok special_call_ok)
qed

lemma group_matches:
  assumes "options_ok options" "set cs \<subseteq> G" "call_ok options G (oid, None)"
  shows "matches options G cb
    (\<lambda>l. do { let (ret, u) = log_callback oid None l;
        (ret, u) \<leftarrow> (if ret = 0 \<and> again then cmdline_handle_short_opt_group options cs log_callback u else Some (ret, u));
        Some (Some (ret, u, 0)) })
    (\<lambda>u. do { let (ret, u) = cb oid None u;
        (ret, u) \<leftarrow> (if ret = 0 \<and> again then cmdline_handle_short_opt_group options cs cb u else Some (ret, u));
        Some (Some (ret, u, 0)) })"
proof -
  have "\<exists>calls. (\<forall>l. cmdline_handle_short_opt_group options cs log_callback l = Some (0, l @ calls)) \<and>
      (\<forall>u. cmdline_handle_short_opt_group options cs cb u = Some (run_calls cb calls u)) \<and> list_all (call_ok options G) calls"
    using group_calls_all [OF assms(1,2)] by blast
  then obtain calls where c: "\<And>l. cmdline_handle_short_opt_group options cs log_callback l = Some (0, l @ calls)"
    "\<And>u. cmdline_handle_short_opt_group options cs cb u = Some (run_calls cb calls u)" "list_all (call_ok options G) calls"
    by blast
  define calls' where "calls' = (oid, None) # (if again then calls else [])"
  have "list_all (call_ok options G) calls'" using c(3) assms(3) by (simp add: calls'_def)
  then show ?thesis unfolding matches_def
    by (intro disjI2 exI [of _ calls'] exI [of _ 0])
      (auto simp: calls'_def log_callback.simps Let_def c split_beta)
qed

lemma short_matches:
  assumes "opt \<in> set options" "opt_id opt \<noteq> 0" "options_ok options" "arg = dash # cs" "shortname opt \<noteq> 0"
    and "\<not> has_flag opt CMDLINE_OPTFLAG_COMPILERLIKE" "group_letters [arg] \<subseteq> G"
  shows "matches options G cb (cmdline_short options opt arg rest log_callback) (cmdline_short options opt arg rest cb)"
proof -
  obtain c1 where c1: "char_at arg 1 = Some c1" using char_at_in [of 1 arg] assms(4) by auto
  show ?thesis
  proof (cases "c1 = shortname opt")
    case False
    then show ?thesis using c1 by (simp add: matches_def cmdline_short_def)
  next
    case True
    then have "2 \<le> length arg" using char_at_next [OF c1] assms(5) by simp
    then obtain c2 where c2: "char_at arg 2 = Some c2" using char_at_in by blast
    have letters: "set (drop 2 arg) \<subseteq> G"
      using assms(4,7) by (simp add: group_letters_def)
    have ok: "has_flag opt CMDLINE_OPTFLAG_REQUIREDARG \<Longrightarrow> call_ok options G (opt_id opt, Some a)"
      "\<not> has_flag opt CMDLINE_OPTFLAG_REQUIREDARG \<Longrightarrow> call_ok options G (opt_id opt, None)" for a
      using assms by (auto simp: takes_arg_def has_flag_or intro: arg_call_ok)
    have code: "cmdline_short options opt arg rest cb = (\<lambda>u.
        if has_flag opt CMDLINE_OPTFLAG_REQUIREDARG then
          (if c2 \<noteq> 0 then Some (Some (let (ret, u) = cb (opt_id opt) (Some (drop 2 arg)) u in (ret, u, 0)))
           else case rest of
               next # _ \<Rightarrow> Some (Some (let (ret, u) = cb (opt_id opt) (Some next) u in (ret, u, 1)))
             | [] \<Rightarrow> Some (Some (let (ret, u) = cb CMDLINE_OPTID_MISSINGARG (Some arg) u in (ret, u, 0))))
        else do { let (ret, u) = cb (opt_id opt) None u;
          (ret, u) \<leftarrow> (if ret = 0 \<and> c2 \<noteq> 0 then cmdline_handle_short_opt_group options (drop 2 arg) cb u else Some (ret, u));
          Some (Some (ret, u, 0)) })" for cb :: "'b callback"
      using True c1 c2 by (auto simp: cmdline_short_def fun_eq_iff split: list.split)
    show ?thesis unfolding code
      by (intro matches_if matches_rest matches_call group_matches assms(3) letters ok special_call_ok)
  qed
qed

lemma try_option_matches:
  assumes "opt \<in> set options" "opt_id opt \<noteq> 0" "options_ok options"
    and "has_flag opt CMDLINE_OPTFLAG_COMPILERLIKE \<longrightarrow> longname opt \<noteq> None" and "group_letters [arg] \<subseteq> G"
  shows "matches options G cb (cmdline_try_option options opt arg rest log_callback) (cmdline_try_option options opt arg rest cb)"
proof (cases "has_flag opt CMDLINE_OPTFLAG_COMPILERLIKE")
  case True
  then show ?thesis using assms compilerlike_matches by (fastforce simp: cmdline_try_option_def [abs_def])
next
  case False
  note plain = False
  show ?thesis
  proof (cases "longname opt \<noteq> None \<and> strncmp_eq arg [dash, dash] 2")
    case True
    then obtain name zs where "longname opt = Some name" "arg = dash # dash # zs" by (auto simp: strncmp_dashes)
    then show ?thesis using long_matches [OF assms(1,2) _ plain] plain True by (simp add: cmdline_try_option_def [abs_def])
  next
    case False
    obtain c0 where c0: "char_at arg 0 = Some c0" using char_at_in [of 0 arg] by auto
    have code: "cmdline_try_option options opt arg rest cb =
        (if shortname opt \<noteq> 0 \<and> c0 = dash then cmdline_short options opt arg rest cb else (\<lambda>_. Some None))" for cb :: "'b callback"
      using False plain c0 by (auto simp: cmdline_try_option_def fun_eq_iff split: option.split bool.split)
    show ?thesis
    proof (cases "shortname opt \<noteq> 0 \<and> c0 = dash")
      case True
      then obtain cs where "arg = dash # cs" using c0 by (cases arg) (auto simp: char_at_def)
      then have "matches options G cb (cmdline_short options opt arg rest log_callback) (cmdline_short options opt arg rest cb)"
        using short_matches [OF assms(1-3) _ _ plain assms(5)] True by blast
      then show ?thesis unfolding code using True by simp
    next
      case False
      show ?thesis unfolding code if_not_P [OF False] by (rule matches_none)
    qed
  qed
qed

lemma match_matches:
  assumes "options_ok options" "group_letters [arg] \<subseteq> G"
  shows "options_ok opts \<Longrightarrow> set opts \<subseteq> set options \<Longrightarrow>
    matches options G cb (cmdline_match options opts arg rest log_callback) (cmdline_match options opts arg rest cb)"
proof (induction opts)
  case (Cons opt opts)
  show ?case
  proof (cases "opt_id opt = 0")
    case True
    then show ?thesis by (simp add: matches_def)
  next
    case False
    then have "matches options G cb (cmdline_try_option options opt arg rest log_callback) (cmdline_try_option options opt arg rest cb)"
      using Cons.prems assms by (intro try_option_matches) auto
    moreover have "matches options G cb (cmdline_match options opts arg rest log_callback) (cmdline_match options opts arg rest cb)"
      using Cons.IH Cons.prems False by simp
    ultimately show ?thesis using False unfolding matches_def by (elim disjE) auto
  qed
qed simp


section \<open>The whole command line\<close>

lemma fast_ok: "options_ok opts \<Longrightarrow> \<exists>fast. cmdline_fast_optarg_decision opts = Some fast"
proof (induction opts)
  case (Cons opt opts)
  have "\<exists>c. char_at name 0 = Some c" for name using char_at_in [of 0 name] by simp
  then obtain first where first: "\<And>name. char_at name 0 = Some (first name)" by metis
  show ?case
  proof (cases "opt_id opt = 0")
    case False
    then obtain fast where "cmdline_fast_optarg_decision opts = Some fast" using Cons by auto
    then show ?thesis using False Cons.prems by (cases "longname opt") (simp_all add: first)
  qed auto
qed simp

definition token_runs ::
    "CMDLINE_OPTION list \<Rightarrow> byte set \<Rightarrow> 'u callback \<Rightarrow> (call list \<Rightarrow> (int \<times> call list \<times> bool \<times> nat) option)
      \<Rightarrow> ('u \<Rightarrow> (int \<times> 'u \<times> bool \<times> nat) option) \<Rightarrow> bool" where
  "token_runs options G cb f g \<longleftrightarrow> (\<exists>calls x. list_all (call_ok options G) calls \<and> follows cb f g calls x)"

lemma token_call:
  "call_ok options G (oid, arg) \<Longrightarrow>
   token_runs options G cb (\<lambda>l. let (ret, u) = log_callback oid arg l in Some (ret, u, x))
     (\<lambda>u. let (ret, u) = cb oid arg u in Some (ret, u, x))"
  unfolding token_runs_def follows_def
  by (intro exI [of _ "[(oid, arg)]"] exI [of _ x]) (simp add: Let_def split_beta log_callback.simps)

lemma token_ok:
  assumes "options_ok options" "group_letters [arg] \<subseteq> G"
  shows "token_runs options G cb (cmdline_token options fast dd arg rest log_callback) (cmdline_token options fast dd arg rest cb)"
proof -
  obtain c0 where c0: "char_at arg 0 = Some c0" using char_at_in [of 0 arg] by auto
  consider (operand) "dd \<or> arg = [dash]" | (finish) "\<not> dd" "arg = [dash, dash]"
    | (plain) "\<not> dd" "arg \<noteq> [dash]" "arg \<noteq> [dash, dash]" "fast \<and> c0 \<noteq> dash"
    | (option) "\<not> dd" "arg \<noteq> [dash]" "arg \<noteq> [dash, dash]" "\<not> (fast \<and> c0 \<noteq> dash)" by blast
  then show ?thesis
  proof cases
    case operand
    then have code: "cmdline_token options fast dd arg rest cb =
        (\<lambda>u. let (ret, u) = cb CMDLINE_OPTID_NONE (Some arg) u in Some (ret, u, dd, 0))" for cb :: "'b callback"
      by (auto simp: cmdline_token_def fun_eq_iff)
    show ?thesis unfolding code by (rule token_call) (rule special_call_ok)
  next
    case finish
    then show ?thesis unfolding token_runs_def follows_def
      by (intro exI [of _ "[]"] exI [of _ "(True, 0)"]) (simp add: cmdline_token_def)
  next
    case plain
    then have code: "cmdline_token options fast dd arg rest cb =
        (\<lambda>u. let (ret, u) = cb CMDLINE_OPTID_NONE (Some arg) u in Some (ret, u, dd, 0))" for cb :: "'b callback"
      using c0 by (auto simp: cmdline_token_def fun_eq_iff)
    show ?thesis unfolding code by (rule token_call) (rule special_call_ok)
  next
    case option
    have code: "cmdline_token options fast dd arg rest cb u = do {
        res \<leftarrow> cmdline_match options options arg rest cb u;
        (case res of
           Some (ret, u, used) \<Rightarrow> Some (ret, u, dd, used)
         | None \<Rightarrow> do { (ret, u) \<leftarrow> cmdline_unhandled arg cb u; Some (ret, u, dd, 0) }) }" for cb :: "'b callback" and u
      using option c0 by (auto simp: cmdline_token_def)
    have m: "matches options G cb (cmdline_match options options arg rest log_callback) (cmdline_match options options arg rest cb)"
      using assms by (intro match_matches) simp_all
    then consider (none) "\<forall>l. cmdline_match options options arg rest log_callback l = Some None"
        "\<forall>u. cmdline_match options options arg rest cb u = Some None"
      | (some) calls used where "list_all (call_ok options G) calls"
        "\<forall>l. cmdline_match options options arg rest log_callback l = Some (Some (0, l @ calls, used))"
        "\<forall>u. cmdline_match options options arg rest cb u = Some (Some (fst (run_calls cb calls u), snd (run_calls cb calls u), used))"
      unfolding matches_def by blast
    then show ?thesis
    proof cases
      case none
      define oid where "oid = (if c0 \<noteq> dash then CMDLINE_OPTID_NONE else CMDLINE_OPTID_UNKNOWN)"
      define a where "a = (if c0 \<noteq> dash then arg else cmdline_badoptname arg)"
      have un: "cmdline_unhandled arg cb u = Some (cb oid (Some a) u)" for cb :: "'b callback" and u
        using c0 by (simp add: cmdline_unhandled_def oid_def a_def)
      have "call_ok options G (oid, Some a)" by (simp add: oid_def special_call_ok)
      then show ?thesis unfolding token_runs_def follows_def
        by (intro exI [of _ "[(oid, Some a)]"] exI [of _ "(dd, 0)"])
          (simp add: code none un log_callback.simps split_beta)
    next
      case some
      then show ?thesis unfolding token_runs_def follows_def
        by (intro exI [of _ calls] exI [of _ "(dd, used)"]) (simp add: code)
    qed
  qed
qed

lemma loop_calls:
  assumes "options_ok options"
  shows "group_letters args \<subseteq> G \<Longrightarrow> \<exists>calls. list_all (call_ok options G) calls \<and>
    (\<forall>l. cmdline_loop options fast dd args log_callback l = Some (0, l @ calls)) \<and>
    (\<forall>u. cmdline_loop options fast dd args cb u = Some (run_calls cb calls u))"
proof (induction "length args" arbitrary: args dd rule: less_induct)
  case less
  show ?case
  proof (cases args)
    case Nil
    then show ?thesis by (intro exI [of _ "[]"]) simp
  next
    case (Cons arg rest)
    have letters: "group_letters [arg] \<subseteq> G" "group_letters rest \<subseteq> G"
      using less.prems by (auto simp: Cons group_letters_def)
    obtain calls dd' used where c: "list_all (call_ok options G) calls"
      "\<And>l. cmdline_token options fast dd arg rest log_callback l = Some (0, l @ calls, dd', used)"
      "\<And>u. cmdline_token options fast dd arg rest cb u = Some (fst (run_calls cb calls u), snd (run_calls cb calls u), dd', used)"
      using token_ok [OF assms, of arg G cb fast dd rest] letters(1) by (auto simp: token_runs_def follows_def)
    have "length (drop used rest) < length args" using Cons by simp
    moreover have "group_letters (drop used rest) \<subseteq> G"
      using letters(2) by (auto simp: group_letters_def dest: in_set_dropD)
    ultimately obtain calls' where c': "list_all (call_ok options G) calls'"
      "\<And>l. cmdline_loop options fast dd' (drop used rest) log_callback l = Some (0, l @ calls')"
      "\<And>u. cmdline_loop options fast dd' (drop used rest) cb u = Some (run_calls cb calls' u)"
      using less.hyps by blast
    show ?thesis
      by (intro exI [of _ "calls @ calls'"]) (auto simp: Cons c c' run_calls_append split_beta)
  qed
qed


section \<open>Reading back a well-formed use of the options\<close>

text \<open>
  A table without compiler-like options, whose names can be told apart; and the ways to write operands
  and options on a command line, with the calls they stand for.
\<close>

definition table_ok :: "CMDLINE_OPTION list \<Rightarrow> bool" where
  "table_ok opts \<longleftrightarrow>
     (\<forall>opt \<in> set opts. opt_id opt \<noteq> 0 \<and> \<not> has_flag opt CMDLINE_OPTFLAG_COMPILERLIKE \<and> shortname opt \<noteq> dash \<and>
        (\<forall>name. longname opt = Some name \<longrightarrow> name \<noteq> [] \<and> 0 \<notin> set name \<and> equals \<notin> set name)) \<and>
     (\<forall>opt \<in> set opts. \<forall>opt' \<in> set opts. opt \<noteq> opt' \<longrightarrow>
        (shortname opt \<noteq> 0 \<longrightarrow> shortname opt \<noteq> shortname opt') \<and> (longname opt \<noteq> None \<longrightarrow> longname opt \<noteq> longname opt'))"

datatype use =
    Operand "byte list"
  | LongOption CMDLINE_OPTION "byte list option"
  | ShortOptions "CMDLINE_OPTION list"
  | ShortArgument CMDLINE_OPTION "byte list" bool

fun written :: "use \<Rightarrow> byte list list" where
  "written (Operand s) = [s]"
| "written (LongOption opt arg) =
     [[dash, dash] @ the (longname opt) @ (case arg of None \<Rightarrow> [] | Some a \<Rightarrow> equals # a)]"
| "written (ShortOptions opts) = [dash # map shortname opts]"
| "written (ShortArgument opt a joined) = (if joined then [dash # shortname opt # a] else [[dash, shortname opt], a])"

fun meant :: "use \<Rightarrow> call list" where
  "meant (Operand s) = [(CMDLINE_OPTID_NONE, Some s)]"
| "meant (LongOption opt arg) = [(opt_id opt, arg)]"
| "meant (ShortOptions opts) = map (\<lambda>opt. (opt_id opt, None)) opts"
| "meant (ShortArgument opt a joined) = [(opt_id opt, Some a)]"

fun use_ok :: "CMDLINE_OPTION list \<Rightarrow> use \<Rightarrow> bool" where
  "use_ok opts (Operand s) \<longleftrightarrow> s = [] \<or> hd s \<noteq> dash \<or> s = [dash]"
| "use_ok opts (LongOption opt arg) \<longleftrightarrow> opt \<in> set opts \<and> longname opt \<noteq> None \<and>
     (if arg = None then \<not> has_flag opt CMDLINE_OPTFLAG_REQUIREDARG
      else has_flag opt (CMDLINE_OPTFLAG_OPTIONALARG OR CMDLINE_OPTFLAG_REQUIREDARG))"
| "use_ok opts (ShortOptions used) \<longleftrightarrow> used \<noteq> [] \<and>
     (\<forall>opt \<in> set used. opt \<in> set opts \<and> shortname opt \<noteq> 0 \<and> \<not> has_flag opt CMDLINE_OPTFLAG_REQUIREDARG)"
| "use_ok opts (ShortArgument opt a joined) \<longleftrightarrow> opt \<in> set opts \<and> shortname opt \<noteq> 0 \<and>
     has_flag opt CMDLINE_OPTFLAG_REQUIREDARG \<and> (joined \<longrightarrow> a \<noteq> [] \<and> hd a \<noteq> 0)"

definition table_end :: CMDLINE_OPTION where
  "table_end = \<lparr>shortname = 0, longname = None, opt_id = 0, flags = 0\<rparr>"

lemma table_options_ok: "table_ok opts \<Longrightarrow> options_ok (opts @ [table_end])"
proof -
  assume "table_ok opts"
  then have "\<forall>opt \<in> set opts. \<not> has_flag opt CMDLINE_OPTFLAG_COMPILERLIKE" by (simp add: table_ok_def)
  then show ?thesis by (induction opts) (simp_all add: table_end_def)
qed

lemma table_fast: "table_ok opts \<Longrightarrow> cmdline_fast_optarg_decision (opts @ [table_end]) = Some True"
proof -
  assume "table_ok opts"
  then have "\<forall>opt \<in> set opts. \<not> has_flag opt CMDLINE_OPTFLAG_COMPILERLIKE" by (simp add: table_ok_def)
  then show ?thesis by (induction opts) (simp_all add: table_end_def)
qed

lemma match_first:
  assumes "\<forall>o' \<in> set opts. opt_id o' \<noteq> 0" "opt \<in> set opts" "cmdline_try_option options opt arg rest cb u = Some (Some r)"
    and "\<forall>o' \<in> set opts. o' \<noteq> opt \<longrightarrow> cmdline_try_option options o' arg rest cb u = Some None"
  shows "cmdline_match options (opts @ post) arg rest cb u = Some (Some r)"
  using assms
proof (induction opts)
  case (Cons o' opts)
  then show ?case by (cases "o' = opt") simp_all
qed simp

lemma find_short_first:
  assumes "\<forall>o' \<in> set opts. opt_id o' \<noteq> 0" "opt \<in> set opts" "\<forall>o' \<in> set opts. o' \<noteq> opt \<longrightarrow> shortname o' \<noteq> shortname opt"
  shows "cmdline_find_short (opts @ post) (shortname opt) = Some opt"
  using assms
proof (induction opts)
  case (Cons o' opts)
  show ?case
  proof (cases "o' = opt")
    case False
    then have "shortname opt \<noteq> shortname o'" "opt_id o' \<noteq> 0" using Cons.prems(1,3) by force+
    moreover have "cmdline_find_short (opts @ post) (shortname opt) = Some opt"
      using False Cons.prems by (intro Cons.IH) simp_all
    ultimately show ?thesis by simp
  qed simp
qed simp

lemma name_prefix:
  assumes "name = name' @ us" "zs = us @ tail" "0 \<notin> set name" "equals \<notin> set name"
    and "zs = [] \<or> hd zs = 0 \<or> hd zs = equals"
  shows "name = name'"
proof (cases us)
  case (Cons c cs)
  have "hd zs = c" using assms(2) Cons by simp
  moreover have "zs \<noteq> []" using assms(2) Cons by simp
  moreover have "c \<in> set name" by (simp add: assms(1) Cons)
  ultimately show ?thesis using assms(3-5) by metis
qed (use assms(1) in simp)

lemma same_name:
  assumes "name @ tail = name' @ zs" "equals \<notin> set name" "equals \<notin> set name'" "0 \<notin> set name" "0 \<notin> set name'"
    and "tail = [] \<or> hd tail = equals" "zs = [] \<or> hd zs = 0 \<or> hd zs = equals"
  shows "name = name'"
proof -
  from assms(1) obtain us where "name = name' @ us \<and> us @ tail = zs \<or> name @ us = name' \<and> tail = us @ zs"
    by (auto simp: append_eq_append_conv2)
  then show ?thesis
  proof (elim disjE conjE)
    assume "name = name' @ us" "us @ tail = zs"
    then show ?thesis using assms by (intro name_prefix [of name name' us zs tail]) simp_all
  next
    assume "name @ us = name'" "tail = us @ zs"
    then have "name' = name" using assms by (intro name_prefix [of name' name us tail zs]) auto
    then show ?thesis by simp
  qed
qed

section \<open>Every use of an option is read back\<close>

lemma zero_dash: "(0::byte) \<noteq> dash" "(0::byte) \<noteq> equals" by simp_all

lemma table_id: "table_ok opts \<Longrightarrow> opt \<in> set opts \<Longrightarrow> opt_id opt \<noteq> 0"
  by (simp add: table_ok_def)

lemma table_plain: "table_ok opts \<Longrightarrow> opt \<in> set opts \<Longrightarrow> \<not> has_flag opt CMDLINE_OPTFLAG_COMPILERLIKE"
  by (simp add: table_ok_def)

lemma table_name:
  assumes "table_ok opts" "opt \<in> set opts" "longname opt = Some name"
  shows "name \<noteq> []" "0 \<notin> set name" "equals \<notin> set name"
  using assms by (auto simp: table_ok_def)

lemma table_short_dash: "table_ok opts \<Longrightarrow> opt \<in> set opts \<Longrightarrow> shortname opt \<noteq> dash"
  by (simp add: table_ok_def)

lemma table_distinct:
  assumes "table_ok opts" "opt \<in> set opts" "opt' \<in> set opts" "opt' \<noteq> opt"
  shows "shortname opt \<noteq> 0 \<Longrightarrow> shortname opt' \<noteq> shortname opt"
    and "longname opt \<noteq> None \<Longrightarrow> longname opt' \<noteq> longname opt"
proof -
  have "opt \<noteq> opt'" using assms(4) by simp
  then have "(shortname opt \<noteq> 0 \<longrightarrow> shortname opt \<noteq> shortname opt') \<and> (longname opt \<noteq> None \<longrightarrow> longname opt \<noteq> longname opt')"
    using assms(1-3) unfolding table_ok_def by blast
  then show "shortname opt \<noteq> 0 \<Longrightarrow> shortname opt' \<noteq> shortname opt"
    "longname opt \<noteq> None \<Longrightarrow> longname opt' \<noteq> longname opt" by auto
qed

lemma char_at_append: "char_at (xs @ ys) (length xs) = char_at ys 0"
  by (cases ys) (simp_all add: char_at_def)

lemma char_at_Cons: "char_at (x # xs) (Suc k) = char_at xs k"
  by (simp add: char_at_def)

lemma char_at_first: "char_at (c # cs) 0 = Some c" "char_at [] 0 = Some 0"
  by (simp_all add: char_at_def)

definition long_token :: "byte list \<Rightarrow> byte list option \<Rightarrow> byte list" where
  "long_token name arg = [dash, dash] @ name @ (case arg of None \<Rightarrow> [] | Some a \<Rightarrow> equals # a)"

lemma long_self:
  assumes "table_ok opts" "opt \<in> set opts" "longname opt = Some name"
    and "if arg = None then \<not> has_flag opt CMDLINE_OPTFLAG_REQUIREDARG
      else has_flag opt (CMDLINE_OPTFLAG_OPTIONALARG OR CMDLINE_OPTFLAG_REQUIREDARG)"
  shows "cmdline_try_option options opt (long_token name arg) rest log_callback l =
    Some (Some (0, l @ [(opt_id opt, arg)], 0))"
proof -
  define tail where "tail = (case arg of None \<Rightarrow> [] | Some a \<Rightarrow> equals # a)"
  have tok: "long_token name arg = dash # dash # name @ tail" by (simp add: long_token_def tail_def)
  have pre: "strncmp_eq (dash # dash # name @ tail) [dash, dash] 2" "strncmp_eq (name @ tail) name (length name)"
    by (auto simp: strncmp_dashes strncmp_prefix)
  have c: "char_at (dash # dash # name @ tail) (Suc (Suc (length name))) = char_at tail 0"
    by (simp add: char_at_Cons char_at_append)
  show ?thesis
  proof (cases arg)
    case None
    then have "tail = []" by (simp add: tail_def)
    then show ?thesis unfolding tok using pre c None assms(3,4) table_plain [OF assms(1,2)]
      by (simp add: cmdline_try_option_def cmdline_long_def char_at_first log_callback.simps)
  next
    case (Some a)
    then have "tail = equals # a" by (simp add: tail_def)
    then show ?thesis unfolding tok using pre c Some assms(3,4) table_plain [OF assms(1,2)]
      by (simp add: cmdline_try_option_def cmdline_long_def char_at_first log_callback.simps)
  qed
qed

lemma long_unlike:
  assumes "table_ok opts" "opt' \<in> set opts" "longname opt' \<noteq> Some name" "equals \<notin> set name" "0 \<notin> set name"
    and "tail = [] \<or> hd tail = equals"
  shows "cmdline_try_option options opt' (dash # dash # name @ tail) rest cb u = Some None"
proof -
  have pre: "strncmp_eq (dash # dash # name @ tail) [dash, dash] 2" by (simp add: strncmp_dashes)
  show ?thesis
  proof (cases "longname opt'")
    case None
    then show ?thesis using table_plain [OF assms(1,2)] table_short_dash [OF assms(1,2)]
      by (auto simp: cmdline_try_option_def cmdline_short_def char_at_def)
  next
    case (Some name')
    have "cmdline_long opt' name' (dash # dash # name @ tail) cb u = Some None"
    proof (cases "strncmp_eq (name @ tail) name' (length name')")
      case True
      then obtain zs where zs: "name @ tail = name' @ zs" by (auto simp: strncmp_prefix)
      obtain c where c: "char_at zs 0 = Some c" using char_at_in [of 0 zs] by auto
      have "\<not> (zs = [] \<or> hd zs = 0 \<or> hd zs = equals)"
        using same_name [OF zs assms(4) _ assms(5) _ assms(6)] assms(3) table_name [OF assms(1,2) Some] Some by auto
      then have "c \<noteq> 0" "c \<noteq> equals" using c by (cases zs; simp add: char_at_def)+
      then show ?thesis using True c
        by (simp add: cmdline_long_def char_at_Cons zs char_at_append)
    qed (simp add: cmdline_long_def)
    then show ?thesis using Some table_plain [OF assms(1,2)] pre by (simp add: cmdline_try_option_def)
  qed
qed

lemma long_other:
  assumes "table_ok opts" "opt \<in> set opts" "longname opt = Some name" "opt' \<in> set opts" "opt' \<noteq> opt"
  shows "cmdline_try_option options opt' (long_token name arg) rest cb u = Some None"
proof -
  define tail where "tail = (case arg of None \<Rightarrow> [] | Some a \<Rightarrow> equals # a)"
  have tok: "long_token name arg = dash # dash # name @ tail" by (simp add: long_token_def tail_def)
  have "longname opt' \<noteq> Some name" using table_distinct(2) [OF assms(1,2,4,5)] assms(3) by simp
  moreover have "tail = [] \<or> hd tail = equals" by (simp add: tail_def split: option.split)
  ultimately show ?thesis unfolding tok
    using table_name [OF assms(1-3)] assms(1,4) by (intro long_unlike) simp_all
qed

text \<open>A short token: a dash, the name of an option, and what follows it.\<close>

lemma short_no_dashes: "c \<noteq> dash \<Longrightarrow> \<not> strncmp_eq (dash # c # cs) [dash, dash] 2"
  by (simp add: strncmp_dashes)

lemma short_try:
  assumes "table_ok opts" "opt \<in> set opts" "shortname opt \<noteq> 0" "opt' \<in> set opts" "shortname opt' \<noteq> 0"
  shows "cmdline_try_option options opt' (dash # shortname opt # cs) rest cb u =
    cmdline_short options opt' (dash # shortname opt # cs) rest cb u"
  using table_plain [OF assms(1,4)] short_no_dashes [OF table_short_dash [OF assms(1,2)]] assms(5)
  by (simp add: cmdline_try_option_def char_at_first split: option.split)

lemma short_other:
  assumes "table_ok opts" "opt \<in> set opts" "shortname opt \<noteq> 0" "opt' \<in> set opts" "opt' \<noteq> opt"
  shows "cmdline_try_option options opt' (dash # shortname opt # cs) rest cb u = Some None"
proof (cases "shortname opt' = 0")
  case True
  then show ?thesis
    using table_plain [OF assms(1,4)] short_no_dashes [OF table_short_dash [OF assms(1,2)]]
    by (simp add: cmdline_try_option_def char_at_first split: option.split)
next
  case False
  have "shortname opt \<noteq> shortname opt'" using table_distinct(1) [OF assms(1,2,4,5,3)] by simp
  then show ?thesis using short_try [OF assms(1-4) False]
    by (simp add: cmdline_short_def char_at_Cons [of _ _ 0, simplified] char_at_first)
qed

lemma group_self:
  assumes "table_ok opts" "\<forall>opt \<in> set used. opt \<in> set opts \<and> shortname opt \<noteq> 0 \<and> \<not> has_flag opt CMDLINE_OPTFLAG_REQUIREDARG"
  shows "cmdline_handle_short_opt_group (opts @ post) (map shortname used) log_callback l =
    Some (0, l @ map (\<lambda>opt. (opt_id opt, None)) used)"
  using assms(2)
proof (induction used arbitrary: l)
  case (Cons opt used)
  then have opt: "opt \<in> set opts" "shortname opt \<noteq> 0" "\<not> has_flag opt CMDLINE_OPTFLAG_REQUIREDARG" by simp_all
  have "cmdline_find_short (opts @ post) (shortname opt) = Some opt"
    using table_id [OF assms(1)] opt(1) table_distinct(1) [OF assms(1) opt(1) _ _ opt(2)] by (intro find_short_first) auto
  moreover have "opt_id opt \<noteq> 0" using table_id [OF assms(1) opt(1)] .
  ultimately show ?case using Cons opt(3) by (simp add: log_callback.simps)
qed simp

lemma short_self:
  assumes "table_ok opts" "opt \<in> set opts" "shortname opt \<noteq> 0"
  shows "\<not> has_flag opt CMDLINE_OPTFLAG_REQUIREDARG \<Longrightarrow>
      \<forall>o' \<in> set used. o' \<in> set opts \<and> shortname o' \<noteq> 0 \<and> \<not> has_flag o' CMDLINE_OPTFLAG_REQUIREDARG \<Longrightarrow>
      cmdline_try_option (opts @ post) opt (dash # shortname opt # map shortname used) rest log_callback l =
        Some (Some (0, l @ (opt_id opt, None) # map (\<lambda>o'. (opt_id o', None)) used, 0))"
    and "has_flag opt CMDLINE_OPTFLAG_REQUIREDARG \<Longrightarrow> a \<noteq> [] \<Longrightarrow> hd a \<noteq> 0 \<Longrightarrow>
      cmdline_try_option (opts @ post) opt (dash # shortname opt # a) rest log_callback l =
        Some (Some (0, l @ [(opt_id opt, Some a)], 0))"
    and "has_flag opt CMDLINE_OPTFLAG_REQUIREDARG \<Longrightarrow>
      cmdline_try_option (opts @ post) opt [dash, shortname opt] (a # rest) log_callback l =
        Some (Some (0, l @ [(opt_id opt, Some a)], 1))"
proof -
  note attempt = short_try [OF assms(1-3) assms(2,3)]
  have c1: "char_at (dash # c # cs) (Suc 0) = Some c" for c cs by (simp add: char_at_def)
  have c2: "char_at (dash # c # cs) 2 = char_at cs 0" for c cs by (auto simp add: char_at_def)
  {
    assume "\<not> has_flag opt CMDLINE_OPTFLAG_REQUIREDARG"
      and used: "\<forall>o' \<in> set used. o' \<in> set opts \<and> shortname o' \<noteq> 0 \<and> \<not> has_flag o' CMDLINE_OPTFLAG_REQUIREDARG"
    then show "cmdline_try_option (opts @ post) opt (dash # shortname opt # map shortname used) rest log_callback l =
        Some (Some (0, l @ (opt_id opt, None) # map (\<lambda>o'. (opt_id o', None)) used, 0))"
      using group_self [OF assms(1) used, of post "l @ [(opt_id opt, None)]"]
      by (cases used) (simp_all add: attempt cmdline_short_def c1 c2 char_at_first log_callback.simps)
  next
    assume "has_flag opt CMDLINE_OPTFLAG_REQUIREDARG" "a \<noteq> []" "hd a \<noteq> 0"
    then show "cmdline_try_option (opts @ post) opt (dash # shortname opt # a) rest log_callback l =
        Some (Some (0, l @ [(opt_id opt, Some a)], 0))"
      by (cases a) (simp_all add: attempt cmdline_short_def c1 c2 char_at_first log_callback.simps)
  next
    assume "has_flag opt CMDLINE_OPTFLAG_REQUIREDARG"
    then show "cmdline_try_option (opts @ post) opt [dash, shortname opt] (a # rest) log_callback l =
        Some (Some (0, l @ [(opt_id opt, Some a)], 1))"
      by (simp add: attempt cmdline_short_def c1 c2 char_at_first log_callback.simps)
  }
qed

text \<open>One token that an option matches, in the loop.\<close>

lemma token_matched:
  assumes "table_ok opts" "opt \<in> set opts" "arg = dash # cs" "cs \<noteq> []" "cs \<noteq> [dash]"
    and "cmdline_try_option (opts @ post) opt arg rest log_callback l = Some (Some (0, l', used))"
    and "\<forall>o' \<in> set opts. o' \<noteq> opt \<longrightarrow> cmdline_try_option (opts @ post) o' arg rest log_callback l = Some None"
  shows "cmdline_loop (opts @ post) True False (arg # rest) log_callback l =
    cmdline_loop (opts @ post) True False (drop used rest) log_callback l'"
proof -
  have "cmdline_match (opts @ post) (opts @ post) arg rest log_callback l = Some (Some (0, l', used))"
    using table_id [OF assms(1)] assms(2,6,7) by (intro match_first) auto
  then show ?thesis using assms(3-5) by (simp add: cmdline_token_def char_at_first)
qed

lemma operand_token:
  assumes "s = [] \<or> hd s \<noteq> dash \<or> s = [dash]"
  shows "cmdline_loop options True False (s # rest) log_callback l =
    cmdline_loop options True False rest log_callback (l @ [(CMDLINE_OPTID_NONE, Some s)])"
  using assms by (cases s) (auto simp: cmdline_token_def char_at_first log_callback.simps)

lemma written_token:
  assumes "table_ok opts" "use_ok opts u"
  shows "cmdline_loop (opts @ post) True False (written u @ rest) log_callback l =
    cmdline_loop (opts @ post) True False rest log_callback (l @ meant u)"
proof (cases u)
  case (Operand s)
  then show ?thesis using assms(2) operand_token by simp
next
  case (LongOption opt arg)
  then obtain name where opt: "opt \<in> set opts" "longname opt = Some name"
    and arg: "if arg = None then \<not> has_flag opt CMDLINE_OPTFLAG_REQUIREDARG
      else has_flag opt (CMDLINE_OPTFLAG_OPTIONALARG OR CMDLINE_OPTFLAG_REQUIREDARG)"
    using assms(2) by auto
  define tail where "tail = (case arg of None \<Rightarrow> [] | Some a \<Rightarrow> equals # a)"
  have tok: "long_token name arg = dash # dash # name @ tail" by (simp add: long_token_def tail_def)
  have named: "dash # name @ tail \<noteq> [dash]" using table_name(1) [OF assms(1) opt] by simp
  have "cmdline_loop (opts @ post) True False (long_token name arg # rest) log_callback l =
      cmdline_loop (opts @ post) True False (drop 0 rest) log_callback (l @ [(opt_id opt, arg)])"
    by (rule token_matched [OF assms(1) opt(1) tok _ named])
      (simp_all add: long_self [OF assms(1) opt arg] long_other [OF assms(1) opt])
  then show ?thesis by (simp add: LongOption long_token_def opt(2) del: cmdline_loop.simps)
next
  case (ShortOptions used)
  then obtain opt os where used: "used = opt # os" using assms(2) by (cases used) auto
  have opt: "opt \<in> set opts" "shortname opt \<noteq> 0" "\<not> has_flag opt CMDLINE_OPTFLAG_REQUIREDARG"
    and os: "\<forall>o' \<in> set os. o' \<in> set opts \<and> shortname o' \<noteq> 0 \<and> \<not> has_flag o' CMDLINE_OPTFLAG_REQUIREDARG"
    using assms(2) by (simp_all add: ShortOptions used)
  have "cmdline_loop (opts @ post) True False ((dash # shortname opt # map shortname os) # rest) log_callback l =
      cmdline_loop (opts @ post) True False (drop 0 rest) log_callback (l @ (opt_id opt, None) # map (\<lambda>o'. (opt_id o', None)) os)"
    using table_short_dash [OF assms(1) opt(1)]
    by (intro token_matched [OF assms(1) opt(1) refl])
      (simp_all add: short_self(1) [OF assms(1) opt(1,2,3) os] short_other [OF assms(1) opt(1,2)])
  then show ?thesis by (simp add: ShortOptions used del: cmdline_loop.simps)
next
  case (ShortArgument opt a joined)
  then have opt: "opt \<in> set opts" "shortname opt \<noteq> 0" "has_flag opt CMDLINE_OPTFLAG_REQUIREDARG"
    and a: "joined \<Longrightarrow> a \<noteq> [] \<and> hd a \<noteq> 0" using assms(2) by auto
  have "cmdline_loop (opts @ post) True False ((dash # shortname opt # a) # rest) log_callback l =
      cmdline_loop (opts @ post) True False (drop 0 rest) log_callback (l @ [(opt_id opt, Some a)])" if joined
    using table_short_dash [OF assms(1) opt(1)] a [OF that]
    by (intro token_matched [OF assms(1) opt(1) refl])
      (simp_all add: short_self(2) [OF assms(1) opt] short_other [OF assms(1) opt(1,2)])
  moreover have "cmdline_loop (opts @ post) True False ([dash, shortname opt] # a # rest) log_callback l =
      cmdline_loop (opts @ post) True False (drop 1 (a # rest)) log_callback (l @ [(opt_id opt, Some a)])"
    using table_short_dash [OF assms(1) opt(1)]
    by (intro token_matched [OF assms(1) opt(1) refl])
      (simp_all add: short_self(3) [OF assms(1) opt] short_other [OF assms(1) opt(1,2)])
  ultimately show ?thesis by (simp add: ShortArgument del: cmdline_loop.simps)
qed

lemma written_tokens:
  assumes "table_ok opts" "list_all (use_ok opts) us"
  shows "cmdline_loop (opts @ post) True False (concat (map written us) @ rest) log_callback l =
    cmdline_loop (opts @ post) True False rest log_callback (l @ concat (map meant us))"
  using assms(2) by (induction us arbitrary: l) (simp_all add: written_token [OF assms(1)] del: written.simps meant.simps use_ok.simps cmdline_loop.simps)

lemma operands_after:
  "cmdline_loop options True True ops log_callback l =
   Some (0, l @ map (\<lambda>s. (CMDLINE_OPTID_NONE, Some s)) ops)"
  by (induction ops arbitrary: l) (simp_all add: cmdline_token_def log_callback.simps)

lemma double_dash:
  "cmdline_loop options True False ([dash, dash] # ops) log_callback l = cmdline_loop options True True ops log_callback l"
  by (simp add: cmdline_token_def)

section \<open>What the parser promises\<close>

text \<open>
  C26. For an options array that has its end record and names its compiler-like options, \<open>cmdline_read\<close> reads no
  byte outside its strings and returns, for every command line and every callback: it makes the calls of
  \<open>cmdline_calls\<close>, which do not depend on the callback, in order, and stops at the first one that is refused
  with what the callback returned.
\<close>

theorem cmdline_read_calls:
  assumes "options_ok options"
  shows "cmdline_read options argv callback userdata = Some (run_calls callback (cmdline_calls options argv) userdata)"
proof -
  obtain fast where fast: "cmdline_fast_optarg_decision options = Some fast" using fast_ok [OF assms] by blast
  obtain calls where "\<And>l. cmdline_loop options fast False (drop 1 argv) log_callback l = Some (0, l @ calls)"
    "\<And>u. cmdline_loop options fast False (drop 1 argv) callback u = Some (run_calls callback calls u)"
    using loop_calls [OF assms subset_refl, of "drop 1 argv" fast False callback] by blast
  then show ?thesis using fast by (simp add: cmdline_read_def cmdline_calls_def)
qed

text \<open>A table with a flag \<open>-v\<close>/\<open>--verbose\<close>, an option \<open>-o\<close>/\<open>--output\<close> with its argument, and \<open>--color\<close>.\<close>

definition demo_table :: "CMDLINE_OPTION list" where
  "demo_table = [
     \<lparr>shortname = 118, longname = Some [118, 101, 114], opt_id = 1, flags = 0\<rparr>,
     \<lparr>shortname = 111, longname = Some [111, 117, 116], opt_id = 2, flags = CMDLINE_OPTFLAG_REQUIREDARG\<rparr>,
     \<lparr>shortname = 0, longname = Some [99, 111, 108], opt_id = 3, flags = CMDLINE_OPTFLAG_OPTIONALARG\<rparr>]"

lemmas demo_simps = demo_table_def has_flag_def CMDLINE_OPTFLAG_COMPILERLIKE_def CMDLINE_OPTFLAG_REQUIREDARG_def
  CMDLINE_OPTFLAG_OPTIONALARG_def

lemma demo_ok: "table_ok demo_table"
  by (simp add: table_ok_def demo_simps)

lemma demo_table_ok: "options_ok (demo_table @ [table_end])"
  by (rule table_options_ok) (rule demo_ok)

lemma cmdline_read_calls_witness:
  "cmdline_read (demo_table @ [table_end]) [[], [45, 118]] (\<lambda>oid arg u. (0, u + oid)) 5 =
   Some (run_calls (\<lambda>oid arg u. (0, u + oid)) (cmdline_calls (demo_table @ [table_end]) [[], [45, 118]]) 5)"
  by (rule cmdline_read_calls [OF demo_table_ok])

text \<open>
  C27. Every call fits the options array: without an argument it has the id of an option that has not the flag of a
  required one; with an argument it has one of the special ids, or the id of an option whose flags let it
  have an argument. A compiler-like option, which always has an argument by \<open>cmdline.h\<close>, is reported without
  one only when its short name is a later letter of a group, which happens, as shown below.
\<close>

theorem cmdline_calls_fit:
  assumes "options_ok options"
  shows "list_all (call_ok options (group_letters (drop 1 argv))) (cmdline_calls options argv)"
proof -
  obtain fast where fast: "cmdline_fast_optarg_decision options = Some fast" using fast_ok [OF assms] by blast
  obtain calls where "list_all (call_ok options (group_letters (drop 1 argv))) calls"
    "\<And>l. cmdline_loop options fast False (drop 1 argv) log_callback l = Some (0, l @ calls)"
    using loop_calls [OF assms subset_refl, of "drop 1 argv" fast False log_callback] by blast
  then show ?thesis using fast by (simp add: cmdline_read_def cmdline_calls_def)
qed

lemma cmdline_calls_fit_witness:
  "list_all (call_ok (demo_table @ [table_end]) {120, 61}) (cmdline_calls (demo_table @ [table_end]) [[], [45, 118, 120], [45, 45, 120, 61]])"
proof -
  have "group_letters (drop 1 [[], [45, 118, 120], [45, 45, 120, 61]]) = {120, 61}"
    by (auto simp: group_letters_def)
  then show ?thesis using cmdline_calls_fit [OF demo_table_ok, of "[[], [45, 118, 120], [45, 45, 120, 61]]"] by simp
qed

text \<open>
  C28. Round trip: operands, long options with or without their argument, groups of short options and short options
  with their argument (joined or in the next token) are read back in order as the calls they stand for, and what
  follows \<open>--\<close> is an operand whatever it looks like.
\<close>

theorem cmdline_reads_back:
  assumes "table_ok opts" "list_all (use_ok opts) us"
  shows "cmdline_calls (opts @ [table_end]) (program # concat (map written us) @ [dash, dash] # operands) =
    concat (map meant us) @ map (\<lambda>s. (CMDLINE_OPTID_NONE, Some s)) operands"
  by (simp add: cmdline_calls_def cmdline_read_def table_fast [OF assms(1)] written_tokens [OF assms]
    double_dash operands_after del: cmdline_loop.simps)

lemma cmdline_reads_back_witness:
  "cmdline_calls (demo_table @ [table_end])
     [[], [45, 118, 118], [45, 111], [97], [45, 45, 99, 111, 108, 61, 98], [102], [45, 45], [45, 118]] =
   [(1, None), (1, None), (2, Some [97]), (3, Some [98]), (CMDLINE_OPTID_NONE, Some [102]), (CMDLINE_OPTID_NONE, Some [45, 118])]"
proof -
  define v o' c where "v = demo_table ! 0" and "o' = demo_table ! 1" and "c = demo_table ! 2"
  have in_table: "v \<in> set demo_table" "o' \<in> set demo_table" "c \<in> set demo_table"
    by (simp_all add: v_def o'_def c_def demo_table_def)
  have "list_all (use_ok demo_table) [ShortOptions [v, v], ShortArgument o' [97] False, LongOption c (Some [98]), Operand [102]]"
    using in_table by (simp add: v_def o'_def c_def demo_simps)
  from cmdline_reads_back [OF demo_ok this, of "[]" "[[45, 118]]"]
  show ?thesis by (simp add: v_def o'_def c_def demo_table_def)
qed

text \<open>
  A long option that the table does not have is reported as unknown, without what follows its equals sign and
  then with at most 32 characters; a letter that no option has is reported as unknown with its dash, before and
  after options of the same group.
\<close>

theorem cmdline_unknown_option:
  assumes "table_ok opts" "\<forall>opt \<in> set opts. longname opt \<noteq> Some name"
    and "name \<noteq> []" "0 \<notin> set name" "equals \<notin> set name"
  shows "cmdline_calls (opts @ [table_end]) [program, long_token name arg] =
    [(CMDLINE_OPTID_UNKNOWN, Some (if arg = None then [dash, dash] @ name else take CMDLINE_AUXBUF_SIZE ([dash, dash] @ name)))]"
proof -
  define tail where "tail = (case arg of None \<Rightarrow> [] | Some a \<Rightarrow> equals # a)"
  have tail: "tail = [] \<or> hd tail = equals" by (simp add: tail_def split: option.split)
  have tok: "long_token name arg = dash # dash # name @ tail" by (simp add: long_token_def tail_def)
  have no: "cmdline_try_option options opt (dash # dash # name @ tail) [] log_callback l = Some None" if "opt \<in> set opts" for options opt l
    using assms(2) that by (intro long_unlike [OF assms(1) that _ assms(5,4) tail]) simp
  have "cmdline_match options (os @ [table_end]) (dash # dash # name @ tail) [] log_callback l = Some None"
    if "set os \<subseteq> set opts" for options os l
    using that by (induction os) (auto simp: table_end_def no)
  then have none: "cmdline_match (opts @ [table_end]) (opts @ [table_end]) (dash # dash # name @ tail) [] log_callback l = Some None" for l
    by blast
  have eq: "takeWhile (\<lambda>c. c \<noteq> equals) (name @ equals # a) = name" for a
    using assms(5) by (subst takeWhile_append2) auto
  have "cmdline_badoptname (dash # dash # name @ tail) =
      (if arg = None then [dash, dash] @ name else take CMDLINE_AUXBUF_SIZE ([dash, dash] @ name))"
    using assms(5) by (cases arg) (simp_all add: cmdline_badoptname_def tail_def strncmp_dashes eq)
  then show ?thesis using assms(3)
    by (simp add: tok cmdline_calls_def cmdline_read_def table_fast [OF assms(1)] cmdline_token_def none
      cmdline_unhandled_def char_at_first log_callback.simps)
qed

lemma cmdline_unknown_option_witness:
  "cmdline_calls (demo_table @ [table_end]) [[], [45, 45, 99, 61, 98]] = [(CMDLINE_OPTID_UNKNOWN, Some [45, 45, 99])]"
proof -
  have "\<forall>opt \<in> set demo_table. longname opt \<noteq> Some [99]" by (simp add: demo_table_def)
  from cmdline_unknown_option [OF demo_ok this, of "[]" "Some [98]"]
  show ?thesis by (simp add: long_token_def CMDLINE_AUXBUF_SIZE_def)
qed

text \<open>
  C29. \<open>cmdline.h\<close> says that the short name of a compiler-like option is ignored and that such an option always has
  an argument. A group of short options finds it all the same and reports it without an argument.
\<close>

theorem cmdline_compilerlike_in_group:
  assumes "opt_id flag \<noteq> 0" "flags flag = 0" "longname flag = None" "shortname flag \<noteq> 0" "shortname flag \<noteq> dash"
    and "opt_id like \<noteq> 0" "flags like = CMDLINE_OPTFLAG_COMPILERLIKE" "longname like = Some name"
    and "shortname like \<noteq> 0" "shortname like \<noteq> shortname flag"
    and "\<not> strncmp_eq [dash, shortname flag, shortname like] name (length name)"
  shows "cmdline_calls [flag, like, table_end] [program, [dash, shortname flag, shortname like]] =
    [(opt_id flag, None), (opt_id like, None)]"
proof -
  have c: "char_at [dash, x, y] 0 = Some dash" "char_at [dash, x, y] (Suc 0) = Some x" "char_at [dash, x, y] 2 = Some y" for x y
    by (simp_all add: char_at_def)
  have like: "\<not> has_flag like CMDLINE_OPTFLAG_REQUIREDARG" "\<not> has_flag flag (CMDLINE_OPTFLAG_REQUIREDARG)"
    "\<not> has_flag flag (CMDLINE_OPTFLAG_COMPILERLIKE)"
    using assms(2,7) by (simp_all add: demo_simps)
  obtain first where first: "char_at name 0 = Some first" using char_at_in [of 0 name] by auto
  have "cmdline_fast_optarg_decision [flag, like, table_end] = Some (has_flag like CMDLINE_OPTFLAG_COMPILERLIKE \<longrightarrow> first = dash)"
    using assms(1,6,8) like first by (simp add: table_end_def)
  then show ?thesis using assms like
    by (simp add: cmdline_calls_def cmdline_read_def cmdline_token_def cmdline_try_option_def cmdline_short_def c log_callback.simps)
qed

lemma cmdline_compilerlike_in_group_witness:
  "cmdline_calls
     [\<lparr>shortname = 118, longname = None, opt_id = 1, flags = 0\<rparr>,
      \<lparr>shortname = 73, longname = Some [45, 73], opt_id = 2, flags = CMDLINE_OPTFLAG_COMPILERLIKE\<rparr>, table_end]
     [[], [45, 118, 73]] = [(1, None), (2, None)]"
  using cmdline_compilerlike_in_group
    [of "\<lparr>shortname = 118, longname = None, opt_id = 1, flags = 0\<rparr>"
      "\<lparr>shortname = 73, longname = Some [45, 73], opt_id = 2, flags = CMDLINE_OPTFLAG_COMPILERLIKE\<rparr>" "[45, 73]" "[]"]
  by simp

end
