(* ===== verification/Value_Mem.thy ===== *)
theory Value_Mem
  imports Bytes Comparator
begin

text \<open>
  \<open>data/value.c\<close>, \<open>data/value.h\<close>: the 16 bytes of a \<open>VALUE\<close>, the memory around it, and the values without
  members: their initialisation, their type, strings. A byte that was never written has no value
  (\<^term>\<open>None\<close>), and reading it goes wrong.
\<close>

section \<open>Types and flags\<close>

type_synonym VALUE_TYPE = byte

definition VALUE_NULL :: VALUE_TYPE where "VALUE_NULL = 0"
definition VALUE_BOOL :: VALUE_TYPE where "VALUE_BOOL = 1"
definition VALUE_INT32 :: VALUE_TYPE where "VALUE_INT32 = 2"
definition VALUE_UINT32 :: VALUE_TYPE where "VALUE_UINT32 = 3"
definition VALUE_INT64 :: VALUE_TYPE where "VALUE_INT64 = 4"
definition VALUE_UINT64 :: VALUE_TYPE where "VALUE_UINT64 = 5"
definition VALUE_FLOAT :: VALUE_TYPE where "VALUE_FLOAT = 6"
definition VALUE_DOUBLE :: VALUE_TYPE where "VALUE_DOUBLE = 7"
definition VALUE_STRING :: VALUE_TYPE where "VALUE_STRING = 8"
definition VALUE_ARRAY :: VALUE_TYPE where "VALUE_ARRAY = 9"
definition VALUE_DICT :: VALUE_TYPE where "VALUE_DICT = 10"

definition TYPE_MASK :: byte where "TYPE_MASK = 0x0f"
definition IS_NEW :: byte where "IS_NEW = 0x10"
definition HAS_REDCOLOR :: byte where "HAS_REDCOLOR = 0x10"
definition HAS_ORDERLIST :: byte where "HAS_ORDERLIST = 0x10"
definition HAS_CUSTOMCMP :: byte where "HAS_CUSTOMCMP = 0x20"
definition IS_MALLOCED :: byte where "IS_MALLOCED = 0x80"

lemmas value_types = VALUE_NULL_def VALUE_BOOL_def VALUE_INT32_def VALUE_UINT32_def VALUE_INT64_def VALUE_UINT64_def
  VALUE_FLOAT_def VALUE_DOUBLE_def VALUE_STRING_def VALUE_ARRAY_def VALUE_DICT_def
lemmas value_flags = TYPE_MASK_def IS_NEW_def HAS_REDCOLOR_def HAS_ORDERLIST_def HAS_CUSTOMCMP_def IS_MALLOCED_def

section \<open>Memory\<close>

text \<open>\<open>data[16]\<close>, and a \<open>VALUE\<close> that nothing was written to.\<close>

type_synonym cells = "byte option list"
type_synonym VALUE = cells

definition sizeof_VALUE :: nat where "sizeof_VALUE = 16"

definition indeterminate :: "nat \<Rightarrow> cells" where
  "indeterminate n = replicate n None"

record ARRAY =
  value_buf :: addr
  a_size :: size_t
  a_alloc :: size_t

text \<open>A comparator of keys gets the bytes of both and their lengths.\<close>

type_synonym key_cmp_func = "byte list \<Rightarrow> nat \<Rightarrow> byte list \<Rightarrow> nat \<Rightarrow> int"

text \<open>
  The members of a dictionary and its nodes that are only there (allocated) when a flag asks for
  them are optional.
\<close>

record RBTREE_tag =
  node_key :: VALUE
  node_value :: VALUE
  node_left :: addr
  node_right :: addr
  node_order :: "(addr \<times> addr) option"

record DICT_order =
  order_head :: addr
  order_tail :: addr
  cmp_func :: "key_cmp_func option"

record DICT =
  d_root :: addr
  d_size :: size_t
  d_order :: "DICT_order option"

text \<open>The objects in memory: those that \<open>value.c\<close> allocates, and the variables of the program.\<close>

datatype block =
    Variable VALUE
  | Raw cells
  | Array_Block ARRAY
  | Values "VALUE list"
  | Dict_Block DICT
  | Node_Block RBTREE_tag

type_synonym value_mem = "addr \<rightharpoonup> block"

text \<open>What a \<open>VALUE*\<close> points to: a variable, an item of an array buffer, the key or the value of a node.\<close>

datatype vptr = VNull | Var addr | Item addr nat | Key addr | Val addr

text \<open>The answers of the C library; what they may be is in \<open>clib_ok\<close>.\<close>

record clib =
  malloc :: "value_mem \<Rightarrow> nat \<Rightarrow> addr"
  realloc :: "value_mem \<Rightarrow> addr \<Rightarrow> nat \<Rightarrow> addr"

definition clib_ok :: "clib \<Rightarrow> bool" where
  "clib_ok lib \<longleftrightarrow>
     (\<forall>h n. malloc lib h n = NULL \<or> h (malloc lib h n) = None \<and> even (malloc lib h n)) \<and>
     (\<forall>h p n. realloc lib h p n \<in> {NULL, p} \<or> h (realloc lib h p n) = None \<and> even (realloc lib h p n))"

definition free :: "value_mem \<Rightarrow> addr \<Rightarrow> value_mem option" where
  "free h p = (if p = NULL then Some h else do { _ \<leftarrow> load h p; Some (h(p := None)) })"

fun get_value :: "value_mem \<Rightarrow> vptr \<Rightarrow> VALUE option" where
  "get_value h VNull = None"
| "get_value h (Var a) = (case load h a of Some (Variable v) \<Rightarrow> Some v | _ \<Rightarrow> None)"
| "get_value h (Item a i) = (case load h a of Some (Values vs) \<Rightarrow> peek vs i | _ \<Rightarrow> None)"
| "get_value h (Key a) = (case load h a of Some (Node_Block n) \<Rightarrow> Some (node_key n) | _ \<Rightarrow> None)"
| "get_value h (Val a) = (case load h a of Some (Node_Block n) \<Rightarrow> Some (node_value n) | _ \<Rightarrow> None)"

fun put_value :: "value_mem \<Rightarrow> vptr \<Rightarrow> VALUE \<Rightarrow> value_mem option" where
  "put_value h VNull v = None"
| "put_value h (Var a) v = (case load h a of Some (Variable _) \<Rightarrow> Some (h(a \<mapsto> Variable v)) | _ \<Rightarrow> None)"
| "put_value h (Item a i) v = (case load h a of
       Some (Values vs) \<Rightarrow> do { vs \<leftarrow> poke vs i v; Some (h(a \<mapsto> Values vs)) } | _ \<Rightarrow> None)"
| "put_value h (Key a) v = (case load h a of
       Some (Node_Block n) \<Rightarrow> Some (h(a \<mapsto> Node_Block (n\<lparr>node_key := v\<rparr>))) | _ \<Rightarrow> None)"
| "put_value h (Val a) v = (case load h a of
       Some (Node_Block n) \<Rightarrow> Some (h(a \<mapsto> Node_Block (n\<lparr>node_value := v\<rparr>))) | _ \<Rightarrow> None)"

text \<open>\<open>v->data[i]\<close>, read and written.\<close>

definition data_get :: "value_mem \<Rightarrow> vptr \<Rightarrow> nat \<Rightarrow> byte option" where
  "data_get h v i = do { x \<leftarrow> get_value h v; c \<leftarrow> peek x i; c }"

definition data_set :: "value_mem \<Rightarrow> vptr \<Rightarrow> nat \<Rightarrow> byte \<Rightarrow> value_mem option" where
  "data_set h v i b = do { x \<leftarrow> get_value h v; x \<leftarrow> poke x i (Some b); put_value h v x }"

text \<open>Where a payload is: inside the \<open>VALUE\<close> from an offset on, or in a buffer of its own.\<close>

datatype payload = Inline vptr nat | Buffer addr

definition cells_read :: "cells \<Rightarrow> nat \<Rightarrow> nat \<Rightarrow> byte list option" where
  "cells_read xs off n = (if off + n \<le> length xs then those (take n (drop off xs)) else None)"

definition cells_write :: "cells \<Rightarrow> nat \<Rightarrow> byte list \<Rightarrow> cells option" where
  "cells_write xs off bs = mem_copy xs off (map Some bs)"

fun payload_read :: "value_mem \<Rightarrow> payload \<Rightarrow> nat \<Rightarrow> nat \<Rightarrow> byte list option" where
  "payload_read h (Inline v a) off n = do { x \<leftarrow> get_value h v; cells_read x (a + off) n }"
| "payload_read h (Buffer p) off n = (case load h p of Some (Raw x) \<Rightarrow> cells_read x off n | _ \<Rightarrow> None)"

fun payload_write :: "value_mem \<Rightarrow> payload \<Rightarrow> nat \<Rightarrow> byte list \<Rightarrow> value_mem option" where
  "payload_write h (Inline v a) off bs = do { x \<leftarrow> get_value h v; x \<leftarrow> cells_write x (a + off) bs; put_value h v x }"
| "payload_write h (Buffer p) off bs = (case load h p of
       Some (Raw x) \<Rightarrow> do { x \<leftarrow> cells_write x off bs; Some (h(p \<mapsto> Raw x)) } | _ \<Rightarrow> None)"

section \<open>Helpers of the code\<close>

text \<open>The pointer to a buffer is in the second half of the \<open>VALUE\<close>.\<close>

definition buffer_get :: "value_mem \<Rightarrow> vptr \<Rightarrow> addr option" where
  "buffer_get h v = do { x \<leftarrow> get_value h v; bs \<leftarrow> cells_read x 8 8; Some (le_word bs) }"

definition buffer_set :: "value_mem \<Rightarrow> vptr \<Rightarrow> addr \<Rightarrow> value_mem option" where
  "buffer_set h v p = do { x \<leftarrow> get_value h v; x \<leftarrow> cells_write x 8 (le_bytes p); put_value h v x }"

text \<open>The result is the payload, or none when there is no memory for it.\<close>

definition value_init_ex ::
    "clib \<Rightarrow> value_mem \<Rightarrow> vptr \<Rightarrow> VALUE_TYPE \<Rightarrow> size_t \<Rightarrow> size_t \<Rightarrow> (payload option \<times> value_mem) option" where
  "value_init_ex lib h v type n align = do {
     h \<leftarrow> data_set h v 0 type;
     if n + align \<le> of_nat sizeof_VALUE then Some (Some (Inline v (unat align)), h)
     else do {
       h \<leftarrow> data_set h v 0 (type OR IS_MALLOCED);
       let buf = malloc lib h (unat n);
       if buf = NULL then do { h \<leftarrow> data_set h v 0 VALUE_NULL; Some (None, h) }
       else do {
         h \<leftarrow> buffer_set (h(buf \<mapsto> Raw (indeterminate (unat n)))) v buf;
         Some (Some (Buffer buf), h)
       }
     }
   }"

definition value_init :: "clib \<Rightarrow> value_mem \<Rightarrow> vptr \<Rightarrow> VALUE_TYPE \<Rightarrow> size_t \<Rightarrow> (payload option \<times> value_mem) option" where
  "value_init lib h v type n = value_init_ex lib h v type n 1"

definition value_init_simple ::
    "clib \<Rightarrow> value_mem \<Rightarrow> vptr \<Rightarrow> VALUE_TYPE \<Rightarrow> byte list \<Rightarrow> (int \<times> value_mem) option" where
  "value_init_simple lib h v type data = do {
     (payload, h) \<leftarrow> value_init lib h v type (of_nat (length data));
     (case payload of
        None \<Rightarrow> Some (- 1, h)
      | Some p \<Rightarrow> do { h \<leftarrow> payload_write h p 0 data; Some (0, h) })
   }"

definition value_payload_ex :: "value_mem \<Rightarrow> vptr \<Rightarrow> nat \<Rightarrow> payload option option" where
  "value_payload_ex h v align =
     (if v = VNull then Some None
      else do {
        t \<leftarrow> data_get h v 0;
        if t AND IS_MALLOCED = 0 then Some (Some (Inline v align))
        else do { p \<leftarrow> buffer_get h v; Some (Some (Buffer p)) }
      })"

definition value_payload :: "value_mem \<Rightarrow> vptr \<Rightarrow> payload option option" where
  "value_payload h v = value_payload_ex h v 1"

section \<open>Generic information\<close>

definition value_type :: "value_mem \<Rightarrow> vptr \<Rightarrow> VALUE_TYPE option" where
  "value_type h v = (if v = VNull then Some VALUE_NULL else do { t \<leftarrow> data_get h v 0; Some (t AND TYPE_MASK) })"

definition value_is_new :: "value_mem \<Rightarrow> vptr \<Rightarrow> bool option" where
  "value_is_new h v =
     (if v = VNull then Some False
      else do {
        type \<leftarrow> value_type h v;
        t \<leftarrow> data_get h v 0;
        Some (type = VALUE_NULL \<and> t AND IS_NEW \<noteq> 0)
      })"

section \<open>Initializers\<close>

definition value_init_null :: "value_mem \<Rightarrow> vptr \<Rightarrow> value_mem option" where
  "value_init_null h v = (if v \<noteq> VNull then data_set h v 0 VALUE_NULL else Some h)"

definition value_init_new :: "value_mem \<Rightarrow> vptr \<Rightarrow> value_mem option" where
  "value_init_new h v = data_set h v 0 (VALUE_NULL OR IS_NEW)"

definition value_init_bool :: "value_mem \<Rightarrow> vptr \<Rightarrow> int \<Rightarrow> (int \<times> value_mem) option" where
  "value_init_bool h v b =
     (if v = VNull then Some (- 1, h)
      else do {
        h \<leftarrow> data_set h v 0 VALUE_BOOL;
        h \<leftarrow> data_set h v 1 (if b \<noteq> 0 then 1 else 0);
        Some (0, h)
      })"

definition value_init_int32 :: "clib \<Rightarrow> value_mem \<Rightarrow> vptr \<Rightarrow> 32 word \<Rightarrow> (int \<times> value_mem) option" where
  "value_init_int32 lib h v i32 = (if v = VNull then Some (- 1, h) else value_init_simple lib h v VALUE_INT32 (le_bytes i32))"

definition value_init_uint32 :: "clib \<Rightarrow> value_mem \<Rightarrow> vptr \<Rightarrow> 32 word \<Rightarrow> (int \<times> value_mem) option" where
  "value_init_uint32 lib h v u32 = (if v = VNull then Some (- 1, h) else value_init_simple lib h v VALUE_UINT32 (le_bytes u32))"

definition value_init_int64 :: "clib \<Rightarrow> value_mem \<Rightarrow> vptr \<Rightarrow> 64 word \<Rightarrow> (int \<times> value_mem) option" where
  "value_init_int64 lib h v i64 = (if v = VNull then Some (- 1, h) else value_init_simple lib h v VALUE_INT64 (le_bytes i64))"

definition value_init_uint64 :: "clib \<Rightarrow> value_mem \<Rightarrow> vptr \<Rightarrow> 64 word \<Rightarrow> (int \<times> value_mem) option" where
  "value_init_uint64 lib h v u64 = (if v = VNull then Some (- 1, h) else value_init_simple lib h v VALUE_UINT64 (le_bytes u64))"

text \<open>A \<open>float\<close> and a \<open>double\<close> are their bit patterns.\<close>

definition value_init_float :: "clib \<Rightarrow> value_mem \<Rightarrow> vptr \<Rightarrow> 32 word \<Rightarrow> (int \<times> value_mem) option" where
  "value_init_float lib h v f = (if v = VNull then Some (- 1, h) else value_init_simple lib h v VALUE_FLOAT (le_bytes f))"

definition value_init_double :: "clib \<Rightarrow> value_mem \<Rightarrow> vptr \<Rightarrow> 64 word \<Rightarrow> (int \<times> value_mem) option" where
  "value_init_double lib h v d = (if v = VNull then Some (- 1, h) else value_init_simple lib h v VALUE_DOUBLE (le_bytes d))"

section \<open>Strings\<close>

text \<open>The first loop counts the bytes of the length prefix, the second one writes them.\<close>

function string_prefix_size :: "size_t \<Rightarrow> size_t \<Rightarrow> size_t" where
  "string_prefix_size tmplen off =
     (if 128 \<le> tmplen then string_prefix_size (drop_bit 7 tmplen) (off + 1) else off + 1)"
  by pat_completeness auto
termination
proof (relation "measure (\<lambda>(tmplen, off). unat tmplen)")
  fix tmplen :: size_t and off :: size_t
  assume "128 \<le> tmplen"
  then have "0 < unat tmplen" by (simp add: word_le_nat_alt)
  then show "((drop_bit 7 tmplen, off + 1), tmplen, off) \<in> measure (\<lambda>(tmplen, off). unat tmplen)"
    by (simp add: drop_bit_eq_div unat_div)
qed simp

function string_prefix_write :: "value_mem \<Rightarrow> payload \<Rightarrow> size_t \<Rightarrow> size_t \<Rightarrow> (size_t \<times> value_mem) option" where
  "string_prefix_write h payload tmplen off =
     (if 128 \<le> tmplen then do {
        h \<leftarrow> payload_write h payload (unat off) [ucast (0x80 OR (tmplen AND 0x7f))];
        string_prefix_write h payload (drop_bit 7 tmplen) (off + 1)
      }
      else do {
        h \<leftarrow> payload_write h payload (unat off) [ucast (tmplen AND 0x7f)];
        Some (off + 1, h)
      })"
  by pat_completeness auto
termination
proof (relation "measure (\<lambda>(h, payload, tmplen, off). unat tmplen)")
  fix tmplen off :: size_t and h x :: value_mem and payload
  assume "128 \<le> tmplen"
  then have "0 < unat tmplen" by (simp add: word_le_nat_alt)
  then show "((x, payload, drop_bit 7 tmplen, off + 1), h, payload, tmplen, off) \<in>
      measure (\<lambda>(h, payload, tmplen, off). unat tmplen)"
    by (simp add: drop_bit_eq_div unat_div)
qed simp

declare string_prefix_size.simps [simp del] string_prefix_write.simps [simp del]

text \<open>\<open>len\<close> bytes from a pointer of the caller; the null pointer has none.\<close>

definition source_bytes :: "byte list option \<Rightarrow> size_t \<Rightarrow> byte list option" where
  "source_bytes str len =
     (if len = 0 then Some []
      else do { s \<leftarrow> str; if unat len \<le> length s then Some (take (unat len) s) else None })"

definition value_init_string_n ::
    "clib \<Rightarrow> value_mem \<Rightarrow> vptr \<Rightarrow> byte list option \<Rightarrow> size_t \<Rightarrow> (int \<times> value_mem) option" where
  "value_init_string_n lib h v str len =
     (if v = VNull then Some (- 1, h)
      else do {
        let off = string_prefix_size len 0;
        (payload, h) \<leftarrow> value_init lib h v VALUE_STRING (off + len + 1);
        (case payload of
           None \<Rightarrow> Some (- 1, h)
         | Some p \<Rightarrow> do {
             (off, h) \<leftarrow> string_prefix_write h p len 0;
             s \<leftarrow> source_bytes str len;
             h \<leftarrow> payload_write h p (unat off) s;
             h \<leftarrow> payload_write h p (unat (off + len)) [0];
             Some (0, h)
           })
      })"

text \<open>A C string of the caller is the list of its characters; \<open>strlen\<close> is the length of the list.\<close>

definition c_strlen :: "byte list option \<Rightarrow> size_t" where
  "c_strlen str = (case str of None \<Rightarrow> 0 | Some s \<Rightarrow> of_nat (length s))"

definition value_init_string :: "clib \<Rightarrow> value_mem \<Rightarrow> vptr \<Rightarrow> byte list option \<Rightarrow> (int \<times> value_mem) option" where
  "value_init_string lib h v str = value_init_string_n lib h v str (c_strlen str)"

text \<open>The place of the characters of a string: its payload and the offset there.\<close>

partial_function (option) string_skip_prefix :: "value_mem \<Rightarrow> payload \<Rightarrow> nat \<Rightarrow> nat option" where
  "string_skip_prefix h payload off = do {
     b \<leftarrow> payload_read h payload off 1;
     if hd b AND 0x80 \<noteq> 0 then string_skip_prefix h payload (off + 1) else Some (off + 1)
   }"

definition value_string :: "value_mem \<Rightarrow> vptr \<Rightarrow> (payload \<times> nat) option option" where
  "value_string h v = do {
     type \<leftarrow> value_type h v;
     if type \<noteq> VALUE_STRING then Some None
     else do {
       payload \<leftarrow> value_payload h v;
       p \<leftarrow> payload;
       off \<leftarrow> string_skip_prefix h p 0;
       Some (Some (p, off))
     }
   }"

text \<open>The shifts are in \<open>int\<close>: undefined when the width is 32 or more, or the result does not fit.\<close>

definition int_shift :: "nat \<Rightarrow> nat \<Rightarrow> nat option" where
  "int_shift b shift = (if shift < 32 \<and> b * 2 ^ shift \<le> INT_MAX then Some (b * 2 ^ shift) else None)"

partial_function (option) string_length_loop :: "value_mem \<Rightarrow> payload \<Rightarrow> nat \<Rightarrow> nat \<Rightarrow> size_t \<Rightarrow> size_t option" where
  "string_length_loop h payload off shift len = do {
     b \<leftarrow> payload_read h payload off 1;
     if hd b AND 0x80 \<noteq> 0 then do {
       n \<leftarrow> int_shift (unat (hd b AND 0x7f)) shift;
       string_length_loop h payload (off + 1) (shift + 7) (len OR of_nat n)
     }
     else do {
       n \<leftarrow> int_shift (unat (hd b)) shift;
       Some (len OR of_nat n)
     }
   }"

definition value_string_length :: "value_mem \<Rightarrow> vptr \<Rightarrow> size_t option" where
  "value_string_length h v = do {
     type \<leftarrow> value_type h v;
     if type \<noteq> VALUE_STRING then Some 0
     else do {
       payload \<leftarrow> value_payload h v;
       p \<leftarrow> payload;
       string_length_loop h p 0 0 0
     }
   }"

definition value_bool :: "value_mem \<Rightarrow> vptr \<Rightarrow> int option" where
  "value_bool h v = do {
     type \<leftarrow> value_type h v;
     if type \<noteq> VALUE_BOOL then Some (- 1)
     else do { b \<leftarrow> data_get h v 1; Some (uint b) }
   }"

declare string_skip_prefix.simps [code] string_length_loop.simps [code]

end
