(* ===== verification/Value_Code.thy ===== *)
theory Value_Code
  imports Value_Mem Value_Key Rbtree_Code
begin

text \<open>
  \<open>data/value.c\<close>: arrays and dictionaries, operation by operation; the release of a value, which goes
  through both. A dictionary is a red-black tree on nodes of its own, with the colour in a flag of
  the key and, on request, a list of the nodes in the order of their insertion. The path of a search
  is that of \<open>Rbtree_Code\<close>, with the same capacity.
\<close>

section \<open>Access to the structures\<close>

definition load_array :: "value_mem \<Rightarrow> addr \<Rightarrow> ARRAY option" where
  "load_array h a = (case load h a of Some (Array_Block A) \<Rightarrow> Some A | _ \<Rightarrow> None)"

definition load_values :: "value_mem \<Rightarrow> addr \<Rightarrow> VALUE list option" where
  "load_values h a = (case load h a of Some (Values vs) \<Rightarrow> Some vs | _ \<Rightarrow> None)"

definition load_dict :: "value_mem \<Rightarrow> addr \<Rightarrow> DICT option" where
  "load_dict h d = (case load h d of Some (Dict_Block D) \<Rightarrow> Some D | _ \<Rightarrow> None)"

definition load_node :: "value_mem \<Rightarrow> addr \<Rightarrow> RBTREE_tag option" where
  "load_node h p = (case load h p of Some (Node_Block n) \<Rightarrow> Some n | _ \<Rightarrow> None)"

definition modify_array :: "value_mem \<Rightarrow> addr \<Rightarrow> (ARRAY \<Rightarrow> ARRAY) \<Rightarrow> value_mem option" where
  "modify_array h a f = do { A \<leftarrow> load_array h a; Some (h(a \<mapsto> Array_Block (f A))) }"

definition modify_dict :: "value_mem \<Rightarrow> addr \<Rightarrow> (DICT \<Rightarrow> DICT) \<Rightarrow> value_mem option" where
  "modify_dict h d f = do { D \<leftarrow> load_dict h d; Some (h(d \<mapsto> Dict_Block (f D))) }"

definition modify_node :: "value_mem \<Rightarrow> addr \<Rightarrow> (RBTREE_tag \<Rightarrow> RBTREE_tag) \<Rightarrow> value_mem option" where
  "modify_node h p f = do { n \<leftarrow> load_node h p; Some (h(p \<mapsto> Node_Block (f n))) }"

text \<open>An array or a dictionary always has a block of its own; without one the \<open>VALUE\<close> is broken.\<close>

definition block_payload :: "value_mem \<Rightarrow> vptr \<Rightarrow> addr option" where
  "block_payload h v = do {
     payload \<leftarrow> value_payload_ex h v 8;
     (case payload of Some (Buffer p) \<Rightarrow> Some p | _ \<Rightarrow> None)
   }"

section \<open>Arrays\<close>

definition value_init_array :: "clib \<Rightarrow> value_mem \<Rightarrow> vptr \<Rightarrow> (int \<times> value_mem) option" where
  "value_init_array lib h v =
     (if v = VNull then Some (- 1, h)
      else do {
        (payload, h) \<leftarrow> value_init_ex lib h v VALUE_ARRAY 24 8;
        (case payload of
           None \<Rightarrow> Some (- 1, h)
         | Some (Buffer a) \<Rightarrow> Some (0, h(a \<mapsto> Array_Block \<lparr>value_buf = NULL, a_size = 0, a_alloc = 0\<rparr>))
         | Some (Inline _ _) \<Rightarrow> None)
      })"

text \<open>\<open>while(good_alloc < alloc) good_alloc *= 2;\<close> and the same loop with \<open>good_alloc-2\<close>.\<close>

partial_function (option) good_alloc_loop :: "size_t \<Rightarrow> size_t \<Rightarrow> size_t \<Rightarrow> size_t option" where
  "good_alloc_loop alloc slack good_alloc =
     (if good_alloc - slack < alloc then good_alloc_loop alloc slack (good_alloc * 2) else Some good_alloc)"

definition value_array_good_alloc_size :: "size_t \<Rightarrow> size_t option" where
  "value_array_good_alloc_size alloc =
     (if alloc \<le> 16 then good_alloc_loop alloc 0 1
      else do { good_alloc \<leftarrow> good_alloc_loop alloc 2 16; Some (good_alloc - 2) })"

definition value_array_payload :: "value_mem \<Rightarrow> vptr \<Rightarrow> addr option" where
  "value_array_payload h v = do {
     type \<leftarrow> value_type h v;
     if type \<noteq> VALUE_ARRAY then Some NULL else block_payload h v
   }"

text \<open>
  \<open>realloc\<close> moves the items into a block for so many bytes; new items are indeterminate. A request for no
  bytes (an overflow of the product) has no defined result.
\<close>

definition value_array_realloc :: "clib \<Rightarrow> value_mem \<Rightarrow> addr \<Rightarrow> size_t \<Rightarrow> (int \<times> value_mem) option" where
  "value_array_realloc lib h a alloc = do {
     A \<leftarrow> load_array h a;
     old \<leftarrow> (if value_buf A = NULL then Some [] else load_values h (value_buf A));
     let bytes = unat (alloc * of_nat sizeof_VALUE);
     let n = bytes div sizeof_VALUE;
     let buf = realloc lib h (value_buf A) bytes;
     if bytes = 0 then None
     else if buf = NULL then Some (- 1, h)
     else do {
       let vs = take n old @ replicate (n - length old) (indeterminate sizeof_VALUE);
       h \<leftarrow> modify_array ((if value_buf A = NULL then h else h(value_buf A := None))(buf \<mapsto> Values vs)) a
              (\<lambda>A. A\<lparr>value_buf := buf, a_alloc := alloc\<rparr>);
       Some (0, h)
     }
   }"

definition value_array_get :: "value_mem \<Rightarrow> vptr \<Rightarrow> size_t \<Rightarrow> vptr option" where
  "value_array_get h v index = do {
     a \<leftarrow> value_array_payload h v;
     if a \<noteq> NULL then do {
       A \<leftarrow> load_array h a;
       Some (if index < a_size A then Item (value_buf A) (unat index) else VNull)
     }
     else Some VNull
   }"

definition value_array_get_all :: "value_mem \<Rightarrow> vptr \<Rightarrow> vptr option" where
  "value_array_get_all h v = do {
     a \<leftarrow> value_array_payload h v;
     if a \<noteq> NULL then do { A \<leftarrow> load_array h a; Some (if value_buf A = NULL then VNull else Item (value_buf A) 0) }
     else Some VNull
   }"

definition value_array_size :: "value_mem \<Rightarrow> vptr \<Rightarrow> size_t option" where
  "value_array_size h v = do {
     a \<leftarrow> value_array_payload h v;
     if a \<noteq> NULL then do { A \<leftarrow> load_array h a; Some (a_size A) } else Some 0
   }"

definition array_memmove :: "value_mem \<Rightarrow> addr \<Rightarrow> nat \<Rightarrow> nat \<Rightarrow> nat \<Rightarrow> value_mem option" where
  "array_memmove h buf dst src n = do {
     vs \<leftarrow> load_values h buf;
     vs \<leftarrow> mem_move vs dst src n;
     Some (h(buf \<mapsto> Values vs))
   }"

definition value_array_insert :: "clib \<Rightarrow> value_mem \<Rightarrow> vptr \<Rightarrow> size_t \<Rightarrow> (vptr \<times> value_mem) option" where
  "value_array_insert lib h v index = do {
     a \<leftarrow> value_array_payload h v;
     if a = NULL then Some (VNull, h)
     else do {
       A \<leftarrow> load_array h a;
       if index > a_size A then Some (VNull, h)
       else do {
         (ret, h) \<leftarrow> (if a_size A \<ge> a_alloc A then do {
              good_alloc \<leftarrow> value_array_good_alloc_size (a_alloc A + 1);
              value_array_realloc lib h a good_alloc
            }
            else Some (0, h));
         if ret \<noteq> 0 then Some (VNull, h)
         else do {
           A \<leftarrow> load_array h a;
           h \<leftarrow> (if index < a_size A
                 then array_memmove h (value_buf A) (unat index + 1) (unat index) (unat (a_size A - index)) else Some h);
           h \<leftarrow> value_init_new h (Item (value_buf A) (unat index));
           h \<leftarrow> modify_array h a (\<lambda>A. A\<lparr>a_size := a_size A + 1\<rparr>);
           Some (Item (value_buf A) (unat index), h)
         }
       }
     }
   }"

definition value_array_append :: "clib \<Rightarrow> value_mem \<Rightarrow> vptr \<Rightarrow> (vptr \<times> value_mem) option" where
  "value_array_append lib h v = do { n \<leftarrow> value_array_size h v; value_array_insert lib h v n }"

section \<open>Dictionaries: nodes, comparison, search\<close>

definition VALUE_DICT_MAINTAINORDER :: uint32 where "VALUE_DICT_MAINTAINORDER = 1"

definition value_init_dict_ex ::
    "clib \<Rightarrow> value_mem \<Rightarrow> vptr \<Rightarrow> key_cmp_func option \<Rightarrow> uint32 \<Rightarrow> (int \<times> value_mem) option" where
  "value_init_dict_ex lib h v custom_cmp_func flags =
     (if v = VNull then Some (- 1, h)
      else do {
        let extended = (custom_cmp_func \<noteq> None \<or> flags AND VALUE_DICT_MAINTAINORDER \<noteq> 0);
        (payload, h) \<leftarrow> value_init_ex lib h v VALUE_DICT (if extended then 40 else 16) 8;
        (case payload of
           None \<Rightarrow> Some (- 1, h)
         | Some (Buffer d) \<Rightarrow> do {
             let h = h(d \<mapsto> Dict_Block \<lparr>d_root = NULL, d_size = 0,
               d_order = (if extended then Some \<lparr>order_head = NULL, order_tail = NULL, cmp_func = custom_cmp_func\<rparr> else None)\<rparr>);
             t \<leftarrow> data_get h v 0;
             h \<leftarrow> (if custom_cmp_func \<noteq> None then data_set h v 0 (t OR HAS_CUSTOMCMP) else Some h);
             t \<leftarrow> data_get h v 0;
             h \<leftarrow> (if flags AND VALUE_DICT_MAINTAINORDER \<noteq> 0 then data_set h v 0 (t OR HAS_ORDERLIST) else Some h);
             Some (0, h)
           }
         | Some (Inline _ _) \<Rightarrow> None)
      })"

definition value_init_dict :: "clib \<Rightarrow> value_mem \<Rightarrow> vptr \<Rightarrow> (int \<times> value_mem) option" where
  "value_init_dict lib h v = value_init_dict_ex lib h v None 0"

definition NODE_MAKE_RED :: "value_mem \<Rightarrow> addr \<Rightarrow> value_mem option" where
  "NODE_MAKE_RED h p = do { t \<leftarrow> data_get h (Key p) 0; data_set h (Key p) 0 (t OR HAS_REDCOLOR) }"

definition NODE_MAKE_BLACK :: "value_mem \<Rightarrow> addr \<Rightarrow> value_mem option" where
  "NODE_MAKE_BLACK h p = do { t \<leftarrow> data_get h (Key p) 0; data_set h (Key p) 0 (t AND NOT HAS_REDCOLOR) }"

definition NODE_TOGGLE_COLOR :: "value_mem \<Rightarrow> addr \<Rightarrow> value_mem option" where
  "NODE_TOGGLE_COLOR h p = do { t \<leftarrow> data_get h (Key p) 0; data_set h (Key p) 0 (t XOR HAS_REDCOLOR) }"

definition NODE_IS_RED :: "value_mem \<Rightarrow> addr \<Rightarrow> bool option" where
  "NODE_IS_RED h p = do { t \<leftarrow> data_get h (Key p) 0; Some (t AND HAS_REDCOLOR \<noteq> 0) }"

definition NODE_IS_BLACK :: "value_mem \<Rightarrow> addr \<Rightarrow> bool option" where
  "NODE_IS_BLACK h p = do { red \<leftarrow> NODE_IS_RED h p; Some (\<not> red) }"

text \<open>\<open>p != NULL && IS_RED(p)\<close>, \<open>p == NULL || IS_BLACK(p)\<close>, and the links of a node.\<close>

definition red_child :: "value_mem \<Rightarrow> addr \<Rightarrow> bool option" where
  "red_child h p = (if p \<noteq> NULL then NODE_IS_RED h p else Some False)"

definition black_child :: "value_mem \<Rightarrow> addr \<Rightarrow> bool option" where
  "black_child h p = (if p = NULL then Some True else NODE_IS_BLACK h p)"

definition get_left :: "value_mem \<Rightarrow> addr \<Rightarrow> addr option" where
  "get_left h p = do { n \<leftarrow> load_node h p; Some (node_left n) }"

definition get_right :: "value_mem \<Rightarrow> addr \<Rightarrow> addr option" where
  "get_right h p = do { n \<leftarrow> load_node h p; Some (node_right n) }"

definition set_left :: "value_mem \<Rightarrow> addr \<Rightarrow> addr \<Rightarrow> value_mem option" where
  "set_left h p q = modify_node h p (\<lambda>n. n\<lparr>node_left := q\<rparr>)"

definition set_right :: "value_mem \<Rightarrow> addr \<Rightarrow> addr \<Rightarrow> value_mem option" where
  "set_right h p q = modify_node h p (\<lambda>n. n\<lparr>node_right := q\<rparr>)"

definition set_root :: "value_mem \<Rightarrow> addr \<Rightarrow> addr \<Rightarrow> value_mem option" where
  "set_root h d p = modify_dict h d (\<lambda>D. D\<lparr>d_root := p\<rparr>)"

definition value_dict_payload :: "value_mem \<Rightarrow> vptr \<Rightarrow> addr option" where
  "value_dict_payload h v = do {
     type \<leftarrow> value_type h v;
     if type \<noteq> VALUE_DICT then Some NULL else block_payload h v
   }"

definition value_dict_cmp ::
    "value_mem \<Rightarrow> vptr \<Rightarrow> addr \<Rightarrow> byte list \<Rightarrow> size_t \<Rightarrow> byte list \<Rightarrow> size_t \<Rightarrow> int option" where
  "value_dict_cmp h v d key1 len1 key2 len2 = do {
     t \<leftarrow> data_get h v 0;
     if t AND HAS_CUSTOMCMP = 0 then value_dict_default_cmp key1 (unat len1) key2 (unat len2)
     else do {
       D \<leftarrow> load_dict h d;
       ord \<leftarrow> d_order D;
       f \<leftarrow> cmp_func ord;
       Some (f key1 (unat len1) key2 (unat len2))
     }
   }"

text \<open>\<open>value_dict_cmp\<close> on a key of the caller (\<open>NULL\<close> has no bytes) and the key of a node.\<close>

definition key_string :: "byte list option \<Rightarrow> byte list" where
  "key_string key = (case key of None \<Rightarrow> [] | Some s \<Rightarrow> s)"

definition cmp_with_node ::
    "value_mem \<Rightarrow> vptr \<Rightarrow> addr \<Rightarrow> byte list option \<Rightarrow> size_t \<Rightarrow> addr \<Rightarrow> int option" where
  "cmp_with_node h v d key key_len node = do {
     str \<leftarrow> value_string h (Key node);
     len \<leftarrow> value_string_length h (Key node);
     (p, off) \<leftarrow> str;
     key2 \<leftarrow> payload_read h p off (unat len);
     value_dict_cmp h v d (key_string key) key_len key2 len
   }"

partial_function (option) value_dict_leftmost_path ::
    "value_mem \<Rightarrow> addr \<Rightarrow> RBTREE_CURSOR \<Rightarrow> RBTREE_CURSOR option" where
  "value_dict_leftmost_path h node path =
     (if node \<noteq> NULL then do {
        path \<leftarrow> path_push path node;
        node \<leftarrow> get_left h node;
        value_dict_leftmost_path h node path
      }
      else Some path)"

definition value_dict_flags :: "value_mem \<Rightarrow> vptr \<Rightarrow> uint32 option" where
  "value_dict_flags h v = do {
     d \<leftarrow> value_dict_payload h v;
     if d \<noteq> NULL then do { t \<leftarrow> data_get h v 0; Some (if t AND HAS_ORDERLIST \<noteq> 0 then VALUE_DICT_MAINTAINORDER else 0) }
     else Some 0
   }"

definition value_dict_size :: "value_mem \<Rightarrow> vptr \<Rightarrow> size_t option" where
  "value_dict_size h v = do {
     d \<leftarrow> value_dict_payload h v;
     if d \<noteq> NULL then do { D \<leftarrow> load_dict h d; Some (d_size D) } else Some 0
   }"

text \<open>The root of the tree, none without a dictionary.\<close>

definition dict_root :: "value_mem \<Rightarrow> addr \<Rightarrow> addr option" where
  "dict_root h d = (if d \<noteq> NULL then do { D \<leftarrow> load_dict h d; Some (d_root D) } else Some NULL)"

partial_function (option) dict_get_loop ::
    "value_mem \<Rightarrow> vptr \<Rightarrow> addr \<Rightarrow> byte list option \<Rightarrow> size_t \<Rightarrow> addr \<Rightarrow> vptr option" where
  "dict_get_loop h v d key key_len node =
     (if node \<noteq> NULL then do {
        cmp \<leftarrow> cmp_with_node h v d key key_len node;
        if cmp < 0 then do { node \<leftarrow> get_left h node; dict_get_loop h v d key key_len node }
        else if cmp > 0 then do { node \<leftarrow> get_right h node; dict_get_loop h v d key key_len node }
        else Some (Val node)
      }
      else Some VNull)"

definition value_dict_get_n :: "value_mem \<Rightarrow> vptr \<Rightarrow> byte list option \<Rightarrow> size_t \<Rightarrow> vptr option" where
  "value_dict_get_n h v key key_len = do {
     d \<leftarrow> value_dict_payload h v;
     node \<leftarrow> dict_root h d;
     dict_get_loop h v d key key_len node
   }"

definition value_dict_get :: "value_mem \<Rightarrow> vptr \<Rightarrow> byte list option \<Rightarrow> vptr option" where
  "value_dict_get h v key = value_dict_get_n h v key (c_strlen key)"

declare good_alloc_loop.simps [code] value_dict_leftmost_path.simps [code] dict_get_loop.simps [code]

end
