(* ===== verification/Value_Dict.thy ===== *)
theory Value_Dict
  imports Value_Code
begin

text \<open>
  \<open>data/value.c\<close>: insertion into a dictionary, the release of a value with everything below it, removal
  from arrays and dictionaries, and the walks.
\<close>

section \<open>Rotations and insertion\<close>

definition value_dict_rotate_left :: "value_mem \<Rightarrow> addr \<Rightarrow> addr \<Rightarrow> addr \<Rightarrow> value_mem option" where
  "value_dict_rotate_left h d parent node = do {
     tmp \<leftarrow> get_right h node;
     l \<leftarrow> get_left h tmp;
     h \<leftarrow> set_right h node l;
     h \<leftarrow> set_left h tmp node;
     if parent \<noteq> NULL then do {
       pl \<leftarrow> get_left h parent;
       if pl = node then set_left h parent tmp
       else do {
         pr \<leftarrow> get_right h parent;
         if pr = node then set_right h parent tmp else Some h
       }
     }
     else set_root h d tmp
   }"

definition value_dict_rotate_right :: "value_mem \<Rightarrow> addr \<Rightarrow> addr \<Rightarrow> addr \<Rightarrow> value_mem option" where
  "value_dict_rotate_right h d parent node = do {
     tmp \<leftarrow> get_left h node;
     r \<leftarrow> get_right h tmp;
     h \<leftarrow> set_left h node r;
     h \<leftarrow> set_right h tmp node;
     if parent \<noteq> NULL then do {
       pr \<leftarrow> get_right h parent;
       if pr = node then set_right h parent tmp
       else do {
         pl \<leftarrow> get_left h parent;
         if pl = node then set_left h parent tmp else Some h
       }
     }
     else set_root h d tmp
   }"

definition dict_insert_rotate :: "value_mem \<Rightarrow> addr \<Rightarrow> RBTREE_CURSOR \<Rightarrow> addr \<Rightarrow> addr \<Rightarrow> addr \<Rightarrow> value_mem option" where
  "dict_insert_rotate h d path node parent grandparent = do {
     grandgrandparent \<leftarrow> (if 3 < length path then path_top path 4 else Some NULL);
     gl \<leftarrow> get_left h grandparent;
     inner_left \<leftarrow> (if gl \<noteq> NULL then do { x \<leftarrow> get_right h gl; Some (x = node) } else Some False);
     (h, parent, node) \<leftarrow>
       (if inner_left then do {
          h \<leftarrow> value_dict_rotate_left h d grandparent parent;
          l \<leftarrow> get_left h node;
          Some (h, node, l)
        }
        else do {
          gr \<leftarrow> get_right h grandparent;
          inner_right \<leftarrow> (if gr \<noteq> NULL then do { x \<leftarrow> get_left h gr; Some (x = node) } else Some False);
          if inner_right then do {
            h \<leftarrow> value_dict_rotate_right h d grandparent parent;
            r \<leftarrow> get_right h node;
            Some (h, node, r)
          }
          else Some (h, parent, node)
        });
     pl \<leftarrow> get_left h parent;
     h \<leftarrow> (if pl = node then value_dict_rotate_right h d grandgrandparent grandparent
           else value_dict_rotate_left h d grandgrandparent grandparent);
     h \<leftarrow> NODE_MAKE_BLACK h parent;
     NODE_MAKE_RED h grandparent
   }"

partial_function (option) value_dict_fix_after_insert :: "value_mem \<Rightarrow> addr \<Rightarrow> RBTREE_CURSOR \<Rightarrow> value_mem option" where
  "value_dict_fix_after_insert h d path = do {
     node \<leftarrow> path_top path 1;
     parent \<leftarrow> (if 1 < length path then path_top path 2 else Some NULL);
     if parent = NULL then do {
       h \<leftarrow> NODE_MAKE_BLACK h node;
       set_root h d node
     }
     else do {
       parent_black \<leftarrow> NODE_IS_BLACK h parent;
       if parent_black then Some h
       else do {
         grandparent \<leftarrow> path_top path 3;
         gl \<leftarrow> get_left h grandparent;
         uncle \<leftarrow> (if gl = parent then get_right h grandparent else get_left h grandparent);
         uncle_black \<leftarrow> black_child h uncle;
         if uncle_black then dict_insert_rotate h d path node parent grandparent
         else do {
           h \<leftarrow> NODE_MAKE_BLACK h parent;
           h \<leftarrow> NODE_MAKE_BLACK h uncle;
           h \<leftarrow> NODE_MAKE_RED h grandparent;
           value_dict_fix_after_insert h d (drop 2 path)
         }
       }
     }
   }"

text \<open>The search: the node that was found, or NULL; the last comparison; the path.\<close>

partial_function (option) dict_search ::
    "value_mem \<Rightarrow> vptr \<Rightarrow> addr \<Rightarrow> byte list option \<Rightarrow> size_t \<Rightarrow> addr \<Rightarrow> int \<Rightarrow> RBTREE_CURSOR
      \<Rightarrow> (addr \<times> int \<times> RBTREE_CURSOR) option" where
  "dict_search h v d key key_len node cmp path =
     (if node \<noteq> NULL then do {
        cmp \<leftarrow> cmp_with_node h v d key key_len node;
        path \<leftarrow> path_push path node;
        if cmp < 0 then do { node \<leftarrow> get_left h node; dict_search h v d key key_len node cmp path }
        else if cmp > 0 then do { node \<leftarrow> get_right h node; dict_search h v d key key_len node cmp path }
        else Some (node, cmp, path)
      }
      else Some (NULL, cmp, path))"

text \<open>The list of the nodes in the order of insertion: the new node goes to its end.\<close>

definition has_order :: "value_mem \<Rightarrow> vptr \<Rightarrow> bool option" where
  "has_order h v = do { t \<leftarrow> data_get h v 0; Some (t AND HAS_ORDERLIST \<noteq> 0) }"

definition order_append :: "value_mem \<Rightarrow> addr \<Rightarrow> addr \<Rightarrow> value_mem option" where
  "order_append h d node = do {
     D \<leftarrow> load_dict h d;
     ord \<leftarrow> d_order D;
     h \<leftarrow> modify_node h node (\<lambda>n. n\<lparr>node_order := Some (order_tail ord, NULL)\<rparr>);
     if order_tail ord \<noteq> NULL then do {
       tail \<leftarrow> load_node h (order_tail ord);
       (tail_prev, tail_next) \<leftarrow> node_order tail;
       h \<leftarrow> modify_node h (order_tail ord) (\<lambda>n. n\<lparr>node_order := Some (tail_prev, node)\<rparr>);
       modify_dict h d (\<lambda>D. D\<lparr>d_order := Some (ord\<lparr>order_tail := node\<rparr>)\<rparr>)
     }
     else modify_dict h d (\<lambda>D. D\<lparr>d_order := Some (ord\<lparr>order_head := node, order_tail := node\<rparr>)\<rparr>)
   }"

text \<open>
  A node is allocated without the order links unless they are asked for; its members are indeterminate,
  except that the links are set before they are read.
\<close>

definition new_node :: "bool \<Rightarrow> RBTREE_tag" where
  "new_node ordered = \<lparr>node_key = indeterminate sizeof_VALUE, node_value = indeterminate sizeof_VALUE,
     node_left = NULL, node_right = NULL, node_order = (if ordered then Some (NULL, NULL) else None)\<rparr>"

definition dict_attach :: "value_mem \<Rightarrow> addr \<Rightarrow> addr \<Rightarrow> int \<Rightarrow> RBTREE_CURSOR \<Rightarrow> value_mem option" where
  "dict_attach h d node cmp path =
     (if 0 < length path then do {
        last \<leftarrow> path_top path 1;
        if cmp < 0 then set_left h last node else set_right h last node
      }
      else set_root h d node)"

definition value_dict_get_or_add_n ::
    "clib \<Rightarrow> value_mem \<Rightarrow> vptr \<Rightarrow> byte list option \<Rightarrow> size_t \<Rightarrow> (vptr \<times> value_mem) option" where
  "value_dict_get_or_add_n lib h v key key_len = do {
     d \<leftarrow> value_dict_payload h v;
     node \<leftarrow> dict_root h d;
     if d = NULL then Some (VNull, h)
     else do {
       (found, cmp, path) \<leftarrow> dict_search h v d key key_len node 0 [];
       if found \<noteq> NULL then Some (Val found, h)
       else do {
         ordered \<leftarrow> has_order h v;
         let node = malloc lib h (if ordered then 64 else 48);
         if node = NULL then Some (VNull, h)
         else do {
           let h = h(node \<mapsto> Node_Block (new_node ordered));
           (ret, h) \<leftarrow> value_init_string_n lib h (Key node) key key_len;
           if ret \<noteq> 0 then do { h \<leftarrow> free h node; Some (VNull, h) }
           else do {
             h \<leftarrow> value_init_new h (Val node);
             h \<leftarrow> set_left h node NULL;
             h \<leftarrow> set_right h node NULL;
             h \<leftarrow> NODE_MAKE_RED h node;
             h \<leftarrow> (if ordered then order_append h d node else Some h);
             h \<leftarrow> dict_attach h d node cmp path;
             path \<leftarrow> path_push path node;
             h \<leftarrow> value_dict_fix_after_insert h d path;
             h \<leftarrow> modify_dict h d (\<lambda>D. D\<lparr>d_size := d_size D + 1\<rparr>);
             Some (Val node, h)
           }
         }
       }
     }
   }"

definition value_dict_get_or_add :: "clib \<Rightarrow> value_mem \<Rightarrow> vptr \<Rightarrow> byte list option \<Rightarrow> (vptr \<times> value_mem) option" where
  "value_dict_get_or_add lib h v key = value_dict_get_or_add_n lib h v key (c_strlen key)"

definition value_dict_add_n ::
    "clib \<Rightarrow> value_mem \<Rightarrow> vptr \<Rightarrow> byte list option \<Rightarrow> size_t \<Rightarrow> (vptr \<times> value_mem) option" where
  "value_dict_add_n lib h v key key_len = do {
     (res, h) \<leftarrow> value_dict_get_or_add_n lib h v key key_len;
     new \<leftarrow> value_is_new h res;
     Some (if new then res else VNull, h)
   }"

text \<open>Here \<open>strlen\<close> gets the key without a test for \<open>NULL\<close>.\<close>

definition value_dict_add :: "clib \<Rightarrow> value_mem \<Rightarrow> vptr \<Rightarrow> byte list option \<Rightarrow> (vptr \<times> value_mem) option" where
  "value_dict_add lib h v key = do { s \<leftarrow> key; value_dict_add_n lib h v (Some s) (of_nat (length s)) }"

section \<open>Release\<close>

text \<open>
  \<open>value_fini\<close>, \<open>value_array_clean\<close> and \<open>value_dict_clean\<close> call each other: one function for them and their two
  loops, over what is still to be done.
\<close>

datatype fini_task = Fini vptr | Array_Clean vptr | Array_Items addr size_t | Dict_Clean vptr | Dict_Nodes RBTREE_CURSOR

partial_function (option) fini_run :: "fini_task \<Rightarrow> value_mem \<Rightarrow> value_mem option" where
  "fini_run task h = (case task of
       Fini v \<Rightarrow>
         if v = VNull then Some h
         else do {
           type \<leftarrow> value_type h v;
           h \<leftarrow> (if type = VALUE_ARRAY then fini_run (Array_Clean v) h else Some h);
           type \<leftarrow> value_type h v;
           h \<leftarrow> (if type = VALUE_DICT then fini_run (Dict_Clean v) h else Some h);
           t \<leftarrow> data_get h v 0;
           h \<leftarrow> (if t AND 0x80 \<noteq> 0 then do {
                   payload \<leftarrow> value_payload h v;
                   (case payload of Some (Buffer p) \<Rightarrow> free h p | _ \<Rightarrow> None)
                 }
                 else Some h);
           data_set h v 0 VALUE_NULL
         }
     | Array_Clean v \<Rightarrow> do {
         a \<leftarrow> value_array_payload h v;
         if a = NULL then Some h
         else do {
           h \<leftarrow> fini_run (Array_Items a 0) h;
           A \<leftarrow> load_array h a;
           h \<leftarrow> free h (value_buf A);
           modify_array h a (\<lambda>A. \<lparr>value_buf = NULL, a_size = 0, a_alloc = 0\<rparr>)
         }
       }
     | Array_Items a i \<Rightarrow> do {
         A \<leftarrow> load_array h a;
         if i < a_size A then do {
           h \<leftarrow> fini_run (Fini (Item (value_buf A) (unat i))) h;
           fini_run (Array_Items a (i + 1)) h
         }
         else Some h
       }
     | Dict_Clean v \<Rightarrow> do {
         d \<leftarrow> value_dict_payload h v;
         if d = NULL then Some h
         else do {
           D \<leftarrow> load_dict h d;
           stack \<leftarrow> value_dict_leftmost_path h (d_root D) [];
           h \<leftarrow> fini_run (Dict_Nodes stack) h;
           ordered \<leftarrow> has_order h v;
           if ordered then do {
             D \<leftarrow> load_dict h d;
             ord \<leftarrow> d_order D;
             modify_dict h d (\<lambda>D. D\<lparr>d_root := NULL, d_size := 0, d_order := Some (ord\<lparr>order_head := NULL, order_tail := NULL\<rparr>)\<rparr>)
           }
           else modify_dict h d (\<lambda>D. D\<lparr>d_root := NULL, d_size := 0\<rparr>)
         }
       }
     | Dict_Nodes stack \<Rightarrow>
         (case stack of
            [] \<Rightarrow> Some h
          | node # stack \<Rightarrow> do {
              right \<leftarrow> get_right h node;
              h \<leftarrow> fini_run (Fini (Key node)) h;
              h \<leftarrow> fini_run (Fini (Val node)) h;
              h \<leftarrow> free h node;
              stack \<leftarrow> value_dict_leftmost_path h right stack;
              fini_run (Dict_Nodes stack) h
            }))"

definition value_fini :: "value_mem \<Rightarrow> vptr \<Rightarrow> value_mem option" where
  "value_fini h v = fini_run (Fini v) h"

definition value_array_clean :: "value_mem \<Rightarrow> vptr \<Rightarrow> value_mem option" where
  "value_array_clean h v = fini_run (Array_Clean v) h"

definition value_dict_clean :: "value_mem \<Rightarrow> vptr \<Rightarrow> value_mem option" where
  "value_dict_clean h v = fini_run (Dict_Clean v) h"

section \<open>Removal from arrays\<close>

text \<open>\<open>for(i = index; i < index + count; i++) value_fini(&a->value_buf[i]);\<close>\<close>

partial_function (option) fini_range :: "value_mem \<Rightarrow> addr \<Rightarrow> size_t \<Rightarrow> size_t \<Rightarrow> value_mem option" where
  "fini_range h a i limit =
     (if i < limit then do {
        A \<leftarrow> load_array h a;
        h \<leftarrow> value_fini h (Item (value_buf A) (unat i));
        fini_range h a (i + 1) limit
      }
      else Some h)"

definition value_array_remove_range :: "clib \<Rightarrow> value_mem \<Rightarrow> vptr \<Rightarrow> size_t \<Rightarrow> size_t \<Rightarrow> (int \<times> value_mem) option" where
  "value_array_remove_range lib h v index count = do {
     a \<leftarrow> value_array_payload h v;
     if a = NULL then Some (- 1, h)
     else do {
       A \<leftarrow> load_array h a;
       if index + count > a_size A then Some (- 1, h)
       else do {
         h \<leftarrow> fini_range h a index (index + count);
         A \<leftarrow> load_array h a;
         h \<leftarrow> (if index + count < a_size A
               then array_memmove h (value_buf A) (unat index) (unat (index + count)) (unat (a_size A - (index + count)))
               else Some h);
         h \<leftarrow> modify_array h a (\<lambda>A. A\<lparr>a_size := a_size A - count\<rparr>);
         A \<leftarrow> load_array h a;
         h \<leftarrow> (if a_size A < a_alloc A div 4 then do {
                 good_alloc \<leftarrow> value_array_good_alloc_size (a_size A * 2);
                 (ret, h) \<leftarrow> value_array_realloc lib h a good_alloc;
                 Some h
               }
               else Some h);
         Some (0, h)
       }
     }
   }"

definition value_array_remove :: "clib \<Rightarrow> value_mem \<Rightarrow> vptr \<Rightarrow> size_t \<Rightarrow> (int \<times> value_mem) option" where
  "value_array_remove lib h v index = value_array_remove_range lib h v index 1"

section \<open>Removal from dictionaries\<close>

definition dict_remove_finish :: "value_mem \<Rightarrow> addr \<Rightarrow> addr \<Rightarrow> addr \<Rightarrow> addr \<Rightarrow> addr \<Rightarrow> value_mem option" where
  "dict_remove_finish h d node parent grandparent sibling = do {
     cs \<leftarrow> NODE_IS_RED h sibling;
     cp \<leftarrow> NODE_IS_RED h parent;
     h \<leftarrow> (if cs \<noteq> cp then NODE_TOGGLE_COLOR h sibling else Some h);
     h \<leftarrow> NODE_MAKE_BLACK h parent;
     pl \<leftarrow> get_left h parent;
     if node = pl then do {
       sr \<leftarrow> get_right h sibling;
       h \<leftarrow> NODE_MAKE_BLACK h sr;
       value_dict_rotate_left h d grandparent parent
     }
     else do {
       sl \<leftarrow> get_left h sibling;
       h \<leftarrow> NODE_MAKE_BLACK h sl;
       value_dict_rotate_right h d grandparent parent
     }
   }"

definition dict_remove_rotate :: "value_mem \<Rightarrow> addr \<Rightarrow> addr \<Rightarrow> addr \<Rightarrow> addr \<Rightarrow> addr \<Rightarrow> value_mem option" where
  "dict_remove_rotate h d node parent grandparent sibling = do {
     pl \<leftarrow> get_left h parent;
     inner_left \<leftarrow> (if node = pl then do { sr \<leftarrow> get_right h sibling; black_child h sr } else Some False);
     (h, sibling) \<leftarrow>
       (if inner_left then do {
          h \<leftarrow> NODE_MAKE_RED h sibling;
          sl \<leftarrow> get_left h sibling;
          h \<leftarrow> NODE_MAKE_BLACK h sl;
          h \<leftarrow> value_dict_rotate_right h d parent sibling;
          sibling \<leftarrow> get_right h parent;
          Some (h, sibling)
        }
        else do {
          pr \<leftarrow> get_right h parent;
          inner_right \<leftarrow> (if node = pr then do { sl \<leftarrow> get_left h sibling; black_child h sl } else Some False);
          if inner_right then do {
            h \<leftarrow> NODE_MAKE_RED h sibling;
            sr \<leftarrow> get_right h sibling;
            h \<leftarrow> NODE_MAKE_BLACK h sr;
            h \<leftarrow> value_dict_rotate_left h d parent sibling;
            sibling \<leftarrow> get_left h parent;
            Some (h, sibling)
          }
          else Some (h, sibling)
        });
     dict_remove_finish h d node parent grandparent sibling
   }"

partial_function (option) value_dict_fix_after_remove :: "value_mem \<Rightarrow> addr \<Rightarrow> RBTREE_CURSOR \<Rightarrow> value_mem option" where
  "value_dict_fix_after_remove h d path = do {
     node \<leftarrow> path_top path 1;
     node_red \<leftarrow> red_child h node;
     if node_red then NODE_MAKE_BLACK h node
     else do {
       parent \<leftarrow> (if 1 < length path then path_top path 2 else Some NULL);
       if parent = NULL then Some h
       else do {
         pl \<leftarrow> get_left h parent;
         sibling \<leftarrow> (if pl = node then get_right h parent else get_left h parent);
         grandparent \<leftarrow> (if 2 < length path then path_top path 3 else Some NULL);
         sibling_red \<leftarrow> NODE_IS_RED h sibling;
         if sibling_red then do {
           h \<leftarrow> (if pl = node then value_dict_rotate_left h d grandparent parent
                 else value_dict_rotate_right h d grandparent parent);
           h \<leftarrow> NODE_MAKE_BLACK h sibling;
           h \<leftarrow> NODE_MAKE_RED h parent;
           path \<leftarrow> path_set_top path 2 sibling;
           path \<leftarrow> path_set_top path 1 parent;
           path \<leftarrow> path_push path node;
           value_dict_fix_after_remove h d path
         }
         else do {
           sl \<leftarrow> get_left h sibling;
           sl_red \<leftarrow> red_child h sl;
           sr \<leftarrow> get_right h sibling;
           sr_red \<leftarrow> (if sl_red then Some True else red_child h sr);
           if sl_red \<or> sr_red then dict_remove_rotate h d node parent grandparent sibling
           else do {
             parent_red \<leftarrow> NODE_IS_RED h parent;
             h \<leftarrow> NODE_MAKE_RED h sibling;
             if parent_red then NODE_MAKE_BLACK h parent
             else value_dict_fix_after_remove h d (drop 1 path)
           }
         }
       }
     }
   }"

definition dict_find_successor ::
    "value_mem \<Rightarrow> addr \<Rightarrow> nat \<Rightarrow> RBTREE_CURSOR \<Rightarrow> (value_mem \<times> RBTREE_CURSOR \<times> addr) option" where
  "dict_find_successor h node node_index path = do {
     nr \<leftarrow> get_right h node;
     nrl \<leftarrow> get_left h nr;
     nl \<leftarrow> get_left h node;
     if nrl \<noteq> NULL then do {
       path \<leftarrow> value_dict_leftmost_path h nr path;
       successor \<leftarrow> path_top path 1;
       tmp \<leftarrow> get_right h successor;
       nr \<leftarrow> get_right h node;
       h \<leftarrow> set_right h successor nr;
       h \<leftarrow> set_right h node tmp;
       sp \<leftarrow> path_top path 2;
       spl \<leftarrow> get_left h sp;
       h \<leftarrow> (if spl = successor then set_left h sp node else set_right h sp node);
       path \<leftarrow> path_set_at path node_index successor;
       path \<leftarrow> path_set_top path 1 node;
       Some (h, path, successor)
     }
     else if nl \<noteq> NULL then do {
       successor \<leftarrow> get_right h node;
       sr \<leftarrow> get_right h successor;
       h \<leftarrow> set_right h node sr;
       h \<leftarrow> set_right h successor node;
       path \<leftarrow> path_set_top path 1 successor;
       path \<leftarrow> path_push path node;
       Some (h, path, successor)
     }
     else Some (h, path, NULL)
   }"

definition dict_swap_common ::
    "value_mem \<Rightarrow> addr \<Rightarrow> addr \<Rightarrow> nat \<Rightarrow> RBTREE_CURSOR \<Rightarrow> addr \<Rightarrow> value_mem option" where
  "dict_swap_common h d node node_index path successor = do {
     nl \<leftarrow> get_left h node;
     h \<leftarrow> set_left h successor nl;
     h \<leftarrow> set_left h node NULL;
     h \<leftarrow> (if 0 < node_index then do {
             p \<leftarrow> path_at path (node_index - 1);
             pl \<leftarrow> get_left h p;
             if pl = node then set_left h p successor else set_right h p successor
           }
           else set_root h d successor);
     cs \<leftarrow> NODE_IS_RED h successor;
     cn \<leftarrow> NODE_IS_RED h node;
     if cs \<noteq> cn then do {
       h \<leftarrow> NODE_TOGGLE_COLOR h successor;
       NODE_TOGGLE_COLOR h node
     }
     else Some h
   }"

definition dict_unlink :: "value_mem \<Rightarrow> addr \<Rightarrow> addr \<Rightarrow> RBTREE_CURSOR \<Rightarrow> (value_mem \<times> RBTREE_CURSOR) option" where
  "dict_unlink h d node path = do {
     nl \<leftarrow> get_left h node;
     single_child \<leftarrow> (if nl \<noteq> NULL then get_left h node else get_right h node);
     h \<leftarrow> (if 1 < length path then do {
             p \<leftarrow> path_top path 2;
             pl \<leftarrow> get_left h p;
             if pl = node then set_left h p single_child else set_right h p single_child
           }
           else set_root h d single_child);
     path \<leftarrow> path_set_top path 1 single_child;
     Some (h, path)
   }"

text \<open>The unlinking of the node at the end of the path from the tree, with the repair of the tree.\<close>

definition dict_disconnect :: "value_mem \<Rightarrow> addr \<Rightarrow> addr \<Rightarrow> RBTREE_CURSOR \<Rightarrow> value_mem option" where
  "dict_disconnect h d node path = do {
     nr \<leftarrow> get_right h node;
     (h, path) \<leftarrow>
       (if nr \<noteq> NULL then do {
          let node_index = length path - 1;
          (h, path, successor) \<leftarrow> dict_find_successor h node node_index path;
          h \<leftarrow> (if successor \<noteq> NULL then dict_swap_common h d node node_index path successor else Some h);
          Some (h, path)
        }
        else Some (h, path));
     (h, path) \<leftarrow> dict_unlink h d node path;
     black \<leftarrow> NODE_IS_BLACK h node;
     if black then value_dict_fix_after_remove h d path else Some h
   }"

definition set_order_next :: "value_mem \<Rightarrow> addr \<Rightarrow> addr \<Rightarrow> value_mem option" where
  "set_order_next h p q = do {
     n \<leftarrow> load_node h p;
     (prev, next) \<leftarrow> node_order n;
     modify_node h p (\<lambda>n. n\<lparr>node_order := Some (prev, q)\<rparr>)
   }"

definition set_order_prev :: "value_mem \<Rightarrow> addr \<Rightarrow> addr \<Rightarrow> value_mem option" where
  "set_order_prev h p q = do {
     n \<leftarrow> load_node h p;
     (prev, next) \<leftarrow> node_order n;
     modify_node h p (\<lambda>n. n\<lparr>node_order := Some (q, next)\<rparr>)
   }"

definition modify_order :: "value_mem \<Rightarrow> addr \<Rightarrow> (DICT_order \<Rightarrow> DICT_order) \<Rightarrow> value_mem option" where
  "modify_order h d f = do {
     D \<leftarrow> load_dict h d;
     ord \<leftarrow> d_order D;
     modify_dict h d (\<lambda>D. D\<lparr>d_order := Some (f ord)\<rparr>)
   }"

definition order_remove :: "value_mem \<Rightarrow> addr \<Rightarrow> addr \<Rightarrow> value_mem option" where
  "order_remove h d node = do {
     n \<leftarrow> load_node h node;
     (prev, next) \<leftarrow> node_order n;
     h \<leftarrow> (if prev \<noteq> NULL then set_order_next h prev next else modify_order h d (\<lambda>ord. ord\<lparr>order_head := next\<rparr>));
     n \<leftarrow> load_node h node;
     (prev, next) \<leftarrow> node_order n;
     if next \<noteq> NULL then set_order_prev h next prev else modify_order h d (\<lambda>ord. ord\<lparr>order_tail := prev\<rparr>)
   }"

definition value_dict_remove_n :: "value_mem \<Rightarrow> vptr \<Rightarrow> byte list option \<Rightarrow> size_t \<Rightarrow> (int \<times> value_mem) option" where
  "value_dict_remove_n h v key key_len = do {
     d \<leftarrow> value_dict_payload h v;
     node \<leftarrow> dict_root h d;
     (node, cmp, path) \<leftarrow> dict_search h v d key key_len node 0 [];
     if node = NULL then Some (- 1, h)
     else do {
       h \<leftarrow> dict_disconnect h d node path;
       ordered \<leftarrow> has_order h v;
       h \<leftarrow> (if ordered then order_remove h d node else Some h);
       h \<leftarrow> value_fini h (Key node);
       h \<leftarrow> value_fini h (Val node);
       h \<leftarrow> free h node;
       h \<leftarrow> modify_dict h d (\<lambda>D. D\<lparr>d_size := d_size D - 1\<rparr>);
       Some (0, h)
     }
   }"

definition value_dict_remove :: "value_mem \<Rightarrow> vptr \<Rightarrow> byte list option \<Rightarrow> (int \<times> value_mem) option" where
  "value_dict_remove h v key = value_dict_remove_n h v key (c_strlen key)"

section \<open>Walks\<close>

text \<open>The keys, as pointers, at most \<open>buffer_size\<close> of them.\<close>

partial_function (option) keys_sorted_loop ::
    "value_mem \<Rightarrow> nat \<Rightarrow> RBTREE_CURSOR \<Rightarrow> vptr list \<Rightarrow> vptr list option" where
  "keys_sorted_loop h buffer_size stack buffer = (case stack of
       [] \<Rightarrow> Some buffer
     | node # stack \<Rightarrow>
         if length buffer < buffer_size then do {
           right \<leftarrow> get_right h node;
           stack \<leftarrow> value_dict_leftmost_path h right stack;
           keys_sorted_loop h buffer_size stack (buffer @ [Key node])
         }
         else Some buffer)"

definition value_dict_keys_sorted :: "value_mem \<Rightarrow> vptr \<Rightarrow> nat \<Rightarrow> vptr list option" where
  "value_dict_keys_sorted h v buffer_size = do {
     d \<leftarrow> value_dict_payload h v;
     if d = NULL then Some []
     else do {
       D \<leftarrow> load_dict h d;
       stack \<leftarrow> value_dict_leftmost_path h (d_root D) [];
       keys_sorted_loop h buffer_size stack []
     }
   }"

definition order_next :: "value_mem \<Rightarrow> addr \<Rightarrow> addr option" where
  "order_next h p = do { n \<leftarrow> load_node h p; (prev, next) \<leftarrow> node_order n; Some next }"

definition dict_order_head :: "value_mem \<Rightarrow> addr \<Rightarrow> addr option" where
  "dict_order_head h d = do { D \<leftarrow> load_dict h d; ord \<leftarrow> d_order D; Some (order_head ord) }"

partial_function (option) keys_ordered_loop :: "value_mem \<Rightarrow> nat \<Rightarrow> addr \<Rightarrow> vptr list \<Rightarrow> vptr list option" where
  "keys_ordered_loop h buffer_size node buffer =
     (if node \<noteq> NULL \<and> length buffer < buffer_size then do {
        next \<leftarrow> order_next h node;
        keys_ordered_loop h buffer_size next (buffer @ [Key node])
      }
      else Some buffer)"

definition value_dict_keys_ordered :: "value_mem \<Rightarrow> vptr \<Rightarrow> nat \<Rightarrow> vptr list option" where
  "value_dict_keys_ordered h v buffer_size = do {
     d \<leftarrow> value_dict_payload h v;
     if d = NULL then Some []
     else do {
       ordered \<leftarrow> has_order h v;
       if \<not> ordered then Some []
       else do { node \<leftarrow> dict_order_head h d; keys_ordered_loop h buffer_size node [] }
     }
   }"

text \<open>The visitor of a walk may change the values; the memory goes through it.\<close>

type_synonym 'c visit_func = "vptr \<Rightarrow> vptr \<Rightarrow> value_mem \<Rightarrow> 'c \<Rightarrow> int \<times> value_mem \<times> 'c"

partial_function (option) walk_ordered_loop ::
    "'c visit_func \<Rightarrow> addr \<Rightarrow> value_mem \<Rightarrow> 'c \<Rightarrow> (int \<times> value_mem \<times> 'c) option" where
  "walk_ordered_loop visit_func node h ctx =
     (if node \<noteq> NULL then do {
        let (ret, h, ctx) = visit_func (Key node) (Val node) h ctx;
        if ret \<noteq> 0 then Some (ret, h, ctx)
        else do { next \<leftarrow> order_next h node; walk_ordered_loop visit_func next h ctx }
      }
      else Some (0, h, ctx))"

definition value_dict_walk_ordered ::
    "value_mem \<Rightarrow> vptr \<Rightarrow> 'c visit_func \<Rightarrow> 'c \<Rightarrow> (int \<times> value_mem \<times> 'c) option" where
  "value_dict_walk_ordered h v visit_func ctx = do {
     d \<leftarrow> value_dict_payload h v;
     if d = NULL then Some (- 1, h, ctx)
     else do {
       ordered \<leftarrow> has_order h v;
       if \<not> ordered then Some (- 1, h, ctx)
       else do { node \<leftarrow> dict_order_head h d; walk_ordered_loop visit_func node h ctx }
     }
   }"

partial_function (option) walk_sorted_loop ::
    "'c visit_func \<Rightarrow> RBTREE_CURSOR \<Rightarrow> value_mem \<Rightarrow> 'c \<Rightarrow> (int \<times> value_mem \<times> 'c) option" where
  "walk_sorted_loop visit_func stack h ctx = (case stack of
       [] \<Rightarrow> Some (0, h, ctx)
     | node # stack \<Rightarrow> do {
         let (ret, h, ctx) = visit_func (Key node) (Val node) h ctx;
         if ret \<noteq> 0 then Some (ret, h, ctx)
         else do {
           right \<leftarrow> get_right h node;
           stack \<leftarrow> value_dict_leftmost_path h right stack;
           walk_sorted_loop visit_func stack h ctx
         }
       })"

definition value_dict_walk_sorted ::
    "value_mem \<Rightarrow> vptr \<Rightarrow> 'c visit_func \<Rightarrow> 'c \<Rightarrow> (int \<times> value_mem \<times> 'c) option" where
  "value_dict_walk_sorted h v visit_func ctx = do {
     d \<leftarrow> value_dict_payload h v;
     if d = NULL then Some (- 1, h, ctx)
     else do {
       D \<leftarrow> load_dict h d;
       stack \<leftarrow> value_dict_leftmost_path h (d_root D) [];
       walk_sorted_loop visit_func stack h ctx
     }
   }"

section \<open>The checker of the test build\<close>

partial_function (option) value_dict_verify_recurse :: "value_mem \<Rightarrow> addr \<Rightarrow> int option" where
  "value_dict_verify_recurse h node = do {
     l \<leftarrow> get_left h node;
     r \<leftarrow> get_right h node;
     node_red \<leftarrow> NODE_IS_RED h node;
     bad_l \<leftarrow> (if l \<noteq> NULL \<and> node_red then NODE_IS_RED h l else Some False);
     if bad_l then Some (- 1)
     else do {
       left_black_height \<leftarrow> (if l \<noteq> NULL then value_dict_verify_recurse h l else Some 1);
       if left_black_height < 0 then Some left_black_height
       else do {
         bad_r \<leftarrow> (if r \<noteq> NULL \<and> node_red then NODE_IS_RED h r else Some False);
         if bad_r then Some (- 1)
         else do {
           right_black_height \<leftarrow> (if r \<noteq> NULL then value_dict_verify_recurse h r else Some 1);
           if right_black_height < 0 then Some right_black_height
           else if left_black_height \<noteq> right_black_height then Some (- 1)
           else Some (left_black_height + (if node_red then 0 else 1))
         }
       }
     }
   }"

definition value_dict_verify :: "value_mem \<Rightarrow> vptr \<Rightarrow> int option" where
  "value_dict_verify h v = do {
     d \<leftarrow> value_dict_payload h v;
     if d = NULL then Some (- 1)
     else do {
       D \<leftarrow> load_dict h d;
       if d_root D = NULL then Some 0
       else do {
         red \<leftarrow> NODE_IS_RED h (d_root D);
         if red then Some (- 1)
         else do { black_height \<leftarrow> value_dict_verify_recurse h (d_root D); Some (if black_height > 0 then 0 else - 1) }
       }
     }
   }"

declare value_dict_fix_after_insert.simps [code] dict_search.simps [code] fini_run.simps [code] fini_range.simps [code]
  value_dict_fix_after_remove.simps [code] keys_sorted_loop.simps [code] keys_ordered_loop.simps [code]
  walk_ordered_loop.simps [code] walk_sorted_loop.simps [code] value_dict_verify_recurse.simps [code]

end
