(* ===== verification/Value_String.thy ===== *)
theory Value_String
  imports Value_Mem
begin

text \<open>
  Reading and writing \<open>VALUE\<close>s of \<open>data/value.c\<close>, and what its strings promise: the encoding of a string in
  its payload, that it is read back, and where reading the length goes wrong.
\<close>

section \<open>Reading and writing a \<open>VALUE\<close>\<close>

text \<open>The memory after a write that does not go wrong.\<close>

fun upd_value :: "value_mem \<Rightarrow> vptr \<Rightarrow> VALUE \<Rightarrow> value_mem" where
  "upd_value h VNull v = h"
| "upd_value h (Var a) v = h(a \<mapsto> Variable v)"
| "upd_value h (Item a i) v = (case h a of Some (Values vs) \<Rightarrow> h(a \<mapsto> Values (vs[i := v])) | _ \<Rightarrow> h)"
| "upd_value h (Key a) v = (case h a of Some (Node_Block n) \<Rightarrow> h(a \<mapsto> Node_Block (n\<lparr>node_key := v\<rparr>)) | _ \<Rightarrow> h)"
| "upd_value h (Val a) v = (case h a of Some (Node_Block n) \<Rightarrow> h(a \<mapsto> Node_Block (n\<lparr>node_value := v\<rparr>)) | _ \<Rightarrow> h)"

fun vaddr :: "vptr \<Rightarrow> addr" where
  "vaddr VNull = NULL" | "vaddr (Var a) = a" | "vaddr (Item a i) = a" | "vaddr (Key a) = a" | "vaddr (Val a) = a"

named_theorems value_simps \<open>evaluation of the accesses to values\<close>

lemma put_value_upd [value_simps]: "get_value h v = Some y \<Longrightarrow> put_value h v x = Some (upd_value h v x)"
  by (cases v) (auto simp: load_def poke_def peek_def split: option.splits block.splits if_splits)

lemma get_upd_same [value_simps]: "get_value h v = Some y \<Longrightarrow> get_value (upd_value h v x) v = Some x"
  by (cases v) (auto simp: load_def peek_def split: option.splits block.splits if_splits)

lemma get_upd_other [value_simps]: "get_value h v = Some y \<Longrightarrow> v \<noteq> w \<Longrightarrow> get_value (upd_value h v x) w = get_value h w"
  by (cases v; cases w) (auto simp: load_def peek_def split: option.splits block.splits if_splits)

lemma upd_upd [value_simps]: "upd_value (upd_value h v x) v y = upd_value h v y"
  by (cases v) (auto split: option.splits block.splits)

lemma upd_same: "get_value h v = Some x \<Longrightarrow> upd_value h v x = h"
  by (cases v) (auto simp: load_def peek_def split: option.splits block.splits if_splits)

lemma get_value_at: "get_value h v = Some x \<Longrightarrow> vaddr v \<noteq> NULL \<and> h (vaddr v) \<noteq> None \<and> v \<noteq> VNull"
  by (cases v) (auto simp: load_def split: option.splits if_splits)

lemma upd_elsewhere [value_simps]: "p \<noteq> vaddr v \<Longrightarrow> upd_value h v x p = h p"
  by (cases v) (auto split: option.splits block.splits)

lemma get_elsewhere [value_simps]: "p \<noteq> vaddr v \<Longrightarrow> get_value (h(p := b)) v = get_value h v"
  by (cases v) (auto simp: load_def)

lemma upd_commute [value_simps]: "p \<noteq> vaddr v \<Longrightarrow> upd_value (h(p := b)) v x = (upd_value h v x)(p := b)"
  by (cases v) (auto split: option.splits block.splits)

lemma get_value_cong: "h' (vaddr v) = h (vaddr v) \<Longrightarrow> get_value h' v = get_value h v"
  by (cases v) (auto simp: load_def)

lemma upd_Raw [value_simps]: "h p = Some (Raw c) \<Longrightarrow> get_value h v = Some y \<Longrightarrow> upd_value h v x p = Some (Raw c)"
  by (cases v) (auto simp: load_def split: option.splits block.splits if_splits)

lemma upd_None: "get_value h v = Some y \<Longrightarrow> upd_value h v x p = None \<longleftrightarrow> h p = None"
  by (cases v) (auto simp: load_def split: option.splits block.splits if_splits)

section \<open>Cells\<close>

lemma those_map_Some [simp]: "those (map Some xs) = Some xs"
  by (induction xs) auto

lemma cells_read_written: "cells_read (xs @ map Some bs @ ys) (length xs + i) n =
    (if i + n \<le> length bs then Some (take n (drop i bs)) else cells_read (xs @ map Some bs @ ys) (length xs + i) n)"
  by (auto simp: cells_read_def drop_map take_map)

lemma cells_write_append:
  "cells_write x off (bs @ cs) = do { x \<leftarrow> cells_write x off bs; cells_write x (off + length bs) cs }"
  by (auto simp: cells_write_def mem_copy_def ac_simps)

lemma cells_write_length: "cells_write x off bs = Some x' \<Longrightarrow> length x' = length x"
  by (auto simp: cells_write_def mem_copy_def split: if_splits)

lemma put_upd [value_simps]: "get_value h v = Some y \<Longrightarrow> put_value (upd_value h v x) v = put_value h v"
  by (rule ext) (simp add: value_simps)

lemma payload_write_append:
  "payload_write h p off (bs @ cs) = do { h \<leftarrow> payload_write h p off bs; payload_write h p (off + length bs) cs }"
proof (cases p)
  case (Inline v a)
  show ?thesis
  proof (cases "get_value h v")
    case (Some x)
    then show ?thesis
      by (cases "cells_write x (a + off) bs") (auto simp: Inline cells_write_append get_upd_same put_upd put_value_upd add.assoc)
  qed (simp add: Inline)
next
  case (Buffer q)
  then show ?thesis
    by (auto simp: cells_write_append load_def split: option.splits block.splits Option.bind_splits)
qed

section \<open>The bytes of a string\<close>

fun length_prefix :: "nat \<Rightarrow> byte list" where
  "length_prefix n = (if 128 \<le> n then word_of_nat (128 + n mod 128) # length_prefix (n div 128) else [word_of_nat n])"

declare length_prefix.simps [simp del]

definition string_bytes :: "byte list \<Rightarrow> byte list" where
  "string_bytes s = length_prefix (length s) @ s @ [0]"

text \<open>The \<open>VALUE\<close> is a string with the characters \<open>s\<close>, whatever flag of a colour it carries.\<close>

definition string_value :: "value_mem \<Rightarrow> VALUE \<Rightarrow> byte list \<Rightarrow> bool" where
  "string_value h x s \<longleftrightarrow> length x = sizeof_VALUE \<and> (\<exists>t. x ! 0 = Some t \<and> t AND TYPE_MASK = VALUE_STRING \<and>
     (if t AND IS_MALLOCED = 0 then \<exists>ys. drop 1 x = map Some (string_bytes s) @ ys
      else \<exists>p. drop 8 x = map Some (le_bytes p) \<and> p \<noteq> NULL \<and> h p = Some (Raw (map Some (string_bytes s)))))"

lemma length_prefix_pos: "0 < length (length_prefix n)"
  by (subst length_prefix.simps) simp

lemma length_prefix_le: "length (length_prefix n) \<le> n + 1"
proof (induction n rule: length_prefix.induct)
  case (1 n)
  show ?case
  proof (cases "128 \<le> n")
    case True
    then have "n div 128 + 1 < n" by linarith
    then show ?thesis using 1 True by (subst length_prefix.simps) simp
  qed (subst length_prefix.simps, simp)
qed

lemma length_prefix_bound: "n < 128 ^ k \<Longrightarrow> 0 < k \<Longrightarrow> length (length_prefix n) \<le> k"
proof (induction k arbitrary: n)
  case (Suc k)
  show ?case
  proof (cases "128 \<le> n")
    case True
    then have "n div 128 < 128 ^ k" using Suc.prems(1) by (simp add: less_mult_imp_div_less mult.commute)
    moreover have "0 < k" using True Suc.prems(1) by (cases k) simp_all
    ultimately show ?thesis using Suc.IH True by (subst length_prefix.simps) simp
  qed (subst length_prefix.simps, simp)
qed simp

lemma low_bits: "w AND 0x7f = (word_of_nat (unat w mod 128) :: size_t)"
proof -
  have "w AND 0x7f = take_bit 7 w" by (simp add: take_bit_eq_mask mask_eq_exp_minus_1)
  moreover have "unat (take_bit 7 w) = unat w mod 128" by (simp add: unsigned_take_bit_eq take_bit_eq_mod unat_mod)
  ultimately show ?thesis by (simp add: word_unat_eq_iff)
qed

lemma high_bit_byte: "\<forall>b :: byte. b < 128 \<longrightarrow> 0x80 OR b = 128 + b"
  by (rule all_bytesI) code_simp

lemma high_bit: "m < 128 \<Longrightarrow> 0x80 OR (word_of_nat m :: byte) = word_of_nat (128 + m)"
proof -
  assume "m < 128"
  then have "(word_of_nat m :: byte) < 128" by (simp add: word_less_nat_alt unsigned_of_nat take_bit_nat_eq_self)
  then show ?thesis using high_bit_byte by simp
qed

lemma prefix_bytes:
  "ucast (0x80 OR (w AND 0x7f) :: size_t) = (word_of_nat (128 + unat w mod 128) :: byte)"
  "ucast (w AND 0x7f :: size_t) = (word_of_nat (unat w mod 128) :: byte)"
proof -
  show low: "ucast (w AND 0x7f :: size_t) = (word_of_nat (unat w mod 128) :: byte)"
    unfolding low_bits by (rule word_unat_eq_iff [THEN iffD2]) (simp add: unsigned_ucast_eq take_bit_nat_eq_self unsigned_of_nat)
  have "ucast (0x80 OR (w AND 0x7f) :: size_t) = (0x80 :: byte) OR ucast (w AND 0x7f)"
    by (simp add: unsigned_or_eq)
  then show "ucast (0x80 OR (w AND 0x7f) :: size_t) = (word_of_nat (128 + unat w mod 128) :: byte)"
    unfolding low by (simp add: high_bit)
qed

lemma drop_bit_7: "unat (drop_bit 7 w :: size_t) = unat w div 128"
  by (simp add: drop_bit_eq_div unat_div)

lemma next_off: "unat (off :: size_t) + length (length_prefix n) < 2 ^ 64 \<Longrightarrow> unat (off + 1) = unat off + 1"
proof -
  assume "unat off + length (length_prefix n) < 2 ^ 64"
  then have "unat off < 18446744073709551615" using length_prefix_pos [of n] by (simp del: length_greater_0_conv)
  then show ?thesis using unat_plus_size [of off 1] by simp
qed

lemma string_prefix_size:
  "unat off + length (length_prefix (unat w)) < 2 ^ 64 \<Longrightarrow>
   unat (string_prefix_size w off) = unat off + length (length_prefix (unat w))"
proof (induction w off rule: string_prefix_size.induct)
  case (1 w off)
  have step: "unat (off + 1) = unat off + 1"
    by (rule next_off [OF 1(2)])
  show ?case
  proof (cases "128 \<le> w")
    case True
    then have "length (length_prefix (unat w)) = Suc (length (length_prefix (unat (drop_bit 7 w))))"
      by (subst length_prefix.simps) (simp add: word_le_nat_alt drop_bit_7)
    then show ?thesis using 1 True step by (subst string_prefix_size.simps) simp
  next
    case False
    then have "length (length_prefix (unat w)) = 1"
      by (subst length_prefix.simps) (simp add: word_le_nat_alt)
    then show ?thesis using False step by (subst string_prefix_size.simps) simp
  qed
qed

lemma string_prefix_write:
  "unat off + length (length_prefix (unat w)) < 2 ^ 64 \<Longrightarrow>
   string_prefix_write h p w off = do {
     h \<leftarrow> payload_write h p (unat off) (length_prefix (unat w));
     Some (off + of_nat (length (length_prefix (unat w))), h)
   }"
proof (induction h p w off rule: string_prefix_write.induct)
  case (1 h p w off)
  have step: "unat (off + 1) = unat off + 1"
    by (rule next_off [OF 1(2)])
  show ?case
  proof (cases "128 \<le> w")
    case True
    then have l: "length_prefix (unat w) = word_of_nat (128 + unat w mod 128) # length_prefix (unat (drop_bit 7 w))"
      by (subst length_prefix.simps) (simp add: word_le_nat_alt drop_bit_7)
    have "unat (off + 1) + length (length_prefix (unat (drop_bit 7 w))) < 2 ^ 64" using 1(2) l step by simp
    note ih = 1(1) [OF True _ this, unfolded prefix_bytes]
    define b :: byte where "b = word_of_nat (128 + unat w mod 128)"
    have w: "payload_write h p (unat off) (length_prefix (unat w)) = do {
        h \<leftarrow> payload_write h p (unat off) [b];
        payload_write h p (unat (off + 1)) (length_prefix (unat (drop_bit 7 w))) }"
      using payload_write_append [of h p "unat off" "[b]" "length_prefix (unat (drop_bit 7 w))"]
      by (simp add: l step b_def)
    have code: "string_prefix_write h p w off = do {
        h \<leftarrow> payload_write h p (unat off) [b]; string_prefix_write h p (drop_bit 7 w) (off + 1) }"
      using True by (subst string_prefix_write.simps) (simp add: prefix_bytes b_def)
    show ?thesis
    proof (cases "payload_write h p (unat off) [b]")
      case (Some h')
      then show ?thesis unfolding code w using ih [of h'] by (simp add: l b_def ac_simps)
    qed (simp add: code w)
  next
    case False
    then have l: "length_prefix (unat w) = [word_of_nat (unat w mod 128)]"
      by (subst length_prefix.simps) (simp add: word_le_nat_alt)
    show ?thesis using False by (subst string_prefix_write.simps) (simp add: l prefix_bytes)
  qed
qed

text \<open>Writing the encoding of a string is one write of its bytes.\<close>

lemma string_write:
  assumes "unat len = length s" "length s + length (length_prefix (length s)) + 1 < 2 ^ 64"
  shows "do { (off, h) \<leftarrow> string_prefix_write h p len 0; h \<leftarrow> payload_write h p (unat off) s;
      h \<leftarrow> payload_write h p (unat (off + len)) [0]; Some (r, h) } =
    do { h \<leftarrow> payload_write h p 0 (string_bytes s); Some (r, h) }"
proof -
  let ?n = "length (length_prefix (length s))"
  have n: "unat (of_nat ?n :: size_t) = ?n" using assms(2) by (intro unat_of_nat_size) linarith
  have m: "unat (of_nat ?n + len :: size_t) = ?n + length s"
    using assms n by (subst unat_plus_size) simp_all
  have "string_bytes s = length_prefix (length s) @ (s @ [0])" by (simp add: string_bytes_def)
  then show ?thesis using assms
    by (simp add: string_prefix_write payload_write_append n m)
qed

section \<open>Initialising a \<open>VALUE\<close>\<close>

lemma data_set [value_simps]:
  "get_value h v = Some x \<Longrightarrow> i < length x \<Longrightarrow> data_set h v i b = Some (upd_value h v (x[i := Some b]))"
  by (simp add: data_set_def poke_def value_simps)

lemma data_get [value_simps]: "get_value h v = Some x \<Longrightarrow> i < length x \<Longrightarrow> data_get h v i = x ! i"
  by (simp add: data_get_def peek_def)

lemma buffer_set [value_simps]:
  "get_value h v = Some x \<Longrightarrow> length x = sizeof_VALUE \<Longrightarrow>
   buffer_set h v p = Some (upd_value h v (take 8 x @ map Some (le_bytes p)))"
  by (simp add: buffer_set_def cells_write_def mem_copy_def sizeof_VALUE_def value_simps)

lemma buffer_get [value_simps]:
  "get_value h v = Some x \<Longrightarrow> length x = sizeof_VALUE \<Longrightarrow> drop 8 x = map Some (le_bytes p) \<Longrightarrow> buffer_get h v = Some p"
  by (simp add: buffer_get_def cells_read_def sizeof_VALUE_def le_word_bytes)

text \<open>The cells of a \<open>VALUE\<close> with a type and the address of a buffer.\<close>

definition pointer_cells :: "VALUE \<Rightarrow> byte \<Rightarrow> addr \<Rightarrow> VALUE" where
  "pointer_cells x t p = Some t # take 7 (drop 1 x) @ map Some (le_bytes p)"

lemma length_pointer_cells [simp]: "length x = sizeof_VALUE \<Longrightarrow> length (pointer_cells x t p) = sizeof_VALUE"
  by (simp add: pointer_cells_def sizeof_VALUE_def)

lemma pointer_cells_parts [simp]:
  "length x = sizeof_VALUE \<Longrightarrow> pointer_cells x t p ! 0 = Some t"
  "length x = sizeof_VALUE \<Longrightarrow> drop 8 (pointer_cells x t p) = map Some (le_bytes p)"
  by (simp_all add: pointer_cells_def sizeof_VALUE_def)

lemma le_16: "n \<le> (16 :: size_t) \<longleftrightarrow> unat n \<le> 16"
  by (simp add: word_le_nat_alt)

lemma value_init_ex:
  assumes "get_value h v = Some x" "length x = sizeof_VALUE" "unat n + unat align < 2 ^ 64"
  shows "unat n + unat align \<le> sizeof_VALUE \<Longrightarrow>
      value_init_ex lib h v type n align = Some (Some (Inline v (unat align)), upd_value h v (x[0 := Some type]))"
    and "\<not> unat n + unat align \<le> sizeof_VALUE \<Longrightarrow>
      malloc lib (upd_value h v (x[0 := Some (type OR IS_MALLOCED)])) (unat n) = NULL \<Longrightarrow>
      value_init_ex lib h v type n align = Some (None, upd_value h v (x[0 := Some VALUE_NULL]))"
    and "\<not> unat n + unat align \<le> sizeof_VALUE \<Longrightarrow>
      malloc lib (upd_value h v (x[0 := Some (type OR IS_MALLOCED)])) (unat n) = p \<Longrightarrow> p \<noteq> NULL \<Longrightarrow> h p = None \<Longrightarrow>
      value_init_ex lib h v type n align =
        Some (Some (Buffer p), (upd_value h v (pointer_cells x (type OR IS_MALLOCED) p))(p \<mapsto> Raw (indeterminate (unat n))))"
proof -
  have n: "n + align \<le> of_nat sizeof_VALUE \<longleftrightarrow> unat n + unat align \<le> sizeof_VALUE"
    using assms(3) unat_plus_size [of n align] by (simp add: sizeof_VALUE_def le_16)
  have pos: "0 < length x" using assms(2) by (simp add: sizeof_VALUE_def)
  show "unat n + unat align \<le> sizeof_VALUE \<Longrightarrow>
      value_init_ex lib h v type n align = Some (Some (Inline v (unat align)), upd_value h v (x[0 := Some type]))"
    using assms pos by (simp add: value_init_ex_def n value_simps)
  assume big: "\<not> unat n + unat align \<le> sizeof_VALUE"
  note code = value_init_ex_def n if_not_P [OF big] value_simps Let_def
  show "malloc lib (upd_value h v (x[0 := Some (type OR IS_MALLOCED)])) (unat n) = NULL \<Longrightarrow>
      value_init_ex lib h v type n align = Some (None, upd_value h v (x[0 := Some VALUE_NULL]))"
    using assms(1,2) pos by (simp add: code)
  assume p: "malloc lib (upd_value h v (x[0 := Some (type OR IS_MALLOCED)])) (unat n) = p" "p \<noteq> NULL" "h p = None"
  have "p \<noteq> vaddr v" using get_value_at [OF assms(1)] p(3) by auto
  moreover have "take 8 (x[0 := Some t]) @ map Some (le_bytes p) = pointer_cells x t p" for t
    using assms(2) by (cases x) (simp_all add: pointer_cells_def sizeof_VALUE_def)
  ultimately show "value_init_ex lib h v type n align =
      Some (Some (Buffer p), (upd_value h v (pointer_cells x (type OR IS_MALLOCED) p))(p \<mapsto> Raw (indeterminate (unat n))))"
    using assms(1,2) pos p by (simp add: code)
qed

text \<open>Filling the payload.\<close>

lemma inline_write:
  assumes "get_value h v = Some x" "length bs + a \<le> length x"
  shows "payload_write h (Inline v a) 0 bs = Some (upd_value h v (take a x @ map Some bs @ drop (a + length bs) x))"
  using assms by (simp add: cells_write_def mem_copy_def value_simps add.commute)

lemma buffer_write:
  "p \<noteq> NULL \<Longrightarrow> payload_write (h(p \<mapsto> Raw (indeterminate (length bs)))) (Buffer p) 0 bs = Some (h(p \<mapsto> Raw (map Some bs)))"
  by (simp add: load_def cells_write_def mem_copy_def indeterminate_def)

text \<open>The cells of a short string, and what \<open>value_init_string_n\<close> does.\<close>

definition inline_cells :: "VALUE \<Rightarrow> byte \<Rightarrow> byte list \<Rightarrow> VALUE" where
  "inline_cells x t bs = Some t # map Some bs @ drop (1 + length bs) x"

lemma length_string_bytes: "length (string_bytes s) = length (length_prefix (length s)) + length s + 1"
  by (simp add: string_bytes_def)

lemma string_bytes_bound: "length s < 2 ^ 63 \<Longrightarrow> length (string_bytes s) + 1 < 2 ^ 64"
  using length_prefix_bound [of "length s" 9] by (simp add: length_string_bytes)

lemma init_string_size:
  assumes "unat len = length s" "length s < 2 ^ 63"
  shows "unat (string_prefix_size len 0 + len + 1) = length (string_bytes s)"
proof -
  have b: "length (length_prefix (length s)) + length s + 1 < 2 ^ 64"
    using string_bytes_bound [OF assms(2)] by (simp add: length_string_bytes)
  then have "unat (string_prefix_size len 0) = length (length_prefix (length s))"
    using string_prefix_size [of 0 len] assms(1) by simp
  then show ?thesis using b assms(1) by (simp add: unat_word_ariths length_string_bytes)
qed

lemma init_string:
  assumes "get_value h v = Some x" "length x = sizeof_VALUE" "unat len = length s" "length s < 2 ^ 63"
    and src: "source_bytes str len = Some s"
  shows "length (string_bytes s) + 1 \<le> sizeof_VALUE \<Longrightarrow>
      value_init_string_n lib h v str len = Some (0, upd_value h v (inline_cells x VALUE_STRING (string_bytes s)))"
    and "\<not> length (string_bytes s) + 1 \<le> sizeof_VALUE \<Longrightarrow>
      malloc lib (upd_value h v (x[0 := Some (VALUE_STRING OR IS_MALLOCED)])) (length (string_bytes s)) = NULL \<Longrightarrow>
      value_init_string_n lib h v str len = Some (- 1, upd_value h v (x[0 := Some VALUE_NULL]))"
    and "\<not> length (string_bytes s) + 1 \<le> sizeof_VALUE \<Longrightarrow>
      malloc lib (upd_value h v (x[0 := Some (VALUE_STRING OR IS_MALLOCED)])) (length (string_bytes s)) = p \<Longrightarrow>
      p \<noteq> NULL \<Longrightarrow> h p = None \<Longrightarrow>
      value_init_string_n lib h v str len =
        Some (0, (upd_value h v (pointer_cells x (VALUE_STRING OR IS_MALLOCED) p))(p \<mapsto> Raw (map Some (string_bytes s))))"
proof -
  have v: "v \<noteq> VNull" using get_value_at [OF assms(1)] by simp
  have b: "length s + length (length_prefix (length s)) + 1 < 2 ^ 64"
    using string_bytes_bound [OF assms(4)] by (simp add: length_string_bytes)
  note w = string_write [OF assms(3) b]
  have code: "value_init_string_n lib h v str len = do {
      (payload, h) \<leftarrow> value_init_ex lib h v VALUE_STRING (string_prefix_size len 0 + len + 1) 1;
      (case payload of None \<Rightarrow> Some (- 1, h) | Some p \<Rightarrow> do { h \<leftarrow> payload_write h p 0 (string_bytes s); Some (0, h) }) }"
    using v src w [of _ _ "0::int"] by (simp add: value_init_string_n_def value_init_def Let_def cong: option.case_cong)
  note n = init_string_size [OF assms(3,4)]
  have fit: "unat (string_prefix_size len 0 + len + 1) + unat (1 :: size_t) < 2 ^ 64"
    unfolding n using string_bytes_bound [OF assms(4)] by simp
  note init = value_init_ex [OF assms(1,2) fit, unfolded n, simplified]
  show "length (string_bytes s) + 1 \<le> sizeof_VALUE \<Longrightarrow>
      value_init_string_n lib h v str len = Some (0, upd_value h v (inline_cells x VALUE_STRING (string_bytes s)))"
    using assms(1,2) by (cases x) (simp_all add: code init(1) inline_write value_simps inline_cells_def sizeof_VALUE_def del: payload_write.simps)
  show "\<not> length (string_bytes s) + 1 \<le> sizeof_VALUE \<Longrightarrow>
      malloc lib (upd_value h v (x[0 := Some (VALUE_STRING OR IS_MALLOCED)])) (length (string_bytes s)) = NULL \<Longrightarrow>
      value_init_string_n lib h v str len = Some (- 1, upd_value h v (x[0 := Some VALUE_NULL]))"
    by (simp add: code init(2))
  show "\<not> length (string_bytes s) + 1 \<le> sizeof_VALUE \<Longrightarrow>
      malloc lib (upd_value h v (x[0 := Some (VALUE_STRING OR IS_MALLOCED)])) (length (string_bytes s)) = p \<Longrightarrow>
      p \<noteq> NULL \<Longrightarrow> h p = None \<Longrightarrow>
      value_init_string_n lib h v str len =
        Some (0, (upd_value h v (pointer_cells x (VALUE_STRING OR IS_MALLOCED) p))(p \<mapsto> Raw (map Some (string_bytes s))))"
    by (simp add: code init(3) buffer_write del: payload_write.simps)
qed

section \<open>Reading a string\<close>

definition payload_has :: "value_mem \<Rightarrow> payload \<Rightarrow> byte list \<Rightarrow> bool" where
  "payload_has h p bs \<longleftrightarrow> (\<forall>off n. off + n \<le> length bs \<longrightarrow> payload_read h p off n = Some (take n (drop off bs)))"

lemma cells_has: "drop a x = map Some bs @ ys \<Longrightarrow> a \<le> length x \<Longrightarrow> off + n \<le> length bs \<Longrightarrow>
    cells_read x (a + off) n = Some (take n (drop off bs))"
proof -
  assume x: "drop a x = map Some bs @ ys" and n: "off + n \<le> length bs" and a: "a \<le> length x"
  have "length x - a = length bs + length ys" using x by (metis length_append length_drop length_map)
  then have "a + off + n \<le> length x" using n a by linarith
  moreover have "drop (a + off) x = drop off (map Some bs @ ys)" by (simp add: x [symmetric] add.commute)
  ultimately show ?thesis using n by (simp add: cells_read_def drop_map take_map)
qed

lemma string_payload:
  assumes "get_value h v = Some x" "string_value h x s"
  shows "\<exists>p. value_payload h v = Some (Some p) \<and> payload_has h p (string_bytes s)"
proof -
  obtain t where t: "length x = sizeof_VALUE" "x ! 0 = Some t" using assms(2) by (auto simp: string_value_def)
  have v: "v \<noteq> VNull" using get_value_at [OF assms(1)] by simp
  have tag: "data_get h v 0 = Some t" using assms(1) t by (simp add: data_get sizeof_VALUE_def)
  show ?thesis
  proof (cases "t AND IS_MALLOCED = 0")
    case True
    then obtain ys where "drop 1 x = map Some (string_bytes s) @ ys" using assms(2) t by (auto simp: string_value_def)
    then have "payload_has h (Inline v 1) (string_bytes s)"
      using assms(1) t(1) cells_has [of 1 x "string_bytes s" ys] by (auto simp: payload_has_def sizeof_VALUE_def)
    then show ?thesis using True v tag by (simp add: value_payload_def value_payload_ex_def)
  next
    case False
    then obtain p where p: "drop 8 x = map Some (le_bytes p)" "p \<noteq> NULL" "h p = Some (Raw (map Some (string_bytes s)))"
      using assms(2) t by (auto simp: string_value_def)
    have "payload_has h (Buffer p) (string_bytes s)"
      using p cells_has [of 0 "map Some (string_bytes s)" "string_bytes s" "[]"] by (auto simp: payload_has_def load_def)
    then show ?thesis using False v tag assms(1) t(1) p by (simp add: value_payload_def value_payload_ex_def buffer_get)
  qed
qed

lemma string_type:
  assumes "get_value h v = Some x" "string_value h x s"
  shows "value_type h v = Some VALUE_STRING"
proof -
  obtain t where "length x = sizeof_VALUE" "x ! 0 = Some t" "t AND TYPE_MASK = VALUE_STRING"
    using assms(2) by (auto simp: string_value_def)
  then show ?thesis using get_value_at [OF assms(1)] assms(1) by (simp add: value_type_def data_get sizeof_VALUE_def)
qed

lemma low_byte: "n < 128 \<Longrightarrow> (word_of_nat n :: byte) AND 0x80 = 0"
  and high_byte: "n < 128 \<Longrightarrow> (word_of_nat (128 + n) :: byte) AND 0x80 \<noteq> 0"
  and high_byte_low: "n < 128 \<Longrightarrow> unat ((word_of_nat (128 + n) :: byte) AND 0x7f) = n"
proof -
  have all: "\<forall>b :: byte. b < 128 \<longrightarrow> b AND 0x80 = 0 \<and> (128 + b) AND 0x80 \<noteq> 0 \<and> (128 + b) AND 0x7f = b"
    by (rule all_bytesI) code_simp
  assume n: "n < 128"
  then have b: "(word_of_nat n :: byte) < 128" by (simp add: word_less_nat_alt unsigned_of_nat take_bit_nat_eq_self)
  have eq: "(word_of_nat (128 + n) :: byte) = 128 + word_of_nat n" by simp
  show "(word_of_nat n :: byte) AND 0x80 = 0" using all b by blast
  show "(word_of_nat (128 + n) :: byte) AND 0x80 \<noteq> 0" unfolding eq using all b by blast
  have "(word_of_nat (128 + n) :: byte) AND 0x7f = word_of_nat n" unfolding eq using all b by blast
  then show "unat ((word_of_nat (128 + n) :: byte) AND 0x7f) = n" using n by (simp add: unsigned_of_nat take_bit_nat_eq_self)
qed

lemma prefix_read:
  assumes "payload_has h p (pre @ c # bs)"
  shows "payload_read h p (length pre) 1 = Some [c]"
  using assms [unfolded payload_has_def, THEN spec, of "length pre", THEN spec, of 1] by simp

lemma skip_prefix:
  "payload_has h p (pre @ length_prefix n @ rest) \<Longrightarrow>
   string_skip_prefix h p (length pre) = Some (length pre + length (length_prefix n))"
proof (induction n arbitrary: pre rule: length_prefix.induct)
  case (1 n)
  show ?case
  proof (cases "128 \<le> n")
    case True
    then have l: "length_prefix n = word_of_nat (128 + n mod 128) # length_prefix (n div 128)"
      by (subst length_prefix.simps) simp
    have has: "payload_has h p (pre @ word_of_nat (128 + n mod 128) # length_prefix (n div 128) @ rest)"
      using 1(2) by (simp add: l)
    then have "payload_has h p ((pre @ [word_of_nat (128 + n mod 128)]) @ length_prefix (n div 128) @ rest)" by simp
    from 1(1) [OF True this] prefix_read [OF has] high_byte [of "n mod 128"] show ?thesis
      by (subst string_skip_prefix.simps) (simp add: l)
  next
    case False
    then have l: "length_prefix n = [word_of_nat n]" by (subst length_prefix.simps) simp
    then show ?thesis using 1(2) prefix_read [of h p pre "word_of_nat n" rest] low_byte [of n] False
      by (subst string_skip_prefix.simps) simp
  qed
qed

lemma or_shifted:
  "a < 2 ^ k \<Longrightarrow> (word_of_nat a :: size_t) OR word_of_nat (b * 2 ^ k) = word_of_nat (a + b * 2 ^ k)"
proof -
  assume a: "a < 2 ^ k"
  have "\<not> bit (word_of_nat a :: size_t) i \<or> \<not> bit (word_of_nat (b * 2 ^ k) :: size_t) i" for i
  proof (cases "i < k")
    case True
    then have "\<not> bit (b * 2 ^ k) i" by (simp add: bit_push_bit_iff push_bit_eq_mult [symmetric])
    then show ?thesis by (simp add: bit_of_nat_iff del: of_nat_mult)
  next
    case False
    then have "\<not> bit a i" using a by (metis bit_take_bit_iff take_bit_nat_eq_self)
    then show ?thesis by (simp add: bit_of_nat_iff)
  qed
  then have "(word_of_nat a :: size_t) + word_of_nat (b * 2 ^ k) = word_of_nat a OR word_of_nat (b * 2 ^ k)"
    by (intro disjunctive_add) blast
  then show ?thesis by simp
qed

lemma shift_bound: "b * 2 ^ k \<le> INT_MAX \<Longrightarrow> 0 < b \<Longrightarrow> k < 31"
proof (rule ccontr)
  assume b: "b * 2 ^ k \<le> INT_MAX" "0 < b" "\<not> k < 31"
  have "(2 :: nat) ^ 31 \<le> 2 ^ k" using b(3) by (intro power_increasing) simp_all
  also have "\<dots> \<le> b * 2 ^ k" using b(2) by simp
  finally show False using b(1) by (simp add: INT_MAX_def)
qed

lemma length_loop:
  "payload_has h p (pre @ length_prefix n @ rest) \<Longrightarrow> n * 2 ^ k \<le> INT_MAX \<Longrightarrow> a < 2 ^ k \<Longrightarrow> 0 < n \<or> k = 0 \<Longrightarrow>
   string_length_loop h p (length pre) k (word_of_nat a) = Some (word_of_nat (a + n * 2 ^ k))"
proof (induction n arbitrary: pre a k rule: length_prefix.induct)
  case (1 n)
  show ?case
  proof (cases "128 \<le> n")
    case True
    then have l: "length_prefix n = word_of_nat (128 + n mod 128) # length_prefix (n div 128)"
      by (subst length_prefix.simps) simp
    have has: "payload_has h p (pre @ word_of_nat (128 + n mod 128) # length_prefix (n div 128) @ rest)"
      using 1(2) by (simp add: l)
    then have has': "payload_has h p ((pre @ [word_of_nat (128 + n mod 128)]) @ length_prefix (n div 128) @ rest)" by simp
    have n: "n = n mod 128 + 128 * (n div 128)" by simp
    have split: "n mod 128 * 2 ^ k + n div 128 * 2 ^ (k + 7) = n * 2 ^ k"
    proof -
      have "(n mod 128 + 128 * (n div 128)) * 2 ^ k = n mod 128 * 2 ^ k + n div 128 * 2 ^ (k + 7)"
        by (simp only: add_mult_distrib power_add) simp
      then show ?thesis using n by simp
    qed
    have small: "n div 128 * 2 ^ (k + 7) \<le> INT_MAX" "n mod 128 * 2 ^ k \<le> INT_MAX" using split 1(3) by linarith+
    have k: "k < 32" using shift_bound [OF 1(3)] True by simp
    have "a + n mod 128 * 2 ^ k < 2 ^ k + 127 * 2 ^ k" using 1(4) by (intro add_less_le_mono mult_right_mono) simp_all
    then have a: "a + n mod 128 * 2 ^ k < 2 ^ (k + 7)" by (simp add: power_add)
    have "string_length_loop h p (length (pre @ [word_of_nat (128 + n mod 128)])) (k + 7) (word_of_nat (a + n mod 128 * 2 ^ k)) =
        Some (word_of_nat (a + n mod 128 * 2 ^ k + n div 128 * 2 ^ (k + 7)))"
      using True by (intro 1(1) [OF True has' small(1) a]) simp
    then have rec: "string_length_loop h p (Suc (length pre)) (k + 7) (word_of_nat (a + n mod 128 * 2 ^ k)) = Some (word_of_nat (a + n * 2 ^ k))"
      using split by (simp add: add.assoc)
    have "word_of_nat a OR word_of_nat (n mod 128 * 2 ^ k) = (word_of_nat (a + n mod 128 * 2 ^ k) :: size_t)"
      by (rule or_shifted [OF 1(4)])
    then show ?thesis
      using prefix_read [OF has] high_byte [of "n mod 128"] high_byte_low [of "n mod 128"] k small(2) rec
      by (subst string_length_loop.simps) (simp add: int_shift_def del: of_nat_add of_nat_mult)
  next
    case False
    then have l: "length_prefix n = [word_of_nat n]" by (subst length_prefix.simps) simp
    have k: "k < 32" using shift_bound [OF 1(3)] 1(5) by auto
    have "unat (word_of_nat n :: byte) = n" using False by (simp add: unsigned_of_nat take_bit_nat_eq_self)
    moreover have "word_of_nat a OR word_of_nat (n * 2 ^ k) = (word_of_nat (a + n * 2 ^ k) :: size_t)"
      by (rule or_shifted [OF 1(4)])
    ultimately show ?thesis using 1(2,3) prefix_read [of h p pre "word_of_nat n" rest] low_byte [of n] False k
      by (subst string_length_loop.simps) (simp add: l int_shift_def del: of_nat_add of_nat_mult)
  qed
qed

lemma div_128_bound: "INT_MAX < n * 2 ^ k \<Longrightarrow> 128 \<le> n \<Longrightarrow> k < 32 \<Longrightarrow> 7 dvd k \<Longrightarrow> INT_MAX < n div 128 * 2 ^ (k + 7)"
proof -
  assume n: "INT_MAX < n * 2 ^ k" "128 \<le> n" and k: "k < 32" "7 dvd k"
  obtain j where "k = 7 * j" using k(2) by (elim dvdE)
  then have "k \<in> {0, 7, 14, 21, 28}" using k(1) by auto
  then show ?thesis
  proof (elim insertE emptyE)
    assume "k = 28"
    then show ?thesis using div_le_mono [OF n(2), of 128] by (simp add: INT_MAX_def)
  next
    assume k: "k = 0"
    then have "2147483648 \<le> n" using n(1) by (simp add: INT_MAX_def)
    from div_le_mono [OF this, of 128] k show ?thesis by (simp add: INT_MAX_def)
  next
    assume k: "k = 7"
    then have "16777216 \<le> n" using n(1) by (simp add: INT_MAX_def)
    from div_le_mono [OF this, of 128] k show ?thesis by (simp add: INT_MAX_def)
  next
    assume k: "k = 14"
    then have "131072 \<le> n" using n(1) by (simp add: INT_MAX_def)
    from div_le_mono [OF this, of 128] k show ?thesis by (simp add: INT_MAX_def)
  next
    assume k: "k = 21"
    then have "1024 \<le> n" using n(1) by (simp add: INT_MAX_def)
    from div_le_mono [OF this, of 128] k show ?thesis by (simp add: INT_MAX_def)
  qed
qed

lemma length_loop_overflow:
  "payload_has h p (pre @ length_prefix n @ rest) \<Longrightarrow> INT_MAX < n * 2 ^ k \<Longrightarrow> 7 dvd k \<Longrightarrow>
   string_length_loop h p (length pre) k len = None"
proof (induction n arbitrary: pre len k rule: length_prefix.induct)
  case (1 n)
  show ?case
  proof (cases "128 \<le> n")
    case True
    then have l: "length_prefix n = word_of_nat (128 + n mod 128) # length_prefix (n div 128)"
      by (subst length_prefix.simps) simp
    have has: "payload_has h p (pre @ word_of_nat (128 + n mod 128) # length_prefix (n div 128) @ rest)"
      using 1(2) by (simp add: l)
    then have has': "payload_has h p ((pre @ [word_of_nat (128 + n mod 128)]) @ length_prefix (n div 128) @ rest)" by simp
    have "string_length_loop h p (Suc (length pre)) (k + 7) len' = None" if "k < 32" for len'
    proof -
      have "string_length_loop h p (length (pre @ [word_of_nat (128 + n mod 128)])) (k + 7) len' = None"
        using 1(3,4) True that by (intro 1(1) [OF True has'] div_128_bound) simp_all
      then show ?thesis by simp
    qed
    then show ?thesis using prefix_read [OF has] high_byte [of "n mod 128"] high_byte_low [of "n mod 128"]
      by (subst string_length_loop.simps) (simp add: int_shift_def del: of_nat_add of_nat_mult)
  next
    case False
    then have l: "length_prefix n = [word_of_nat n]" by (subst length_prefix.simps) simp
    have "unat (word_of_nat n :: byte) = n" using False by (simp add: unsigned_of_nat take_bit_nat_eq_self)
    then show ?thesis using 1(2,3) prefix_read [of h p pre "word_of_nat n" rest] low_byte [of n] False
      by (subst string_length_loop.simps) (simp add: l int_shift_def)
  qed
qed

lemma string_reads:
  assumes "get_value h v = Some x" "string_value h x s"
  shows "length s \<le> INT_MAX \<Longrightarrow> value_string_length h v = Some (of_nat (length s))"
    and "INT_MAX < length s \<Longrightarrow> value_string_length h v = None"
    and "\<exists>p off. value_string h v = Some (Some (p, off)) \<and> payload_read h p off (length s + 1) = Some (s @ [0]) \<and>
      payload_read h p off (length s) = Some s"
proof -
  obtain p where p: "value_payload h v = Some (Some p)" "payload_has h p (string_bytes s)"
    using string_payload [OF assms] by blast
  have has: "payload_has h p ([] @ length_prefix (length s) @ (s @ [0]))" using p(2) by (simp add: string_bytes_def)
  note type = string_type [OF assms]
  show "length s \<le> INT_MAX \<Longrightarrow> value_string_length h v = Some (of_nat (length s))"
    using length_loop [OF has, of 0 0] p(1) type by (simp add: value_string_length_def)
  show "INT_MAX < length s \<Longrightarrow> value_string_length h v = None"
    using length_loop_overflow [OF has, of 0 0] p(1) type by (simp add: value_string_length_def)
  have "value_string h v = Some (Some (p, length (length_prefix (length s))))"
    using skip_prefix [OF has] p(1) type by (simp add: value_string_def)
  moreover have "payload_read h p (length (length_prefix (length s))) (length s + 1) = Some (s @ [0])"
    "payload_read h p (length (length_prefix (length s))) (length s) = Some s"
    using p(2) [unfolded payload_has_def] by (simp_all add: string_bytes_def)
  ultimately show "\<exists>p off. value_string h v = Some (Some (p, off)) \<and> payload_read h p off (length s + 1) = Some (s @ [0]) \<and>
      payload_read h p off (length s) = Some s" by blast
qed

text \<open>The buffer that a \<open>VALUE\<close> owns, if any.\<close>

definition value_buffer :: "VALUE \<Rightarrow> addr option" where
  "value_buffer x = do { t \<leftarrow> x ! 0; if t AND IS_MALLOCED = 0 then None else do { bs \<leftarrow> cells_read x 8 8; Some (le_word bs) } }"

lemma pointer_cells_buffer [simp]:
  "length x = sizeof_VALUE \<Longrightarrow> t AND IS_MALLOCED \<noteq> 0 \<Longrightarrow> value_buffer (pointer_cells x t p) = Some p"
  by (simp add: value_buffer_def cells_read_def le_word_bytes) (simp add: sizeof_VALUE_def le_word_bytes)

lemma inline_string:
  assumes "length x = sizeof_VALUE" "length (string_bytes s) + 1 \<le> sizeof_VALUE"
  shows "string_value h (inline_cells x VALUE_STRING (string_bytes s)) s"
    "value_buffer (inline_cells x VALUE_STRING (string_bytes s)) = None"
  using assms by (simp_all add: string_value_def value_buffer_def inline_cells_def value_flags value_types sizeof_VALUE_def)

lemma pointer_string:
  assumes "length x = sizeof_VALUE" "p \<noteq> NULL" "h p = Some (Raw (map Some (string_bytes s)))"
  shows "string_value h (pointer_cells x (VALUE_STRING OR IS_MALLOCED) p) s"
proof -
  note parts = pointer_cells_parts [OF assms(1), of "VALUE_STRING OR IS_MALLOCED" p]
  have t: "(VALUE_STRING OR IS_MALLOCED) AND TYPE_MASK = VALUE_STRING" "(VALUE_STRING OR IS_MALLOCED) AND IS_MALLOCED \<noteq> 0"
    by (simp_all add: value_flags value_types)
  show ?thesis unfolding string_value_def using assms(2,3)
    by (intro conjI length_pointer_cells [OF assms(1)] exI [of _ "VALUE_STRING OR IS_MALLOCED"] parts(1) t(1))
      (subst if_not_P [OF t(2)], use parts(2) in blast)
qed

text \<open>
  The initialisation of a string either succeeds, with at most one new block that the \<open>VALUE\<close> owns, or fails
  for lack of memory and leaves a null value; strings of up to 13 characters need no memory.
\<close>

definition new_string :: "value_mem \<Rightarrow> vptr \<Rightarrow> byte list \<Rightarrow> VALUE \<Rightarrow> value_mem \<Rightarrow> bool" where
  "new_string h v s x' h' \<longleftrightarrow> length x' = sizeof_VALUE \<and> x' ! 0 \<in> {Some VALUE_STRING, Some (VALUE_STRING OR IS_MALLOCED)} \<and>
     string_value h' x' s \<and>
     (case value_buffer x' of
        None \<Rightarrow> h' = upd_value h v x'
      | Some p \<Rightarrow> p \<noteq> NULL \<and> h p = None \<and> h' = (upd_value h v x')(p \<mapsto> Raw (map Some (string_bytes s))))"

lemma string_size_13: "length (string_bytes s) + 1 \<le> sizeof_VALUE \<longleftrightarrow> length s \<le> 13"
proof (cases "length s < 128")
  case True
  then have "length (length_prefix (length s)) = 1" by (subst length_prefix.simps) simp
  then show ?thesis by (auto simp: length_string_bytes sizeof_VALUE_def)
qed (simp add: length_string_bytes sizeof_VALUE_def)

text \<open>Whether there is no memory for a string: the \<open>VALUE\<close> \<open>x\<close> at \<open>v\<close> asks for a block of the size of its bytes.\<close>

definition string_refused :: "clib \<Rightarrow> value_mem \<Rightarrow> vptr \<Rightarrow> VALUE \<Rightarrow> byte list \<Rightarrow> bool" where
  "string_refused lib h v x s \<longleftrightarrow> 13 < length s \<and>
     malloc lib (upd_value h v (x[0 := Some (VALUE_STRING OR IS_MALLOCED)])) (length (string_bytes s)) = NULL"

lemma init_string_cases:
  assumes "clib_ok lib" "get_value h v = Some x" "length x = sizeof_VALUE" "unat len = length s" "length s < 2 ^ 63"
    and "source_bytes str len = Some s"
  shows "\<not> string_refused lib h v x s \<and> (\<exists>x' h'. value_init_string_n lib h v str len = Some (0, h') \<and> new_string h v s x' h') \<or>
    string_refused lib h v x s \<and> value_init_string_n lib h v str len = Some (- 1, upd_value h v (x[0 := Some VALUE_NULL]))"
proof (cases "length (string_bytes s) + 1 \<le> sizeof_VALUE")
  case True
  note inline = inline_string [OF assms(3) True]
  have "new_string h v s (inline_cells x VALUE_STRING (string_bytes s))
      (upd_value h v (inline_cells x VALUE_STRING (string_bytes s)))"
    using True assms(3) inline by (simp add: new_string_def inline_cells_def sizeof_VALUE_def)
  moreover have "\<not> string_refused lib h v x s" using True unfolding string_size_13 by (simp add: string_refused_def)
  ultimately show ?thesis using init_string(1) [OF assms(2-6) True] by blast
next
  case False
  define p where "p = malloc lib (upd_value h v (x[0 := Some (VALUE_STRING OR IS_MALLOCED)])) (length (string_bytes s))"
  show ?thesis
  proof (cases "p = NULL")
    case True
    have "string_refused lib h v x s" using False True unfolding string_size_13 by (simp add: string_refused_def p_def)
    then show ?thesis using init_string(2) [OF assms(2-6) False] True by (simp add: p_def)
  next
    case nonnull: False
    have "upd_value h v (x[0 := Some (VALUE_STRING OR IS_MALLOCED)]) p = None"
      using assms(1) nonnull unfolding clib_ok_def p_def by blast
    then have p: "h p = None" using upd_None [OF assms(2)] by simp
    let ?h' = "(upd_value h v (pointer_cells x (VALUE_STRING OR IS_MALLOCED) p))(p \<mapsto> Raw (map Some (string_bytes s)))"
    have t: "(VALUE_STRING OR IS_MALLOCED) AND IS_MALLOCED \<noteq> 0" by (simp add: value_flags value_types)
    have "new_string h v s (pointer_cells x (VALUE_STRING OR IS_MALLOCED) p) ?h'"
      using pointer_string [OF assms(3) nonnull, of ?h' s] assms(3) p nonnull t by (simp add: new_string_def)
    moreover have "\<not> string_refused lib h v x s" using nonnull by (simp add: string_refused_def p_def)
    ultimately show ?thesis using init_string(3) [OF assms(2-6) False p_def [symmetric] nonnull p] by blast
  qed
qed

lemma new_string_get:
  assumes "get_value h v = Some x" "new_string h v s x' h'"
  shows "get_value h' v = Some x'" and "v \<noteq> w \<Longrightarrow> get_value h w \<noteq> None \<Longrightarrow> get_value h' w = get_value h w"
proof -
  have upd: "get_value (upd_value h v x') w = (if v = w then Some x' else get_value h w)" for w
    using get_upd_same [OF assms(1)] get_upd_other [OF assms(1)] by (cases "v = w") simp_all
  have "get_value h' w = get_value (upd_value h v x') w" if "get_value h w \<noteq> None" for w
  proof (cases "value_buffer x'")
    case (Some p)
    then have "p \<noteq> vaddr w" using assms(2) that get_value_at [of h w] by (auto simp: new_string_def)
    then show ?thesis using assms(2) Some by (simp add: new_string_def value_simps)
  qed (use assms(2) in \<open>simp add: new_string_def\<close>)
  then show "get_value h' v = Some x'" "v \<noteq> w \<Longrightarrow> get_value h w \<noteq> None \<Longrightarrow> get_value h' w = get_value h w"
    using assms(1) by (simp_all add: upd)
qed

section \<open>What strings promise\<close>

text \<open>
  C31. A string of up to \<open>2 ^ 31 - 1\<close> bytes, with any bytes, is stored in a \<open>VALUE\<close> and read back with its length and a
  terminator, unless it has more than 13 bytes and \<open>malloc\<close> refuses the block for them: exactly then the
  call returns \<open>-1\<close> and leaves a null value. Other values are untouched in either case.
\<close>

theorem value_string_roundtrip:
  assumes "clib_ok lib" "get_value h v = Some x" "length x = sizeof_VALUE" "length s < 2 ^ 31"
  shows "\<exists>h'. value_init_string_n lib h v (Some s) (of_nat (length s)) = Some (if string_refused lib h v x s then - 1 else 0, h') \<and>
    (\<forall>w. w \<noteq> v \<and> get_value h w \<noteq> None \<longrightarrow> get_value h' w = get_value h w) \<and>
    (if string_refused lib h v x s then value_type h' v = Some VALUE_NULL
     else value_type h' v = Some VALUE_STRING \<and> value_string_length h' v = Some (of_nat (length s)) \<and>
       (\<exists>p off. value_string h' v = Some (Some (p, off)) \<and> payload_read h' p off (length s + 1) = Some (s @ [0])))"
proof -
  have len: "unat (of_nat (length s) :: size_t) = length s" using assms(4) by simp
  have src: "source_bytes (Some s) (of_nat (length s)) = Some s"
    using len by (auto simp: source_bytes_def)
  have "length s < 2 ^ 63" using assms(4) by simp
  note cases = init_string_cases [OF assms(1-3) len this src]
  then show ?thesis
  proof (elim disjE conjE exE)
    fix x' h' assume init: "value_init_string_n lib h v (Some s) (of_nat (length s)) = Some (0, h')" and new: "new_string h v s x' h'"
    note get = new_string_get [OF assms(2) new]
    have s: "string_value h' x' s" using new by (simp add: new_string_def)
    have "length s \<le> INT_MAX" using assms(4) by (simp add: INT_MAX_def)
    moreover assume "\<not> string_refused lib h v x s"
    ultimately show ?thesis
      using init get string_type [OF get(1) s] string_reads [OF get(1) s] by auto
  next
    assume refused: "string_refused lib h v x s"
      and init: "value_init_string_n lib h v (Some s) (of_nat (length s)) = Some (- 1, upd_value h v (x[0 := Some VALUE_NULL]))"
    have "value_type (upd_value h v (x[0 := Some VALUE_NULL])) v = Some VALUE_NULL"
      using assms(2,3) get_value_at [OF assms(2)] by (simp add: value_type_def value_simps sizeof_VALUE_def value_types value_flags)
    then show ?thesis using init refused get_upd_other [OF assms(2)] by auto
  qed
qed

text \<open>A C library without memory, for the examples.\<close>

definition no_memory :: clib where
  "no_memory = \<lparr>malloc = \<lambda>h n. NULL, realloc = \<lambda>h p n. NULL\<rparr>"

lemma no_memory_ok: "clib_ok no_memory"
  by (simp add: clib_ok_def no_memory_def)

text \<open>A C library with one block, at the address 256.\<close>

definition one_block :: clib where
  "one_block = \<lparr>malloc = \<lambda>h n. if h 256 = None then 256 else NULL, realloc = \<lambda>h p n. NULL\<rparr>"

lemma one_block_ok: "clib_ok one_block"
  by (auto simp: clib_ok_def one_block_def)

text \<open>20 bytes: stored in that block, and refused without memory.\<close>

lemma value_string_roundtrip_witness:
  "(\<exists>h'. value_init_string_n one_block [64 \<mapsto> Variable (indeterminate 16)] (Var 64) (Some (replicate 20 7)) 20 = Some (0, h') \<and>
      value_string_length h' (Var 64) = Some 20) \<and>
   (\<exists>h'. value_init_string_n no_memory [64 \<mapsto> Variable (indeterminate 16)] (Var 64) (Some (replicate 20 7)) 20 = Some (- 1, h') \<and>
      value_type h' (Var 64) = Some VALUE_NULL)"
proof -
  let ?h = "[64 \<mapsto> Variable (indeterminate 16)]" and ?s = "replicate 20 7"
  have x: "get_value ?h (Var 64) = Some (indeterminate 16)" "length (indeterminate 16) = sizeof_VALUE"
    by (simp_all add: load_def indeterminate_def sizeof_VALUE_def)
  have "\<not> string_refused one_block ?h (Var 64) (indeterminate 16) ?s" "string_refused no_memory ?h (Var 64) (indeterminate 16) ?s"
    by (simp_all add: string_refused_def one_block_def no_memory_def)
  with value_string_roundtrip [OF one_block_ok x, of ?s] value_string_roundtrip [OF no_memory_ok x, of ?s]
  show ?thesis by simp blast
qed

text \<open>
  Reading the length of a longer string back shifts its bits out of an \<open>int\<close>: undefined behaviour, although
  \<open>value_init_string_n\<close> stores the string.
\<close>

theorem value_string_length_overflow:
  assumes "get_value h v = Some x" "string_value h x s" "2 ^ 31 \<le> length s"
  shows "value_string_length h v = None"
  using string_reads(2) [OF assms(1,2)] assms(3) by (simp add: INT_MAX_def)

lemma value_string_length_overflow_witness:
  "\<exists>h. value_string_length h (Var 64) = None \<and> value_type h (Var 64) = Some VALUE_STRING"
proof -
  define s :: "byte list" where "s = replicate (2 ^ 31) 97"
  define x where "x = pointer_cells (indeterminate 16) (VALUE_STRING OR IS_MALLOCED) 128"
  define h :: value_mem where "h = [64 \<mapsto> Variable x, 128 \<mapsto> Raw (map Some (string_bytes s))]"
  have get: "get_value h (Var 64) = Some x" by (simp add: h_def load_def)
  have "h 128 = Some (Raw (map Some (string_bytes s)))" by (simp add: h_def)
  then have x: "string_value h x s"
    unfolding x_def by (intro pointer_string) (simp_all add: indeterminate_def sizeof_VALUE_def)
  have "2 ^ 31 \<le> length s" by (simp only: s_def length_replicate)
  from value_string_length_overflow [OF get x this] string_type [OF get x] show ?thesis by blast
qed

end
