(* ===== verification/Value_Sim.thy ===== *)
theory Value_Sim
  imports Value_Dict Value_String Rbtree_Walk
begin

text \<open>
  The dictionary of \<open>data/value.c\<close> repeats the algorithms of \<open>data/rbtree.c\<close> on nodes that keep the colour in
  the key. Each of its functions simulates the one of \<open>Rbtree_Code\<close>: whatever that function does
  without going wrong, this one does too, and it changes nothing but links, colours and the root.
\<close>

section \<open>The colour of a key\<close>

definition key_color :: "VALUE \<Rightarrow> rb_color" where
  "key_color x = (if the (x ! 0) AND HAS_REDCOLOR \<noteq> 0 then Red else Black)"

definition paint :: "rb_color \<Rightarrow> VALUE \<Rightarrow> VALUE" where
  "paint c x = x[0 := Some (if c = Red then the (x ! 0) OR HAS_REDCOLOR else the (x ! 0) AND NOT HAS_REDCOLOR)]"

text \<open>A \<open>VALUE\<close> whose first byte was written.\<close>

definition tagged :: "VALUE \<Rightarrow> bool" where
  "tagged x \<longleftrightarrow> length x = sizeof_VALUE \<and> x ! 0 \<noteq> None"

lemma tagged_pos [simp]: "tagged x \<Longrightarrow> x \<noteq> []"
  by (auto simp: tagged_def sizeof_VALUE_def)

lemma red_bit:
  fixes t :: byte
  shows "HAS_REDCOLOR \<noteq> 0" "(t OR HAS_REDCOLOR) AND HAS_REDCOLOR \<noteq> 0" "(t AND NOT HAS_REDCOLOR) AND HAS_REDCOLOR = 0"
    "(t OR HAS_REDCOLOR) AND NOT HAS_REDCOLOR = t AND NOT HAS_REDCOLOR"
    "(t AND NOT HAS_REDCOLOR) OR HAS_REDCOLOR = t OR HAS_REDCOLOR"
    "(t OR HAS_REDCOLOR) OR HAS_REDCOLOR = t OR HAS_REDCOLOR"
    "(t AND NOT HAS_REDCOLOR) AND NOT HAS_REDCOLOR = t AND NOT HAS_REDCOLOR"
    "(t OR HAS_REDCOLOR) XOR HAS_REDCOLOR = t AND NOT HAS_REDCOLOR"
    "(t AND NOT HAS_REDCOLOR) XOR HAS_REDCOLOR = t OR HAS_REDCOLOR"
  by (simp_all add: byte_eq_iff HAS_REDCOLOR_def bit_simps)

lemma red_bit_cases:
  fixes t :: byte
  shows "t AND HAS_REDCOLOR \<noteq> 0 \<Longrightarrow> t OR HAS_REDCOLOR = t" "t AND HAS_REDCOLOR = 0 \<Longrightarrow> t AND NOT HAS_REDCOLOR = t"
  by (simp_all add: byte_eq_iff HAS_REDCOLOR_def bit_simps)

lemma paint_simps [simp]:
  assumes "tagged x"
  shows "tagged (paint c x)" "paint c (paint c' x) = paint c x" "key_color (paint c x) = c" "paint (key_color x) x = x"
proof -
  have pos: "0 < length x" using assms by simp
  obtain t where t: "x ! 0 = Some t" using assms by (auto simp: tagged_def)
  show "tagged (paint c x)" using assms pos by (simp add: tagged_def paint_def)
  show "paint c (paint c' x) = paint c x" using pos t by (cases c; cases c') (simp_all add: paint_def red_bit)
  show "key_color (paint c x) = c" using pos t by (cases c) (simp_all add: paint_def key_color_def red_bit)
  show "paint (key_color x) x = x"
    using pos t red_bit_cases [of t] by (auto simp: paint_def key_color_def list_update_same_conv)
qed

lemma paint_tag: "tagged x \<Longrightarrow> paint c x ! 0 = Some (if c = Red then the (x ! 0) OR HAS_REDCOLOR else the (x ! 0) AND NOT HAS_REDCOLOR)"
  by (simp add: paint_def)

section \<open>The relation\<close>

text \<open>
  \<open>S\<close> is the tree on the nodes \<open>N\<close>; the memory is \<open>h0\<close> with the links and colours of \<open>S\<close> in these nodes and
  its root in the dictionary \<open>d\<close>.
\<close>

definition sim :: "addr set \<Rightarrow> addr \<Rightarrow> value_mem \<Rightarrow> value_mem \<Rightarrow> RBTREE \<Rightarrow> bool" where
  "sim N d h0 h S \<longleftrightarrow> dom (nodes S) = N \<and> NULL \<notin> N \<and> d \<noteq> NULL \<and> d \<notin> N \<and> even (root S) \<and>
     (\<forall>p \<in> N. \<exists>n c l r. even p \<and> even l \<and> even r \<and> h0 p = Some (Node_Block n) \<and> tagged (node_key n) \<and>
        nodes S p = Some (mknode c l r) \<and>
        h p = Some (Node_Block (n\<lparr>node_key := paint c (node_key n), node_left := l, node_right := r\<rparr>))) \<and>
     (\<exists>D. h0 d = Some (Dict_Block D) \<and> h d = Some (Dict_Block (D\<lparr>d_root := root S\<rparr>))) \<and>
     (\<forall>p. p \<notin> N \<and> p \<noteq> d \<longrightarrow> h p = h0 p)"

lemma sim_node:
  assumes "sim N d h0 h S" "nodes S p = Some x"
  obtains n c l r where "p \<in> N" "p \<noteq> NULL" "p \<noteq> d" "even p" "even l" "even r" "h0 p = Some (Node_Block n)" "tagged (node_key n)"
    "x = mknode c l r" "cell S p c l r"
    "load_node h p = Some (n\<lparr>node_key := paint c (node_key n), node_left := l, node_right := r\<rparr>)"
proof -
  have p: "p \<in> N" "p \<noteq> NULL" "p \<noteq> d" using assms by (auto simp: sim_def)
  then obtain n c l r where "even p" "even l" "even r" "h0 p = Some (Node_Block n)" "tagged (node_key n)"
    "nodes S p = Some (mknode c l r)"
    "h p = Some (Node_Block (n\<lparr>node_key := paint c (node_key n), node_left := l, node_right := r\<rparr>))"
    using assms(1) unfolding sim_def by blast
  then show ?thesis using that p assms(2) by (simp add: cell_def load_node_def load_def)
qed

lemma sim_update:
  assumes "sim N d h0 h S" "h0 p = Some (Node_Block n)" "p \<in> N" "even l" "even r" "tagged (node_key n)"
  shows "sim N d h0 (h(p \<mapsto> Node_Block (n\<lparr>node_key := paint c (node_key n), node_left := l, node_right := r\<rparr>)))
    (put S p (mknode c l r))"
proof -
  let ?h = "h(p \<mapsto> Node_Block (n\<lparr>node_key := paint c (node_key n), node_left := l, node_right := r\<rparr>))"
  let ?S = "put S p (mknode c l r)"
  note S = assms(1) [unfolded sim_def]
  have "\<exists>n c l r. even q \<and> even l \<and> even r \<and> h0 q = Some (Node_Block n) \<and> tagged (node_key n) \<and>
      nodes ?S q = Some (mknode c l r) \<and>
      ?h q = Some (Node_Block (n\<lparr>node_key := paint c (node_key n), node_left := l, node_right := r\<rparr>))" if "q \<in> N" for q
  proof (cases "q = p")
    case True
    have "even p" using S assms(3) by blast
    then show ?thesis using assms(2,4-6) True by (intro exI [of _ n] exI [of _ c] exI [of _ l] exI [of _ r]) (simp add: put_def)
  next
    case False
    then have "nodes ?S q = nodes S q" "?h q = h q" by (simp_all add: put_def)
    then show ?thesis using S that by auto
  qed
  moreover have "p \<noteq> d" using S assms(3) by blast
  ultimately show ?thesis using S assms(3) by (simp add: sim_def put_fields) blast
qed

lemma sim_root:
  assumes "sim N d h0 h S" "even q"
  shows "\<exists>h'. set_root h d q = Some h' \<and> sim N d h0 h' (S\<lparr>root := q\<rparr>)"
proof -
  note S = assms(1) [unfolded sim_def]
  obtain D where D: "h0 d = Some (Dict_Block D)" "h d = Some (Dict_Block (D\<lparr>d_root := root S\<rparr>))" "d \<noteq> NULL" "d \<notin> N"
    using S by blast
  then have "set_root h d q = Some (h(d \<mapsto> Dict_Block (D\<lparr>d_root := q\<rparr>)))"
    by (simp add: set_root_def modify_dict_def load_dict_def load_def)
  moreover have "sim N d h0 (h(d \<mapsto> Dict_Block (D\<lparr>d_root := q\<rparr>))) (S\<lparr>root := q\<rparr>)"
    using S D assms(2) by (simp add: sim_def) (metis fun_upd_other)
  ultimately show ?thesis by blast
qed

lemma sim_root_read: "sim N d h0 h S \<Longrightarrow> dict_root h d = Some (root S)"
  by (auto simp: sim_def dict_root_def load_dict_def load_def)

section \<open>Refinement\<close>

text \<open>When the first computation succeeds, so does the second one, with related results.\<close>

definition refines :: "('a \<Rightarrow> 'b \<Rightarrow> bool) \<Rightarrow> 'a option \<Rightarrow> 'b option \<Rightarrow> bool" where
  "refines Q m m' \<longleftrightarrow> (\<forall>x. m = Some x \<longrightarrow> (\<exists>y. m' = Some y \<and> Q x y))"

named_theorems refines_intros \<open>refinement of the primitives and of composed functions\<close>

lemma refines_return: "Q x y \<Longrightarrow> refines Q (Some x) (Some y)"
  by (simp add: refines_def)

lemma refines_bind: "refines P m m' \<Longrightarrow> (\<And>x y. P x y \<Longrightarrow> refines Q (f x) (f' y)) \<Longrightarrow> refines Q (m \<bind> f) (m' \<bind> f')"
proof -
  assume "refines P m m'" and f: "\<And>x y. P x y \<Longrightarrow> refines Q (f x) (f' y)"
  then show ?thesis
  proof (cases m)
    case (Some x)
    then obtain y where "m' = Some y" "P x y" using \<open>refines P m m'\<close> by (auto simp: refines_def)
    then show ?thesis using Some f by simp
  qed (simp add: refines_def)
qed

lemma refines_if: "b = b' \<Longrightarrow> (b \<Longrightarrow> refines Q m m') \<Longrightarrow> (\<not> b \<Longrightarrow> refines Q n n') \<Longrightarrow>
    refines Q (if b then m else n) (if b' then m' else n')"
  by simp

lemma refines_mono:
  assumes "refines P m m'" "\<And>x y. P x y \<Longrightarrow> Q x y"
  shows "refines Q m m'"
  unfolding refines_def
proof (intro allI impI)
  fix x assume "m = Some x"
  then obtain y where "m' = Some y" "P x y" using assms(1) by (auto simp: refines_def)
  then show "\<exists>y. m' = Some y \<and> Q x y" using assms(2) by blast
qed

lemma refines_None: "refines Q None m"
  by (simp add: refines_def)

text \<open>Equal results that are even, equal results, and related memories.\<close>

definition same_even :: "addr \<Rightarrow> addr \<Rightarrow> bool" where
  "same_even a b \<longleftrightarrow> a = b \<and> even a"

lemma refines_reads [refines_intros]:
  assumes "sim N d h0 h S"
  shows "refines same_even (LEFT S p) (get_left h p)" "refines same_even (RIGHT S p) (get_right h p)"
    "refines (=) (IS_RED S p) (NODE_IS_RED h p)" "refines (=) (IS_BLACK S p) (NODE_IS_BLACK h p)"
    "refines (=) (red_node S p) (red_child h p)" "refines (=) (black_node S p) (black_child h p)"
    "refines (\<lambda>c b. (c = 1) = b \<and> (c = 0 \<or> c = 1)) (COLOR S p) (NODE_IS_RED h p)"
proof -
  have node: "nodes S p = None \<or> (\<exists>n c l r. p \<noteq> NULL \<and> even l \<and> even r \<and> cell S p c l r \<and> tagged (node_key n) \<and>
      load_node h p = Some (n\<lparr>node_key := paint c (node_key n), node_left := l, node_right := r\<rparr>))"
  proof (cases "nodes S p")
    case (Some x)
    show ?thesis by (rule sim_node [OF assms Some]) blast
  qed simp
  have tag: "NODE_IS_RED h p = Some (c = Red)"
    if "load_node h p = Some (n\<lparr>node_key := paint c (node_key n), node_left := l, node_right := r\<rparr>)" "tagged (node_key n)" for n c l r
  proof -
    have "get_value h (Key p) = Some (paint c (node_key n))"
      using that(1) by (auto simp: load_node_def split: option.splits block.splits)
    moreover have "tagged (paint c (node_key n))" using that(2) by simp
    ultimately show ?thesis using that(2) by (simp add: NODE_IS_RED_def data_get paint_tag red_bit)
  qed
  have none: "LEFT S p = None" "RIGHT S p = None" "IS_RED S p = None" "IS_BLACK S p = None" "COLOR S p = None"
    if "nodes S p = None"
    using that by (simp_all add: LEFT_def RIGHT_def IS_RED_def IS_BLACK_def COLOR_def load_def)
  show "refines same_even (LEFT S p) (get_left h p)" "refines same_even (RIGHT S p) (get_right h p)"
    using node none by (auto simp: refines_def same_even_def cell_read get_left_def get_right_def)
  show red: "refines (=) (IS_RED S p) (NODE_IS_RED h p)"
    "refines (\<lambda>c b. (c = 1) = b \<and> (c = 0 \<or> c = 1)) (COLOR S p) (NODE_IS_RED h p)"
    using node none by (auto simp: refines_def cell_read tag split: if_splits)
  have other: "c \<noteq> Red \<longleftrightarrow> c = Black" for c by (cases c) simp_all
  show black: "refines (=) (IS_BLACK S p) (NODE_IS_BLACK h p)"
    using node none by (auto simp: refines_def cell_read NODE_IS_BLACK_def tag other)
  show "refines (=) (red_node S p) (red_child h p)"
    using red(1) by (simp add: red_node_def red_child_def refines_def)
  show "refines (=) (black_node S p) (black_child h p)"
    using black by (simp add: black_node_def black_child_def refines_def)
qed

lemma sim_write:
  assumes "sim N d h0 h S" "nodes S p \<noteq> None"
  shows "\<exists>n c l r. cell S p c l r \<and> tagged (node_key n) \<and>
    load_node h p = Some (n\<lparr>node_key := paint c (node_key n), node_left := l, node_right := r\<rparr>) \<and> even l \<and> even r \<and>
    get_value h (Key p) = Some (paint c (node_key n)) \<and>
    (\<forall>x. upd_value h (Key p) x = h(p \<mapsto> Node_Block (n\<lparr>node_key := x, node_left := l, node_right := r\<rparr>))) \<and>
    (\<forall>c' l' r'. even l' \<and> even r' \<longrightarrow>
      sim N d h0 (h(p \<mapsto> Node_Block (n\<lparr>node_key := paint c' (node_key n), node_left := l', node_right := r'\<rparr>)))
        (put S p (mknode c' l' r')))"
proof -
  obtain x where x: "nodes S p = Some x" using assms(2) by blast
  obtain n c l r where n: "p \<in> N" "p \<noteq> NULL" "even p" "even l" "even r" "h0 p = Some (Node_Block n)" "tagged (node_key n)"
    "cell S p c l r" "load_node h p = Some (n\<lparr>node_key := paint c (node_key n), node_left := l, node_right := r\<rparr>)"
    by (rule sim_node [OF assms(1) x]) blast
  have "load h p = Some (Node_Block (n\<lparr>node_key := paint c (node_key n), node_left := l, node_right := r\<rparr>))"
    using n(9) by (auto simp: load_node_def split: option.splits block.splits)
  then have m: "h p = Some (Node_Block (n\<lparr>node_key := paint c (node_key n), node_left := l, node_right := r\<rparr>))"
    "get_value h (Key p) = Some (paint c (node_key n))"
    using n(2) by (simp_all add: load_def)
  have eq: "n\<lparr>node_left := l, node_right := r, node_key := x\<rparr> = n\<lparr>node_key := x, node_left := l, node_right := r\<rparr>" for x
    by simp
  have "upd_value h (Key p) x = h(p \<mapsto> Node_Block (n\<lparr>node_left := l, node_right := r, node_key := x\<rparr>))" for x
    using m(1) by simp
  then have "\<forall>x. upd_value h (Key p) x = h(p \<mapsto> Node_Block (n\<lparr>node_key := x, node_left := l, node_right := r\<rparr>))"
    unfolding eq by blast
  then show ?thesis using n m sim_update [OF assms(1) n(6,1) _ _ n(7)] by blast
qed

lemma refines_writes:
  assumes "sim N d h0 h S"
  shows "refines (\<lambda>S h. sim N d h0 h S) (MAKE_RED S p) (NODE_MAKE_RED h p)"
    and "refines (\<lambda>S h. sim N d h0 h S) (MAKE_BLACK S p) (NODE_MAKE_BLACK h p)"
    and "refines (\<lambda>S h. sim N d h0 h S) (TOGGLE_COLOR S p) (NODE_TOGGLE_COLOR h p)"
    and "even q \<Longrightarrow> refines (\<lambda>S h. sim N d h0 h S) (SET_LEFT S p q) (set_left h p q)"
    and "even q \<Longrightarrow> refines (\<lambda>S h. sim N d h0 h S) (SET_RIGHT S p q) (set_right h p q)"
    and "even q \<Longrightarrow> refines (\<lambda>S h. sim N d h0 h S) (Some (S\<lparr>root := q\<rparr>)) (set_root h d q)"
proof -
  have none: "MAKE_RED S p = None" "MAKE_BLACK S p = None" "TOGGLE_COLOR S p = None" "SET_LEFT S p q = None" "SET_RIGHT S p q = None"
    if "nodes S p = None" for q
    using that by (simp_all add: MAKE_RED_def MAKE_BLACK_def TOGGLE_COLOR_def SET_LEFT_def SET_RIGHT_def update_node_def
        modify_def load_def)
  show "refines (\<lambda>S h. sim N d h0 h S) (MAKE_RED S p) (NODE_MAKE_RED h p)"
    "refines (\<lambda>S h. sim N d h0 h S) (MAKE_BLACK S p) (NODE_MAKE_BLACK h p)"
    "refines (\<lambda>S h. sim N d h0 h S) (TOGGLE_COLOR S p) (NODE_TOGGLE_COLOR h p)"
  proof -
    have "refines (\<lambda>S h. sim N d h0 h S) (MAKE_RED S p) (NODE_MAKE_RED h p) \<and>
        refines (\<lambda>S h. sim N d h0 h S) (MAKE_BLACK S p) (NODE_MAKE_BLACK h p) \<and>
        refines (\<lambda>S h. sim N d h0 h S) (TOGGLE_COLOR S p) (NODE_TOGGLE_COLOR h p)"
    proof (cases "nodes S p = None")
      case False
      obtain n c l r where n: "cell S p c l r" "tagged (node_key n)"
        "load_node h p = Some (n\<lparr>node_key := paint c (node_key n), node_left := l, node_right := r\<rparr>)" "even l" "even r"
        "get_value h (Key p) = Some (paint c (node_key n))"
        "\<forall>x. upd_value h (Key p) x = h(p \<mapsto> Node_Block (n\<lparr>node_key := x, node_left := l, node_right := r\<rparr>))"
        "\<forall>c' l' r'. even l' \<and> even r' \<longrightarrow>
          sim N d h0 (h(p \<mapsto> Node_Block (n\<lparr>node_key := paint c' (node_key n), node_left := l', node_right := r'\<rparr>)))
            (put S p (mknode c' l' r'))"
        using sim_write [OF assms False] by (elim exE conjE) (rule that)
      have ne: "paint c (node_key n) \<noteq> []" using n(2) by simp
      have set: "data_set h (Key p) 0 b = Some (h(p \<mapsto> Node_Block (n\<lparr>node_key := (paint c (node_key n))[0 := Some b], node_left := l, node_right := r\<rparr>)))" for b
        using data_set [OF n(6), of 0 b] ne n(7) by (simp del: upd_value.simps get_value.simps)
      have get: "data_get h (Key p) 0 = paint c (node_key n) ! 0" using n(6) ne by (simp add: data_get)
      have "(paint c (node_key n))[0 := Some (the (paint c (node_key n) ! 0) OR HAS_REDCOLOR)] = paint Red (node_key n)"
        "(paint c (node_key n))[0 := Some (the (paint c (node_key n) ! 0) AND NOT HAS_REDCOLOR)] = paint Black (node_key n)"
        "(paint c (node_key n))[0 := Some (the (paint c (node_key n) ! 0) XOR HAS_REDCOLOR)] =
          paint (if c = Red then Black else Red) (node_key n)"
        using n(2) by (cases c; simp add: paint_def red_bit)+
      moreover obtain t where "paint c (node_key n) ! 0 = Some t" using n(2) by (simp add: paint_tag)
      ultimately show ?thesis using n(4,5,8) cell_write(1-3) [OF n(1)]
        by (simp add: refines_def NODE_MAKE_RED_def NODE_MAKE_BLACK_def NODE_TOGGLE_COLOR_def get set)
    qed (simp add: refines_def none)
    then show "refines (\<lambda>S h. sim N d h0 h S) (MAKE_RED S p) (NODE_MAKE_RED h p)"
      "refines (\<lambda>S h. sim N d h0 h S) (MAKE_BLACK S p) (NODE_MAKE_BLACK h p)"
      "refines (\<lambda>S h. sim N d h0 h S) (TOGGLE_COLOR S p) (NODE_TOGGLE_COLOR h p)"
      by blast+
  qed
  have "refines (\<lambda>S h. sim N d h0 h S) (SET_LEFT S p q) (set_left h p q) \<and>
      refines (\<lambda>S h. sim N d h0 h S) (SET_RIGHT S p q) (set_right h p q)" if q: "even q" for q
  proof (cases "nodes S p = None")
    case False
    obtain n c l r where n: "cell S p c l r" "tagged (node_key n)"
        "load_node h p = Some (n\<lparr>node_key := paint c (node_key n), node_left := l, node_right := r\<rparr>)" "even l" "even r"
        "get_value h (Key p) = Some (paint c (node_key n))"
        "\<forall>x. upd_value h (Key p) x = h(p \<mapsto> Node_Block (n\<lparr>node_key := x, node_left := l, node_right := r\<rparr>))"
        "\<forall>c' l' r'. even l' \<and> even r' \<longrightarrow>
          sim N d h0 (h(p \<mapsto> Node_Block (n\<lparr>node_key := paint c' (node_key n), node_left := l', node_right := r'\<rparr>)))
            (put S p (mknode c' l' r'))"
        using sim_write [OF assms False] by (elim exE conjE) (rule that)
    have links: "m\<lparr>node_right := r', node_left := l'\<rparr> = m\<lparr>node_left := l', node_right := r'\<rparr>" for m :: RBTREE_tag and l' r'
      by simp
    show ?thesis using n(3-5,8) q cell_write(4,5) [OF n(1)]
      by (simp add: refines_def set_left_def set_right_def modify_node_def links)
  qed (simp add: refines_def none)
  then show "even q \<Longrightarrow> refines (\<lambda>S h. sim N d h0 h S) (SET_LEFT S p q) (set_left h p q)"
    "even q \<Longrightarrow> refines (\<lambda>S h. sim N d h0 h S) (SET_RIGHT S p q) (set_right h p q)"
    by blast+
  show "even q \<Longrightarrow> refines (\<lambda>S h. sim N d h0 h S) (Some (S\<lparr>root := q\<rparr>)) (set_root h d q)"
    using sim_root [OF assms] by (simp add: refines_def)
qed

section \<open>Composition\<close>

text \<open>A step in both computations: a read of an address or a truth value, a write, a pair of both.\<close>

lemma bind_addr:
  "refines same_even m m' \<Longrightarrow> (\<And>x. even x \<Longrightarrow> refines Q (f x) (f' x)) \<Longrightarrow> refines Q (m \<bind> f) (m' \<bind> f')"
  by (rule refines_bind, assumption) (auto simp: same_even_def)

lemma bind_same:
  "refines (=) m m' \<Longrightarrow> (\<And>x. refines Q (f x) (f' x)) \<Longrightarrow> refines Q (m \<bind> f) (m' \<bind> f')"
  by (rule refines_bind, assumption) auto

lemma bind_sim:
  "refines (\<lambda>S h. sim N d h0 h S) m m' \<Longrightarrow> (\<And>S h. sim N d h0 h S \<Longrightarrow> refines Q (f S) (f' h)) \<Longrightarrow>
   refines Q (m \<bind> f) (m' \<bind> f')"
  by (rule refines_bind)

lemma bind_color:
  "refines (\<lambda>c b. (c = 1) = b \<and> (c = 0 \<or> c = 1)) m m' \<Longrightarrow>
   (\<And>c b. (c = (1 :: addr)) = b \<Longrightarrow> c = 0 \<or> c = 1 \<Longrightarrow> refines Q (f c) (f' b)) \<Longrightarrow> refines Q (m \<bind> f) (m' \<bind> f')"
  by (rule refines_bind, assumption) auto

lemma bind_sim_pair:
  "refines (\<lambda>(S, a) (h, b). sim N d h0 h S \<and> a = b \<and> P a) m m' \<Longrightarrow>
   (\<And>S h a. sim N d h0 h S \<Longrightarrow> P a \<Longrightarrow> refines Q (f S a) (f' h a)) \<Longrightarrow>
   refines Q (m \<bind> (\<lambda>(S, a). f S a)) (m' \<bind> (\<lambda>(h, a). f' h a))"
  by (rule refines_bind, assumption) auto

lemma bind_sim_triple:
  "refines (\<lambda>(S, a, b) (h, a', b'). sim N d h0 h S \<and> a = a' \<and> P a \<and> b = b' \<and> P' b) m m' \<Longrightarrow>
   (\<And>S h a b. sim N d h0 h S \<Longrightarrow> P a \<Longrightarrow> P' b \<Longrightarrow> refines Q (f S a b) (f' h a b)) \<Longrightarrow>
   refines Q (m \<bind> (\<lambda>(S, a, b). f S a b)) (m' \<bind> (\<lambda>(h, a, b). f' h a b))"
  by (rule refines_bind, assumption) auto

lemma ite_same: "(b \<Longrightarrow> refines Q m m') \<Longrightarrow> (\<not> b \<Longrightarrow> refines Q n n') \<Longrightarrow> refines Q (if b then m else n) (if b then m' else n')"
  by simp

lemma ite_swap: "(a = c \<Longrightarrow> refines Q m m') \<Longrightarrow> (a \<noteq> c \<Longrightarrow> refines Q n n') \<Longrightarrow>
    refines Q (if a = c then m else n) (if c = a then m' else n')"
  by auto

lemma return_sim: "sim N d h0 h S \<Longrightarrow> refines (\<lambda>S h. sim N d h0 h S) (Some S) (Some h)"
  by (rule refines_return)

lemma return_addr: "even a \<Longrightarrow> refines same_even (Some a) (Some a)"
  by (simp add: refines_def same_even_def)

lemma return_same: "refines (=) (Some a) (Some a)"
  by (simp add: refines_def)

lemmas step_reads =
  bind_addr [OF refines_reads(1)] bind_addr [OF refines_reads(2)] bind_same [OF refines_reads(3)]
  bind_same [OF refines_reads(4)] bind_same [OF refines_reads(5)] bind_same [OF refines_reads(6)] bind_color [OF refines_reads(7)]
lemmas step_writes =
  bind_sim [OF refines_writes(1)] bind_sim [OF refines_writes(2)] bind_sim [OF refines_writes(3)]
  bind_sim [OF refines_writes(4)] bind_sim [OF refines_writes(5)] bind_sim [OF refines_writes(6)]
lemmas steps = step_reads step_writes ite_same ite_swap refines_reads refines_writes return_sim return_addr return_same

lemma even_NULL: "even NULL"
  by simp

lemma rotate_left_refines:
  assumes "sim N d h0 h S" "even node"
  shows "refines (\<lambda>S h. sim N d h0 h S) (rbtree_rotate_left S parent node) (value_dict_rotate_left h d parent node)"
  using assms unfolding rbtree_rotate_left_def value_dict_rotate_left_def
  by (intro steps; assumption?)+

lemma rotate_right_refines:
  assumes "sim N d h0 h S" "even node"
  shows "refines (\<lambda>S h. sim N d h0 h S) (rbtree_rotate_right S parent node) (value_dict_rotate_right h d parent node)"
  using assms unfolding rbtree_rotate_right_def value_dict_rotate_right_def
  by (intro steps; assumption?)+

section \<open>Paths\<close>

definition even_path :: "RBTREE_CURSOR \<Rightarrow> bool" where
  "even_path path \<longleftrightarrow> (\<forall>a \<in> set path. even a)"

definition same_path :: "RBTREE_CURSOR \<Rightarrow> RBTREE_CURSOR \<Rightarrow> bool" where
  "same_path p q \<longleftrightarrow> p = q \<and> even_path p"

lemma refines_path:
  assumes "even_path path"
  shows "refines same_even (path_top path k) (path_top path k)"
    "refines same_even (path_at path k) (path_at path k)"
    "even a \<Longrightarrow> refines same_path (path_push path a) (path_push path a)"
    "even a \<Longrightarrow> refines same_path (path_set_top path k a) (path_set_top path k a)"
    "even a \<Longrightarrow> refines same_path (path_set_at path k a) (path_set_at path k a)"
proof -
  have "k < length path \<Longrightarrow> even (path ! k)" for k using assms by (simp add: even_path_def)
  moreover have "even a \<Longrightarrow> even_path (path[k := a])" for k
    using assms set_update_subset_insert [of path k a] by (auto simp: even_path_def)
  ultimately show "refines same_even (path_top path k) (path_top path k)"
    "refines same_even (path_at path k) (path_at path k)"
    "even a \<Longrightarrow> refines same_path (path_push path a) (path_push path a)"
    "even a \<Longrightarrow> refines same_path (path_set_top path k a) (path_set_top path k a)"
    "even a \<Longrightarrow> refines same_path (path_set_at path k a) (path_set_at path k a)"
    using assms by (auto simp: refines_def path_top_def path_at_def path_push_def path_set_top_def path_set_at_def
        peek_def poke_def same_even_def same_path_def even_path_def split: if_splits)
qed

lemma bind_path:
  "refines same_path m m' \<Longrightarrow> (\<And>x. even_path x \<Longrightarrow> refines Q (f x) (f' x)) \<Longrightarrow> refines Q (m \<bind> f) (m' \<bind> f')"
  by (rule refines_bind, assumption) (auto simp: same_path_def)

lemma even_path_drop: "even_path path \<Longrightarrow> even_path (drop k path)"
  by (auto simp: even_path_def dest: in_set_dropD)

lemmas step_paths =
  bind_addr [OF refines_path(1)] bind_addr [OF refines_path(2)] bind_path [OF refines_path(3)]
  bind_path [OF refines_path(4)] bind_path [OF refines_path(5)]
lemmas step_rotates = bind_sim [OF rotate_left_refines] bind_sim [OF rotate_right_refines] rotate_left_refines rotate_right_refines

lemma leftmost_path_refines:
  assumes "sim N d h0 h S" "even node" "even_path path"
  shows "refines same_path (rbtree_leftmost_path S node path) (value_dict_leftmost_path h node path)"
proof -
  have "\<exists>p. value_dict_leftmost_path h node path = Some p \<and> same_path r p"
    if "rbtree_leftmost_path S node path = Some r" for r
    using that assms
  proof (induction S node path r rule: rbtree_leftmost_path.raw_induct [rotated 1, consumes 1, case_names step])
    case (step leftmost S node path r)
    have ih: "refines same_path (leftmost S n p) (value_dict_leftmost_path h n p)" if "even n" "even_path p" for n p
      using step(1) [of S n p] step(3) that by (simp add: refines_def)
    have "refines same_path
        (if node \<noteq> NULL then do { path \<leftarrow> path_push path node; node \<leftarrow> LEFT S node; leftmost S node path } else Some path)
        (value_dict_leftmost_path h node path)"
      using step(3-5) by (subst value_dict_leftmost_path.simps)
        (intro steps step_paths ih refines_return; (assumption | simp add: same_path_def)?)+
    then show ?case using step(2) by (simp add: refines_def)
  qed
  then show ?thesis by (auto simp: refines_def)
qed

lemma inner_child:
  "refines same_even m m' \<Longrightarrow>
   refines (=) (if b then do { x \<leftarrow> m; Some (node = x) } else Some False) (if b then do { x \<leftarrow> m'; Some (x = node) } else Some False)"
  by (cases b; cases m) (auto simp: refines_def same_even_def)

lemma return_triple:
  "sim N d h0 h S \<Longrightarrow> even a \<Longrightarrow> even b \<Longrightarrow>
   refines (\<lambda>(S, a, b) (h, a', b'). sim N d h0 h S \<and> a = a' \<and> even a \<and> b = b' \<and> even b) (Some (S, a, b)) (Some (h, a, b))"
  by (simp add: refines_def)

lemma insert_rotate_refines:
  assumes "sim N d h0 h S" "even node" "even parent" "even grandparent" "even_path path"
  shows "refines (\<lambda>S h. sim N d h0 h S) (insert_fixup_rotate S path node parent grandparent)
    (dict_insert_rotate h d path node parent grandparent)"
  using assms unfolding insert_fixup_rotate_def dict_insert_rotate_def
  apply -
  apply (rule bind_addr)
   apply (intro steps refines_path; (assumption | rule even_NULL)?)
  apply (rule step_reads, assumption)
  apply (rule bind_same, rule inner_child, rule refines_reads, assumption)
  apply (rule bind_sim_triple [where P = even and P' = even])
   apply (rule ite_same)
    apply (rule step_rotates, assumption, assumption)
    apply (rule step_reads, assumption)
    apply (rule return_triple; assumption)
   apply (rule step_reads, assumption)
   apply (rule bind_same, rule inner_child, rule refines_reads, assumption)
   apply (rule ite_same)
    apply (rule step_rotates(2), assumption, assumption)
    apply (rule step_reads(2), assumption)
    apply (rule return_triple; assumption)
   apply (rule return_triple; assumption)
  apply (rule step_reads, assumption)
  apply (rule bind_sim)
   apply (rule ite_swap; rule step_rotates; assumption)
  apply (intro steps; assumption)
  done

lemma fix_after_insert_refines:
  assumes "sim N d h0 h S" "even_path path"
  shows "refines (\<lambda>S h. sim N d h0 h S) (rbtree_insert_fixup S path) (value_dict_fix_after_insert h d path)"
proof -
  have "\<exists>h'. value_dict_fix_after_insert h d path = Some h' \<and> sim N d h0 h' S'"
    if "rbtree_insert_fixup S path = Some S'" for S'
    using that assms
  proof (induction S path S' arbitrary: h rule: rbtree_insert_fixup.raw_induct [rotated 1, consumes 1, case_names step])
    case (step fixup S path S')
    have ih: "refines (\<lambda>S h. sim N d h0 h S) (fixup S p) (value_dict_fix_after_insert h d p)"
      if "sim N d h0 h S" "even_path p" for S h p
      using step(1) [of S p] that by (simp add: refines_def)
    note code = value_dict_fix_after_insert.simps [of h d path]
    from step(2) have "refines (\<lambda>S h. sim N d h0 h S) (Some S') (value_dict_fix_after_insert h d path)"
      unfolding code
      apply (rule subst)
      using step(3,4)
      apply -
      apply (rule step_paths(1), assumption)
      apply (rule bind_addr)
       apply (intro ite_same refines_path return_addr even_NULL; assumption?)
      apply (rule ite_same)
       apply (intro steps; assumption)
      apply (rule step_reads, assumption)
      apply (rule ite_same, rule return_sim, assumption)
      apply (rule step_paths(1), assumption)
      apply (rule step_reads, assumption)
      apply (rule bind_addr)
       apply (rule ite_swap; rule refines_reads; assumption)
      apply (rule step_reads, assumption)
      apply (rule ite_same)
       apply (rule insert_rotate_refines; assumption)
      apply (rule step_writes, assumption)+
      apply (rule ih, assumption)
      apply (rule even_path_drop, assumption)
      done
    then show ?case by (simp add: refines_def)
  qed
  then show ?thesis by (auto simp: refines_def)
qed

lemma remove_finish_refines:
  assumes "sim N d h0 h S" "even node" "even parent" "even grandparent" "even sibling"
  shows "refines (\<lambda>S h. sim N d h0 h S) (remove_fixup_finish S node parent grandparent sibling)
    (dict_remove_finish h d node parent grandparent sibling)"
  using assms unfolding remove_fixup_finish_def dict_remove_finish_def
  apply -
  apply (rule step_reads(7), assumption)
  apply (rule step_reads(7), assumption)
  apply (rule bind_sim)
   apply (rule refines_if, blast)
    apply (rule refines_writes, assumption)
   apply (rule return_sim, assumption)
  apply (rule step_writes, assumption)
  apply (rule step_reads, assumption)
  apply (rule ite_same)
   apply (rule step_reads, assumption)
   apply (rule step_writes, assumption)
   apply (rule step_rotates; assumption)
  apply (rule step_reads, assumption)
  apply (rule step_writes, assumption)
  apply (rule step_rotates; assumption)
  done

lemma return_pair:
  "sim N d h0 h S \<Longrightarrow> even a \<Longrightarrow>
   refines (\<lambda>(S, a) (h, a'). sim N d h0 h S \<and> a = a' \<and> even a) (Some (S, a)) (Some (h, a))"
  by (simp add: refines_def)

lemma remove_rotate_refines:
  assumes "sim N d h0 h S" "even node" "even parent" "even grandparent" "even sibling"
  shows "refines (\<lambda>S h. sim N d h0 h S) (remove_fixup_rotate S node parent grandparent sibling)
    (dict_remove_rotate h d node parent grandparent sibling)"
  using assms unfolding remove_fixup_rotate_def dict_remove_rotate_def
  apply -
  apply (rule step_reads, assumption)
  apply (rule bind_same)
   apply (rule ite_same)
    apply (rule step_reads, assumption)
    apply (rule refines_reads, assumption)
   apply (rule return_same)
  apply (rule bind_sim_pair [where P = even])
   apply (rule ite_same)
    apply (rule step_writes, assumption)
    apply (rule step_reads, assumption)
    apply (rule step_writes, assumption)
    apply (rule step_rotates, assumption, assumption)
    apply (rule step_reads, assumption)
    apply (rule return_pair; assumption)
   apply (rule step_reads, assumption)
   apply (rule bind_same)
    apply (rule ite_same)
     apply (rule step_reads, assumption)
     apply (rule refines_reads, assumption)
    apply (rule return_same)
   apply (rule ite_same)
    apply (rule step_writes, assumption)
    apply (rule step_reads, assumption)
    apply (rule step_writes, assumption)
    apply (rule step_rotates, assumption, assumption)
    apply (rule step_reads, assumption)
    apply (rule return_pair; assumption)
   apply (rule return_pair; assumption)
  apply (rule remove_finish_refines; assumption)
  done

text \<open>
  The code of \<open>value.c\<close> finishes at a red parent; that of \<open>rbtree.c\<close> goes round once more and finishes there.
\<close>

lemma make_red_keeps_red:
  assumes "NODE_IS_RED h p = Some True" "NODE_MAKE_RED h q = Some h'"
  shows "NODE_IS_RED h' p = Some True"
proof -
  obtain t where t: "data_get h (Key q) 0 = Some t" "data_set h (Key q) 0 (t OR HAS_REDCOLOR) = Some h'"
    using assms(2) by (auto simp: NODE_MAKE_RED_def bind_eq_Some_conv)
  then obtain x where x: "get_value h (Key q) = Some x" "0 < length x"
    by (auto simp: data_get_def bind_eq_Some_conv peek_def split: if_splits)
  have h': "h' = upd_value h (Key q) (x[0 := Some (t OR HAS_REDCOLOR)])"
    using t(2) data_set [OF x] by simp
  show ?thesis
  proof (cases "p = q")
    case True
    have "get_value h' (Key q) = Some (x[0 := Some (t OR HAS_REDCOLOR)])" using get_upd_same [OF x(1)] h' by simp
    then show ?thesis using True x(2) by (simp add: NODE_IS_RED_def data_get red_bit del: get_value.simps)
  next
    case False
    then have "get_value h' (Key p) = get_value h (Key p)"
      using get_upd_other [OF x(1), of "Key p"] h' by (simp del: get_value.simps upd_value.simps)
    then show ?thesis using assms(1) by (simp add: NODE_IS_RED_def data_get_def del: get_value.simps)
  qed
qed

lemma fix_at_red:
  assumes "path_top path 2 = Some p" "NODE_IS_RED h p = Some True" "p \<noteq> NULL"
  shows "value_dict_fix_after_remove h d (drop 1 path) = NODE_MAKE_BLACK h p"
proof -
  have "path_top (drop 1 path) 1 = Some p" using assms(1) by (simp add: path_top_def peek_def split: if_splits)
  then show ?thesis using assms(2,3) by (subst value_dict_fix_after_remove.simps) (simp add: red_child_def)
qed

lemma bind_info:
  assumes "refines P m m'" "\<And>x y. P x y \<Longrightarrow> m = Some x \<Longrightarrow> m' = Some y \<Longrightarrow> refines Q (f x) (f' y)"
  shows "refines Q (m \<bind> f) (m' \<bind> f')"
proof (cases m)
  case (Some x)
  then obtain y where "m' = Some y" "P x y" using assms(1) by (auto simp: refines_def)
  then show ?thesis using Some assms(2) by simp
qed (simp add: refines_def)

text \<open>A black sibling with black children.\<close>

lemma redden_refines:
  assumes "sim N d h0 h S" "LEFT S parent \<noteq> None" "path_top path 2 = Some parent"
    and ih: "\<And>S h. sim N d h0 h S \<Longrightarrow> refines (\<lambda>S h. sim N d h0 h S) (m S) (value_dict_fix_after_remove h d (drop 1 path))"
  shows "refines (\<lambda>S h. sim N d h0 h S) (do { S \<leftarrow> MAKE_RED S sibling; m S })
    (do { parent_red \<leftarrow> NODE_IS_RED h parent; h \<leftarrow> NODE_MAKE_RED h sibling;
       if parent_red then NODE_MAKE_BLACK h parent else value_dict_fix_after_remove h d (drop 1 path) })"
proof -
  have "nodes S parent \<noteq> None" using assms(2) by (cases "nodes S parent") (auto simp: LEFT_def load_def split: if_splits)
  then obtain n c l r where "cell S parent c l r" using sim_write [OF assms(1)] by blast
  then have "parent \<noteq> NULL" "IS_RED S parent = Some (c = Red)" by (auto simp: cell_read cell_facts)
  then have red: "parent \<noteq> NULL" "NODE_IS_RED h parent = Some (c = Red)"
    using refines_reads(3) [OF assms(1), of parent] by (auto simp: refines_def)
  have "refines (\<lambda>S h. sim N d h0 h S) (do { S \<leftarrow> MAKE_RED S sibling; m S })
      (do { h \<leftarrow> NODE_MAKE_RED h sibling;
       if c = Red then NODE_MAKE_BLACK h parent else value_dict_fix_after_remove h d (drop 1 path) })"
  proof (rule bind_info [OF refines_writes(1) [OF assms(1)]])
    fix S1 h1 assume 1: "sim N d h0 h1 S1" "NODE_MAKE_RED h sibling = Some h1"
    have "value_dict_fix_after_remove h1 d (drop 1 path) = NODE_MAKE_BLACK h1 parent" if "c = Red"
      using make_red_keeps_red [OF _ 1(2), of parent] red that by (intro fix_at_red [OF assms(3)]) simp_all
    then show "refines (\<lambda>S h. sim N d h0 h S) (m S1)
        (if c = Red then NODE_MAKE_BLACK h1 parent else value_dict_fix_after_remove h1 d (drop 1 path))"
      using ih [OF 1(1)] by (auto split: if_splits)
  qed
  then show ?thesis by (simp add: red(2))
qed

lemma remove_parent_refines:
  assumes "sim N d h0 h S" "even_path path" "even node" "even parent" "path_top path 2 = Some parent"
    and ih: "\<And>S h path. sim N d h0 h S \<Longrightarrow> even_path path \<Longrightarrow>
      refines (\<lambda>S h. sim N d h0 h S) (fixup S path) (value_dict_fix_after_remove h d path)"
  shows "refines (\<lambda>S h. sim N d h0 h S)
    (do {
       pl \<leftarrow> LEFT S parent;
       sibling \<leftarrow> (if node = pl then RIGHT S parent else LEFT S parent);
       grandparent \<leftarrow> (if 2 < length path then path_top path 3 else Some NULL);
       sibling_red \<leftarrow> IS_RED S sibling;
       if sibling_red then do {
         S \<leftarrow> (if node = pl then rbtree_rotate_left S grandparent parent
               else rbtree_rotate_right S grandparent parent);
         S \<leftarrow> MAKE_BLACK S sibling;
         S \<leftarrow> MAKE_RED S parent;
         path \<leftarrow> path_set_top path 2 sibling;
         path \<leftarrow> path_set_top path 1 parent;
         path \<leftarrow> path_push path node;
         fixup S path
       }
       else do {
         sl \<leftarrow> LEFT S sibling;
         sl_red \<leftarrow> red_node S sl;
         sr \<leftarrow> RIGHT S sibling;
         sr_red \<leftarrow> (if sl_red then Some True else red_node S sr);
         if sl_red \<or> sr_red then remove_fixup_rotate S node parent grandparent sibling
         else do {
           S \<leftarrow> MAKE_RED S sibling;
           fixup S (drop 1 path)
         }
       }
     })
    (do {
       pl \<leftarrow> get_left h parent;
       sibling \<leftarrow> (if pl = node then get_right h parent else get_left h parent);
       grandparent \<leftarrow> (if 2 < length path then path_top path 3 else Some NULL);
       sibling_red \<leftarrow> NODE_IS_RED h sibling;
       if sibling_red then do {
         h \<leftarrow> (if pl = node then value_dict_rotate_left h d grandparent parent
               else value_dict_rotate_right h d grandparent parent);
         h \<leftarrow> NODE_MAKE_BLACK h sibling;
         h \<leftarrow> NODE_MAKE_RED h parent;
         path \<leftarrow> path_set_top path 2 sibling;
         path \<leftarrow> path_set_top path 1 parent;
         path \<leftarrow> path_push path node;
         value_dict_fix_after_remove h d path
       }
       else do {
         sl \<leftarrow> get_left h sibling;
         sl_red \<leftarrow> red_child h sl;
         sr \<leftarrow> get_right h sibling;
         sr_red \<leftarrow> (if sl_red then Some True else red_child h sr);
         if sl_red \<or> sr_red then dict_remove_rotate h d node parent grandparent sibling
         else do {
           parent_red \<leftarrow> NODE_IS_RED h parent;
           h \<leftarrow> NODE_MAKE_RED h sibling;
           if parent_red then NODE_MAKE_BLACK h parent
           else value_dict_fix_after_remove h d (drop 1 path)
         }
       }
     })"
proof (cases "LEFT S parent")
  case (Some pl)
  then have "LEFT S parent \<noteq> None" by simp
  note redden = redden_refines [OF assms(1) this assms(5) ih]
  show ?thesis
    using assms(1-4)
    apply -
    apply (rule step_reads, assumption)
    apply (rule bind_addr)
     apply (rule ite_swap; rule refines_reads; assumption)
    apply (rule bind_addr)
     apply (intro ite_same refines_path return_addr even_NULL; assumption?)
    apply (rule step_reads, assumption)
    apply (rule ite_same)
     apply (rule bind_sim)
      apply (rule ite_swap; rule step_rotates; assumption)
     apply (rule step_writes, assumption)
     apply (rule step_writes, assumption)
     apply (rule step_paths, assumption, assumption)
     apply (rule step_paths, assumption, assumption)
     apply (rule step_paths, assumption, assumption)
     apply (rule ih; assumption)
    apply (rule step_reads, assumption)
    apply (rule step_reads, assumption)
    apply (rule step_reads, assumption)
    apply (rule bind_same)
     apply (rule ite_same, rule return_same, rule refines_reads, assumption)
    apply (rule ite_same)
     apply (rule remove_rotate_refines; assumption)
    apply (rule redden)
     apply assumption
    apply (rule even_path_drop, assumption)
    done
qed (simp add: refines_None)

lemma fix_after_remove_refines:
  assumes "sim N d h0 h S" "even_path path"
  shows "refines (\<lambda>S h. sim N d h0 h S) (rbtree_remove_fixup S path) (value_dict_fix_after_remove h d path)"
proof -
  have "\<exists>h'. value_dict_fix_after_remove h d path = Some h' \<and> sim N d h0 h' S'"
    if "rbtree_remove_fixup S path = Some S'" for S'
    using that assms
  proof (induction S path S' arbitrary: h rule: rbtree_remove_fixup.raw_induct [rotated 1, consumes 1, case_names step])
    case (step fixup S path S')
    have ih: "refines (\<lambda>S h. sim N d h0 h S) (fixup S p) (value_dict_fix_after_remove h d p)"
      if "sim N d h0 h S" "even_path p" for S h p
      using step(1) [of S p] that by (simp add: refines_def)
    note code = value_dict_fix_after_remove.simps [of h d path]
    from step(2) have "refines (\<lambda>S h. sim N d h0 h S) (Some S') (value_dict_fix_after_remove h d path)"
      unfolding code
      apply (rule subst)
      using step(3,4)
      apply -
      apply (rule step_paths(1), assumption)
      apply (rule step_reads, assumption)
      apply (rule ite_same)
       apply (rule refines_writes, assumption)
      subgoal premises p for node node_red
      proof (cases "length path \<le> 1")
        case True
        then show ?thesis using p(1) by (simp add: return_sim)
      next
        case False
        then have more: "1 < length path" by simp
        show ?thesis unfolding if_not_P [OF False] if_P [OF more]
          apply (rule bind_info, rule refines_path(1), rule p(2))
          subgoal premises q for parent parent'
          proof -
            have eq: "parent' = parent" "even parent" using q(1) unfolding same_even_def by blast+
            show ?thesis
            proof (cases "parent = NULL")
              case True
              then show ?thesis by (simp add: LEFT_def refines_None)
            next
              case False
              show ?thesis unfolding eq(1) if_not_P [OF False]
                by (rule remove_parent_refines [OF p(1,2,3) eq(2) q(2) ih])
            qed
          qed
          done
      qed
      done
    then show ?case by (simp add: refines_def)
  qed
  then show ?thesis by (auto simp: refines_def)
qed

section \<open>Disconnecting a node\<close>

lemma find_successor_refines:
  assumes "sim N d h0 h S" "even node" "even_path path"
  shows "refines (\<lambda>(S, p, a) (h, p', a'). sim N d h0 h S \<and> p = p' \<and> even_path p \<and> a = a' \<and> even a)
    (remove_find_successor S node node_index path) (dict_find_successor h node node_index path)"
  using assms unfolding remove_find_successor_def dict_find_successor_def
  apply -
  apply (rule step_reads, assumption)
  apply (rule step_reads, assumption)
  apply (rule step_reads, assumption)
  apply (rule ite_same)
   apply (rule bind_path, rule leftmost_path_refines, assumption, assumption, assumption)
   apply (rule step_paths(1), assumption)
   apply (rule step_reads, assumption)
   apply (rule step_reads, assumption)
   apply (rule step_writes, assumption, assumption)
   apply (rule step_writes, assumption, assumption)
   apply (rule step_paths(1), assumption)
   apply (rule step_reads, assumption)
   apply (rule bind_sim)
    apply (rule ite_swap; rule refines_writes; assumption)
   apply (rule step_paths, assumption, assumption)
   apply (rule step_paths, assumption, assumption)
   apply (rule refines_return, simp)
  apply (rule ite_same)
   apply (rule step_reads, assumption)
   apply (rule step_reads, assumption)
   apply (rule step_writes, assumption, assumption)
   apply (rule step_writes, assumption, assumption)
   apply (rule step_paths, assumption, assumption)
   apply (rule step_paths, assumption, assumption)
   apply (rule refines_return, simp)
  apply (rule refines_return, simp)
  done

lemma swap_common_refines:
  assumes "sim N d h0 h S" "even node" "even_path path" "even successor"
  shows "refines (\<lambda>S h. sim N d h0 h S)
    (remove_swap_common S node node_index path successor) (dict_swap_common h d node node_index path successor)"
  using assms unfolding remove_swap_common_def dict_swap_common_def
  apply -
  apply (rule step_reads, assumption)
  apply (rule step_writes, assumption, assumption)
  apply (rule step_writes, assumption, rule even_NULL)
  apply (rule bind_sim)
   apply (rule ite_same)
    apply (rule step_paths(2), assumption)
    apply (rule step_reads, assumption)
    apply (rule ite_swap; rule refines_writes; assumption)
   apply (rule refines_writes; assumption)
  apply (rule step_reads(7), assumption)
  apply (rule step_reads(7), assumption)
  apply (rule refines_if, blast)
   apply (rule step_writes, assumption)
   apply (rule refines_writes, assumption)
  apply (rule return_sim, assumption)
  done

lemma unlink_refines:
  assumes "sim N d h0 h S" "even node" "even_path path"
  shows "refines (\<lambda>(S, p) (h, p'). sim N d h0 h S \<and> p = p' \<and> even_path p)
    (remove_unlink S node path) (dict_unlink h d node path)"
  using assms unfolding remove_unlink_def dict_unlink_def
  apply -
  apply (rule step_reads, assumption)
  apply (rule bind_addr)
   apply (rule ite_same; rule refines_reads; assumption)
  apply (rule bind_sim)
   apply (rule ite_same)
    apply (rule step_paths(1), assumption)
    apply (rule step_reads, assumption)
    apply (rule ite_swap; rule refines_writes; assumption)
   apply (rule refines_writes; assumption)
  apply (rule step_paths, assumption, assumption)
  apply (rule refines_return, simp)
  done

text \<open>The part of \<open>rbtree_remove\<close> behind its search.\<close>

definition rb_disconnect :: "RBTREE \<Rightarrow> addr \<Rightarrow> RBTREE_CURSOR \<Rightarrow> RBTREE option" where
  "rb_disconnect S node path = do {
     nr \<leftarrow> RIGHT S node;
     (S, path) \<leftarrow>
       (if nr \<noteq> NULL then do {
          let node_index = length path - 1;
          (S, path, successor) \<leftarrow> remove_find_successor S node node_index path;
          S \<leftarrow> (if successor \<noteq> NULL then remove_swap_common S node node_index path successor else Some S);
          Some (S, path)
        }
        else Some (S, path));
     (S, path) \<leftarrow> remove_unlink S node path;
     black \<leftarrow> IS_BLACK S node;
     if black then rbtree_remove_fixup S path else Some S
   }"

lemma rbtree_remove_disconnect:
  "rbtree_remove S key f = do {
     (cmp, path) \<leftarrow> rbtree_lookup_path S (root S) key f 0 [];
     if length path = 0 \<or> cmp \<noteq> 0 then Some (NULL, S)
     else do { node \<leftarrow> path_top path 1; S \<leftarrow> rb_disconnect S node path; Some (node, S) } }"
  by (simp add: rbtree_remove_def rb_disconnect_def Let_def split_def bind_assoc cong: if_cong)

lemma disconnect_refines:
  assumes "sim N d h0 h S" "even node" "even_path path"
  shows "refines (\<lambda>S h. sim N d h0 h S) (rb_disconnect S node path) (dict_disconnect h d node path)"
  using assms unfolding rb_disconnect_def dict_disconnect_def Let_def
  apply -
  apply (rule step_reads, assumption)
  apply (rule bind_sim_pair [where P = even_path])
   apply (rule ite_same)
    apply (rule bind_sim_triple [where P = even_path and P' = even])
     apply (rule find_successor_refines; assumption)
    apply (rule bind_sim)
     apply (rule ite_same, rule swap_common_refines; assumption?)
     apply (rule return_sim, assumption)
    apply (rule refines_return, simp)
   apply (rule refines_return, simp)
  apply (rule bind_sim_pair [where P = even_path])
   apply (rule unlink_refines; assumption)
  apply (rule step_reads, assumption)
  apply (rule ite_same)
   apply (rule fix_after_remove_refines; assumption)
  apply (rule return_sim, assumption)
  done

end
