(* ===== verification/Value_Dict_Spec.thy ===== *)
theory Value_Dict_Spec
  imports Value_Sim Value_Key
begin

text \<open>
  What the dictionaries of \<open>data/value.c\<close> promise: the search tree of the keys in memory, its search,
  insertion and removal, through the simulation of the algorithms of \<open>data/rbtree.c\<close>.
\<close>

section \<open>A dictionary in memory\<close>

text \<open>The order of the keys: the default one, or the function that was given for it.\<close>

definition uses_cmp :: "byte \<Rightarrow> DICT \<Rightarrow> (byte list \<Rightarrow> byte list \<Rightarrow> int) \<Rightarrow> bool" where
  "uses_cmp t D kc \<longleftrightarrow>
     (if t AND HAS_CUSTOMCMP = 0 then kc = key_cmp
      else \<exists>ord f. d_order D = Some ord \<and> cmp_func ord = Some f \<and> kc = (\<lambda>a b. f a (length a) b (length b)))"

text \<open>The list of the nodes in the order in which they were added.\<close>

definition order_links :: "value_mem \<Rightarrow> DICT_order \<Rightarrow> addr list \<Rightarrow> bool" where
  "order_links h ord os \<longleftrightarrow>
     order_head ord = (if os = [] then NULL else hd os) \<and> order_tail ord = (if os = [] then NULL else last os) \<and>
     (\<forall>i < length os. \<exists>n. load_node h (os ! i) = Some n \<and>
        node_order n = Some (if i = 0 then NULL else os ! (i - 1), if Suc i < length os then os ! Suc i else NULL))"

text \<open>
  The value \<open>v\<close> with the cells \<open>x\<close> and the tag \<open>t\<close> is a dictionary \<open>D\<close> at \<open>d\<close>; its nodes \<open>ns\<close>, in the
  order of their keys \<open>kf\<close>, are the nodes of the tree \<open>S\<close>.
\<close>

definition key_order :: "(byte list \<Rightarrow> byte list \<Rightarrow> int) \<Rightarrow> (addr \<Rightarrow> byte list) \<Rightarrow> RBTREE_CMP_FUNC" where
  "key_order kc kf a b = kc (kf a) (kf b)"

definition dict_tag :: "value_mem \<Rightarrow> vptr \<Rightarrow> byte \<Rightarrow> addr \<Rightarrow> bool" where
  "dict_tag h v t d \<longleftrightarrow> (\<exists>x. get_value h v = Some x \<and> length x = sizeof_VALUE \<and> x ! 0 = Some t \<and>
     t AND TYPE_MASK = VALUE_DICT \<and> t AND IS_MALLOCED \<noteq> 0 \<and> drop 8 x = map Some (le_bytes d))"

definition key_at :: "value_mem \<Rightarrow> addr \<Rightarrow> byte list \<Rightarrow> bool" where
  "key_at h p s \<longleftrightarrow> length s \<le> INT_MAX \<and> (\<exists>n. load_node h p = Some n \<and> string_value h (node_key n) s)"

definition order_state :: "value_mem \<Rightarrow> byte \<Rightarrow> DICT \<Rightarrow> addr list \<Rightarrow> addr list option \<Rightarrow> bool" where
  "order_state h t D ns ord \<longleftrightarrow> (case ord of
       None \<Rightarrow> t AND HAS_ORDERLIST = 0
     | Some xs \<Rightarrow> t AND HAS_ORDERLIST \<noteq> 0 \<and> distinct xs \<and> set xs = set ns \<and>
         (\<exists>l. d_order D = Some l \<and> order_links h l xs))"

definition dict_state :: "(byte list \<Rightarrow> byte list \<Rightarrow> int) \<Rightarrow> (addr \<Rightarrow> byte list) \<Rightarrow> value_mem \<Rightarrow> vptr \<Rightarrow> addr list \<Rightarrow>
    addr list option \<Rightarrow> byte \<Rightarrow> addr \<Rightarrow> DICT \<Rightarrow> RBTREE \<Rightarrow> bool" where
  "dict_state kc kf h v ns ord t d D S \<longleftrightarrow>
     dict_tag h v t d \<and> load_dict h d = Some D \<and> comparator kc \<and> uses_cmp t D kc \<and> d_size D = of_nat (length ns) \<and>
     sim (set ns) d h h S \<and> rbtree_holds (key_order kc kf) S ns \<and> (\<forall>p \<in> set ns. key_at h p (kf p)) \<and>
     order_state h t D ns ord"

definition dict_holds :: "(byte list \<Rightarrow> byte list \<Rightarrow> int) \<Rightarrow> (addr \<Rightarrow> byte list) \<Rightarrow> value_mem \<Rightarrow> vptr \<Rightarrow> addr list \<Rightarrow>
    addr list option \<Rightarrow> bool" where
  "dict_holds kc kf h v ns ord \<longleftrightarrow> (\<exists>t d D S. dict_state kc kf h v ns ord t d D S)"

section \<open>Access\<close>

lemma dict_tag_reads:
  assumes "dict_tag h v t d" "d \<noteq> NULL"
  shows "value_type h v = Some VALUE_DICT" "data_get h v 0 = Some t" "value_dict_payload h v = Some d"
    "has_order h v = Some (t AND HAS_ORDERLIST \<noteq> 0)"
proof -
  obtain x where x: "get_value h v = Some x" "length x = sizeof_VALUE" "x ! 0 = Some t" "t AND TYPE_MASK = VALUE_DICT"
    "t AND IS_MALLOCED \<noteq> 0" "drop 8 x = map Some (le_bytes d)"
    using assms(1) by (auto simp: dict_tag_def)
  have v: "v \<noteq> VNull" using get_value_at [OF x(1)] by simp
  show get: "data_get h v 0 = Some t" using x(1-3) by (simp add: data_get sizeof_VALUE_def)
  show type: "value_type h v = Some VALUE_DICT" using get x(4) v by (simp add: value_type_def)
  show "value_dict_payload h v = Some d"
    using type get v x(5) buffer_get [OF x(1,2,6)]
    by (simp add: value_dict_payload_def block_payload_def value_payload_ex_def)
  show "has_order h v = Some (t AND HAS_ORDERLIST \<noteq> 0)" using get by (simp add: has_order_def)
qed

lemma dict_stateD:
  assumes "dict_state kc kf h v ns ord t d D S"
  shows "value_dict_payload h v = Some d" "dict_root h d = Some (root S)" "has_order h v = Some (ord \<noteq> None)"
    "data_get h v 0 = Some t" "load_dict h d = Some D" "d \<noteq> NULL"
    "comparator kc" "sim (set ns) d h h S" "rbtree_holds (key_order kc kf) S ns" "NULL \<notin> set ns"
proof -
  note A = assms [unfolded dict_state_def]
  show sim: "sim (set ns) d h h S" and "comparator kc" "rbtree_holds (key_order kc kf) S ns" "load_dict h d = Some D"
    using A by blast+
  show d: "d \<noteq> NULL" "NULL \<notin> set ns" using sim by (auto simp: sim_def)
  note tag = dict_tag_reads [OF _ d(1)]
  show "value_dict_payload h v = Some d" "data_get h v 0 = Some t" using A tag by blast+
  show "dict_root h d = Some (root S)" using sim_root_read [OF sim] .
  have "t AND HAS_ORDERLIST \<noteq> 0 \<longleftrightarrow> ord \<noteq> None" using A by (auto simp: order_state_def split: option.splits)
  moreover have "has_order h v = Some (t AND HAS_ORDERLIST \<noteq> 0)" using A tag(4) by blast
  ultimately show "has_order h v = Some (ord \<noteq> None)" by simp
qed

lemma dict_cmp_node:
  assumes "dict_state kc kf h v ns ord t d D S" "p \<in> set ns" "key_string key = s" "unat len = length s"
  shows "cmp_with_node h v d key len p = Some (kc s (kf p))"
proof -
  note A = assms(1) [unfolded dict_state_def] and get = dict_stateD [OF assms(1)]
  obtain n where n: "load_node h p = Some n" "string_value h (node_key n) (kf p)" "length (kf p) \<le> INT_MAX"
    using A assms(2) by (auto simp: key_at_def)
  have "get_value h (Key p) = Some (node_key n)"
    using n(1) by (auto simp: load_node_def split: option.splits block.splits)
  note reads = string_reads [OF this n(2)]
  obtain q off where q: "value_string h (Key p) = Some (Some (q, off))" "payload_read h q off (length (kf p)) = Some (kf p)"
    using reads(3) by blast
  have len: "unat (of_nat (length (kf p)) :: size_t) = length (kf p)" using n(3) by (simp add: INT_MAX_def)
  have "value_dict_cmp h v d s len (kf p) (of_nat (length (kf p))) = Some (kc s (kf p))"
  proof (cases "t AND HAS_CUSTOMCMP = 0")
    case True
    then show ?thesis using A get(4) assms(4) len
      by (simp add: value_dict_cmp_def uses_cmp_def default_cmp_lex key_cmp_lex)
  next
    case False
    then show ?thesis using A get(4,5) assms(4) len by (auto simp: value_dict_cmp_def uses_cmp_def)
  qed
  then show ?thesis using q reads(1) [OF n(3)] len assms(3) by (simp add: cmp_with_node_def)
qed

section \<open>Search\<close>

text \<open>For the search, \<open>NULL\<close> stands for the key of the caller.\<close>

lemma key_order_search: "p \<noteq> NULL \<Longrightarrow> key_order kc (kf(NULL := s)) NULL p = kc s (kf p)"
  by (simp add: key_order_def)

lemma comparator_key_order: "comparator kc \<Longrightarrow> comparator (key_order kc kf)"
  using comparator.comparator_key by (simp add: key_order_def [abs_def])

lemma rbtree_holds_cong:
  assumes "rbtree_holds cmp S xs" "\<And>a b. a \<in> set xs \<Longrightarrow> b \<in> set xs \<Longrightarrow> cmp a b = cmp' a b"
  shows "rbtree_holds cmp' S xs"
proof -
  have "ordered cmp xs \<Longrightarrow> ordered cmp' xs"
    unfolding ordered_def by (rule sorted_wrt_mono_rel [rotated], assumption) (simp add: assms(2) [symmetric])
  then show ?thesis using assms(1) by (auto simp: rbtree_holds_def)
qed

lemma search_reads:
  assumes "dict_state kc kf h v ns ord t d D S" "p \<in> set ns" "cell S p c l r"
  shows "get_left h p = Some l" "get_right h p = Some r"
  using refines_reads(1,2) [OF dict_stateD(8) [OF assms(1)], of p] assms(3)
  by (auto simp: refines_def same_even_def cell_read)

lemma dict_search_path:
  assumes "dict_state kc kf h v ns ord t d D S" "key_string key = s" "unat len = length s"
    and "holds S u" "set (inorder u) \<subseteq> set ns" "length ctx + height u \<le> path_capacity"
    and "find_path (\<lambda>p. kc s (kf p)) u ctx = (ctx', w)" "k = (\<lambda>p. kc s (kf p))"
  shows "dict_search h v d key len (ptr u) (last_cmp k ctx) (map frame_label ctx) =
    Some (if w = Leaf then (NULL, last_cmp k ctx', map frame_label ctx') else (ptr w, 0, path_of ctx' (ptr w)))"
  using assms(4-)
proof (induction "\<lambda>p. kc s (kf p)" u ctx rule: find_path.induct)
  case (1 ctx)
  then show ?case by (subst dict_search.simps) simp
next
  case (2 c l a r ctx)
  have cell: "cell S a c (ptr l) (ptr r)" "holds S l" "holds S r" using 2(3) by simp_all
  have a: "a \<in> set ns" "a \<noteq> NULL" using 2(4) dict_stateD(10) [OF assms(1)] by auto
  note cmp = dict_cmp_node [OF assms(1) a(1) assms(2,3)]
  note reads = search_reads [OF assms(1) a(1) cell(1)]
  have len: "length ctx < path_capacity" using 2(5) by simp
  have len': "length (LFrame c a r # ctx) + height l \<le> path_capacity"
    "length (RFrame c a l # ctx) + height r \<le> path_capacity" using 2(5) by simp_all
  have sub: "set (inorder l) \<subseteq> set ns" "set (inorder r) \<subseteq> set ns" using 2(4) by simp_all
  consider "kc s (kf a) = 0" | "kc s (kf a) < 0" | "0 < kc s (kf a)" by linarith
  then show ?case
  proof cases
    case 1
    with 2(6,7) cmp len a show ?thesis
      by (subst dict_search.simps) (auto simp: path_push_def path_of_def)
  next
    case less: 2
    then have "kc s (kf a) \<noteq> 0" by simp
    note ih = 2(1) [OF this less cell(2) sub(1) len'(1) _ 2(7)]
    show ?thesis using less 2(6) cmp len a reads ih 2(7)
      by (subst dict_search.simps) (simp add: path_push_def last_cmp_def)
  next
    case 3
    then have "kc s (kf a) \<noteq> 0" "\<not> kc s (kf a) < 0" by simp_all
    note ih = 2(2) [OF this cell(3) sub(2) len'(2) _ 2(7)]
    show ?thesis using 3 2(6) cmp len a reads ih 2(7)
      by (subst dict_search.simps) (simp add: path_push_def last_cmp_def)
  qed
qed

lemma dict_get_path:
  assumes "dict_state kc kf h v ns ord t d D S" "key_string key = s" "unat len = length s"
    and "holds S u" "set (inorder u) \<subseteq> set ns" "find_path (\<lambda>p. kc s (kf p)) u ctx = (ctx', w)"
  shows "dict_get_loop h v d key len (ptr u) = Some (if w = Leaf then VNull else Val (ptr w))"
  using assms(4-)
proof (induction "\<lambda>p. kc s (kf p)" u ctx rule: find_path.induct)
  case (1 ctx)
  then show ?case by (subst dict_get_loop.simps) simp
next
  case (2 c l a r ctx)
  have cell: "cell S a c (ptr l) (ptr r)" "holds S l" "holds S r" using 2(3) by simp_all
  have a: "a \<in> set ns" "a \<noteq> NULL" using 2(4) dict_stateD(10) [OF assms(1)] by auto
  note cmp = dict_cmp_node [OF assms(1) a(1) assms(2,3)]
  note reads = search_reads [OF assms(1) a(1) cell(1)]
  have sub: "set (inorder l) \<subseteq> set ns" "set (inorder r) \<subseteq> set ns" using 2(4) by simp_all
  consider "kc s (kf a) = 0" | "kc s (kf a) < 0" | "0 < kc s (kf a)" by linarith
  then show ?case
  proof cases
    case 1
    with 2(5) cmp a show ?thesis by (subst dict_get_loop.simps) auto
  next
    case less: 2
    then have "kc s (kf a) \<noteq> 0" by simp
    note ih = 2(1) [OF this less cell(2) sub(1)]
    show ?thesis using less 2(5) cmp a reads ih by (subst dict_get_loop.simps) simp
  next
    case 3
    then have "kc s (kf a) \<noteq> 0" "\<not> kc s (kf a) < 0" by simp_all
    note ih = 2(2) [OF this cell(3) sub(2)]
    show ?thesis using 3 2(5) cmp a reads ih by (subst dict_get_loop.simps) simp
  qed
qed


lemma dict_state_cong:
  assumes "dict_state kc kf h v ns ord t d D S" "\<forall>p \<in> set ns. kf' p = kf p"
  shows "dict_state kc kf' h v ns ord t d D S"
proof -
  note A = assms(1) [unfolded dict_state_def]
  have "rbtree_holds (key_order kc kf) S ns" using A by blast
  then have "rbtree_holds (key_order kc kf') S ns"
    using assms(2) by (elim rbtree_holds_cong) (simp add: key_order_def)
  then show ?thesis using A assms(2) by (simp add: dict_state_def)
qed

text \<open>Where a key is, or where it belongs.\<close>

definition found_at :: "(addr \<Rightarrow> int) \<Rightarrow> RBTREE \<Rightarrow> addr list \<Rightarrow> addr rbt \<Rightarrow> addr frame list \<Rightarrow> addr rbt \<Rightarrow> bool" where
  "found_at k S ns T ctx w \<longleftrightarrow> rep (nodes S) S T \<and> is_rb T \<and> inorder T = ns \<and> find_path k T [] = (ctx, w) \<and>
     plug ctx w = T \<and> ctx_dir k ctx \<and> descent_ok k ctx \<and> length ctx + height w \<le> 126 \<and>
     (if w = Leaf then \<forall>p \<in> set ns. k p \<noteq> 0 else ptr w \<in> set ns \<and> k (ptr w) = 0)"

lemma dict_find:
  assumes "dict_state kc kf h v ns ord t d D S" "kf q = s"
  shows "\<exists>T ctx w. found_at (\<lambda>p. kc s (kf p)) S ns T ctx w"
proof -
  note get = dict_stateD [OF assms(1)]
  have k: "key_order kc kf q = (\<lambda>p. kc s (kf p))" using assms(2) by (simp add: key_order_def fun_eq_iff)
  note cmp = comparator_key_order [OF get(7), of kf]
  obtain T where T: "rep (nodes S) S T" "is_rb T" "inorder T = ns" "ordered (key_order kc kf) ns"
    using get(9) by (auto simp: rbtree_holds_def)
  obtain ctx w where L: "find_path (key_order kc kf q) T [] = (ctx, w)" "plug ctx w = T" "ctx_dir (key_order kc kf q) ctx"
    "descent_ok (key_order kc kf q) ctx" "w \<noteq> Leaf \<Longrightarrow> key_order kc kf q (ptr w) = 0" "length ctx + height w \<le> 126"
    using lookup_root [OF cmp T(1,2), of q] T(3,4) by metis
  have "ptr w \<in> set ns" if "w \<noteq> Leaf" using that L(2) T(3) by (cases w) (auto simp: inorder_plug)
  moreover have "\<forall>p \<in> set ns. key_order kc kf q p \<noteq> 0" if "w = Leaf"
  proof -
    have "ns = lefts ctx @ rights ctx" using L(2) T(3) that by (auto simp: inorder_plug)
    then show ?thesis using L(4) by (force simp: descent_ok_def)
  qed
  ultimately have "found_at (\<lambda>p. kc s (kf p)) S ns T ctx w" using T(1-3) L unfolding found_at_def k by simp
  then show ?thesis by blast
qed

lemma dict_find_code:
  assumes "dict_state kc kf h v ns ord t d D S" "key_string key = s" "unat len = length s"
    and "found_at (\<lambda>p. kc s (kf p)) S ns T ctx w"
  shows "dict_search h v d key len (root S) 0 [] =
      Some (if w = Leaf then (NULL, last_cmp (\<lambda>p. kc s (kf p)) ctx, map frame_label ctx) else (ptr w, 0, path_of ctx (ptr w)))"
    and "dict_get_loop h v d key len (root S) = Some (if w = Leaf then VNull else Val (ptr w))"
proof -
  note F = assms(4) [unfolded found_at_def]
  have "height T \<le> path_capacity" using rep_height [of _ S T] F by (fastforce simp: path_capacity_def)
  moreover have "holds S T" "ptr T = root S" "set (inorder T) \<subseteq> set ns" using F by (auto simp: rep_def)
  ultimately show "dict_search h v d key len (root S) 0 [] =
      Some (if w = Leaf then (NULL, last_cmp (\<lambda>p. kc s (kf p)) ctx, map frame_label ctx) else (ptr w, 0, path_of ctx (ptr w)))"
    "dict_get_loop h v d key len (root S) = Some (if w = Leaf then VNull else Val (ptr w))"
    using dict_search_path [OF assms(1-3), of T "[]" ctx w "\<lambda>p. kc s (kf p)"] dict_get_path [OF assms(1-3), of T "[]" ctx w] F
    by (simp_all add: last_cmp_def)
qed

text \<open>The value of a key: that of the only node with it.\<close>

definition value_of :: "(byte list \<Rightarrow> byte list \<Rightarrow> int) \<Rightarrow> (addr \<Rightarrow> byte list) \<Rightarrow> addr list \<Rightarrow> byte list \<Rightarrow> vptr" where
  "value_of kc kf ns s = (case find (\<lambda>p. kc s (kf p) = 0) ns of None \<Rightarrow> VNull | Some p \<Rightarrow> Val p)"

lemma key_unique:
  assumes "dict_state kc kf h v ns ord t d D S" "p \<in> set ns" "q \<in> set ns" "kc s (kf p) = 0" "kc s (kf q) = 0"
  shows "p = q"
proof -
  note get = dict_stateD [OF assms(1)]
  note c = comparator.cmp_trans [OF get(7)] comparator.cmp_eq_swap [OF get(7)] comparator.cmp_refl [OF get(7)]
  have "kc (kf p) s = 0" "kc (kf q) s = 0" using assms(4,5) c(2) by blast+
  then have "kc (kf p) (kf q) \<le> 0" "kc (kf q) (kf p) \<le> 0" using assms(4,5) c(1) [of _ s] by simp_all
  then have eq: "\<not> key_order kc kf p q < 0" "\<not> key_order kc kf q p < 0"
    using comparator.cmp_ge_swap [OF get(7)] by (simp_all add: key_order_def not_less)
  have "sorted_wrt (\<lambda>a b. key_order kc kf a b < 0) ns" using get(9) by (auto simp: rbtree_holds_def ordered_def)
  then show ?thesis using assms(2,3) eq
    by (induction ns) auto
qed

lemma found_value:
  assumes "dict_state kc kf h v ns ord t d D S" "found_at (\<lambda>p. kc s (kf p)) S ns T ctx w"
  shows "value_of kc kf ns s = (if w = Leaf then VNull else Val (ptr w))"
proof (cases "w = Leaf")
  case True
  then have "find (\<lambda>p. kc s (kf p) = 0) ns = None" using assms(2) by (simp add: found_at_def find_None_iff)
  then show ?thesis using True by (simp add: value_of_def)
next
  case False
  then have w: "ptr w \<in> set ns" "kc s (kf (ptr w)) = 0" using assms(2) by (simp_all add: found_at_def)
  then obtain p where p: "find (\<lambda>p. kc s (kf p) = 0) ns = Some p"
    by (cases "find (\<lambda>p. kc s (kf p) = 0) ns") (auto simp: find_None_iff)
  then have "p \<in> set ns" "kc s (kf p) = 0" by (auto simp: find_Some_iff)
  then have "p = ptr w" using key_unique [OF assms(1) _ w(1) _ w(2)] by blast
  then show ?thesis using p False by (simp add: value_of_def)
qed

lemma value_of_cong: "\<forall>p \<in> set ns. kf' p = kf p \<Longrightarrow> value_of kc kf' ns s = value_of kc kf ns s"
proof -
  assume "\<forall>p \<in> set ns. kf' p = kf p"
  then have "find (\<lambda>p. kc s (kf' p) = 0) ns = find (\<lambda>p. kc s (kf p) = 0) ns" by (intro find_cong) simp_all
  then show ?thesis by (simp add: value_of_def)
qed

lemma dict_get:
  assumes "dict_state kc kf h v ns ord t d D S" "key_string key = s" "unat len = length s"
  shows "value_dict_get_n h v key len = Some (value_of kc kf ns s)"
proof -
  have "NULL \<notin> set ns" by (rule dict_stateD(10) [OF assms(1)])
  then have same: "\<forall>p \<in> set ns. (kf(NULL := s)) p = kf p" by auto
  note st = dict_state_cong [OF assms(1) this]
  obtain T ctx w where F: "found_at (\<lambda>p. kc s ((kf(NULL := s)) p)) S ns T ctx w" using dict_find [OF st, of NULL s] by auto
  show ?thesis
    using dict_find_code(2) [OF st assms(2,3) F] dict_stateD(1,2) [OF assms(1)] found_value [OF st F] value_of_cong [OF same]
    by (simp add: value_dict_get_n_def)
qed

end
