(* ===== verification/Value_Dict_Add.thy ===== *)
theory Value_Dict_Add
  imports Value_Dict_Spec
begin

text \<open>
  Adding to a dictionary of \<open>data/value.c\<close>: the new node and its key, the list of the order, and the insertion
  into the tree.
\<close>

section \<open>The tree in one memory\<close>

lemma paint_fix: "tagged x \<Longrightarrow> paint c x = x \<longleftrightarrow> c = key_color x"
  by (metis paint_simps(3,4))

lemma node_self: "n\<lparr>node_key := k, node_left := l, node_right := r\<rparr> = n \<longleftrightarrow> node_key n = k \<and> node_left n = l \<and> node_right n = r"
  by (cases n) auto

lemma dict_self: "D\<lparr>d_root := p\<rparr> = D \<longleftrightarrow> d_root D = p"
  by (cases D) auto

lemma sim_refl:
  "sim N d h h S \<longleftrightarrow> dom (nodes S) = N \<and> NULL \<notin> N \<and> d \<noteq> NULL \<and> d \<notin> N \<and> even (root S) \<and>
     (\<forall>p \<in> N. \<exists>n. even p \<and> even (node_left n) \<and> even (node_right n) \<and> h p = Some (Node_Block n) \<and> tagged (node_key n) \<and>
        nodes S p = Some (mknode (key_color (node_key n)) (node_left n) (node_right n))) \<and>
     (\<exists>D. h d = Some (Dict_Block D) \<and> d_root D = root S)"
proof -
  have node: "(\<exists>n c l r. even p \<and> even l \<and> even r \<and> h p = Some (Node_Block n) \<and> tagged (node_key n) \<and>
        nodes S p = Some (mknode c l r) \<and>
        h p = Some (Node_Block (n\<lparr>node_key := paint c (node_key n), node_left := l, node_right := r\<rparr>))) \<longleftrightarrow>
      (\<exists>n. even p \<and> even (node_left n) \<and> even (node_right n) \<and> h p = Some (Node_Block n) \<and> tagged (node_key n) \<and>
        nodes S p = Some (mknode (key_color (node_key n)) (node_left n) (node_right n)))" (is "?A \<longleftrightarrow> ?B") for p
  proof
    assume ?A
    then obtain n c l r where n: "even p" "even l" "even r" "h p = Some (Node_Block n)" "tagged (node_key n)"
      "nodes S p = Some (mknode c l r)" "n\<lparr>node_key := paint c (node_key n), node_left := l, node_right := r\<rparr> = n"
      by auto
    then have "node_key n = paint c (node_key n)" "node_left n = l" "node_right n = r" unfolding node_self by blast+
    then show ?B using n paint_fix [OF n(5), of c] by auto
  next
    assume ?B
    then obtain n where n: "even p" "even (node_left n)" "even (node_right n)" "h p = Some (Node_Block n)" "tagged (node_key n)"
      "nodes S p = Some (mknode (key_color (node_key n)) (node_left n) (node_right n))" by blast
    have "n\<lparr>node_key := paint (key_color (node_key n)) (node_key n), node_left := node_left n, node_right := node_right n\<rparr> = n"
      unfolding node_self using n(5) by simp
    then show ?A using n
      by (intro exI [of _ n] exI [of _ "key_color (node_key n)"] exI [of _ "node_left n"] exI [of _ "node_right n"]) simp
  qed
  have dict: "(\<exists>D. h d = Some (Dict_Block D) \<and> h d = Some (Dict_Block (D\<lparr>d_root := root S\<rparr>))) \<longleftrightarrow>
      (\<exists>D. h d = Some (Dict_Block D) \<and> d_root D = root S)"
    by (metis block.inject(5) dict_self option.inject)
  show ?thesis unfolding sim_def node dict by simp
qed

lemma sim_self:
  assumes "sim N d h0 h S"
  shows "sim N d h h S"
  unfolding sim_refl
proof (intro conjI ballI)
  note S = assms [unfolded sim_def]
  show "dom (nodes S) = N" "NULL \<notin> N" "d \<noteq> NULL" "d \<notin> N" "even (root S)" using S by blast+
  show "\<exists>D. h d = Some (Dict_Block D) \<and> d_root D = root S" using S by auto
  fix p assume "p \<in> N"
  then obtain n c l r where n: "even p" "even l" "even r" "tagged (node_key n)" "nodes S p = Some (mknode c l r)"
    "h p = Some (Node_Block (n\<lparr>node_key := paint c (node_key n), node_left := l, node_right := r\<rparr>))"
    using S by blast
  let ?m = "n\<lparr>node_key := paint c (node_key n), node_left := l, node_right := r\<rparr>"
  show "\<exists>n. even p \<and> even (node_left n) \<and> even (node_right n) \<and> h p = Some (Node_Block n) \<and> tagged (node_key n) \<and>
      nodes S p = Some (mknode (key_color (node_key n)) (node_left n) (node_right n))"
    using n by (intro exI [of _ ?m]) simp
qed

section \<open>What the algorithms on the tree leave alone\<close>

lemma type_bits:
  fixes t :: byte
  shows "(t OR HAS_REDCOLOR) AND TYPE_MASK = t AND TYPE_MASK" "(t AND NOT HAS_REDCOLOR) AND TYPE_MASK = t AND TYPE_MASK"
    "(t OR HAS_REDCOLOR) AND IS_MALLOCED = t AND IS_MALLOCED" "(t AND NOT HAS_REDCOLOR) AND IS_MALLOCED = t AND IS_MALLOCED"
  by (simp_all add: byte_eq_iff value_flags bit_simps)

lemma drop_paint: "0 < n \<Longrightarrow> drop n (paint c x) = drop n x"
  by (simp add: paint_def)

lemma string_paint: "string_value h x s \<Longrightarrow> string_value h (paint c x) s"
proof -
  assume "string_value h x s"
  then obtain t where t: "length x = sizeof_VALUE" "x ! 0 = Some t" "t AND TYPE_MASK = VALUE_STRING"
    "if t AND IS_MALLOCED = 0 then \<exists>ys. drop 1 x = map Some (string_bytes s) @ ys
      else \<exists>p. drop 8 x = map Some (le_bytes p) \<and> p \<noteq> NULL \<and> h p = Some (Raw (map Some (string_bytes s)))"
    by (auto simp: string_value_def)
  define t' where "t' = (if c = Red then t OR HAS_REDCOLOR else t AND NOT HAS_REDCOLOR)"
  have "paint c x ! 0 = Some t'" "length (paint c x) = sizeof_VALUE"
    using t(1,2) by (auto simp: paint_def t'_def sizeof_VALUE_def)
  moreover have "t' AND TYPE_MASK = VALUE_STRING" "t' AND IS_MALLOCED = t AND IS_MALLOCED"
    using t(3) by (simp_all add: t'_def type_bits)
  ultimately show ?thesis using t(4) unfolding string_value_def
    by (intro conjI exI [of _ t']) (auto simp: drop_paint split: if_splits)
qed

lemma string_tagged: "string_value h x s \<Longrightarrow> tagged x"
  by (auto simp: string_value_def tagged_def)

lemma sim_same:
  assumes "sim N d h0 h S"
  shows "get_value h0 w \<noteq> None \<Longrightarrow> (\<And>p. p \<in> N \<Longrightarrow> w \<noteq> Key p) \<Longrightarrow> get_value h w = get_value h0 w"
    and "p \<in> N \<Longrightarrow> load_node h0 p = Some n \<Longrightarrow> \<exists>c l r. load_node h p = Some (n\<lparr>node_key := paint c (node_key n), node_left := l, node_right := r\<rparr>)"
    and "h0 p = Some (Raw c) \<Longrightarrow> h p = Some (Raw c)"
    and "load_dict h0 d = Some D \<Longrightarrow> load_dict h d = Some (D\<lparr>d_root := root S\<rparr>)"
    and "p \<notin> N \<Longrightarrow> p \<noteq> d \<Longrightarrow> h p = h0 p"
proof -
  note S = assms [unfolded sim_def]
  have at: "\<exists>m c l r. h0 p = Some (Node_Block m) \<and> p \<noteq> NULL \<and>
      h p = Some (Node_Block (m\<lparr>node_key := paint c (node_key m), node_left := l, node_right := r\<rparr>))" if "p \<in> N" for p
    using S that by blast
  show other: "p \<notin> N \<Longrightarrow> p \<noteq> d \<Longrightarrow> h p = h0 p" for p using S by blast
  show node: "p \<in> N \<Longrightarrow> load_node h0 p = Some n \<Longrightarrow> \<exists>c l r. load_node h p = Some (n\<lparr>node_key := paint c (node_key n), node_left := l, node_right := r\<rparr>)"
    for p n
  proof -
    assume "p \<in> N" and n: "load_node h0 p = Some n"
    then obtain m c l r where "h0 p = Some (Node_Block m)" "p \<noteq> NULL"
      "h p = Some (Node_Block (m\<lparr>node_key := paint c (node_key m), node_left := l, node_right := r\<rparr>))"
      using S by blast
    then show ?thesis using n by (auto simp: load_node_def load_def)
  qed
  show raw: "h0 p = Some (Raw c) \<Longrightarrow> h p = Some (Raw c)" for p c
  proof -
    assume p: "h0 p = Some (Raw c)"
    have "p \<notin> N"
    proof
      assume "p \<in> N"
      then obtain n where "h0 p = Some (Node_Block n)" using S by blast
      then show False using p by simp
    qed
    moreover obtain D where "h0 d = Some (Dict_Block D)" using S by blast
    then have "p \<noteq> d" using p by auto
    ultimately show ?thesis using other p by simp
  qed
  obtain D' where D': "h0 d = Some (Dict_Block D')" "h d = Some (Dict_Block (D'\<lparr>d_root := root S\<rparr>))" "d \<noteq> NULL" using S by blast
  then have "load_dict h0 d = Some D'" "load_dict h d = Some (D'\<lparr>d_root := root S\<rparr>)" by (simp_all add: load_dict_def load_def)
  then show "load_dict h0 d = Some D \<Longrightarrow> load_dict h d = Some (D\<lparr>d_root := root S\<rparr>)" by simp
  assume w: "get_value h0 w \<noteq> None" "\<And>p. p \<in> N \<Longrightarrow> w \<noteq> Key p"
  show "get_value h w = get_value h0 w"
  proof (cases "vaddr w \<in> N")
    case True
    obtain m c l r where m: "h0 (vaddr w) = Some (Node_Block m)" "vaddr w \<noteq> NULL"
      "h (vaddr w) = Some (Node_Block (m\<lparr>node_key := paint c (node_key m), node_left := l, node_right := r\<rparr>))"
      using at [OF True] by (elim exE conjE) (rule that)
    have "w \<noteq> Key (vaddr w)" using w(2) [OF True] .
    then show ?thesis using w(1) m by (cases w) (simp_all add: load_def)
  next
    case False
    have "vaddr w \<noteq> d"
    proof
      assume "vaddr w = d"
      then obtain D where "h0 (vaddr w) = Some (Dict_Block D)" using S by blast
      then show False using w(1) by (cases w) (simp_all add: load_def split: if_splits)
    qed
    then show ?thesis using other [OF False] by (intro get_value_cong) simp
  qed
qed


section \<open>The parts of a dictionary beside its tree\<close>

definition dict_rest :: "(byte list \<Rightarrow> byte list \<Rightarrow> int) \<Rightarrow> (addr \<Rightarrow> byte list) \<Rightarrow> value_mem \<Rightarrow> vptr \<Rightarrow> addr list \<Rightarrow>
    addr list option \<Rightarrow> byte \<Rightarrow> addr \<Rightarrow> DICT \<Rightarrow> bool" where
  "dict_rest kc kf h v ns ord t d D \<longleftrightarrow> dict_tag h v t d \<and> load_dict h d = Some D \<and> uses_cmp t D kc \<and>
     (\<forall>p \<in> set ns. key_at h p (kf p)) \<and> order_state h t D ns ord"

lemma dict_state_rest:
  "dict_state kc kf h v ns ord t d D S \<longleftrightarrow> dict_rest kc kf h v ns ord t d D \<and> comparator kc \<and> d_size D = of_nat (length ns) \<and>
     sim (set ns) d h h S \<and> rbtree_holds (key_order kc kf) S ns"
  by (auto simp: dict_state_def dict_rest_def)

lemma dict_fields [simp]:
  "uses_cmp t (D\<lparr>d_root := r\<rparr>) kc = uses_cmp t D kc" "uses_cmp t (D\<lparr>d_size := n\<rparr>) kc = uses_cmp t D kc"
  "order_state h t (D\<lparr>d_root := r\<rparr>) ns ord = order_state h t D ns ord"
  "order_state h t (D\<lparr>d_size := n\<rparr>) ns ord = order_state h t D ns ord"
  by (simp_all add: uses_cmp_def order_state_def split: option.split)

lemma order_links_cong:
  assumes "order_links h l xs" "\<And>p n. p \<in> set xs \<Longrightarrow> load_node h p = Some n \<Longrightarrow> \<exists>n'. load_node h' p = Some n' \<and> node_order n' = node_order n"
  shows "order_links h' l xs"
  unfolding order_links_def
proof (intro conjI allI impI)
  show "order_head l = (if xs = [] then NULL else hd xs)" "order_tail l = (if xs = [] then NULL else last xs)"
    using assms(1) by (simp_all add: order_links_def)
  fix i assume i: "i < length xs"
  then obtain n where n: "load_node h (xs ! i) = Some n"
    "node_order n = Some (if i = 0 then NULL else xs ! (i - 1), if Suc i < length xs then xs ! Suc i else NULL)"
    using assms(1) by (auto simp: order_links_def)
  then show "\<exists>n. load_node h' (xs ! i) = Some n \<and>
      node_order n = Some (if i = 0 then NULL else xs ! (i - 1), if Suc i < length xs then xs ! Suc i else NULL)"
    using assms(2) [OF nth_mem [OF i] n(1)] by auto
qed

text \<open>A key is no dictionary.\<close>

lemma key_not_dict:
  assumes "dict_tag h v t d" "key_at h p s"
  shows "v \<noteq> Key p"
proof
  assume v: "v = Key p"
  obtain n where n: "load_node h p = Some n" "string_value h (node_key n) s" using assms(2) by (auto simp: key_at_def)
  then have "get_value h v = Some (node_key n)" using v by (auto simp: load_node_def split: option.splits block.splits)
  then show False using assms(1) n(2) by (auto simp: dict_tag_def string_value_def value_types)
qed

lemma dict_rest_sim:
  assumes "dict_rest kc kf h0 v ns ord t d D" "sim (set ns) d h0 h S"
  shows "dict_rest kc kf h v ns ord t d (D\<lparr>d_root := root S\<rparr>)"
proof -
  note R = assms(1) [unfolded dict_rest_def] and same = sim_same [OF assms(2)]
  have tag: "dict_tag h0 v t d" using R by blast
  then have "get_value h0 v \<noteq> None" by (auto simp: dict_tag_def)
  then have "get_value h v = get_value h0 v" using same(1) key_not_dict [OF tag] R by metis
  then have "dict_tag h v t d" using tag by (simp add: dict_tag_def)
  moreover have "key_at h p (kf p)" if p: "p \<in> set ns" for p
  proof -
    obtain n where n: "load_node h0 p = Some n" "string_value h0 (node_key n) (kf p)" "length (kf p) \<le> INT_MAX"
      using R p by (auto simp: key_at_def)
    have "string_value h (node_key n) (kf p)"
      using n(2) same(3) by (auto simp: string_value_def split: if_splits)
    then show ?thesis using same(2) [OF p n(1)] n(3) string_paint by (auto simp: key_at_def)
  qed
  moreover have "order_state h t D ns ord"
  proof (cases ord)
    case (Some xs)
    then show ?thesis using R same(2) by (auto simp: order_state_def elim!: order_links_cong) force
  qed (use R in \<open>simp add: order_state_def\<close>)
  moreover have "load_dict h d = Some (D\<lparr>d_root := root S\<rparr>)" using R same(4) by blast
  ultimately show ?thesis using R unfolding dict_rest_def dict_fields by blast
qed

text \<open>A memory with more blocks.\<close>

lemma le_value: "h \<subseteq>\<^sub>m h' \<Longrightarrow> get_value h w = Some x \<Longrightarrow> get_value h' w = Some x"
  using get_value_cong [of h' w h] get_value_at [of h w x] by (auto simp: map_le_def dom_def)

lemma le_node: "h \<subseteq>\<^sub>m h' \<Longrightarrow> load_node h p = Some n \<Longrightarrow> load_node h' p = Some n"
  by (force simp: map_le_def load_node_def load_def split: option.splits if_splits)

lemma le_dict: "h \<subseteq>\<^sub>m h' \<Longrightarrow> load_dict h p = Some n \<Longrightarrow> load_dict h' p = Some n"
  by (force simp: map_le_def load_dict_def load_def split: option.splits if_splits)

lemma le_string: "h \<subseteq>\<^sub>m h' \<Longrightarrow> string_value h x s \<Longrightarrow> string_value h' x s"
proof -
  assume le: "h \<subseteq>\<^sub>m h'" and s: "string_value h x s"
  have at: "h p = Some y \<Longrightarrow> h' p = Some y" for p y using le by (force simp: map_le_def)
  obtain t where t: "length x = sizeof_VALUE" "x ! 0 = Some t" "t AND TYPE_MASK = VALUE_STRING"
    "if t AND IS_MALLOCED = 0 then \<exists>ys. drop 1 x = map Some (string_bytes s) @ ys
      else \<exists>p. drop 8 x = map Some (le_bytes p) \<and> p \<noteq> NULL \<and> h p = Some (Raw (map Some (string_bytes s)))"
    using s unfolding string_value_def by blast
  then have "if t AND IS_MALLOCED = 0 then \<exists>ys. drop 1 x = map Some (string_bytes s) @ ys
      else \<exists>p. drop 8 x = map Some (le_bytes p) \<and> p \<noteq> NULL \<and> h' p = Some (Raw (map Some (string_bytes s)))"
    using at by (auto split: if_splits)
  then show ?thesis unfolding string_value_def using t(1-3) by blast
qed

lemma dict_rest_le:
  assumes "dict_rest kc kf h v ns ord t d D" "h \<subseteq>\<^sub>m h'"
  shows "dict_rest kc kf h' v ns ord t d D"
proof -
  note R = assms(1) [unfolded dict_rest_def] and le = le_value [OF assms(2)] le_node [OF assms(2)] le_dict [OF assms(2)] le_string [OF assms(2)]
  have "dict_tag h' v t d" using R le(1) by (auto simp: dict_tag_def)
  moreover have "\<forall>p \<in> set ns. key_at h' p (kf p)" using R le(2,4) by (force simp: key_at_def)
  moreover have "order_state h' t D ns ord"
  proof (cases ord)
    case (Some xs)
    then obtain l where l: "d_order D = Some l" "order_links h l xs" "t AND HAS_ORDERLIST \<noteq> 0" "distinct xs" "set xs = set ns"
      using R by (auto simp: order_state_def)
    have "order_links h' l xs" using le(2) by (intro order_links_cong [OF l(2)]) blast
    then show ?thesis using l Some by (simp add: order_state_def)
  qed (use R in \<open>simp add: order_state_def\<close>)
  ultimately show ?thesis using R le(3) by (simp add: dict_rest_def)
qed


section \<open>A new node\<close>

lemma sim_le: "sim N d h h S \<Longrightarrow> h \<subseteq>\<^sub>m h' \<Longrightarrow> sim N d h' h' S"
proof -
  assume sim: "sim N d h h S" and le: "h \<subseteq>\<^sub>m h'"
  have at: "h p = Some y \<Longrightarrow> h' p = Some y" for p y using le by (force simp: map_le_def)
  show ?thesis unfolding sim_refl
  proof (intro conjI ballI)
    note S = sim [unfolded sim_refl]
    show "dom (nodes S) = N" "NULL \<notin> N" "d \<noteq> NULL" "d \<notin> N" "even (root S)" using S by blast+
    show "\<exists>D. h' d = Some (Dict_Block D) \<and> d_root D = root S" using S at by blast
    fix p assume "p \<in> N"
    then show "\<exists>n. even p \<and> even (node_left n) \<and> even (node_right n) \<and> h' p = Some (Node_Block n) \<and> tagged (node_key n) \<and>
        nodes S p = Some (mknode (key_color (node_key n)) (node_left n) (node_right n))" using S at by blast
  qed
qed

lemma sim_new:
  assumes "sim N d h h S" "node \<notin> N" "node \<noteq> NULL" "node \<noteq> d" "even node"
    and n: "tagged (node_key n)" "key_color (node_key n) = Red" "node_left n = NULL" "node_right n = NULL"
  shows "sim (insert node N) d (h(node \<mapsto> Node_Block n)) (h(node \<mapsto> Node_Block n)) (put S node (mknode Red NULL NULL))"
  unfolding sim_refl
proof (intro conjI ballI)
  note S = assms(1) [unfolded sim_refl]
  show "dom (nodes (put S node (mknode Red NULL NULL))) = insert node N" using S by (auto simp: put_def)
  show "NULL \<notin> insert node N" "d \<noteq> NULL" "d \<notin> insert node N" "even (root (put S node (mknode Red NULL NULL)))"
    using S assms(3,4) by (auto simp: put_def)
  show "\<exists>D. (h(node \<mapsto> Node_Block n)) d = Some (Dict_Block D) \<and> d_root D = root (put S node (mknode Red NULL NULL))"
    using S assms(4) by (auto simp: put_def)
  fix p assume p: "p \<in> insert node N"
  show "\<exists>m. even p \<and> even (node_left m) \<and> even (node_right m) \<and> (h(node \<mapsto> Node_Block n)) p = Some (Node_Block m) \<and> tagged (node_key m) \<and>
      nodes (put S node (mknode Red NULL NULL)) p = Some (mknode (key_color (node_key m)) (node_left m) (node_right m))"
  proof (cases "p = node")
    case True
    then show ?thesis using assms(5) n by (simp add: put_def)
  next
    case False
    then show ?thesis using S p by (simp add: put_def)
  qed
qed

text \<open>The members of a node that is ready to be inserted.\<close>

definition fresh_node :: "bool \<Rightarrow> VALUE \<Rightarrow> RBTREE_tag" where
  "fresh_node ol x = (new_node ol)\<lparr>node_key := paint Red x, node_value := (indeterminate sizeof_VALUE)[0 := Some (VALUE_NULL OR IS_NEW)]\<rparr>"

lemma node_updates:
  "m\<lparr>node_key := k, node_value := w, node_left := l, node_right := r\<rparr> = m\<lparr>node_left := l, node_right := r, node_key := k, node_value := w\<rparr>"
  for m :: RBTREE_tag
  by simp

lemma prepare_new_node:
  assumes "node \<noteq> NULL" "tagged x"
  shows "do {
      h \<leftarrow> value_init_new (h(node \<mapsto> Node_Block ((new_node ol)\<lparr>node_key := x\<rparr>))) (Val node);
      h \<leftarrow> set_left h node NULL;
      h \<leftarrow> set_right h node NULL;
      NODE_MAKE_RED h node } = Some (h(node \<mapsto> Node_Block (fresh_node ol x)))"
proof -
  obtain t where t: "x ! 0 = Some t" "0 < length x" using assms(2) by (auto simp: tagged_def sizeof_VALUE_def)
  let ?w = "(indeterminate sizeof_VALUE)[0 := Some (VALUE_NULL OR IS_NEW)]"
  let ?n = "(new_node ol)\<lparr>node_key := x, node_value := ?w, node_left := NULL, node_right := NULL\<rparr>"
  have new: "value_init_new (h(node \<mapsto> Node_Block ((new_node ol)\<lparr>node_key := x\<rparr>))) (Val node) =
      Some (h(node \<mapsto> Node_Block ((new_node ol)\<lparr>node_key := x, node_value := ?w\<rparr>)))"
    using assms(1) by (simp add: value_init_new_def data_set_def load_def peek_def poke_def new_node_def indeterminate_def sizeof_VALUE_def)
  have key: "get_value (h(node \<mapsto> Node_Block ?n)) (Key node) = Some x" using assms(1) by (simp add: load_def)
  have red: "NODE_MAKE_RED (h(node \<mapsto> Node_Block ?n)) node = Some (h(node \<mapsto> Node_Block (?n\<lparr>node_key := paint Red x\<rparr>)))"
    using t data_get [OF key, of 0] data_set [OF key, of 0] by (simp add: NODE_MAKE_RED_def paint_def del: get_value.simps)
  have "?n\<lparr>node_key := paint Red x\<rparr> = fresh_node ol x" by (simp add: fresh_node_def new_node_def)
  then show ?thesis using new red assms(1)
    by (simp add: set_left_def set_right_def modify_node_def load_node_def load_def)
qed

lemma fresh_node_parts:
  assumes "tagged x"
  shows "tagged (node_key (fresh_node ol x))" "key_color (node_key (fresh_node ol x)) = Red"
    "node_left (fresh_node ol x) = NULL" "node_right (fresh_node ol x) = NULL"
  using assms by (simp_all add: fresh_node_def new_node_def)

section \<open>The list of the order\<close>

text \<open>The memories differ in the list of the order only.\<close>

definition reordered :: "addr set \<Rightarrow> addr \<Rightarrow> value_mem \<Rightarrow> value_mem \<Rightarrow> bool" where
  "reordered N d h h' \<longleftrightarrow> NULL \<notin> N \<and> d \<notin> N \<and>
     (\<forall>p \<in> N. \<exists>n ord. h p = Some (Node_Block n) \<and> h' p = Some (Node_Block (n\<lparr>node_order := ord\<rparr>))) \<and>
     (\<exists>D ord. h d = Some (Dict_Block D) \<and> h' d = Some (Dict_Block (D\<lparr>d_order := ord\<rparr>))) \<and>
     (\<forall>p. p \<notin> N \<and> p \<noteq> d \<longrightarrow> h' p = h p)"

lemma reordered_value:
  assumes "reordered N d h h'" "get_value h w \<noteq> None"
  shows "get_value h' w = get_value h w"
proof -
  note R = assms(1) [unfolded reordered_def]
  have at: "\<exists>n ord. h p = Some (Node_Block n) \<and> h' p = Some (Node_Block (n\<lparr>node_order := ord\<rparr>))" if "p \<in> N" for p
    using R that by blast
  show ?thesis
  proof (cases "vaddr w \<in> N")
    case True
    obtain n ord where "h (vaddr w) = Some (Node_Block n)" "h' (vaddr w) = Some (Node_Block (n\<lparr>node_order := ord\<rparr>))"
      using at [OF True] by (elim exE conjE) (rule that)
    then show ?thesis by (cases w) (simp_all add: load_def)
  next
    case False
    obtain D where D: "h d = Some (Dict_Block D)" using R by blast
    have "vaddr w \<noteq> d"
    proof
      assume "vaddr w = d"
      then have "h (vaddr w) = Some (Dict_Block D)" using D by simp
      then show False using assms(2) by (cases w) (simp_all add: load_def split: if_splits)
    qed
    then show ?thesis using R False by (intro get_value_cong) simp
  qed
qed

lemma reordered_sim:
  assumes "reordered N d h h'" "sim N d h h S"
  shows "sim N d h' h' S"
  unfolding sim_refl
proof (intro conjI ballI)
  note S = assms(2) [unfolded sim_refl] and R = assms(1) [unfolded reordered_def]
  show "dom (nodes S) = N" "NULL \<notin> N" "d \<noteq> NULL" "d \<notin> N" "even (root S)" using S by blast+
  show "\<exists>D. h' d = Some (Dict_Block D) \<and> d_root D = root S" using S R by auto
  fix p assume p: "p \<in> N"
  obtain n ord where n: "h p = Some (Node_Block n)" "h' p = Some (Node_Block (n\<lparr>node_order := ord\<rparr>))" using R p by blast
  moreover obtain m where m: "even p" "even (node_left m)" "even (node_right m)" "h p = Some (Node_Block m)" "tagged (node_key m)"
    "nodes S p = Some (mknode (key_color (node_key m)) (node_left m) (node_right m))"
    using S p by blast
  moreover have "m = n" using m(4) n(1) by simp
  ultimately show "\<exists>n. even p \<and> even (node_left n) \<and> even (node_right n) \<and> h' p = Some (Node_Block n) \<and> tagged (node_key n) \<and>
        nodes S p = Some (mknode (key_color (node_key n)) (node_left n) (node_right n))"
    by (intro exI [of _ "n\<lparr>node_order := ord\<rparr>"]) simp
qed


lemma reordered_key:
  assumes "reordered N d h h'" "key_at h p s" "p \<in> N"
  shows "key_at h' p s"
proof -
  note R = assms(1) [unfolded reordered_def]
  obtain n where n: "load_node h p = Some n" "string_value h (node_key n) s" "length s \<le> INT_MAX"
    using assms(2) by (auto simp: key_at_def)
  obtain m ord where m: "h p = Some (Node_Block m)" "h' p = Some (Node_Block (m\<lparr>node_order := ord\<rparr>))" "p \<noteq> NULL"
    using R assms(3) by blast
  have raw: "h' q = Some (Raw c)" if "h q = Some (Raw c)" for q c
  proof -
    have "q \<notin> N"
    proof
      assume "q \<in> N"
      then obtain n where "h q = Some (Node_Block n)" using R by blast
      then show False using that by simp
    qed
    moreover have "q \<noteq> d" using R that by auto
    ultimately show ?thesis using R that by simp
  qed
  have "string_value h' (node_key n) s"
    using n(2) raw by (auto simp: string_value_def split: if_splits)
  moreover have "load_node h' p = Some (m\<lparr>node_order := ord\<rparr>)" "n = m" using m n(1) by (auto simp: load_node_def load_def)
  ultimately show ?thesis using n(3) by (simp add: key_at_def)
qed

lemma order_append:
  assumes D: "load_dict h d = Some D" "d_order D = Some l" and xs: "order_links h l xs" "distinct xs"
    and node: "node \<notin> set xs" "node \<noteq> NULL" "NULL \<notin> set xs" "d \<notin> set xs" "d \<noteq> node" "load_node h node = Some n"
  shows "\<exists>h' l'. order_append h d node = Some h' \<and> load_dict h' d = Some (D\<lparr>d_order := Some l'\<rparr>) \<and> cmp_func l' = cmp_func l \<and>
    order_links h' l' (xs @ [node]) \<and> reordered (insert node (set xs)) d h h'"
proof -
  have d: "d \<noteq> NULL" "h d = Some (Dict_Block D)"
    using D(1) by (auto simp: load_dict_def dest: load_SomeD split: option.splits block.splits)
  have n: "h node = Some (Node_Block n)"
    using node(6) by (auto simp: load_node_def dest: load_SomeD split: option.splits block.splits)
  have at: "\<exists>m. p \<noteq> NULL \<and> h p = Some (Node_Block m)" if p: "p \<in> set xs" for p
  proof -
    obtain i where "i < length xs" "xs ! i = p" using p by (auto simp: in_set_conv_nth)
    then obtain m where "load_node h p = Some m" using xs(1) unfolding order_links_def by blast
    then show ?thesis by (auto simp: load_node_def dest: load_SomeD split: option.splits block.splits)
  qed
  show ?thesis
  proof (cases "xs = []")
    case True
    let ?l = "l\<lparr>order_head := node, order_tail := node\<rparr>"
    let ?h = "h(node \<mapsto> Node_Block (n\<lparr>node_order := Some (NULL, NULL)\<rparr>), d \<mapsto> Dict_Block (D\<lparr>d_order := Some ?l\<rparr>))"
    have "order_append h d node = Some ?h"
      using True xs(1) D node d by (simp add: order_append_def order_links_def modify_node_def modify_dict_def load_dict_def load_def)
    moreover have "order_links ?h ?l [node]" using node(2,5) by (simp add: order_links_def load_node_def load_def)
    moreover have "reordered {node} d h ?h" using node(2,5) n d by (auto simp: reordered_def)
    ultimately show ?thesis using True d by (intro exI [of _ ?h] exI [of _ ?l]) (simp add: load_dict_def load_def)
  next
    case False
    let ?q = "last xs" and ?k = "length xs - 1"
    have q: "?q \<in> set xs" "xs ! ?k = ?q" "?k < length xs" using False by (simp_all add: last_conv_nth)
    then have qn: "?q \<noteq> node" "?q \<noteq> NULL" "?q \<noteq> d" using node by metis+
    obtain m where m: "h ?q = Some (Node_Block m)" using at [OF q(1)] by blast
    then have "load_node h ?q = Some m" using qn by (simp add: load_node_def load_def)
    moreover obtain m' where "load_node h (xs ! ?k) = Some m'"
      "node_order m' = Some (if ?k = 0 then NULL else xs ! (?k - 1), if Suc ?k < length xs then xs ! Suc ?k else NULL)"
      using xs(1) q(3) unfolding order_links_def by blast
    moreover have "\<not> Suc ?k < length xs" by simp
    ultimately have mo: "node_order m = Some (if ?k = 0 then NULL else xs ! (?k - 1), NULL)"
      unfolding q(2) by (simp only: if_False option.inject)
    define prev where "prev = (if ?k = 0 then NULL else xs ! (?k - 1))"
    let ?l = "l\<lparr>order_tail := node\<rparr>"
    let ?h = "h(node \<mapsto> Node_Block (n\<lparr>node_order := Some (?q, NULL)\<rparr>), ?q \<mapsto> Node_Block (m\<lparr>node_order := Some (prev, node)\<rparr>),
      d \<mapsto> Dict_Block (D\<lparr>d_order := Some ?l\<rparr>))"
    have tail: "order_tail l = ?q" using xs(1) False by (simp add: order_links_def)
    have "order_append h d node = Some ?h"
      using tail D node d qn m mo
      by (simp add: order_append_def modify_node_def modify_dict_def load_dict_def load_node_def load_def prev_def)
    moreover have "order_links ?h ?l (xs @ [node])"
      unfolding order_links_def
    proof (intro conjI allI impI)
      show "order_head ?l = (if xs @ [node] = [] then NULL else hd (xs @ [node]))"
        "order_tail ?l = (if xs @ [node] = [] then NULL else last (xs @ [node]))"
        using xs(1) False by (simp_all add: order_links_def)
      fix i assume i: "i < length (xs @ [node])"
      consider "i = length xs" | "i = ?k" | "i < ?k" using i by fastforce
      then show "\<exists>n. load_node ?h ((xs @ [node]) ! i) = Some n \<and>
          node_order n = Some (if i = 0 then NULL else (xs @ [node]) ! (i - 1),
            if Suc i < length (xs @ [node]) then (xs @ [node]) ! Suc i else NULL)"
      proof cases
        case 1
        then show ?thesis using node(2,5) qn False q(2) by (simp add: load_node_def load_def nth_append)
      next
        case 2
        then have "(xs @ [node]) ! i = ?q" "(xs @ [node]) ! Suc i = node" "Suc i < length (xs @ [node])" "i < length xs"
          using False q by (simp_all add: nth_append)
        then show ?thesis using qn 2 by (auto simp: load_node_def load_def prev_def nth_append)
      next
        case 3
        then have i': "i < length xs" "Suc i < length xs" by simp_all
        obtain a where a: "load_node h (xs ! i) = Some a"
          "node_order a = Some (if i = 0 then NULL else xs ! (i - 1), if Suc i < length xs then xs ! Suc i else NULL)"
          using xs(1) i'(1) unfolding order_links_def by blast
        have "xs ! i \<noteq> ?q" using nth_eq_iff_index_eq [OF xs(2) i'(1) q(3)] 3 q(2) by simp
        moreover have "xs ! i \<noteq> node" "xs ! i \<noteq> d" "xs ! i \<noteq> NULL" using node i'(1) by (metis nth_mem)+
        ultimately have "load_node ?h (xs ! i) = Some a" using a(1) by (simp add: load_node_def load_def)
        then show ?thesis using a(2) i' by (auto simp: nth_append)
      qed
    qed
    moreover have "reordered (insert node (set xs)) d h ?h"
      unfolding reordered_def
    proof (intro conjI ballI allI impI)
      show "NULL \<notin> insert node (set xs)" "d \<notin> insert node (set xs)" using node by auto
      show "\<exists>D ord. h d = Some (Dict_Block D) \<and> ?h d = Some (Dict_Block (D\<lparr>d_order := ord\<rparr>))" using d(2) by auto
      show "?h p = h p" if "p \<notin> insert node (set xs) \<and> p \<noteq> d" for p using that q(1) by auto
      fix p assume p: "p \<in> insert node (set xs)"
      consider "p = node" | "p = ?q" | "p \<noteq> node" "p \<noteq> ?q" "p \<in> set xs" using p by blast
      then show "\<exists>n ord. h p = Some (Node_Block n) \<and> ?h p = Some (Node_Block (n\<lparr>node_order := ord\<rparr>))"
      proof cases
        case 3
        then obtain a where "h p = Some (Node_Block a)" using at by blast
        moreover have "p \<noteq> d" using 3 node(4) by blast
        ultimately show ?thesis using 3 by (intro exI [of _ a] exI [of _ "node_order a"]) simp
      qed (use n m qn node(5) in auto)
    qed
    ultimately show ?thesis using d by (intro exI [of _ ?h] exI [of _ ?l]) (simp add: load_dict_def load_def)
  qed
qed

end
