(* ===== verification/Value_Own.thy ===== *)
theory Value_Own
  imports Value_Dict_Add
begin

text \<open>
  Who owns which block in \<open>data/value.c\<close>, and what \<open>value_fini\<close> and the functions that clean do with it: they
  release exactly the blocks below a value.
\<close>

section \<open>Ownership\<close>

text \<open>A tree of dictionary nodes, by the addresses in it.\<close>

fun node_tree :: "value_mem \<Rightarrow> addr rbt \<Rightarrow> bool" where
  "node_tree h Leaf = True"
| "node_tree h (Node c l a r) \<longleftrightarrow> (\<exists>n. load_node h a = Some n \<and> node_left n = ptr l \<and> node_right n = ptr r) \<and>
     node_tree h l \<and> node_tree h r"

definition cells_tag :: "VALUE \<Rightarrow> byte \<Rightarrow> bool" where
  "cells_tag x t \<longleftrightarrow> length x = sizeof_VALUE \<and> x ! 0 = Some t"

definition cells_pointer :: "VALUE \<Rightarrow> byte \<Rightarrow> addr \<Rightarrow> bool" where
  "cells_pointer x t p \<longleftrightarrow> cells_tag x t \<and> t AND IS_MALLOCED \<noteq> 0 \<and> drop 8 x = map Some (le_bytes p)"

text \<open>The items of an array: none without a buffer.\<close>

definition array_items :: "value_mem \<Rightarrow> ARRAY \<Rightarrow> VALUE list \<Rightarrow> bool" where
  "array_items h A vs \<longleftrightarrow> length vs = unat (a_size A) \<and>
     (if value_buf A = NULL then vs = [] else \<exists>ws. load_values h (value_buf A) = Some ws \<and> take (length vs) ws = vs)"

definition buffer_block :: "ARRAY \<Rightarrow> addr set" where
  "buffer_block A = (if value_buf A = NULL then {} else {value_buf A})"

text \<open>The sets are disjoint, and so are the sets of a family.\<close>

definition apart :: "'i set \<Rightarrow> ('i \<Rightarrow> addr set) \<Rightarrow> bool" where
  "apart I F \<longleftrightarrow> (\<forall>i \<in> I. \<forall>j \<in> I. i \<noteq> j \<longrightarrow> F i \<inter> F j = {})"

text \<open>The value with the cells \<open>x\<close> owns the blocks at the addresses of the set.\<close>

inductive owns :: "value_mem \<Rightarrow> VALUE \<Rightarrow> addr set \<Rightarrow> bool" for h where
  inline: "cells_tag x t \<Longrightarrow> t AND IS_MALLOCED = 0 \<Longrightarrow> t AND TYPE_MASK \<noteq> VALUE_ARRAY \<Longrightarrow> t AND TYPE_MASK \<noteq> VALUE_DICT \<Longrightarrow>
    owns h x {}"
| raw: "cells_pointer x t p \<Longrightarrow> t AND TYPE_MASK \<noteq> VALUE_ARRAY \<Longrightarrow> t AND TYPE_MASK \<noteq> VALUE_DICT \<Longrightarrow>
    p \<noteq> NULL \<Longrightarrow> h p = Some (Raw c) \<Longrightarrow> owns h x {p}"
| array: "cells_pointer x t a \<Longrightarrow> t AND TYPE_MASK = VALUE_ARRAY \<Longrightarrow> load_array h a = Some A \<Longrightarrow> array_items h A vs \<Longrightarrow>
    (\<forall>i < length vs. owns h (vs ! i) (F i)) \<Longrightarrow> apart {..<length vs} F \<Longrightarrow> a \<notin> buffer_block A \<Longrightarrow>
    (\<forall>i < length vs. F i \<inter> ({a} \<union> buffer_block A) = {}) \<Longrightarrow>
    owns h x ({a} \<union> buffer_block A \<union> (\<Union>i < length vs. F i))"
| dict: "cells_pointer x t d \<Longrightarrow> t AND TYPE_MASK = VALUE_DICT \<Longrightarrow> load_dict h d = Some D \<Longrightarrow>
    (t AND HAS_ORDERLIST \<noteq> 0 \<longrightarrow> d_order D \<noteq> None) \<Longrightarrow> node_tree h T \<Longrightarrow> d_root D = ptr T \<Longrightarrow> height T \<le> path_capacity \<Longrightarrow>
    distinct (inorder T) \<Longrightarrow> d \<notin> set (inorder T) \<Longrightarrow>
    (\<forall>p \<in> set (inorder T). \<exists>n. load_node h p = Some n \<and> owns h (node_key n) (K p) \<and> owns h (node_value n) (V p)) \<Longrightarrow>
    apart (set (inorder T)) (\<lambda>p. K p \<union> V p) \<Longrightarrow>
    (\<forall>p \<in> set (inorder T). K p \<inter> V p = {} \<and> (K p \<union> V p) \<inter> ({d} \<union> set (inorder T)) = {}) \<Longrightarrow>
    owns h x ({d} \<union> set (inorder T) \<union> (\<Union>p \<in> set (inorder T). K p \<union> V p))"

lemma loads_nonnull:
  "load_array h a = Some A \<Longrightarrow> a \<noteq> NULL \<and> h a = Some (Array_Block A)"
  "load_dict h a = Some D \<Longrightarrow> a \<noteq> NULL \<and> h a = Some (Dict_Block D)"
  "load_node h a = Some n \<Longrightarrow> a \<noteq> NULL \<and> h a = Some (Node_Block n)"
  "load_values h a = Some vs \<Longrightarrow> a \<noteq> NULL \<and> h a = Some (Values vs)"
  by (auto simp: load_array_def load_dict_def load_node_def load_values_def load_def split: option.splits block.splits if_splits)

lemma loads_cong:
  "h' a = h a \<Longrightarrow> load_array h' a = load_array h a" "h' a = h a \<Longrightarrow> load_dict h' a = load_dict h a"
  "h' a = h a \<Longrightarrow> load_node h' a = load_node h a" "h' a = h a \<Longrightarrow> load_values h' a = load_values h a"
  by (simp_all add: load_array_def load_dict_def load_node_def load_values_def load_def)

lemma node_tree_cong: "\<forall>p \<in> set (inorder t). h' p = h p \<Longrightarrow> node_tree h' t = node_tree h t"
proof (induction t)
  case (Node c l a r)
  have "load_node h' a = load_node h a" by (rule loads_cong) (use Node.prems in simp)
  then show ?case using Node by simp
qed simp

lemma array_items_cong: "\<forall>p \<in> buffer_block A. h' p = h p \<Longrightarrow> array_items h' A vs = array_items h A vs"
  using loads_cong(4) [of h' "value_buf A" h] by (simp add: array_items_def buffer_block_def split: if_splits)

lemma owns_frame: "owns h x F \<Longrightarrow> \<forall>p \<in> F. h' p = h p \<Longrightarrow> owns h' x F"
proof (induction rule: owns.induct)
  case (inline x t)
  then show ?case by (intro owns.inline) simp_all
next
  case (raw x t p c)
  then show ?case by (intro owns.raw) simp_all
next
  case (array x t a A vs F)
  have "load_array h' a = Some A" "array_items h' A vs"
    using array loads_cong(1) [of h' a h] array_items_cong [of A h' h] by auto
  moreover have "\<forall>i < length vs. owns h' (vs ! i) (F i)"
  proof (intro allI impI)
    fix i assume i: "i < length vs"
    then have "\<forall>p \<in> F i. h' p = h p" using array.prems by blast
    then show "owns h' (vs ! i) (F i)" using array i by blast
  qed
  ultimately show ?case using array by (intro owns.array) auto
next
  case (dict x t d D T K V)
  have "load_dict h' d = Some D" "node_tree h' T" using dict loads_cong(2) [of h' d h] node_tree_cong [of T h' h] by auto
  moreover have "\<forall>p \<in> set (inorder T). \<exists>n. load_node h' p = Some n \<and> owns h' (node_key n) (K p) \<and> owns h' (node_value n) (V p)"
  proof
    fix p assume p: "p \<in> set (inorder T)"
    then obtain n where n: "load_node h p = Some n" "(\<forall>q \<in> K p. h' q = h q) \<longrightarrow> owns h' (node_key n) (K p)"
      "(\<forall>q \<in> V p. h' q = h q) \<longrightarrow> owns h' (node_value n) (V p)" using dict by blast
    have "load_node h' p = Some n" using loads_cong(3) [of h' p h] n(1) dict.prems p by simp
    moreover have "\<forall>q \<in> K p. h' q = h q" "\<forall>q \<in> V p. h' q = h q" using dict.prems p by auto
    ultimately show "\<exists>n. load_node h' p = Some n \<and> owns h' (node_key n) (K p) \<and> owns h' (node_value n) (V p)" using n by blast
  qed
  ultimately show ?case using dict by (intro owns.dict) auto
qed

lemma owns_tag: "owns h x F \<Longrightarrow> \<exists>t. cells_tag x t"
  by (auto elim!: owns.cases simp: cells_pointer_def)

text \<open>What is below a value is there.\<close>

lemma owns_allocated: "owns h x F \<Longrightarrow> p \<in> F \<Longrightarrow> p \<noteq> NULL \<and> h p \<noteq> None"
proof (induction rule: owns.induct)
  case (array x t a A vs F)
  have "value_buf A \<noteq> NULL \<Longrightarrow> h (value_buf A) \<noteq> None"
    using array(4) loads_nonnull(4) by (fastforce simp: array_items_def)
  then show ?case using array loads_nonnull(1) [OF array(3)] by (auto simp: buffer_block_def split: if_splits)
next
  case (dict x t d D T K V)
  consider "p = d" | "p \<in> set (inorder T)" | q where "q \<in> set (inorder T)" "p \<in> K q \<union> V q" using dict.prems by blast
  then show ?case
  proof cases
    case 1
    then show ?thesis using loads_nonnull(2) [OF dict(3)] by simp
  next
    case 2
    then obtain n where "load_node h p = Some n" using dict by blast
    then show ?thesis using loads_nonnull(3) by blast
  next
    case 3
    then show ?thesis using dict by blast
  qed
qed auto


section \<open>Reading the tag, and the release of the own block\<close>

lemma restrict_value: "vaddr v \<notin> F \<Longrightarrow> get_value (h |` (- F)) v = get_value h v"
  by (rule get_value_cong) simp

lemma upd_restrict: "vaddr v \<notin> F \<Longrightarrow> upd_value (h |` (- F)) v x = upd_value h v x |` (- F)"
proof -
  assume v: "vaddr v \<notin> F"
  have "upd_value (h |` (- F)) v x p = (upd_value h v x |` (- F)) p" for p
  proof (cases "p = vaddr v")
    case True
    then show ?thesis using v by (cases v) (auto simp: restrict_map_def split: option.splits block.splits)
  next
    case False
    then show ?thesis using upd_elsewhere [of p v] by (simp add: restrict_map_def)
  qed
  then show ?thesis by blast
qed

lemma restrict_one: "h |` (- {p}) = h(p := None)"
  by (auto simp: restrict_map_def)

lemma restrict_twice: "(h |` (- F)) |` (- G) = h |` (- (F \<union> G))"
  by (auto simp: restrict_map_def)

lemma tag_reads:
  assumes "get_value h v = Some x" "cells_tag x t"
  shows "v \<noteq> VNull" "data_get h v 0 = Some t" "value_type h v = Some (t AND TYPE_MASK)"
    "data_set h v 0 b = Some (upd_value h v (x[0 := Some b]))" "has_order h v = Some (t AND HAS_ORDERLIST \<noteq> 0)"
proof -
  show v: "v \<noteq> VNull" using get_value_at [OF assms(1)] by simp
  have x: "0 < length x" "x ! 0 = Some t" using assms(2) by (auto simp: cells_tag_def sizeof_VALUE_def)
  show get: "data_get h v 0 = Some t" using data_get [OF assms(1) x(1)] x(2) by simp
  show "value_type h v = Some (t AND TYPE_MASK)" using v get by (simp add: value_type_def)
  show "data_set h v 0 b = Some (upd_value h v (x[0 := Some b]))" by (rule data_set [OF assms(1) x(1)])
  show "has_order h v = Some (t AND HAS_ORDERLIST \<noteq> 0)" using get by (simp add: has_order_def)
qed

lemma pointer_reads:
  assumes "get_value h v = Some x" "cells_pointer x t p"
  shows "value_payload_ex h v n = Some (Some (Buffer p))" "value_payload h v = Some (Some (Buffer p))" "block_payload h v = Some p"
proof -
  have x: "cells_tag x t" "t AND IS_MALLOCED \<noteq> 0" "drop 8 x = map Some (le_bytes p)" "length x = sizeof_VALUE"
    using assms(2) by (auto simp: cells_pointer_def cells_tag_def)
  note tag = tag_reads [OF assms(1) x(1)]
  show "value_payload_ex h v n = Some (Some (Buffer p))" "value_payload h v = Some (Some (Buffer p))" "block_payload h v = Some p"
    using tag(1,2) x(2) buffer_get [OF assms(1) x(4,3)]
    by (simp_all add: value_payload_ex_def value_payload_def block_payload_def)
qed

definition nulled :: "VALUE \<Rightarrow> VALUE" where
  "nulled x = x[0 := Some VALUE_NULL]"

lemma fini_last:
  assumes "get_value h v = Some x" "cells_pointer x t p" "p \<noteq> NULL" "h p \<noteq> None" "vaddr v \<noteq> p"
  shows "do {
      t \<leftarrow> data_get h v 0;
      h \<leftarrow> (if t AND 0x80 \<noteq> 0 then do {
              payload \<leftarrow> value_payload h v;
              (case payload of Some (Buffer p) \<Rightarrow> free h p | _ \<Rightarrow> None)
            }
            else Some h);
      data_set h v 0 VALUE_NULL } = Some (upd_value (h |` (- {p})) v (nulled x))"
proof -
  have x: "cells_tag x t" "t AND 0x80 \<noteq> 0" using assms(2) by (auto simp: cells_pointer_def IS_MALLOCED_def)
  have free: "free h p = Some (h |` (- {p}))" using assms(3,4) by (auto simp: free_def load_def restrict_one)
  have "get_value (h |` (- {p})) v = Some x" using restrict_value [of v "{p}" h] assms(1,5) by simp
  note set = tag_reads(4) [OF this x(1)]
  show ?thesis using tag_reads(2) [OF assms(1) x(1)] pointer_reads(2) [OF assms(1,2)] x(2) free set by (simp add: nulled_def)
qed

text \<open>What \<open>value_fini\<close> is to do with a value that owns \<open>F\<close>.\<close>

definition fini_spec :: "value_mem \<Rightarrow> VALUE \<Rightarrow> addr set \<Rightarrow> bool" where
  "fini_spec h x F \<longleftrightarrow> (\<forall>h' v. get_value h' v = Some x \<longrightarrow> (\<forall>p \<in> F. h' p = h p) \<longrightarrow> vaddr v \<notin> F \<longrightarrow>
     fini_run (Fini v) h' = Some (upd_value (h' |` (- F)) v (nulled x)))"

lemma fini_specD:
  "fini_spec h x F \<Longrightarrow> get_value h' v = Some x \<Longrightarrow> (\<And>p. p \<in> F \<Longrightarrow> h' p = h p) \<Longrightarrow> vaddr v \<notin> F \<Longrightarrow>
   fini_run (Fini v) h' = Some (upd_value (h' |` (- F)) v (nulled x))"
  unfolding fini_spec_def by blast

lemma fini_plain:
  assumes "get_value h v = Some x" "cells_tag x t" "t AND TYPE_MASK \<noteq> VALUE_ARRAY" "t AND TYPE_MASK \<noteq> VALUE_DICT"
  shows "fini_run (Fini v) h = do {
      t \<leftarrow> data_get h v 0;
      h \<leftarrow> (if t AND 0x80 \<noteq> 0 then do {
              payload \<leftarrow> value_payload h v;
              (case payload of Some (Buffer p) \<Rightarrow> free h p | _ \<Rightarrow> None)
            }
            else Some h);
      data_set h v 0 VALUE_NULL }"
  using tag_reads(1,3) [OF assms(1,2)] assms(3,4) by (subst fini_run.simps) simp

lemma fini_inline: "cells_tag x t \<Longrightarrow> t AND IS_MALLOCED = 0 \<Longrightarrow> t AND TYPE_MASK \<noteq> VALUE_ARRAY \<Longrightarrow> t AND TYPE_MASK \<noteq> VALUE_DICT \<Longrightarrow>
    fini_spec h x {}"
  unfolding fini_spec_def
proof (intro allI impI)
  fix h' v assume x: "cells_tag x t" "t AND IS_MALLOCED = 0" "t AND TYPE_MASK \<noteq> VALUE_ARRAY" "t AND TYPE_MASK \<noteq> VALUE_DICT"
    and v: "get_value h' v = Some x"
  have "t AND 0x80 = 0" using x(2) by (simp add: IS_MALLOCED_def)
  then show "fini_run (Fini v) h' = Some (upd_value (h' |` (- {})) v (nulled x))"
    using tag_reads(2,4) [OF v x(1)] unfolding fini_plain [OF v x(1,3,4)] by (simp add: nulled_def restrict_map_def)
qed

lemma fini_raw:
  assumes "cells_pointer x t p" "t AND TYPE_MASK \<noteq> VALUE_ARRAY" "t AND TYPE_MASK \<noteq> VALUE_DICT" "p \<noteq> NULL" "h p = Some (Raw c)"
  shows "fini_spec h x {p}"
  unfolding fini_spec_def
proof (intro allI impI)
  fix h' v assume v: "get_value h' v = Some x" "\<forall>q \<in> {p}. h' q = h q" "vaddr v \<notin> {p}"
  have "cells_tag x t" using assms(1) by (simp add: cells_pointer_def)
  note code = fini_plain [OF v(1) this assms(2,3)]
  show "fini_run (Fini v) h' = Some (upd_value (h' |` (- {p})) v (nulled x))"
    unfolding code by (rule fini_last [OF v(1) assms(1,4)]) (use v assms(5) in auto)
qed

section \<open>Arrays\<close>

lemma items_run:
  assumes spec: "\<And>i. i < n \<Longrightarrow> fini_spec h (vs ! i) (F i)"
    and sep: "apart {..<n} F" "\<And>i. i < n \<Longrightarrow> F i \<inter> {a, buf} = {}" and A: "unat (a_size A) = n" "value_buf A = buf" "a \<noteq> buf"
  shows "i \<le> n \<Longrightarrow> load_array M a = Some A \<Longrightarrow> load_values M buf = Some ws \<Longrightarrow> n \<le> length ws \<Longrightarrow>
    (\<forall>j. i \<le> j \<longrightarrow> j < n \<longrightarrow> ws ! j = vs ! j \<and> (\<forall>p \<in> F j. M p = h p)) \<Longrightarrow>
    \<exists>ws'. fini_run (Array_Items a (of_nat i)) M = Some ((M |` (- (\<Union>j \<in> {i..<n}. F j)))(buf \<mapsto> Values ws'))"
proof (induction "n - i" arbitrary: i M ws)
  case 0
  then have "i = n" by simp
  then have i: "\<not> of_nat i < a_size A" using A(1) by auto
  then have "fini_run (Array_Items a (of_nat i)) M = Some M"
    using 0 by (subst fini_run.simps) simp
  moreover have "M(buf \<mapsto> Values ws) = M" using loads_nonnull(4) [OF 0(4)] by auto
  ultimately show ?case using \<open>i = n\<close> by (intro exI [of _ ws]) (simp add: restrict_map_def)
next
  case (Suc k)
  then have i: "i < n" by simp
  have "unat (a_size A) < 2 ^ LENGTH(64)" by (rule unsigned_less)
  then have n: "n < 2 ^ 64" using A(1) by simp
  have idx: "of_nat i < a_size A" "unat (of_nat i :: size_t) = i" "(of_nat i :: size_t) + 1 = of_nat (Suc i)"
    using i n A(1) by (simp_all add: word_less_nat_alt)
  let ?v = "Item buf i" and ?ws = "ws[i := nulled (vs ! i)]"
  let ?M = "(M |` (- F i))(buf \<mapsto> Values ?ws)"
  have buf: "buf \<noteq> NULL" "M buf = Some (Values ws)" using loads_nonnull(4) [OF Suc(5)] by simp_all
  have get: "get_value M ?v = Some (vs ! i)"
    using i Suc(6,7) buf by (simp add: load_def peek_def)
  have F: "buf \<notin> F i" "a \<notin> F i" using sep(2) [OF i] by auto
  have "fini_run (Fini ?v) M = Some (upd_value (M |` (- F i)) ?v (nulled (vs ! i)))"
  proof (rule fini_specD [OF spec [OF i] get])
    show "M p = h p" if "p \<in> F i" for p using Suc(7) i that by blast
    show "vaddr ?v \<notin> F i" using F by simp
  qed
  also have "upd_value (M |` (- F i)) ?v (nulled (vs ! i)) = ?M" using buf F by simp
  finally have step: "fini_run (Fini ?v) M = Some ?M" .
  have code: "fini_run (Array_Items a (of_nat i)) M = fini_run (Array_Items a (of_nat (Suc i))) ?M"
    using Suc(4) idx(1,2) step A(2) unfolding idx(3) [symmetric] by (subst fini_run.simps) simp
  have "?M a = M a" using F A(3) by simp
  then have A1: "load_array ?M a = Some A" using Suc(4) loads_cong(1) [of ?M a M] by simp
  have A2: "load_values ?M buf = Some ?ws" using buf by (simp add: load_values_def load_def)
  have A3: "\<forall>j. Suc i \<le> j \<longrightarrow> j < n \<longrightarrow> ?ws ! j = vs ! j \<and> (\<forall>p \<in> F j. ?M p = h p)"
  proof (intro allI impI conjI ballI)
    fix j assume j: "Suc i \<le> j" "j < n"
    then show "?ws ! j = vs ! j" using Suc(7) by simp
    fix p assume p: "p \<in> F j"
    have "F i \<inter> F j = {}" using sep(1) i j by (simp add: apart_def)
    moreover have "F j \<inter> {a, buf} = {}" by (rule sep(2) [OF j(2)])
    ultimately have "p \<noteq> buf" "p \<notin> F i" using p by blast+
    moreover have "M p = h p" using Suc(7) p j by (meson Suc_leD)
    ultimately show "?M p = h p" by simp
  qed
  have "k = n - Suc i" using Suc(2) by simp
  then have "\<exists>ws'. fini_run (Array_Items a (of_nat (Suc i))) ?M =
      Some ((?M |` (- (\<Union>j \<in> {Suc i..<n}. F j)))(buf \<mapsto> Values ws'))"
    by (rule Suc(1) [OF _ _ A1 A2 _ A3]) (use i Suc(6) in simp_all)
  then obtain ws' where ws': "fini_run (Array_Items a (of_nat (Suc i))) ?M =
      Some ((?M |` (- (\<Union>j \<in> {Suc i..<n}. F j)))(buf \<mapsto> Values ws'))" ..
  have "{i..<n} = insert i {Suc i..<n}" using i by auto
  then have "(\<Union>j \<in> {i..<n}. F j) = F i \<union> (\<Union>j \<in> {Suc i..<n}. F j)" by simp
  then have "(?M |` (- (\<Union>j \<in> {Suc i..<n}. F j)))(buf \<mapsto> Values ws') = (M |` (- (\<Union>j \<in> {i..<n}. F j)))(buf \<mapsto> Values ws')"
    by (auto simp: restrict_map_def fun_eq_iff)
  then show ?case using code ws' by auto
qed


lemma array_clean_run:
  assumes spec: "\<And>i. i < length vs \<Longrightarrow> fini_spec h (vs ! i) (F i)"
    and sep: "apart {..<length vs} F" "a \<notin> buffer_block A" "\<And>i. i < length vs \<Longrightarrow> F i \<inter> ({a} \<union> buffer_block A) = {}"
    and A: "load_array h a = Some A" "array_items h A vs"
    and v: "get_value M v = Some x" "cells_pointer x t a" "t AND TYPE_MASK = VALUE_ARRAY"
      "\<And>p. p \<in> {a} \<union> buffer_block A \<union> (\<Union>i < length vs. F i) \<Longrightarrow> M p = h p"
  shows "fini_run (Array_Clean v) M = Some ((M |` (- (buffer_block A \<union> (\<Union>i < length vs. F i))))
    (a \<mapsto> Array_Block \<lparr>value_buf = NULL, a_size = 0, a_alloc = 0\<rparr>))"
proof -
  have x: "cells_tag x t" using v(2) by (simp add: cells_pointer_def)
  have a: "a \<noteq> NULL" using loads_nonnull(1) [OF A(1)] by simp
  have payload: "value_array_payload M v = Some a"
    using tag_reads(3) [OF v(1) x] v(3) pointer_reads(3) [OF v(1,2)] by (simp add: value_array_payload_def)
  have AM: "load_array M a = Some A" using A(1) loads_cong(1) [of M a h] v(4) by simp
  have "array_items M A vs" using A(2) array_items_cong [of A M h] v(4) by simp
  note items = this [unfolded array_items_def]
  let ?U = "\<Union>i < length vs. F i"
  have aU: "a \<notin> ?U" "?U \<inter> buffer_block A = {}" using sep(3) by blast+
  note code = fini_run.simps [of "Array_Clean v"]
  show ?thesis
  proof (cases "value_buf A = NULL")
    case True
    then have vs: "vs = []" "a_size A = 0" using items by (auto simp: unat_eq_0)
    then have "fini_run (Array_Items a 0) M = Some M" using AM by (subst fini_run.simps) simp
    then show ?thesis using payload a AM True vs
      by (simp add: code free_def modify_array_def buffer_block_def restrict_map_def)
  next
    case False
    let ?b = "value_buf A"
    obtain ws where ws: "load_values M ?b = Some ws" "take (length vs) ws = vs" using items False by auto
    have b: "buffer_block A = {?b}" using False by (simp add: buffer_block_def)
    have len: "length vs \<le> length ws" using arg_cong [OF ws(2), of length] by (simp add: min_def split: if_splits)
    have "\<exists>ws'. fini_run (Array_Items a (of_nat 0)) M = Some ((M |` (- (\<Union>j \<in> {0..<length vs}. F j)))(?b \<mapsto> Values ws'))"
    proof (rule items_run [where h = h and vs = vs and F = F and A = A and ws = ws])
      show "fini_spec h (vs ! i) (F i)" if "i < length vs" for i using spec that .
      show "apart {..<length vs} F" "unat (a_size A) = length vs" "a \<noteq> ?b" using sep(1,2) items b by simp_all
      show "F i \<inter> {a, ?b} = {}" if "i < length vs" for i using sep(3) [OF that] b by auto
      show "\<forall>j. 0 \<le> j \<longrightarrow> j < length vs \<longrightarrow> ws ! j = vs ! j \<and> (\<forall>p \<in> F j. M p = h p)"
      proof (intro allI impI conjI ballI)
        fix j assume j: "j < length vs"
        have "take (length vs) ws ! j = ws ! j" using j by simp
        then show "ws ! j = vs ! j" unfolding ws(2) by simp
        show "M p = h p" if "p \<in> F j" for p using v(4) j that by blast
      qed
    qed (use AM ws(1) len in simp_all)
    then obtain ws' where ws': "fini_run (Array_Items a 0) M = Some ((M |` (- ?U))(?b \<mapsto> Values ws'))"
      by (auto simp: atLeast0LessThan)
    let ?M = "(M |` (- ?U))(?b \<mapsto> Values ws')"
    have "?M a = M a" using aU sep(2) b by auto
    then have "load_array ?M a = Some A" using AM loads_cong(1) [of ?M a M] by simp
    moreover have "free ?M ?b = Some (M |` (- (buffer_block A \<union> ?U)))"
      using False by (auto simp: free_def load_def b restrict_map_def)
    moreover have "load_array (M |` (- (buffer_block A \<union> ?U))) a = Some A"
      using AM loads_cong(1) [of "M |` (- (buffer_block A \<union> ?U))" a M] aU sep(2) by (auto simp: restrict_map_def)
    ultimately show ?thesis using payload a ws' by (simp add: code modify_array_def)
  qed
qed


section \<open>Dictionaries\<close>

text \<open>The stack of a walk: each node on it, with what is to its right, is still to be visited.\<close>

fun spine :: "addr rbt \<Rightarrow> (addr \<times> addr rbt) list \<Rightarrow> (addr \<times> addr rbt) list" where
  "spine Leaf ps = ps"
| "spine (Node c l a r) ps = spine l ((a, r) # ps)"

fun pending :: "(addr \<times> addr rbt) list \<Rightarrow> addr list" where
  "pending [] = []"
| "pending ((a, r) # ps) = a # inorder r @ pending ps"

fun stack_fits :: "(addr \<times> addr rbt) list \<Rightarrow> bool" where
  "stack_fits [] = True"
| "stack_fits ((a, r) # ps) \<longleftrightarrow> length ps + height r \<le> path_capacity \<and> stack_fits ps"

fun stack_nodes :: "value_mem \<Rightarrow> (addr \<times> addr rbt) list \<Rightarrow> bool" where
  "stack_nodes h [] = True"
| "stack_nodes h ((a, r) # ps) \<longleftrightarrow> (\<exists>n. load_node h a = Some n \<and> node_right n = ptr r) \<and> node_tree h r \<and> stack_nodes h ps"

lemma pending_spine: "pending (spine t ps) = inorder t @ pending ps"
  by (induction t arbitrary: ps) simp_all

lemma stack_spine:
  "length ps + height t \<le> path_capacity \<Longrightarrow> stack_fits ps \<Longrightarrow> stack_fits (spine t ps)"
  "node_tree h t \<Longrightarrow> stack_nodes h ps \<Longrightarrow> stack_nodes h (spine t ps)"
  by (induction t arbitrary: ps) auto

lemma leftmost_spine:
  "node_tree h t \<Longrightarrow> length ps + height t \<le> path_capacity \<Longrightarrow>
   value_dict_leftmost_path h (ptr t) (map fst ps) = Some (map fst (spine t ps))"
proof (induction t arbitrary: ps)
  case Leaf
  then show ?case by (subst value_dict_leftmost_path.simps) simp
next
  case (Node c l a r)
  then obtain n where n: "load_node h a = Some n" "node_left n = ptr l" "node_tree h l" by auto
  have a: "a \<noteq> NULL" using loads_nonnull(3) [OF n(1)] by simp
  have "length ((a, r) # ps) + height l \<le> path_capacity" using Node.prems(2) by simp
  note ih = Node.IH(1) [OF n(3) this]
  show ?case using a n(1,2) Node.prems(2) ih
    by (subst value_dict_leftmost_path.simps) (simp add: path_push_def get_left_def)
qed

lemma stack_nodes_cong: "\<forall>p \<in> set (pending ps). h' p = h p \<Longrightarrow> stack_nodes h' ps = stack_nodes h ps"
proof (induction ps rule: pending.induct)
  case (2 a r ps)
  have "load_node h' a = load_node h a" "node_tree h' r = node_tree h r"
    using 2(2) loads_cong(3) [of h' a h] node_tree_cong [of r h' h] by simp_all
  then show ?case using 2 by simp
qed simp

text \<open>The release of one node.\<close>

definition node_spec :: "value_mem \<Rightarrow> (addr \<Rightarrow> addr set) \<Rightarrow> (addr \<Rightarrow> addr set) \<Rightarrow> addr \<Rightarrow> bool" where
  "node_spec h K V p \<longleftrightarrow> (\<exists>n. load_node h p = Some n \<and> fini_spec h (node_key n) (K p) \<and> fini_spec h (node_value n) (V p)) \<and>
     K p \<inter> V p = {} \<and> p \<notin> K p \<union> V p"

lemma node_release:
  assumes "node_spec h K V a" "M a = h a" "\<And>p. p \<in> K a \<union> V a \<Longrightarrow> M p = h p"
  shows "do { h \<leftarrow> fini_run (Fini (Key a)) M; h \<leftarrow> fini_run (Fini (Val a)) h; free h a } =
    Some (M |` (- ({a} \<union> K a \<union> V a)))"
proof -
  obtain n where n: "load_node h a = Some n" "fini_spec h (node_key n) (K a)" "fini_spec h (node_value n) (V a)"
    and sep: "K a \<inter> V a = {}" "a \<notin> K a" "a \<notin> V a"
    using assms(1) by (auto simp: node_spec_def)
  have a: "a \<noteq> NULL" "M a = Some (Node_Block n)" using loads_nonnull(3) [OF n(1)] assms(2) by simp_all
  have key: "get_value M (Key a) = Some (node_key n)" and val: "get_value M (Val a) = Some (node_value n)"
    using a by (simp_all add: load_def)
  define M1 where "M1 = upd_value (M |` (- K a)) (Key a) (nulled (node_key n))"
  have 1: "fini_run (Fini (Key a)) M = Some M1"
    unfolding M1_def by (rule fini_specD [OF n(2) key]) (use assms(3) sep in auto)
  have M1: "M1 = (M |` (- K a))(a \<mapsto> Node_Block (n\<lparr>node_key := nulled (node_key n)\<rparr>))"
    using a sep by (simp add: M1_def)
  have val1: "get_value M1 (Val a) = Some (node_value n)" using a by (simp add: M1 load_def)
  define M2 where "M2 = upd_value (M1 |` (- V a)) (Val a) (nulled (node_value n))"
  have 2: "fini_run (Fini (Val a)) M1 = Some M2"
    unfolding M2_def
  proof (rule fini_specD [OF n(3) val1])
    fix p assume p: "p \<in> V a"
    then have "p \<noteq> a" "p \<notin> K a" using sep by blast+
    then show "M1 p = h p" using assms(3) p by (simp add: M1)
  qed (use sep in simp)
  have "M2 = (M1 |` (- V a))(a \<mapsto> Node_Block (n\<lparr>node_key := nulled (node_key n), node_value := nulled (node_value n)\<rparr>))"
    using sep by (simp add: M2_def M1)
  then have "free M2 a = Some (M2(a := None))" "M2(a := None) = M |` (- ({a} \<union> K a \<union> V a))"
    using a by (auto simp: free_def load_def M1 restrict_map_def fun_eq_iff)
  then show ?thesis using 1 2 by simp
qed

lemma nodes_run:
  assumes "\<And>p. p \<in> set (pending ps) \<Longrightarrow> node_spec h K V p" "apart (set (pending ps)) (\<lambda>p. K p \<union> V p)"
    and "\<And>p. p \<in> set (pending ps) \<Longrightarrow> (K p \<union> V p) \<inter> set (pending ps) = {}"
    and "distinct (pending ps)" "stack_fits ps" "stack_nodes h ps"
    and "\<And>p. p \<in> set (pending ps) \<union> (\<Union>p \<in> set (pending ps). K p \<union> V p) \<Longrightarrow> M p = h p"
  shows "fini_run (Dict_Nodes (map fst ps)) M = Some (M |` (- (set (pending ps) \<union> (\<Union>p \<in> set (pending ps). K p \<union> V p))))"
  using assms
proof (induction "length (pending ps)" arbitrary: ps M rule: less_induct)
  case less
  show ?case
  proof (cases ps)
    case Nil
    then show ?thesis by (subst fini_run.simps) (simp add: restrict_map_def)
  next
    case (Cons q rest)
    obtain a r where q: "q = (a, r)" by (cases q)
    let ?F = "\<lambda>p. K p \<union> V p" and ?new = "spine r rest"
    let ?M = "M |` (- ({a} \<union> K a \<union> V a))"
    have ps: "pending ps = a # inorder r @ pending rest" "map fst ps = a # map fst rest" using Cons q by simp_all
    have new: "pending ?new = inorder r @ pending rest" by (rule pending_spine)
    have sub: "set (pending ps) = insert a (set (pending ?new))" "a \<notin> set (pending ?new)"
      using ps new less.prems(4) by auto
    have spec: "node_spec h K V a" using less.prems(1) ps(1) by simp
    have agree: "M a = h a" "\<And>p. p \<in> ?F a \<Longrightarrow> M p = h p" using less.prems(7) ps(1) by auto
    have same: "?M p = h p" if mem: "p \<in> set (pending ?new) \<union> (\<Union>p \<in> set (pending ?new). ?F p)" for p
    proof -
      have "p \<noteq> a" using mem sub less.prems(3) by blast
      moreover have "p \<notin> ?F a"
      proof (cases "p \<in> set (pending ?new)")
        case True
        then show ?thesis using less.prems(3) [of a] sub by blast
      next
        case False
        then obtain b where b: "b \<in> set (pending ?new)" "p \<in> ?F b" using mem by blast
        then have "a \<in> set (pending ps)" "b \<in> set (pending ps)" "a \<noteq> b" using sub by auto
        then have "?F a \<inter> ?F b = {}" using less.prems(2) unfolding apart_def by blast
        then show ?thesis using b(2) by blast
      qed
      moreover have "M p = h p" using less.prems(7) mem sub by blast
      ultimately show ?thesis by simp
    qed
    obtain n where n: "load_node h a = Some n" "node_right n = ptr r" "node_tree h r" "stack_nodes h rest"
      using less.prems(6) Cons q by auto
    have "load_node M a = Some n" using n(1) agree(1) loads_cong(3) [of M a h] by simp
    then have right: "get_right M a = Some (ptr r)" using n(2) by (simp add: get_right_def)
    have fits: "length rest + height r \<le> path_capacity" "stack_fits rest" using less.prems(5) Cons q by simp_all
    have "node_tree ?M r"
    proof -
      have "\<forall>p \<in> set (inorder r). ?M p = h p" using same new by simp
      then show ?thesis using node_tree_cong n(3) by blast
    qed
    note left = leftmost_spine [OF this fits(1)]
    have release: "do { h \<leftarrow> fini_run (Fini (Key a)) M; h \<leftarrow> fini_run (Fini (Val a)) h; free h a } = Some ?M"
      by (rule node_release [OF spec agree])
    have "fini_run (Dict_Nodes (map fst ps)) M = do {
        h \<leftarrow> do { h \<leftarrow> fini_run (Fini (Key a)) M; h \<leftarrow> fini_run (Fini (Val a)) h; free h a };
        stack \<leftarrow> value_dict_leftmost_path h (ptr r) (map fst rest);
        fini_run (Dict_Nodes stack) h }"
      unfolding ps(2) using right by (subst fini_run.simps) simp
    also have "\<dots> = fini_run (Dict_Nodes (map fst ?new)) ?M"
      unfolding release by (simp only: Option.bind.simps left)
    also have "\<dots> = Some (?M |` (- (set (pending ?new) \<union> (\<Union>p \<in> set (pending ?new). ?F p))))"
    proof (rule less.hyps)
      show "length (pending ?new) < length (pending ps)" using ps(1) new by simp
      show "node_spec h K V p" if "p \<in> set (pending ?new)" for p using less.prems(1) that sub by simp
      show "apart (set (pending ?new)) ?F" using less.prems(2) sub by (simp add: apart_def)
      show "?F p \<inter> set (pending ?new) = {}" if "p \<in> set (pending ?new)" for p
        using less.prems(3) [of p] that sub by blast
      show "distinct (pending ?new)" using less.prems(4) ps(1) new by simp
      show "stack_fits ?new" "stack_nodes h ?new" using stack_spine fits n by blast+
      show "?M p = h p" if "p \<in> set (pending ?new) \<union> (\<Union>p \<in> set (pending ?new). ?F p)" for p
        using same that by blast
    qed
    also have "?M |` (- (set (pending ?new) \<union> (\<Union>p \<in> set (pending ?new). ?F p))) =
        M |` (- (set (pending ps) \<union> (\<Union>p \<in> set (pending ps). ?F p)))"
      unfolding restrict_twice by (rule arg_cong [where f = "\<lambda>F. M |` (- F)"]) (use sub(1) in auto)
    finally show ?thesis .
  qed
qed


text \<open>The dictionary without its members.\<close>

definition cleared :: "bool \<Rightarrow> DICT \<Rightarrow> DICT" where
  "cleared ol D = D\<lparr>d_root := NULL, d_size := 0, d_order := (if ol
     then map_option (\<lambda>l. l\<lparr>order_head := NULL, order_tail := NULL\<rparr>) (d_order D) else d_order D)\<rparr>"

lemma dict_clean_run:
  assumes D: "load_dict h d = Some D" "t AND HAS_ORDERLIST \<noteq> 0 \<longrightarrow> d_order D \<noteq> None" "node_tree h T" "d_root D = ptr T"
      "height T \<le> path_capacity" "distinct (inorder T)" "d \<notin> set (inorder T)"
    and spec: "\<And>p. p \<in> set (inorder T) \<Longrightarrow> node_spec h K V p" "apart (set (inorder T)) (\<lambda>p. K p \<union> V p)"
      "\<And>p. p \<in> set (inorder T) \<Longrightarrow> (K p \<union> V p) \<inter> ({d} \<union> set (inorder T)) = {}"
    and v: "get_value M v = Some x" "cells_pointer x t d" "t AND TYPE_MASK = VALUE_DICT"
      "\<And>p. p \<in> {d} \<union> set (inorder T) \<union> (\<Union>p \<in> set (inorder T). K p \<union> V p) \<Longrightarrow> M p = h p"
      "vaddr v \<notin> {d} \<union> set (inorder T) \<union> (\<Union>p \<in> set (inorder T). K p \<union> V p)"
  shows "fini_run (Dict_Clean v) M = Some ((M |` (- (set (inorder T) \<union> (\<Union>p \<in> set (inorder T). K p \<union> V p))))
    (d \<mapsto> Dict_Block (cleared (t AND HAS_ORDERLIST \<noteq> 0) D)))"
proof -
  have x: "cells_tag x t" using v(2) by (simp add: cells_pointer_def)
  have d: "d \<noteq> NULL" using loads_nonnull(2) [OF D(1)] by simp
  have payload: "value_dict_payload M v = Some d"
    using tag_reads(3) [OF v(1) x] v(3) pointer_reads(3) [OF v(1,2)] by (simp add: value_dict_payload_def)
  have DM: "load_dict M d = Some D" using D(1) loads_cong(2) [of M d h] v(4) by simp
  have TM: "node_tree M T" using D(3) node_tree_cong [of T M h] v(4) by simp
  let ?U = "\<Union>p \<in> set (inorder T). K p \<union> V p" and ?ps = "spine T []"
  let ?M = "M |` (- (set (inorder T) \<union> ?U))"
  have ps: "pending ?ps = inorder T" by (simp add: pending_spine)
  have "length ([] :: (addr \<times> addr rbt) list) + height T \<le> path_capacity" using D(5) by simp
  note fits = this
  have left: "value_dict_leftmost_path M (d_root D) [] = Some (map fst ?ps)"
    using leftmost_spine [OF TM fits] D(4) by simp
  have run: "fini_run (Dict_Nodes (map fst ?ps)) M = Some ?M"
  proof (rule nodes_run [of ?ps h K V M, unfolded ps])
    show "stack_fits ?ps" "stack_nodes h ?ps" using stack_spine fits D(3) by simp_all
    show "(K p \<union> V p) \<inter> set (inorder T) = {}" if "p \<in> set (inorder T)" for p using spec(3) [OF that] by blast
    show "M p = h p" if "p \<in> set (inorder T) \<union> ?U" for p using v(4) that by blast
  qed (use spec(1,2) D(6) in simp_all)
  have dU: "d \<notin> set (inorder T) \<union> ?U" using D(7) spec(3) by blast
  then have DM': "load_dict ?M d = Some D" using DM loads_cong(2) [of ?M d M] by simp
  have "vaddr v \<notin> set (inorder T) \<union> ?U" using v(5) by blast
  then have "get_value ?M v = Some x" unfolding v(1) [symmetric] by (rule restrict_value)
  note order = tag_reads(5) [OF this x]
  define M' where M': "M' = ?M"
  have code: "fini_run (Dict_Clean v) M = do {
      ol \<leftarrow> has_order M' v;
      if ol then do {
        D \<leftarrow> load_dict M' d;
        ord \<leftarrow> d_order D;
        modify_dict M' d (\<lambda>D. D\<lparr>d_root := NULL, d_size := 0, d_order := Some (ord\<lparr>order_head := NULL, order_tail := NULL\<rparr>)\<rparr>)
      }
      else modify_dict M' d (\<lambda>D. D\<lparr>d_root := NULL, d_size := 0\<rparr>) }"
    using payload d DM left run [folded M'] by (subst fini_run.simps) simp
  show ?thesis
  proof (cases "t AND HAS_ORDERLIST \<noteq> 0")
    case True
    then obtain l where "d_order D = Some l" using D(2) by blast
    then show ?thesis unfolding code M' order using True DM' by (simp add: modify_dict_def cleared_def)
  next
    case False
    have "D\<lparr>d_root := NULL, d_size := 0\<rparr> = cleared False D" by (simp add: cleared_def)
    then show ?thesis unfolding code M' order using False DM' by (simp add: modify_dict_def)
  qed
qed

section \<open>The release of a value\<close>

lemma fini_cleaned:
  assumes v: "get_value M v = Some x" "cells_pointer x t p" "p \<noteq> NULL" "vaddr v \<noteq> p"
    and M': "get_value M' v = Some x" "M' p \<noteq> None"
    and clean: "t AND TYPE_MASK = VALUE_ARRAY \<and> fini_run (Array_Clean v) M = Some M' \<or>
      t AND TYPE_MASK = VALUE_DICT \<and> fini_run (Dict_Clean v) M = Some M'"
  shows "fini_run (Fini v) M = Some (upd_value (M' |` (- {p})) v (nulled x))"
proof -
  have x: "cells_tag x t" using v(2) by (simp add: cells_pointer_def)
  show ?thesis
    using tag_reads(1,3) [OF v(1) x] tag_reads(3) [OF M'(1) x] clean fini_last [OF M'(1) v(2,3) M'(2) v(4)]
    by (subst fini_run.simps) (auto simp: value_types)
qed

lemma owns_fini: "owns h x F \<Longrightarrow> fini_spec h x F"
proof (induction rule: owns.induct)
  case (inline x t)
  then show ?case by (rule fini_inline)
next
  case (raw x t p c)
  then show ?case by (intro fini_raw)
next
  case (array x t a A vs F)
  let ?U = "\<Union>i < length vs. F i"
  show ?case unfolding fini_spec_def
  proof (intro allI impI)
    fix M v assume v: "get_value M v = Some x" "\<forall>p \<in> {a} \<union> buffer_block A \<union> ?U. M p = h p"
      "vaddr v \<notin> {a} \<union> buffer_block A \<union> ?U"
    have x: "cells_tag x t" using array(1) by (simp add: cells_pointer_def)
    let ?M = "(M |` (- (buffer_block A \<union> ?U)))(a \<mapsto> Array_Block \<lparr>value_buf = NULL, a_size = 0, a_alloc = 0\<rparr>)"
    have spec: "fini_spec h (vs ! i) (F i)" if "i < length vs" for i using array.IH that by blast
    have clean: "fini_run (Array_Clean v) M = Some ?M"
      using array(7) v(2) by (intro array_clean_run [OF spec array(5,6) _ array(3,4) v(1) array(1,2)]) auto
    have va: "vaddr v \<notin> buffer_block A \<union> ?U" "vaddr v \<noteq> a" using v(3) by blast+
    have get: "get_value ?M v = Some x"
      unfolding get_elsewhere [OF va(2) [symmetric]] restrict_value [OF va(1)] by (rule v(1))
    have a: "a \<noteq> NULL" using loads_nonnull(1) [OF array(3)] by simp
    have "fini_run (Fini v) M = Some (upd_value (?M |` (- {a})) v (nulled x))"
      by (rule fini_cleaned [OF v(1) array(1) a va(2) get]) (use array(2) clean in simp_all)
    also have "?M |` (- {a}) = M |` (- ({a} \<union> buffer_block A \<union> ?U))"
      by (auto simp: restrict_map_def fun_eq_iff)
    finally show "fini_run (Fini v) M = Some (upd_value (M |` (- ({a} \<union> buffer_block A \<union> ?U))) v (nulled x))" .
  qed
next
  case (dict x t d D T K V)
  let ?U = "\<Union>p \<in> set (inorder T). K p \<union> V p" and ?N = "set (inorder T)"
  show ?case unfolding fini_spec_def
  proof (intro allI impI)
    fix M v assume v: "get_value M v = Some x" "\<forall>p \<in> {d} \<union> ?N \<union> ?U. M p = h p" "vaddr v \<notin> {d} \<union> ?N \<union> ?U"
    have x: "cells_tag x t" using dict(1) by (simp add: cells_pointer_def)
    let ?M = "(M |` (- (?N \<union> ?U)))(d \<mapsto> Dict_Block (cleared (t AND HAS_ORDERLIST \<noteq> 0) D))"
    have spec: "node_spec h K V p" if "p \<in> ?N" for p
      using dict.IH dict(11) that unfolding node_spec_def by blast
    have clean: "fini_run (Dict_Clean v) M = Some ?M"
      using dict(11) v(2,3) by (intro dict_clean_run [OF dict(3-9) spec dict(10) _ v(1) dict(1,2)]) auto
    have va: "vaddr v \<notin> ?N \<union> ?U" "vaddr v \<noteq> d" using v(3) by blast+
    have get: "get_value ?M v = Some x"
      unfolding get_elsewhere [OF va(2) [symmetric]] restrict_value [OF va(1)] by (rule v(1))
    have d: "d \<noteq> NULL" using loads_nonnull(2) [OF dict(3)] by simp
    have "fini_run (Fini v) M = Some (upd_value (?M |` (- {d})) v (nulled x))"
      by (rule fini_cleaned [OF v(1) dict(1) d va(2) get]) (use dict(2) clean in simp_all)
    also have "?M |` (- {d}) = M |` (- ({d} \<union> ?N \<union> ?U))" by (auto simp: restrict_map_def fun_eq_iff)
    finally show "fini_run (Fini v) M = Some (upd_value (M |` (- ({d} \<union> ?N \<union> ?U))) v (nulled x))" .
  qed
qed

text \<open>
  C13. \<open>value_fini\<close> on a value of any depth terminates, frees every block that the value owns, each exactly
  once, touches no other block and leaves a value of the type \<open>VALUE_NULL\<close>.
\<close>

theorem value_fini_frees:
  assumes "owns h x F" "get_value h v = Some x" "vaddr v \<notin> F"
  shows "F \<subseteq> dom h \<and> value_fini h v = Some (upd_value (h |` (- F)) v (x[0 := Some VALUE_NULL]))"
proof
  show "F \<subseteq> dom h" using owns_allocated [OF assms(1)] by blast
  show "value_fini h v = Some (upd_value (h |` (- F)) v (x[0 := Some VALUE_NULL]))"
    unfolding value_fini_def nulled_def [symmetric] by (rule fini_specD [OF owns_fini [OF assms(1)] assms(2) refl assms(3)])
qed

text \<open>An array of a long string and a null value.\<close>

definition two_items :: "VALUE list" where
  "two_items = [pointer_cells (indeterminate sizeof_VALUE) (VALUE_STRING OR IS_MALLOCED) 512,
     (indeterminate sizeof_VALUE)[0 := Some VALUE_NULL]]"

definition array_cells :: VALUE where
  "array_cells = pointer_cells (indeterminate sizeof_VALUE) (VALUE_ARRAY OR IS_MALLOCED) 128"

definition array_two :: value_mem where
  "array_two = [64 \<mapsto> Variable array_cells, 128 \<mapsto> Array_Block \<lparr>value_buf = 256, a_size = 2, a_alloc = 2\<rparr>,
     256 \<mapsto> Values two_items, 512 \<mapsto> Raw (indeterminate 20), 600 \<mapsto> Variable (indeterminate sizeof_VALUE)]"

lemma cells_pointer_new: "t AND IS_MALLOCED \<noteq> 0 \<Longrightarrow> cells_pointer (pointer_cells (indeterminate sizeof_VALUE) t p) t p"
  using length_pointer_cells [of "indeterminate sizeof_VALUE"] pointer_cells_parts [of "indeterminate sizeof_VALUE"]
  by (simp add: cells_pointer_def cells_tag_def indeterminate_def)

lemma array_two_items: "\<forall>i < length two_items. owns array_two (two_items ! i) (if i = 0 then {512} else {})"
proof -
  have t: "(VALUE_STRING OR IS_MALLOCED) AND TYPE_MASK \<notin> {VALUE_ARRAY, VALUE_DICT}" "(VALUE_STRING OR IS_MALLOCED) AND IS_MALLOCED \<noteq> 0"
    "VALUE_NULL AND IS_MALLOCED = 0" "VALUE_NULL AND TYPE_MASK \<notin> {VALUE_ARRAY, VALUE_DICT}"
    by (simp_all add: value_types value_flags)
  have "owns array_two (two_items ! 0) {512}"
    unfolding two_items_def nth_Cons_0
    by (rule owns.raw [OF cells_pointer_new [OF t(2)]]) (use t(1) in \<open>simp_all add: array_two_def\<close>)
  moreover have "owns array_two (two_items ! 1) {}"
    by (rule owns.inline [of _ VALUE_NULL]) (use t(3,4) in \<open>simp_all add: two_items_def cells_tag_def indeterminate_def sizeof_VALUE_def\<close>)
  ultimately show ?thesis by (auto simp: less_Suc_eq two_items_def)
qed

lemma array_two_owns: "owns array_two array_cells {128, 256, 512}"
proof -
  let ?A = "\<lparr>value_buf = 256, a_size = 2, a_alloc = 2\<rparr>" and ?F = "\<lambda>i :: nat. if i = 0 then {512 :: addr} else {}"
  have t: "(VALUE_ARRAY OR IS_MALLOCED) AND TYPE_MASK = VALUE_ARRAY" "(VALUE_ARRAY OR IS_MALLOCED) AND IS_MALLOCED \<noteq> 0"
    by (simp_all add: value_types value_flags)
  have A: "load_array array_two 128 = Some ?A" by (simp add: load_array_def load_def array_two_def)
  have items: "array_items array_two ?A two_items"
    by (simp add: array_items_def load_values_def load_def array_two_def two_items_def)
  have "owns array_two array_cells ({128} \<union> buffer_block ?A \<union> (\<Union>i < length two_items. ?F i))"
    unfolding array_cells_def
    by (rule owns.array [OF cells_pointer_new [OF t(2)] t(1) A items array_two_items])
      (simp_all add: apart_def buffer_block_def two_items_def less_Suc_eq)
  also have "{128} \<union> buffer_block ?A \<union> (\<Union>i < length two_items. ?F i) = {128, 256, 512}"
    by (auto simp: buffer_block_def two_items_def lessThan_Suc)
  finally show ?thesis .
qed

lemma value_fini_frees_witness:
  "value_fini array_two (Var 64) = Some [64 \<mapsto> Variable (array_cells[0 := Some VALUE_NULL]), 600 \<mapsto> Variable (indeterminate sizeof_VALUE)]"
proof -
  have "get_value array_two (Var 64) = Some array_cells" by (simp add: array_two_def load_def)
  note value_fini_frees [OF array_two_owns this]
  then show ?thesis by (simp add: array_two_def load_def restrict_map_insert fun_upd_twist)
qed

end
