(* ===== verification/Value_Dict_Insert.thy ===== *)
theory Value_Dict_Insert
  imports Value_Dict_Add
begin

text \<open>
  \<open>value_dict_get_or_add\<close> of \<open>data/value.c\<close>: it finds the value of a key, or adds a new one, or fails for lack
  of memory and changes nothing.
\<close>

section \<open>The new node in the dictionary\<close>

lemma add_order:
  assumes R: "dict_rest kc kf h v ns ord t d D" and sim: "sim (set ns) d h h S" and ns': "set ns' = insert node (set ns)"
    and node: "node \<notin> set ns" "node \<noteq> NULL" "node \<noteq> d" "load_node h node = Some n" "key_at h node s"
  shows "\<exists>h' D'. (if ord \<noteq> None then order_append h d node else Some h) = Some h' \<and> d_size D' = d_size D \<and>
    reordered (insert node (set ns)) d h h' \<and>
    dict_rest kc (kf(node := s)) h' v ns' (map_option (\<lambda>xs. xs @ [node]) ord) t d D'"
proof -
  note A = R [unfolded dict_rest_def]
  have S: "NULL \<notin> set ns" "d \<notin> set ns" "d \<noteq> NULL" using sim unfolding sim_def by blast+
  have nodes: "\<exists>n. h p = Some (Node_Block n)" if "p \<in> insert node (set ns)" for p
    using that sim node(4) by (auto simp: sim_refl load_node_def dest: load_SomeD split: option.splits block.splits)
  have D: "h d = Some (Dict_Block D)" using A by (auto simp: load_dict_def dest: load_SomeD split: option.splits block.splits)
  have "\<exists>h' D'. (if ord \<noteq> None then order_append h d node else Some h) = Some h' \<and> d_size D' = d_size D \<and>
      reordered (insert node (set ns)) d h h' \<and> load_dict h' d = Some D' \<and> uses_cmp t D' kc \<and>
      order_state h' t D' ns' (map_option (\<lambda>xs. xs @ [node]) ord)"
  proof (cases ord)
    case None
    have "reordered (insert node (set ns)) d h h"
      unfolding reordered_def
    proof (intro conjI ballI)
      show "NULL \<notin> insert node (set ns)" "d \<notin> insert node (set ns)" using S node by auto
      show "\<exists>D ord. h d = Some (Dict_Block D) \<and> h d = Some (Dict_Block (D\<lparr>d_order := ord\<rparr>))"
        using D by (intro exI [of _ D] exI [of _ "d_order D"]) simp
      fix p assume "p \<in> insert node (set ns)"
      then obtain n where "h p = Some (Node_Block n)" using nodes by blast
      then show "\<exists>n ord. h p = Some (Node_Block n) \<and> h p = Some (Node_Block (n\<lparr>node_order := ord\<rparr>))"
        by (intro exI [of _ n] exI [of _ "node_order n"]) simp
    qed simp
    then show ?thesis using A None by (simp add: order_state_def)
  next
    case (Some xs)
    then obtain l where l: "d_order D = Some l" "order_links h l xs" "distinct xs" "set xs = set ns" "t AND HAS_ORDERLIST \<noteq> 0"
      using A by (auto simp: order_state_def)
    obtain h' l' where h': "order_append h d node = Some h'" "load_dict h' d = Some (D\<lparr>d_order := Some l'\<rparr>)" "cmp_func l' = cmp_func l"
      "order_links h' l' (xs @ [node])" "reordered (insert node (set ns)) d h h'"
      using order_append [OF _ l(1-3), of d node n] A node S l(4) by auto
    have "uses_cmp t (D\<lparr>d_order := Some l'\<rparr>) kc" using A l(1) h'(3) by (auto simp: uses_cmp_def split: if_splits)
    then show ?thesis using Some h' l ns' node(1) by (simp add: order_state_def)
  qed
  then obtain h' D' where h': "(if ord \<noteq> None then order_append h d node else Some h) = Some h'" "d_size D' = d_size D"
      "reordered (insert node (set ns)) d h h'" "load_dict h' d = Some D'" "uses_cmp t D' kc"
      "order_state h' t D' ns' (map_option (\<lambda>xs. xs @ [node]) ord)" by (elim exE conjE) (rule that)
  have "dict_tag h' v t d" using A reordered_value [OF h'(3)] by (auto simp: dict_tag_def)
  moreover have "key_at h p ((kf(node := s)) p)" if "p \<in> set ns'" for p using that A node(1,5) ns' by auto
  then have "\<forall>p \<in> set ns'. key_at h' p ((kf(node := s)) p)" using reordered_key [OF h'(3)] ns' by blast
  ultimately show ?thesis using h' unfolding dict_rest_def by blast
qed

section \<open>The insertion into the tree\<close>

lemma put_put: "put (put S p x) p y = put S p y"
  by (simp add: put_def)

lemma rbtree_holds_put:
  assumes "rbtree_holds cmp S xs" "p \<notin> set xs"
  shows "rbtree_holds cmp (put S p x) xs"
proof -
  obtain T where "rep (nodes S) S T" "is_rb T" "inorder T = xs" "ordered cmp xs" using assms(1) by (auto simp: rbtree_holds_def)
  moreover have "rep (nodes (put S p x)) (put S p x) T"
    using calculation assms(2) holds_frame [of p T S x] by (auto simp: rep_def put_fields)
  ultimately show ?thesis by (auto simp: rbtree_holds_def)
qed

definition rb_attach :: "RBTREE \<Rightarrow> addr \<Rightarrow> (addr \<Rightarrow> int) \<Rightarrow> addr frame list \<Rightarrow> RBTREE option" where
  "rb_attach S node k ctx = do {
     S \<leftarrow> (if 0 < length ctx
           then if last_cmp k ctx < 0 then SET_LEFT S (parent_ptr ctx) node else SET_RIGHT S (parent_ptr ctx) node
           else Some (S\<lparr>root := node\<rparr>));
     rbtree_insert_fixup S (path_of ctx node)
   }"

lemma insert_run:
  assumes cmp: "comparator cmp" and H: "rbtree_holds cmp S ns" and node: "node \<notin> set ns" "node \<noteq> NULL" "even node"
    and F: "found_at (cmp node) S ns T ctx Leaf"
  shows "\<exists>S'. rb_attach (put S node (mknode Red NULL NULL)) node (cmp node) ctx = Some S' \<and>
    rbtree_holds cmp S' ([a \<leftarrow> ns. 0 < cmp node a] @ [node] @ [a \<leftarrow> ns. cmp node a < 0])"
proof -
  let ?S = "put S node (mknode Red NULL NULL)"
  note F = F [unfolded found_at_def]
  have absent: "\<not> (\<exists>a \<in> set ns. cmp node a = 0)" using F by simp
  have S: "nodes ?S node = Some (mknode Red NULL NULL)" by (simp add: put_def)
  note effect = rbtree_insert_effect [OF cmp rbtree_holds_put [OF H node(1)] node(2,3,1) S, unfolded if_not_P [OF absent]]
  have "node \<notin> set (inorder T)" using F node(1) by simp
  then have T: "holds ?S T" "ptr T = root ?S" using F holds_frame [of node T S] by (auto simp: rep_def put_fields)
  have "height T \<le> path_capacity" using rep_height [of _ S T] F by (fastforce simp: path_capacity_def)
  then have look: "rbtree_lookup_path ?S (root ?S) node cmp 0 [] = Some (last_cmp (cmp node) ctx, map frame_label ctx)"
    using lookup_path [OF T(1), of "[]" "cmp node" ctx Leaf cmp node] F T(2) by (simp add: last_cmp_def)
  have len: "length ctx \<le> 126" "ctx_dir (cmp node) ctx" using F by simp_all
  have "rbtree_insert ?S node cmp = do { S \<leftarrow> rb_attach ?S node (cmp node) ctx; Some (0, S) }"
    using insert_code [OF look len(2,1) S node(2)] by (simp add: put_put rb_attach_def)
  then show ?thesis using effect by (auto simp: bind_eq_Some_conv)
qed

lemma even_labels:
  assumes "found_at k S ns T ctx w" "sim (set ns) d h h S"
  shows "even_path (map frame_label ctx)"
proof -
  have "set (map frame_label ctx) \<subseteq> set (lefts ctx @ rights ctx)"
  proof (induction ctx)
    case (Cons f ctx)
    then show ?case by (cases f) auto
  qed simp
  also have "\<dots> \<subseteq> set ns" using assms(1) by (auto simp: found_at_def inorder_plug)
  finally show ?thesis using assms(2) by (auto simp: even_path_def sim_refl)
qed

lemma attach_refines:
  assumes "sim N d h0 h S" "even node" "even_path (map frame_label ctx)" "length ctx \<le> 126"
  shows "refines (\<lambda>S h. sim N d h0 h S) (rb_attach S node k ctx)
    (do { h \<leftarrow> dict_attach h d node (last_cmp k ctx) (map frame_label ctx);
       path \<leftarrow> path_push (map frame_label ctx) node;
       value_dict_fix_after_insert h d path })"
proof -
  have push: "path_push (map frame_label ctx) node = Some (path_of ctx node)"
    using assms(4) by (simp add: path_push_def path_capacity_def path_of_def)
  have top: "path_top (map frame_label ctx) (Suc 0) = Some (parent_ptr ctx)" if "0 < length ctx"
    using that by (cases ctx) (simp_all add: path_top_def peek_def)
  have path: "even_path (path_of ctx node)" using assms(2,3) by (simp add: even_path_def path_of_def)
  show ?thesis
  proof (cases "0 < length ctx")
    case True
    then show ?thesis unfolding rb_attach_def dict_attach_def push
      using assms(1,2) path top by (auto intro!: bind_sim refines_writes fix_after_insert_refines)
  next
    case False
    obtain h' where "set_root h d node = Some h'" "sim N d h0 h' (S\<lparr>root := node\<rparr>)" using sim_root [OF assms(1,2)] by blast
    then show ?thesis unfolding rb_attach_def dict_attach_def push
      using False path by (simp add: fix_after_insert_refines)
  qed
qed


section \<open>Other changes of the dictionary's own block\<close>

lemma dict_block_reads:
  assumes "h d = Some (Dict_Block D)"
  shows "get_value (h(d \<mapsto> Dict_Block D')) w = get_value h w" "load_node (h(d \<mapsto> Dict_Block D')) p = load_node h p"
    "string_value (h(d \<mapsto> Dict_Block D')) x s = string_value h x s"
proof -
  show "get_value (h(d \<mapsto> Dict_Block D')) w = get_value h w" using assms by (cases w) (auto simp: load_def)
  show "load_node (h(d \<mapsto> Dict_Block D')) p = load_node h p" using assms by (auto simp: load_node_def load_def)
  have "(h(d \<mapsto> Dict_Block D')) p = Some (Raw c) \<longleftrightarrow> h p = Some (Raw c)" for p c using assms by auto
  then show "string_value (h(d \<mapsto> Dict_Block D')) x s = string_value h x s" by (simp only: string_value_def)
qed

lemma dict_rest_block:
  assumes "dict_rest kc kf h v ns ord t d D" "d_order D' = d_order D" "d \<noteq> NULL"
  shows "dict_rest kc kf (h(d \<mapsto> Dict_Block D')) v ns ord t d D'"
proof -
  note R = assms(1) [unfolded dict_rest_def]
  then have "h d = Some (Dict_Block D)" by (auto simp: load_dict_def dest: load_SomeD split: option.splits block.splits)
  note same = dict_block_reads [where h = h and d = d, OF this, of D']
  have "order_links (h(d \<mapsto> Dict_Block D')) l xs = order_links h l xs" for l xs by (simp only: order_links_def same(2))
  then have "order_state (h(d \<mapsto> Dict_Block D')) t D' ns ord"
    using R assms(2) by (simp add: order_state_def split: option.splits)
  moreover have "uses_cmp t D' kc" using R assms(2) by (auto simp: uses_cmp_def split: if_splits)
  moreover have "load_dict (h(d \<mapsto> Dict_Block D')) d = Some D'" using assms(3) by (simp add: load_dict_def load_def)
  ultimately show ?thesis using R same unfolding dict_rest_def dict_tag_def key_at_def by simp
qed

lemma sim_block:
  assumes "sim N d h h S" "d_root D' = root S"
  shows "sim N d (h(d \<mapsto> Dict_Block D')) (h(d \<mapsto> Dict_Block D')) S"
  unfolding sim_refl
proof (intro conjI ballI)
  note S = assms(1) [unfolded sim_refl]
  show "dom (nodes S) = N" "NULL \<notin> N" "d \<noteq> NULL" "d \<notin> N" "even (root S)" using S by blast+
  show "\<exists>D. (h(d \<mapsto> Dict_Block D')) d = Some (Dict_Block D) \<and> d_root D = root S" using assms(2) by simp
  fix p assume p: "p \<in> N"
  then have "p \<noteq> d" using S by blast
  then show "\<exists>n. even p \<and> even (node_left n) \<and> even (node_right n) \<and> (h(d \<mapsto> Dict_Block D')) p = Some (Node_Block n) \<and>
      tagged (node_key n) \<and> nodes S p = Some (mknode (key_color (node_key n)) (node_left n) (node_right n))"
    using S p by simp
qed

section \<open>The effect\<close>

lemma split_length: "\<forall>a \<in> set xs. k a \<noteq> (0 :: int) \<Longrightarrow>
    length [a \<leftarrow> xs. 0 < k a] + length [a \<leftarrow> xs. k a < 0] = length xs"
  by (induction xs) auto

lemma key_source: "unat len = length (key_string key) \<Longrightarrow> source_bytes key len = Some (key_string key)"
  by (cases key) (auto simp: key_string_def source_bytes_def unat_eq_0)

text \<open>The key of the node that was allocated, with its buffer if it has one.\<close>

lemma new_key:
  assumes "h node = None" "node \<noteq> NULL" "new_string (h(node \<mapsto> Node_Block (new_node ol))) (Key node) s x h'"
  shows "\<exists>hb. h' = hb(node \<mapsto> Node_Block ((new_node ol)\<lparr>node_key := x\<rparr>)) \<and> h \<subseteq>\<^sub>m hb \<and> hb node = None \<and>
    tagged x \<and> (\<forall>n. string_value (hb(node \<mapsto> Node_Block n)) x s)"
proof -
  note N = assms(3) [unfolded new_string_def]
  have upd: "upd_value (h(node \<mapsto> Node_Block (new_node ol))) (Key node) x = h(node \<mapsto> Node_Block ((new_node ol)\<lparr>node_key := x\<rparr>))"
    by simp
  have x: "tagged x" "string_value h' x s" using N string_tagged by blast+
  have other: "string_value (hb(node \<mapsto> Node_Block n)) x s" if "h' = hb(node \<mapsto> Node_Block m)" for hb n m
  proof -
    have "(hb(node \<mapsto> Node_Block n)) p = Some (Raw c) \<longleftrightarrow> h' p = Some (Raw c)" for p c using that by simp
    then show ?thesis using x(2) by (simp only: string_value_def)
  qed
  show ?thesis
  proof (cases "value_buffer x")
    case None
    then show ?thesis using N upd assms(1) x(1) other by (intro exI [of _ h]) simp
  next
    case (Some p)
    then have p: "p \<noteq> node" "h p = None" "h' = (h(p \<mapsto> Raw (map Some (string_bytes s))))(node \<mapsto> Node_Block ((new_node ol)\<lparr>node_key := x\<rparr>))"
      using N upd by (auto simp: fun_upd_twist split: if_splits)
    moreover have "h \<subseteq>\<^sub>m h(p \<mapsto> Raw (map Some (string_bytes s)))" using p(2) by (auto simp: map_le_def)
    ultimately show ?thesis using assms(1) x(1) other by (intro exI [of _ "h(p \<mapsto> Raw (map Some (string_bytes s)))"]) simp
  qed
qed

definition keeps_values :: "addr set \<Rightarrow> value_mem \<Rightarrow> value_mem \<Rightarrow> bool" where
  "keeps_values N h h' \<longleftrightarrow> (\<forall>w x. get_value h w = Some x \<and> (\<forall>p \<in> N. w \<noteq> Key p) \<longrightarrow> get_value h' w = Some x)"

lemma dict_add_tree:
  assumes st: "dict_state kc kf h v ns ord t d D S" and le: "h \<subseteq>\<^sub>m hb" "hb node = None" and node: "node \<noteq> NULL" "even node"
    and F: "found_at (\<lambda>p. kc s ((kf(node := s)) p)) S ns T ctx Leaf"
    and x: "tagged x" "string_value (hb(node \<mapsto> Node_Block (fresh_node (ord \<noteq> None) x))) x s" "length s \<le> INT_MAX"
  defines "ns' \<equiv> [q \<leftarrow> ns. 0 < kc s (kf q)] @ node # [q \<leftarrow> ns. kc s (kf q) < 0]"
  shows "\<exists>h'. do {
      h \<leftarrow> (if ord \<noteq> None then order_append (hb(node \<mapsto> Node_Block (fresh_node (ord \<noteq> None) x))) d node
            else Some (hb(node \<mapsto> Node_Block (fresh_node (ord \<noteq> None) x))));
      h \<leftarrow> dict_attach h d node (last_cmp (\<lambda>p. kc s ((kf(node := s)) p)) ctx) (map frame_label ctx);
      path \<leftarrow> path_push (map frame_label ctx) node;
      h \<leftarrow> value_dict_fix_after_insert h d path;
      modify_dict h d (\<lambda>D. D\<lparr>d_size := d_size D + 1\<rparr>) } = Some h' \<and>
    dict_holds kc (kf(node := s)) h' v ns' (map_option (\<lambda>xs. xs @ [node]) ord) \<and>
    keeps_values (insert node (set ns)) h h' \<and> get_value h' (Val node) = Some (node_value (fresh_node (ord \<noteq> None) x))"
proof -
  let ?k = "key_order kc (kf(node := s))" and ?kf = "kf(node := s)" and ?n = "fresh_node (ord \<noteq> None) x"
  let ?N = "insert node (set ns)"
  define h3 where "h3 = hb(node \<mapsto> Node_Block ?n)"
  note get = dict_stateD [OF st] and R = st [unfolded dict_state_rest]
  have hnode: "h node = None" using le by (metis domIff map_le_implies_dom_le subset_iff)
  have fresh: "node \<notin> set ns" "node \<noteq> d"
    using get(8) hnode by (auto simp: sim_refl)
  have le3: "h \<subseteq>\<^sub>m h3" using le by (auto simp: h3_def map_le_def dom_def)
  have kn: "?k node = (\<lambda>p. kc s (?kf p))" by (simp add: key_order_def fun_eq_iff)
  have same: "\<forall>p \<in> set ns. ?kf p = kf p" using fresh(1) by auto
  have sim3: "sim ?N d h3 h3 (put S node (mknode Red NULL NULL))"
    unfolding h3_def by (rule sim_new [OF sim_le [OF get(8) le(1)] fresh(1) node(1) fresh(2) node(2) fresh_node_parts [OF x(1)]])
  have ns': "set ns' = ?N"
    using F unfolding ns'_def found_at_def by (auto simp: not_less le_less)
  have "string_value h3 (node_key ?n) s" using string_paint [OF x(2)] by (simp add: h3_def fresh_node_def new_node_def)
  then have key3: "load_node h3 node = Some ?n" "key_at h3 node s"
    using node(1) x(3) by (simp_all add: key_at_def load_node_def load_def h3_def)
  obtain h4 D4 where h4: "(if ord \<noteq> None then order_append h3 d node else Some h3) = Some h4" "d_size D4 = d_size D"
    "reordered ?N d h3 h4" "dict_rest kc ?kf h4 v ns' (map_option (\<lambda>xs. xs @ [node]) ord) t d D4"
    using add_order [OF dict_rest_le [OF _ le3] sim_le [OF get(8) le3] ns' fresh(1) node(1) fresh(2) key3] R by blast
  note sim4 = reordered_sim [OF h4(3) sim3]
  have holds: "rbtree_holds ?k S ns" using get(9) by (rule rbtree_holds_cong) (use same in \<open>simp add: key_order_def\<close>)
  obtain S' where S': "rb_attach (put S node (mknode Red NULL NULL)) node (?k node) ctx = Some S'"
    "rbtree_holds ?k S' ([a \<leftarrow> ns. 0 < ?k node a] @ [node] @ [a \<leftarrow> ns. ?k node a < 0])"
    using insert_run [OF comparator_key_order [OF get(7)] holds fresh(1) node F [folded kn]] by blast
  have ns'_eq: "[a \<leftarrow> ns. 0 < ?k node a] @ [node] @ [a \<leftarrow> ns. ?k node a < 0] = ns'"
    using same unfolding ns'_def kn by (simp cong: filter_cong)
  have len: "length ctx \<le> 126" using F by (simp add: found_at_def)
  obtain h5 where h5: "do {
      h \<leftarrow> dict_attach h4 d node (last_cmp (?k node) ctx) (map frame_label ctx);
      path \<leftarrow> path_push (map frame_label ctx) node;
      value_dict_fix_after_insert h d path } = Some h5" "sim ?N d h4 h5 S'"
    using attach_refines [OF sim4 node(2) even_labels [OF F get(8)] len, of "?k node"] S'(1) by (auto simp: refines_def)
  note rest5 = dict_rest_sim [OF h4(4), of h5 S', unfolded ns', OF h5(2)]
  define D6 where "D6 = D4\<lparr>d_root := root S', d_size := d_size D4 + 1\<rparr>"
  define h6 where "h6 = h5(d \<mapsto> Dict_Block D6)"
  have d5: "load_dict h5 d = Some (D4\<lparr>d_root := root S'\<rparr>)" using rest5 by (simp add: dict_rest_def)
  then have h6: "modify_dict h5 d (\<lambda>D. D\<lparr>d_size := d_size D + 1\<rparr>) = Some h6"
    by (simp add: modify_dict_def h6_def D6_def)
  have block5: "h5 d = Some (Dict_Block (D4\<lparr>d_root := root S'\<rparr>))"
    using d5 by (auto simp: load_dict_def dest: load_SomeD split: option.splits block.splits)
  have "dict_rest kc ?kf h6 v ns' (map_option (\<lambda>xs. xs @ [node]) ord) t d D6"
    unfolding h6_def by (rule dict_rest_block [OF rest5]) (simp_all add: D6_def get(6))
  moreover have "sim (set ns') d h6 h6 S'" unfolding h6_def ns' by (rule sim_block [OF sim_self [OF h5(2)]]) (simp add: D6_def)
  moreover have "d_size D6 = of_nat (length ns')"
  proof -
    have "length ns' = Suc (length ns)"
      using split_length [of ns "\<lambda>q. kc s (kf q)"] F same by (auto simp: ns'_def found_at_def)
    then show ?thesis using h4(2) R by (simp add: D6_def)
  qed
  ultimately have "dict_holds kc ?kf h6 v ns' (map_option (\<lambda>xs. xs @ [node]) ord)"
    using S'(2) get(7) unfolding ns'_eq dict_holds_def dict_state_rest by blast
  moreover have keep: "get_value h6 w = get_value h3 w" if "get_value h3 w \<noteq> None" "\<And>p. p \<in> ?N \<Longrightarrow> w \<noteq> Key p" for w
  proof -
    have 4: "get_value h4 w = get_value h3 w" using reordered_value [OF h4(3)] that(1) by simp
    then have "get_value h5 w = get_value h4 w" using sim_same(1) [OF h5(2)] that by simp
    then show ?thesis using 4 dict_block_reads(1) [where h = h5 and d = d, OF block5] by (simp add: h6_def)
  qed
  have "keeps_values ?N h h6"
    unfolding keeps_values_def
  proof (intro allI impI)
    fix w y assume w: "get_value h w = Some y \<and> (\<forall>p \<in> ?N. w \<noteq> Key p)"
    then have "get_value h3 w = Some y" using le_value [OF le3] by blast
    then show "get_value h6 w = Some y" using keep [of w] w by simp
  qed
  moreover have "get_value h6 (Val node) = Some (node_value ?n)"
    using keep [of "Val node"] node(1) by (simp add: h3_def load_def)
  ultimately show ?thesis using h4(1) h5(1) h6 kn unfolding h3_def [symmetric] by (auto simp: bind_eq_Some_conv)
qed


text \<open>
  Whether there is no memory for a new key: either the node is refused, or the block for a key of more than 13
  bytes, which is asked for once the node stands.
\<close>

definition key_refused :: "clib \<Rightarrow> value_mem \<Rightarrow> bool \<Rightarrow> byte list \<Rightarrow> bool" where
  "key_refused lib h order s \<longleftrightarrow>
     (let node = malloc lib h (if order then 64 else 48) in
      node = NULL \<or> string_refused lib (h(node \<mapsto> Node_Block (new_node order))) (Key node) (indeterminate sizeof_VALUE) s)"

lemma value_dict_get_or_add:
  assumes lib: "clib_ok lib" and st: "dict_state kc kf h v ns ord t d D S"
    and key: "key_string key = s" "unat len = length s" "length s \<le> INT_MAX"
  shows "value_of kc kf ns s \<noteq> VNull \<Longrightarrow> value_dict_get_or_add_n lib h v key len = Some (value_of kc kf ns s, h)"
    and "value_of kc kf ns s = VNull \<Longrightarrow>
      key_refused lib h (ord \<noteq> None) s \<and> value_dict_get_or_add_n lib h v key len = Some (VNull, h) \<or>
      \<not> key_refused lib h (ord \<noteq> None) s \<and> (\<exists>p h'. value_dict_get_or_add_n lib h v key len = Some (Val p, h') \<and> h p = None \<and>
        dict_holds kc (kf(p := s)) h' v ([q \<leftarrow> ns. 0 < kc s (kf q)] @ p # [q \<leftarrow> ns. kc s (kf q) < 0])
          (map_option (\<lambda>xs. xs @ [p]) ord) \<and>
        keeps_values (insert p (set ns)) h h' \<and> value_is_new h' (Val p) = Some True)"
proof -
  define node where "node = malloc lib h (if ord \<noteq> None then 64 else 48)"
  let ?kf = "kf(node := s)"
  note get = dict_stateD [OF st]
  have node: "node = NULL \<or> h node = None \<and> even node"
    using lib unfolding clib_ok_def node_def by blast
  have fresh: "node \<notin> set ns" using node get(8,10) by (auto simp: sim_refl)
  then have same: "\<forall>p \<in> set ns. ?kf p = kf p" by auto
  note st' = dict_state_cong [OF st same]
  obtain T ctx w where F: "found_at (\<lambda>p. kc s (?kf p)) S ns T ctx w" using dict_find [OF st', of node s] by auto
  note code = dict_find_code(1) [OF st' key(1,2) F]
  have w: "value_of kc kf ns s = (if w = Leaf then VNull else Val (ptr w))"
    using found_value [OF st' F] value_of_cong [OF same] by simp
  note start = value_dict_get_or_add_n_def get(1,2,3,6)
  show "value_of kc kf ns s \<noteq> VNull \<Longrightarrow> value_dict_get_or_add_n lib h v key len = Some (value_of kc kf ns s, h)"
  proof -
    assume found: "value_of kc kf ns s \<noteq> VNull"
    then have "w \<noteq> Leaf" "ptr w \<noteq> NULL" using w F get(10) by (auto simp: found_at_def split: if_splits)
    then show ?thesis using code w by (simp add: start)
  qed
  assume "value_of kc kf ns s = VNull"
  then have leaf: "w = Leaf" using w by (simp split: if_splits)
  note search = code [unfolded leaf, simplified]
  show "key_refused lib h (ord \<noteq> None) s \<and> value_dict_get_or_add_n lib h v key len = Some (VNull, h) \<or>
      \<not> key_refused lib h (ord \<noteq> None) s \<and> (\<exists>p h'. value_dict_get_or_add_n lib h v key len = Some (Val p, h') \<and> h p = None \<and>
        dict_holds kc (kf(p := s)) h' v ([q \<leftarrow> ns. 0 < kc s (kf q)] @ p # [q \<leftarrow> ns. kc s (kf q) < 0])
          (map_option (\<lambda>xs. xs @ [p]) ord) \<and>
        keeps_values (insert p (set ns)) h h' \<and> value_is_new h' (Val p) = Some True)"
  proof (cases "node = NULL")
    case True
    then have "key_refused lib h (ord \<noteq> None) s" by (simp add: key_refused_def node_def)
    then show ?thesis using search True by (simp add: start node_def Let_def)
  next
    case False
    then have n: "h node = None" "even node" "node \<noteq> NULL" using node by auto
    let ?h1 = "h(node \<mapsto> Node_Block (new_node (ord \<noteq> None)))" and ?k = "\<lambda>p. kc s (?kf p)"
    have get1: "get_value ?h1 (Key node) = Some (indeterminate sizeof_VALUE)" "length (indeterminate sizeof_VALUE) = sizeof_VALUE"
      using n(3) by (simp_all add: load_def new_node_def indeterminate_def)
    have src: "source_bytes key len = Some s" using key_source [of len key] key by simp
    have "length s < 2 ^ 63" using key(3) by (simp add: INT_MAX_def)
    note cases = init_string_cases [OF lib get1 key(2) this src]
    have refused: "key_refused lib h (ord \<noteq> None) s \<longleftrightarrow> string_refused lib ?h1 (Key node) (indeterminate sizeof_VALUE) s"
      using n(3) unfolding key_refused_def Let_def node_def [symmetric] by simp
    have run: "value_dict_get_or_add_n lib h v key len = do {
        (ret, h) \<leftarrow> value_init_string_n lib ?h1 (Key node) key len;
        if ret \<noteq> 0 then do { h \<leftarrow> free h node; Some (VNull, h) }
        else do {
          h \<leftarrow> value_init_new h (Val node);
          h \<leftarrow> set_left h node NULL;
          h \<leftarrow> set_right h node NULL;
          h \<leftarrow> NODE_MAKE_RED h node;
          h \<leftarrow> (if ord \<noteq> None then order_append h d node else Some h);
          h \<leftarrow> dict_attach h d node (last_cmp ?k ctx) (map frame_label ctx);
          path \<leftarrow> path_push (map frame_label ctx) node;
          h \<leftarrow> value_dict_fix_after_insert h d path;
          h \<leftarrow> modify_dict h d (\<lambda>D. D\<lparr>d_size := d_size D + 1\<rparr>);
          Some (Val node, h)
        } }"
      using search n(3) by (simp add: start node_def Let_def cong: if_cong)
    show ?thesis using cases
    proof (elim disjE conjE exE)
      assume no: "string_refused lib ?h1 (Key node) (indeterminate sizeof_VALUE) s" and fail: "value_init_string_n lib ?h1 (Key node) key len = Some (- 1, upd_value ?h1 (Key node) ((indeterminate sizeof_VALUE)[0 := Some VALUE_NULL]))"
      have "(upd_value ?h1 (Key node) y)(node := None) = h" for y using n(1) by (simp add: fun_upd_idem)
      then have "free (upd_value ?h1 (Key node) y) node = Some h" for y
        using n(3) by (simp add: free_def load_def)
      then have "value_dict_get_or_add_n lib h v key len = Some (VNull, h)" using fail unfolding run by (simp del: upd_value.simps)
      then show ?thesis using no unfolding refused by blast
    next
      fix x' h' assume init: "value_init_string_n lib ?h1 (Key node) key len = Some (0, h')" and new: "new_string ?h1 (Key node) s x' h'"
      assume yes: "\<not> string_refused lib ?h1 (Key node) (indeterminate sizeof_VALUE) s"
      obtain hb where hb: "h' = hb(node \<mapsto> Node_Block ((new_node (ord \<noteq> None))\<lparr>node_key := x'\<rparr>))" "h \<subseteq>\<^sub>m hb" "hb node = None"
        "tagged x'" "string_value (hb(node \<mapsto> Node_Block (fresh_node (ord \<noteq> None) x'))) x' s"
        using new_key [OF n(1,3) new] by blast
      note tree = dict_add_tree [OF st hb(2,3) n(3,2) F [unfolded leaf] hb(4,5) key(3)]
      then obtain h6 where h6: "do {
          h \<leftarrow> (if ord \<noteq> None then order_append (hb(node \<mapsto> Node_Block (fresh_node (ord \<noteq> None) x'))) d node
                else Some (hb(node \<mapsto> Node_Block (fresh_node (ord \<noteq> None) x'))));
          h \<leftarrow> dict_attach h d node (last_cmp ?k ctx) (map frame_label ctx);
          path \<leftarrow> path_push (map frame_label ctx) node;
          h \<leftarrow> value_dict_fix_after_insert h d path;
          modify_dict h d (\<lambda>D. D\<lparr>d_size := d_size D + 1\<rparr>) } = Some h6"
        "dict_holds kc ?kf h6 v ([q \<leftarrow> ns. 0 < kc s (kf q)] @ node # [q \<leftarrow> ns. kc s (kf q) < 0]) (map_option (\<lambda>xs. xs @ [node]) ord)"
        "keeps_values (insert node (set ns)) h h6" "get_value h6 (Val node) = Some (node_value (fresh_node (ord \<noteq> None) x'))"
        by (elim exE conjE) (rule that)
      have "value_dict_get_or_add_n lib h v key len = do {
          h \<leftarrow> do {
            h \<leftarrow> value_init_new h' (Val node);
            h \<leftarrow> set_left h node NULL;
            h \<leftarrow> set_right h node NULL;
            NODE_MAKE_RED h node };
          h \<leftarrow> do {
            h \<leftarrow> (if ord \<noteq> None then order_append h d node else Some h);
            h \<leftarrow> dict_attach h d node (last_cmp ?k ctx) (map frame_label ctx);
            path \<leftarrow> path_push (map frame_label ctx) node;
            h \<leftarrow> value_dict_fix_after_insert h d path;
            modify_dict h d (\<lambda>D. D\<lparr>d_size := d_size D + 1\<rparr>) };
          Some (Val node, h) }"
        unfolding run init by simp
      also have "\<dots> = Some (Val node, h6)"
        unfolding hb(1) prepare_new_node [OF n(3) hb(4)] by (simp only: Option.bind.simps h6(1))
      finally have "value_dict_get_or_add_n lib h v key len = Some (Val node, h6)" .
      moreover have "value_is_new h6 (Val node) = Some True"
      proof -
        have "node_value (fresh_node (ord \<noteq> None) x') = (indeterminate sizeof_VALUE)[0 := Some (VALUE_NULL OR IS_NEW)]"
          by (simp add: fresh_node_def)
        then have "data_get h6 (Val node) 0 = Some (VALUE_NULL OR IS_NEW)"
          using data_get [OF h6(4), of 0] by (simp add: indeterminate_def sizeof_VALUE_def)
        then show ?thesis by (simp add: value_is_new_def value_type_def value_types value_flags)
      qed
      ultimately show ?thesis using n(1) h6(2,3) yes unfolding refused by blast
    qed
  qed
qed


section \<open>What dictionaries promise\<close>

text \<open>
  C11. Whatever the order of the keys (the default one or that of the caller) and the size of the dictionary,
  \<open>value_dict_get_or_add\<close> returns without leaving its path array or touching a foreign block. When the key is
  there, it returns its value and the memory is as it was. Otherwise it returns NULL, and the memory is
  as it was, exactly when \<open>malloc\<close> refuses the node or the block of its key; and else a new value, marked as
  new, in a valid dictionary with the key at its place, at the end of the list of the order, where
  \<open>value_dict_get\<close> finds it. No other value in memory changes.
\<close>

theorem value_dict_get_or_add_correct:
  assumes lib: "clib_ok lib" and dict: "dict_holds kc kf h v ns ord"
    and key: "key_string key = s" "unat len = length s" "length s \<le> INT_MAX"
  shows "if value_of kc kf ns s \<noteq> VNull then value_dict_get_or_add_n lib h v key len = Some (value_of kc kf ns s, h)
    else if key_refused lib h (ord \<noteq> None) s then value_dict_get_or_add_n lib h v key len = Some (VNull, h)
    else \<exists>p h'. value_dict_get_or_add_n lib h v key len = Some (Val p, h') \<and> h p = None \<and>
      value_is_new h' (Val p) = Some True \<and>
      dict_holds kc (kf(p := s)) h' v ([q \<leftarrow> ns. 0 < kc s (kf q)] @ p # [q \<leftarrow> ns. kc s (kf q) < 0])
        (map_option (\<lambda>xs. xs @ [p]) ord) \<and>
      keeps_values (insert p (set ns)) h h' \<and> value_dict_get_n h' v key len = Some (Val p)"
proof -
  obtain t d D S where st: "dict_state kc kf h v ns ord t d D S" using dict by (auto simp: dict_holds_def)
  note add = value_dict_get_or_add [OF lib st key]
  show ?thesis
  proof (cases "value_of kc kf ns s = VNull")
    case False
    then show ?thesis using add(1) by simp
  next
    case none: True
    show ?thesis using add(2) [OF none]
    proof (elim disjE exE conjE)
      assume "key_refused lib h (ord \<noteq> None) s" "value_dict_get_or_add_n lib h v key len = Some (VNull, h)"
      then show ?thesis using none by simp
    next
      fix p h'
      let ?ns = "[q \<leftarrow> ns. 0 < kc s (kf q)] @ p # [q \<leftarrow> ns. kc s (kf q) < 0]"
      assume granted: "\<not> key_refused lib h (ord \<noteq> None) s"
      assume new: "value_dict_get_or_add_n lib h v key len = Some (Val p, h')" "h p = None"
        "dict_holds kc (kf(p := s)) h' v ?ns (map_option (\<lambda>xs. xs @ [p]) ord)"
        "keeps_values (insert p (set ns)) h h'" "value_is_new h' (Val p) = Some True"
      obtain t' d' D' S' where st': "dict_state kc (kf(p := s)) h' v ?ns (map_option (\<lambda>xs. xs @ [p]) ord) t' d' D' S'"
        using new(3) by (auto simp: dict_holds_def)
      have zero: "kc s ((kf(p := s)) p) = 0" using comparator.cmp_refl [OF dict_stateD(7) [OF st]] by simp
      have "value_of kc (kf(p := s)) ?ns s = Val p"
      proof (cases "find (\<lambda>q. kc s ((kf(p := s)) q) = 0) ?ns")
        case None
        then show ?thesis using zero by (auto simp: find_None_iff)
      next
        case (Some q)
        then have q: "q \<in> set ?ns" "kc s ((kf(p := s)) q) = 0" using find_Some_iff [of _ ?ns q] by (auto simp del: set_append)
        have "p \<in> set ?ns" by simp
        then have "q = p" using key_unique [OF st' q(1) _ q(2) zero] by blast
        then show ?thesis using Some by (simp add: value_of_def)
      qed
      then have "value_dict_get_n h' v key len = Some (Val p)" using dict_get [OF st' key(1,2)] by simp
      then show ?thesis using new none granted by simp
    qed
  qed
qed

text \<open>A small example: an empty dictionary.\<close>

definition dict_example :: value_mem where
  "dict_example = [64 \<mapsto> Variable (pointer_cells (indeterminate sizeof_VALUE) (VALUE_DICT OR IS_MALLOCED) 128),
     128 \<mapsto> Dict_Block \<lparr>d_root = NULL, d_size = 0, d_order = None\<rparr>]"

lemma dict_example_holds: "dict_holds key_cmp (\<lambda>p. []) dict_example (Var 64) [] None"
proof -
  let ?D = "\<lparr>d_root = NULL, d_size = 0, d_order = None\<rparr>" and ?S = "\<lparr>nodes = Map.empty, root = NULL\<rparr>"
  have t: "(VALUE_DICT OR IS_MALLOCED) AND TYPE_MASK = VALUE_DICT" "(VALUE_DICT OR IS_MALLOCED) AND IS_MALLOCED \<noteq> 0"
    "(VALUE_DICT OR IS_MALLOCED) AND HAS_CUSTOMCMP = 0" "(VALUE_DICT OR IS_MALLOCED) AND HAS_ORDERLIST = 0"
    by (simp_all add: value_types value_flags)
  have "length (indeterminate sizeof_VALUE) = sizeof_VALUE" by (simp add: indeterminate_def)
  note parts = length_pointer_cells [OF this] pointer_cells_parts [OF this]
  have "dict_tag dict_example (Var 64) (VALUE_DICT OR IS_MALLOCED) 128"
    unfolding dict_tag_def using parts t(1,2)
    by (intro exI [of _ "pointer_cells (indeterminate sizeof_VALUE) (VALUE_DICT OR IS_MALLOCED) 128"]) (simp add: dict_example_def load_def)
  moreover have "load_dict dict_example 128 = Some ?D" by (simp add: dict_example_def load_dict_def load_def)
  moreover have "sim {} 128 dict_example dict_example ?S" by (simp add: sim_refl dict_example_def)
  moreover have "rbtree_holds (key_order key_cmp (\<lambda>p. [])) ?S []"
    unfolding rbtree_holds_def by (intro exI [of _ Leaf]) (simp add: rep_def is_rb_def ordered_def)
  ultimately have "dict_state key_cmp (\<lambda>p. []) dict_example (Var 64) [] None (VALUE_DICT OR IS_MALLOCED) 128 ?D ?S"
    using t keys.comparator_axioms by (simp add: dict_state_def uses_cmp_def order_state_def)
  then show ?thesis unfolding dict_holds_def by blast
qed

lemma value_dict_get_or_add_correct_witness:
  "(\<exists>p h'. value_dict_get_or_add_n one_block dict_example (Var 64) (Some [97]) 1 = Some (Val p, h') \<and>
      value_dict_get_n h' (Var 64) (Some [97]) 1 = Some (Val p)) \<and>
   value_dict_get_or_add_n no_memory dict_example (Var 64) (Some [97]) 1 = Some (VNull, dict_example)"
proof -
  have key: "key_string (Some [97]) = [97]" "unat (1 :: size_t) = length [97 :: byte]" "length [97 :: byte] \<le> INT_MAX"
    by (simp_all add: key_string_def INT_MAX_def)
  have node: "malloc one_block dict_example 48 = 256" by (simp add: one_block_def dict_example_def)
  have mem: "\<not> key_refused one_block dict_example False [97]" "key_refused no_memory dict_example False [97]"
    by (simp_all add: key_refused_def node string_refused_def) (simp add: no_memory_def)
  have none: "value_of key_cmp (\<lambda>p. []) [] [97] = VNull" by (simp add: value_of_def)
  from value_dict_get_or_add_correct [OF one_block_ok dict_example_holds key]
    value_dict_get_or_add_correct [OF no_memory_ok dict_example_holds key]
  show ?thesis using mem none by auto
qed

text \<open>
  C30. \<open>value_dict_get\<close> finds the value of a key, if there is a node with an equal key, in every valid dictionary,
  and its size is the number of the nodes, modulo \<open>2 ^ 64\<close>.
\<close>

theorem value_dict_get_correct:
  assumes "dict_holds kc kf h v ns ord" "key_string key = s" "unat len = length s"
  shows "value_dict_get_n h v key len = Some (value_of kc kf ns s) \<and> value_dict_size h v = Some (of_nat (length ns)) \<and>
    (\<forall>p. value_of kc kf ns s = Val p \<longleftrightarrow> p \<in> set ns \<and> kc s (kf p) = 0)"
proof -
  obtain t d D S where st: "dict_state kc kf h v ns ord t d D S" using assms(1) by (auto simp: dict_holds_def)
  have "value_dict_size h v = Some (of_nat (length ns))"
    using dict_stateD [OF st] st by (simp add: value_dict_size_def dict_state_def)
  moreover have "value_of kc kf ns s = Val p \<longleftrightarrow> p \<in> set ns \<and> kc s (kf p) = 0" for p
  proof (cases "find (\<lambda>q. kc s (kf q) = 0) ns")
    case None
    then have "value_of kc kf ns s = VNull" by (simp add: value_of_def)
    then show ?thesis using None by (auto simp: find_None_iff)
  next
    case (Some q)
    then have "q \<in> set ns" "kc s (kf q) = 0" by (auto simp: find_Some_iff)
    then show ?thesis using Some key_unique [OF st, of q p s] by (auto simp: value_of_def)
  qed
  ultimately show ?thesis using dict_get [OF st assms(2,3)] by blast
qed

lemma value_dict_get_correct_witness:
  "value_dict_get_n dict_example (Var 64) (Some [97]) 1 = Some VNull \<and> value_dict_size dict_example (Var 64) = Some 0"
proof -
  have "key_string (Some [97]) = [97]" "unat (1 :: size_t) = length [97 :: byte]" by (simp_all add: key_string_def)
  from value_dict_get_correct [OF dict_example_holds this] show ?thesis by (simp add: value_of_def)
qed

text \<open>
  A key whose value was added and not initialised since is in use, and still \<open>value_dict_add\<close> returns its value
  where \<open>value.h\<close> promises NULL.
\<close>

theorem value_dict_add_existing_new:
  assumes "clib_ok lib" "dict_holds kc kf h v ns ord" "key_string key = s" "unat len = length s" "length s \<le> INT_MAX"
    and "p \<in> set ns" "kc s (kf p) = 0" "value_is_new h (Val p) = Some True"
  shows "value_dict_add_n lib h v key len = Some (Val p, h)"
proof -
  obtain t d D S where st: "dict_state kc kf h v ns ord t d D S" using assms(2) by (auto simp: dict_holds_def)
  obtain q where q: "find (\<lambda>q. kc s (kf q) = 0) ns = Some q"
    using assms(6,7) by (cases "find (\<lambda>q. kc s (kf q) = 0) ns") (auto simp: find_None_iff)
  then have "q \<in> set ns" "kc s (kf q) = 0" by (auto simp: find_Some_iff)
  then have "value_of kc kf ns s = Val p" using q key_unique [OF st assms(6) _ assms(7)] by (auto simp: value_of_def)
  then show ?thesis using value_dict_get_or_add(1) [OF assms(1) st assms(3-5)] assms(8) by (simp add: value_dict_add_n_def)
qed


text \<open>A dictionary with the key \<open>a\<close>, whose value is new.\<close>

definition one_node :: RBTREE_tag where
  "one_node = \<lparr>node_key = inline_cells (indeterminate sizeof_VALUE) VALUE_STRING (string_bytes [97]),
     node_value = (indeterminate sizeof_VALUE)[0 := Some (VALUE_NULL OR IS_NEW)], node_left = NULL, node_right = NULL, node_order = None\<rparr>"

definition dict_one :: value_mem where
  "dict_one = [64 \<mapsto> Variable (pointer_cells (indeterminate sizeof_VALUE) (VALUE_DICT OR IS_MALLOCED) 128),
     128 \<mapsto> Dict_Block \<lparr>d_root = 256, d_size = 1, d_order = None\<rparr>, 256 \<mapsto> Node_Block one_node]"

lemma one_node_key: "string_value h (node_key one_node) [97]" "key_color (node_key one_node) = Black"
proof -
  have x: "length (indeterminate sizeof_VALUE) = sizeof_VALUE" by (simp add: indeterminate_def)
  have "length [97 :: byte] \<le> 13" by simp
  then have "length (string_bytes [97]) + 1 \<le> sizeof_VALUE" unfolding string_size_13 .
  then show "string_value h (node_key one_node) [97]" using inline_string(1) [OF x] by (simp add: one_node_def)
  show "key_color (node_key one_node) = Black"
    by (simp add: one_node_def key_color_def inline_cells_def value_types value_flags)
qed

lemma dict_one_holds: "dict_holds key_cmp (\<lambda>p. [97]) dict_one (Var 64) [256] None"
proof -
  let ?D = "\<lparr>d_root = 256, d_size = 1, d_order = None\<rparr>" and ?S = "\<lparr>nodes = [256 \<mapsto> mknode Black NULL NULL], root = 256\<rparr>"
  have t: "(VALUE_DICT OR IS_MALLOCED) AND TYPE_MASK = VALUE_DICT" "(VALUE_DICT OR IS_MALLOCED) AND IS_MALLOCED \<noteq> 0"
    "(VALUE_DICT OR IS_MALLOCED) AND HAS_CUSTOMCMP = 0" "(VALUE_DICT OR IS_MALLOCED) AND HAS_ORDERLIST = 0"
    by (simp_all add: value_types value_flags)
  have "length (indeterminate sizeof_VALUE) = sizeof_VALUE" by (simp add: indeterminate_def)
  note parts = length_pointer_cells [OF this] pointer_cells_parts [OF this]
  have "dict_tag dict_one (Var 64) (VALUE_DICT OR IS_MALLOCED) 128"
    unfolding dict_tag_def using parts t(1,2)
    by (intro exI [of _ "pointer_cells (indeterminate sizeof_VALUE) (VALUE_DICT OR IS_MALLOCED) 128"]) (simp add: dict_one_def load_def)
  moreover have "load_dict dict_one 128 = Some ?D" by (simp add: dict_one_def load_dict_def load_def)
  moreover have "key_at dict_one 256 [97]"
    using one_node_key by (simp add: key_at_def load_node_def load_def INT_MAX_def) (simp add: dict_one_def)
  moreover have "sim {256} 128 dict_one dict_one ?S"
    using one_node_key(2) string_tagged [OF one_node_key(1)] by (simp add: sim_refl dict_one_def) (simp add: one_node_def)
  moreover have "rbtree_holds (key_order key_cmp (\<lambda>p. [97])) ?S [256]"
    unfolding rbtree_holds_def
    by (intro exI [of _ "Node Black Leaf 256 Leaf"]) (simp add: rep_def is_rb_def ordered_def cell_def)
  ultimately have "dict_state key_cmp (\<lambda>p. [97]) dict_one (Var 64) [256] None (VALUE_DICT OR IS_MALLOCED) 128 ?D ?S"
    using t keys.comparator_axioms by (simp add: dict_state_def uses_cmp_def order_state_def)
  then show ?thesis unfolding dict_holds_def by blast
qed

lemma value_dict_add_existing_new_witness:
  "value_dict_add_n no_memory dict_one (Var 64) (Some [97]) 1 = Some (Val 256, dict_one)"
proof (rule value_dict_add_existing_new [OF no_memory_ok dict_one_holds, where s = "[97]"])
  show "value_is_new dict_one (Val 256) = Some True"
    by (simp add: value_is_new_def value_type_def data_get_def dict_one_def load_def one_node_def peek_def
        indeterminate_def sizeof_VALUE_def value_types value_flags)
qed (simp_all add: key_string_def INT_MAX_def key_cmp_eq)

end
