(* ===== verification/Value_Dict_Remove.thy ===== *)
theory Value_Dict_Remove
  imports Value_Own Value_Dict_Insert
begin

text \<open>
  Removal from a dictionary of \<open>data/value.c\<close>: the node leaves the tree and the list of the order, and the blocks
  of its key and its value are released.
\<close>

section \<open>The tree\<close>

lemma remove_run:
  assumes cmp: "comparator cmp" and H: "rbtree_holds cmp S ns" and F: "found_at (cmp key) S ns T ctx w" "w \<noteq> Leaf"
  shows "\<exists>S'. rb_disconnect S (ptr w) (path_of ctx (ptr w)) = Some S' \<and> rbtree_holds cmp S' (remove1 (ptr w) ns)"
proof -
  note F' = F(1) [unfolded found_at_def]
  have T: "holds S T" "ptr T = root S" using F' by (auto simp: rep_def)
  have "height T \<le> path_capacity" using rep_height [of _ S T] F' by (fastforce simp: path_capacity_def)
  then have look: "rbtree_lookup_path S (root S) key cmp 0 [] = Some (0, path_of ctx (ptr w))"
    using lookup_path [OF T(1), of "[]" "cmp key" ctx w cmp key] F' F(2) T(2) by (simp add: last_cmp_def)
  have top: "path_top (path_of ctx (ptr w)) (Suc 0) = Some (ptr w)" "path_of ctx (ptr w) \<noteq> []"
    by (simp_all add: path_of_def path_top_def peek_def)
  have "\<exists>a \<in> set ns. cmp key a = 0" using F' F(2) by auto
  from rbtree_remove_effect [OF cmp H, of key, unfolded if_P [OF this]] obtain a S' where
    "rbtree_remove S key cmp = Some (a, S')" "rbtree_holds cmp S' (remove1 a ns)" by blast
  then show ?thesis unfolding rbtree_remove_disconnect look using top by (auto simp: bind_eq_Some_conv)
qed

lemma holds_restrict: "holds S t \<Longrightarrow> p \<notin> set (inorder t) \<Longrightarrow> holds (S\<lparr>nodes := (nodes S)(p := None)\<rparr>) t"
  by (induction t) (auto simp: cell_def)

lemma rbtree_holds_restrict:
  assumes "rbtree_holds cmp S xs" "p \<notin> set xs"
  shows "rbtree_holds cmp (S\<lparr>nodes := (nodes S)(p := None)\<rparr>) xs"
proof -
  obtain T where "rep (nodes S) S T" "is_rb T" "inorder T = xs" "ordered cmp xs" using assms(1) by (auto simp: rbtree_holds_def)
  moreover have "rep (nodes (S\<lparr>nodes := (nodes S)(p := None)\<rparr>)) (S\<lparr>nodes := (nodes S)(p := None)\<rparr>) T"
    using calculation assms(2) holds_restrict [of S T p] by (auto simp: rep_def)
  ultimately show ?thesis by (auto simp: rbtree_holds_def)
qed

section \<open>The list of the order\<close>

text \<open>Taking a node out joins its neighbours; the links are by position.\<close>

definition link_prev :: "addr list \<Rightarrow> nat \<Rightarrow> addr" where
  "link_prev xs i = (if i = 0 then NULL else xs ! (i - 1))"

definition link_next :: "addr list \<Rightarrow> nat \<Rightarrow> addr" where
  "link_next xs i = (if Suc i < length xs then xs ! Suc i else NULL)"

lemma order_links_at:
  "order_links h l xs \<longleftrightarrow> order_head l = (if xs = [] then NULL else hd xs) \<and> order_tail l = (if xs = [] then NULL else last xs) \<and>
     (\<forall>i < length xs. \<exists>n. load_node h (xs ! i) = Some n \<and> node_order n = Some (link_prev xs i, link_next xs i))"
  by (simp add: order_links_def link_prev_def link_next_def)

lemma links_removed:
  assumes xs_def: "xs = as @ a # bs" and "i < length (as @ bs)" "distinct xs"
  shows "\<exists>j < length xs. (as @ bs) ! i = xs ! j \<and> xs ! j \<noteq> a \<and>
    link_prev (as @ bs) i = (if bs \<noteq> [] \<and> xs ! j = hd bs then if as = [] then NULL else last as else link_prev xs j) \<and>
    link_next (as @ bs) i = (if as \<noteq> [] \<and> xs ! j = last as then if bs = [] then NULL else hd bs else link_next xs j)"
proof (cases "i < length as")
  case True
  have disj: "set as \<inter> set bs = {}" using assms(3) by (simp add: xs_def)
  then have "as ! i \<noteq> hd bs" if "bs \<noteq> []" using nth_mem [OF True] hd_in_set [OF that] by (metis disjoint_iff)
  moreover have "as ! i = last as \<longleftrightarrow> Suc i = length as"
    using True assms(3) nth_eq_iff_index_eq [of as i "length as - 1"] last_conv_nth [of as] by (cases "as = []") (auto simp: xs_def)
  moreover have "as ! i \<noteq> a" using True assms(3) nth_mem [OF True] by (auto simp: xs_def)
  ultimately show ?thesis using True
    by (intro exI [of _ i]) (auto simp: xs_def nth_append link_prev_def link_next_def hd_conv_nth)
next
  case False
  define j where "j = i - length as"
  then have j: "i = length as + j" "j < length bs" using False assms(2) by simp_all
  have ne: "bs \<noteq> []" using j(2) by auto
  have disj: "set as \<inter> set bs = {}" using assms(3) by (simp add: xs_def)
  then have "bs ! j \<noteq> last as" if "as \<noteq> []" using nth_mem [OF j(2)] last_in_set [OF that] by (metis disjoint_iff)
  moreover have "bs ! j = hd bs \<longleftrightarrow> j = 0"
    using j(2) assms(3) nth_eq_iff_index_eq [of bs j 0] ne by (auto simp: xs_def hd_conv_nth)
  moreover have "bs ! j \<noteq> a" using assms(3) nth_mem [OF j(2)] by (auto simp: xs_def)
  ultimately show ?thesis using j(2) ne unfolding j(1)
    by (intro exI [of _ "Suc (length as + j)"]) (auto simp: xs_def nth_append link_prev_def link_next_def last_conv_nth)
qed

lemma set_order:
  assumes "load_node h p = Some m" "node_order m = Some (a, b)"
  shows "set_order_next h p q = Some (h(p \<mapsto> Node_Block (m\<lparr>node_order := Some (a, q)\<rparr>)))"
    "set_order_prev h p q = Some (h(p \<mapsto> Node_Block (m\<lparr>node_order := Some (q, b)\<rparr>)))"
  using assms by (simp_all add: set_order_next_def set_order_prev_def modify_node_def)

lemma node_reload:
  "load_node (h(p \<mapsto> Node_Block m)) q = (if q = p \<and> p \<noteq> NULL then Some m else load_node h q)"
  by (auto simp: load_node_def load_def)

lemma dict_reload:
  "load_dict h d = Some D0 \<Longrightarrow> load_node (h(d \<mapsto> Dict_Block D)) q = load_node h q"
  "load_dict h d = Some D0 \<Longrightarrow> load_dict (h(d \<mapsto> Dict_Block D)) d = Some D"
  "p \<noteq> d \<Longrightarrow> load_dict (h(p \<mapsto> b)) d = load_dict h d"
  by (auto simp: load_node_def load_dict_def load_def split: option.splits if_splits block.splits)

text \<open>A change of the links only, by a function of the old ones.\<close>

definition relinked :: "value_mem \<Rightarrow> addr \<Rightarrow> DICT \<Rightarrow> addr set \<Rightarrow> value_mem \<Rightarrow> DICT_order \<Rightarrow> (addr \<Rightarrow> addr \<times> addr \<Rightarrow> addr \<times> addr) \<Rightarrow> bool" where
  "relinked h d D N h' l' f \<longleftrightarrow> load_dict h' d = Some (D\<lparr>d_order := Some l'\<rparr>) \<and> (\<forall>p. p \<notin> N \<and> p \<noteq> d \<longrightarrow> h' p = h p) \<and>
     (\<forall>p \<in> N. \<forall>n ab. load_node h p = Some n \<longrightarrow> node_order n = Some ab \<longrightarrow>
        load_node h' p = Some (n\<lparr>node_order := Some (f p ab)\<rparr>))"

definition linked_nodes :: "value_mem \<Rightarrow> addr \<Rightarrow> DICT \<Rightarrow> DICT_order \<Rightarrow> addr set \<Rightarrow> bool" where
  "linked_nodes h d D l N \<longleftrightarrow> load_dict h d = Some D \<and> d_order D = Some l \<and> d \<notin> N \<and> NULL \<notin> N \<and>
     (\<forall>p \<in> N. \<exists>n ab. load_node h p = Some n \<and> node_order n = Some ab)"

lemma relinked_trans:
  "relinked h d D N h1 l1 f \<Longrightarrow> relinked h1 d (D\<lparr>d_order := Some l1\<rparr>) N h2 l2 g \<Longrightarrow> relinked h d D N h2 l2 (\<lambda>p ab. g p (f p ab))"
proof -
  assume r1: "relinked h d D N h1 l1 f" and r2: "relinked h1 d (D\<lparr>d_order := Some l1\<rparr>) N h2 l2 g"
  have "load_node h2 p = Some (n\<lparr>node_order := Some (g p (f p ab))\<rparr>)"
    if "p \<in> N" "load_node h p = Some n" "node_order n = Some ab" for p n ab
  proof -
    have "load_node h1 p = Some (n\<lparr>node_order := Some (f p ab)\<rparr>)" using r1 that unfolding relinked_def by blast
    then have "load_node h2 p = Some (n\<lparr>node_order := Some (f p ab)\<rparr>\<lparr>node_order := Some (g p (f p ab))\<rparr>)"
      using r2 that(1) by (simp add: relinked_def del: split_paired_All)
    then show ?thesis by simp
  qed
  then show ?thesis using r1 r2 by (simp add: relinked_def)
qed

lemma relinked_nodes:
  assumes "relinked h d D N h1 l1 f" "linked_nodes h d D l N"
  shows "linked_nodes h1 d (D\<lparr>d_order := Some l1\<rparr>) l1 N"
  using assms unfolding relinked_def linked_nodes_def by fastforce

lemma relink_next:
  assumes N: "linked_nodes h d D l N" and prev: "prev = NULL \<or> prev \<in> N"
  shows "\<exists>h'. (if prev \<noteq> NULL then set_order_next h prev next else modify_order h d (\<lambda>ord. ord\<lparr>order_head := next\<rparr>)) = Some h' \<and>
    relinked h d D N h' (l\<lparr>order_head := if prev = NULL then next else order_head l\<rparr>) (\<lambda>p (a, b). (a, if p = prev then next else b))"
proof -
  note L = N [unfolded linked_nodes_def]
  show ?thesis
  proof (cases "prev = NULL")
    case True
    then show ?thesis using L
      by (intro exI [of _ "h(d \<mapsto> Dict_Block (D\<lparr>d_order := Some (l\<lparr>order_head := next\<rparr>)\<rparr>))"])
        (auto simp: modify_order_def modify_dict_def relinked_def dict_reload)
  next
    case False
    then obtain m a b where m: "load_node h prev = Some m" "node_order m = Some (a, b)" using L prev by fast
    have "D\<lparr>d_order := Some l\<rparr> = D" using L by (cases D) simp
    moreover have "prev \<noteq> d" using prev L False by auto
    ultimately show ?thesis using False L m prev
      by (intro exI [of _ "h(prev \<mapsto> Node_Block (m\<lparr>node_order := Some (a, next)\<rparr>))"])
        (auto simp: relinked_def dict_reload node_reload set_order(1) [OF m])
  qed
qed

lemma relink_prev:
  assumes N: "linked_nodes h d D l N" and nxt: "next = NULL \<or> next \<in> N"
  shows "\<exists>h'. (if next \<noteq> NULL then set_order_prev h next prev else modify_order h d (\<lambda>ord. ord\<lparr>order_tail := prev\<rparr>)) = Some h' \<and>
    relinked h d D N h' (l\<lparr>order_tail := if next = NULL then prev else order_tail l\<rparr>) (\<lambda>p (a, b). (if p = next then prev else a, b))"
proof -
  note L = N [unfolded linked_nodes_def]
  show ?thesis
  proof (cases "next = NULL")
    case True
    then show ?thesis using L
      by (intro exI [of _ "h(d \<mapsto> Dict_Block (D\<lparr>d_order := Some (l\<lparr>order_tail := prev\<rparr>)\<rparr>))"])
        (auto simp: modify_order_def modify_dict_def relinked_def dict_reload)
  next
    case False
    then obtain m a b where m: "load_node h next = Some m" "node_order m = Some (a, b)" using L nxt by fast
    have "D\<lparr>d_order := Some l\<rparr> = D" using L by (cases D) simp
    moreover have "next \<noteq> d" using nxt L False by auto
    ultimately show ?thesis using False L m nxt
      by (intro exI [of _ "h(next \<mapsto> Node_Block (m\<lparr>node_order := Some (prev, b)\<rparr>))"])
        (auto simp: relinked_def dict_reload node_reload set_order(2) [OF m])
  qed
qed

lemma order_remove_code:
  assumes N: "linked_nodes h d D l N" and node: "load_node h node = Some n" "node_order n = Some (prev, next)" "node \<in> N"
    and ends: "prev = NULL \<or> prev \<in> N - {node}" "next = NULL \<or> next \<in> N"
  shows "\<exists>h'. order_remove h d node = Some h' \<and>
    relinked h d D N h' (l\<lparr>order_head := if prev = NULL then next else order_head l, order_tail := if next = NULL then prev else order_tail l\<rparr>)
      (\<lambda>p (a, b). (if p = next then prev else a, if p = prev then next else b))"
proof -
  obtain h1 l1 where h1: "(if prev \<noteq> NULL then set_order_next h prev next else modify_order h d (\<lambda>ord. ord\<lparr>order_head := next\<rparr>)) = Some h1"
      "l1 = l\<lparr>order_head := if prev = NULL then next else order_head l\<rparr>" "relinked h d D N h1 l1 (\<lambda>p (a, b). (a, if p = prev then next else b))"
    using relink_next [OF N] ends(1) by blast
  obtain h2 where h2: "(if next \<noteq> NULL then set_order_prev h1 next prev else modify_order h1 d (\<lambda>ord. ord\<lparr>order_tail := prev\<rparr>)) = Some h2"
      "relinked h1 d (D\<lparr>d_order := Some l1\<rparr>) N h2 (l1\<lparr>order_tail := if next = NULL then prev else order_tail l1\<rparr>)
        (\<lambda>p (a, b). (if p = next then prev else a, b))"
    using relink_prev [OF relinked_nodes [OF h1(3) N] ends(2)] by blast
  have "node \<noteq> prev" using ends(1) node(3) N by (auto simp: linked_nodes_def)
  then have "load_node h1 node = Some (n\<lparr>node_order := Some (prev, next)\<rparr>)"
    using h1(3) node by (auto simp: relinked_def)
  then have "order_remove h d node = Some h2" using node h1(1) h2(1) by (simp add: order_remove_def)
  moreover have f: "(\<lambda>p ab. (\<lambda>(a, b). (if p = next then prev else a, b)) ((\<lambda>(a, b). (a, if p = prev then next else b)) ab)) =
      (\<lambda>p (a, b). (if p = next then prev else a, if p = prev then next else b))" by (simp add: fun_eq_iff)
  have l: "l1\<lparr>order_tail := if next = NULL then prev else order_tail l1\<rparr> =
      l\<lparr>order_head := if prev = NULL then next else order_head l, order_tail := if next = NULL then prev else order_tail l\<rparr>"
    unfolding h1(2) by simp
  note relinked_trans [OF h1(3) h2(2), unfolded f l]
  ultimately show ?thesis by blast
qed

lemma order_remove:
  assumes D: "load_dict h d = Some D" "d_order D = Some l" and xs: "order_links h l xs" "distinct xs"
    and node: "node \<in> set xs" "NULL \<notin> set xs" "d \<notin> set xs"
  shows "\<exists>h' l'. order_remove h d node = Some h' \<and> load_dict h' d = Some (D\<lparr>d_order := Some l'\<rparr>) \<and> cmp_func l' = cmp_func l \<and>
    order_links h' l' (remove1 node xs) \<and> reordered (set xs) d h h'"
proof -
  obtain as bs where split: "xs = as @ node # bs" using node(1) by (meson split_list)
  then have rm: "remove1 node xs = as @ bs" using xs(2) by (simp add: remove1_append)
  define prev where "prev = (if as = [] then NULL else last as)"
  define nxt where "nxt = (if bs = [] then NULL else hd bs)"
  note L = xs(1) [unfolded order_links_at]
  have N: "linked_nodes h d D l (set xs)"
    unfolding linked_nodes_def
  proof (intro conjI ballI)
    fix p assume "p \<in> set xs"
    then obtain i where "i < length xs" "xs ! i = p" by (auto simp: in_set_conv_nth)
    then show "\<exists>n ab. load_node h p = Some n \<and> node_order n = Some ab" using L by blast
  qed (use D node in auto)
  have "link_prev xs (length as) = prev" "link_next xs (length as) = nxt"
    by (auto simp: split link_prev_def link_next_def prev_def nxt_def nth_append last_conv_nth hd_conv_nth)
  moreover have "xs ! length as = node" "length as < length xs" by (simp_all add: split)
  ultimately obtain n where n: "load_node h node = Some n" "node_order n = Some (prev, nxt)" using L by metis
  have ends: "prev = NULL \<or> prev \<in> set xs - {node}" "nxt = NULL \<or> nxt \<in> set xs"
    using xs(2) last_in_set [of as] hd_in_set [of bs] by (auto simp: prev_def nxt_def split)
  let ?l = "l\<lparr>order_head := if prev = NULL then nxt else order_head l, order_tail := if nxt = NULL then prev else order_tail l\<rparr>"
  obtain h' where h': "order_remove h d node = Some h'"
      "relinked h d D (set xs) h' ?l (\<lambda>p (a, b). (if p = nxt then prev else a, if p = prev then nxt else b))"
    using order_remove_code [OF N n node(1) ends] by blast
  note R = h'(2) [unfolded relinked_def]
  have "NULL \<notin> set as" "NULL \<notin> set bs" using node(2) by (simp_all add: split)
  then have null: "prev = NULL \<longleftrightarrow> as = []" "nxt = NULL \<longleftrightarrow> bs = []"
    unfolding prev_def nxt_def using last_in_set [of as] hd_in_set [of bs] by metis+
  have "order_links h' ?l (as @ bs)"
    unfolding order_links_at
  proof (intro conjI allI impI)
    show "order_head ?l = (if as @ bs = [] then NULL else hd (as @ bs))" "order_tail ?l = (if as @ bs = [] then NULL else last (as @ bs))"
      using L null by (auto simp: split prev_def nxt_def)
    fix i assume i: "i < length (as @ bs)"
    obtain j where j: "j < length xs" "(as @ bs) ! i = xs ! j"
        "link_prev (as @ bs) i = (if bs \<noteq> [] \<and> xs ! j = hd bs then prev else link_prev xs j)"
        "link_next (as @ bs) i = (if as \<noteq> [] \<and> xs ! j = last as then nxt else link_next xs j)"
      using links_removed [OF split i xs(2)] unfolding prev_def nxt_def by blast
    obtain m where m: "load_node h (xs ! j) = Some m" "node_order m = Some (link_prev xs j, link_next xs j)" using L j(1) by blast
    have p: "xs ! j \<in> set xs" "xs ! j \<noteq> NULL" using j(1) node(2) nth_mem by metis+
    have "load_node h' (xs ! j) = Some (m\<lparr>node_order := Some (if xs ! j = nxt then prev else link_prev xs j,
        if xs ! j = prev then nxt else link_next xs j)\<rparr>)" using R p(1) m by fastforce
    moreover have "xs ! j = nxt \<longleftrightarrow> bs \<noteq> [] \<and> xs ! j = hd bs" "xs ! j = prev \<longleftrightarrow> as \<noteq> [] \<and> xs ! j = last as"
      using p(2) by (auto simp: nxt_def prev_def)
    ultimately show "\<exists>n. load_node h' ((as @ bs) ! i) = Some n \<and> node_order n = Some (link_prev (as @ bs) i, link_next (as @ bs) i)"
      using j by simp
  qed
  moreover have "reordered (set xs) d h h'"
    unfolding reordered_def
  proof (intro conjI ballI)
    show "NULL \<notin> set xs" "d \<notin> set xs" "\<forall>p. p \<notin> set xs \<and> p \<noteq> d \<longrightarrow> h' p = h p" using node R by blast+
    show "\<exists>D ord. h d = Some (Dict_Block D) \<and> h' d = Some (Dict_Block (D\<lparr>d_order := ord\<rparr>))"
      using loads_nonnull(2) D(1) R by blast
    fix p assume p: "p \<in> set xs"
    then obtain n ab where n: "load_node h p = Some n" "node_order n = Some ab" using N by (auto simp: linked_nodes_def)
    then have "\<exists>o'. load_node h' p = Some (n\<lparr>node_order := o'\<rparr>)" using R p by blast
    then show "\<exists>n ord. h p = Some (Node_Block n) \<and> h' p = Some (Node_Block (n\<lparr>node_order := ord\<rparr>))"
      using n(1) loads_nonnull(3) by blast
  qed
  ultimately show ?thesis using h'(1) R unfolding rm
    by (intro exI [of _ h'] exI [of _ ?l]) simp
qed

section \<open>The rest of the dictionary\<close>

lemma reordered_refl: "sim N d h h S \<Longrightarrow> reordered N d h h"
  unfolding reordered_def
proof (intro conjI ballI)
  assume S: "sim N d h h S"
  note S = S [unfolded sim_refl]
  show "NULL \<notin> N" "d \<notin> N" "\<forall>p. p \<notin> N \<and> p \<noteq> d \<longrightarrow> h p = h p" using S by blast+
  obtain D where "h d = Some (Dict_Block D)" using S by blast
  then show "\<exists>D ord. h d = Some (Dict_Block D) \<and> h d = Some (Dict_Block (D\<lparr>d_order := ord\<rparr>))"
    by (intro exI [of _ D] exI [of _ "d_order D"]) simp
  fix p assume "p \<in> N"
  then obtain n where "h p = Some (Node_Block n)" using S by blast
  then show "\<exists>n ord. h p = Some (Node_Block n) \<and> h p = Some (Node_Block (n\<lparr>node_order := ord\<rparr>))"
    by (intro exI [of _ n] exI [of _ "node_order n"]) simp
qed

lemma remove_order:
  assumes R: "dict_rest kc kf h v ns ord t d D" and sim: "sim (set ns) d h h S" and a: "a \<in> set ns" "distinct ns"
  shows "\<exists>h' D'. (if ord \<noteq> None then order_remove h d a else Some h) = Some h' \<and> d_size D' = d_size D \<and> d_root D' = d_root D \<and>
    reordered (set ns) d h h' \<and> dict_rest kc kf h' v (remove1 a ns) (map_option (remove1 a) ord) t d D'"
proof -
  note A = R [unfolded dict_rest_def]
  have S: "NULL \<notin> set ns" "d \<notin> set ns" using sim unfolding sim_def by blast+
  have "\<exists>h' D'. (if ord \<noteq> None then order_remove h d a else Some h) = Some h' \<and> d_size D' = d_size D \<and> d_root D' = d_root D \<and>
      reordered (set ns) d h h' \<and> load_dict h' d = Some D' \<and> uses_cmp t D' kc \<and>
      order_state h' t D' (remove1 a ns) (map_option (remove1 a) ord)"
  proof (cases ord)
    case None
    then show ?thesis using A reordered_refl [OF sim] by (simp add: order_state_def)
  next
    case (Some xs)
    then obtain l where l: "d_order D = Some l" "order_links h l xs" "distinct xs" "set xs = set ns" "t AND HAS_ORDERLIST \<noteq> 0"
      using A by (auto simp: order_state_def)
    obtain h' l' where h': "order_remove h d a = Some h'" "load_dict h' d = Some (D\<lparr>d_order := Some l'\<rparr>)" "cmp_func l' = cmp_func l"
      "order_links h' l' (remove1 a xs)" "reordered (set ns) d h h'"
      using order_remove [OF _ l(1-3), of d a] A a S l(4) by auto
    have "uses_cmp t (D\<lparr>d_order := Some l'\<rparr>) kc" using A l(1) h'(3) by (auto simp: uses_cmp_def split: if_splits)
    then show ?thesis using Some h' l a by (simp add: order_state_def)
  qed
  then obtain h' D' where h': "(if ord \<noteq> None then order_remove h d a else Some h) = Some h'" "d_size D' = d_size D" "d_root D' = d_root D"
      "reordered (set ns) d h h'" "load_dict h' d = Some D'" "uses_cmp t D' kc"
      "order_state h' t D' (remove1 a ns) (map_option (remove1 a) ord)" by (elim exE conjE) (rule that)
  have "dict_tag h' v t d" using A reordered_value [OF h'(4)] by (auto simp: dict_tag_def)
  moreover have "\<forall>p \<in> set (remove1 a ns). key_at h' p (kf p)"
    using A reordered_key [OF h'(4)] notin_set_remove1 by metis
  ultimately show ?thesis using h' unfolding dict_rest_def by blast
qed

section \<open>The blocks of a dictionary\<close>

text \<open>What the nodes own, and all blocks below the value.\<close>

definition dict_owned :: "value_mem \<Rightarrow> addr \<Rightarrow> addr set \<Rightarrow> (addr \<Rightarrow> addr set) \<Rightarrow> (addr \<Rightarrow> addr set) \<Rightarrow> bool" where
  "dict_owned h d N K V \<longleftrightarrow>
     (\<forall>p \<in> N. \<exists>n. load_node h p = Some n \<and> owns h (node_key n) (K p) \<and> owns h (node_value n) (V p)) \<and>
     apart N (\<lambda>p. K p \<union> V p) \<and> (\<forall>p \<in> N. K p \<inter> V p = {} \<and> (K p \<union> V p) \<inter> ({d} \<union> N) = {})"

definition dict_blocks :: "addr \<Rightarrow> addr set \<Rightarrow> (addr \<Rightarrow> addr set) \<Rightarrow> (addr \<Rightarrow> addr set) \<Rightarrow> addr set" where
  "dict_blocks d N K V = {d} \<union> N \<union> (\<Union>p \<in> N. K p \<union> V p)"

lemma sim_node_tree: "sim N d h h S \<Longrightarrow> holds S T \<Longrightarrow> node_tree h T"
proof (induction T)
  case (Node c l a r)
  then have "cell S a c (ptr l) (ptr r)" by simp
  then have "get_left h a = Some (ptr l)" "get_right h a = Some (ptr r)"
    using refines_reads(1,2) [OF Node.prems(1), of a] by (auto simp: refines_def same_even_def cell_read)
  then show ?case using Node by (auto simp: get_left_def get_right_def bind_eq_Some_conv)
qed simp

lemma node_tree_same: "node_tree h T \<Longrightarrow> node_tree h T' \<Longrightarrow> ptr T = ptr T' \<Longrightarrow> inorder T = inorder T'"
proof (induction T arbitrary: T')
  case Leaf
  then show ?case using loads_nonnull(3) by (cases T') auto
next
  case (Node c l a r)
  then obtain n where "load_node h a = Some n" by auto
  then have "a \<noteq> NULL" using loads_nonnull(3) by blast
  then obtain c' l' r' where T': "T' = Node c' l' a r'" using Node.prems(3) by (cases T') auto
  then show ?case using Node.IH(1) [of l'] Node.IH(2) [of r'] Node.prems by auto
qed

lemma le_bytes_same: "le_bytes (p :: addr) = le_bytes q \<Longrightarrow> p = q"
proof -
  have p: "le_word (le_bytes p) = p" and q: "le_word (le_bytes q) = q" by (rule le_word_bytes, simp)+
  assume "le_bytes p = le_bytes q"
  with p have "le_word (le_bytes q) = p" by (simp only:)
  then show ?thesis unfolding q by (rule sym)
qed

text \<open>A key owns its buffer, painted or not.\<close>

lemma key_owned:
  assumes "string_value h x s" "owns h x F"
  shows "\<forall>p \<in> F. h' p = h p \<Longrightarrow> string_value h' x s" "owns h (paint c x) F"
proof -
  obtain t where t: "length x = sizeof_VALUE" "x ! 0 = Some t" "t AND TYPE_MASK = VALUE_STRING"
    "if t AND IS_MALLOCED = 0 then \<exists>ys. drop 1 x = map Some (string_bytes s) @ ys
      else \<exists>p. drop 8 x = map Some (le_bytes p) \<and> p \<noteq> NULL \<and> h p = Some (Raw (map Some (string_bytes s)))"
    using assms(1) unfolding string_value_def by blast
  define t' where "t' = (if c = Red then t OR HAS_REDCOLOR else t AND NOT HAS_REDCOLOR)"
  have t': "cells_tag (paint c x) t'" "t' AND TYPE_MASK = VALUE_STRING" "t' AND IS_MALLOCED = t AND IS_MALLOCED"
    using t(1-3) by (auto simp: cells_tag_def paint_def t'_def sizeof_VALUE_def type_bits)
  have s: "VALUE_STRING \<noteq> VALUE_ARRAY" "VALUE_STRING \<noteq> VALUE_DICT" by (simp_all add: value_types)
  show "owns h (paint c x) F" using assms(2)
  proof cases
    case (inline u)
    then have "u = t" using t(2) by (simp add: cells_tag_def)
    then show ?thesis unfolding inline(1) using inline t' s by (intro owns.inline [OF t'(1)]) simp_all
  next
    case (raw u p b)
    then have "u = t" using t(2) by (simp add: cells_pointer_def cells_tag_def)
    then have "cells_pointer (paint c x) t' p" using raw t' by (simp add: cells_pointer_def drop_paint)
    then show ?thesis unfolding raw(1) using raw(2-) t'(2) s by (intro owns.raw [where t = t' and p = p and c = b]) simp_all
  qed (use t s in \<open>auto simp: cells_pointer_def cells_tag_def\<close>)
  assume same: "\<forall>p \<in> F. h' p = h p"
  show "string_value h' x s"
  proof (cases "t AND IS_MALLOCED = 0")
    case True
    then show ?thesis using t unfolding string_value_def by (intro conjI exI [of _ t]) simp_all
  next
    case False
    then obtain p where p: "drop 8 x = map Some (le_bytes p)" "p \<noteq> NULL" "h p = Some (Raw (map Some (string_bytes s)))"
      using t(4) by auto
    have "p \<in> F" using assms(2)
    proof cases
      case (raw u q b)
      then have "map Some (le_bytes p) = map Some (le_bytes q)" using p(1) by (simp add: cells_pointer_def)
      then have "le_bytes p = le_bytes q" by (metis inj_map_eq_map inj_Some)
      then show ?thesis using le_bytes_same raw by blast
    qed (use t s False in \<open>auto simp: cells_pointer_def cells_tag_def\<close>)
    then have "h' p = Some (Raw (map Some (string_bytes s)))" using same p(3) by simp
    then show ?thesis using t p False unfolding string_value_def
      by (intro conjI exI [of _ t]) auto
  qed
qed

lemma dict_cells:
  assumes "dict_state kc kf h v ns ord t d D S" "get_value h v = Some x"
  shows "cells_pointer x t d" "t AND TYPE_MASK = VALUE_DICT" "t AND HAS_ORDERLIST \<noteq> 0 \<longrightarrow> d_order D \<noteq> None"
  using assms by (auto simp: dict_state_def dict_tag_def cells_pointer_def cells_tag_def order_state_def split: option.splits)

lemma owns_dict:
  assumes st: "dict_state kc kf h v ns ord t d D S" and x: "get_value h v = Some x" "owns h x F"
  shows "\<exists>K V. dict_owned h d (set ns) K V \<and> F = dict_blocks d (set ns) K V"
proof -
  note c = dict_cells [OF st x(1)] and get = dict_stateD [OF st]
  have t: "u = t" if "cells_tag x u" for u using that c(1) by (simp add: cells_pointer_def cells_tag_def)
  have ty: "VALUE_DICT \<noteq> VALUE_ARRAY" by (simp add: value_types)
  show ?thesis using x(2)
  proof cases
    case (dict u d' D' T K V)
    then have "map Some (le_bytes d') = map Some (le_bytes d)" using c(1) by (simp add: cells_pointer_def)
    then have "le_bytes d' = le_bytes d" by (metis inj_map_eq_map inj_Some)
    then have d: "d' = d" by (rule le_bytes_same)
    have "D' = D" using dict d get(5) by simp
    obtain T' where T': "rep (nodes S) S T'" "inorder T' = ns" using get(9) by (auto simp: rbtree_holds_def)
    then have "holds S T'" "ptr T' = root S" by (auto simp: rep_def)
    moreover have "root S = d_root D"
      using get(5,8) by (auto simp: sim_refl load_dict_def load_def)
    ultimately have "inorder T = ns"
      using node_tree_same [OF dict(6) sim_node_tree [OF get(8)]] T'(2) dict(7) \<open>D' = D\<close> by metis
    then show ?thesis using dict d by (intro exI [of _ K] exI [of _ V]) (simp add: dict_owned_def dict_blocks_def)
  qed (use c ty t in \<open>auto simp: cells_pointer_def\<close>)
qed

lemma dict_owns:
  assumes st: "dict_state kc kf h v ns ord t d D S" and x: "get_value h v = Some x" "dict_owned h d (set ns) K V"
  shows "owns h x (dict_blocks d (set ns) K V)"
proof -
  note c = dict_cells [OF st x(1)] and get = dict_stateD [OF st]
  obtain T where T: "rep (nodes S) S T" "is_rb T" "inorder T = ns" using get(9) by (auto simp: rbtree_holds_def)
  then have "node_tree h T" "distinct (inorder T)" "ptr T = root S" using sim_node_tree [OF get(8)] by (auto simp: rep_def)
  moreover have "d_root D = root S" "d \<notin> set ns" using get(5,8) by (auto simp: sim_refl load_dict_def load_def)
  moreover have "height T \<le> path_capacity" using rep_height [OF T(1,2)] by (simp add: path_capacity_def)
  ultimately show ?thesis using x(2) T(3) unfolding dict_blocks_def dict_owned_def T(3) [symmetric]
    by (intro owns.dict [OF c(1,2) get(5) c(3)]) simp_all
qed

section \<open>What the steps keep\<close>

lemma members_kept:
  assumes own: "dict_owned h d N K V" and key: "\<And>p. p \<in> N \<Longrightarrow> \<exists>s. key_at h p s"
    and node: "\<And>p n. p \<in> N \<Longrightarrow> load_node h p = Some n \<Longrightarrow>
      \<exists>n' c. load_node h' p = Some n' \<and> node_value n' = node_value n \<and> node_key n' = paint c (node_key n)"
    and other: "\<And>p. p \<notin> N \<Longrightarrow> p \<noteq> d \<Longrightarrow> h' p = h p"
  shows "dict_owned h' d N K V"
proof -
  note O = own [unfolded dict_owned_def]
  have "\<exists>n. load_node h' p = Some n \<and> owns h' (node_key n) (K p) \<and> owns h' (node_value n) (V p)" if p: "p \<in> N" for p
  proof -
    obtain n where n: "load_node h p = Some n" "owns h (node_key n) (K p)" "owns h (node_value n) (V p)" using O p by blast
    obtain n' c where n': "load_node h' p = Some n'" "node_value n' = node_value n" "node_key n' = paint c (node_key n)"
      using node [OF p n(1)] by blast
    have same: "\<forall>q \<in> K p \<union> V p. h' q = h q" using O p other by blast
    obtain s where "string_value h (node_key n) s" using key [OF p] n(1) by (auto simp: key_at_def)
    then have "owns h (node_key n') (K p)" using key_owned(2) [OF _ n(2)] n'(3) by simp
    then have "owns h' (node_key n') (K p)" using owns_frame same by blast
    moreover have "owns h' (node_value n') (V p)" using owns_frame [OF n(3)] same n'(2) by simp
    ultimately show ?thesis using n'(1) by blast
  qed
  then show ?thesis using O unfolding dict_owned_def by blast
qed

lemma owned_frame:
  assumes "dict_owned h d N K V" "M \<subseteq> N" "\<And>p. p \<in> M \<Longrightarrow> h' p = h p" "\<And>p q. p \<in> M \<Longrightarrow> q \<in> K p \<union> V p \<Longrightarrow> h' q = h q"
  shows "dict_owned h' d M K V"
proof -
  note O = assms(1) [unfolded dict_owned_def]
  have "\<exists>n. load_node h' p = Some n \<and> owns h' (node_key n) (K p) \<and> owns h' (node_value n) (V p)" if p: "p \<in> M" for p
  proof -
    obtain n where n: "load_node h p = Some n" "owns h (node_key n) (K p)" "owns h (node_value n) (V p)" using O p assms(2) by blast
    then show ?thesis using loads_cong(3) [of h' p h] assms(3) [OF p] owns_frame [OF n(2)] owns_frame [OF n(3)] assms(4) [OF p] by simp
  qed
  moreover have "apart M (\<lambda>p. K p \<union> V p)" using O assms(2) unfolding apart_def by blast
  ultimately show ?thesis using O assms(2) unfolding dict_owned_def by blast
qed

lemma dict_rest_frame:
  assumes R: "dict_rest kc kf h v ns ord t d D" and own: "dict_owned h d (set ns) K V"
    and same: "h' (vaddr v) = h (vaddr v)" "h' d = h d" "\<And>p. p \<in> set ns \<Longrightarrow> h' p = h p"
      "\<And>p q. p \<in> set ns \<Longrightarrow> q \<in> K p \<Longrightarrow> h' q = h q"
  shows "dict_rest kc kf h' v ns ord t d D"
proof -
  note A = R [unfolded dict_rest_def]
  have node: "load_node h' p = load_node h p" if "p \<in> set ns" for p using same(3) [OF that] by (rule loads_cong)
  have "dict_tag h' v t d" using A get_value_cong [of h' v h] same(1) by (simp add: dict_tag_def)
  moreover have "load_dict h' d = Some D" using A loads_cong(2) [of h' d h] same(2) by simp
  moreover have "key_at h' p (kf p)" if p: "p \<in> set ns" for p
  proof -
    obtain n where n: "load_node h p = Some n" "owns h (node_key n) (K p)" using own p unfolding dict_owned_def by blast
    moreover have "string_value h (node_key n) (kf p)" "length (kf p) \<le> INT_MAX" using A p n(1) by (auto simp: key_at_def)
    ultimately show ?thesis using key_owned(1) [of h "node_key n" "kf p" "K p" h'] same(4) [OF p] node [OF p] by (simp add: key_at_def)
  qed
  moreover have "order_state h' t D ns ord"
  proof (cases ord)
    case (Some xs)
    then obtain l where l: "d_order D = Some l" "order_links h l xs" "t AND HAS_ORDERLIST \<noteq> 0" "distinct xs" "set xs = set ns"
      using A by (auto simp: order_state_def)
    have "order_links h' l xs" using node l(5) by (intro order_links_cong [OF l(2)]) simp
    then show ?thesis using l Some by (simp add: order_state_def)
  qed (use A in \<open>simp add: order_state_def\<close>)
  ultimately show ?thesis using A by (simp add: dict_rest_def)
qed

lemma sim_without:
  assumes "sim N d h h S" "h' d = h d" "\<And>p. p \<in> N - {a} \<Longrightarrow> h' p = h p"
  shows "sim (N - {a}) d h' h' (S\<lparr>nodes := (nodes S)(a := None)\<rparr>)"
  unfolding sim_refl
proof (intro conjI ballI)
  note S = assms(1) [unfolded sim_refl]
  let ?S = "S\<lparr>nodes := (nodes S)(a := None)\<rparr>"
  show "dom (nodes ?S) = N - {a}" "NULL \<notin> N - {a}" "d \<noteq> NULL" "d \<notin> N - {a}" "even (root ?S)" using S by auto
  show "\<exists>D. h' d = Some (Dict_Block D) \<and> d_root D = root ?S" using S assms(2) by simp
  fix p assume p: "p \<in> N - {a}"
  then show "\<exists>n. even p \<and> even (node_left n) \<and> even (node_right n) \<and> h' p = Some (Node_Block n) \<and> tagged (node_key n) \<and>
      nodes ?S p = Some (mknode (key_color (node_key n)) (node_left n) (node_right n))"
    using S assms(3) [OF p] by simp
qed

section \<open>The effect\<close>

lemma dict_size: "dict_state kc kf h v ns ord t d D S \<Longrightarrow> a \<in> set ns \<Longrightarrow> d_size D - 1 = of_nat (length (remove1 a ns))"
proof -
  assume "dict_state kc kf h v ns ord t d D S" and a: "a \<in> set ns"
  then have "d_size D = of_nat (Suc (length ns - 1))" by (cases ns) (auto simp: dict_state_def)
  then show ?thesis using a by (simp add: length_remove1)
qed

text \<open>The node is out of the tree and of the list, but still there.\<close>

lemma unlink_node:
  assumes st: "dict_state kc kf h v ns ord t d D S" and F: "found_at (\<lambda>p. kc s (kf p)) S ns T ctx w" "w \<noteq> Leaf" "kf q = s"
    and own: "dict_owned h d (set ns) K V"
  shows "\<exists>h' D' S'. do { h \<leftarrow> dict_disconnect h d (ptr w) (path_of ctx (ptr w)); ordered \<leftarrow> has_order h v;
      if ordered then order_remove h d (ptr w) else Some h } = Some h' \<and>
    d_size D' = d_size D \<and> d_root D' = root S' \<and> dict_rest kc kf h' v (remove1 (ptr w) ns) (map_option (remove1 (ptr w)) ord) t d D' \<and>
    sim (set ns) d h' h' S' \<and> rbtree_holds (key_order kc kf) S' (remove1 (ptr w) ns) \<and>
    dict_owned h' d (set ns) K V \<and> (\<forall>p. p \<notin> set ns \<and> p \<noteq> d \<longrightarrow> h' p = h p)"
proof -
  let ?a = "ptr w" and ?k = "key_order kc kf"
  note get = dict_stateD [OF st] and R = st [unfolded dict_state_rest]
  have a: "?a \<in> set ns" using F(1,2) by (simp add: found_at_def)
  have k: "(\<lambda>p. kc s (kf p)) = ?k q" using F(3) by (simp add: key_order_def fun_eq_iff)
  obtain S' where S': "rb_disconnect S ?a (path_of ctx ?a) = Some S'" "rbtree_holds ?k S' (remove1 ?a ns)"
    using remove_run [OF comparator_key_order [OF get(7)] get(9) F(1) [unfolded k] F(2)] by blast
  have "even ?a" using get(8) a by (auto simp: sim_refl)
  then have "even_path (path_of ctx ?a)" using even_labels [OF F(1) get(8)] by (simp add: even_path_def path_of_def)
  then obtain h1 where h1: "dict_disconnect h d ?a (path_of ctx ?a) = Some h1" "sim (set ns) d h h1 S'"
    using disconnect_refines [OF get(8) \<open>even ?a\<close>] S'(1) by (auto simp: refines_def)
  let ?D1 = "D\<lparr>d_root := root S'\<rparr>"
  have rest1: "dict_rest kc kf h1 v ns ord t d ?D1" using dict_rest_sim [OF _ h1(2)] R by blast
  have "distinct ns" using get(9) by (auto simp: rbtree_holds_def rep_def)
  from remove_order [OF rest1 sim_self [OF h1(2)] a this] obtain h2 D2 where
    h2: "(if ord \<noteq> None then order_remove h1 d ?a else Some h1) = Some h2" "d_size D2 = d_size ?D1" "d_root D2 = d_root ?D1"
      "reordered (set ns) d h1 h2" "dict_rest kc kf h2 v (remove1 ?a ns) (map_option (remove1 ?a) ord) t d D2"
    by (elim exE conjE) (rule that)
  have "dict_tag h1 v t d" "t AND HAS_ORDERLIST \<noteq> 0 \<longleftrightarrow> ord \<noteq> None"
    using rest1 by (auto simp: dict_rest_def order_state_def split: option.splits)
  then have ordered: "has_order h1 v = Some (ord \<noteq> None)" using dict_tag_reads(4) [OF _ get(6)] by simp
  have other: "h2 p = h p" if "p \<notin> set ns" "p \<noteq> d" for p
    using that sim_same(5) [OF h1(2)] h2(4) by (simp add: reordered_def)
  have key: "\<exists>s. key_at h p s" if "p \<in> set ns" for p using R that by (auto simp: dict_rest_def)
  have "dict_owned h2 d (set ns) K V"
  proof (rule members_kept [OF own key _ other])
    fix p n assume p: "p \<in> set ns" and n: "load_node h p = Some n"
    obtain c l r where 1: "load_node h1 p = Some (n\<lparr>node_key := paint c (node_key n), node_left := l, node_right := r\<rparr>)"
      using sim_same(2) [OF h1(2) p n] by blast
    obtain m ord' where "h1 p = Some (Node_Block m)" "h2 p = Some (Node_Block (m\<lparr>node_order := ord'\<rparr>))" "p \<noteq> NULL"
      using h2(4) p unfolding reordered_def by blast
    then have "load_node h2 p = Some (n\<lparr>node_key := paint c (node_key n), node_left := l, node_right := r\<rparr>\<lparr>node_order := ord'\<rparr>)"
      using 1 by (simp add: load_node_def load_def)
    then show "\<exists>n' c. load_node h2 p = Some n' \<and> node_value n' = node_value n \<and> node_key n' = paint c (node_key n)"
      by (intro exI conjI, assumption) simp_all
  qed
  moreover have "do { h \<leftarrow> dict_disconnect h d ?a (path_of ctx ?a); ordered \<leftarrow> has_order h v;
      if ordered then order_remove h d ?a else Some h } = Some h2"
    using h1(1) ordered h2(1) by simp
  moreover have "d_size D2 = d_size D" "d_root D2 = root S'" using h2(2,3) by simp_all
  ultimately show ?thesis using h2(5) reordered_sim [OF h2(4) sim_self [OF h1(2)]] S'(2) other
    by (intro exI [of _ h2] exI [of _ D2] exI [of _ S']) blast
qed

lemma blocks_without:
  assumes "dict_owned h d N K V" "d \<notin> N" "a \<in> N"
  shows "dict_blocks d (N - {a}) K V = dict_blocks d N K V - ({a} \<union> K a \<union> V a)"
proof -
  define P where "P p = K p \<union> V p" for p
  have ap: "P p \<inter> P a = {}" if "p \<in> N - {a}" for p
    using assms(1,3) that by (simp add: dict_owned_def apart_def P_def)
  have own: "P p \<inter> ({d} \<union> N) = {}" if "p \<in> N" for p using assms(1) that by (simp add: dict_owned_def P_def)
  have "{d} \<union> (N - {a}) \<union> (\<Union>p \<in> N - {a}. P p) = {d} \<union> N \<union> (\<Union>p \<in> N. P p) - ({a} \<union> P a)" (is "?L = ?R")
  proof (intro equalityI subsetI)
    fix q assume "q \<in> ?L"
    then consider "q = d" | "q \<in> N - {a}" | p where "p \<in> N - {a}" "q \<in> P p" by blast
    then show "q \<in> ?R"
    proof cases
      case 1
      then show ?thesis using own [OF assms(3)] assms(2,3) by blast
    next
      case 2
      then show ?thesis using own [OF assms(3)] by blast
    next
      case 3
      then have "q \<notin> P a" "q \<noteq> a" using ap [OF 3(1)] own [of p] assms(3) by blast+
      then show ?thesis using 3 by blast
    qed
  qed blast
  then show ?thesis by (simp add: dict_blocks_def P_def Un_assoc)
qed

lemma remove_found:
  assumes st: "dict_state kc kf h v ns ord t d D S" and F: "found_at (\<lambda>p. kc s (kf p)) S ns T ctx w" "w \<noteq> Leaf" "kf q = s"
    and key: "key_string key = s" "unat len = length s"
    and own: "dict_owned h d (set ns) K V" "vaddr v \<notin> dict_blocks d (set ns) K V"
  defines "G \<equiv> {ptr w} \<union> K (ptr w) \<union> V (ptr w)" and "ns' \<equiv> remove1 (ptr w) ns"
  shows "\<exists>h' D' S'. value_dict_remove_n h v key len = Some (0, h') \<and>
    dict_state kc kf h' v ns' (map_option (remove1 (ptr w)) ord) t d D' S' \<and> dict_owned h' d (set ns') K V \<and>
    dom h' = dom h - G \<and> (\<forall>p. p \<notin> dict_blocks d (set ns) K V \<longrightarrow> h' p = h p)"
proof -
  let ?a = "ptr w" and ?ord = "map_option (remove1 (ptr w)) ord"
  note get = dict_stateD [OF st] and R = st [unfolded dict_state_rest]
  have a: "?a \<in> set ns" "?a \<noteq> NULL" using F(1,2) get(10) by (auto simp: found_at_def)
  have "distinct ns" using get(9) by (auto simp: rbtree_holds_def rep_def)
  then have ns': "set ns' = set ns - {?a}" by (simp add: ns'_def)
  obtain h2 D2 S2 where h2: "do { h \<leftarrow> dict_disconnect h d ?a (path_of ctx ?a); ordered \<leftarrow> has_order h v;
        if ordered then order_remove h d ?a else Some h } = Some h2"
      "d_size D2 = d_size D" "d_root D2 = root S2" "dict_rest kc kf h2 v ns' ?ord t d D2"
      "sim (set ns) d h2 h2 S2" "rbtree_holds (key_order kc kf) S2 ns'"
      "dict_owned h2 d (set ns) K V" "\<forall>p. p \<notin> set ns \<and> p \<noteq> d \<longrightarrow> h2 p = h p"
    using unlink_node [OF st F own(1)] unfolding ns'_def [symmetric] by (elim exE conjE) (rule that)
  note O = h2(7) [unfolded dict_owned_def]
  have "node_spec h2 K V ?a"
    unfolding node_spec_def
  proof (intro conjI)
    obtain n where "load_node h2 ?a = Some n" "owns h2 (node_key n) (K ?a)" "owns h2 (node_value n) (V ?a)" using O a(1) by blast
    then show "\<exists>n. load_node h2 ?a = Some n \<and> fini_spec h2 (node_key n) (K ?a) \<and> fini_spec h2 (node_value n) (V ?a)"
      using owns_fini by blast
    have "K ?a \<inter> V ?a = {} \<and> (K ?a \<union> V ?a) \<inter> ({d} \<union> set ns) = {}" using O a(1) by blast
    then show "K ?a \<inter> V ?a = {}" "?a \<notin> K ?a \<union> V ?a" using a(1) by blast+
  qed
  note release = node_release [OF this refl refl, folded G_def]
  define h5 where "h5 = h2 |` (- G)"
  have dn: "d \<notin> set ns" using get(8) by (simp add: sim_def)
  have ap: "apart (set ns) (\<lambda>p. K p \<union> V p)" using O by (elim conjE)
  have mem: "\<forall>p \<in> set ns. K p \<inter> V p = {} \<and> (K p \<union> V p) \<inter> ({d} \<union> set ns) = {}" using O by (elim conjE)
  have apart_a: "(K ?a \<union> V ?a) \<inter> ({d} \<union> set ns) = {}" using mem a(1) by simp
  have G: "d \<notin> G" using dn apart_a a(1) unfolding G_def by blast
  have Gn: "set ns' \<inter> G = {}" using apart_a unfolding G_def ns' by blast
  have Gv: "vaddr v \<notin> G" using own(2) a(1) by (auto simp: G_def dict_blocks_def)
  have KV: "q \<notin> G" if "p \<in> set ns'" "q \<in> K p \<union> V p" for p q
  proof -
    have "p \<in> set ns" "p \<noteq> ?a" using that(1) ns' by simp_all
    then have "(K p \<union> V p) \<inter> (K ?a \<union> V ?a) = {}" using ap a(1) by (simp add: apart_def)
    moreover have "?a \<notin> K p \<union> V p" using mem a(1) \<open>p \<in> set ns\<close> by blast
    ultimately show ?thesis using that(2) by (auto simp: G_def)
  qed
  have at: "h5 p = h2 p" if "p \<notin> G" for p using that by (simp add: h5_def)
  have own': "dict_owned h2 d (set ns') K V" by (rule owned_frame [OF h2(7)]) (use ns' in auto)
  have rest5: "dict_rest kc kf h5 v ns' ?ord t d D2"
    by (rule dict_rest_frame [OF h2(4) own']) (use at G Gn Gv KV in blast)+
  have sim5: "sim (set ns') d h5 h5 (S2\<lparr>nodes := (nodes S2)(?a := None)\<rparr>)"
    unfolding ns' by (rule sim_without [OF h2(5)]) (use at G Gn ns' in blast)+
  let ?S = "S2\<lparr>nodes := (nodes S2)(?a := None)\<rparr>" and ?D = "D2\<lparr>d_size := d_size D2 - 1\<rparr>"
  let ?h = "h5(d \<mapsto> Dict_Block ?D)"
  have D5: "load_dict h5 d = Some D2" using rest5 by (simp add: dict_rest_def)
  have state: "dict_state kc kf ?h v ns' ?ord t d ?D ?S"
    unfolding dict_state_rest
  proof (intro conjI)
    show "dict_rest kc kf ?h v ns' ?ord t d ?D" by (rule dict_rest_block [OF rest5 _ get(6)]) simp
    show "comparator kc" by (rule get(7))
    show "d_size ?D = of_nat (length ns')" using dict_size [OF st a(1)] h2(2) by (simp add: ns'_def)
    show "sim (set ns') d ?h ?h ?S" by (rule sim_block [OF sim5]) (simp add: h2(3))
    show "rbtree_holds (key_order kc kf) ?S ns'" by (rule rbtree_holds_restrict [OF h2(6)]) (simp add: ns')
  qed
  have code: "value_dict_remove_n h v key len = Some (0, ?h)"
  proof -
    have "value_dict_remove_n h v key len = do {
        h \<leftarrow> do { h \<leftarrow> dict_disconnect h d ?a (path_of ctx ?a); ordered \<leftarrow> has_order h v;
          if ordered then order_remove h d ?a else Some h };
        h \<leftarrow> do { h \<leftarrow> fini_run (Fini (Key ?a)) h; h \<leftarrow> fini_run (Fini (Val ?a)) h; free h ?a };
        h \<leftarrow> modify_dict h d (\<lambda>D. D\<lparr>d_size := d_size D - 1\<rparr>);
        Some (0, h) }"
      using dict_find_code(1) [OF st key F(1)] get(1,2) F(2) a(2)
      by (simp add: value_dict_remove_n_def value_fini_def bind_assoc)
    then show ?thesis unfolding h2(1) Option.bind.bind_lunit release h5_def [symmetric] using D5 by (simp add: modify_dict_def)
  qed
  have d: "h5 d \<noteq> None" using D5 loads_nonnull(2) by blast
  have nodes: "h2 p = None \<longleftrightarrow> h p = None" for p
  proof (cases "p \<in> insert d (set ns)")
    case True
    then show ?thesis using get(8) h2(5) unfolding sim_refl by (metis insertE option.distinct(1))
  qed (use h2(8) in simp)
  have "dom ?h = dom h - G" 
  proof -
    have "dom h2 = dom h" using nodes by (simp add: dom_def)
    moreover have "d \<in> dom h2" using d G by (simp add: h5_def domIff)
    ultimately show ?thesis using G by (auto simp: h5_def)
  qed
  moreover have "dict_owned ?h d (set ns') K V"
  proof (rule owned_frame [OF own' subset_refl])
    have d': "d \<notin> set ns'" "d \<notin> K p \<union> V p" if "p \<in> set ns'" for p using that mem dn ns' by blast+
    then show "?h p = h2 p" if "p \<in> set ns'" for p using that at Gn by auto
    show "?h q = h2 q" if "p \<in> set ns'" "q \<in> K p \<union> V p" for p q
      using that at KV d'(2) by auto
  qed
  moreover have "?h p = h p" if "p \<notin> dict_blocks d (set ns) K V" for p
  proof -
    have "p \<noteq> d" "p \<notin> set ns" "p \<notin> G" using that a(1) by (auto simp: dict_blocks_def G_def)
    then show ?thesis using at h2(8) by simp
  qed
  ultimately show ?thesis using code state by blast
qed


text \<open>The only key of a dictionary is removed, and with it the node.\<close>

lemma dict_one_owns: "owns dict_one (pointer_cells (indeterminate sizeof_VALUE) (VALUE_DICT OR IS_MALLOCED) 128) {128, 256}"
proof -
  let ?D = "\<lparr>d_root = 256, d_size = 1, d_order = None\<rparr>" and ?x = "pointer_cells (indeterminate sizeof_VALUE) (VALUE_DICT OR IS_MALLOCED) 128"
  let ?T = "Node Black Leaf (256 :: addr) Leaf"
  have t: "(VALUE_DICT OR IS_MALLOCED) AND TYPE_MASK = VALUE_DICT" "(VALUE_DICT OR IS_MALLOCED) AND IS_MALLOCED \<noteq> 0"
    "(VALUE_DICT OR IS_MALLOCED) AND HAS_ORDERLIST = 0" "VALUE_STRING AND IS_MALLOCED = 0" "VALUE_STRING AND TYPE_MASK \<notin> {VALUE_ARRAY, VALUE_DICT}"
    "(VALUE_NULL OR IS_NEW) AND IS_MALLOCED = 0" "(VALUE_NULL OR IS_NEW) AND TYPE_MASK \<notin> {VALUE_ARRAY, VALUE_DICT}"
    by (simp_all add: value_types value_flags)
  have node: "load_node dict_one 256 = Some one_node" by (simp add: dict_one_def load_node_def load_def)
  have D: "load_dict dict_one 128 = Some ?D" by (simp add: dict_one_def load_dict_def load_def)
  have tree: "node_tree dict_one ?T" using node by (simp add: one_node_def)
  have "cells_tag (node_key one_node) VALUE_STRING"
    using one_node_key(1) [of Map.empty] by (auto simp: string_value_def cells_tag_def one_node_def inline_cells_def)
  then have "owns dict_one (node_key one_node) {}" by (rule owns.inline) (use t in simp_all)
  moreover have "cells_tag (node_value one_node) (VALUE_NULL OR IS_NEW)"
    by (simp add: one_node_def cells_tag_def indeterminate_def sizeof_VALUE_def)
  then have "owns dict_one (node_value one_node) {}" by (rule owns.inline) (use t in simp_all)
  ultimately have members: "\<forall>p \<in> set (inorder ?T). \<exists>n. load_node dict_one p = Some n \<and> owns dict_one (node_key n) {} \<and> owns dict_one (node_value n) {}"
    using node by simp
  have "owns dict_one ?x ({128} \<union> set (inorder ?T) \<union> (\<Union>p \<in> set (inorder ?T). {} \<union> {}))"
    by (rule owns.dict [OF cells_pointer_new [OF t(2)] t(1) D _ tree _ _ _ _ members])
      (use t in \<open>simp_all add: apart_def path_capacity_def\<close>)
  then show ?thesis by (simp add: insert_commute)
qed


end
