(* ===== verification/Value_Path.thy ===== *)
theory Value_Path
  imports Value_Dict
begin

text \<open>
  \<open>data/value.c\<close>: values named by paths through nested dictionaries and arrays. A path is the list of its
  characters without the terminator; the pointers into it are its suffixes.
\<close>

abbreviation slash :: byte where "slash \<equiv> 47"
abbreviation open_bracket :: byte where "open_bracket \<equiv> 91"
abbreviation close_bracket :: byte where "close_bracket \<equiv> 93"
abbreviation minus_sign :: byte where "minus_sign \<equiv> 45"
abbreviation plus_sign :: byte where "plus_sign \<equiv> 43"

text \<open>The characters from \<open>token_beg\<close> to \<open>token_end\<close>; the suffix is not empty.\<close>

definition path_token :: "byte list \<Rightarrow> byte list" where
  "path_token s =
     (let inner = (\<lambda>c. c \<noteq> slash \<and> c \<noteq> open_bracket) in
      if hd s = open_bracket then hd s # takeWhile inner (tl s) else takeWhile inner s)"

definition is_index_token :: "byte list \<Rightarrow> bool" where
  "is_index_token token \<longleftrightarrow> 2 \<le> length token \<and> hd token = open_bracket \<and> last token = close_bracket"

definition is_digit :: "byte \<Rightarrow> bool" where
  "is_digit c \<longleftrightarrow> 48 \<le> c \<and> c \<le> 57"

text \<open>The loop over the digits: the index, in \<open>size_t\<close>, and the rest.\<close>

fun index_digits :: "size_t \<Rightarrow> byte list \<Rightarrow> size_t \<times> byte list" where
  "index_digits index (c # cs) =
     (if is_digit c then index_digits (index * 10 + (ucast c - 48)) cs else (index, c # cs))"
| "index_digits index [] = (index, [])"

text \<open>The sign and the index of a token, or none when a character is out of place. It does not look behind the first closing bracket.\<close>

definition parse_index :: "byte list \<Rightarrow> (int \<times> size_t) option" where
  "parse_index token =
     (let s = tl token;
          (sign, s) = (if hd s = minus_sign \<or> hd s = plus_sign then (if hd s = plus_sign then 1 else - 1, tl s)
                       else (if 1 < length s then 1 else 0, s));
          (index, s) = index_digits 0 s in
      if s \<noteq> [] \<and> hd s = close_bracket then Some (sign, index) else None)"

definition path_index_step ::
    "clib \<Rightarrow> value_mem \<Rightarrow> vptr \<Rightarrow> byte list \<Rightarrow> bool \<Rightarrow> (vptr \<times> value_mem) option" where
  "path_index_step lib h v token allow_build = (case parse_index token of
       None \<Rightarrow> Some (VNull, h)
     | Some (sign, index) \<Rightarrow> do {
         new \<leftarrow> (if allow_build then value_is_new h v else Some False);
         (ret, h) \<leftarrow> (if new then value_init_array lib h v else Some (0, h));
         if ret \<noteq> 0 then Some (VNull, h)
         else do {
           n \<leftarrow> (if sign < 0 then value_array_size h v else Some 0);
           if sign < 0 \<and> \<not> (0 < index \<and> index \<le> n) then Some (VNull, h)
           else do {
             let index = (if sign < 0 then n - index else index);
             if sign = 0 \<and> \<not> allow_build then Some (VNull, h)
             else if allow_build \<and> sign = 0 then value_array_append lib h v
             else do { item \<leftarrow> value_array_get h v index; Some (item, h) }
           }
         }
       })"

definition path_key_step ::
    "clib \<Rightarrow> value_mem \<Rightarrow> vptr \<Rightarrow> byte list \<Rightarrow> bool \<Rightarrow> (vptr \<times> value_mem) option" where
  "path_key_step lib h v token allow_build =
     (if allow_build then do {
        new \<leftarrow> value_is_new h v;
        (ret, h) \<leftarrow> (if new then value_init_dict lib h v else Some (0, h));
        if ret \<noteq> 0 then Some (VNull, h)
        else value_dict_get_or_add_n lib h v (Some token) (of_nat (length token))
      }
      else do {
        item \<leftarrow> value_dict_get_n h v (Some token) (of_nat (length token));
        Some (item, h)
      })"

lemma path_token_pos: "s \<noteq> [] \<Longrightarrow> hd s \<noteq> slash \<Longrightarrow> 0 < length (path_token s)"
  by (cases s) (auto simp: path_token_def Let_def)

lemma path_token_progress:
  assumes "dropWhile (\<lambda>c. c = slash) path \<noteq> []"
  shows "length (drop (length (path_token (dropWhile (\<lambda>c. c = slash) path))) (dropWhile (\<lambda>c. c = slash) path)) < length path"
proof -
  let ?s = "dropWhile (\<lambda>c. c = slash) path"
  have "hd ?s \<noteq> slash" using hd_dropWhile [OF assms] .
  then have "0 < length (path_token ?s)" by (rule path_token_pos [OF assms])
  moreover have "length ?s \<le> length path" by (rule length_dropWhile_le)
  moreover have "0 < length ?s" using assms by simp
  ultimately show ?thesis by (simp only: length_drop)
qed

function value_path_ex ::
    "clib \<Rightarrow> value_mem \<Rightarrow> vptr \<Rightarrow> byte list \<Rightarrow> bool \<Rightarrow> (vptr \<times> value_mem) option" where
  "value_path_ex lib h v path allow_build =
     (let s = dropWhile (\<lambda>c. c = slash) path in
      if s = [] then Some (v, h)
      else do {
        let token = path_token s;
        (v, h) \<leftarrow> (if is_index_token token then path_index_step lib h v token allow_build
                   else path_key_step lib h v token allow_build);
        if v = VNull then Some (VNull, h)
        else value_path_ex lib h v (drop (length token) s) allow_build
      })"
  by pat_completeness auto

termination
proof (relation "measure (\<lambda>(_, _, _, path, _). length path)", rule wf_measure)
  fix lib :: clib and h :: value_mem and v :: vptr and path :: "byte list" and allow_build s a w token h'
  assume "s = dropWhile (\<lambda>c. c = slash) path" "s \<noteq> []" "token = path_token s"
  then show "((lib, h', w, drop (length token) s, allow_build), lib, h, v, path, allow_build) \<in>
      measure (\<lambda>(_, _, _, path, _). length path)"
    using path_token_progress by simp
qed

declare value_path_ex.simps [simp del]

definition value_path :: "value_mem \<Rightarrow> vptr \<Rightarrow> byte list \<Rightarrow> vptr option" where
  "value_path h root_value path = do { (v, _) \<leftarrow> value_path_ex \<lparr>malloc = \<lambda>_ _. NULL, realloc = \<lambda>_ _ _. NULL\<rparr> h root_value path False; Some v }"

definition value_build_path :: "clib \<Rightarrow> value_mem \<Rightarrow> vptr \<Rightarrow> byte list \<Rightarrow> (vptr \<times> value_mem) option" where
  "value_build_path lib h root_value path = value_path_ex lib h root_value path True"

end
