(* ===== verification/Value_Array.thy ===== *)
theory Value_Array
  imports Value_Own
begin

text \<open>
  The arrays of \<open>data/value.c\<close> as lists of values: insertion with the growth of the buffer, and the removal of a
  range with the release of its items.
\<close>

section \<open>The capacities\<close>

lemma unat_power: "k < 64 \<Longrightarrow> unat (2 ^ k :: size_t) = 2 ^ k"
proof -
  assume "k < 64"
  then have "(2 :: nat) ^ k < 2 ^ 64" by (rule power_strict_increasing) simp
  then show ?thesis using unat_of_nat_size [of "2 ^ k"] by simp
qed

lemma good_alloc_loop:
  assumes "unat alloc \<le> 2 ^ 60" "unat slack \<le> 2" "unat slack \<le> 2 ^ k" "k \<le> 61"
  shows "\<exists>m. k \<le> m \<and> m \<le> 61 \<and> good_alloc_loop alloc slack (2 ^ k) = Some (2 ^ m) \<and> unat alloc \<le> 2 ^ m - unat slack \<and>
    (m = k \<or> 2 ^ (m - 1) < unat alloc + unat slack)"
  using assms(3,4)
proof (induction "61 - k" arbitrary: k)
  case 0
  then have k: "k = 61" by simp
  have "unat (2 ^ k - slack) = 2 ^ k - unat slack" using 0(2,3) by (subst unat_sub) (simp_all add: word_le_nat_alt unat_power)
  moreover have "unat alloc \<le> 2 ^ k - unat slack" using assms(1,2) k by simp
  ultimately show ?case using k
    by (intro exI [of _ k], subst good_alloc_loop.simps) (simp add: word_less_nat_alt)
next
  case (Suc d)
  have u: "unat (2 ^ k - slack) = 2 ^ k - unat slack" using Suc(3,4) by (subst unat_sub) (simp_all add: word_le_nat_alt unat_power)
  show ?case
  proof (cases "2 ^ k - slack < alloc")
    case True
    have "d = 61 - Suc k" "unat slack \<le> 2 ^ Suc k" "Suc k \<le> 61" using Suc(2-4) by simp_all
    then obtain m where m: "Suc k \<le> m" "m \<le> 61" "good_alloc_loop alloc slack (2 ^ Suc k) = Some (2 ^ m)"
      "unat alloc \<le> 2 ^ m - unat slack" "m = Suc k \<or> 2 ^ (m - 1) < unat alloc + unat slack"
      using Suc(1) by blast
    have "2 ^ k < unat alloc + unat slack" using True u by (simp add: word_less_nat_alt)
    then have "2 ^ (m - 1) < unat alloc + unat slack" using m(5) by auto
    then show ?thesis using True m
      by (intro exI [of _ m], subst good_alloc_loop.simps) (simp add: mult.commute)
  next
    case False
    then have "unat alloc \<le> 2 ^ k - unat slack" using u by (simp add: word_less_nat_alt)
    then show ?thesis using False Suc(4) by (intro exI [of _ k], subst good_alloc_loop.simps) simp
  qed
qed

lemma array_good_alloc:
  assumes "unat alloc \<le> 2 ^ 60"
  shows "\<exists>g. value_array_good_alloc_size alloc = Some g \<and> unat alloc \<le> unat g \<and> 0 < unat g \<and> unat g \<le> 2 * unat alloc + 2"
proof (cases "alloc \<le> 16")
  case True
  obtain m where m: "m \<le> 61" "good_alloc_loop alloc 0 1 = Some (2 ^ m)" "unat alloc \<le> 2 ^ m" "m = 0 \<or> 2 ^ (m - 1) < unat alloc"
    using good_alloc_loop [OF assms, of 0 0] by auto
  have "2 ^ m \<le> 2 * unat alloc + (2 :: nat)" using m(4) by (cases m) auto
  then show ?thesis using True m by (intro exI [of _ "2 ^ m"]) (simp add: value_array_good_alloc_size_def unat_power)
next
  case False
  then have big: "16 < unat alloc" by (simp add: word_less_nat_alt not_le)
  obtain m where m: "4 \<le> m" "m \<le> 61" "good_alloc_loop alloc 2 16 = Some (2 ^ m)" "unat alloc \<le> 2 ^ m - 2"
    "m = 4 \<or> 2 ^ (m - 1) < unat alloc + 2"
    using good_alloc_loop [OF assms, of 2 4] by auto
  have "(2 :: nat) ^ 4 \<le> 2 ^ m" using m(1) by (intro power_increasing) simp_all
  then have u: "unat (2 ^ m - 2 :: size_t) = 2 ^ m - 2" using m(2) by (subst unat_sub) (simp_all add: word_le_nat_alt unat_power)
  have "m \<noteq> 4" using m(4) big by auto
  then have "2 ^ (m - 1) < unat alloc + 2" "(2 :: nat) ^ m = 2 * 2 ^ (m - 1)" using m(1,5) by (simp_all flip: power_Suc)
  then have "2 ^ m - 2 \<le> 2 * unat alloc + 2" by linarith
  then show ?thesis using False m u big by (intro exI [of _ "2 ^ m - 2"]) (simp add: value_array_good_alloc_size_def)
qed

section \<open>The buffer of an array\<close>

text \<open>The buffer has as many items as \<open>a_alloc\<close> says.\<close>

definition array_buffer :: "value_mem \<Rightarrow> ARRAY \<Rightarrow> VALUE list \<Rightarrow> bool" where
  "array_buffer h A ws \<longleftrightarrow> length ws = unat (a_alloc A) \<and> (\<forall>x \<in> set ws. length x = sizeof_VALUE) \<and>
     (if value_buf A = NULL then ws = [] else load_values h (value_buf A) = Some ws)"

text \<open>The value \<open>v\<close> is an array at \<open>a\<close>, with the items \<open>ws\<close>, of which the first ones are in use.\<close>

definition array_state :: "value_mem \<Rightarrow> vptr \<Rightarrow> VALUE \<Rightarrow> addr \<Rightarrow> ARRAY \<Rightarrow> VALUE list \<Rightarrow> bool" where
  "array_state h v x a A ws \<longleftrightarrow> get_value h v = Some x \<and> (\<exists>t. cells_pointer x t a \<and> t AND TYPE_MASK = VALUE_ARRAY) \<and>
     load_array h a = Some A \<and> array_buffer h A ws \<and> unat (a_size A) \<le> length ws \<and> vaddr v \<noteq> value_buf A"

definition array_holds :: "value_mem \<Rightarrow> vptr \<Rightarrow> nat \<Rightarrow> VALUE list \<Rightarrow> bool" where
  "array_holds h v n vs \<longleftrightarrow> (\<exists>x a A ws. array_state h v x a A ws \<and> n = length ws \<and> vs = take (unat (a_size A)) ws)"

lemma array_payload:
  assumes "get_value h v = Some x" "cells_pointer x t a" "t AND TYPE_MASK = VALUE_ARRAY"
  shows "value_array_payload h v = Some a"
proof -
  have x: "cells_tag x t" using assms(2) by (simp add: cells_pointer_def)
  show ?thesis using tag_reads(3) [OF assms(1) x] assms(3) pointer_reads(3) [OF assms(1,2)] by (simp add: value_array_payload_def)
qed

lemma array_stateD:
  assumes "array_state h v x a A ws"
  shows "value_array_payload h v = Some a" "a \<noteq> NULL" "h a = Some (Array_Block A)" "load_array h a = Some A" "vaddr v \<noteq> a"
    "a \<noteq> value_buf A" "get_value h v = Some x" "array_buffer h A ws" "vaddr v \<noteq> value_buf A"
proof -
  note S = assms [unfolded array_state_def]
  obtain t where t: "cells_pointer x t a" "t AND TYPE_MASK = VALUE_ARRAY" using S by blast
  show v: "get_value h v = Some x" and A: "load_array h a = Some A" and B: "array_buffer h A ws" and "vaddr v \<noteq> value_buf A" using S by blast+
  show "value_array_payload h v = Some a" by (rule array_payload [OF v t])
  show a: "a \<noteq> NULL" "h a = Some (Array_Block A)" using loads_nonnull(1) [OF A] by simp_all
  show "vaddr v \<noteq> a" using get_value_at [OF v] v a by (cases v) (auto simp: load_def)
  show "a \<noteq> value_buf A" using B a loads_nonnull(4) by (fastforce simp: array_buffer_def split: if_splits)
qed

lemma array_state_new:
  assumes "array_state h v x a A ws" "h' a = Some (Array_Block A')" "h' (vaddr v) = h (vaddr v)" "array_buffer h' A' ws'"
    "unat (a_size A') \<le> length ws'" "vaddr v \<noteq> value_buf A'"
  shows "array_state h' v x a A' ws'"
  using assms get_value_cong [of h' v h] array_stateD(2) [OF assms(1)] by (simp add: array_state_def load_array_def load_def)

definition resized :: "VALUE list \<Rightarrow> nat \<Rightarrow> VALUE list" where
  "resized ws n = take n ws @ replicate (n - length ws) (indeterminate sizeof_VALUE)"

lemma array_realloc_cases:
  assumes lib: "clib_ok lib" and st: "array_state h v x a A ws" and n: "0 < unat alloc" "unat alloc < 2 ^ 60" "unat (a_size A) \<le> unat alloc"
  shows "if realloc lib h (value_buf A) (unat alloc * 16) = NULL then value_array_realloc lib h a alloc = Some (- 1, h)
    else \<exists>buf h'. value_array_realloc lib h a alloc = Some (0, h') \<and>
      array_state h' v x a (A\<lparr>value_buf := buf, a_alloc := alloc\<rparr>) (resized ws (unat alloc)) \<and>
      (\<forall>p. p \<notin> {a, value_buf A, buf} \<longrightarrow> h' p = h p) \<and> (buf = value_buf A \<or> h buf = None)"
proof -
  note S = array_stateD [OF st]
  have bytes: "unat (alloc * of_nat sizeof_VALUE) = unat alloc * 16" using n(2) by (simp add: sizeof_VALUE_def unat_word_ariths)
  have old: "(if value_buf A = NULL then Some [] else load_values h (value_buf A)) = Some ws"
    using S(8) by (auto simp: array_buffer_def)
  define buf where "buf = realloc lib h (value_buf A) (unat alloc * 16)"
  show ?thesis
  proof (cases "buf = NULL")
    case True
    then show ?thesis using S(4) old bytes n(1) unfolding buf_def by (simp add: value_array_realloc_def Let_def)
  next
    case False
    then have fresh: "buf = value_buf A \<or> h buf = None" using lib unfolding clib_ok_def buf_def by (metis insert_iff singletonD)
    have va: "h (vaddr v) \<noteq> None" using S(7) by (cases v) (auto simp: load_def split: if_splits option.splits)
    have ne: "buf \<noteq> a" "vaddr v \<noteq> buf" using fresh S(3,6,9) va by auto
    let ?h = "(if value_buf A = NULL then h else h(value_buf A := None))(buf \<mapsto> Values (resized ws (unat alloc)))"
    let ?A = "A\<lparr>value_buf := buf, a_alloc := alloc\<rparr>"
    have "load_array ?h a = Some A" using S(3,2,6) ne by (auto simp: load_array_def load_def)
    then have code: "value_array_realloc lib h a alloc = Some (0, ?h(a \<mapsto> Array_Block ?A))"
      using S(4) old bytes n(1) False
      by (simp add: value_array_realloc_def buf_def [symmetric] Let_def modify_array_def resized_def sizeof_VALUE_def)
    have "array_state (?h(a \<mapsto> Array_Block ?A)) v x a ?A (resized ws (unat alloc))"
    proof (rule array_state_new [OF st])
      show "(?h(a \<mapsto> Array_Block ?A)) (vaddr v) = h (vaddr v)" using ne S(5,9) by simp
      have "\<forall>y \<in> set (resized ws (unat alloc)). length y = sizeof_VALUE"
        using S(8) by (auto simp: resized_def array_buffer_def indeterminate_def dest: in_set_takeD)
      then show "array_buffer (?h(a \<mapsto> Array_Block ?A)) ?A (resized ws (unat alloc))"
        using False ne by (simp add: array_buffer_def load_values_def load_def resized_def)
      show "unat (a_size ?A) \<le> length (resized ws (unat alloc))" using n(3) by (simp add: resized_def)
      show "vaddr v \<noteq> value_buf ?A" using ne by simp
    qed simp
    moreover have "(?h(a \<mapsto> Array_Block ?A)) p = h p" if "p \<notin> {a, value_buf A, buf}" for p using that by simp
    ultimately show ?thesis unfolding buf_def [symmetric] if_not_P [OF False] using code fresh by blast
  qed
qed

lemma value_array_realloc:
  assumes lib: "clib_ok lib" and st: "array_state h v x a A ws" and n: "0 < unat alloc" "unat alloc < 2 ^ 60" "unat (a_size A) \<le> unat alloc"
  shows "value_array_realloc lib h a alloc = Some (- 1, h) \<or>
    (\<exists>buf h'. value_array_realloc lib h a alloc = Some (0, h') \<and>
      array_state h' v x a (A\<lparr>value_buf := buf, a_alloc := alloc\<rparr>) (resized ws (unat alloc)) \<and>
      (\<forall>p. p \<notin> {a, value_buf A, buf} \<longrightarrow> h' p = h p) \<and> (buf = value_buf A \<or> h buf = None))"
  using array_realloc_cases [OF assms] by (cases "realloc lib h (value_buf A) (unat alloc * 16) = NULL") simp_all

section \<open>Insertion\<close>

text \<open>Moving the items up and initializing the free place.\<close>

definition opened :: "VALUE list \<Rightarrow> nat \<Rightarrow> nat \<Rightarrow> VALUE list" where
  "opened ws i n = take (Suc i) ws @ take (n - i) (drop i ws) @ drop (Suc n) ws"

lemma opened:
  assumes "i \<le> n" "n < length ws"
  shows "length (opened ws i n) = length ws" "take (Suc n) ((opened ws i n)[i := x]) = take i ws @ x # take (n - i) (drop i ws)"
    "i < length ws" "set (opened ws i n) \<subseteq> set ws"
proof -
  show "length (opened ws i n) = length ws" "i < length ws" using assms by (auto simp: opened_def)
  have "take (Suc i) ws = take i ws @ [ws ! i]" using assms by (simp add: take_Suc_conv_app_nth)
  then have "(opened ws i n)[i := x] = take i ws @ x # take (n - i) (drop i ws) @ drop (Suc n) ws"
    using assms by (simp add: opened_def list_update_append)
  then show "take (Suc n) ((opened ws i n)[i := x]) = take i ws @ x # take (n - i) (drop i ws)"
    using assms by (simp add: take_Cons' Suc_diff_le)
  show "set (opened ws i n) \<subseteq> set ws" by (auto simp: opened_def dest: in_set_takeD in_set_dropD)
qed

lemma insert_room:
  assumes st: "array_state h v x a A ws" and i: "unat index \<le> unat (a_size A)" "unat (a_size A) < length ws"
  shows "\<exists>h' y. do {
      h \<leftarrow> (if index < a_size A then array_memmove h (value_buf A) (unat index + 1) (unat index) (unat (a_size A - index)) else Some h);
      h \<leftarrow> value_init_new h (Item (value_buf A) (unat index));
      modify_array h a (\<lambda>A. A\<lparr>a_size := a_size A + 1\<rparr>) } = Some h' \<and>
    array_state h' v x a (A\<lparr>a_size := a_size A + 1\<rparr>) ((opened ws (unat index) (unat (a_size A)))[unat index := y]) \<and>
    unat (a_size A + 1) = Suc (unat (a_size A)) \<and> y ! 0 = Some (VALUE_NULL OR IS_NEW) \<and> length y = sizeof_VALUE \<and>
    (\<forall>p. p \<notin> {a, value_buf A} \<longrightarrow> h' p = h p)"
proof -
  note S = array_stateD [OF st]
  let ?n = "unat (a_size A)" and ?i = "unat index" and ?b = "value_buf A"
  note op = opened [OF i]
  have b: "?b \<noteq> NULL" "load_values h ?b = Some ws" "length ws = unat (a_alloc A)" "\<forall>x \<in> set ws. length x = sizeof_VALUE"
    using S(8) i(2) by (auto simp: array_buffer_def split: if_splits)
  let ?ws = "opened ws ?i ?n"
  let ?h1 = "h(?b \<mapsto> Values ?ws)"
  have 1: "(if index < a_size A then array_memmove h ?b (?i + 1) ?i (unat (a_size A - index)) else Some h) = Some ?h1"
  proof (cases "index < a_size A")
    case True
    then have "unat (a_size A - index) = ?n - ?i" by (intro unat_sub) (rule order.strict_implies_order)
    then show ?thesis using True i b(2) by (simp add: array_memmove_def mem_move_in opened_def word_less_nat_alt)
  next
    case False
    then have "?i = ?n" using i(1) by (simp add: word_less_nat_alt)
    then have "?ws = ws" using append_take_drop_id [of "Suc ?n" ws] by (simp add: opened_def)
    moreover have "h(?b \<mapsto> Values ws) = h" using loads_nonnull(4) [OF b(2)] by auto
    ultimately show ?thesis using False by simp
  qed
  define y where "y = (?ws ! ?i)[0 := Some (VALUE_NULL OR IS_NEW)]"
  have y: "length (?ws ! ?i) = sizeof_VALUE" using op(1,3,4) b(4) by (metis nth_mem subsetD)
  have item: "get_value ?h1 (Item ?b ?i) = Some (?ws ! ?i)" using b(1) op(1,3) by (simp add: load_def peek_def)
  let ?h2 = "h(?b \<mapsto> Values (?ws[?i := y]))"
  have 2: "value_init_new ?h1 (Item ?b ?i) = Some ?h2"
    using data_set [OF item, of 0 "VALUE_NULL OR IS_NEW"] y b(1) op(1,3)
    by (simp add: value_init_new_def y_def sizeof_VALUE_def load_def)
  let ?A = "A\<lparr>a_size := a_size A + 1\<rparr>"
  have "load_array ?h2 a = Some A" using S(2,3,6) by (simp add: load_array_def load_def)
  then have 3: "modify_array ?h2 a (\<lambda>A. A\<lparr>a_size := a_size A + 1\<rparr>) = Some (?h2(a \<mapsto> Array_Block ?A))" by (simp add: modify_array_def)
  have "unat (a_alloc A) < 2 ^ LENGTH(64)" by (rule unsigned_less)
  then have "Suc ?n < 2 ^ 64" using i(2) b(3) by simp
  then have n: "unat (a_size A + 1) = Suc ?n" by (simp add: unat_word_ariths)
  have "array_state (?h2(a \<mapsto> Array_Block ?A)) v x a ?A (?ws[?i := y])"
  proof (rule array_state_new [OF st])
    show "(?h2(a \<mapsto> Array_Block ?A)) (vaddr v) = h (vaddr v)" using S(5,9) by simp
    have len: "length y = sizeof_VALUE" using y by (simp add: y_def)
    have "\<forall>x \<in> set (?ws[?i := y]). length x = sizeof_VALUE"
    proof
      fix x assume "x \<in> set (?ws[?i := y])"
      then have "x \<in> insert y (set ?ws)" by (rule subsetD [OF set_update_subset_insert])
      then show "length x = sizeof_VALUE" using len op(4) b(4) by auto
    qed
    then show "array_buffer (?h2(a \<mapsto> Array_Block ?A)) ?A (?ws[?i := y])"
      using b S(6) op(1) by (simp add: array_buffer_def load_values_def load_def)
    show "unat (a_size ?A) \<le> length (?ws[?i := y])" using n i(2) op(1) by simp
    show "vaddr v \<noteq> value_buf ?A" using S(9) by simp
  qed simp
  moreover have "y ! 0 = Some (VALUE_NULL OR IS_NEW)" "length y = sizeof_VALUE" using y by (simp_all add: y_def sizeof_VALUE_def)
  ultimately show ?thesis using 1 2 3 n
    by (intro exI [of _ "?h2(a \<mapsto> Array_Block ?A)"] exI [of _ y]) simp
qed

lemma insert_item:
  assumes st: "array_state h v x a A ws" and i: "unat index \<le> unat (a_size A)" "unat (a_size A) < length ws"
    and vs: "vs = take (unat (a_size A)) ws"
  shows "\<exists>h' y. do {
      h \<leftarrow> (if index < a_size A then array_memmove h (value_buf A) (unat index + 1) (unat index) (unat (a_size A - index)) else Some h);
      h \<leftarrow> value_init_new h (Item (value_buf A) (unat index));
      modify_array h a (\<lambda>A. A\<lparr>a_size := a_size A + 1\<rparr>) } = Some h' \<and>
    array_holds h' v (length ws) (take (unat index) vs @ y # drop (unat index) vs) \<and>
    get_value h' (Item (value_buf A) (unat index)) = Some y \<and> value_is_new h' (Item (value_buf A) (unat index)) = Some True \<and>
    (\<forall>p. p \<notin> {a, value_buf A} \<longrightarrow> h' p = h p)"
proof -
  let ?n = "unat (a_size A)" and ?i = "unat index" and ?w = "Item (value_buf A) (unat index)"
  obtain h' y where r: "do {
      h \<leftarrow> (if index < a_size A then array_memmove h (value_buf A) (unat index + 1) (unat index) (unat (a_size A - index)) else Some h);
      h \<leftarrow> value_init_new h (Item (value_buf A) (unat index));
      modify_array h a (\<lambda>A. A\<lparr>a_size := a_size A + 1\<rparr>) } = Some h'"
    "array_state h' v x a (A\<lparr>a_size := a_size A + 1\<rparr>) ((opened ws ?i ?n)[?i := y])" "unat (a_size A + 1) = Suc ?n"
    "y ! 0 = Some (VALUE_NULL OR IS_NEW)" "length y = sizeof_VALUE" "\<forall>p. p \<notin> {a, value_buf A} \<longrightarrow> h' p = h p"
    using insert_room [OF st i] by (elim exE conjE) (rule that)
  note op = opened [OF i]
  have "take ?i vs @ y # drop ?i vs = take (Suc ?n) ((opened ws ?i ?n)[?i := y])"
    unfolding op(2) using i(1) by (simp add: vs drop_take min_def)
  then have "array_holds h' v (length ws) (take ?i vs @ y # drop ?i vs)"
    unfolding array_holds_def using r(2,3) op(1)
    by (intro exI [of _ x] exI [of _ a] exI [of _ "A\<lparr>a_size := a_size A + 1\<rparr>"] exI [of _ "(opened ws ?i ?n)[?i := y]"]) simp
  moreover have get: "get_value h' ?w = Some y"
    using array_stateD(8) [OF r(2)] op(1,3) by (auto simp: array_buffer_def peek_def load_values_def split: if_splits option.splits block.splits)
  moreover have "value_is_new h' ?w = Some True"
    using data_get [OF get, of 0] r(4,5)
    by (simp add: value_is_new_def value_type_def sizeof_VALUE_def value_types value_flags)
  ultimately show ?thesis using r(1,6) by blast
qed

text \<open>The blocks of an array: its own and the buffer of its items.\<close>

definition array_footprint :: "value_mem \<Rightarrow> vptr \<Rightarrow> addr set" where
  "array_footprint h v = (case value_array_payload h v of None \<Rightarrow> {}
     | Some a \<Rightarrow> (case load_array h a of None \<Rightarrow> {} | Some A \<Rightarrow> {a, value_buf A}))"

lemma footprint: "array_state h v x a A ws \<Longrightarrow> array_footprint h v = {a, value_buf A}"
  using array_stateD(1,4) [of h v x a A ws] by (simp add: array_footprint_def)

text \<open>The buffer of the items, and whether there is no memory for more items in an array of the capacity \<open>n\<close>.\<close>

definition array_buf :: "value_mem \<Rightarrow> vptr \<Rightarrow> addr" where
  "array_buf h v = (case value_array_payload h v of None \<Rightarrow> NULL
     | Some a \<Rightarrow> (case load_array h a of None \<Rightarrow> NULL | Some A \<Rightarrow> value_buf A))"

definition growth_refused :: "clib \<Rightarrow> value_mem \<Rightarrow> vptr \<Rightarrow> nat \<Rightarrow> bool" where
  "growth_refused lib h v n \<longleftrightarrow>
     (\<exists>g. value_array_good_alloc_size (of_nat n + 1) = Some g \<and> realloc lib h (array_buf h v) (unat g * 16) = NULL)"

text \<open>
  C32. \<open>value_array_insert\<close> at an index within an array of the capacity \<open>n\<close> puts a new value there and moves the
  following ones up. It returns NULL and changes nothing exactly when the index is beyond the end, or
  the capacity is used up and \<open>realloc\<close> refuses the larger buffer; a granted one has at least one place
  more and at most twice as many and four. No other block changes than those of the array.
\<close>

theorem value_array_insert_correct:
  assumes "clib_ok lib" "array_holds h v n vs" "n < 2 ^ 58" "unat index = i"
  shows "if length vs < i \<or> length vs = n \<and> growth_refused lib h v n then value_array_insert lib h v index = Some (VNull, h)
    else \<exists>w h' n' y. value_array_insert lib h v index = Some (w, h') \<and> array_holds h' v n' (take i vs @ y # drop i vs) \<and>
      get_value h' w = Some y \<and> value_is_new h' w = Some True \<and>
      (if length vs < n then n' = n else n < n' \<and> n' \<le> 2 * n + 4) \<and>
      (\<forall>p. h p \<noteq> None \<and> p \<notin> array_footprint h v \<longrightarrow> h' p = h p)"
proof -
  obtain x a A ws where st: "array_state h v x a A ws" and n: "n = length ws" and vs: "vs = take (unat (a_size A)) ws"
    using assms(2) unfolding array_holds_def by blast
  note S = array_stateD [OF st]
  have size: "length vs = unat (a_size A)" "unat (a_size A) \<le> length ws" "length ws = unat (a_alloc A)"
    using st vs by (auto simp: array_state_def array_buffer_def)
  have start: "value_array_insert lib h v index = (if index > a_size A then Some (VNull, h) else do {
      (ret, h) \<leftarrow> (if a_size A \<ge> a_alloc A then do {
           good_alloc \<leftarrow> value_array_good_alloc_size (a_alloc A + 1);
           value_array_realloc lib h a good_alloc
         }
         else Some (0, h));
      if ret \<noteq> 0 then Some (VNull, h)
      else do {
        A \<leftarrow> load_array h a;
        h \<leftarrow> do {
          h \<leftarrow> (if index < a_size A then array_memmove h (value_buf A) (unat index + 1) (unat index) (unat (a_size A - index)) else Some h);
          h \<leftarrow> value_init_new h (Item (value_buf A) (unat index));
          modify_array h a (\<lambda>A. A\<lparr>a_size := a_size A + 1\<rparr>) };
        Some (Item (value_buf A) (unat index), h)
      } })"
    using S(1,2,4) by (simp add: value_array_insert_def bind_assoc cong: if_cong)
  show ?thesis
  proof (cases "length vs < i")
    case True
    then show ?thesis using start size assms(4) by (simp add: word_less_nat_alt)
  next
    case False
    then have i: "unat index \<le> unat (a_size A)" "\<not> index > a_size A" using size assms(4) by (simp_all add: word_less_nat_alt)
    show ?thesis
    proof (cases "unat (a_size A) < length ws")
      case room: True
      obtain h' y where r: "do {
          h \<leftarrow> (if index < a_size A then array_memmove h (value_buf A) (unat index + 1) (unat index) (unat (a_size A - index)) else Some h);
          h \<leftarrow> value_init_new h (Item (value_buf A) (unat index));
          modify_array h a (\<lambda>A. A\<lparr>a_size := a_size A + 1\<rparr>) } = Some h'"
        "array_holds h' v (length ws) (take (unat index) vs @ y # drop (unat index) vs)" "get_value h' (Item (value_buf A) (unat index)) = Some y"
        "value_is_new h' (Item (value_buf A) (unat index)) = Some True" "\<forall>p. p \<notin> {a, value_buf A} \<longrightarrow> h' p = h p"
        using insert_item [OF st i(1) room vs] by (elim exE conjE) (rule that)
      have spare: "\<not> a_size A \<ge> a_alloc A" using room size(3) by (simp add: word_le_nat_alt)
      have "value_array_insert lib h v index = Some (Item (value_buf A) (unat index), h')"
        unfolding start by (simp only: i(2) spare S(4) r(1) simp_thms if_False Option.bind.bind_lunit prod.case)
      moreover have "\<not> (length vs < i \<or> length vs = n \<and> growth_refused lib h v n)" "length vs < n"
        using False room size(1) n by simp_all
      ultimately show ?thesis using r(2-5) unfolding footprint [OF st] assms(4) n by (simp only: if_False if_True) blast
    next
      case False
      then have full: "a_size A \<ge> a_alloc A" "length vs = n" using size n by (simp_all add: word_le_nat_alt)
      have "unat (a_alloc A + 1) = n + 1" using assms(3) n size(3) by (simp add: unat_word_ariths)
      then obtain g where g: "value_array_good_alloc_size (a_alloc A + 1) = Some g" "n + 1 \<le> unat g" "unat g \<le> 2 * n + 4"
        using array_good_alloc [of "a_alloc A + 1"] assms(3) by auto
      have "0 < unat g" "unat g < 2 ^ 60" "unat (a_size A) \<le> unat g" using g assms(3) size n by auto
      note grow = array_realloc_cases [OF assms(1) st this]
      have "a_alloc A = of_nat n" using n size(3) by (simp add: word_unat_eq_iff)
      then have refused: "growth_refused lib h v n \<longleftrightarrow> realloc lib h (value_buf A) (unat g * 16) = NULL"
        using g(1) S(1,4) by (simp add: growth_refused_def array_buf_def)
      show ?thesis
      proof (cases "realloc lib h (value_buf A) (unat g * 16) = NULL")
        case True
        then have "value_array_insert lib h v index = Some (VNull, h)" using grow start i(2) full(1) g(1) by simp
        then show ?thesis using full(2) True refused by simp
      next
        case granted: False
        then obtain buf h1 where alloc: "value_array_realloc lib h a g = Some (0, h1)"
          and st1: "array_state h1 v x a (A\<lparr>value_buf := buf, a_alloc := g\<rparr>) (resized ws (unat g))"
          and frame: "\<forall>p. p \<notin> {a, value_buf A, buf} \<longrightarrow> h1 p = h p" "buf = value_buf A \<or> h buf = None"
          using grow by auto
        let ?A = "A\<lparr>value_buf := buf, a_alloc := g\<rparr>"
        have len: "length (resized ws (unat g)) = unat g" by (simp add: resized_def)
        have vs': "vs = take (unat (a_size ?A)) (resized ws (unat g))"
          using full(2) n g(2) size by (simp add: resized_def vs)
        have "unat index \<le> unat (a_size ?A)" "unat (a_size ?A) < length (resized ws (unat g))" using i(1) g(2) n len size full(2) by auto
        moreover have A1: "a_size ?A = a_size A" "value_buf ?A = buf" by simp_all
        ultimately have room: "unat index \<le> unat (a_size ?A)" "unat (a_size ?A) < length (resized ws (unat g))" by blast+
        from insert_item [OF st1 room vs'] obtain h' y where r: "do {
            h \<leftarrow> (if index < a_size A then array_memmove h1 buf (unat index + 1) (unat index) (unat (a_size A - index)) else Some h1);
            h \<leftarrow> value_init_new h (Item buf (unat index));
            modify_array h a (\<lambda>A. A\<lparr>a_size := a_size A + 1\<rparr>) } = Some h'"
          "array_holds h' v (unat g) (take (unat index) vs @ y # drop (unat index) vs)" "get_value h' (Item buf (unat index)) = Some y"
          "value_is_new h' (Item buf (unat index)) = Some True" "\<forall>p. p \<notin> {a, buf} \<longrightarrow> h' p = h1 p"
          unfolding len A1 by (elim exE conjE) (rule that)
        have "value_array_insert lib h v index = Some (Item buf (unat index), h')"
          unfolding start
          by (simp only: i(2) full(1) g(1) alloc array_stateD(4) [OF st1] A1 r(1) simp_thms if_False if_True Option.bind.bind_lunit prod.case)
        moreover have "h' p = h p" if "h p \<noteq> None" "p \<notin> {a, value_buf A}" for p
        proof -
          have "p \<noteq> buf" using that frame(2) by auto
          then show ?thesis using that frame(1) r(5) by simp
        qed
        moreover have "\<not> (length vs < i \<or> length vs = n \<and> growth_refused lib h v n)" "\<not> length vs < n" "n < unat g"
          using \<open>\<not> length vs < i\<close> granted refused full(2) g(2) by simp_all
        ultimately show ?thesis using r(2-4) g(3) unfolding footprint [OF st] assms(4) by (simp only: if_False) blast
      qed
    qed
  qed
qed

lemma array_two_holds: "array_holds array_two (Var 64) 2 two_items"
proof -
  let ?A = "\<lparr>value_buf = 256, a_size = 2, a_alloc = 2\<rparr>"
  have t: "(VALUE_ARRAY OR IS_MALLOCED) AND TYPE_MASK = VALUE_ARRAY" "(VALUE_ARRAY OR IS_MALLOCED) AND IS_MALLOCED \<noteq> 0"
    by (simp_all add: value_types value_flags)
  have "cells_pointer array_cells (VALUE_ARRAY OR IS_MALLOCED) 128" unfolding array_cells_def by (rule cells_pointer_new [OF t(2)])
  moreover have "array_buffer array_two ?A two_items"
    by (simp add: array_buffer_def two_items_def load_values_def load_def array_two_def) (simp add: indeterminate_def)
  ultimately have "array_state array_two (Var 64) array_cells 128 ?A two_items"
    using t(1) by (auto simp: array_state_def load_array_def load_def array_two_def two_items_def)
  then show ?thesis unfolding array_holds_def
    by (intro exI [of _ array_cells] exI [of _ 128] exI [of _ ?A] exI [of _ two_items]) (simp add: two_items_def)
qed

text \<open>A C library that grants every \<open>realloc\<close>, in place: an insertion between two items, granted and refused.\<close>

definition in_place :: clib where
  "in_place = \<lparr>malloc = \<lambda>h n. NULL, realloc = \<lambda>h p n. p\<rparr>"

lemma in_place_ok: "clib_ok in_place"
  by (simp add: clib_ok_def in_place_def)

lemma value_array_insert_correct_witness:
  "(\<exists>w h' n' y. value_array_insert in_place array_two (Var 64) 1 = Some (w, h') \<and>
      array_holds h' (Var 64) n' [two_items ! 0, y, two_items ! 1] \<and> value_is_new h' w = Some True) \<and>
   value_array_insert no_memory array_two (Var 64) 1 = Some (VNull, array_two)"
proof -
  obtain x a A ws where st: "array_state array_two (Var 64) x a A ws" using array_two_holds unfolding array_holds_def by blast
  have "array_two a = Some (Array_Block A)" using array_stateD(3) [OF st] .
  then have "value_buf A = 256" by (auto simp: array_two_def split: if_splits)
  then have "array_buf array_two (Var 64) = 256" using array_stateD(1,4) [OF st] by (simp add: array_buf_def)
  moreover obtain g where "value_array_good_alloc_size (of_nat 2 + 1) = Some g" using array_good_alloc [of "of_nat 2 + 1"] by auto
  ultimately have "\<not> growth_refused in_place array_two (Var 64) 2" "growth_refused no_memory array_two (Var 64) 2"
    by (simp_all add: growth_refused_def in_place_def no_memory_def)
  with value_array_insert_correct [OF in_place_ok array_two_holds, of 1 1]
    value_array_insert_correct [OF no_memory_ok array_two_holds, of 1 1]
  show ?thesis by (auto simp: two_items_def)
qed

section \<open>Removal\<close>

text \<open>The release of the items from \<open>i\<close> on, up to \<open>e\<close>.\<close>

lemma fini_range_run:
  assumes spec: "\<And>j. j < n \<Longrightarrow> fini_spec h (vs ! j) (F j)"
    and sep: "apart {..<n} F" "\<And>j. j < n \<Longrightarrow> F j \<inter> {a, value_buf A} = {}" and A: "a \<noteq> value_buf A" "e \<le> n" "e < 2 ^ 64"
  shows "i \<le> e \<Longrightarrow> load_array M a = Some A \<Longrightarrow> load_values M (value_buf A) = Some ws \<Longrightarrow> n \<le> length ws \<Longrightarrow>
    (\<forall>j. i \<le> j \<longrightarrow> j < e \<longrightarrow> ws ! j = vs ! j \<and> (\<forall>p \<in> F j. M p = h p)) \<Longrightarrow>
    \<exists>ws'. fini_range M a (of_nat i) (of_nat e) = Some ((M |` (- (\<Union>j \<in> {i..<e}. F j)))(value_buf A \<mapsto> Values ws')) \<and>
      length ws' = length ws \<and> (\<forall>j. j < i \<or> e \<le> j \<longrightarrow> ws' ! j = ws ! j) \<and>
      ((\<forall>x \<in> set ws. length x = sizeof_VALUE) \<longrightarrow> (\<forall>x \<in> set ws'. length x = sizeof_VALUE))"
proof (induction "e - i" arbitrary: i M ws)
  case 0
  then have "i = e" by simp
  then have "fini_range M a (of_nat i) (of_nat e) = Some M" by (subst fini_range.simps) simp
  moreover have "M(value_buf A \<mapsto> Values ws) = M" using loads_nonnull(4) [OF 0(4)] by auto
  ultimately show ?case using \<open>i = e\<close> by (intro exI [of _ ws]) (simp add: restrict_map_def)
next
  case (Suc k)
  let ?b = "value_buf A"
  from Suc have i: "i < e" "i < n" using A(2) by simp_all
  have idx: "(of_nat i :: size_t) < of_nat e" "unat (of_nat i :: size_t) = i" "(of_nat i :: size_t) + 1 = of_nat (Suc i)"
    using i A(3) by (simp_all add: word_less_nat_alt unat_of_nat)
  let ?v = "Item ?b i" and ?ws = "ws[i := nulled (vs ! i)]"
  let ?M = "(M |` (- F i))(?b \<mapsto> Values ?ws)"
  have buf: "?b \<noteq> NULL" "M ?b = Some (Values ws)" using loads_nonnull(4) [OF Suc(5)] by simp_all
  have get: "get_value M ?v = Some (vs ! i)" using i Suc(6,7) buf by (simp add: load_def peek_def)
  have F: "?b \<notin> F i" "a \<notin> F i" using sep(2) [OF i(2)] by auto
  have "fini_run (Fini ?v) M = Some (upd_value (M |` (- F i)) ?v (nulled (vs ! i)))"
  proof (rule fini_specD [OF spec [OF i(2)] get])
    show "M p = h p" if "p \<in> F i" for p using Suc(7) i that by blast
    show "vaddr ?v \<notin> F i" using F by simp
  qed
  also have "upd_value (M |` (- F i)) ?v (nulled (vs ! i)) = ?M" using buf F by simp
  finally have step: "value_fini M ?v = Some ?M" unfolding value_fini_def .
  have code: "fini_range M a (of_nat i) (of_nat e) = fini_range ?M a (of_nat (Suc i)) (of_nat e)"
    using Suc(4) idx(1,2) step unfolding idx(3) [symmetric] by (subst fini_range.simps) simp
  have "?M a = M a" using F A(1) by simp
  then have A1: "load_array ?M a = Some A" using Suc(4) loads_cong(1) [of ?M a M] by simp
  have A2: "load_values ?M ?b = Some ?ws" using buf by (simp add: load_values_def load_def)
  have A3: "\<forall>j. Suc i \<le> j \<longrightarrow> j < e \<longrightarrow> ?ws ! j = vs ! j \<and> (\<forall>p \<in> F j. ?M p = h p)"
  proof (intro allI impI conjI ballI)
    fix j assume j: "Suc i \<le> j" "j < e"
    then show "?ws ! j = vs ! j" using Suc(7) by simp
    fix p assume p: "p \<in> F j"
    have "F i \<inter> F j = {}" using sep(1) i j A(2) by (simp add: apart_def)
    moreover have "F j \<inter> {a, ?b} = {}" using sep(2) [of j] j A(2) by simp
    ultimately have "p \<noteq> ?b" "p \<notin> F i" using p by blast+
    moreover have "M p = h p" using Suc(7) p j by (meson Suc_leD)
    ultimately show "?M p = h p" by simp
  qed
  have k: "k = e - Suc i" "Suc i \<le> e" "n \<le> length ?ws" using Suc(2,6) i by simp_all
  obtain ws' where ws': "fini_range ?M a (of_nat (Suc i)) (of_nat e) = Some ((?M |` (- (\<Union>j \<in> {Suc i..<e}. F j)))(?b \<mapsto> Values ws'))"
      "length ws' = length ?ws" "\<forall>j. j < Suc i \<or> e \<le> j \<longrightarrow> ws' ! j = ?ws ! j"
      "(\<forall>x \<in> set ?ws. length x = sizeof_VALUE) \<longrightarrow> (\<forall>x \<in> set ws'. length x = sizeof_VALUE)"
    using Suc(1) [OF k(1,2) A1 A2 k(3) A3] by (elim exE conjE) (rule that)
  have "{i..<e} = insert i {Suc i..<e}" using i by auto
  then have "(\<Union>j \<in> {i..<e}. F j) = F i \<union> (\<Union>j \<in> {Suc i..<e}. F j)" by simp
  then have "(?M |` (- (\<Union>j \<in> {Suc i..<e}. F j)))(?b \<mapsto> Values ws') = (M |` (- (\<Union>j \<in> {i..<e}. F j)))(?b \<mapsto> Values ws')"
    by (auto simp: restrict_map_def fun_eq_iff)
  moreover have "\<forall>j. j < i \<or> e \<le> j \<longrightarrow> ws' ! j = ws ! j" using ws'(3) i(1) by auto
  moreover have "(\<forall>x \<in> set ws. length x = sizeof_VALUE) \<longrightarrow> (\<forall>x \<in> set ?ws. length x = sizeof_VALUE)"
  proof (intro impI ballI)
    fix x assume len: "\<forall>x \<in> set ws. length x = sizeof_VALUE" and "x \<in> set ?ws"
    then have "x \<in> insert (nulled (vs ! i)) (set ws)" by (metis set_update_subset_insert subsetD)
    moreover have "ws ! i = vs ! i" "i < length ws" using Suc(7) i k(3) by simp_all
    then have "length (nulled (vs ! i)) = sizeof_VALUE" using len nth_mem by (metis length_list_update nulled_def)
    ultimately show "length x = sizeof_VALUE" using len by auto
  qed
  ultimately show ?case unfolding code using ws'(1,2,4) by (intro exI [of _ ws']) simp
qed

text \<open>The items of the range released, the others moved down.\<close>

lemma remove_items:
  assumes st: "array_state h v x a A ws" and r: "i + c \<le> unat (a_size A)" "unat index = i" "unat count = c"
    and own: "\<forall>j < unat (a_size A). owns h (ws ! j) (F j)" "apart {..<unat (a_size A)} F"
      "\<forall>j < unat (a_size A). F j \<inter> {a, value_buf A, vaddr v} = {}"
  shows "\<exists>h' ws'. do {
      h \<leftarrow> fini_range h a index (index + count);
      A \<leftarrow> load_array h a;
      h \<leftarrow> (if index + count < a_size A
            then array_memmove h (value_buf A) (unat index) (unat (index + count)) (unat (a_size A - (index + count)))
            else Some h);
      modify_array h a (\<lambda>A. A\<lparr>a_size := a_size A - count\<rparr>) } = Some h' \<and>
    array_state h' v x a (A\<lparr>a_size := a_size A - count\<rparr>) ws' \<and> length ws' = length ws \<and>
    take (unat (a_size A) - c) ws' = take i ws @ take (unat (a_size A) - (i + c)) (drop (i + c) ws) \<and>
    (\<forall>p. p \<notin> {a, value_buf A} \<longrightarrow> h' p = (if p \<in> (\<Union>j \<in> {i..<i + c}. F j) then None else h p))"
proof (cases "unat (a_size A) = 0")
  case True
  then have z: "i = 0" "c = 0" "index = 0" "count = 0" "a_size A = 0" using r by (simp_all add: unat_eq_0)
  note S = array_stateD [OF st]
  have "fini_range h a 0 0 = Some h" by (subst fini_range.simps) simp
  moreover have same: "A\<lparr>a_size := a_size A - count\<rparr> = A" using z(4) by (cases A) simp
  have "array_state h v x a (A\<lparr>a_size := a_size A - count\<rparr>) ws" unfolding same by (rule st)
  moreover have "modify_array h a (\<lambda>A. A\<lparr>a_size := a_size A - count\<rparr>) = Some h"
    unfolding modify_array_def S(4) Option.bind.bind_lunit same using S(3) by auto
  ultimately show ?thesis using S(4) z(1-3,5) unfolding z(3) z(4)
    by (intro exI [of _ h] exI [of _ ws] conjI) simp_all
next
  case False
  note S = array_stateD [OF st]
  let ?n = "unat (a_size A)" and ?b = "value_buf A" and ?e = "i + c" and ?U = "\<Union>j \<in> {i..<i + c}. F j"
  have n: "?n \<le> length ws" "0 < ?n" using st False by (auto simp: array_state_def)
  then have b: "?b \<noteq> NULL" "load_values h ?b = Some ws" "length ws = unat (a_alloc A)" "\<forall>x \<in> set ws. length x = sizeof_VALUE"
    using S(8) by (auto simp: array_buffer_def split: if_splits)
  have "unat (a_size A) < 2 ^ LENGTH(64)" by (rule unsigned_less)
  then have small: "?e < 2 ^ 64" using r(1) by simp
  have sum: "unat (index + count) = ?e" using small r(2,3) by (simp add: unat_word_ariths)
  have "index + count = of_nat (unat (index + count))" by simp
  then have words: "index = of_nat i" "index + count = of_nat ?e" using r(2) unfolding sum by auto
  obtain ws1 where w1: "fini_range h a index (index + count) = Some ((h |` (- ?U))(?b \<mapsto> Values ws1))" "length ws1 = length ws"
      "\<forall>j. j < i \<or> ?e \<le> j \<longrightarrow> ws1 ! j = ws ! j" "\<forall>x \<in> set ws1. length x = sizeof_VALUE"
  proof -
    have "\<exists>ws'. fini_range h a (of_nat i) (of_nat ?e) = Some ((h |` (- ?U))(?b \<mapsto> Values ws')) \<and>
      length ws' = length ws \<and> (\<forall>j. j < i \<or> ?e \<le> j \<longrightarrow> ws' ! j = ws ! j) \<and>
      ((\<forall>x \<in> set ws. length x = sizeof_VALUE) \<longrightarrow> (\<forall>x \<in> set ws'. length x = sizeof_VALUE))"
    proof (rule fini_range_run [where n = ?n and h = h and vs = ws and A = A])
      show "fini_spec h (ws ! j) (F j)" if "j < ?n" for j using own(1) owns_fini that by blast
      show "F j \<inter> {a, ?b} = {}" if "j < ?n" for j using own(3) that by blast
    qed (use own(2) S(4,6) r(1) b(2) n(1) small in simp_all)
    then show ?thesis using that b(4) unfolding words [symmetric] by blast
  qed
  let ?h1 = "(h |` (- ?U))(?b \<mapsto> Values ws1)"
  have aU: "a \<notin> ?U" "?b \<notin> ?U" "vaddr v \<notin> ?U" using own(3) r(1) by (fastforce dest: less_le_trans)+
  have A1: "load_array ?h1 a = Some A" using S(2,3,6) aU by (simp add: load_array_def load_def)
  define ws2 where "ws2 = take i ws1 @ take (?n - ?e) (drop ?e ws1) @ drop (i + (?n - ?e)) ws1"
  let ?h2 = "(h |` (- ?U))(?b \<mapsto> Values (if ?e < ?n then ws2 else ws1))"
  have move: "(if index + count < a_size A then array_memmove ?h1 ?b (unat index) (unat (index + count)) (unat (a_size A - (index + count))) else Some ?h1) = Some ?h2"
  proof (cases "index + count < a_size A")
    case True
    then have "?e < ?n" "unat (a_size A - (index + count)) = ?n - ?e"
      using sum by (simp_all add: word_less_nat_alt unat_sub word_le_nat_alt)
    then show ?thesis using True b(1) r(2) sum w1(2) n(1)
      by (simp add: array_memmove_def load_values_def load_def mem_move_in ws2_def)
  next
    case False
    then have "\<not> ?e < ?n" using sum by (simp add: word_less_nat_alt)
    then show ?thesis using False by simp
  qed
  have keep: "take i ws1 = take i ws" "drop ?e ws1 = drop ?e ws"
    using w1(2,3) by (auto intro!: nth_equalityI)
  let ?ws = "if ?e < ?n then ws2 else ws1"
  have ws: "length ?ws = length ws" "\<forall>x \<in> set ?ws. length x = sizeof_VALUE"
    "take (?n - c) ?ws = take i ws @ take (?n - ?e) (drop ?e ws)"
  proof -
    show "length ?ws = length ws" using w1(2) n(1) r(1) by (simp add: ws2_def)
    have "set ws2 \<subseteq> set ws1" by (auto simp: ws2_def dest: in_set_takeD in_set_dropD)
    then show "\<forall>x \<in> set ?ws. length x = sizeof_VALUE" using w1(4) by auto
    show "take (?n - c) ?ws = take i ws @ take (?n - ?e) (drop ?e ws)"
    proof (cases "?e < ?n")
      case True
      define X where "X = take i ws1 @ take (?n - ?e) (drop ?e ws1)"
      have "length X = ?n - c" using True w1(2) n(1) by (simp add: X_def)
      then have "take (?n - c) (X @ drop (i + (?n - ?e)) ws1) = X" by simp
      then show ?thesis using True by (simp add: ws2_def X_def keep)
    next
      case False
      then have "?n - c = i" "?n - ?e = 0" using r(1) by simp_all
      then show ?thesis using False keep by simp
    qed
  qed
  let ?A = "A\<lparr>a_size := a_size A - count\<rparr>"
  let ?h = "?h2(a \<mapsto> Array_Block ?A)"
  have "load_array ?h2 a = Some A" using S(2,3,6) aU by (simp add: load_array_def load_def)
  then have modify: "modify_array ?h2 a (\<lambda>A. A\<lparr>a_size := a_size A - count\<rparr>) = Some ?h" by (simp add: modify_array_def)
  have size: "unat (a_size A - count) = ?n - c" using r by (simp add: unat_sub word_le_nat_alt)
  have "array_state ?h v x a ?A ?ws"
  proof (rule array_state_new [OF st])
    show "?h (vaddr v) = h (vaddr v)" using S(5,9) aU by simp
    show "array_buffer ?h ?A ?ws" using ws b S(6) unfolding array_buffer_def by (simp add: load_values_def load_def)
    show "unat (a_size ?A) \<le> length ?ws" using size n(1) unfolding ws(1) by simp
    show "vaddr v \<noteq> value_buf ?A" using S(9) by simp
  qed simp
  moreover have "?h p = (if p \<in> ?U then None else h p)" if "p \<notin> {a, ?b}" for p using that by (simp add: restrict_map_def)
  moreover have "do {
      h \<leftarrow> fini_range h a index (index + count);
      A \<leftarrow> load_array h a;
      h \<leftarrow> (if index + count < a_size A
            then array_memmove h (value_buf A) (unat index) (unat (index + count)) (unat (a_size A - (index + count)))
            else Some h);
      modify_array h a (\<lambda>A. A\<lparr>a_size := a_size A - count\<rparr>) } = Some ?h"
    by (simp only: w1(1) A1 move modify Option.bind.bind_lunit)
  ultimately show ?thesis using ws(1,3) by (intro exI [of _ ?h] exI [of _ ?ws]) blast
qed

text \<open>
  C33. \<open>value_array_remove_range\<close> on an array whose items own their blocks, with a sum of index and count that does not
  wrap around (below \<open>2 ^ 64\<close>; the next theorem shows what happens otherwise): beyond the end it returns \<open>-1\<close> and changes nothing; otherwise it returns 0, exactly the items of
  the range are gone and their blocks released, and no other block changes than those of the array, whose
  capacity does not grow.
\<close>

theorem value_array_remove_range_correct:
  assumes "clib_ok lib" "array_holds h v n vs" "n < 2 ^ 58" "unat index = i" "unat count = c" "i + c < 2 ^ 64"
    and "\<forall>j < length vs. owns h (vs ! j) (F j)" "apart {..<length vs} F"
      "\<forall>j < length vs. F j \<inter> insert (vaddr v) (array_footprint h v) = {}"
  shows "if length vs < i + c then value_array_remove_range lib h v index count = Some (- 1, h)
    else \<exists>h' n'. value_array_remove_range lib h v index count = Some (0, h') \<and>
      array_holds h' v n' (take i vs @ drop (i + c) vs) \<and> n' \<le> n \<and>
      (\<forall>p. p \<notin> array_footprint h v \<union> array_footprint h' v \<longrightarrow> h' p = (if p \<in> (\<Union>j \<in> {i..<i + c}. F j) then None else h p))"
proof -
  obtain x a A ws where st: "array_state h v x a A ws" and n: "n = length ws" and vs: "vs = take (unat (a_size A)) ws"
    using assms(2) unfolding array_holds_def by blast
  note S = array_stateD [OF st]
  have size: "length vs = unat (a_size A)" "unat (a_size A) \<le> length ws" "length ws = unat (a_alloc A)"
    using st vs by (auto simp: array_state_def array_buffer_def)
  have sum: "unat (index + count) = i + c" using assms(4-6) by (simp add: unat_word_ariths)
  have start: "value_array_remove_range lib h v index count = (if index + count > a_size A then Some (- 1, h) else do {
      h \<leftarrow> do {
        h \<leftarrow> fini_range h a index (index + count);
        A \<leftarrow> load_array h a;
        h \<leftarrow> (if index + count < a_size A
              then array_memmove h (value_buf A) (unat index) (unat (index + count)) (unat (a_size A - (index + count)))
              else Some h);
        modify_array h a (\<lambda>A. A\<lparr>a_size := a_size A - count\<rparr>) };
      A \<leftarrow> load_array h a;
      h \<leftarrow> (if a_size A < a_alloc A div 4 then do {
              good_alloc \<leftarrow> value_array_good_alloc_size (a_size A * 2);
              (ret, h) \<leftarrow> value_array_realloc lib h a good_alloc;
              Some h
            }
            else Some h);
      Some (0, h) })"
    using S(1,2,4) by (simp add: value_array_remove_range_def bind_assoc cong: if_cong)
  show ?thesis
  proof (cases "length vs < i + c")
    case True
    then show ?thesis using start size sum by (simp add: word_less_nat_alt)
  next
    case False
    then have le: "i + c \<le> unat (a_size A)" "\<not> index + count > a_size A" using size sum by (simp_all add: word_less_nat_alt)
    let ?U = "\<Union>j \<in> {i..<i + c}. F j"
    have own: "\<forall>j < unat (a_size A). owns h (ws ! j) (F j)" "apart {..<unat (a_size A)} F"
      "\<forall>j < unat (a_size A). F j \<inter> {a, value_buf A, vaddr v} = {}"
      using assms(7-9) size(1) unfolding footprint [OF st] by (auto simp: vs)
    obtain h1 ws1 where 1: "do {
        h \<leftarrow> fini_range h a index (index + count);
        A \<leftarrow> load_array h a;
        h \<leftarrow> (if index + count < a_size A
              then array_memmove h (value_buf A) (unat index) (unat (index + count)) (unat (a_size A - (index + count)))
              else Some h);
        modify_array h a (\<lambda>A. A\<lparr>a_size := a_size A - count\<rparr>) } = Some h1"
      "array_state h1 v x a (A\<lparr>a_size := a_size A - count\<rparr>) ws1" "length ws1 = length ws"
      "take (unat (a_size A) - c) ws1 = take i ws @ take (unat (a_size A) - (i + c)) (drop (i + c) ws)"
      "\<forall>p. p \<notin> {a, value_buf A} \<longrightarrow> h1 p = (if p \<in> ?U then None else h p)"
      using remove_items [OF st le(1) assms(4,5) own] by (elim exE conjE) (rule that)
    let ?A = "A\<lparr>a_size := a_size A - count\<rparr>"
    have size1: "unat (a_size ?A) = unat (a_size A) - c" using le(1) assms(5) by (simp add: unat_sub word_le_nat_alt)
    have items: "take i vs @ drop (i + c) vs = take (unat (a_size ?A)) ws1"
      unfolding size1 1(4) using le(1) by (simp add: vs drop_take min_def)
    have holds: "array_holds h' v (length ws') (take i vs @ drop (i + c) vs)"
      if "array_state h' v x a A' ws'" "unat (a_size A') = unat (a_size ?A)" "take (unat (a_size ?A)) ws' = take (unat (a_size ?A)) ws1"
      for h' A' ws'
      unfolding array_holds_def items using that by (intro exI [of _ x] exI [of _ a] exI [of _ A'] exI [of _ ws']) simp
    note S1 = array_stateD [OF 1(2)]
    show ?thesis
    proof (cases "a_size ?A < a_alloc ?A div 4")
      case keep: False
      have "value_array_remove_range lib h v index count = Some (0, h1)"
        unfolding start by (simp only: le(2) 1(1) S1(4) keep if_False Option.bind.bind_lunit)
      then show ?thesis unfolding if_not_P [OF False] using holds [OF 1(2)] 1(3,5) n unfolding footprint [OF st]
        by (intro exI [of _ h1] exI [of _ "length ws1"]) auto
    next
      case shrink: True
      have double: "unat (w * 2) = unat w * 2" if "unat w < 2 ^ 60" for w :: size_t using that by (simp add: unat_word_ariths)
      have small: "unat (a_size ?A * 2) = unat (a_size ?A) * 2" "4 * unat (a_size ?A) + 4 \<le> n"
        using shrink size(3) n assms(3) double [of "a_size ?A"] by (simp_all only: word_less_nat_alt unat_div) simp_all
      obtain g where g: "value_array_good_alloc_size (a_size ?A * 2) = Some g" "unat (a_size ?A) * 2 \<le> unat g" "0 < unat g"
          "unat g \<le> 2 * (unat (a_size ?A) * 2) + 2"
        using array_good_alloc [of "a_size ?A * 2"] small assms(3) by auto
      have "(2 :: nat) ^ 58 \<le> 2 ^ 60" by simp
      then have "unat g < 2 ^ 60" "unat (a_size ?A) \<le> unat g" "unat g \<le> n" using g(2,4) small(2) assms(3) by linarith+
      note realloc = value_array_realloc [OF assms(1) 1(2) g(3) this(1,2)]
      have code: "value_array_remove_range lib h v index count = do { h \<leftarrow> do { (ret, h) \<leftarrow> value_array_realloc lib h1 a g; Some h }; Some (0, h) }"
        unfolding start by (simp only: le(2) 1(1) S1(4) shrink g(1) if_False if_True Option.bind.bind_lunit)
      from realloc show ?thesis
      proof (rule disjE)
        assume "value_array_realloc lib h1 a g = Some (- 1, h1)"
        then have "value_array_remove_range lib h v index count = Some (0, h1)" unfolding code by simp
        then show ?thesis unfolding if_not_P [OF False] using holds [OF 1(2)] 1(3,5) n unfolding footprint [OF st]
          by (intro exI [of _ h1] exI [of _ "length ws1"]) auto
      next
        assume "\<exists>buf h'. value_array_realloc lib h1 a g = Some (0, h') \<and>
          array_state h' v x a (?A\<lparr>value_buf := buf, a_alloc := g\<rparr>) (resized ws1 (unat g)) \<and>
          (\<forall>p. p \<notin> {a, value_buf ?A, buf} \<longrightarrow> h' p = h1 p) \<and> (buf = value_buf ?A \<or> h1 buf = None)"
        then obtain buf h2 where alloc: "value_array_realloc lib h1 a g = Some (0, h2)"
          and st2: "array_state h2 v x a (?A\<lparr>value_buf := buf, a_alloc := g\<rparr>) (resized ws1 (unat g))"
          and frame: "\<forall>p. p \<notin> {a, value_buf ?A, buf} \<longrightarrow> h2 p = h1 p" by blast
        have "take (unat (a_size ?A)) (resized ws1 (unat g)) = take (unat (a_size ?A)) ws1"
          using \<open>unat (a_size ?A) \<le> unat g\<close> size 1(3) size1 by (auto simp: resized_def min_def)
        note holds2 = holds [OF st2 _ this]
        have "length (resized ws1 (unat g)) \<le> n" using \<open>unat g \<le> n\<close> by (simp add: resized_def)
        moreover have "value_array_remove_range lib h v index count = Some (0, h2)" unfolding code alloc by simp
        ultimately show ?thesis unfolding if_not_P [OF False] using holds2 frame 1(5) unfolding footprint [OF st]
          by (intro exI [of _ h2] exI [of _ "length (resized ws1 (unat g))"]) (auto simp: footprint [OF st2])
      qed
    qed
  qed
qed

text \<open>
  C34. With the index beyond the end and a count that leads back to the end when the sum wraps around,
  \<open>value_array_remove_range\<close> returns 0 and the array claims \<open>index\<close> items, more than its buffer has.
\<close>

theorem value_array_remove_range_wraps:
  assumes "array_holds h v n vs" "n \<le> unat index" "length vs < unat index" "count = of_nat (length vs) - index"
  shows "\<exists>h'. value_array_remove_range lib h v index count = Some (0, h') \<and> value_array_size h' v = Some index"
proof -
  obtain x a A ws where st: "array_state h v x a A ws" and n: "n = length ws" and vs: "vs = take (unat (a_size A)) ws"
    using assms(1) unfolding array_holds_def by blast
  note S = array_stateD [OF st]
  have size: "length vs = unat (a_size A)" "n = unat (a_alloc A)" using st vs n by (auto simp: array_state_def array_buffer_def)
  then have count: "index + count = a_size A" "a_size A - count = index" using assms(4) by simp_all
  have less: "\<not> index < a_size A" using assms(3) size by (simp add: word_less_nat_alt)
  let ?A = "A\<lparr>a_size := index\<rparr>"
  have "\<not> index < a_alloc A div 4"
    using assms(2) size(2) by (simp add: word_less_nat_alt unat_div)
  moreover have "fini_range h a index (a_size A) = Some h" using less by (subst fini_range.simps) simp
  ultimately have code: "value_array_remove_range lib h v index count = Some (0, h(a \<mapsto> Array_Block ?A))"
    using S(1,2,4) by (simp add: value_array_remove_range_def count modify_array_def load_array_def load_def)
  have "get_value (h(a \<mapsto> Array_Block ?A)) v = get_value h v" using S(5) by (intro get_value_cong) simp
  moreover obtain t where "cells_pointer x t a" "t AND TYPE_MASK = VALUE_ARRAY" using st by (auto simp: array_state_def)
  ultimately have "value_array_payload (h(a \<mapsto> Array_Block ?A)) v = Some a" using array_payload S(7) by simp
  then have "value_array_size (h(a \<mapsto> Array_Block ?A)) v = Some index" using S(2)
    by (simp add: value_array_size_def load_array_def load_def)
  then show ?thesis using code by blast
qed

lemma value_array_remove_range_correct_witness:
  "\<exists>h' n'. value_array_remove_range no_memory array_two (Var 64) 0 1 = Some (0, h') \<and> array_holds h' (Var 64) n' (drop 1 two_items)"
proof -
  let ?F = "\<lambda>i :: nat. if i = 0 then {512 :: addr} else {}"
  have own: "\<forall>j < length two_items. owns array_two (two_items ! j) (?F j)" by (rule array_two_items)
  have ap: "apart {..<length two_items} ?F" by (simp add: apart_def)
  obtain x a A ws where st: "array_state array_two (Var 64) x a A ws" using array_two_holds unfolding array_holds_def by blast
  have "array_two a = Some (Array_Block A)" "array_buffer array_two A ws" using array_stateD(3,8) [OF st] by blast+
  then have "a = 128" "value_buf A = 256" by (auto simp: array_two_def split: if_splits)
  then have foot: "\<forall>j < length two_items. ?F j \<inter> insert (vaddr (Var 64)) (array_footprint array_two (Var 64)) = {}"
    using footprint [OF st] by simp
  from value_array_remove_range_correct [OF no_memory_ok array_two_holds _ _ _ _ own ap foot, of 0 0 1 1] show ?thesis
    by (auto simp: two_items_def)
qed

lemma value_array_remove_range_wraps_witness:
  "\<exists>h'. value_array_remove_range no_memory array_two (Var 64) 5 (- 3) = Some (0, h') \<and> value_array_size h' (Var 64) = Some 5"
  using value_array_remove_range_wraps [OF array_two_holds, of 5 "- 3" no_memory] by (simp add: two_items_def)

end
