(* ===== verification/Value_Path_Spec.thy ===== *)
theory Value_Path_Spec
  imports Value_Path Value_Array
begin

text \<open>
  What the paths of \<open>data/value.c\<close> mean. A path is the text of a list of steps, with slashes between them; walking
  along the text is walking along the steps. An index is written in decimal, and counts from the end when it
  is negative.
\<close>

section \<open>Steps and their text\<close>

datatype path_step = At_Key "byte list" | At_Index nat | From_End nat

fun decimal :: "nat \<Rightarrow> byte list" where
  "decimal n = (if n < 10 then [of_nat (48 + n)] else decimal (n div 10) @ [of_nat (48 + n mod 10)])"

declare decimal.simps [simp del]

fun step_text :: "path_step \<Rightarrow> byte list" where
  "step_text (At_Key key) = key"
| "step_text (At_Index n) = open_bracket # decimal n @ [close_bracket]"
| "step_text (From_End n) = open_bracket # minus_sign # decimal n @ [close_bracket]"

definition in_token :: "byte \<Rightarrow> bool" where
  "in_token c \<longleftrightarrow> c \<noteq> slash \<and> c \<noteq> open_bracket"

text \<open>A key is not empty and has no zero byte, slash or bracket; indices fit a \<open>size_t\<close>.\<close>

fun step_ok :: "path_step \<Rightarrow> bool" where
  "step_ok (At_Key key) \<longleftrightarrow> key \<noteq> [] \<and> list_all in_token key \<and> 0 \<notin> set key \<and> close_bracket \<notin> set key"
| "step_ok (At_Index n) \<longleftrightarrow> n < 2 ^ 64"
| "step_ok (From_End n) \<longleftrightarrow> n < 2 ^ 64"

fun is_key_step :: "path_step \<Rightarrow> bool" where
  "is_key_step (At_Key _) = True" | "is_key_step _ = False"

text \<open>Each step comes with the number of slashes before it; only a key behind another step needs one.\<close>

fun path_ok :: "bool \<Rightarrow> (nat \<times> path_step) list \<Rightarrow> bool" where
  "path_ok first [] = True"
| "path_ok first ((k, s) # ps) \<longleftrightarrow> step_ok s \<and> (first \<or> 0 < k \<or> \<not> is_key_step s) \<and> path_ok False ps"

fun path_text :: "(nat \<times> path_step) list \<Rightarrow> nat \<Rightarrow> byte list" where
  "path_text [] m = replicate m slash"
| "path_text ((k, s) # ps) m = replicate k slash @ step_text s @ path_text ps m"

fun step_value :: "value_mem \<Rightarrow> vptr \<Rightarrow> path_step \<Rightarrow> vptr option" where
  "step_value h v (At_Key key) = value_dict_get_n h v (Some key) (of_nat (length key))"
| "step_value h v (At_Index n) = value_array_get h v (of_nat n)"
| "step_value h v (From_End n) = do {
     size \<leftarrow> value_array_size h v;
     if 0 < n \<and> n \<le> unat size then value_array_get h v (of_nat (unat size - n)) else Some VNull
   }"

fun steps_value :: "value_mem \<Rightarrow> vptr \<Rightarrow> path_step list \<Rightarrow> vptr option" where
  "steps_value h v [] = Some v"
| "steps_value h v (s # ss) = do { w \<leftarrow> step_value h v s; if w = VNull then Some VNull else steps_value h w ss }"

section \<open>Tokens\<close>

lemma path_token_split:
  assumes "token \<noteq> []" "list_all in_token (tl token)" "hd token \<noteq> slash" "rest \<noteq> [] \<longrightarrow> \<not> in_token (hd rest)"
  shows "path_token (token @ rest) = token"
proof -
  obtain c cs where t: "token = c # cs" using assms(1) by (cases token) auto
  have p: "(\<lambda>c. c \<noteq> slash \<and> c \<noteq> open_bracket) = in_token" by (auto simp: in_token_def)
  have all: "\<forall>x \<in> set cs. in_token x" using assms(2) by (simp add: t list_all_iff)
  have "takeWhile in_token rest = []" using assms(4) by (cases rest) simp_all
  then have "takeWhile in_token (cs @ rest) = cs" using all by (simp add: takeWhile_append2)
  moreover have "c \<noteq> open_bracket \<Longrightarrow> in_token c" using assms(3) by (simp add: in_token_def t)
  ultimately show ?thesis by (auto simp: path_token_def p t)
qed

lemma dropWhile_slashes: "s \<noteq> [] \<Longrightarrow> hd s \<noteq> slash \<Longrightarrow> dropWhile (\<lambda>c. c = slash) (replicate k slash @ s) = s"
  by (induction k) (cases s, simp_all)

lemma value_path_ex_slashes: "value_path_ex lib h v (replicate m slash) build = Some (v, h)"
  by (subst value_path_ex.simps) (simp add: dropWhile_eq_Nil_conv)

lemma value_path_ex_token:
  assumes "token \<noteq> []" "list_all in_token (tl token)" "hd token \<noteq> slash" "rest \<noteq> [] \<longrightarrow> \<not> in_token (hd rest)"
  shows "value_path_ex lib h v (replicate k slash @ token @ rest) build =
    do { (w, h) \<leftarrow> (if is_index_token token then path_index_step lib h v token build else path_key_step lib h v token build);
         if w = VNull then Some (VNull, h) else value_path_ex lib h w rest build }"
proof -
  have "dropWhile (\<lambda>c. c = slash) (replicate k slash @ token @ rest) = token @ rest"
    using assms(1,3) by (intro dropWhile_slashes) auto
  then show ?thesis
    by (subst value_path_ex.simps) (simp add: Let_def path_token_split [OF assms] assms(1) cong: if_cong)
qed

section \<open>Decimal numbers\<close>

lemma is_digit_of_nat: "n < 10 \<Longrightarrow> is_digit (of_nat (48 + n)) \<and> ucast (of_nat (48 + n) :: byte) - 48 = (of_nat n :: size_t)"
proof -
  assume "n < 10"
  then have "n \<in> {0, 1, 2, 3, 4, 5, 6, 7, 8, 9}" by auto
  then show ?thesis unfolding insert_iff by (elim disjE) (simp_all add: is_digit_def)
qed

lemma index_digits_decimal: "index_digits 0 (decimal n @ rest) = index_digits (of_nat n) rest"
proof (induction n arbitrary: rest rule: decimal.induct)
  case (1 n)
  show ?case
  proof (cases "n < 10")
    case True
    then show ?thesis using is_digit_of_nat [OF True] by (simp add: decimal.simps [of n])
  next
    case False
    let ?d = "of_nat (48 + n mod 10) :: byte"
    have d: "is_digit ?d" "ucast ?d - 48 = (of_nat (n mod 10) :: size_t)" using is_digit_of_nat [of "n mod 10"] by auto
    have "index_digits 0 (decimal n @ rest) = index_digits 0 (decimal (n div 10) @ ?d # rest)"
      using False by (simp add: decimal.simps [of n])
    also have "\<dots> = index_digits (of_nat (n div 10)) (?d # rest)" using 1 [OF False] by blast
    also have "\<dots> = index_digits (of_nat (n div 10) * 10 + of_nat (n mod 10)) rest" by (simp only: index_digits.simps if_P [OF d(1)] d(2))
    also have "of_nat (n div 10) * 10 + of_nat (n mod 10) = (of_nat n :: size_t)"
      by (metis div_mult_mod_eq of_nat_add of_nat_mult of_nat_numeral)
    finally show ?thesis .
  qed
qed

lemma decimal_parts: "decimal n \<noteq> []" "list_all is_digit (decimal n)"
proof -
  have "decimal n \<noteq> [] \<and> list_all is_digit (decimal n)"
  proof (induction n rule: decimal.induct)
    case (1 n)
    then show ?case using is_digit_of_nat [of n] is_digit_of_nat [of "n mod 10"] by (simp add: decimal.simps [of n])
  qed
  then show "decimal n \<noteq> []" "list_all is_digit (decimal n)" by blast+
qed

lemma digit_char: "is_digit c \<Longrightarrow> in_token c \<and> c \<noteq> minus_sign \<and> c \<noteq> plus_sign \<and> c \<noteq> close_bracket"
  by (auto simp: is_digit_def in_token_def)

lemma decimal_in_token: "list_all in_token (decimal n)"
  using decimal_parts(2) [of n] by (auto simp: list_all_iff dest: digit_char)

lemma parse_index_decimal:
  "parse_index (open_bracket # decimal n @ close_bracket # rest) = Some (1, of_nat n)"
  "parse_index (open_bracket # minus_sign # decimal n @ close_bracket # rest) = Some (- 1, of_nat n)"
proof -
  have c: "index_digits i (close_bracket # rest) = (i, close_bracket # rest)" for i
    by (simp add: is_digit_def)
  obtain d ds where ds: "decimal n = d # ds" "is_digit d" using decimal_parts [of n] by (cases "decimal n") simp_all
  note run = index_digits_decimal [of n "close_bracket # rest", unfolded c]
  show "parse_index (open_bracket # decimal n @ close_bracket # rest) = Some (1, of_nat n)"
    using run digit_char [OF ds(2)] by (simp add: parse_index_def Let_def ds(1) del: index_digits.simps)
  show "parse_index (open_bracket # minus_sign # decimal n @ close_bracket # rest) = Some (- 1, of_nat n)"
    using run by (simp add: parse_index_def Let_def del: index_digits.simps)
qed

section \<open>Walking along the text\<close>

lemma index_step_forward:
  "path_index_step lib h v (open_bracket # decimal n @ close_bracket # rest) False = do { w \<leftarrow> value_array_get h v (of_nat n); Some (w, h) }"
  by (simp add: path_index_step_def parse_index_decimal)

lemma index_step_backward:
  assumes "n < 2 ^ 64"
  shows "path_index_step lib h v (open_bracket # minus_sign # decimal n @ close_bracket # rest) False =
    do { w \<leftarrow> step_value h v (From_End n); Some (w, h) }"
proof -
  have u: "unat (of_nat n :: size_t) = n" using assms by (simp add: unsigned_of_nat take_bit_nat_eq_self)
  have "(0 < (of_nat n :: size_t) \<and> of_nat n \<le> size) = (0 < n \<and> n \<le> unat size)" for size :: size_t
    by (simp only: word_less_nat_alt word_le_nat_alt u unat_0)
  moreover have "n \<le> unat size \<Longrightarrow> size - of_nat n = (of_nat (unat size - n) :: size_t)" for size :: size_t
    by (simp add: of_nat_diff)
  moreover define i :: size_t where "i = of_nat n"
  ultimately have i: "(0 < i \<and> i \<le> size) = (0 < n \<and> n \<le> unat size)" "n \<le> unat size \<Longrightarrow> size - i = of_nat (unat size - n)" for size
    by simp_all
  show ?thesis
  proof (cases "value_array_size h v")
    case None
    then show ?thesis by (simp add: path_index_step_def parse_index_decimal)
  next
    case (Some size)
    show ?thesis
    proof (cases "0 < n \<and> n \<le> unat size")
      case True
      then show ?thesis unfolding path_index_step_def parse_index_decimal option.case prod.case i_def [symmetric]
        by (simp add: Some i)
    next
      case False
      then show ?thesis unfolding path_index_step_def parse_index_decimal option.case prod.case i_def [symmetric]
        by (simp add: Some i) auto
    qed
  qed
qed

lemma step_text_token:
  assumes "step_ok s"
  shows "step_text s \<noteq> []" "list_all in_token (tl (step_text s))" "hd (step_text s) \<noteq> slash"
    "is_index_token (step_text s) \<longleftrightarrow> \<not> is_key_step s" "\<not> is_key_step s \<Longrightarrow> hd (step_text s) = open_bracket"
proof -
  have "in_token close_bracket" "in_token minus_sign" by (simp_all add: in_token_def)
  moreover have "key \<noteq> [] \<Longrightarrow> list_all in_token key \<Longrightarrow> list_all in_token (tl key) \<and> in_token (hd key)" for key
    by (cases key) simp_all
  ultimately show "step_text s \<noteq> []" "list_all in_token (tl (step_text s))" "hd (step_text s) \<noteq> slash"
    "is_index_token (step_text s) \<longleftrightarrow> \<not> is_key_step s" "\<not> is_key_step s \<Longrightarrow> hd (step_text s) = open_bracket"
    using assms by (cases s; auto simp: decimal_in_token is_index_token_def in_token_def)+
qed

lemma step_taken:
  assumes "step_ok s"
  shows "(if is_index_token (step_text s) then path_index_step lib h v (step_text s) False
          else path_key_step lib h v (step_text s) False) = do { w \<leftarrow> step_value h v s; Some (w, h) }"
  using assms step_text_token(4) [OF assms] index_step_backward [of _ lib h v "[]"] index_step_forward [of lib h v _ "[]"]
  by (cases s) (simp_all add: path_key_step_def del: step_value.simps(3))

lemma path_text_start: "path_ok False ps \<Longrightarrow> path_text ps m \<noteq> [] \<longrightarrow> \<not> in_token (hd (path_text ps m))"
proof (cases ps)
  case Nil
  then show ?thesis by (cases m) (simp_all add: in_token_def)
next
  case (Cons p qs)
  moreover assume "path_ok False ps"
  moreover obtain k s where "p = (k, s)" by (cases p)
  ultimately show ?thesis using step_text_token(1,5) [of s] by (cases k) (auto simp: in_token_def)
qed

lemma value_path_ex_text:
  "path_ok first ps \<Longrightarrow> value_path_ex lib h v (path_text ps m) False = do { w \<leftarrow> steps_value h v (map snd ps); Some (w, h) }"
proof (induction ps arbitrary: first v)
  case Nil
  show ?case by (simp add: value_path_ex_slashes)
next
  case (Cons p ps)
  obtain k s where p: "p = (k, s)" by (cases p)
  have s: "step_ok s" and ps: "path_ok False ps" using Cons.prems by (simp_all add: p)
  have "value_path_ex lib h v (path_text (p # ps) m) False =
    do { (w, h) \<leftarrow> do { w \<leftarrow> step_value h v s; Some (w, h) };
         if w = VNull then Some (VNull, h) else value_path_ex lib h w (path_text ps m) False }"
    unfolding p path_text.simps
    by (subst value_path_ex_token [OF step_text_token(1-3) [OF s] path_text_start [OF ps]]) (simp only: step_taken [OF s])
  also have "\<dots> = do { w \<leftarrow> steps_value h v (map snd (p # ps)); Some (w, h) }"
    using Cons.IH [OF ps] by (cases "step_value h v s") (simp_all add: p)
  finally show ?case .
qed

text \<open>
  C39. Any list of steps is read back from its text: \<open>value_path\<close> along the text, with one or more slashes
  before the keys and any number before the indices and at the end, gets the value that the lookups of the
  steps get one after the other; negative indices count from the end, and an index beyond the array or a
  missing key gets \<open>NULL\<close>.\<close>

theorem value_path_reads_back:
  assumes "path_ok True steps"
  shows "value_path h v (path_text steps m) = steps_value h v (map snd steps)"
  by (simp add: value_path_def value_path_ex_text [OF assms] split: option.splits)

text \<open>The path \<open>/[-2]//\<close> in an array of two values.\<close>

lemma value_path_reads_back_witness:
  "value_path array_two (Var 64) [slash, open_bracket, minus_sign, 50, close_bracket, slash, slash] = Some (Item 256 0)"
proof -
  obtain x a A ws where st: "array_state array_two (Var 64) x a A ws" using array_two_holds unfolding array_holds_def by blast
  have "array_two a = Some (Array_Block A)" using array_stateD(3) [OF st] .
  then have A: "a = 128" "A = \<lparr>value_buf = 256, a_size = 2, a_alloc = 2\<rparr>" by (auto simp: array_two_def split: if_splits)
  have "value_array_size array_two (Var 64) = Some 2" "value_array_get array_two (Var 64) 0 = Some (Item 256 0)"
    using array_stateD(1,2,4) [OF st] by (simp_all add: value_array_size_def value_array_get_def A)
  moreover have "replicate 2 slash = [slash, slash]" by (simp add: numeral_2_eq_2)
  ultimately show ?thesis
    using value_path_reads_back [of "[(1, From_End 2)]" array_two "Var 64" 2]
    by (simp add: decimal.simps [of 2])
qed

text \<open>The parser is looser than that: it takes everything up to the next slash or opening bracket for the index,
  stops at the first closing bracket, ignores the rest, and the index wraps around.\<close>

theorem value_path_index_loose:
  assumes "list_all in_token junk"
  shows "value_path h v (open_bracket # decimal n @ close_bracket # junk @ [close_bracket]) = value_array_get h v (of_nat n)"
proof -
  let ?token = "open_bracket # decimal n @ close_bracket # junk @ [close_bracket]"
  have t: "?token \<noteq> []" "list_all in_token (tl ?token)" "hd ?token \<noteq> slash" "is_index_token ?token"
    using assms by (simp_all add: decimal_in_token in_token_def is_index_token_def)
  have "value_path_ex lib h v ?token False = do { w \<leftarrow> value_array_get h v (of_nat n); Some (w, h) }" for lib
    using value_path_ex_token [OF t(1-3), of "[]" lib h v 0 False] t(4) index_step_forward [of lib h v n "junk @ [close_bracket]"]
    by (cases "value_array_get h v (of_nat n)") (simp_all add: value_path_ex_slashes [of _ _ _ 0, simplified])
  then show ?thesis by (simp add: value_path_def split: option.splits)
qed

end
