(* ===== verification/Value_Build_Path.thy ===== *)
theory Value_Build_Path
  imports Value_Path_Spec Value_Dict_Insert
begin

text \<open>
  \<open>value_build_path\<close> in \<open>data/value.c\<close> adds what a path lacks; where nothing is missing it is \<open>value_path\<close>, as
  \<open>data/value.h\<close> promises.
\<close>

text \<open>Every dictionary in memory is valid, whatever its order.\<close>

definition dicts_valid :: "value_mem \<Rightarrow> bool" where
  "dicts_valid h \<longleftrightarrow> (\<forall>v. value_type h v = Some VALUE_DICT \<longrightarrow> (\<exists>kc kf ns ord. dict_holds kc kf h v ns ord))"

lemma not_new:
  assumes "value_type h v = Some t" "t \<noteq> VALUE_NULL"
  shows "value_is_new h v = Some False"
  using assms by (cases "data_get h v 0") (auto simp: value_is_new_def value_type_def split: if_splits)

lemma array_item_type:
  assumes "value_array_get h v i = Some w" "w \<noteq> VNull"
  shows "value_type h v = Some VALUE_ARRAY"
  using assms by (cases "value_type h v") (auto simp: value_array_get_def value_array_payload_def split: if_splits)

lemma dict_value_type:
  assumes "value_dict_get_n h v key len = Some w" "w \<noteq> VNull"
  shows "value_type h v = Some VALUE_DICT"
  using assms dict_get_loop.simps [of h v NULL key len NULL]
  by (cases "value_type h v") (auto simp: value_dict_get_n_def value_dict_payload_def dict_root_def split: if_splits)

lemma key_found:
  assumes lib: "clib_ok lib" and dicts: "dicts_valid h" and get: "value_dict_get_n h v (Some key) len = Some w" "w \<noteq> VNull"
    and len: "unat len = length key" "length key \<le> INT_MAX"
  shows "value_dict_get_or_add_n lib h v (Some key) len = Some (w, h)"
proof -
  have type: "value_type h v = Some VALUE_DICT" by (rule dict_value_type [OF get])
  with dicts obtain kc kf ns ord t d D S where st: "dict_state kc kf h v ns ord t d D S"
    unfolding dicts_valid_def dict_holds_def by blast
  have key: "key_string (Some key) = key" by (simp add: key_string_def)
  have "w = value_of kc kf ns key" using dict_get [OF st key len(1)] get(1) by simp
  then show ?thesis using value_dict_get_or_add(1) [OF lib st key len] get(2) by simp
qed

section \<open>The steps\<close>

lemma index_step_build:
  assumes "path_index_step lib0 h v token False = Some (w, h1)" "w \<noteq> VNull"
  shows "h1 = h \<and> path_index_step lib h v token True = Some (w, h)"
proof (cases "parse_index token")
  case None
  then show ?thesis using assms by (simp add: path_index_step_def)
next
  case (Some si)
  obtain sign index where si: "si = (sign, index)" by (cases si)
  obtain n where n: "(if sign < 0 then value_array_size h v else Some 0) = Some n"
    using assms(1) Some unfolding si by (cases "value_array_size h v") (auto simp: path_index_step_def split: if_splits)
  have step: "h1 = h \<and> sign \<noteq> 0 \<and> \<not> (sign < 0 \<and> \<not> (0 < index \<and> index \<le> n)) \<and>
      value_array_get h v (if sign < 0 then n - index else index) = Some w"
    using assms Some n unfolding si path_index_step_def
    by (cases "sign < 0"; cases "value_array_get h v (if sign < 0 then n - index else index)") (auto simp: Let_def split: if_splits)
  then have "value_is_new h v = Some False" using not_new [OF array_item_type [of h v _ w]] assms(2) by (auto simp: value_types)
  then show ?thesis using step n Some unfolding si path_index_step_def by (auto simp: Let_def)
qed

lemma key_step_build:
  assumes "path_key_step lib0 h v token False = Some (w, h1)" "w \<noteq> VNull"
    and "clib_ok lib" "dicts_valid h" "length token \<le> INT_MAX"
  shows "h1 = h \<and> path_key_step lib h v token True = Some (w, h)"
proof -
  have get: "value_dict_get_n h v (Some token) (of_nat (length token)) = Some w" and h1: "h1 = h"
    using assms(1) by (cases "value_dict_get_n h v (Some token) (of_nat (length token))"; simp add: path_key_step_def)+
  have "unat (of_nat (length token) :: size_t) = length token"
    using assms(5) by (simp add: unsigned_of_nat take_bit_nat_eq_self INT_MAX_def)
  from key_found [OF assms(3,4) get assms(2) this assms(5)] not_new [OF dict_value_type [OF get assms(2)]] h1
  show ?thesis by (simp add: path_key_step_def value_types)
qed

lemma path_ex_build:
  assumes "clib_ok lib" "dicts_valid h"
  shows "value_path_ex lib0 h v path False = Some (w, h1) \<Longrightarrow> w \<noteq> VNull \<Longrightarrow> length path \<le> INT_MAX \<Longrightarrow>
    h1 = h \<and> value_path_ex lib h v path True = Some (w, h)"
proof (induction "length path" arbitrary: path v rule: less_induct)
  case less
  define s where "s = dropWhile (\<lambda>c. c = slash) path"
  define token where "token = path_token s"
  define step where "step lib b = (if is_index_token token then path_index_step lib h v token b else path_key_step lib h v token b)" for lib b
  have run: "value_path_ex lib h v path b = (if s = [] then Some (v, h) else do {
      (u, h) \<leftarrow> step lib b; if u = VNull then Some (VNull, h) else value_path_ex lib h u (drop (length token) s) b })" for lib b
    by (subst value_path_ex.simps) (simp add: s_def token_def step_def Let_def cong: if_cong)
  show ?case
  proof (cases "s = []")
    case True
    then have "v = w" "h1 = h" using less.prems(1) by (simp_all add: run)
    moreover have "value_path_ex lib h v path True = Some (v, h)" using True by (simp add: run)
    ultimately show ?thesis by simp
  next
    case False
    have "length s \<le> length path" unfolding s_def by (rule length_dropWhile_le)
    moreover have "length token \<le> length s" unfolding token_def path_token_def Let_def
      using False by (cases s) (simp_all add: length_takeWhile_le le_SucI)
    ultimately have len: "length token \<le> INT_MAX" using less.prems(3) by linarith
    have shorter: "length (drop (length token) s) < length path"
      using path_token_progress [of path] False unfolding s_def token_def by blast
    obtain u h2 where u: "step lib0 False = Some (u, h2)" using less.prems(1) False by (cases "step lib0 False") (auto simp: run)
    have "u \<noteq> VNull" using less.prems(1,2) False u by (auto simp: run)
    then have step: "h2 = h" "step lib True = Some (u, h)"
      using u index_step_build [of lib0 h v token u h2 lib] key_step_build [of lib0 h v token u h2 lib, OF _ _ assms len]
      by (auto simp: step_def split: if_splits)
    have "value_path_ex lib0 h u (drop (length token) s) False = Some (w, h1)"
      using less.prems(1) False u step(1) \<open>u \<noteq> VNull\<close> by (simp add: run)
    from less.hyps [OF shorter this less.prems(2)] shorter less.prems(3)
    show ?thesis using False step \<open>u \<noteq> VNull\<close> by (simp add: run)
  qed
qed

text \<open>
  C40. Where \<open>value_path\<close> finds a value, \<open>value_build_path\<close> returns the same value and changes nothing, as
  long as the dictionaries in memory are valid.\<close>

theorem value_build_path_existing:
  assumes "clib_ok lib" "dicts_valid h" "length path \<le> INT_MAX" "value_path h v path = Some w" "w \<noteq> VNull"
  shows "value_build_path lib h v path = Some (w, h)"
proof -
  obtain lib0 h1 where "value_path_ex lib0 h v path False = Some (w, h1)"
    using assms(4) unfolding value_path_def by (auto split: Option.bind_splits)
  from path_ex_build [OF assms(1,2) this assms(5,3)] show ?thesis by (simp add: value_build_path_def)
qed

text \<open>The path \<open>a\<close> in a dictionary with that key.\<close>

lemma dict_one_valid: "dicts_valid dict_one"
proof -
  have "value_type dict_one v = Some VALUE_DICT \<Longrightarrow> v = Var 64" for v
    by (cases v) (auto simp: value_type_def data_get_def dict_one_def load_def one_node_def inline_cells_def
      indeterminate_def value_types TYPE_MASK_def IS_NEW_def sizeof_VALUE_def peek_def split: if_splits option.splits)
  then show ?thesis using dict_one_holds unfolding dicts_valid_def by blast
qed

lemma value_build_path_existing_witness: "value_build_path one_block dict_one (Var 64) [97] = Some (Val 256, dict_one)"
proof -
  obtain t d D S where st: "dict_state key_cmp (\<lambda>p. [97]) dict_one (Var 64) [256] None t d D S"
    using dict_one_holds by (auto simp: dict_holds_def)
  have zero: "key_cmp [97] [97] = 0" using comparator.cmp_refl [OF dict_stateD(7) [OF st]] by simp
  have "value_dict_get_n dict_one (Var 64) (Some [97]) 1 = Some (Val 256)"
    using dict_get [OF st, of "Some [97]" "[97]" 1] zero by (simp add: key_string_def value_of_def)
  then have "value_path dict_one (Var 64) [97] = Some (Val 256)"
    unfolding value_path_def using value_path_ex_text [of True "[(0, At_Key [97])]" _ dict_one "Var 64" 0]
    by (simp add: in_token_def)
  from value_build_path_existing [OF one_block_ok dict_one_valid _ this] show ?thesis by (simp add: INT_MAX_def)
qed

end
