(* ===== verification/Value_Float.thy ===== *)
theory Value_Float
  imports CRE_Prelude
begin

text \<open>
  The floating point arithmetic that \<open>data/value.c\<close> uses: \<open>float\<close> and \<open>double\<close> as IEEE 754 bit patterns with
  rounding to nearest, ties to even. Every finite number is a sign, a natural number and a power of two,
  so all operations compute exactly and round once. A conversion to an integer type is undefined
  when the truncated number does not fit.
\<close>

section \<open>Formats and numbers\<close>

text \<open>The bits of the fraction and of the exponent field.\<close>

record fformat =
  frac_bits :: nat
  exp_bits :: nat

definition single :: fformat where "single = \<lparr>frac_bits = 23, exp_bits = 8\<rparr>"
definition double :: fformat where "double = \<lparr>frac_bits = 52, exp_bits = 11\<rparr>"

text \<open>\<open>Finite neg m x\<close> stands for \<open>m * 2 ^ x\<close>, negated if \<open>neg\<close>.\<close>

datatype fnum = NaN nat | Infinite bool | Finite bool nat int

text \<open>The power of two of the last fraction bit of the smallest numbers.\<close>

definition min_exp :: "fformat \<Rightarrow> int" where
  "min_exp f = 2 - 2 ^ (exp_bits f - 1) - int (frac_bits f)"

definition fdecode :: "fformat \<Rightarrow> nat \<Rightarrow> fnum" where
  "fdecode f n =
     (let neg = odd (n div 2 ^ (frac_bits f + exp_bits f));
          e = n div 2 ^ frac_bits f mod 2 ^ exp_bits f;
          m = n mod 2 ^ frac_bits f in
      if e = 2 ^ exp_bits f - 1 then (if m = 0 then Infinite neg else NaN n)
      else if e = 0 then Finite neg m (min_exp f)
      else Finite neg (2 ^ frac_bits f + m) (min_exp f + int e - 1))"

fun bit_length :: "nat \<Rightarrow> nat" where
  "bit_length n = (if n = 0 then 0 else Suc (bit_length (n div 2)))"

declare bit_length.simps [simp del]

definition fsign :: "fformat \<Rightarrow> bool \<Rightarrow> nat" where
  "fsign f neg = (if neg then 2 ^ (frac_bits f + exp_bits f) else 0)"

definition finfinity :: "fformat \<Rightarrow> nat" where
  "finfinity f = (2 ^ exp_bits f - 1) * 2 ^ frac_bits f"

text \<open>\<open>m\<close> without its last \<open>k\<close> bits, to the nearest, ties to even.\<close>

definition round_shift :: "nat \<Rightarrow> nat \<Rightarrow> nat" where
  "round_shift m k =
     (let q = m div 2 ^ k; r = m mod 2 ^ k in
      if 2 * r > 2 ^ k \<or> 2 * r = 2 ^ k \<and> odd q then Suc q else q)"

text \<open>The number \<open>m * 2 ^ x\<close> rounded into the format; a carry out of the fraction goes into the exponent field.\<close>

definition fround :: "fformat \<Rightarrow> bool \<Rightarrow> nat \<Rightarrow> int \<Rightarrow> nat" where
  "fround f neg m x =
     (let t = max (min_exp f) (x + int (bit_length m) - int (frac_bits f + 1));
          q = (if t \<le> x then m * 2 ^ nat (x - t) else round_shift m (nat (t - x)));
          n = nat (t - min_exp f) * 2 ^ frac_bits f + q in
      fsign f neg + (if m = 0 then 0 else if n < finfinity f then n else finfinity f))"

section \<open>Operations\<close>

definition fvalue_at :: "int \<Rightarrow> bool \<Rightarrow> nat \<Rightarrow> int \<Rightarrow> int" where
  "fvalue_at x neg m y = (if neg then - int m else int m) * 2 ^ nat (y - x)"

text \<open>\<open>n + z\<close> for a number \<open>z\<close> that is not zero.\<close>

definition fadd :: "fformat \<Rightarrow> nat \<Rightarrow> bool \<times> nat \<times> int \<Rightarrow> nat" where
  "fadd f n z = (case fdecode f n of
       NaN k \<Rightarrow> k
     | Infinite neg \<Rightarrow> n
     | Finite neg m x \<Rightarrow>
         (let (neg', m', x') = z; y = min x x';
              s = fvalue_at y neg m x + fvalue_at y neg' m' x' in
          fround f (s < 0) (nat \<bar>s\<bar>) y))"

text \<open>\<open>n >= 0.0\<close> and \<open>a == b\<close>\<close>

definition fnonneg :: "fformat \<Rightarrow> nat \<Rightarrow> bool" where
  "fnonneg f n = (case fdecode f n of
     NaN _ \<Rightarrow> False | Infinite neg \<Rightarrow> \<not> neg | Finite neg m x \<Rightarrow> m = 0 \<or> \<not> neg)"

definition fequal :: "fformat \<Rightarrow> nat \<Rightarrow> nat \<Rightarrow> bool" where
  "fequal f a b = (case (fdecode f a, fdecode f b) of
       (Infinite neg, Infinite neg') \<Rightarrow> neg = neg'
     | (Finite neg m x, Finite neg' m' x') \<Rightarrow>
         fvalue_at (min x x') neg m x = fvalue_at (min x x') neg' m' x'
     | _ \<Rightarrow> False)"

text \<open>The conversion of an integer, and of a number of another format (a NaN keeps its leading bits, and becomes quiet).\<close>

definition fof_int :: "fformat \<Rightarrow> int \<Rightarrow> nat" where
  "fof_int f i = fround f (i < 0) (nat \<bar>i\<bar>) 0"

definition fconvert :: "fformat \<Rightarrow> fformat \<Rightarrow> nat \<Rightarrow> nat" where
  "fconvert f g n = (case fdecode f n of
       NaN _ \<Rightarrow>
         (let neg = odd (n div 2 ^ (frac_bits f + exp_bits f));
              m = n mod 2 ^ frac_bits f * 2 ^ frac_bits g div 2 ^ frac_bits f mod 2 ^ (frac_bits g - 1) in
          fsign g neg + finfinity g + 2 ^ (frac_bits g - 1) + m)
     | Infinite neg \<Rightarrow> fsign g neg + finfinity g
     | Finite neg m x \<Rightarrow> fround g neg m x)"

text \<open>Truncation, and the conversion to an integer type with the values from \<open>lo\<close> to \<open>hi\<close>.\<close>

definition ftrunc :: "fformat \<Rightarrow> nat \<Rightarrow> int option" where
  "ftrunc f n = (case fdecode f n of
       Finite neg m x \<Rightarrow>
         (let a = (if 0 \<le> x then m * 2 ^ nat x else m div 2 ^ nat (- x)) in Some (if neg then - int a else int a))
     | _ \<Rightarrow> None)"

definition fto_int :: "fformat \<Rightarrow> int \<Rightarrow> int \<Rightarrow> nat \<Rightarrow> int option" where
  "fto_int f lo hi n = do { i \<leftarrow> ftrunc f n; if lo \<le> i \<and> i \<le> hi then Some i else None }"

text \<open>\<open>(x >= 0 ? x + 0.5 : x - 0.5)\<close> converted to an integer type: the macros \<open>ROUNDF\<close> and \<open>ROUNDD\<close>.\<close>

definition fround_int :: "fformat \<Rightarrow> int \<Rightarrow> int \<Rightarrow> nat \<Rightarrow> int option" where
  "fround_int f lo hi n =
     fto_int f lo hi (if fnonneg f n then fadd f n (False, 1, -1) else fadd f n (True, 1, -1))"

end
