(* ===== verification/Value_Number.thy ===== *)
theory Value_Number
  imports Value_Float Value_String
begin

text \<open>
  Numbers in \<open>data/value.c\<close>: the getters, which convert between all numeric types, and \<open>value_is_compatible\<close>, which
  says whether a conversion keeps the number.
\<close>

section \<open>The getters\<close>

text \<open>What the payload holds by the type of the value; every getter starts with this distinction.\<close>

datatype number =
    Int32 "32 word" | Uint32 "32 word" | Int64 "64 word" | Uint64 "64 word" | Float "32 word" | Double "64 word" | No_Number

definition payload_word :: "value_mem \<Rightarrow> payload option \<Rightarrow> nat \<Rightarrow> 'w :: len word option" where
  "payload_word h payload n = do { p \<leftarrow> payload; bs \<leftarrow> payload_read h p 0 n; Some (le_word bs) }"

definition value_number :: "value_mem \<Rightarrow> vptr \<Rightarrow> number option" where
  "value_number h v = do {
     payload \<leftarrow> value_payload h v;
     type \<leftarrow> value_type h v;
     if type = VALUE_INT32 then do { x \<leftarrow> payload_word h payload 4; Some (Int32 x) }
     else if type = VALUE_UINT32 then do { x \<leftarrow> payload_word h payload 4; Some (Uint32 x) }
     else if type = VALUE_INT64 then do { x \<leftarrow> payload_word h payload 8; Some (Int64 x) }
     else if type = VALUE_UINT64 then do { x \<leftarrow> payload_word h payload 8; Some (Uint64 x) }
     else if type = VALUE_FLOAT then do { x \<leftarrow> payload_word h payload 4; Some (Float x) }
     else if type = VALUE_DOUBLE then do { x \<leftarrow> payload_word h payload 8; Some (Double x) }
     else Some No_Number
   }"

definition INT32_MIN :: int where "INT32_MIN = - (2 ^ 31)"
definition INT32_MAX :: int where "INT32_MAX = 2 ^ 31 - 1"
definition UINT32_MAX :: int where "UINT32_MAX = 2 ^ 32 - 1"
definition INT64_MIN :: int where "INT64_MIN = - (2 ^ 63)"
definition INT64_MAX :: int where "INT64_MAX = 2 ^ 63 - 1"
definition UINT64_MAX :: int where "UINT64_MAX = 2 ^ 64 - 1"

lemmas int_limits = INT32_MIN_def INT32_MAX_def UINT32_MAX_def INT64_MIN_def INT64_MAX_def UINT64_MAX_def

text \<open>\<open>ROUNDF(inttype, x)\<close> and \<open>ROUNDD(inttype, x)\<close>, with the limits of the integer type.\<close>

definition ROUNDF :: "int \<Rightarrow> int \<Rightarrow> 32 word \<Rightarrow> 'w :: len word option" where
  "ROUNDF lo hi x = map_option of_int (fround_int single lo hi (unat x))"

definition ROUNDD :: "int \<Rightarrow> int \<Rightarrow> 64 word \<Rightarrow> 'w :: len word option" where
  "ROUNDD lo hi x = map_option of_int (fround_int double lo hi (unat x))"

definition value_int32 :: "value_mem \<Rightarrow> vptr \<Rightarrow> 32 word option" where
  "value_int32 h v = do {
     n \<leftarrow> value_number h v;
     (case n of
        Int32 x \<Rightarrow> Some x
      | Uint32 x \<Rightarrow> Some x
      | Int64 x \<Rightarrow> Some (ucast x)
      | Uint64 x \<Rightarrow> Some (ucast x)
      | Float x \<Rightarrow> ROUNDF INT32_MIN INT32_MAX x
      | Double x \<Rightarrow> ROUNDD INT32_MIN INT32_MAX x
      | No_Number \<Rightarrow> Some (- 1))
   }"

definition value_uint32 :: "value_mem \<Rightarrow> vptr \<Rightarrow> 32 word option" where
  "value_uint32 h v = do {
     n \<leftarrow> value_number h v;
     (case n of
        Int32 x \<Rightarrow> Some x
      | Uint32 x \<Rightarrow> Some x
      | Int64 x \<Rightarrow> Some (ucast x)
      | Uint64 x \<Rightarrow> Some (ucast x)
      | Float x \<Rightarrow> ROUNDF 0 UINT32_MAX x
      | Double x \<Rightarrow> ROUNDD 0 UINT32_MAX x
      | No_Number \<Rightarrow> Some (of_int UINT32_MAX))
   }"

definition value_int64 :: "value_mem \<Rightarrow> vptr \<Rightarrow> 64 word option" where
  "value_int64 h v = do {
     n \<leftarrow> value_number h v;
     (case n of
        Int32 x \<Rightarrow> Some (scast x)
      | Uint32 x \<Rightarrow> Some (ucast x)
      | Int64 x \<Rightarrow> Some x
      | Uint64 x \<Rightarrow> Some x
      | Float x \<Rightarrow> ROUNDF INT64_MIN INT64_MAX x
      | Double x \<Rightarrow> ROUNDD INT64_MIN INT64_MAX x
      | No_Number \<Rightarrow> Some (- 1))
   }"

definition value_uint64 :: "value_mem \<Rightarrow> vptr \<Rightarrow> 64 word option" where
  "value_uint64 h v = do {
     n \<leftarrow> value_number h v;
     (case n of
        Int32 x \<Rightarrow> Some (scast x)
      | Uint32 x \<Rightarrow> Some (ucast x)
      | Int64 x \<Rightarrow> Some x
      | Uint64 x \<Rightarrow> Some x
      | Float x \<Rightarrow> ROUNDF 0 UINT64_MAX x
      | Double x \<Rightarrow> ROUNDD 0 UINT64_MAX x
      | No_Number \<Rightarrow> Some (of_int UINT64_MAX))
   }"

text \<open>The result is the bit pattern.\<close>

definition value_float :: "value_mem \<Rightarrow> vptr \<Rightarrow> 32 word option" where
  "value_float h v = do {
     n \<leftarrow> value_number h v;
     Some (case n of
        Int32 x \<Rightarrow> of_nat (fof_int single (sint x))
      | Uint32 x \<Rightarrow> of_nat (fof_int single (uint x))
      | Int64 x \<Rightarrow> of_nat (fof_int single (sint x))
      | Uint64 x \<Rightarrow> of_nat (fof_int single (uint x))
      | Float x \<Rightarrow> x
      | Double x \<Rightarrow> of_nat (fconvert double single (unat x))
      | No_Number \<Rightarrow> of_nat (fof_int single (- 1)))
   }"

definition value_double :: "value_mem \<Rightarrow> vptr \<Rightarrow> 64 word option" where
  "value_double h v = do {
     n \<leftarrow> value_number h v;
     Some (case n of
        Int32 x \<Rightarrow> of_nat (fof_int double (sint x))
      | Uint32 x \<Rightarrow> of_nat (fof_int double (uint x))
      | Int64 x \<Rightarrow> of_nat (fof_int double (sint x))
      | Uint64 x \<Rightarrow> of_nat (fof_int double (uint x))
      | Float x \<Rightarrow> of_nat (fconvert single double (unat x))
      | Double x \<Rightarrow> x
      | No_Number \<Rightarrow> of_nat (fof_int double (- 1)))
   }"

section \<open>Compatibility\<close>

text \<open>\<open>value_float(v) == (float)value_int32(v)\<close> and its kin, by the conversion of the integer.\<close>

definition same_float :: "value_mem \<Rightarrow> vptr \<Rightarrow> ('w :: len word \<Rightarrow> int) \<Rightarrow> 'w word option \<Rightarrow> bool option" where
  "same_float h v number i = do {
     f \<leftarrow> value_float h v;
     i \<leftarrow> i;
     Some (fequal single (unat f) (fof_int single (number i)))
   }"

definition same_double :: "value_mem \<Rightarrow> vptr \<Rightarrow> ('w :: len word \<Rightarrow> int) \<Rightarrow> 'w word option \<Rightarrow> bool option" where
  "same_double h v number i = do {
     d \<leftarrow> value_double h v;
     i \<leftarrow> i;
     Some (fequal double (unat d) (fof_int double (number i)))
   }"

definition value_is_compatible :: "value_mem \<Rightarrow> vptr \<Rightarrow> VALUE_TYPE \<Rightarrow> bool option" where
  "value_is_compatible h v type = do {
     t \<leftarrow> value_type h v;
     if t = type then Some True
     else if t = VALUE_INT32 then
       if type = VALUE_INT64 \<or> type = VALUE_FLOAT \<or> type = VALUE_DOUBLE then Some True
       else if type = VALUE_UINT32 \<or> type = VALUE_UINT64 then do { x \<leftarrow> value_int32 h v; Some (sint x \<ge> 0) }
       else Some False
     else if t = VALUE_UINT32 then
       if type = VALUE_INT64 \<or> type = VALUE_UINT64 \<or> type = VALUE_FLOAT \<or> type = VALUE_DOUBLE then Some True
       else if type = VALUE_INT32 then do { x \<leftarrow> value_uint32 h v; Some (uint x \<le> INT32_MAX) }
       else Some False
     else if t = VALUE_INT64 then
       if type = VALUE_FLOAT \<or> type = VALUE_DOUBLE then Some True
       else if type = VALUE_INT32 then do { x \<leftarrow> value_int64 h v; Some (sint x \<ge> INT32_MIN \<and> sint x \<le> INT32_MAX) }
       else if type = VALUE_UINT32 then do { x \<leftarrow> value_int64 h v; Some (sint x \<ge> 0 \<and> sint x \<le> UINT32_MAX) }
       else if type = VALUE_UINT64 then do { x \<leftarrow> value_int64 h v; Some (sint x \<ge> 0) }
       else Some False
     else if t = VALUE_UINT64 then
       if type = VALUE_FLOAT \<or> type = VALUE_DOUBLE then Some True
       else if type = VALUE_INT32 then do { x \<leftarrow> value_uint64 h v; Some (uint x \<le> INT32_MAX) }
       else if type = VALUE_UINT32 then do { x \<leftarrow> value_uint64 h v; Some (uint x \<le> UINT32_MAX) }
       else if type = VALUE_INT64 then do { x \<leftarrow> value_uint64 h v; Some (uint x \<le> INT64_MAX) }
       else Some False
     else if t = VALUE_FLOAT then
       if type = VALUE_DOUBLE then Some True
       else if type = VALUE_INT32 then same_float h v sint (value_int32 h v)
       else if type = VALUE_UINT32 then same_float h v uint (value_uint32 h v)
       else if type = VALUE_INT64 then same_float h v sint (value_int64 h v)
       else if type = VALUE_UINT64 then same_float h v uint (value_uint64 h v)
       else Some False
     else if t = VALUE_DOUBLE then
       if type = VALUE_FLOAT then Some True
       else if type = VALUE_INT32 then same_double h v sint (value_int32 h v)
       else if type = VALUE_UINT32 then same_double h v uint (value_uint32 h v)
       else if type = VALUE_INT64 then same_double h v sint (value_int64 h v)
       else if type = VALUE_UINT64 then same_double h v uint (value_uint64 h v)
       else Some False
     else Some False
   }"

section \<open>A number in a value\<close>

fun number_type :: "number \<Rightarrow> VALUE_TYPE" where
  "number_type (Int32 _) = VALUE_INT32"
| "number_type (Uint32 _) = VALUE_UINT32"
| "number_type (Int64 _) = VALUE_INT64"
| "number_type (Uint64 _) = VALUE_UINT64"
| "number_type (Float _) = VALUE_FLOAT"
| "number_type (Double _) = VALUE_DOUBLE"
| "number_type No_Number = VALUE_NULL"

fun number_bytes :: "number \<Rightarrow> byte list" where
  "number_bytes (Int32 x) = le_bytes x"
| "number_bytes (Uint32 x) = le_bytes x"
| "number_bytes (Int64 x) = le_bytes x"
| "number_bytes (Uint64 x) = le_bytes x"
| "number_bytes (Float x) = le_bytes x"
| "number_bytes (Double x) = le_bytes x"
| "number_bytes No_Number = []"

definition holds_number :: "value_mem \<Rightarrow> vptr \<Rightarrow> number \<Rightarrow> bool" where
  "holds_number h v n \<longleftrightarrow> (\<exists>x t. get_value h v = Some x \<and> length x = sizeof_VALUE \<and> x ! 0 = Some t \<and>
     t AND TYPE_MASK = number_type n \<and> t AND IS_MALLOCED = 0 \<and> take (length (number_bytes n)) (drop 1 x) = map Some (number_bytes n))"

lemma holds_number_reads:
  assumes "holds_number h v n"
  shows "value_type h v = Some (number_type n)" "value_number h v = Some n"
proof -
  obtain x t where x: "get_value h v = Some x" "length x = sizeof_VALUE" "x ! 0 = Some t" "t AND TYPE_MASK = number_type n"
    "t AND IS_MALLOCED = 0" "take (length (number_bytes n)) (drop 1 x) = map Some (number_bytes n)"
    using assms unfolding holds_number_def by blast
  have v: "v \<noteq> VNull" using get_value_at [OF x(1)] by simp
  have t: "data_get h v 0 = Some t" using x(1-3) by (simp add: data_get sizeof_VALUE_def)
  show type: "value_type h v = Some (number_type n)" using v t x(4) by (simp add: value_type_def)
  have payload: "value_payload h v = Some (Some (Inline v 1))"
    using v t x(5) by (simp add: value_payload_def value_payload_ex_def)
  have read: "payload_read h (Inline v 1) 0 (length (number_bytes n)) = Some (number_bytes n)"
    using x(1,2,6) by (cases n) (simp_all add: cells_read_def sizeof_VALUE_def those_map_Some)
  have words: "le_word (le_bytes (a :: 32 word)) = a" "le_word (le_bytes (b :: 64 word)) = b" for a b
    by (simp_all add: le_word_bytes)
  show "value_number h v = Some n"
    using type payload read by (cases n) (simp_all add: value_number_def payload_word_def words value_types del: payload_read.simps)
qed

end
