(* ===== verification/Value_Round.thy ===== *)
theory Value_Round
  imports Value_Number
begin

text \<open>
  How the numbers of \<open>data/value.c\<close> behave under conversion: integers of all widths, exact and inexact
  roundings of floating point numbers.
\<close>

section \<open>Decoding what was rounded\<close>

lemma bit_length_bounds: "0 < n \<Longrightarrow> 2 ^ (bit_length n - 1) \<le> n \<and> n < 2 ^ bit_length n \<and> 0 < bit_length n"
proof (induction n rule: bit_length.induct)
  case (1 n)
  show ?case
  proof (cases "n div 2 = 0")
    case True
    then have "n = 1" using 1(2) by auto
    then show ?thesis by (simp add: bit_length.simps)
  next
    case False
    then have ih: "2 ^ (bit_length (n div 2) - 1) \<le> n div 2" "n div 2 < 2 ^ bit_length (n div 2)" "0 < bit_length (n div 2)"
      using 1 by auto
    have bl: "bit_length n = Suc (bit_length (n div 2))" using 1(2) by (subst bit_length.simps) simp
    have "2 ^ bit_length (n div 2) = 2 * (2 ^ (bit_length (n div 2) - 1) :: nat)" using ih(3) by (cases "bit_length (n div 2)") simp_all
    moreover have "2 * (n div 2) \<le> n" "n < 2 * (n div 2) + 2" by simp_all
    ultimately show ?thesis unfolding bl power_Suc diff_Suc_1 using ih by linarith
  qed
qed

lemma bit_length_eq:
  assumes "2 ^ k \<le> n" "n < 2 ^ Suc k"
  shows "bit_length n = Suc k"
proof -
  have n: "0 < n" using assms(1) by (metis gr0I not_less zero_less_numeral zero_less_power)
  note b = bit_length_bounds [OF this]
  have "k < bit_length n" using assms(1) b by (metis le_less_trans one_less_numeral_iff power_less_imp_less_exp semiring_norm(76))
  moreover have "bit_length n - 1 < Suc k" using assms(2) b by (metis le_less_trans one_less_numeral_iff power_less_imp_less_exp semiring_norm(76))
  ultimately show ?thesis by simp
qed

lemma fdecode_normal:
  assumes "2 ^ frac_bits f \<le> q" "q < 2 * 2 ^ frac_bits f" "e + 2 < 2 ^ exp_bits f"
  shows "fdecode f (fsign f neg + (e * 2 ^ frac_bits f + q)) = Finite neg q (min_exp f + int e)"
proof -
  define A :: nat where "A = 2 ^ frac_bits f"
  define B :: nat where "B = 2 ^ exp_bits f"
  define s :: nat where "s = (if neg then 1 else 0)"
  have A: "0 < A" and B: "e + 2 < B" using assms(3) by (simp_all add: A_def B_def)
  obtain m where m: "q = A + m" "m < A" using assms(1,2) unfolding A_def [symmetric] by (metis add_less_cancel_left le_Suc_ex mult_2)
  have n: "fsign f neg + (e * 2 ^ frac_bits f + q) = (s * B + (e + 1)) * A + m"
    by (simp add: fsign_def s_def A_def B_def m(1) power_add algebra_simps)
  have "(Q * A + m) div A = Q" "(Q * A + m) mod A = m" for Q using m(2) A by simp_all
  note div = this [of "s * B + (e + 1)"]
  have "(s * B + r) div B = s" "(s * B + r) mod B = r" if "r < B" for r using that by simp_all
  from this [of "e + 1"] B have "(s * B + (e + 1)) div B = s" "(s * B + (e + 1)) mod B = e + 1" by simp_all
  then have B2: "((s * B + (e + 1)) * A + m) div (A * B) = s" "(s * B + (e + 1)) mod B = e + 1" "e + 1 \<noteq> B - 1"
    using B unfolding div_mult2_eq div by simp_all
  have pow: "2 ^ (frac_bits f + exp_bits f) = A * B" by (simp add: A_def B_def power_add)
  have odd: "odd s \<longleftrightarrow> neg" by (simp add: s_def)
  show ?thesis
    unfolding fdecode_def Let_def pow n unfolding A_def [symmetric] B_def [symmetric] unfolding div B2(1,2) odd
    using B2(3) m(1) by simp
qed

lemma fround_exact:
  assumes m: "0 < m" "bit_length m \<le> frac_bits f + 1" and x: "min_exp f \<le> x + int (bit_length m) - int (frac_bits f + 1)"
    "x + int (bit_length m) - int (frac_bits f + 1) - min_exp f + 2 < 2 ^ exp_bits f"
  defines "k \<equiv> frac_bits f + 1 - bit_length m"
  shows "fdecode f (fround f neg m x) = Finite neg (m * 2 ^ k) (x - int k)"
proof -
  let ?t = "x - int k"
  have t: "max (min_exp f) (x + int (bit_length m) - int (frac_bits f + 1)) = ?t" using m(2) x(1) by (simp add: k_def)
  define e where "e = nat (?t - min_exp f)"
  have e: "int e = ?t - min_exp f" "e + 2 < 2 ^ exp_bits f"
  proof -
    show e: "int e = ?t - min_exp f" using x(1) m(2) by (simp add: e_def k_def)
    have "int (e + 2) < 2 ^ exp_bits f" using x(2) m(2) unfolding of_nat_add e by (simp add: k_def)
    then have "int (e + 2) < int (2 ^ exp_bits f)" by simp
    then show "e + 2 < 2 ^ exp_bits f" by (simp only: of_nat_less_iff)
  qed
  note b = bit_length_bounds [OF m(1)]
  have "2 ^ (bit_length m - 1) * 2 ^ k \<le> m * 2 ^ k" using b by (intro mult_right_mono) simp_all
  moreover have "(2 :: nat) ^ (bit_length m - 1) * 2 ^ k = 2 ^ frac_bits f"
    using b m(2) unfolding power_add [symmetric] by (simp add: k_def)
  ultimately have lo: "2 ^ frac_bits f \<le> m * 2 ^ k" by (simp only:)
  have "m * 2 ^ k < 2 ^ bit_length m * 2 ^ k" using b by simp
  moreover have "(2 :: nat) ^ bit_length m * 2 ^ k = 2 * 2 ^ frac_bits f"
    using m(2) unfolding power_add [symmetric] by (simp add: k_def)
  ultimately have hi: "m * 2 ^ k < 2 * 2 ^ frac_bits f" by (simp only:)
  have "e * 2 ^ frac_bits f + m * 2 ^ k < finfinity f"
  proof -
    have "e * 2 ^ frac_bits f + m * 2 ^ k < (e + 2) * 2 ^ frac_bits f" using hi by (simp add: algebra_simps)
    also have "\<dots> \<le> (2 ^ exp_bits f - 1) * 2 ^ frac_bits f" using e(2) by (intro mult_right_mono) simp_all
    finally show ?thesis by (simp add: finfinity_def)
  qed
  moreover have "nat (x - ?t) = k" "?t \<le> x" by simp_all
  ultimately have "fround f neg m x = fsign f neg + (e * 2 ^ frac_bits f + m * 2 ^ k)"
    using m(1) unfolding fround_def t Let_def e_def [symmetric] by simp
  then show ?thesis using fdecode_normal [OF lo hi e(2), of neg] e(1) by simp
qed

lemma fround_bound: "fround f neg m x < 2 * 2 ^ (frac_bits f + exp_bits f)"
proof -
  have "fround f neg m x \<le> fsign f neg + finfinity f" by (simp add: fround_def Let_def)
  moreover have "finfinity f < 2 ^ (frac_bits f + exp_bits f)" by (simp add: finfinity_def power_add)
  moreover have "fsign f neg \<le> 2 ^ (frac_bits f + exp_bits f)" by (simp add: fsign_def)
  ultimately show ?thesis by linarith
qed

section \<open>Integers as doubles\<close>

lemma double_format: "frac_bits double = 52" "exp_bits double = 11" "min_exp double = - 1074"
  by (simp_all add: double_def min_exp_def)

lemma unat_double_bits: "unat (of_nat (fof_int double i) :: 64 word) = fof_int double i"
  using fround_bound [of double "i < 0" "nat \<bar>i\<bar>" 0] by (simp add: fof_int_def double_format unat_of_nat take_bit_nat_eq_self)

lemma fof_int_exact:
  assumes "i \<noteq> 0" "bit_length (nat \<bar>i\<bar>) \<le> 53"
  shows "fdecode double (fof_int double i) = Finite (i < 0) (nat \<bar>i\<bar> * 2 ^ (53 - bit_length (nat \<bar>i\<bar>))) (int (bit_length (nat \<bar>i\<bar>)) - 53)"
  using fround_exact [of "nat \<bar>i\<bar>" double 0 "i < 0"] assms by (simp add: fof_int_def double_format)

lemma fof_int_zero: "fof_int double 0 = 0" "fdecode double 0 = Finite False 0 (- 1074)"
  by (simp_all add: fof_int_def fround_def fsign_def fdecode_def double_format)

lemma bit_length_mono: "0 < n \<Longrightarrow> n < 2 ^ k \<Longrightarrow> bit_length n \<le> k"
proof -
  assume n: "0 < n" "n < 2 ^ k"
  note b = bit_length_bounds [OF n(1)]
  then have "(2 :: nat) ^ (bit_length n - 1) < 2 ^ k" using n(2) by linarith
  then have "bit_length n - 1 < k" by simp
  then show ?thesis by simp
qed

lemma fequal_refl: "(\<And>k. fdecode f n \<noteq> NaN k) \<Longrightarrow> fequal f n n"
  by (cases "fdecode f n") (auto simp: fequal_def)

text \<open>Half is added exactly, and the truncation takes it away again.\<close>

lemma fround_int_zero: "lo \<le> 0 \<Longrightarrow> 0 \<le> hi \<Longrightarrow> fround_int double lo hi 0 = Some 0"
proof -
  have "fadd double 0 (False, 1, - 1) = fround double False (2 ^ 1073) (- 1074)"
    by (simp add: fadd_def fof_int_zero(2) fvalue_at_def)
  moreover have "bit_length (2 ^ 1073) = 1074" using bit_length_eq [of 1073 "2 ^ 1073"] by simp
  then have "fround double False (2 ^ 1073) (- 1074) = 1022 * 2 ^ 52"
    by (simp add: fround_def double_format round_shift_def finfinity_def fsign_def)
  moreover have "fdecode double (1022 * 2 ^ 52) = Finite False (2 ^ 52) (- 53)"
    by (simp add: fdecode_def double_format)
  ultimately have "ftrunc double (fadd double 0 (False, 1, - 1)) = Some 0" by (simp add: ftrunc_def)
  moreover have "fnonneg double 0" by (simp add: fnonneg_def fof_int_zero(2))
  ultimately show "lo \<le> 0 \<Longrightarrow> 0 \<le> hi \<Longrightarrow> fround_int double lo hi 0 = Some 0" by (simp add: fround_int_def fto_int_def)
qed

lemma fround_int_of_int:
  assumes i: "\<bar>i\<bar> < 2 ^ 52" "lo \<le> i" "i \<le> hi"
  shows "fround_int double lo hi (fof_int double i) = Some i"
proof (cases "i = 0")
  case True
  then show ?thesis using i fround_int_zero by (simp add: fof_int_zero)
next
  case False
  define n where "n = nat \<bar>i\<bar>"
  define b where "b = bit_length n"
  define s where "s = (2 * n + 1) * 2 ^ (52 - b)"
  have n: "0 < n" "n < 2 ^ 52" using False i(1) by (simp_all add: n_def nat_less_iff)
  note bl = bit_length_bounds [OF n(1), folded b_def]
  have b: "b \<le> 52" using bit_length_mono [OF n] by (simp add: b_def)
  have d: "fdecode double (fof_int double i) = Finite (i < 0) (n * 2 ^ (53 - b)) (int b - 53)"
    using fof_int_exact [of i] False b by (simp add: n_def b_def)
  have nonneg: "fnonneg double (fof_int double i) \<longleftrightarrow> 0 < i" using False n(1) by (auto simp: fnonneg_def d)
  have pow: "(2 :: nat) ^ (53 - b) = 2 * 2 ^ (52 - b)" using b by (simp flip: power_Suc add: Suc_diff_le)
  have s: "s = n * 2 ^ (53 - b) + 2 ^ (52 - b)" by (simp add: s_def pow algebra_simps)
  have "fadd double (fof_int double i) (i < 0, 1, - 1) = fround double (i < 0) s (int b - 53)"
  proof -
    have y: "min (int b - 53) (- 1) = int b - 53" "nat (- 1 - (int b - 53)) = 52 - b" using b by auto
    have "fvalue_at (int b - 53) (i < 0) (n * 2 ^ (53 - b)) (int b - 53) + fvalue_at (int b - 53) (i < 0) 1 (- 1) =
        (if i < 0 then - int s else int s)" by (simp add: fvalue_at_def y(2) s)
    moreover have "0 < s" by (simp add: s_def)
    ultimately show ?thesis unfolding fadd_def d fnum.case Let_def split y(1) by (cases "i < 0") simp_all
  qed
  then have sum: "(if fnonneg double (fof_int double i) then fadd double (fof_int double i) (False, 1, - 1)
      else fadd double (fof_int double i) (True, 1, - 1)) = fround double (i < 0) s (int b - 53)"
    using nonneg False by (cases "i < 0") simp_all
  have "(2 :: nat) ^ b = 2 * 2 ^ (b - 1)" using bl by (cases b) simp_all
  then have le: "2 ^ b \<le> 2 * n + 1" and lt: "2 * n + 1 < 2 * 2 ^ b" using bl by linarith+
  have "2 ^ b * 2 ^ (52 - b) \<le> s" unfolding s_def by (rule mult_right_mono [OF le]) simp
  moreover have "s < 2 * 2 ^ b * 2 ^ (52 - b)" unfolding s_def by (rule mult_strict_right_mono [OF lt]) simp
  moreover have "(2 :: nat) ^ b * 2 ^ (52 - b) = 2 ^ 52" using b by (simp flip: power_add)
  ultimately have "2 ^ 52 \<le> s" "s < 2 ^ Suc 52" by (simp_all only: mult.assoc power_Suc)
  then have bs: "bit_length s = 53" using bit_length_eq [of 52 s] by simp
  have "fdecode double (fround double (i < 0) s (int b - 53)) = Finite (i < 0) s (int b - 53)"
    using fround_exact [of s double "int b - 53" "i < 0"] bs b by (simp add: double_format s_def)
  moreover have "s div 2 ^ nat (- (int b - 53)) = n"
  proof -
    have e: "nat (- (int b - 53)) = 53 - b" using b by simp
    have div: "(n * (2 * P) + P) div (2 * P) = n" if "0 < P" for P :: nat using that by simp
    show ?thesis unfolding e s pow by (rule div) simp
  qed
  ultimately have "ftrunc double (fround double (i < 0) s (int b - 53)) = Some i"
    using b by (simp add: ftrunc_def n_def Let_def)
  then show ?thesis using i unfolding fround_int_def sum fto_int_def by simp
qed

section \<open>Integers\<close>

fun integer :: "number \<Rightarrow> int option" where
  "integer (Int32 x) = Some (sint x)"
| "integer (Uint32 x) = Some (uint x)"
| "integer (Int64 x) = Some (sint x)"
| "integer (Uint64 x) = Some (uint x)"
| "integer _ = None"

definition integer_types :: "VALUE_TYPE set" where
  "integer_types = {VALUE_INT32, VALUE_UINT32, VALUE_INT64, VALUE_UINT64}"

definition type_min :: "VALUE_TYPE \<Rightarrow> int" where
  "type_min type = (if type = VALUE_INT32 then INT32_MIN else if type = VALUE_INT64 then INT64_MIN else 0)"

definition type_max :: "VALUE_TYPE \<Rightarrow> int" where
  "type_max type = (if type = VALUE_INT32 then INT32_MAX else if type = VALUE_UINT32 then UINT32_MAX
     else if type = VALUE_INT64 then INT64_MAX else UINT64_MAX)"

text \<open>The getter of an integer type, and the number that it returns.\<close>

definition get_integer :: "value_mem \<Rightarrow> vptr \<Rightarrow> VALUE_TYPE \<Rightarrow> int option" where
  "get_integer h v type =
     (if type = VALUE_INT32 then map_option sint (value_int32 h v)
      else if type = VALUE_UINT32 then map_option uint (value_uint32 h v)
      else if type = VALUE_INT64 then map_option sint (value_int64 h v)
      else map_option uint (value_uint64 h v))"

lemma scast_down: "(scast (y :: 64 word) :: 32 word) = ucast y"
  by (rule bit_word_eqI) (simp add: bit_simps)

lemma integer_getters:
  assumes "holds_number h v n" "integer n = Some i"
  shows "value_int32 h v = Some (word_of_int i)" "value_uint32 h v = Some (word_of_int i)"
    "value_int64 h v = Some (word_of_int i)" "value_uint64 h v = Some (word_of_int i)"
  using assms(2) holds_number_reads(2) [OF assms(1)]
  by (cases n; auto simp: value_int32_def value_uint32_def value_int64_def value_uint64_def scast_down)+

lemma word_of_range:
  "INT32_MIN \<le> i \<Longrightarrow> i \<le> INT32_MAX \<Longrightarrow> sint (word_of_int i :: 32 word) = i"
  "0 \<le> i \<Longrightarrow> i \<le> UINT32_MAX \<Longrightarrow> uint (word_of_int i :: 32 word) = i"
  "INT64_MIN \<le> i \<Longrightarrow> i \<le> INT64_MAX \<Longrightarrow> sint (word_of_int i :: 64 word) = i"
  "0 \<le> i \<Longrightarrow> i \<le> UINT64_MAX \<Longrightarrow> uint (word_of_int i :: 64 word) = i"
  by (simp_all add: int_limits sint_sbintrunc' uint_word_of_int signed_take_bit_int_eq_self)

lemma get_integer_range:
  assumes "type \<in> integer_types" "type_min type \<le> i" "i \<le> type_max type"
    and "value_int32 h v = Some (word_of_int i)" "value_uint32 h v = Some (word_of_int i)"
      "value_int64 h v = Some (word_of_int i)" "value_uint64 h v = Some (word_of_int i)"
  shows "get_integer h v type = Some i"
  using assms word_of_range [of i]
  by (auto simp: integer_types_def type_min_def type_max_def get_integer_def value_types)

lemma integer_range:
  "integer (Int32 x) = Some i \<Longrightarrow> INT32_MIN \<le> i \<and> i \<le> INT32_MAX" "integer (Uint32 x) = Some i \<Longrightarrow> 0 \<le> i \<and> i \<le> UINT32_MAX"
  "integer (Int64 y) = Some i \<Longrightarrow> INT64_MIN \<le> i \<and> i \<le> INT64_MAX" "integer (Uint64 y) = Some i \<Longrightarrow> 0 \<le> i \<and> i \<le> UINT64_MAX"
  using sint_greater_eq [of x] sint_less [of x] sint_greater_eq [of y] sint_less [of y] uint_lt2p [of x] uint_lt2p [of y]
  by (auto simp: int_limits)

text \<open>What the initializers leave.\<close>

lemma length_number: "length (number_bytes n) \<le> 8"
  by (cases n) simp_all

lemma type_plain: "number_type n AND IS_MALLOCED = 0" "number_type n AND TYPE_MASK = number_type n"
  by (cases n; simp add: value_types value_flags)+

lemma holds_inline:
  assumes "get_value h v = Some (inline_cells x (number_type n) (number_bytes n))" "length x = sizeof_VALUE"
  shows "holds_number h v n"
  unfolding holds_number_def using assms length_number [of n] type_plain [of n]
  by (intro exI [of _ "inline_cells x (number_type n) (number_bytes n)"] exI [of _ "number_type n"])
    (auto simp: inline_cells_def sizeof_VALUE_def)

lemma init_number:
  assumes x: "get_value h v = Some x" "length x = sizeof_VALUE"
  shows "value_init_simple lib h v (number_type n) (number_bytes n) = Some (0, upd_value h v (inline_cells x (number_type n) (number_bytes n)))"
    "holds_number (upd_value h v (inline_cells x (number_type n) (number_bytes n))) v n"
proof -
  note len = length_number [of n]
  have "unat (of_nat (length (number_bytes n)) :: size_t) = length (number_bytes n)" using len by (simp add: unat_of_nat)
  then have "value_init_ex lib h v (number_type n) (of_nat (length (number_bytes n))) 1 = Some (Some (Inline v 1), upd_value h v (x[0 := Some (number_type n)]))"
    using value_init_ex(1) [OF x, of "of_nat (length (number_bytes n))" 1 lib "number_type n"] len by (simp add: sizeof_VALUE_def)
  moreover have "take 1 (x[0 := Some (number_type n)]) @ map Some (number_bytes n) @ drop (1 + length (number_bytes n)) (x[0 := Some (number_type n)]) =
      inline_cells x (number_type n) (number_bytes n)" using x(2) by (cases x) (simp_all add: inline_cells_def sizeof_VALUE_def)
  ultimately show "value_init_simple lib h v (number_type n) (number_bytes n) = Some (0, upd_value h v (inline_cells x (number_type n) (number_bytes n)))"
    using x len by (simp add: value_init_simple_def value_init_def inline_write value_simps sizeof_VALUE_def del: payload_write.simps)
  show "holds_number (upd_value h v (inline_cells x (number_type n) (number_bytes n))) v n"
    by (rule holds_inline [OF _ x(2)]) (use x in \<open>simp add: value_simps\<close>)
qed

text \<open>
  C35. On a value of an integer type, \<open>value_is_compatible\<close> with an integer type says exactly whether that type has
  the number, and if so, the getter of that type returns the number.
\<close>

theorem value_is_compatible_integers:
  assumes "holds_number h v n" "integer n = Some i" "type \<in> integer_types"
  shows "if type_min type \<le> i \<and> i \<le> type_max type
    then value_is_compatible h v type = Some True \<and> get_integer h v type = Some i
    else value_is_compatible h v type = Some False"
proof -
  note get = integer_getters [OF assms(1,2)] and t = holds_number_reads(1) [OF assms(1)]
  have "value_is_compatible h v type = Some (type_min type \<le> i \<and> i \<le> type_max type)"
  proof (cases n)
    case (Int32 x)
    then show ?thesis using assms(2,3) t get word_of_range [of i] integer_range(1) [of x i]
      by (auto simp: value_is_compatible_def integer_types_def type_min_def type_max_def int_limits value_types)
  next
    case (Uint32 x)
    then show ?thesis using assms(2,3) t get word_of_range [of i] integer_range(2) [of x i]
      by (auto simp: value_is_compatible_def integer_types_def type_min_def type_max_def int_limits value_types)
  next
    case (Int64 x)
    then show ?thesis using assms(2,3) t get word_of_range [of i] integer_range(3) [of x i]
      by (auto simp: value_is_compatible_def integer_types_def type_min_def type_max_def int_limits value_types)
  next
    case (Uint64 x)
    then show ?thesis using assms(2,3) t get word_of_range [of i] integer_range(4) [of x i]
      by (auto simp: value_is_compatible_def integer_types_def type_min_def type_max_def int_limits value_types)
  qed (use assms(2) in simp_all)
  then show ?thesis using get_integer_range [OF assms(3) _ _ get] by (simp split: if_splits)
qed

definition int64_mem :: value_mem where
  "int64_mem = [64 \<mapsto> Variable (inline_cells (indeterminate sizeof_VALUE) VALUE_INT64 (le_bytes (5000000000 :: 64 word)))]"

lemma int64_mem_holds: "holds_number int64_mem (Var 64) (Int64 5000000000)"
  by (rule holds_inline [of _ _ "indeterminate sizeof_VALUE"]) (simp_all add: int64_mem_def load_def indeterminate_def)

lemma value_is_compatible_integers_witness:
  "value_is_compatible int64_mem (Var 64) VALUE_INT32 = Some False"
proof -
  have "integer (Int64 5000000000) = Some 5000000000" by simp
  from value_is_compatible_integers [OF int64_mem_holds this, of VALUE_INT32] show ?thesis
    by (simp add: integer_types_def type_min_def type_max_def int_limits)
qed

section \<open>Doubles\<close>

lemma value_double_integer:
  "holds_number h v n \<Longrightarrow> integer n = Some i \<Longrightarrow> value_double h v = Some (of_nat (fof_int double i))"
  using holds_number_reads(2) [of h v n] by (cases n) (auto simp: value_double_def)

lemma fdecode_integer: "\<bar>i\<bar> < 2 ^ 52 \<Longrightarrow> fdecode double (fof_int double i) \<noteq> NaN k"
proof (cases "i = 0")
  case False
  assume "\<bar>i\<bar> < 2 ^ 52"
  then have "bit_length (nat \<bar>i\<bar>) \<le> 52" using False by (intro bit_length_mono) (simp_all add: nat_less_iff)
  then show ?thesis using fof_int_exact [of i] False by simp
qed (simp add: fof_int_zero)

text \<open>
  A number of an integer type, below \<open>2 ^ 52\<close> in magnitude, survives a copy into a \<open>double\<close>: the copy is compatible
  with every integer type that has the number, and the getter of that type returns it.
\<close>

theorem integer_double_roundtrip:
  assumes "holds_number h v n" "integer n = Some i" "\<bar>i\<bar> < 2 ^ 52" "get_value h w = Some x" "length x = sizeof_VALUE"
    and "type \<in> integer_types" "type_min type \<le> i" "i \<le> type_max type"
  shows "\<exists>d h'. value_double h v = Some d \<and> value_init_double lib h w d = Some (0, h') \<and>
    get_integer h' w type = Some i \<and> value_is_compatible h' w type = Some True"
proof -
  define d :: "64 word" where "d = of_nat (fof_int double i)"
  define h' where "h' = upd_value h w (inline_cells x (number_type (Double d)) (number_bytes (Double d)))"
  have w: "w \<noteq> VNull" using assms(4) by auto
  have init: "value_init_double lib h w d = Some (0, h')"
    using init_number(1) [OF assms(4,5), of lib "Double d"] w by (simp add: value_init_double_def h'_def)
  have "holds_number h' w (Double d)" unfolding h'_def by (rule init_number(2) [OF assms(4,5)])
  note reads = holds_number_reads [OF this]
  have unat: "unat d = fof_int double i" by (simp add: d_def unat_double_bits)
  have round: "fround_int double lo hi (unat d) = Some i" if "lo \<le> i" "i \<le> hi" for lo hi
    using fround_int_of_int [OF assms(3) that] unat by simp
  have get: "get_integer h' w type = Some i"
    using assms(6-8) reads(2) round word_of_range [of i]
    by (auto simp: integer_types_def type_min_def type_max_def get_integer_def value_types ROUNDD_def
        value_int32_def value_uint32_def value_int64_def value_uint64_def)
  have same: "fequal double (unat d) (fof_int double i)" using fequal_refl fdecode_integer [OF assms(3)] unat by simp
  have "value_double h' w = Some d" using reads(2) by (simp add: value_double_def)
  then have "value_is_compatible h' w type = Some True"
    using assms(6) get reads(1) same
    by (auto simp: integer_types_def get_integer_def value_is_compatible_def same_double_def value_types)
  then show ?thesis using value_double_integer [OF assms(1,2)] init get unfolding d_def by blast
qed

lemma integer_double_roundtrip_witness:
  "\<exists>d h'. value_double int64_mem (Var 64) = Some d \<and> value_init_double no_memory int64_mem (Var 64) d = Some (0, h') \<and>
    get_integer h' (Var 64) VALUE_INT64 = Some 5000000000 \<and> value_is_compatible h' (Var 64) VALUE_INT64 = Some True"
proof -
  have "integer (Int64 5000000000) = Some 5000000000" by simp
  note start = integer_double_roundtrip [OF int64_mem_holds this]
  show ?thesis
  proof (rule start)
    show "get_value int64_mem (Var 64) = Some (inline_cells (indeterminate sizeof_VALUE) VALUE_INT64 (le_bytes (5000000000 :: 64 word)))"
      by (simp add: int64_mem_def load_def)
    show "length (inline_cells (indeterminate sizeof_VALUE) VALUE_INT64 (le_bytes (5000000000 :: 64 word))) = sizeof_VALUE"
      by (simp add: inline_cells_def indeterminate_def sizeof_VALUE_def)
    show "VALUE_INT64 \<in> integer_types" "type_min VALUE_INT64 \<le> 5000000000" "5000000000 \<le> type_max VALUE_INT64"
      by (simp_all add: integer_types_def type_min_def type_max_def int_limits value_types)
  qed simp
qed

section \<open>Floats that are not rounded as they should be\<close>

lemma single_format: "frac_bits single = 23" "exp_bits single = 8" "min_exp single = - 149"
  by (simp_all add: single_def min_exp_def)

text \<open>Half is no longer exact for odd numbers of 24 bits: the sum is the next even number.\<close>

lemma fround_single_half:
  assumes "2 ^ 23 < n" "n < 2 ^ 24" "odd n"
  shows "fround single False (2 * n + 1) (- 1) = 149 * 2 ^ 23 + (n + 1)"
proof -
  have bl: "bit_length (Suc (2 * n)) = 25" using bit_length_eq [of 24 "2 * n + 1"] assms by simp
  have "round_shift (2 * n + 1) 1 = n + 1" using assms(3) by (simp add: round_shift_def mod_Suc_eq flip: mod_mult_self4)
  then show ?thesis using assms
    by (simp add: fround_def bl single_format fsign_def finfinity_def)
qed

lemma fdecode_single_int:
  assumes "2 ^ 23 \<le> n" "n \<le> 2 ^ 24"
  shows "ftrunc single (149 * 2 ^ 23 + n) = Some (int n)" "n = 2 ^ 24 \<Longrightarrow> fdecode single (149 * 2 ^ 23 + n) = Finite False (2 ^ 23) 1"
    "n < 2 ^ 24 \<Longrightarrow> fdecode single (149 * 2 ^ 23 + n) = Finite False n 0"
proof -
  show normal: "n < 2 ^ 24 \<Longrightarrow> fdecode single (149 * 2 ^ 23 + n) = Finite False n 0"
    using fdecode_normal [of single n 149 False] assms by (simp add: single_format fsign_def)
  have carry: "n = 2 ^ 24 \<Longrightarrow> fdecode single (149 * 2 ^ 23 + n) = Finite False (2 ^ 23) 1"
    using fdecode_normal [of single "2 ^ 23" 150 False] by (simp add: single_format fsign_def)
  show "n = 2 ^ 24 \<Longrightarrow> fdecode single (149 * 2 ^ 23 + n) = Finite False (2 ^ 23) 1" by (rule carry)
  show "ftrunc single (149 * 2 ^ 23 + n) = Some (int n)"
    using normal carry assms by (cases "n = 2 ^ 24"; simp add: ftrunc_def)+
qed

lemma fof_int_single: "2 ^ 23 \<le> n \<Longrightarrow> n \<le> 2 ^ 24 \<Longrightarrow> fof_int single (int n) = 149 * 2 ^ 23 + n"
proof (cases "n = 2 ^ 24")
  case True
  have "bit_length (2 ^ 24) = 25" using bit_length_eq [of 24 "2 ^ 24"] by simp
  then show ?thesis using True by (simp add: fof_int_def fround_def single_format fsign_def finfinity_def round_shift_def)
next
  case False
  assume n: "2 ^ 23 \<le> n" "n \<le> 2 ^ 24"
  then have "bit_length n = 24" using bit_length_eq [of 23 n] False by simp
  then show ?thesis using n False by (simp add: fof_int_def fround_def single_format fsign_def finfinity_def)
qed

text \<open>
  C36. A \<open>float\<close> that holds an odd number between \<open>2 ^ 23\<close> and \<open>2 ^ 24\<close> is an integer that fits, but \<open>value_int32\<close>
  returns the next one, because adding one half rounds, and \<open>value_is_compatible\<close> denies that it is an \<open>int32_t\<close>.
\<close>

theorem value_int32_off_by_one:
  assumes "holds_number h v (Float f)" "unat f = 149 * 2 ^ 23 + n" "2 ^ 23 < n" "n < 2 ^ 24" "odd n"
  shows "fdecode single (unat f) = Finite False n 0 \<and> value_int32 h v = Some (of_nat (n + 1)) \<and>
    value_is_compatible h v VALUE_INT32 = Some False"
proof -
  note reads = holds_number_reads [OF assms(1)]
  have n: "2 ^ 23 \<le> n" "n \<le> 2 ^ 24" "2 ^ 23 \<le> n + 1" "n + 1 \<le> 2 ^ 24" using assms(3,4) by simp_all
  note d = fdecode_single_int(3) [OF n(1,2) assms(4)]
  have nonneg: "fnonneg single (unat f)" unfolding assms(2) fnonneg_def d by simp
  have "fadd single (unat f) (False, 1, - 1) = fround single False (2 * n + 1) (- 1)"
    unfolding assms(2) fadd_def d by (simp add: fvalue_at_def nat_add_distrib nat_mult_distrib mult.commute)
  also have "\<dots> = 149 * 2 ^ 23 + (n + 1)" by (rule fround_single_half [OF assms(3-5)])
  finally have "fround_int single INT32_MIN INT32_MAX (unat f) = Some (int (n + 1))"
    using nonneg fdecode_single_int(1) [OF n(3,4)] n(4)
    by (simp add: fround_int_def fto_int_def int_limits)
  then have get: "value_int32 h v = Some (of_nat (n + 1))" using reads(2) by (simp add: value_int32_def ROUNDF_def)
  have "sint (of_nat (n + 1) :: 32 word) = int (n + 1)" using word_of_range(1) [of "int (n + 1)"] n(4) by (simp add: int_limits)
  moreover have "\<not> fequal single (149 * 2 ^ 23 + n) (149 * 2 ^ 23 + (n + 1))"
  proof (cases "n + 1 = 2 ^ 24")
    case True
    show ?thesis unfolding fequal_def d fdecode_single_int(2) [OF n(3,4) True] using True by (simp add: fvalue_at_def)
  next
    case False
    then have less: "n + 1 < 2 ^ 24" using n(4) by simp
    show ?thesis unfolding fequal_def d fdecode_single_int(3) [OF n(3,4) less] by (simp add: fvalue_at_def)
  qed
  ultimately have "value_is_compatible h v VALUE_INT32 = Some False"
    using reads get fof_int_single [OF n(3,4)] assms(2)
    by (simp add: value_is_compatible_def same_float_def value_float_def value_types)
  then show ?thesis using d get assms(2) by simp
qed

definition float_mem :: value_mem where
  "float_mem = [64 \<mapsto> Variable (inline_cells (indeterminate sizeof_VALUE) VALUE_FLOAT (le_bytes (0x4B000001 :: 32 word)))]"

lemma float_mem_holds: "holds_number float_mem (Var 64) (Float 0x4B000001)"
  by (rule holds_inline [of _ _ "indeterminate sizeof_VALUE"]) (simp_all add: float_mem_def load_def indeterminate_def)

lemma value_int32_off_by_one_witness:
  "value_int32 float_mem (Var 64) = Some 8388610 \<and> value_is_compatible float_mem (Var 64) VALUE_INT32 = Some False"
  using value_int32_off_by_one [OF float_mem_holds, of 8388609] by simp

section \<open>Undefined conversions\<close>

text \<open>Large numbers are integers, to which half adds nothing.\<close>

lemma fadd_large:
  assumes "fdecode single f = Finite False m x" "2 ^ 23 \<le> m" "m < 2 ^ 24" "1 \<le> x" "x \<le> 104"
  shows "fdecode single (fadd single f (False, 1, - 1)) = Finite False m x"
proof -
  define s where "s = m * 2 ^ nat (x + 1) + 1"
  have one: "(2 :: nat) ^ 2 \<le> 2 ^ nat (x + 1)" using assms(4) by (intro power_increasing) simp_all
  have sum: "fvalue_at (- 1) False m x + fvalue_at (- 1) False 1 (- 1) = int s" by (simp add: fvalue_at_def s_def)
  have add: "fadd single f (False, 1, - 1) = fround single False s (- 1)"
    using assms(4) sum by (simp add: fadd_def assms(1))
  have "bit_length s = 24 + nat (x + 1)"
  proof -
    have "2 ^ 23 * 2 ^ nat (x + 1) \<le> m * 2 ^ nat (x + 1)" using assms(2) by (intro mult_right_mono) simp_all
    then have "2 ^ 23 * 2 ^ nat (x + 1) \<le> s" unfolding s_def by (rule le_trans) (rule le_add1)
    moreover have "s < 2 ^ 24 * 2 ^ nat (x + 1)"
    proof -
      have "(m + 1) * 2 ^ nat (x + 1) \<le> 2 ^ 24 * 2 ^ nat (x + 1)" using assms(3) by (intro mult_right_mono) simp_all
      moreover have "s < (m + 1) * 2 ^ nat (x + 1)" using one by (simp add: s_def)
      ultimately show ?thesis by (rule order.strict_trans2 [rotated])
    qed
    ultimately have "2 ^ (23 + nat (x + 1)) \<le> s" "s < 2 ^ Suc (23 + nat (x + 1))" by (simp_all only: power_add power_Suc mult.assoc)
      (simp_all add: mult.assoc)
    from bit_length_eq [OF this] show ?thesis by simp
  qed
  moreover have "round_shift s (nat (x + 1)) = m"
  proof -
    have "(m * P + 1) div P = m" "(m * P + 1) mod P = 1" if "4 \<le> P" for P :: nat using that div_mult_self3 [of P m 1] mod_mult_self3 [of m P 1] by simp_all
    then show ?thesis using one by (simp add: round_shift_def s_def)
  qed
  moreover have "nat (x + 149) * 2 ^ 23 + m < finfinity single"
  proof -
    have "nat (x + 149) * 2 ^ 23 \<le> 253 * 2 ^ 23" using assms(5) by (intro mult_right_mono) simp_all
    then show ?thesis using assms(3) by (simp add: finfinity_def single_format)
  qed
  moreover have "0 < s" by (simp add: s_def)
  moreover have t: "max (- 149) (- 1 + int (24 + nat (x + 1)) - int (23 + 1)) = x" "x - - 1 = x + 1" "\<not> x \<le> - 1" "x - - 149 = x + 149"
    using assms(4) by simp_all
  ultimately have "fround single False s (- 1) = nat (x + 149) * 2 ^ 23 + m"
    unfolding fround_def single_format by (simp only: t Let_def if_True if_False if_not_P fsign_def)
  moreover have "fdecode single (nat (x + 149) * 2 ^ 23 + m) = Finite False m x"
    using fdecode_normal [of single m "nat (x + 149)" False] assms by (simp add: single_format fsign_def)
  ultimately show ?thesis using add by simp
qed

text \<open>
  C37. \<open>value_is_compatible\<close> is meant to tell whether a \<open>float\<close> can be read as an \<open>int32_t\<close>, but for numbers of \<open>2 ^ 31\<close>
  and more, for infinities and for NaN it converts the number first, which is undefined behaviour.
\<close>

theorem value_is_compatible_undefined:
  assumes "holds_number h v (Float f)"
    and "case fdecode single (unat f) of NaN _ \<Rightarrow> True | Infinite _ \<Rightarrow> True
      | Finite neg m x \<Rightarrow> \<not> neg \<and> 2 ^ 23 \<le> m \<and> m < 2 ^ 24 \<and> 8 \<le> x \<and> x \<le> 104"
  shows "value_is_compatible h v VALUE_INT32 = None"
proof -
  note reads = holds_number_reads [OF assms(1)]
  have "fround_int single INT32_MIN INT32_MAX (unat f) = None"
  proof (cases "fdecode single (unat f)")
    case (Finite neg m x)
    then have f: "fdecode single (unat f) = Finite False m x" "2 ^ 23 \<le> m" "m < 2 ^ 24" "8 \<le> x" "x \<le> 104" using assms(2) by simp_all
    have "fdecode single (fadd single (unat f) (False, 1, - 1)) = Finite False m x" using fadd_large [OF f(1-3)] f(4,5) by simp
    then have "ftrunc single (fadd single (unat f) (False, 1, - 1)) = Some (int (m * 2 ^ nat x))" using f(4) by (simp add: ftrunc_def Let_def)
    moreover have "2 ^ 23 * 2 ^ 8 \<le> m * 2 ^ nat x" using f(2,4) by (intro mult_mono power_increasing) simp_all
    then have "int (2 ^ 23 * 2 ^ 8) \<le> int (m * 2 ^ nat x)" by (simp only: of_nat_le_iff)
    then have "INT32_MAX < int (m * 2 ^ nat x)" by (rule less_le_trans [rotated]) (simp add: int_limits)
    moreover have "fnonneg single (unat f)" using f(1) by (simp add: fnonneg_def)
    ultimately show ?thesis by (simp add: fround_int_def fto_int_def)
  next
    case (NaN k)
    then have "k = unat f" by (simp add: fdecode_def Let_def split: if_splits)
    then show ?thesis using NaN by (simp add: fround_int_def fto_int_def ftrunc_def fadd_def)
  next
    case (Infinite neg)
    then show ?thesis by (simp add: fround_int_def fto_int_def ftrunc_def fadd_def)
  qed
  then show ?thesis using reads
    by (simp add: value_is_compatible_def same_float_def value_float_def value_int32_def ROUNDF_def value_types)
qed

definition infinite_mem :: value_mem where
  "infinite_mem = [64 \<mapsto> Variable (inline_cells (indeterminate sizeof_VALUE) VALUE_FLOAT (le_bytes (0x7F800000 :: 32 word)))]"

lemma value_is_compatible_undefined_witness:
  "value_is_compatible infinite_mem (Var 64) VALUE_INT32 = None"
proof (rule value_is_compatible_undefined)
  show "holds_number infinite_mem (Var 64) (Float 0x7F800000)"
    by (rule holds_inline [of _ _ "indeterminate sizeof_VALUE"]) (simp_all add: infinite_mem_def load_def indeterminate_def)
qed (simp add: fdecode_def single_format)

end
