(* ===== verification/Malloca.thy ===== *)
theory Malloca
  imports Memchunk
begin

text \<open>
  \<open>mem/malloca.h\<close>: memory from \<open>alloca\<close> or from \<open>malloc\<close>, whichever the size asks for, with a mark in front
  of it that tells \<open>FREEA\<close> where it is from. The memory maps the address of a live block to its area, its length
  in bytes and the mark at its start. The answers of \<open>alloca\<close> and \<open>malloc\<close> are parameters.
\<close>

section \<open>The macros\<close>

datatype area = On_Stack | On_Heap

record MARKED =
  ma_area :: area
  ma_len :: nat
  ma_mark :: "uint32 option"

type_synonym marked_mem = "addr \<rightharpoonup> MARKED"

definition MALLOCA_THRESHOLD :: size_t where "MALLOCA_THRESHOLD = 1024"
definition sizeof_pointer :: size_t where "sizeof_pointer = 8"

text \<open>The mark is an \<open>int\<close>: a block of fewer than 4 bytes has no room for it.\<close>

definition malloca_set_mark :: "marked_mem \<Rightarrow> addr \<Rightarrow> uint32 \<Rightarrow> (addr \<times> marked_mem) option" where
  "malloca_set_mark h ptr mark =
     (if ptr \<noteq> NULL then do {
        x \<leftarrow> load h ptr;
        if 4 \<le> ma_len x then Some (ptr + sizeof_pointer, h(ptr \<mapsto> x\<lparr>ma_mark := Some mark\<rparr>)) else None
      }
      else Some (ptr, h))"

definition new_block :: "marked_mem \<Rightarrow> addr \<Rightarrow> area \<Rightarrow> size_t \<Rightarrow> marked_mem" where
  "new_block h p where n = (if p = NULL then h else h(p \<mapsto> \<lparr>ma_area = where, ma_len = unat n, ma_mark = None\<rparr>))"

definition MALLOCA_ex ::
    "(size_t \<Rightarrow> addr) \<Rightarrow> (size_t \<Rightarrow> addr) \<Rightarrow> marked_mem \<Rightarrow> size_t \<Rightarrow> size_t \<Rightarrow> (addr \<times> marked_mem) option" where
  "MALLOCA_ex alloca malloc h n threshold =
     (let m = n + sizeof_pointer in
      if n < threshold - sizeof_pointer
      then malloca_set_mark (new_block h (alloca m) On_Stack m) (alloca m) 0xcccc
      else malloca_set_mark (new_block h (malloc m) On_Heap m) (malloc m) 0xdddd)"

definition MALLOCA :: "(size_t \<Rightarrow> addr) \<Rightarrow> (size_t \<Rightarrow> addr) \<Rightarrow> marked_mem \<Rightarrow> size_t \<Rightarrow> (addr \<times> marked_mem) option" where
  "MALLOCA alloca malloc h n = MALLOCA_ex alloca malloc h n MALLOCA_THRESHOLD"

text \<open>\<open>free\<close> takes back heap blocks only; reading a mark that was never written is an error.\<close>

definition FREEA :: "marked_mem \<Rightarrow> addr \<Rightarrow> marked_mem option" where
  "FREEA h ptr =
     (if ptr \<noteq> NULL then do {
        let p = ptr - sizeof_pointer;
        x \<leftarrow> load h p;
        mark \<leftarrow> ma_mark x;
        if mark = 0xdddd then (if ma_area x = On_Heap then Some (h(p := None)) else None) else Some h
      }
      else Some h)"

section \<open>What the allocators promise\<close>

text \<open>A new block overlaps no live one and ends inside the address space; \<open>alloca\<close> reports no failure and is
  trusted with fewer bytes than the threshold.\<close>

definition fresh_block :: "marked_mem \<Rightarrow> addr \<Rightarrow> nat \<Rightarrow> bool" where
  "fresh_block h p n \<longleftrightarrow> p \<noteq> NULL \<and> h p = None \<and> unat p + n < 2 ^ 64 \<and>
     (\<forall>b x. h b = Some x \<longrightarrow> region b (ma_len x) \<inter> region p n = {})"

definition allocators_ok :: "marked_mem \<Rightarrow> (size_t \<Rightarrow> addr) \<Rightarrow> (size_t \<Rightarrow> addr) \<Rightarrow> size_t \<Rightarrow> bool" where
  "allocators_ok h alloca malloc threshold \<longleftrightarrow>
     (\<forall>n. n < threshold \<longrightarrow> fresh_block h (alloca n) (unat n)) \<and> (\<forall>n. malloc n = NULL \<or> fresh_block h (malloc n) (unat n))"

text \<open>\<open>n\<close> bytes at \<open>p\<close> in a live block, behind its mark; no other block of \<open>h\<close> has any of them.\<close>

definition usable :: "marked_mem \<Rightarrow> marked_mem \<Rightarrow> addr \<Rightarrow> nat \<Rightarrow> area \<Rightarrow> bool" where
  "usable h h' p n a \<longleftrightarrow> (\<exists>x. h (p - 8) = None \<and> h' = h(p - 8 \<mapsto> x) \<and> ma_area x = a \<and>
     region p n \<subseteq> region (p - 8) (ma_len x) - region (p - 8) 8 \<and>
     (\<forall>b y. h b = Some y \<longrightarrow> region b (ma_len y) \<inter> region p n = {}))"

lemma unat_plus_8: "unat p + 8 < 2 ^ 64 \<Longrightarrow> unat (p + 8 :: size_t) = unat p + 8"
  by (simp add: unat_plus_if_size word_size)

lemma marked_block:
  assumes f: "fresh_block h p (unat (n + 8))" and n: "unat n < 2 ^ 64 - 8"
  shows "\<exists>h'. malloca_set_mark (new_block h p a (n + sizeof_pointer)) p m = Some (p + 8, h') \<and> usable h h' (p + 8) (unat n) a \<and>
    p + 8 \<noteq> NULL \<and> (\<exists>x. h' p = Some x \<and> ma_mark x = Some m)"
proof -
  let ?x = "\<lparr>ma_area = a, ma_len = unat n + 8, ma_mark = Some m\<rparr>"
  note F = f [unfolded fresh_block_def]
  have len: "unat (n + 8) = unat n + 8" using n by (intro unat_plus_8) simp
  have off: "unat (p + 8) = unat p + 8" using F len by (intro unat_plus_8) simp
  then have "p + 8 \<noteq> NULL" by auto
  moreover have "region (p + 8) (unat n) \<subseteq> region p (unat n + 8) - region p 8" by (auto simp: region_def off)
  moreover have "region (p + 8) (unat n) \<subseteq> region p (unat (n + 8))" by (auto simp: region_def off len)
  ultimately have "usable h (h(p \<mapsto> ?x)) (p + 8) (unat n) a" using F unfolding usable_def
    by (intro exI [of _ ?x]) (simp add: len, blast)
  then show ?thesis using F \<open>p + 8 \<noteq> NULL\<close>
    by (simp add: malloca_set_mark_def new_block_def sizeof_pointer_def load_def len)
qed

lemma FREEA_marked:
  assumes "p \<noteq> NULL" "p - 8 \<noteq> NULL" "g (p - 8) = Some x" "ma_mark x = Some m" "m = 0xdddd \<Longrightarrow> ma_area x = On_Heap"
  shows "FREEA g p = Some (if m = 0xdddd then g(p - 8 := None) else g)"
  using assms by (simp add: FREEA_def sizeof_pointer_def load_def)

text \<open>
  C38. For every size that leaves room for the mark (below \<open>2 ^ 64 - 8\<close>) and every threshold of at least 8,
  \<open>MALLOCA_\<close> hands out that many bytes which no live block has, on the stack exactly when they fit the
  threshold with the mark; it returns \<open>NULL\<close>, and changes nothing, exactly when they do not fit and \<open>malloc\<close>
  answers \<open>NULL\<close>. As long as the block lives, \<open>FREEA\<close> releases it if it is on the heap and does nothing if it is
  on the stack.
\<close>

theorem malloca_freea:
  assumes "allocators_ok h alloca malloc threshold" and "unat n < 2 ^ 64 - 8" and "8 \<le> unat threshold"
  defines "a \<equiv> if unat n + 8 < unat threshold then On_Stack else On_Heap"
  shows "if a = On_Heap \<and> malloc (n + 8) = NULL then MALLOCA_ex alloca malloc h n threshold = Some (NULL, h)
    else \<exists>p h'. MALLOCA_ex alloca malloc h n threshold = Some (p, h') \<and> p \<noteq> NULL \<and> usable h h' p (unat n) a \<and>
      (\<forall>g. g (p - 8) = h' (p - 8) \<longrightarrow> FREEA g p = Some (if a = On_Heap then g(p - 8 := None) else g))"
proof -
  have "unat (threshold - 8) = unat threshold - 8" using assms(3) by (simp add: unat_sub word_le_nat_alt)
  then have small: "n < threshold - sizeof_pointer \<longleftrightarrow> a = On_Stack"
    using assms(3) by (simp add: a_def word_less_nat_alt sizeof_pointer_def less_diff_conv)
  define m :: uint32 where "m = (if a = On_Stack then 0xcccc else 0xdddd)"
  define p where "p = (if a = On_Stack then alloca (n + 8) else malloc (n + 8))"
  have run: "MALLOCA_ex alloca malloc h n threshold = malloca_set_mark (new_block h p a (n + sizeof_pointer)) p m"
    unfolding MALLOCA_ex_def m_def p_def Let_def small by (cases a) (simp_all add: sizeof_pointer_def)
  have "unat (n + 8) = unat n + 8" using assms(2) by (intro unat_plus_8) simp
  then have "a = On_Stack \<Longrightarrow> n + 8 < threshold" by (simp add: a_def word_less_nat_alt split: if_splits)
  then have fresh: "p = NULL \<and> a = On_Heap \<or> fresh_block h p (unat (n + 8))"
    using assms(1) unfolding p_def allocators_ok_def by (cases a) auto
  show ?thesis
  proof (cases "p = NULL")
    case True
    then have "a = On_Heap" using fresh by (auto simp: fresh_block_def)
    then have "a = On_Heap \<and> malloc (n + 8) = NULL" using True by (simp add: p_def)
    then show ?thesis unfolding if_P [OF \<open>a = On_Heap \<and> malloc (n + 8) = NULL\<close>]
      by (simp add: run True malloca_set_mark_def new_block_def)
  next
    case False
    then have "fresh_block h p (unat (n + 8))" using fresh by blast
    from marked_block [OF this assms(2), of a m] obtain h' x where
      h': "malloca_set_mark (new_block h p a (n + sizeof_pointer)) p m = Some (p + 8, h')" "usable h h' (p + 8) (unat n) a" "p + 8 \<noteq> NULL"
        "h' p = Some x" "ma_mark x = Some m" by blast
    have x: "ma_area x = a" using h'(2,4) by (auto simp: usable_def)
    have "m = 0xdddd \<longleftrightarrow> a = On_Heap" by (cases a) (simp_all add: m_def)
    then have "g p = h' p \<Longrightarrow> FREEA g (p + 8) = Some (if a = On_Heap then g(p := None) else g)" for g
      using FREEA_marked [of "p + 8" g x m] False h'(3,4,5) x by simp
    moreover have "\<not> (a = On_Heap \<and> malloc (n + 8) = NULL)" using False by (auto simp: p_def)
    ultimately show ?thesis using h'(1-3) by (simp only: if_False) (intro exI [of _ "p + 8"] exI [of _ h'], simp add: run)
  qed
qed

text \<open>100 bytes on the stack, and 2000 on the heap, in an empty memory.\<close>

lemma malloca_freea_witness:
  "(\<exists>p h'. MALLOCA (\<lambda>_. 8) (\<lambda>_. NULL) Map.empty 100 = Some (p, h') \<and> usable Map.empty h' p 100 On_Stack \<and> FREEA h' p = Some h') \<and>
   (\<exists>p h'. MALLOCA (\<lambda>_. 8) (\<lambda>n. if n < 4096 then 8192 else NULL) Map.empty 2000 = Some (p, h') \<and>
      usable Map.empty h' p 2000 On_Heap \<and> FREEA h' p = Some Map.empty)"
proof (rule conjI)
  have "allocators_ok Map.empty (\<lambda>_. 8) (\<lambda>_. NULL) MALLOCA_THRESHOLD"
    by (simp add: allocators_ok_def fresh_block_def MALLOCA_THRESHOLD_def word_less_nat_alt)
  from malloca_freea [OF this, of 100]
  show "\<exists>p h'. MALLOCA (\<lambda>_. 8) (\<lambda>_. NULL) Map.empty 100 = Some (p, h') \<and> usable Map.empty h' p 100 On_Stack \<and> FREEA h' p = Some h'"
    by (auto simp: MALLOCA_def MALLOCA_THRESHOLD_def)
next
  have "allocators_ok Map.empty (\<lambda>_. 8) (\<lambda>n. if n < 4096 then 8192 else NULL) MALLOCA_THRESHOLD"
    by (simp add: allocators_ok_def fresh_block_def MALLOCA_THRESHOLD_def word_less_nat_alt)
  from malloca_freea [OF this, of 2000]
  obtain p h' where m: "MALLOCA (\<lambda>_. 8) (\<lambda>n. if n < 4096 then 8192 else NULL) Map.empty 2000 = Some (p, h')"
    "usable Map.empty h' p 2000 On_Heap" "FREEA h' p = Some (h'(p - 8 := None))"
    by (auto simp: MALLOCA_def MALLOCA_THRESHOLD_def)
  moreover have "h'(p - 8 := None) = Map.empty" using m(2) by (auto simp: usable_def)
  ultimately show "\<exists>p h'. MALLOCA (\<lambda>_. 8) (\<lambda>n. if n < 4096 then 8192 else NULL) Map.empty 2000 = Some (p, h') \<and>
      usable Map.empty h' p 2000 On_Heap \<and> FREEA h' p = Some Map.empty" by simp
qed

section \<open>Arguments it does not expect\<close>

text \<open>The threshold minus 8 wraps around: with a threshold below 8, which asks for the heap, every block is on
  the stack.\<close>

lemma malloca_small_threshold:
  assumes "unat threshold < 8" "unat n < 2 ^ 64 - 8"
  shows "MALLOCA_ex alloca malloc h n threshold =
    malloca_set_mark (new_block h (alloca (n + 8)) On_Stack (n + 8)) (alloca (n + 8)) 0xcccc"
proof -
  have "unat (threshold - 8) = unat threshold + 2 ^ 64 - 8" using assms(1)
    by (simp add: unat_sub_if_size word_size word_le_nat_alt)
  then have "n < threshold - sizeof_pointer" using assms by (simp add: word_less_nat_alt sizeof_pointer_def)
  then show ?thesis by (simp add: MALLOCA_ex_def sizeof_pointer_def Let_def)
qed

text \<open>The size plus 8 wraps around: for the last eight sizes the block from \<open>malloc\<close> has fewer than 8 bytes. The mark
  does not fit, or the pointer returned is behind the end of the block.\<close>

lemma malloca_size_wraps:
  assumes "2 ^ 64 - 8 \<le> unat n" "8 \<le> unat threshold" "threshold < 2 ^ 63" "malloc (n + 8) \<noteq> NULL"
    "MALLOCA_ex alloca malloc h n threshold = Some (p, h')"
  shows "p = malloc (n + 8) + 8 \<and> (\<exists>x. h' (malloc (n + 8)) = Some x \<and> ma_len x < 8)"
proof -
  have "unat (threshold - 8) = unat threshold - 8" using assms(2) by (simp add: unat_sub word_le_nat_alt)
  then have big: "\<not> n < threshold - sizeof_pointer" using assms(1,3) by (simp add: word_less_nat_alt sizeof_pointer_def)
  have "unat n < 2 ^ 64" using unsigned_less [of n] by simp
  then have "unat (n + 8) < 8" using assms(1) by (simp add: unat_plus_if_size word_size split: if_splits)
  then show ?thesis using assms(4,5) big
    by (auto simp: MALLOCA_ex_def Let_def malloca_set_mark_def new_block_def sizeof_pointer_def load_def split: if_splits)
qed

end
