(* ===== verification/Defs.thy ===== *)
theory Defs
  imports CRE_Prelude
begin

text \<open>
  \<open>misc/defs.h\<close>: the helper macros. They compare with \<open><\<close>, \<open>>\<close> and \<open>\<ge>\<close> of the type of their arguments, which is
  here any linear order: \<open>int\<close> for the signed types, words for the unsigned ones. \<open>ABS\<close> negates in an \<open>int\<close> of 32
  bits, where the least number has no negation. What the compiler knows of a structure (the size of its
  elements, the offset of a member) is an argument. \<open>MIN\<close> and \<open>MAX\<close> are taken by the logic: they are \<open>MIN2\<close> and \<open>MAX2\<close>.
\<close>

definition MIN2 :: "'a::linorder \<Rightarrow> 'a \<Rightarrow> 'a" where "MIN2 a b = (if a < b then a else b)"
definition MAX2 :: "'a::linorder \<Rightarrow> 'a \<Rightarrow> 'a" where "MAX2 a b = (if a > b then a else b)"
definition MIN3 :: "'a::linorder \<Rightarrow> 'a \<Rightarrow> 'a \<Rightarrow> 'a" where "MIN3 a b c = MIN2 (MIN2 a b) c"
definition MAX3 :: "'a::linorder \<Rightarrow> 'a \<Rightarrow> 'a \<Rightarrow> 'a" where "MAX3 a b c = MAX2 (MAX2 a b) c"
definition CLAMP :: "'a::linorder \<Rightarrow> 'a \<Rightarrow> 'a \<Rightarrow> 'a" where "CLAMP x lo hi = MIN2 (MAX2 x lo) hi"

definition ABS :: "uint32 \<Rightarrow> uint32 option" where
  "ABS a = (if c_int a \<ge> 0 then Some a else if c_int a = - (2 ^ 31) then None else Some (- a))"

definition SIZEOF_ARRAY :: "size_t \<Rightarrow> size_t \<Rightarrow> size_t" where
  "SIZEOF_ARRAY size_of_array size_of_element = size_of_array div size_of_element"

definition CONTAINEROF :: "addr \<Rightarrow> size_t \<Rightarrow> addr" where
  "CONTAINEROF p offset_of_member = p - offset_of_member"

lemma MIN2_MAX2: "MIN2 = min" "MAX2 = max"
  by (auto simp: fun_eq_iff MIN2_def MAX2_def min_def max_def)

text \<open>The nearest number of the range. The comment in the source leaves \<open>hi < lo\<close> undefined; the result is then \<open>hi\<close>.\<close>

lemma CLAMP_nearest:
  "CLAMP x lo hi \<le> hi"
  "lo \<le> hi \<Longrightarrow> lo \<le> CLAMP x lo hi"
  "lo \<le> x \<Longrightarrow> x \<le> hi \<Longrightarrow> CLAMP x lo hi = x"
  "hi < lo \<Longrightarrow> CLAMP x lo hi = hi"
  by (auto simp: CLAMP_def MIN2_MAX2 max_def min_def)

lemma MIN3_MAX3_bounds:
  "MIN3 a b c \<in> {a, b, c} \<and> (\<forall>x \<in> {a, b, c}. MIN3 a b c \<le> x)"
  "MAX3 a b c \<in> {a, b, c} \<and> (\<forall>x \<in> {a, b, c}. x \<le> MAX3 a b c)"
  by (auto simp: MIN3_def MAX3_def MIN2_MAX2 min_def max_def)

text \<open>\<open>ABS\<close> is defined for every \<open>int\<close> but the least one.\<close>

lemma ABS_correct: "ABS a = (if c_int a = - (2 ^ 31) then None else Some (of_int \<bar>c_int a\<bar>))"
  by (simp add: ABS_def)

text \<open>A member leads back to its structure, and an array of \<open>n\<close> elements has \<open>n\<close> elements.\<close>

lemma CONTAINEROF_member: "CONTAINEROF (p + offset_of_member) offset_of_member = p"
  by (simp add: CONTAINEROF_def)

lemma SIZEOF_ARRAY_count:
  assumes "0 < unat m" "n * unat m < 2 ^ 64"
  shows "SIZEOF_ARRAY (of_nat (n * unat m)) m = of_nat n"
proof (rule iffD2 [OF word_unat_eq_iff])
  have "n \<le> n * unat m" using assms(1) by simp
  with assms(2) have n: "n < 2 ^ 64" by linarith
  have u: "k < 2 ^ 64 \<Longrightarrow> unat (of_nat k :: size_t) = k" for k by (simp add: unsigned_of_nat take_bit_nat_eq_self)
  have "unat (of_nat (n * unat m) div m) = unat (of_nat (n * unat m) :: size_t) div unat m" by (rule unat_div)
  also have "unat (of_nat (n * unat m) :: size_t) = n * unat m" by (rule u [OF assms(2)])
  finally show "unat (SIZEOF_ARRAY (of_nat (n * unat m)) m) = unat (of_nat n :: size_t)"
    using assms(1) n by (simp add: SIZEOF_ARRAY_def u [OF n])
qed

end
