(* ===== verification/Spec2Isabelle.thy ===== *)
theory Spec2Isabelle
  imports Hex Base64 Intrusive_List Buffer_Wrappers Containers Memchunk Memstream Cmdline_Spec Value_Dict_Remove Value_Build_Path Value_Array Value_Round Malloca Defs
begin

text \<open>
  A verification development for the C library "C Reusables": small, independent modules meant to be
  copied into other programs. Each module has a group of definitions that follow its functions one
  by one, and theorems that state what the module promises to its callers.

  \<^bold>\<open>How the code is modelled.\<close> A C function that may go wrong (a null or dangling access, an access
  outside a block, signed overflow, a loop that does not end) is a function into \<^typ>\<open>'a option\<close>, with
  \<^term>\<open>None\<close> for "goes wrong"; the C error codes are values inside \<open>Some\<close>. So every theorem that says
  "\<open>= Some ...\<close>" says that the code terminates and is memory safe. Integers have the width of the
  code on an LP64 target (\<open>CRE_Prelude\<close>): \<open>unsigned\<close> is \<^typ>\<open>32 word\<close>, \<open>size_t\<close> and pointers are
  \<^typ>\<open>64 word\<close>. Linked structures live in a map from addresses to nodes; reading and writing it
  are checked. The outcome of \<open>malloc\<close> and \<open>realloc\<close>, comparators, hash functions and destructors
  are arguments. A theorem about an operation that allocates says exactly when it fails: the predicates
  \<open>string_refused\<close>, \<open>key_refused\<close> and \<open>growth_refused\<close> name the request that \<open>malloc\<close> or \<open>realloc\<close> answers with
  \<open>NULL\<close>. Loops that nothing bounds are \<^theory_text>\<open>partial_function (option)\<close>, so that a result is a
  theorem and never an assumption; no fuel is used anywhere.

  \<^bold>\<open>The parts.\<close>

  \<^item> \<open>encode/hex.c\<close>: theory \<open>Hex\<close>; \<open>encode/base64.c\<close>: theory \<open>Base64\<close>. Both provide the contract of a
    codec (locale in \<open>Codec\<close>). Encoding and decoding are exact, stay inside their buffers, and are
    inverse to each other; malformed text is refused except for the two deviations proved there
    (letters after \<open>f\<close> in hexadecimal, characters above 127 in base64).

  \<^item> \<open>hash/crc32.c\<close>, \<open>hash/fnv1a.c\<close>: theory \<open>Hash\<close>. The table-driven checksum equals the bitwise one,
    its table is the one the commented-out program computes, and changes within four consecutive
    bytes are detected. FNV-1a can be continued and separates single changes. Both provide the
    contract of a byte-wise hash.

  \<^item> \<open>data/list.h\<close>: theory \<open>Intrusive_List\<close>, the three intrusive lists. A heap represents a sequence of
    nodes; every function is the corresponding edit of the sequence. Two locales hold what the
    lists share: iteration, and the use as a queue under appends and removals in any order.

  \<^item> \<open>data/buffer.c\<close>, \<open>data/buffer.h\<close>: theories \<open>Buffer\<close> (the code), \<open>Buffer_Bytes\<close> (the buffer as a list
    of bytes) and \<open>Buffer_Wrappers\<close> (stacks and typed arrays as lists of words; one polymorphic
    definition stands for the nine instances of each typed function). \<open>Bytes\<close> has the little-endian
    words, \<open>Sequence\<close> the contract of an editable sequence that the buffer and the arrays provide.

  \<^item> \<open>data/rbtree.c\<close>, \<open>data/rbtree.h\<close>: theory \<open>Rbtree_Code\<close> has all the functions, with the colour in the
    lowest bit of the left pointer and the bounded path of the code. \<open>Rbtree_Shape\<close> is the theory of
    abstract trees with a focus (the path) and of their balance; \<open>Rbtree_Heap\<close> connects the memory
    with an abstract tree; \<open>Rbtree_Insert\<close>, \<open>Rbtree_Remove\<close> and \<open>Rbtree_Walk\<close> prove insertion, removal,
    and lookup, cursors, verification and cleaning. The paths of a valid tree have at most 126
    entries, since fewer than \<open>2 ^ 63\<close> nodes have even, non-null addresses, so the 128 entries of
    the code suffice.

  \<^item> \<open>data/htable.c\<close>, \<open>data/htable.h\<close>: theory \<open>Htable\<close> has all the functions. \<open>Htable_Inv\<close> is the
    representation (the chains of the slots are disjoint lists, every node is in the slot of its
    hash), \<open>Htable_Ops\<close> the effect of each step, \<open>Htable_Set\<close> the table as a set of nodes with
    different keys. The sizes are \<open>int\<close> computations: they are right up to 25 planes, that is up to
    \<open>59 * (2 ^ 25 - 1)\<close> nodes, which is the bound on insertions.

  \<^item> \<open>Comparator\<close> is the contract of comparators; \<open>Value_Key\<close> (the default order of dictionary keys
    of \<open>data/value.c\<close>) provides it. \<open>Container\<close> is the contract of a container of nodes with unique
    keys; \<open>Rbtree_Set\<close> and \<open>Containers\<close> show that the tree and the hash table (the latter with FNV-1a)
    provide it, so that they answer every sequence of requests alike as long as the table gets its memory.

  \<^item> \<open>mem/memchunk.c\<close>: theory \<open>Memchunk\<close>, on the map of the live blocks of \<open>malloc\<close>. The states reachable by
    any sequence of calls are a step relation; in all of them the pieces handed out are disjoint and
    inside live blocks, and \<open>memchunk_fini\<close> gives every block back.

  \<^item> \<open>misc/cmdline.c\<close>: theory \<open>Cmdline\<close> has the parser, \<open>Cmdline_Spec\<close> the calls it makes: they do not
    depend on the callback, fit the options array, and read a well-formed command line back. The
    search in a group of short options misses a flag, which is a theorem too.

  \<^item> \<open>win32/memstream.c\<close>: theory \<open>Memstream\<close>, every method of the read-only stream and both
    constructors. Reference counts govern its life; reading and seeking stay in the data; \<open>CopyTo\<close> does
    not when the requested count wraps around.

  \<^item> \<open>data/value.c\<close>, \<open>data/value.h\<close>: theory \<open>Value_Mem\<close> has the 16 bytes of a \<open>VALUE\<close>, some perhaps
    never written, the memory of blocks around it, initialisation and strings; \<open>Value_Code\<close> arrays and the
    search in dictionaries; \<open>Value_Dict\<close> insertion, removal, release and walks; \<open>Value_Path\<close> the paths.
    \<open>Value_String\<close> shows that strings are read back (up to the length whose shift overflows). The
    dictionary repeats the algorithms of \<open>data/rbtree.c\<close> on nodes that keep the colour in their key:
    \<open>Value_Sim\<close> shows that each of its functions simulates the one of \<open>Rbtree_Code\<close>, so that
    \<open>Value_Dict_Spec\<close> (search), \<open>Value_Dict_Add\<close> and \<open>Value_Dict_Insert\<close> (insertion) and \<open>Value_Dict_Remove\<close>
    (removal) rest on the theorems about those, for the default order of the keys and for that of the
    caller. \<open>Value_Own\<close> says which blocks a value owns, at any depth, and that \<open>value_fini\<close> releases exactly
    these; \<open>Value_Array\<close> shows that insertion into and removal from arrays are those of lists, up to a count that
    wraps around. \<open>Value_Path_Spec\<close> reads a list of keys and indices back from the text of its path, and
    \<open>Value_Build_Path\<close> shows that building a path changes nothing where all of it exists. \<open>Value_Float\<close> is IEEE
    arithmetic on bit patterns, as far as the getters of numbers in \<open>Value_Number\<close> need it; \<open>Value_Round\<close> shows
    which conversions keep a number.

  \<^item> \<open>mem/malloca.h\<close>: theory \<open>Malloca\<close>, on a memory of marked blocks of either area; what \<open>alloca\<close> and
    \<open>malloc\<close> answer is a parameter. \<open>FREEA\<close> releases exactly the heap blocks.

  \<^item> \<open>misc/defs.h\<close>: theory \<open>Defs\<close>, the macros as functions of their arguments.

  \<^bold>\<open>Not modelled.\<close> The macros that recover a structure from
  the node inside it (\<open>LIST_DATA\<close>, \<open>RBTREE_DATA\<close>, \<open>HTABLE_DATA\<close>) are address arithmetic of the
  caller: here a node is its address. Functions that only free a block (\<open>buffer_fini\<close> and its kin)
  have no definition, and \<open>tests/\<close> is not part of the library.
\<close>

end
